(* ===== verification/Prelude.thy ===== *)
theory Prelude
  imports Main "HOL-Library.Multiset"
begin

text \<open>
  Shared vocabulary of the development: how Go's slices, integers and run-time panics
  are represented, list lemmas used by several components, and two reusable interfaces
  (quorums, and transition systems with an inductive invariant).

  Conventions. A Go \<open>int\<close> is an Isabelle \<open>int\<close> (the counters of the program start at zero and
  grow by one per event, the 64-bit bound is not modelled; the places where the code
  relies on the width, hashing and bit sets, use words). A slice is a list, by value.
  A partial operation returns an \<open>option\<close>, and \<open>None\<close> is a Go run-time panic (index or
  slice bound out of range), which ends the process.
\<close>

section \<open>Collections of facts\<close>

named_theorems go_simps \<open>evaluation of Go's indexing and slicing in range\<close>
named_theorems frame_simps \<open>fields an operation leaves unchanged\<close>

section \<open>Go slices\<close>

text \<open>\<open>xs[i]\<close>: a panic outside \<open>0..len(xs)-1\<close>.\<close>

definition go_nth :: "'a list \<Rightarrow> int \<Rightarrow> 'a option" where
  "go_nth xs i = (if 0 \<le> i \<and> i < int (length xs) then Some (xs ! nat i) else None)"

text \<open>\<open>xs[i] = v\<close>.\<close>

definition go_upd :: "'a list \<Rightarrow> int \<Rightarrow> 'a \<Rightarrow> 'a list option" where
  "go_upd xs i v = (if 0 \<le> i \<and> i < int (length xs) then Some (xs[nat i := v]) else None)"

text \<open>
  \<open>xs[i:]\<close> and \<open>xs[:i]\<close>. Go bounds \<open>xs[:i]\<close> by the capacity, which is at least the length and
  is not part of the model; every use in the program has \<open>i \<le> len(xs)\<close>.
\<close>

definition go_from :: "'a list \<Rightarrow> int \<Rightarrow> 'a list option" where
  "go_from xs i = (if 0 \<le> i \<and> i \<le> int (length xs) then Some (drop (nat i) xs) else None)"

definition go_upto :: "'a list \<Rightarrow> int \<Rightarrow> 'a list option" where
  "go_upto xs i = (if 0 \<le> i \<and> i \<le> int (length xs) then Some (take (nat i) xs) else None)"

abbreviation go_len :: "'a list \<Rightarrow> int" where
  "go_len xs \<equiv> int (length xs)"

lemma go_nth_in [go_simps]: "0 \<le> i \<Longrightarrow> i < go_len xs \<Longrightarrow> go_nth xs i = Some (xs ! nat i)"
  by (simp add: go_nth_def)

lemma go_upd_in [go_simps]: "0 \<le> i \<Longrightarrow> i < go_len xs \<Longrightarrow> go_upd xs i v = Some (xs[nat i := v])"
  by (simp add: go_upd_def)

lemma go_upto_in [go_simps]: "0 \<le> i \<Longrightarrow> i \<le> go_len xs \<Longrightarrow> go_upto xs i = Some (take (nat i) xs)"
  by (simp add: go_upto_def)

lemma go_from_in [go_simps]: "0 \<le> i \<Longrightarrow> i \<le> go_len xs \<Longrightarrow> go_from xs i = Some (drop (nat i) xs)"
  by (simp add: go_from_def)

lemma map_sum_Inr_iff: "map_sum f g s = Inr y \<longleftrightarrow> (\<exists>x. s = Inr x \<and> y = g x)"
  by (cases s) auto

lemma go_nth_Some_iff: "go_nth xs i = Some x \<longleftrightarrow> 0 \<le> i \<and> i < go_len xs \<and> x = xs ! nat i"
  by (auto simp: go_nth_def)

lemma go_nth_None_iff: "go_nth xs i = None \<longleftrightarrow> i < 0 \<or> go_len xs \<le> i"
  by (auto simp: go_nth_def)

lemma go_upd_Some_iff: "go_upd xs i v = Some ys \<longleftrightarrow> 0 \<le> i \<and> i < go_len xs \<and> ys = xs[nat i := v]"
  by (auto simp: go_upd_def)

lemma go_upto_Some_iff: "go_upto xs i = Some ys \<longleftrightarrow> 0 \<le> i \<and> i \<le> go_len xs \<and> ys = take (nat i) xs"
  by (auto simp: go_upto_def)

lemma go_from_Some_iff: "go_from xs i = Some ys \<longleftrightarrow> 0 \<le> i \<and> i \<le> go_len xs \<and> ys = drop (nat i) xs"
  by (auto simp: go_from_def)

lemma go_nth_last: "xs \<noteq> [] \<Longrightarrow> go_nth xs (go_len xs - 1) = Some (last xs)"
  by (cases xs rule: rev_cases) (auto simp: go_nth_def nth_append nat_diff_distrib)

lemmas go_Some_iffs = go_nth_Some_iff go_upd_Some_iff go_upto_Some_iff go_from_Some_iff

text \<open>A loop over a range whose body may end the process.\<close>

fun go_for :: "('i \<Rightarrow> 's \<Rightarrow> 'e + 's) \<Rightarrow> 'i list \<Rightarrow> 's \<Rightarrow> 'e + 's" where
  "go_for f [] s = Inr s"
| "go_for f (i # is) s = (case f i s of Inl e \<Rightarrow> Inl e | Inr s \<Rightarrow> go_for f is s)"

lemma go_for_append:
  "go_for f (xs @ ys) s = (case go_for f xs s of Inl e \<Rightarrow> Inl e | Inr s \<Rightarrow> go_for f ys s)"
  by (induction xs arbitrary: s) (auto split: sum.splits)

section \<open>Lists\<close>

lemma take_update_ge: "n \<le> i \<Longrightarrow> take n (xs[i := x]) = take n xs"
  by (simp add: take_update_swap list_update_beyond)

lemma split_order:
  "xs @ a # ys = us @ b # vs \<Longrightarrow> a \<in> set us \<or> a = b \<or> b \<in> set xs"
proof (induction xs arbitrary: us)
  case Nil
  then show ?case by (cases us) auto
next
  case (Cons x xs)
  then show ?case by (cases us) auto
qed

lemma length_takeWhile_exists: "\<exists>x \<in> set xs. \<not> P x \<Longrightarrow> length (takeWhile P xs) < length xs"
  by (induction xs) auto

lemma sorted_wrt_iff:
  "(\<And>x y. x \<in> set xs \<Longrightarrow> y \<in> set xs \<Longrightarrow> P x y \<longleftrightarrow> Q x y) \<Longrightarrow> sorted_wrt P xs \<longleftrightarrow> sorted_wrt Q xs"
  by (induction xs) auto

lemma split_at_unique:
  "a \<notin> set xs \<Longrightarrow> a \<notin> set xs' \<Longrightarrow> xs @ a # ys = xs' @ a # ys' \<longleftrightarrow> xs = xs' \<and> ys = ys'"
proof (induction xs arbitrary: xs')
  case Nil
  then show ?case by (cases xs') auto
next
  case (Cons x xs)
  then show ?case by (cases xs') auto
qed

lemma those_map_Some: "those (map (\<lambda>x. Some (f x)) xs) = Some (map f xs)"
  by (induction xs) auto

lemma those_eq_Some_length: "those xs = Some ys \<Longrightarrow> length ys = length xs"
proof (induction xs arbitrary: ys)
  case Nil
  then show ?case by simp
next
  case (Cons x xs)
  then show ?case by (cases x) auto
qed

lemma those_map_SomeD:
  "those (map f xs) = Some ys \<Longrightarrow> list_all2 (\<lambda>x y. f x = Some y) xs ys"
proof (induction xs arbitrary: ys)
  case Nil
  then show ?case by simp
next
  case (Cons x xs)
  then show ?case by (cases "f x") auto
qed

lemma those_pairs:
  assumes "those (map (\<lambda>i. map_option (Pair i) (f i)) xs) = Some ys" and "(j, b) \<in> set ys"
  shows "j \<in> set xs \<and> f j = Some b"
proof -
  obtain x where x: "x < length ys" "ys ! x = (j, b)" using assms(2) by (auto simp: in_set_conv_nth)
  then have o: "x < length xs" "map_option (Pair (xs ! x)) (f (xs ! x)) = Some (j, b)"
    using those_map_SomeD [OF assms(1)] by (auto simp: list_all2_conv_all_nth)
  then have "xs ! x = j" "f j = Some b" by auto
  then show ?thesis using nth_mem [OF o(1)] by simp
qed

lemma those_map_total: "(\<And>x. x \<in> set xs \<Longrightarrow> \<exists>y. f x = Some y) \<Longrightarrow> \<exists>ys. those (map f xs) = Some ys"
proof (induction xs)
  case Nil
  then show ?case by simp
next
  case (Cons x xs)
  from Cons.prems obtain y where "f x = Some y" by fastforce
  moreover from Cons obtain ys where "those (map f xs) = Some ys" by fastforce
  ultimately show ?case by simp
qed

section \<open>Quorums\<close>

text \<open>The one law agreement rests on: two quorums share a member.\<close>

locale quorum_system =
  fixes quorum :: "'n set \<Rightarrow> bool"
  assumes quorum_meet: "quorum A \<Longrightarrow> quorum B \<Longrightarrow> A \<inter> B \<noteq> {}"
begin

text \<open>A function that gives one value per member cannot have two quorums behind two values.\<close>

lemma quorum_choice_unique:
  assumes "quorum A" and "quorum B"
    and "\<And>v. v \<in> A \<Longrightarrow> choice v = Some a"
    and "\<And>v. v \<in> B \<Longrightarrow> choice v = Some b"
  shows "a = b"
proof -
  from quorum_meet [OF assms(1,2)] obtain v where "v \<in> A" "v \<in> B" by blast
  with assms(3,4) show ?thesis by fastforce
qed

end

text \<open>The test of the code, \<open>count > len(peers)/2\<close>, as a predicate on sets of server numbers.\<close>

definition majority :: "nat \<Rightarrow> nat set \<Rightarrow> bool" where
  "majority n A \<longleftrightarrow> A \<subseteq> {0..<n} \<and> card A > n div 2"

lemma majority_meet:
  assumes "majority n A" and "majority n B"
  shows "A \<inter> B \<noteq> {}"
proof
  assume "A \<inter> B = {}"
  moreover have fin: "finite A" "finite B"
    using assms finite_subset by (auto simp: majority_def)
  ultimately have "card (A \<union> B) = card A + card B" by (simp add: card_Un_disjoint)
  moreover have "card (A \<union> B) \<le> card {0..<n}"
    using assms by (intro card_mono) (auto simp: majority_def)
  moreover have "n < 2 * card A" "n < 2 * card B"
    using assms by (auto simp: majority_def)
  ultimately show False by simp
qed

interpretation maj: quorum_system "majority n" for n
  by unfold_locales (rule majority_meet)

section \<open>Transition systems\<close>

text \<open>
  A component with state is a start state and a step relation; an invariant that holds at
  the start and that every step keeps holds in every reachable state.
\<close>

locale inductive_invariant =
  fixes start :: "'s \<Rightarrow> bool" and step :: "'s \<Rightarrow> 's \<Rightarrow> bool" and inv :: "'s \<Rightarrow> bool"
  assumes start_inv: "start s \<Longrightarrow> inv s"
    and step_inv: "inv s \<Longrightarrow> step s t \<Longrightarrow> inv t"
begin

lemma steps_inv: "step\<^sup>*\<^sup>* s t \<Longrightarrow> inv s \<Longrightarrow> inv t"
  by (induction rule: rtranclp_induct) (auto intro: step_inv)

lemma reachable_inv: "start s \<Longrightarrow> step\<^sup>*\<^sup>* s t \<Longrightarrow> inv t"
  by (blast intro: steps_inv start_inv)

text \<open>A relation between an earlier and a later state that is kept by each step under the invariant.\<close>

lemma reachable_rel:
  assumes "step\<^sup>*\<^sup>* s t" and "inv s" and "R s s"
    and "\<And>t u. inv t \<Longrightarrow> R s t \<Longrightarrow> step t u \<Longrightarrow> R s u"
  shows "R s t"
  using assms(1)
proof (induction rule: rtranclp_induct)
  case base
  show ?case by (rule assms(3))
next
  case (step t u)
  have "inv t" using step.hyps(1) assms(2) by (rule steps_inv)
  then show ?case using step.IH step.hyps(2) by (rule assms(4))
qed

end

end
