(* ===== verification/Persister.thy ===== *)
theory Persister
  imports Prelude
begin

text \<open>
  Stable storage: \<open>src/src/raft/persister.go\<close>, and the value streams that
  \<open>src/src/labgob/labgob.go\<close> writes into it. The byte slices of the code are lists over an
  arbitrary type of units; Go's \<open>nil\<close> slice is the empty list. The mutex of the Go struct
  makes each method atomic, so a method is one function.

  The interfaces are two locales: \<open>value_codec\<close> (what a decoder promises about an
  encoder's output) and \<open>stable_storage\<close> (what a client may rely on across a restart).
\<close>

section \<open>The persister\<close>

record 'b Persister =
  raftstate :: "'b list"
  snapshot :: "'b list"

definition MakePersister :: "'b Persister" where
  "MakePersister = \<lparr>raftstate = [], snapshot = []\<rparr>"

definition Persister_Copy :: "'b Persister \<Rightarrow> 'b Persister" where
  "Persister_Copy ps =
     (let np = MakePersister in np\<lparr>raftstate := raftstate ps, snapshot := snapshot ps\<rparr>)"

definition SaveRaftState :: "'b list \<Rightarrow> 'b Persister \<Rightarrow> 'b Persister" where
  "SaveRaftState st ps = ps\<lparr>raftstate := st\<rparr>"

definition ReadRaftState :: "'b Persister \<Rightarrow> 'b list" where
  "ReadRaftState ps = raftstate ps"

text \<open>The sizes are in bytes; how many bytes the encoder writes for a list of units is a parameter, since
  \<open>encoding/gob\<close> is not part of the repository; it is 0 for the empty list.\<close>

definition RaftStateSize :: "('b list \<Rightarrow> nat) \<Rightarrow> 'b Persister \<Rightarrow> int" where
  "RaftStateSize bytes ps = int (bytes (raftstate ps))"

definition SaveStateAndSnapshot :: "'b list \<Rightarrow> 'b list \<Rightarrow> 'b Persister \<Rightarrow> 'b Persister" where
  "SaveStateAndSnapshot st snap ps = ps\<lparr>raftstate := st, snapshot := snap\<rparr>"

definition ReadSnapshot :: "'b Persister \<Rightarrow> 'b list" where
  "ReadSnapshot ps = snapshot ps"

definition SnapshotSize :: "('b list \<Rightarrow> nat) \<Rightarrow> 'b Persister \<Rightarrow> int" where
  "SnapshotSize bytes ps = int (bytes (snapshot ps))"

lemmas persister_defs =
  MakePersister_def Persister_Copy_def SaveRaftState_def ReadRaftState_def RaftStateSize_def
  SaveStateAndSnapshot_def ReadSnapshot_def SnapshotSize_def

section \<open>Encoder and decoder streams\<close>

text \<open>
  An encoder owns a buffer and each \<open>Encode\<close> appends one value to it; a decoder owns the
  unread rest of a buffer and each \<open>Decode\<close> takes one value from its front, or fails at the
  end of the stream. Values carry their Go type, so decoding into a variable of another
  type fails as well (the caller's projection returns \<open>None\<close>).
\<close>

record 'v LabEncoder = enc_buf :: "'v list"
record 'v LabDecoder = dec_buf :: "'v list"

definition NewEncoder :: "'v list \<Rightarrow> 'v LabEncoder" where
  "NewEncoder w = \<lparr>enc_buf = w\<rparr>"

definition Encode :: "'v \<Rightarrow> 'v LabEncoder \<Rightarrow> 'v LabEncoder" where
  "Encode v e = e\<lparr>enc_buf := enc_buf e @ [v]\<rparr>"

definition NewDecoder :: "'v list \<Rightarrow> 'v LabDecoder" where
  "NewDecoder r = \<lparr>dec_buf = r\<rparr>"

definition Decode :: "('v \<Rightarrow> 'a option) \<Rightarrow> 'v LabDecoder \<Rightarrow> ('a \<times> 'v LabDecoder) option" where
  "Decode proj d =
     (case dec_buf d of
        [] \<Rightarrow> None
      | v # rest \<Rightarrow> (case proj v of None \<Rightarrow> None | Some a \<Rightarrow> Some (a, d\<lparr>dec_buf := rest\<rparr>)))"

lemmas gob_defs = NewEncoder_def Encode_def NewDecoder_def Decode_def

section \<open>Interfaces\<close>

locale value_codec =
  fixes enc :: "'a \<Rightarrow> 'b list" and dec :: "'b list \<Rightarrow> 'a option"
  assumes dec_enc: "dec (enc x) = Some x"
begin

lemma enc_inj: "enc x = enc y \<Longrightarrow> x = y"
  by (metis dec_enc option.inject)

end

text \<open>A codec on top of a store that returns what was last saved, also through a copy.\<close>

locale stable_storage = value_codec enc dec
  for enc :: "'a \<Rightarrow> 'b list" and dec :: "'b list \<Rightarrow> 'a option" +
  fixes save :: "'b list \<Rightarrow> 'p \<Rightarrow> 'p" and load :: "'p \<Rightarrow> 'b list" and copy :: "'p \<Rightarrow> 'p"
  assumes load_save: "load (save st p) = st"
    and load_copy: "load (copy p) = load p"
begin

lemma recover_last: "dec (load (save (enc x) p)) = Some x"
  by (simp add: load_save dec_enc)

lemma recover_after_copy: "dec (load (copy (save (enc x) p))) = Some x"
  by (simp add: load_copy recover_last)

lemma recover_overwrites: "dec (load (save (enc y) (save (enc x) p))) = Some y"
  by (rule recover_last)

end

end
