(* ===== verification/RaftNode.thy ===== *)
theory RaftNode
  imports Persister
begin

text \<open>
  One Raft peer: \<open>src/src/raft/raft.go\<close> and \<open>src/src/raft/util.go\<close>. The struct is a record,
  every method that runs under \<open>rf.mu\<close> is one function on it, in the order of the file.
  What a method sends is part of its result: a list of (server, arguments) pairs, one per
  goroutine it starts, and a flag for a send on \<open>notifyApplyCh\<close>. The code after the RPC in
  a goroutine is the corresponding \<open>handle\<dots>Reply\<close> function; its reply argument is \<open>None\<close>
  when \<open>Call\<close> returned false. \<open>None\<close> as a result is a run-time panic.

  Time and randomness are arguments: a \<open>clock\<close> is the pair of the value of \<open>time.Now()\<close> and
  the number drawn from \<open>math/rand\<close>, one for every call of \<open>resetElectionTimer\<close>.
\<close>

section \<open>util.go\<close>

definition RangeInt :: "int \<Rightarrow> int \<Rightarrow> int \<Rightarrow> int" where
  \<comment> \<open>the first argument is the raw random number; \<open>rand.Intn(m)\<close> reduces it below \<open>m\<close>\<close>
  "RangeInt rnd low high = low + rnd mod (high - low)"

definition Min :: "int \<Rightarrow> int \<Rightarrow> int" where
  "Min x y = (if x < y then x else y)"

definition Max :: "int \<Rightarrow> int \<Rightarrow> int" where
  "Max x y = (if x > y then x else y)"

section \<open>Data\<close>

text \<open>\<open>interface{}\<close> commands: \<open>None\<close> is Go's \<open>nil\<close>, used for the dummy entry at index 0.\<close>

record 'c ApplyMsg =
  CommandValid :: bool
  Command :: "'c option"
  CommandIndex :: int

record 'c LogEntry =
  leCommand :: "'c option"
  leTerm :: int

definition noPeer :: int where
  "noPeer = - 1"

datatype role = followerState | candidateState | leaderState

text \<open>What \<open>persist\<close> writes: integers and a log.\<close>

datatype 'c gob_value = GobInt int | GobLog "'c LogEntry list"

fun gob_int :: "'c gob_value \<Rightarrow> int option" where
  "gob_int (GobInt i) = Some i"
| "gob_int (GobLog l) = None"

fun gob_log :: "'c gob_value \<Rightarrow> 'c LogEntry list option" where
  "gob_log (GobInt i) = None"
| "gob_log (GobLog l) = Some l"

record 'c Raft =
  peers :: nat
  persister :: "'c gob_value Persister"
  me :: int
  dead :: bool
  currentTerm :: int
  votedFor :: int
  log :: "'c LogEntry list"
  commitIndex :: int
  lastApplied :: int
  nextIndex :: "int list"
  matchIndex :: "int list"
  state :: role
  electionTimeout :: int
  prevTime :: int
  votesReceived :: int
  prevAppendEntries :: int
  heartbeatInterval :: int
  electionTimerCheckInterval :: int
  heartbeatCheckInterval :: int

type_synonym clock = "int \<times> int"

section \<open>GetState, persist, readPersist, Start, Kill\<close>

definition GetState :: "'c Raft \<Rightarrow> int \<times> bool" where
  "GetState rf = (currentTerm rf, state rf = leaderState)"

definition persist_data :: "int \<Rightarrow> int \<Rightarrow> 'c LogEntry list \<Rightarrow> 'c gob_value list" where
  "persist_data ct vf l =
     (let buffer = [];
          encoder = NewEncoder buffer;
          encoder = Encode (GobInt ct) encoder;
          encoder = Encode (GobInt vf) encoder;
          encoder = Encode (GobLog l) encoder
      in enc_buf encoder)"

definition persist :: "'c Raft \<Rightarrow> 'c Raft" where
  "persist rf =
     rf\<lparr>persister :=
         SaveRaftState (persist_data (currentTerm rf) (votedFor rf) (log rf)) (persister rf)\<rparr>"

definition decode_data :: "'c gob_value list \<Rightarrow> (int \<times> int \<times> 'c LogEntry list) option" where
  "decode_data data =
     (case Decode gob_int (NewDecoder data) of
        None \<Rightarrow> None
      | Some (ct, d1) \<Rightarrow>
          (case Decode gob_int d1 of
             None \<Rightarrow> None
           | Some (vf, d2) \<Rightarrow>
               (case Decode gob_log d2 of
                  None \<Rightarrow> None
                | Some (l, d3) \<Rightarrow> Some (ct, vf, l))))"

definition readPersist :: "'c gob_value list \<Rightarrow> 'c Raft \<Rightarrow> 'c Raft" where
  "readPersist data rf =
     (if length data < 1 then rf
      else (case decode_data data of
              None \<Rightarrow> rf
            | Some (ct, vf, l) \<Rightarrow> rf\<lparr>currentTerm := ct, votedFor := vf, log := l\<rparr>))"

definition Start :: "'c \<Rightarrow> 'c Raft \<Rightarrow> 'c Raft \<times> (int \<times> int \<times> bool)" where
  "Start command rf =
     (if state rf \<noteq> leaderState then (rf, (- 1, - 1, False))
      else
        let rf = rf\<lparr>log := log rf @ [\<lparr>leCommand = Some command, leTerm = currentTerm rf\<rparr>]\<rparr>;
            rf = persist rf
        in (rf, (go_len (log rf) - 1, currentTerm rf, True)))"

definition Kill :: "'c Raft \<Rightarrow> 'c Raft" where
  "Kill rf = rf\<lparr>dead := True\<rparr>"

definition killed :: "'c Raft \<Rightarrow> bool" where
  "killed rf = dead rf"

section \<open>Timers and terms\<close>

definition resetElectionTimer :: "clock \<Rightarrow> 'c Raft \<Rightarrow> 'c Raft" where
  "resetElectionTimer c rf =
     rf\<lparr>prevTime := fst c, electionTimeout := RangeInt (snd c) 400 500\<rparr>"

definition convertToFollowerIfOutOfTerm :: "clock \<Rightarrow> int \<Rightarrow> 'c Raft \<Rightarrow> 'c Raft \<times> bool" where
  "convertToFollowerIfOutOfTerm c rpcTerm rf =
     (if rpcTerm > currentTerm rf then
        let rf = rf\<lparr>currentTerm := rpcTerm, votedFor := noPeer, state := followerState\<rparr>;
            rf = resetElectionTimer c rf
        in (persist rf, True)
      else (rf, False))"

section \<open>RequestVote\<close>

record RequestVoteArgs =
  rvTerm :: int
  rvCandidateID :: int
  rvLastLogIndex :: int
  rvLastLogTerm :: int

record RequestVoteReply =
  rvrTerm :: int
  rvrVoteGranted :: bool

definition upToDate :: "RequestVoteArgs \<Rightarrow> int \<Rightarrow> int \<Rightarrow> bool" where
  "upToDate args myLastLogTerm myLastLogIndex =
     (rvLastLogTerm args > myLastLogTerm \<or>
      rvLastLogTerm args = myLastLogTerm \<and> rvLastLogIndex args \<ge> myLastLogIndex)"

definition RequestVote ::
    "clock \<Rightarrow> clock \<Rightarrow> RequestVoteArgs \<Rightarrow> 'c Raft \<Rightarrow> ('c Raft \<times> RequestVoteReply) option" where
  "RequestVote c1 c2 args rf =
     (let rf = fst (convertToFollowerIfOutOfTerm c1 (rvTerm args) rf);
          reply = \<lparr>rvrTerm = currentTerm rf, rvrVoteGranted = False\<rparr>
      in if rvTerm args < currentTerm rf then Some (rf, reply)
         else
           (case go_nth (log rf) (go_len (log rf) - 1) of
              None \<Rightarrow> None
            | Some lastEntry \<Rightarrow>
                if (votedFor rf = noPeer \<or> votedFor rf = rvCandidateID args) \<and>
                   upToDate args (leTerm lastEntry) (go_len (log rf) - 1)
                then
                  let rf = persist (rf\<lparr>votedFor := rvCandidateID args\<rparr>);
                      rf = resetElectionTimer c2 rf
                  in Some (rf, reply\<lparr>rvrVoteGranted := True\<rparr>)
                else Some (rf, reply)))"

definition voteRequest :: "'c Raft \<Rightarrow> RequestVoteArgs option" where
  "voteRequest rf =
     map_option
       (\<lambda>lastEntry. \<lparr>rvTerm = currentTerm rf, rvCandidateID = me rf,
                     rvLastLogIndex = go_len (log rf) - 1, rvLastLogTerm = leTerm lastEntry\<rparr>)
       (go_nth (log rf) (go_len (log rf) - 1))"

definition otherPeers :: "'c Raft \<Rightarrow> nat list" where
  "otherPeers rf = filter (\<lambda>i. int i \<noteq> me rf) [0..<peers rf]"

text \<open>One round of the loop of \<open>electionTimoutRoutine\<close>; the list is the RPCs it sends.\<close>

definition electionTimoutRoutine ::
    "int \<Rightarrow> clock \<Rightarrow> 'c Raft \<Rightarrow> ('c Raft \<times> (nat \<times> RequestVoteArgs) list) option" where
  "electionTimoutRoutine now c rf =
     (let timeout = prevTime rf + electionTimeout rf < now
      in if state rf \<noteq> leaderState \<and> timeout then
           let rf = rf\<lparr>currentTerm := currentTerm rf + 1, votedFor := me rf,
                       state := candidateState\<rparr>;
               rf = resetElectionTimer c rf;
               rf = persist (rf\<lparr>votesReceived := 1\<rparr>)
           in (case those (map (\<lambda>i. map_option (Pair i) (voteRequest rf)) (otherPeers rf)) of
                 None \<Rightarrow> None
               | Some msgs \<Rightarrow> Some (rf, msgs))
         else Some (rf, []))"

section \<open>AppendEntries\<close>

record 'c AppendEntriesArgs =
  aeTerm :: int
  aeLeaderID :: int
  aePrevLogIndex :: int
  aePrevLogTerm :: int
  aeEntries :: "'c LogEntry list"
  aeLeaderCommit :: int

record AppendEntriesReply =
  aerTerm :: int
  aerSuccess :: bool
  aerNextTryHint :: int

text \<open>The loop that walks \<open>reply.NextTryHint\<close> down over the entries of the conflicting term.\<close>

function rollback :: "'c LogEntry list \<Rightarrow> int \<Rightarrow> int \<Rightarrow> int option" where
  "rollback l t hint =
     (if hint > 0 then
        (case go_nth l hint of
           None \<Rightarrow> None
         | Some e \<Rightarrow> if leTerm e = t then rollback l t (hint - 1) else Some hint)
      else Some hint)"
  by pat_completeness auto
termination
  by (relation "measure (\<lambda>(l, t, hint). nat hint)") auto

declare rollback.simps [simp del]

text \<open>
  The loop that compares \<open>args.Entries\<close> with the log from index \<open>PrevLogIndex + 1\<close> on:
  \<open>None\<close> when all entries are there, else the number of the first one that is missing or
  differs (\<open>appendStart\<close>, which stays at -1 in the code when there is none).
\<close>

fun findAppendStart :: "'c LogEntry list \<Rightarrow> int \<Rightarrow> 'c LogEntry list \<Rightarrow> nat \<Rightarrow> nat option" where
  "findAppendStart l prev [] i = None"
| "findAppendStart l prev (e # es) i =
     (let index = prev + 1 + int i
      in if go_len l > index \<and> go_nth l index = Some e
         then findAppendStart l prev es (Suc i)
         else Some i)"

text \<open>Truncation and the append loop.\<close>

definition appendNew ::
    "'c LogEntry list \<Rightarrow> int \<Rightarrow> 'c LogEntry list \<Rightarrow> 'c LogEntry list option" where
  "appendNew l prev entries =
     (case findAppendStart l prev entries 0 of
        None \<Rightarrow> Some l
      | Some i \<Rightarrow> map_option (\<lambda>l'. l' @ drop i entries) (go_upto l (prev + 1 + int i)))"

definition AppendEntries ::
    "clock \<Rightarrow> clock \<Rightarrow> 'c AppendEntriesArgs \<Rightarrow> 'c Raft
      \<Rightarrow> ('c Raft \<times> AppendEntriesReply \<times> bool) option" where
  "AppendEntries c1 c2 args rf =
     (let rf = fst (convertToFollowerIfOutOfTerm c1 (aeTerm args) rf)
      in if aeTerm args < currentTerm rf then
           Some (rf, \<lparr>aerTerm = currentTerm rf, aerSuccess = False,
                      aerNextTryHint = go_len (log rf)\<rparr>, False)
         else
           let rf = resetElectionTimer c2 rf
           in if go_len (log rf) < aePrevLogIndex args + 1 then
                \<comment> \<open>first disjunct of the test; here \<open>len(rf.log) <= args.PrevLogIndex\<close>\<close>
                Some (rf, \<lparr>aerTerm = currentTerm rf, aerSuccess = False,
                           aerNextTryHint = go_len (log rf)\<rparr>, False)
              else
                (case go_nth (log rf) (aePrevLogIndex args) of
                   None \<Rightarrow> None
                 | Some prevEntry \<Rightarrow>
                     if leTerm prevEntry \<noteq> aePrevLogTerm args then
                       (case rollback (log rf) (leTerm prevEntry) (aePrevLogIndex args - 1) of
                          None \<Rightarrow> None
                        | Some hint \<Rightarrow>
                            Some (rf, \<lparr>aerTerm = currentTerm rf, aerSuccess = False,
                                       aerNextTryHint = hint + 1\<rparr>, False))
                     else
                       (case appendNew (log rf) (aePrevLogIndex args) (aeEntries args) of
                          None \<Rightarrow> None
                        | Some l \<Rightarrow>
                            let rf = persist (rf\<lparr>log := l\<rparr>);
                                reply = \<lparr>aerTerm = currentTerm rf, aerSuccess = True,
                                         aerNextTryHint = 0\<rparr>
                            in if aeLeaderCommit args > commitIndex rf then
                                 Some (rf\<lparr>commitIndex :=
                                            Min (aeLeaderCommit args)
                                                (aePrevLogIndex args + go_len (aeEntries args))\<rparr>,
                                       reply, True)
                               else Some (rf, reply, False))))"

text \<open>
  The arguments \<open>sendAppendEntriesToPeers\<close> builds for peer \<open>i\<close>. The slice \<open>args.Entries\<close> shares the array of
  \<open>rf.log\<close>; \<open>aeEntries\<close> is what it shows when it is made, theory \<open>RaftAlias\<close> keeps track of what it shows until
  it is encoded.
\<close>

definition appendRequest :: "'c Raft \<Rightarrow> nat \<Rightarrow> 'c AppendEntriesArgs option" where
  "appendRequest rf i =
     (case go_nth (nextIndex rf) (int i) of
        None \<Rightarrow> None
      | Some next \<Rightarrow>
          (case go_nth (log rf) (next - 1) of
             None \<Rightarrow> None
           | Some prevEntry \<Rightarrow>
               map_option
                 (\<lambda>es. \<lparr>aeTerm = currentTerm rf, aeLeaderID = me rf, aePrevLogIndex = next - 1,
                        aePrevLogTerm = leTerm prevEntry, aeEntries = es,
                        aeLeaderCommit = commitIndex rf\<rparr>)
                 (if go_len (log rf) > next then go_from (log rf) next else Some [])))"

definition sendAppendEntriesToPeers ::
    "int \<Rightarrow> 'c Raft \<Rightarrow> ('c Raft \<times> (nat \<times> 'c AppendEntriesArgs) list) option" where
  "sendAppendEntriesToPeers now rf =
     (case those (map (\<lambda>i. map_option (Pair i) (appendRequest rf i)) (otherPeers rf)) of
        None \<Rightarrow> None
      | Some msgs \<Rightarrow>
          Some (if otherPeers rf = [] then rf else rf\<lparr>prevAppendEntries := now\<rparr>, msgs))"

text \<open>
  One round of \<open>periodicAppendEntriesRoutine\<close>; the Boolean says whether the goroutine goes on.
\<close>

definition periodicAppendEntriesRoutine ::
    "int \<Rightarrow> 'c Raft \<Rightarrow> ('c Raft \<times> (nat \<times> 'c AppendEntriesArgs) list \<times> bool) option" where
  "periodicAppendEntriesRoutine now rf =
     (if state rf \<noteq> leaderState then Some (rf, [], False)
      else if prevAppendEntries rf + heartbeatInterval rf > now then Some (rf, [], True)
      else
        (case sendAppendEntriesToPeers now rf of
           None \<Rightarrow> None
         | Some (rf, msgs) \<Rightarrow> Some (rf\<lparr>prevAppendEntries := now\<rparr>, msgs, True)))"

section \<open>Replies to RequestVote\<close>

text \<open>
  The body of \<open>sendRequestVoteAndHandleReply\<close> after \<open>Call\<close>. The arguments of the request are
  a parameter of the Go function as well; it does not look at them any more. The result
  lists the initial heartbeats, and whether \<open>periodicAppendEntriesRoutine\<close> was started.
\<close>

definition becomeLeader :: "'c Raft \<Rightarrow> 'c Raft" where
  "becomeLeader rf =
     rf\<lparr>state := leaderState,
        nextIndex := map (\<lambda>i. go_len (log rf)) [0..<peers rf],
        matchIndex := map (\<lambda>i. 0) [0..<peers rf]\<rparr>"

definition sendRequestVoteAndHandleReply ::
    "int \<Rightarrow> clock \<Rightarrow> RequestVoteArgs \<Rightarrow> nat \<Rightarrow> RequestVoteReply option \<Rightarrow> 'c Raft
      \<Rightarrow> ('c Raft \<times> (nat \<times> 'c AppendEntriesArgs) list \<times> bool) option" where
  "sendRequestVoteAndHandleReply now c args server result rf =
     (case result of
        None \<Rightarrow> Some (rf, [], False)
      | Some reply \<Rightarrow>
          (case convertToFollowerIfOutOfTerm c (rvrTerm reply) rf of
             (rf, converted) \<Rightarrow>
               if converted then Some (rf, [], False)
               else if rvrVoteGranted reply then
                 let rf = rf\<lparr>votesReceived := votesReceived rf + 1\<rparr>
                 in if state rf \<noteq> leaderState \<and> votesReceived rf > int (peers rf) div 2 then
                      (case sendAppendEntriesToPeers now (becomeLeader rf) of
                         None \<Rightarrow> None
                       | Some (rf, msgs) \<Rightarrow> Some (rf, msgs, True))
                    else Some (rf, [], False)
               else Some (rf, [], False)))"

section \<open>Commitment\<close>

text \<open>The inner loop of \<open>tryCommit\<close>: how many servers are known to hold entry \<open>N\<close>.\<close>

definition countsReplica :: "'c Raft \<Rightarrow> int \<Rightarrow> nat \<Rightarrow> int option" where
  "countsReplica rf N i =
     (if int i = me rf then Some 1
      else
        (case go_nth (matchIndex rf) (int i) of
           None \<Rightarrow> None
         | Some m \<Rightarrow>
             if m \<ge> N then
               map_option (\<lambda>e. if leTerm e = currentTerm rf then 1 else 0) (go_nth (log rf) N)
             else Some 0))"

definition replicateCount :: "'c Raft \<Rightarrow> int \<Rightarrow> int option" where
  "replicateCount rf N = map_option sum_list (those (map (countsReplica rf N) [0..<peers rf]))"

function tryCommitFrom :: "'c Raft \<Rightarrow> int \<Rightarrow> 'c Raft option" where
  "tryCommitFrom rf N =
     (if N > commitIndex rf then
        (case replicateCount rf N of
           None \<Rightarrow> None
         | Some cnt \<Rightarrow>
             if cnt > int (peers rf) div 2 then Some (rf\<lparr>commitIndex := N\<rparr>)
             else tryCommitFrom rf (N - 1))
      else Some rf)"
  by pat_completeness auto
termination
  by (relation "measure (\<lambda>(rf, N). nat (N - commitIndex rf))") auto

declare tryCommitFrom.simps [simp del]

definition tryCommit :: "'c Raft \<Rightarrow> 'c Raft option" where
  "tryCommit rf = tryCommitFrom rf (go_len (log rf) - 1)"

section \<open>Replies to AppendEntries\<close>

text \<open>The goroutine started by \<open>sendAppendEntriesToPeers\<close>, after \<open>Call\<close>; the flag is a notification.\<close>

definition handleAppendEntriesReply ::
    "clock \<Rightarrow> nat \<Rightarrow> 'c AppendEntriesArgs \<Rightarrow> AppendEntriesReply option \<Rightarrow> 'c Raft
      \<Rightarrow> ('c Raft \<times> bool) option" where
  "handleAppendEntriesReply c server args result rf =
     (case result of
        None \<Rightarrow> Some (rf, False)
      | Some reply \<Rightarrow>
          (case convertToFollowerIfOutOfTerm c (aerTerm reply) rf of
             (rf, converted) \<Rightarrow>
               if converted then Some (rf, False)
               else if state rf \<noteq> leaderState then Some (rf, False)
               else if aerSuccess reply then
                 let next = aePrevLogIndex args + go_len (aeEntries args) + 1
                 in (case (go_upd (nextIndex rf) (int server) next,
                           go_upd (matchIndex rf) (int server) (Max 0 (next - 1))) of
                       (Some ni, Some mi) \<Rightarrow>
                         let rf = rf\<lparr>nextIndex := ni, matchIndex := mi\<rparr>;
                             oldCommitIndex = commitIndex rf
                         in map_option (\<lambda>rf. (rf, oldCommitIndex < commitIndex rf)) (tryCommit rf)
                     | _ \<Rightarrow> None)
               else
                 map_option (\<lambda>ni. (rf\<lparr>nextIndex := ni\<rparr>, False))
                   (go_upd (nextIndex rf) (int server) (aerNextTryHint reply))))"

section \<open>Applying committed entries\<close>

text \<open>
  One round of the inner loop of \<open>applyCommittedRoutine\<close>. The lock is released around the
  send on \<open>applyCh\<close>, so other operations may run between two rounds. The inner \<open>None\<close> is
  the end of the loop.
\<close>

definition applyNext :: "'c Raft \<Rightarrow> ('c Raft \<times> 'c ApplyMsg) option option" where
  "applyNext rf =
     (if commitIndex rf > lastApplied rf then
        let rf = rf\<lparr>lastApplied := lastApplied rf + 1\<rparr>
        in map_option
             (\<lambda>e. Some (rf, \<lparr>CommandValid = True, Command = leCommand e,
                             CommandIndex = lastApplied rf\<rparr>))
             (go_nth (log rf) (lastApplied rf))
      else Some None)"

text \<open>The whole loop when nothing else runs in between.\<close>

function applyCommittedRoutine :: "'c Raft \<Rightarrow> ('c Raft \<times> 'c ApplyMsg list) option" where
  "applyCommittedRoutine rf =
     (case applyNext rf of
        None \<Rightarrow> None
      | Some None \<Rightarrow> Some (rf, [])
      | Some (Some (rf', m)) \<Rightarrow>
          map_option (\<lambda>(rf'', ms). (rf'', m # ms)) (applyCommittedRoutine rf'))"
  by pat_completeness auto
termination
  by (relation "measure (\<lambda>rf. nat (commitIndex rf - lastApplied rf))")
     (auto simp: applyNext_def Let_def split: if_splits)

declare applyCommittedRoutine.simps [simp del]

section \<open>Make\<close>

definition Make :: "clock \<Rightarrow> nat \<Rightarrow> int \<Rightarrow> 'c gob_value Persister \<Rightarrow> 'c Raft" where
  "Make c npeers self ps =
     (let rf = \<lparr>peers = npeers, persister = ps, me = self, dead = False,
                currentTerm = 0, votedFor = noPeer,
                log = [\<lparr>leCommand = None, leTerm = 0\<rparr>],
                commitIndex = 0, lastApplied = 0, nextIndex = [], matchIndex = [],
                state = followerState, electionTimeout = 0, prevTime = 0,
                votesReceived = 0, prevAppendEntries = 0,
                heartbeatInterval = 100, electionTimerCheckInterval = 150,
                heartbeatCheckInterval = 50\<rparr>;
          rf = resetElectionTimer c rf
      in readPersist (ReadRaftState ps) rf)"

end
