(* ===== verification/RaftSteps.thy ===== *)
theory RaftSteps
  imports RaftProps
begin

text \<open>
  The operations of a peer as the rules of one step relation, and what every sequence of
  steps keeps: stable storage agrees with memory, terms never decrease, a vote is never
  changed within a term, the log keeps its dummy entry.
\<close>

section \<open>Steps of a peer\<close>

text \<open>The handlers and the sending goroutines.\<close>

inductive node_op :: "'c Raft \<Rightarrow> 'c Raft \<Rightarrow> bool" where
  op_Start: "Start cmd rf = (rf', res) \<Longrightarrow> node_op rf rf'"
| op_Kill: "node_op rf (Kill rf)"
| op_timeout: "electionTimoutRoutine now c rf = Some (rf', rvs) \<Longrightarrow> node_op rf rf'"
| op_RequestVote: "RequestVote c1 c2 rva rf = Some (rf', rvr) \<Longrightarrow> node_op rf rf'"
| op_voteReply:
    "sendRequestVoteAndHandleReply now c rva srv rvres rf = Some (rf', aes, spawned) \<Longrightarrow>
     node_op rf rf'"
| op_AppendEntries: "AppendEntries c1 c2 aea rf = Some (rf', aer, notify) \<Longrightarrow> node_op rf rf'"
| op_appendReply:
    "handleAppendEntriesReply c srv aea aeres rf = Some (rf', notify) \<Longrightarrow> node_op rf rf'"
| op_periodic: "periodicAppendEntriesRoutine now rf = Some (rf', aes, goon) \<Longrightarrow> node_op rf rf'"

text \<open>Also applying an entry, and a crash followed by a restart from stable storage.\<close>

inductive node_step :: "'c Raft \<Rightarrow> 'c Raft \<Rightarrow> bool" where
  ns_op: "node_op rf rf' \<Longrightarrow> node_step rf rf'"
| ns_apply: "applyNext rf = Some (Some (rf', m)) \<Longrightarrow> node_step rf rf'"
| ns_restart: "node_step rf (Make c (peers rf) (me rf) (Persister_Copy (persister rf)))"

text \<open>A run of one instance, with the messages it has sent on \<open>applyCh\<close>.\<close>

inductive node_run :: "'c Raft \<Rightarrow> 'c ApplyMsg list \<Rightarrow> 'c Raft \<Rightarrow> bool" where
  run_start: "node_run rf [] rf"
| run_op: "node_run rf ms rf' \<Longrightarrow> node_op rf' rf'' \<Longrightarrow> node_run rf ms rf''"
| run_apply: "node_run rf ms rf' \<Longrightarrow> applyNext rf' = Some (Some (rf'', m)) \<Longrightarrow>
     node_run rf (ms @ [m]) rf''"

section \<open>Shapes of results\<close>

lemma sendAppendEntriesToPeers_shape:
  "sendAppendEntriesToPeers now rf = Some (rf', aes) \<Longrightarrow>
   rf' = rf \<or> rf' = rf\<lparr>prevAppendEntries := now\<rparr>"
  by (auto simp: sendAppendEntriesToPeers_def split: option.splits if_splits)

lemma tryCommitFrom_shape:
  "tryCommitFrom rf N = Some rf' \<Longrightarrow> \<exists>ci. commitIndex rf \<le> ci \<and> rf' = rf\<lparr>commitIndex := ci\<rparr>"
proof (induction rf N rule: tryCommitFrom.induct)
  case (1 rf N)
  show ?case
  proof (cases "N > commitIndex rf")
    case False
    then have "rf' = rf" using "1.prems" by (simp add: tryCommitFrom.simps [of rf N])
    then show ?thesis by (intro exI [of _ "commitIndex rf"]) simp
  next
    case True
    then obtain cnt where r: "replicateCount rf N = Some cnt"
      using "1.prems" by (auto simp: tryCommitFrom.simps [of rf N] split: option.splits)
    show ?thesis
    proof (cases "cnt > int (peers rf) div 2")
      case True
      with \<open>N > commitIndex rf\<close> r "1.prems" have "rf' = rf\<lparr>commitIndex := N\<rparr>"
        by (simp add: tryCommitFrom.simps [of rf N])
      with \<open>N > commitIndex rf\<close> show ?thesis by (intro exI [of _ N]) simp
    next
      case False
      with \<open>N > commitIndex rf\<close> r "1.prems" have "tryCommitFrom rf (N - 1) = Some rf'"
        by (simp add: tryCommitFrom.simps [of rf N])
      then show ?thesis using "1.IH" [OF True r False] by simp
    qed
  qed
qed

lemma tryCommit_shape:
  "tryCommit rf = Some rf' \<Longrightarrow> \<exists>ci. commitIndex rf \<le> ci \<and> rf' = rf\<lparr>commitIndex := ci\<rparr>"
  unfolding tryCommit_def by (rule tryCommitFrom_shape)

lemma applyNext_shape:
  "applyNext rf = Some (Some (rf', m)) \<Longrightarrow>
   lastApplied rf < commitIndex rf \<and> rf' = rf\<lparr>lastApplied := lastApplied rf + 1\<rparr>"
  by (auto simp: applyNext_def Let_def split: if_splits)

text \<open>The election timer fires: a new term, a vote for itself, one request per other peer.\<close>

lemma electionTimout_cases:
  assumes "electionTimoutRoutine now c rf = Some (rf', rvs)"
  obtains (idle) "rf' = rf" "rvs = []"
  | (fired) "state rf \<noteq> leaderState" "prevTime rf + electionTimeout rf < now"
      "currentTerm rf' = currentTerm rf + 1" "votedFor rf' = me rf" "state rf' = candidateState"
      "votesReceived rf' = 1" "durable rf'" "log rf' = log rf" "me rf' = me rf" "peers rf' = peers rf"
      "lastApplied rf' = lastApplied rf" "commitIndex rf' = commitIndex rf"
      "nextIndex rf' = nextIndex rf" "matchIndex rf' = matchIndex rf"
      "those (map (\<lambda>i. map_option (Pair i) (voteRequest rf')) (otherPeers rf')) = Some rvs"
proof (cases "state rf \<noteq> leaderState \<and> prevTime rf + electionTimeout rf < now")
  case True
  with assms show ?thesis
    by (intro fired) (auto simp: electionTimoutRoutine_def Let_def frame_simps split: option.splits)
next
  case False
  with assms show ?thesis
    by (intro idle) (auto simp: electionTimoutRoutine_def Let_def)
qed

lemma RequestVote_cases:
  assumes "RequestVote c1 c2 args rf = Some (rf', reply)"
  obtains (refused) "rf' = fst (convertToFollowerIfOutOfTerm c1 (rvTerm args) rf)"
      "\<not> rvrVoteGranted reply" "rvrTerm reply = currentTerm rf'"
  | (granted) rf1 where "rf1 = fst (convertToFollowerIfOutOfTerm c1 (rvTerm args) rf)"
      "currentTerm rf1 = rvTerm args" "votedFor rf1 = noPeer \<or> votedFor rf1 = rvCandidateID args"
      "upToDate args (leTerm (last (log rf))) (go_len (log rf) - 1)"
      "rf' = resetElectionTimer c2 (persist (rf1\<lparr>votedFor := rvCandidateID args\<rparr>))"
      "rvrVoteGranted reply" "rvrTerm reply = currentTerm rf'" "log rf \<noteq> []"
proof -
  let ?rf1 = "fst (convertToFollowerIfOutOfTerm c1 (rvTerm args) rf)"
  have "rvTerm args \<le> currentTerm ?rf1" by (simp add: convert_term)
  then consider (stale) "rvTerm args < currentTerm ?rf1"
    | (fresh) "rvTerm args = currentTerm ?rf1" by linarith
  then show ?thesis
  proof cases
    case stale
    with assms show ?thesis
      by (intro refused) (auto simp: RequestVote_def Let_def)
  next
    case fresh
    then obtain e where e: "go_nth (log ?rf1) (go_len (log ?rf1) - 1) = Some e"
      using assms by (auto simp: RequestVote_def Let_def split: option.splits)
    then have ne: "log rf \<noteq> []" by (auto simp: go_nth_def frame_simps)
    with e have e': "e = last (log rf)" by (simp add: frame_simps go_nth_last)
    show ?thesis
    proof (cases "(votedFor ?rf1 = noPeer \<or> votedFor ?rf1 = rvCandidateID args) \<and>
                  upToDate args (leTerm e) (go_len (log ?rf1) - 1)")
      case True
      then show ?thesis
        using assms fresh e e' ne
        by (intro granted [of ?rf1]) (auto simp: RequestVote_def Let_def frame_simps)
    next
      case False
      then show ?thesis
        using assms fresh e
        by (intro refused) (auto simp: RequestVote_def Let_def)
    qed
  qed
qed

lemma AppendEntries_cases:
  assumes "AppendEntries c1 c2 args rf = Some (rf', reply, notify)"
  obtains (stale) "rf' = fst (convertToFollowerIfOutOfTerm c1 (aeTerm args) rf)"
      "aeTerm args < currentTerm rf'" "\<not> aerSuccess reply" "\<not> notify"
      "aerTerm reply = currentTerm rf'" "aerNextTryHint reply = go_len (log rf)"
  | (mismatch) rf1 where "rf1 = fst (convertToFollowerIfOutOfTerm c1 (aeTerm args) rf)"
      "currentTerm rf1 = aeTerm args" "rf' = resetElectionTimer c2 rf1"
      "\<not> aerSuccess reply" "\<not> notify" "aerTerm reply = currentTerm rf'"
      "go_len (log rf) \<le> aePrevLogIndex args \<and> aerNextTryHint reply = go_len (log rf) \<or>
       0 \<le> aePrevLogIndex args \<and> aePrevLogIndex args < go_len (log rf) \<and>
       leTerm (log rf ! nat (aePrevLogIndex args)) \<noteq> aePrevLogTerm args \<and>
       rollback (log rf) (leTerm (log rf ! nat (aePrevLogIndex args))) (aePrevLogIndex args - 1)
         = Some (aerNextTryHint reply - 1)"
  | (success) rf1 rf2 where "rf1 = fst (convertToFollowerIfOutOfTerm c1 (aeTerm args) rf)"
      "currentTerm rf1 = aeTerm args" "0 \<le> aePrevLogIndex args"
      "aePrevLogIndex args < go_len (log rf)"
      "leTerm (log rf ! nat (aePrevLogIndex args)) = aePrevLogTerm args"
      "rf2 = persist ((resetElectionTimer c2 rf1)
         \<lparr>log := mergeLog (nat (aePrevLogIndex args) + 1) (log rf) (aeEntries args)\<rparr>)"
      "aerSuccess reply" "aerTerm reply = currentTerm rf'"
      "notify = (aeLeaderCommit args > commitIndex rf)"
      "rf' = (if notify
              then rf2\<lparr>commitIndex :=
                     Min (aeLeaderCommit args) (aePrevLogIndex args + go_len (aeEntries args))\<rparr>
              else rf2)"
proof -
  let ?rf1 = "fst (convertToFollowerIfOutOfTerm c1 (aeTerm args) rf)"
  let ?prev = "aePrevLogIndex args"
  have "aeTerm args \<le> currentTerm ?rf1" by (simp add: convert_term)
  then consider (stale) "aeTerm args < currentTerm ?rf1"
    | (short) "aeTerm args = currentTerm ?rf1" "go_len (log rf) < ?prev + 1"
    | (in_log) "aeTerm args = currentTerm ?rf1" "?prev < go_len (log rf)"
    by linarith
  then show ?thesis
  proof cases
    case stale
    with assms show ?thesis
      by (intro that(1)) (auto simp: AppendEntries_def Let_def frame_simps)
  next
    case short
    with assms show ?thesis
      by (intro that(2) [of ?rf1]) (auto simp: AppendEntries_def Let_def frame_simps)
  next
    case in_log
    then have p0: "0 \<le> ?prev"
      using assms
      by (auto simp: AppendEntries_def Let_def frame_simps go_nth_def split: option.splits if_splits)
    have e: "go_nth (log rf) ?prev = Some (log rf ! nat ?prev)"
      using in_log p0 by (simp add: go_nth_in)
    show ?thesis
    proof (cases "leTerm (log rf ! nat ?prev) = aePrevLogTerm args")
      case True
      show ?thesis
        by (rule that(3) [of ?rf1 "persist ((resetElectionTimer c2 ?rf1)
              \<lparr>log := mergeLog (nat ?prev + 1) (log rf) (aeEntries args)\<rparr>)"])
           (use assms in_log p0 e True appendNew_mergeLog [OF p0 in_log(2), of "aeEntries args"]
             in \<open>auto simp: AppendEntries_def Let_def frame_simps split: if_splits\<close>)
    next
      case False
      with assms in_log p0 e show ?thesis
        by (intro that(2) [of ?rf1])
           (auto simp: AppendEntries_def Let_def frame_simps split: option.splits)
    qed
  qed
qed


lemma voteReply_cases:
  assumes "sendRequestVoteAndHandleReply now c args srv res rf = Some (rf', aes, sp)"
  obtains (lost) "res = None" "rf' = rf" "aes = []"
  | (outdated) reply where "res = Some reply" "rvrTerm reply > currentTerm rf" "aes = []"
      "rf' = fst (convertToFollowerIfOutOfTerm c (rvrTerm reply) rf)"
  | (denied) reply where "res = Some reply" "\<not> rvrVoteGranted reply" "rf' = rf" "aes = []"
  | (counted) reply where "res = Some reply" "rvrVoteGranted reply" "aes = []"
      "rvrTerm reply \<le> currentTerm rf"
      "state rf = leaderState \<or> votesReceived rf + 1 \<le> int (peers rf) div 2"
      "rf' = rf\<lparr>votesReceived := votesReceived rf + 1\<rparr>"
  | (elected) reply where "res = Some reply" "rvrVoteGranted reply"
      "rvrTerm reply \<le> currentTerm rf"
      "state rf \<noteq> leaderState" "votesReceived rf + 1 > int (peers rf) div 2"
      "sendAppendEntriesToPeers now (becomeLeader (rf\<lparr>votesReceived := votesReceived rf + 1\<rparr>))
         = Some (rf', aes)"
proof (cases res)
  case None
  then show ?thesis using assms by (intro lost) (auto simp: sendRequestVoteAndHandleReply_def)
next
  case (Some reply)
  note unf = assms [unfolded sendRequestVoteAndHandleReply_def Some option.case]
  show ?thesis
  proof (cases "rvrTerm reply > currentTerm rf")
    case True
    then have "snd (convertToFollowerIfOutOfTerm c (rvrTerm reply) rf)" by (simp add: convert_vote)
    with unf Some True show ?thesis
      by (intro outdated [of reply]) (auto simp: case_prod_beta)
  next
    case False
    then have le: "rvrTerm reply \<le> currentTerm rf" by simp
    note unf' = unf [unfolded convert_same [OF le] prod.case if_False if_True Let_def, simplified]
    show ?thesis
    proof (cases "rvrVoteGranted reply")
      case g: False
      with unf' Some show ?thesis by (intro denied [of reply]) auto
    next
      case g: True
      show ?thesis
      proof (cases "state rf \<noteq> leaderState \<and> votesReceived rf + 1 > int (peers rf) div 2")
        case True
        with unf' Some g le show ?thesis
          by (intro elected [of reply]) (auto split: option.splits)
      next
        case False
        with unf' Some g le show ?thesis by (intro counted [of reply]) auto
      qed
    qed
  qed
qed

lemma appendReply_cases:
  assumes "handleAppendEntriesReply c srv args res rf = Some (rf', notify)"
  obtains (lost) "res = None" "rf' = rf" "\<not> notify"
  | (outdated) reply where "res = Some reply" "aerTerm reply > currentTerm rf" "\<not> notify"
      "rf' = fst (convertToFollowerIfOutOfTerm c (aerTerm reply) rf)"
  | (deposed) reply where "res = Some reply" "state rf \<noteq> leaderState" "rf' = rf" "\<not> notify"
  | (success) reply nxt ci where "res = Some reply" "aerTerm reply \<le> currentTerm rf"
      "state rf = leaderState" "aerSuccess reply"
      "nxt = aePrevLogIndex args + go_len (aeEntries args) + 1"
      "srv < length (nextIndex rf)" "srv < length (matchIndex rf)"
      "tryCommit (rf\<lparr>nextIndex := (nextIndex rf)[srv := nxt],
                     matchIndex := (matchIndex rf)[srv := Max 0 (nxt - 1)]\<rparr>) = Some rf'"
      "notify = (commitIndex rf < commitIndex rf')" "commitIndex rf \<le> ci"
      "rf' = rf\<lparr>nextIndex := (nextIndex rf)[srv := nxt],
                matchIndex := (matchIndex rf)[srv := Max 0 (nxt - 1)], commitIndex := ci\<rparr>"
  | (rejected) reply where "res = Some reply" "aerTerm reply \<le> currentTerm rf"
      "state rf = leaderState" "\<not> aerSuccess reply" "srv < length (nextIndex rf)" "\<not> notify"
      "rf' = rf\<lparr>nextIndex := (nextIndex rf)[srv := aerNextTryHint reply]\<rparr>"
proof (cases res)
  case None
  then show ?thesis using assms by (intro lost) (auto simp: handleAppendEntriesReply_def)
next
  case (Some reply)
  note unf = assms [unfolded handleAppendEntriesReply_def Some option.case]
  show ?thesis
  proof (cases "aerTerm reply > currentTerm rf")
    case True
    then have "snd (convertToFollowerIfOutOfTerm c (aerTerm reply) rf)" by (simp add: convert_vote)
    with unf Some True show ?thesis
      by (intro outdated [of reply]) (auto simp: case_prod_beta)
  next
    case False
    then have le: "aerTerm reply \<le> currentTerm rf" by simp
    note unf' = unf [unfolded convert_same [OF le] prod.case if_False if_True Let_def, simplified]
    let ?next = "aePrevLogIndex args + go_len (aeEntries args) + 1"
    let ?upd = "rf\<lparr>nextIndex := (nextIndex rf)[srv := ?next],
                   matchIndex := (matchIndex rf)[srv := Max 0 (?next - 1)]\<rparr>"
    consider (d) "state rf \<noteq> leaderState" | (s) "state rf = leaderState" "aerSuccess reply"
      | (r) "state rf = leaderState" "\<not> aerSuccess reply" by blast
    then show ?thesis
    proof cases
      case d
      with unf' Some show ?thesis by (intro deposed [of reply]) auto
    next
      case r
      with unf' Some le show ?thesis by (intro rejected [of reply]) (auto simp: go_upd_Some_iff)
    next
      case s
      have lens: "srv < length (nextIndex rf)" "srv < length (matchIndex rf)"
        using unf' s by (auto simp: go_upd_def split: if_splits option.splits)
      then have tc: "tryCommit ?upd = Some rf'" "notify = (commitIndex rf < commitIndex rf')"
        using unf' s by (auto simp: go_upd_in)
      obtain ci where ci: "commitIndex rf \<le> ci" "rf' = ?upd\<lparr>commitIndex := ci\<rparr>"
        using tryCommit_shape [OF tc(1)] by auto
      show ?thesis
        by (rule success [of reply ?next ci]) (use Some le s lens tc ci in simp_all)
    qed
  qed
qed

section \<open>Invariant of a peer\<close>

definition node_inv :: "'c Raft \<Rightarrow> bool" where
  "node_inv rf \<longleftrightarrow>
     durable rf \<and> (\<exists>l. log rf = \<lparr>leCommand = None, leTerm = 0\<rparr> # l) \<and> 0 \<le> lastApplied rf \<and>
     (state rf = leaderState \<longrightarrow>
        length (nextIndex rf) = peers rf \<and> length (matchIndex rf) = peers rf)"

text \<open>What one step may do to term and vote.\<close>

definition vote_step :: "'c Raft \<Rightarrow> 'c Raft \<Rightarrow> bool" where
  "vote_step rf rf' \<longleftrightarrow>
     peers rf' = peers rf \<and> me rf' = me rf \<and> currentTerm rf \<le> currentTerm rf' \<and>
     (currentTerm rf' = currentTerm rf \<longrightarrow> votedFor rf \<noteq> noPeer \<longrightarrow> votedFor rf' = votedFor rf)"

lemma vote_step_refl [simp]: "vote_step rf rf"
  by (simp add: vote_step_def)

lemma vote_step_trans: "vote_step a b \<Longrightarrow> vote_step b c \<Longrightarrow> vote_step a c"
  by (auto simp: vote_step_def)

lemma vote_step_convert [simp]: "vote_step rf (fst (convertToFollowerIfOutOfTerm c t rf))"
  by (auto simp: vote_step_def convert_term convert_vote frame_simps max_def)

lemma vote_step_same:
  "peers rf' = peers rf \<Longrightarrow> me rf' = me rf \<Longrightarrow> currentTerm rf' = currentTerm rf \<Longrightarrow>
   votedFor rf' = votedFor rf \<Longrightarrow> vote_step rf rf'"
  by (simp add: vote_step_def)

lemma node_inv_convert:
  "node_inv rf \<Longrightarrow> node_inv (fst (convertToFollowerIfOutOfTerm c t rf))"
  by (auto simp: node_inv_def convert_vote frame_simps)

lemma node_inv_frame:
  "node_inv rf \<Longrightarrow> persister rf' = persister rf \<Longrightarrow> persistent_fields rf' = persistent_fields rf \<Longrightarrow>
   peers rf' = peers rf \<Longrightarrow> 0 \<le> lastApplied rf' \<Longrightarrow>
   (state rf' = leaderState \<Longrightarrow>
      length (nextIndex rf') = peers rf \<and> length (matchIndex rf') = peers rf) \<Longrightarrow> node_inv rf'"
  by (auto simp: node_inv_def durable_def)

lemma mergeLog_head: "0 < p \<Longrightarrow> p \<le> Suc (length l) \<Longrightarrow> \<exists>l'. mergeLog p (e # l) es = e # l'"
  by (cases p) (auto simp: mergeLog_def)

lemma Start_step: "Start cmd rf = (rf', res) \<Longrightarrow> node_inv rf \<Longrightarrow> node_inv rf' \<and> vote_step rf rf'"
  by (auto simp: Start_def Let_def node_inv_def vote_step_def frame_simps split: if_splits)

lemma timeout_step:
  assumes "electionTimoutRoutine now c rf = Some (rf', rvs)" and "node_inv rf"
  shows "node_inv rf' \<and> vote_step rf rf'"
  using assms by (cases rule: electionTimout_cases) (auto simp: node_inv_def vote_step_def)

lemma RequestVote_step:
  assumes "RequestVote c1 c2 args rf = Some (rf', reply)" and "node_inv rf"
  shows "node_inv rf' \<and> vote_step rf rf'"
  using assms(1)
proof (cases rule: RequestVote_cases)
  case refused
  then show ?thesis using assms(2) by (simp add: node_inv_convert)
next
  case (granted rf1)
  have "node_inv rf1" using granted(1) assms(2) by (simp add: node_inv_convert)
  then have "node_inv rf'" by (auto simp: granted(5) node_inv_def frame_simps)
  moreover have "vote_step rf rf1" by (simp add: granted(1))
  then have "vote_step rf rf'"
    by (rule vote_step_trans) (use granted(3) in \<open>auto simp: granted(5) vote_step_def frame_simps\<close>)
  ultimately show ?thesis by simp
qed

lemma AppendEntries_step:
  assumes "AppendEntries c1 c2 args rf = Some (rf', reply, notify)" and "node_inv rf"
  shows "node_inv rf' \<and> vote_step rf rf'"
  using assms(1)
proof (cases rule: AppendEntries_cases)
  case stale
  then show ?thesis using assms(2) by (simp add: node_inv_convert)
next
  case (mismatch rf1)
  have "node_inv rf1" using mismatch(1) assms(2) by (simp add: node_inv_convert)
  then have "node_inv rf'" by (auto simp: mismatch(3) node_inv_def frame_simps)
  moreover have "vote_step rf rf1" by (simp add: mismatch(1))
  then have "vote_step rf rf'"
    by (rule vote_step_trans) (simp add: mismatch(3) vote_step_def frame_simps)
  ultimately show ?thesis by simp
next
  case (success rf1 rf2)
  have i1: "node_inv rf1" using success(1) assms(2) by (simp add: node_inv_convert)
  from assms(2) obtain l where l: "log rf = \<lparr>leCommand = None, leTerm = 0\<rparr> # l"
    by (auto simp: node_inv_def)
  then have "\<exists>l'. log rf2 = \<lparr>leCommand = None, leTerm = 0\<rparr> # l'"
    using success(3,4) unfolding success(6)
    by (auto simp: frame_simps intro!: mergeLog_head)
  moreover have "durable rf2" by (simp add: success(6))
  ultimately have "node_inv rf2" using i1 by (auto simp: success(6) node_inv_def frame_simps)
  then have "node_inv rf'" by (auto simp: success(10) node_inv_def durable_def)
  moreover have "vote_step rf rf1" by (simp add: success(1))
  then have "vote_step rf rf'"
    by (rule vote_step_trans) (auto simp: success(6,10) vote_step_def frame_simps)
  ultimately show ?thesis by simp
qed

lemma sendAppendEntries_step:
  assumes "sendAppendEntriesToPeers now rf = Some (rf', aes)" and "node_inv rf"
  shows "node_inv rf' \<and> vote_step rf rf'"
  using sendAppendEntriesToPeers_shape [OF assms(1)] assms(2)
  by (auto simp: node_inv_def durable_def vote_step_def)

lemma periodic_step:
  assumes "periodicAppendEntriesRoutine now rf = Some (rf', aes, goon)" and "node_inv rf"
  shows "node_inv rf' \<and> vote_step rf rf'"
proof -
  have "rf' = rf \<or> (\<exists>rf1. sendAppendEntriesToPeers now rf = Some (rf1, aes) \<and>
                          rf' = rf1\<lparr>prevAppendEntries := now\<rparr>)"
    using assms(1)
    by (auto simp: periodicAppendEntriesRoutine_def split: if_splits option.splits)
  then show ?thesis
    using assms(2) sendAppendEntries_step [of now rf _ aes]
    by (auto simp: node_inv_def durable_def vote_step_def)
qed

lemma voteReply_step:
  assumes "sendRequestVoteAndHandleReply now c args srv res rf = Some (rf', aes, sp)"
    and "node_inv rf"
  shows "node_inv rf' \<and> vote_step rf rf'"
  using assms(1)
proof (cases rule: voteReply_cases)
  case (outdated reply)
  then show ?thesis using assms(2) by (simp add: node_inv_convert)
next
  case (counted reply)
  then show ?thesis using assms(2) by (auto simp: node_inv_def durable_def vote_step_def)
next
  case (elected reply)
  let ?bl = "becomeLeader (rf\<lparr>votesReceived := votesReceived rf + 1\<rparr>)"
  have bl: "node_inv ?bl" "vote_step rf ?bl"
    using assms(2) by (auto simp: becomeLeader_def node_inv_def durable_def vote_step_def)
  show ?thesis
    using sendAppendEntries_step [OF elected(6) bl(1)] bl(2) vote_step_trans by blast
qed (use assms(2) in simp_all)

lemma appendReply_step:
  assumes "handleAppendEntriesReply c srv args res rf = Some (rf', notify)" and "node_inv rf"
  shows "node_inv rf' \<and> vote_step rf rf'"
  using assms(1)
proof (cases rule: appendReply_cases)
  case (outdated reply)
  then show ?thesis using assms(2) by (simp add: node_inv_convert)
next
  case (success reply nxt ci)
  show ?thesis
    using assms(2) unfolding success(11) by (auto simp: node_inv_def durable_def vote_step_def)
next
  case (rejected reply)
  show ?thesis
    using assms(2) unfolding rejected(7) by (auto simp: node_inv_def durable_def vote_step_def)
qed (use assms(2) in simp_all)

lemma restart_step:
  assumes "node_inv rf"
  shows "node_inv (Make c (peers rf) (me rf) (Persister_Copy (persister rf))) \<and>
         vote_step rf (Make c (peers rf) (me rf) (Persister_Copy (persister rf)))"
proof -
  let ?rf' = "Make c (peers rf) (me rf) (Persister_Copy (persister rf))"
  have p: "persistent_fields ?rf' = persistent_fields rf"
    using assms by (simp only: Make_recovers recovered_Copy) (simp add: node_inv_def durable_def)
  have o: "peers ?rf' = peers rf" "me ?rf' = me rf" "lastApplied ?rf' = 0"
    "state ?rf' = followerState" "persister ?rf' = Persister_Copy (persister rf)"
    by (auto simp: Make_def Let_def readPersist_def resetElectionTimer_def split: option.splits)
  show ?thesis
    using assms p o by (auto simp: node_inv_def durable_def vote_step_def)
qed

lemmas node_step_lemmas =
  Start_step timeout_step RequestVote_step voteReply_step AppendEntries_step appendReply_step
  periodic_step restart_step

lemma node_op_inv: "node_op rf rf' \<Longrightarrow> node_inv rf \<Longrightarrow> node_inv rf' \<and> vote_step rf rf'"
proof (induction rule: node_op.induct)
  case (op_Kill rf)
  then show ?case by (auto simp: Kill_def node_inv_def durable_def vote_step_def)
qed (blast dest: node_step_lemmas)+

lemma node_step_inv: "node_step rf rf' \<Longrightarrow> node_inv rf \<Longrightarrow> node_inv rf' \<and> vote_step rf rf'"
proof (induction rule: node_step.induct)
  case (ns_apply rf rf' m)
  then show ?case
    by (auto dest!: applyNext_shape simp: node_inv_def durable_def vote_step_def)
qed (blast dest: node_op_inv restart_step)+

text \<open>Only \<open>applyCommittedRoutine\<close> moves \<open>lastApplied\<close>.\<close>

lemma sendAppendEntries_lastApplied:
  "sendAppendEntriesToPeers now rf = Some (rf', aes) \<Longrightarrow> lastApplied rf' = lastApplied rf"
  by (auto dest!: sendAppendEntriesToPeers_shape)

lemma node_op_lastApplied: "node_op rf rf' \<Longrightarrow> lastApplied rf' = lastApplied rf"
proof (induction rule: node_op.induct)
  case (op_Start cmd rf rf' res)
  then show ?case by (auto simp: Start_def Let_def frame_simps split: if_splits)
next
  case (op_Kill rf)
  then show ?case by (simp add: Kill_def)
next
  case (op_timeout now c rf rf' rvs)
  then show ?case by (cases rule: electionTimout_cases) simp_all
next
  case (op_RequestVote c1 c2 rva rf rf' rvr)
  then show ?case by (cases rule: RequestVote_cases) (simp_all add: frame_simps)
next
  case (op_voteReply now c rva srv rvres rf rf' aes spawned)
  then show ?case
    by (cases rule: voteReply_cases)
       (simp_all add: frame_simps becomeLeader_def sendAppendEntries_lastApplied)
next
  case (op_AppendEntries c1 c2 aea rf rf' aer notify)
  then show ?case by (cases rule: AppendEntries_cases) (simp_all add: frame_simps)
next
  case (op_appendReply c srv aea aeres rf rf' notify)
  then show ?case
  proof (cases rule: appendReply_cases)
    case (success reply nxt ci)
    then show ?thesis by simp
  qed (simp_all add: frame_simps)
next
  case (op_periodic now rf rf' aes goon)
  then show ?case
    by (auto simp: periodicAppendEntriesRoutine_def sendAppendEntries_lastApplied
        split: if_splits option.splits)
qed

lemma node_inv_Make [simp]: "node_inv (Make c n i MakePersister)"
  by (auto simp: Make_def Let_def readPersist_def resetElectionTimer_def node_inv_def durable_def
      persister_defs recovered_def)

text \<open>A peer that was created with an empty persister.\<close>

definition fresh_node :: "'c Raft \<Rightarrow> bool" where
  "fresh_node rf \<longleftrightarrow> (\<exists>c n i. rf = Make c n i MakePersister)"

interpretation raft_node: inductive_invariant fresh_node node_step node_inv
  by unfold_locales (auto simp: fresh_node_def dest: node_step_inv)

lemma node_steps_vote:
  assumes "node_step\<^sup>*\<^sup>* rf rf'" and "node_inv rf"
  shows "vote_step rf rf'"
  using assms
  by (rule raft_node.reachable_rel [where R = vote_step])
     (auto intro: vote_step_trans dest: node_step_inv)

end
