(* ===== verification/RaftCommit.thy ===== *)
theory RaftCommit
  imports RaftSteps
begin

text \<open>
  What \<open>tryCommit\<close> of \<open>src/src/raft/raft.go\<close> looks for: the indices whose entry a majority is known
  to hold, and the value its loop leaves in \<open>commitIndex\<close>.
\<close>

text \<open>The servers a leader knows to hold entry \<open>N\<close> of its own term, itself included.\<close>

definition holders :: "'c Raft \<Rightarrow> int \<Rightarrow> nat set" where
  "holders rf N = {i \<in> {0..<peers rf}.
     int i = me rf \<or> N \<le> matchIndex rf ! i \<and> leTerm (log rf ! nat N) = currentTerm rf}"

definition committable :: "'c Raft \<Rightarrow> int \<Rightarrow> bool" where
  "committable rf N \<longleftrightarrow>
     commitIndex rf < N \<and> N < go_len (log rf) \<and> majority (peers rf) (holders rf N)"

lemma countsReplica_in:
  assumes "length (matchIndex rf) = peers rf" "0 \<le> N" "N < go_len (log rf)" "i < peers rf"
  shows "countsReplica rf N i = Some (of_bool (i \<in> holders rf N))"
  using assms by (auto simp: countsReplica_def holders_def go_nth_in)

lemma replicateCount_card:
  assumes "length (matchIndex rf) = peers rf" "0 \<le> N" "N < go_len (log rf)"
  shows "replicateCount rf N = Some (int (card (holders rf N)))"
proof -
  have "map (countsReplica rf N) [0..<peers rf] =
        map (\<lambda>i. Some (of_bool (i \<in> holders rf N))) [0..<peers rf]"
    using assms by (intro map_cong refl countsReplica_in) auto
  then have "replicateCount rf N =
      Some (sum_list (map (\<lambda>i. of_bool (i \<in> holders rf N)) [0..<peers rf]))"
    by (simp only: replicateCount_def those_map_Some option.map)
  also have "sum_list (map (\<lambda>i. of_bool (i \<in> holders rf N)) [0..<peers rf]) =
      int (\<Sum>i = 0..<peers rf. of_bool (i \<in> holders rf N))"
    by (simp add: sum_list_distinct_conv_sum_set)
  also have "(\<Sum>i = 0..<peers rf. of_bool (i \<in> holders rf N)) = card (holders rf N)"
    by (simp add: of_bool_def sum.If_cases Int_def holders_def Collect_conj_eq [symmetric] conj_ac
        cong: conj_cong)
  finally show ?thesis by simp
qed

lemma tryCommitFrom_spec:
  assumes "length (matchIndex rf) = peers rf" "0 \<le> commitIndex rf" "N < go_len (log rf)"
  shows "\<exists>ci. tryCommitFrom rf N = Some (rf\<lparr>commitIndex := ci\<rparr>) \<and>
    (ci = commitIndex rf \<and> (\<forall>M \<le> N. \<not> committable rf M) \<or>
     committable rf ci \<and> ci \<le> N \<and> (\<forall>M. ci < M \<and> M \<le> N \<longrightarrow> \<not> committable rf M))"
  using assms
proof (induction rf N rule: tryCommitFrom.induct)
  case (1 rf N)
  show ?case
  proof (cases "commitIndex rf < N")
    case False
    then have "tryCommitFrom rf N = Some (rf\<lparr>commitIndex := commitIndex rf\<rparr>)"
      by (simp add: tryCommitFrom.simps [of rf N])
    moreover have "\<forall>M \<le> N. \<not> committable rf M" using False by (auto simp: committable_def)
    ultimately show ?thesis by blast
  next
    case True
    have cnt: "replicateCount rf N = Some (int (card (holders rf N)))"
      using "1.prems" True by (intro replicateCount_card) auto
    have maj: "committable rf N \<longleftrightarrow> int (card (holders rf N)) > int (peers rf) div 2"
      using True "1.prems" by (auto simp: committable_def majority_def holders_def)
    show ?thesis
    proof (cases "committable rf N")
      case c: True
      then have "tryCommitFrom rf N = Some (rf\<lparr>commitIndex := N\<rparr>)"
        using True cnt maj by (simp add: tryCommitFrom.simps [of rf N])
      with c show ?thesis by fastforce
    next
      case c: False
      then have "tryCommitFrom rf N = tryCommitFrom rf (N - 1)"
        using True cnt maj by (simp add: tryCommitFrom.simps [of rf N])
      moreover obtain ci where ci: "tryCommitFrom rf (N - 1) = Some (rf\<lparr>commitIndex := ci\<rparr>)"
          "ci = commitIndex rf \<and> (\<forall>M \<le> N - 1. \<not> committable rf M) \<or>
           committable rf ci \<and> ci \<le> N - 1 \<and> (\<forall>M. ci < M \<and> M \<le> N - 1 \<longrightarrow> \<not> committable rf M)"
        using "1.IH" [OF True cnt] c maj "1.prems" by auto
      moreover have below: "\<And>M. M \<le> N \<Longrightarrow> committable rf M \<Longrightarrow> M \<le> N - 1"
        using c by (metis zle_diff1_eq order.order_iff_strict)
      have "ci = commitIndex rf \<and> (\<forall>M \<le> N. \<not> committable rf M) \<or>
           committable rf ci \<and> ci \<le> N \<and> (\<forall>M. ci < M \<and> M \<le> N \<longrightarrow> \<not> committable rf M)"
        using ci(2) below by (meson order_trans zle_diff1_eq order_less_imp_le)
      ultimately show ?thesis by auto
    qed
  qed
qed

lemma committable_own_term:
  assumes "committable rf M" and "2 \<le> peers rf"
  shows "leTerm (log rf ! nat M) = currentTerm rf"
proof (rule ccontr)
  assume "leTerm (log rf ! nat M) \<noteq> currentTerm rf"
  then have "holders rf M \<subseteq> {nat (me rf)}" by (auto simp: holders_def)
  then have "card (holders rf M) \<le> 1" using card_mono [of "{nat (me rf)}"] by fastforce
  then show False using assms by (auto simp: committable_def majority_def)
qed

end
