(* ===== verification/RaftTheorems.thy ===== *)
theory RaftTheorems
  imports RaftCommit
begin

text \<open>
  The properties of a single Raft peer, over the operations of \<open>RaftNode\<close> and the runs of
  \<open>RaftSteps\<close>, each with a concrete run on which its hypotheses hold.
\<close>

section \<open>A concrete peer\<close>

text \<open>Server 0 of three, and the same server after its election timer has fired once.\<close>

definition peer0 :: "nat Raft" where
  "peer0 = Make (0, 7) 3 0 MakePersister"

definition peer0_candidate :: "nat Raft" where
  "peer0_candidate = fst (the (electionTimoutRoutine 1000 (1000, 3) peer0))"

lemma peer0_electionTimout:
  "electionTimoutRoutine 1000 (1000, 3) peer0 =
     Some (peer0_candidate, [(1, \<lparr>rvTerm = 1, rvCandidateID = 0, rvLastLogIndex = 0, rvLastLogTerm = 0\<rparr>),
                             (2, \<lparr>rvTerm = 1, rvCandidateID = 0, rvLastLogIndex = 0, rvLastLogTerm = 0\<rparr>)])"
  by code_simp

lemma peer0_step: "node_step peer0 peer0_candidate"
  by (rule ns_op [OF op_timeout [OF peer0_electionTimout]])

lemma peer0_candidate_fields:
  "currentTerm peer0_candidate = 1" "votedFor peer0_candidate = 0"
  "log peer0_candidate = [\<lparr>leCommand = None, leTerm = 0\<rparr>]" "state peer0_candidate = candidateState"
  "peers peer0_candidate = 3" "me peer0_candidate = 0"
  by code_simp+

section \<open>Votes, terms and stable storage\<close>

text \<open>Property C8: whatever a peer does from its creation on, crashes and restarts included, its
  term never decreases and a vote it has cast is never changed within the term.\<close>

theorem votes_once_per_term:
  assumes "node_step\<^sup>*\<^sup>* (Make c n i MakePersister) rf" and "node_step\<^sup>*\<^sup>* rf rf'"
  shows "currentTerm rf \<le> currentTerm rf' \<and>
    (currentTerm rf' = currentTerm rf \<and> votedFor rf \<noteq> noPeer \<longrightarrow> votedFor rf' = votedFor rf)"
proof -
  have "node_inv rf" using assms(1) by (rule raft_node.steps_inv) simp
  with assms(2) have "vote_step rf rf'" by (rule node_steps_vote)
  then show ?thesis by (simp add: vote_step_def)
qed

theorem votes_once_per_term_witness:
  "votedFor peer0_candidate \<noteq> noPeer \<and>
   (\<exists>rf'. node_step peer0_candidate rf' \<and> currentTerm rf' = currentTerm peer0_candidate \<and>
          state rf' = followerState \<and> votedFor rf' = 0)"
proof -
  let ?rf' = "Make (0, 0) (peers peer0_candidate) (me peer0_candidate)
                (Persister_Copy (persister peer0_candidate))"
  have s: "node_step peer0_candidate ?rf'" by (rule ns_restart)
  have t: "currentTerm ?rf' = currentTerm peer0_candidate" "state ?rf' = followerState"
    by code_simp+
  have "node_step\<^sup>*\<^sup>* (Make (0, 7) 3 0 MakePersister) peer0_candidate"
    using peer0_step by (simp add: peer0_def)
  moreover have "node_step\<^sup>*\<^sup>* peer0_candidate ?rf'" using s by simp
  ultimately have "currentTerm ?rf' = currentTerm peer0_candidate \<and> votedFor peer0_candidate \<noteq> noPeer \<longrightarrow>
      votedFor ?rf' = votedFor peer0_candidate"
    using votes_once_per_term by blast
  with t
  have "votedFor ?rf' = 0" by (simp add: peer0_candidate_fields noPeer_def)
  with s t show ?thesis by (auto simp: peer0_candidate_fields noPeer_def)
qed

text \<open>Property C9: at every moment stable storage holds the current term, vote and log, so a new
  instance made from a copy of the persister starts with exactly these.\<close>

theorem restart_recovers_state:
  assumes "node_step\<^sup>*\<^sup>* (Make c n i MakePersister) rf"
  shows "persistent_fields (Make c' (peers rf) (me rf) (Persister_Copy (persister rf))) =
         persistent_fields rf"
proof -
  have "node_inv rf" using assms by (rule raft_node.steps_inv) simp
  then show ?thesis
    by (simp only: Make_recovers recovered_Copy) (simp add: node_inv_def durable_def)
qed

theorem restart_recovers_state_witness:
  "persistent_fields (Make (5, 5) 3 0 (Persister_Copy (persister peer0_candidate))) =
     (1, 0, [\<lparr>leCommand = None, leTerm = 0\<rparr>])"
proof -
  have "node_step\<^sup>*\<^sup>* (Make (0, 7) 3 0 MakePersister) peer0_candidate"
    using peer0_step by (simp add: peer0_def)
  from restart_recovers_state [OF this, of "(5, 5)"] show ?thesis
    by (simp add: peer0_candidate_fields)
qed

text \<open>Property C15: a vote is granted exactly when the request is not older than the peer's term, the
  peer has not voted for somebody else in that term, and the candidate's log is at least
  as up to date; a granted vote is in memory and on disk when the reply is sent.\<close>

theorem RequestVote_granted_iff:
  assumes "RequestVote c1 c2 args rf = Some (rf', reply)"
  shows "(rvrVoteGranted reply \<longleftrightarrow>
      currentTerm rf \<le> rvTerm args \<and>
      (currentTerm rf < rvTerm args \<or> votedFor rf = noPeer \<or> votedFor rf = rvCandidateID args) \<and>
      (leTerm (last (log rf)) < rvLastLogTerm args \<or>
       leTerm (last (log rf)) = rvLastLogTerm args \<and> go_len (log rf) - 1 \<le> rvLastLogIndex args)) \<and>
    (rvrVoteGranted reply \<longrightarrow>
      persistent_fields rf' = (rvTerm args, rvCandidateID args, log rf) \<and> durable rf') \<and>
    rvrTerm reply = currentTerm rf' \<and> currentTerm rf' = max (rvTerm args) (currentTerm rf)"
proof -
  let ?rf1 = "fst (convertToFollowerIfOutOfTerm c1 (rvTerm args) rf)"
  have ne: "rvTerm args < currentTerm rf \<or> log rf \<noteq> []"
    using assms by (auto simp: RequestVote_def Let_def convert_term frame_simps go_nth_def)
  show ?thesis
  proof (cases "currentTerm rf \<le> rvTerm args")
    case False
    with assms show ?thesis
      by (auto simp: RequestVote_def Let_def convert_same)
  next
    case True
    with ne have e: "go_nth (log ?rf1) (go_len (log ?rf1) - 1) = Some (last (log rf))"
      by (simp add: frame_simps go_nth_last)
    show ?thesis
      using assms True e
      by (auto simp: RequestVote_def Let_def convert_term convert_vote frame_simps upToDate_def
          split: if_splits)
  qed
qed

theorem RequestVote_granted_iff_witness:
  "\<exists>rf' reply.
     RequestVote (0, 0) (0, 0)
       \<lparr>rvTerm = 2, rvCandidateID = 1, rvLastLogIndex = 0, rvLastLogTerm = 0\<rparr> peer0_candidate
       = Some (rf', reply) \<and> rvrVoteGranted reply \<and>
     persistent_fields rf' = (2, 1, [\<lparr>leCommand = None, leTerm = 0\<rparr>])"
proof -
  let ?args = "\<lparr>rvTerm = 2, rvCandidateID = 1, rvLastLogIndex = 0, rvLastLogTerm = 0\<rparr>"
  have "RequestVote (0, 0) (0, 0) ?args peer0_candidate \<noteq> None" by code_simp
  then obtain rf' reply where r: "RequestVote (0, 0) (0, 0) ?args peer0_candidate = Some (rf', reply)"
    by fastforce
  from RequestVote_granted_iff [OF r] r show ?thesis by (auto simp: peer0_candidate_fields)
qed

section \<open>AppendEntries\<close>

lemma rollback_total: "hint < go_len l \<Longrightarrow> \<exists>h. rollback l t hint = Some h"
  using rollback_spec [of hint l t] by (cases "0 \<le> hint") (auto simp: rollback.simps [of l t hint])

text \<open>The handler panics exactly on a request of a current term with a negative
  previous index; every other request gets a reply.\<close>

theorem AppendEntries_panics_iff:
  "AppendEntries c1 c2 args rf = None \<longleftrightarrow>
     currentTerm rf \<le> aeTerm args \<and> aePrevLogIndex args < 0"
proof -
  let ?prev = "aePrevLogIndex args"
  show ?thesis
  proof (cases "0 \<le> ?prev \<and> ?prev < go_len (log rf)")
    case True
    then have e: "go_nth (log rf) ?prev = Some (log rf ! nat ?prev)" by (simp add: go_nth_in)
    obtain h where "rollback (log rf) (leTerm (log rf ! nat ?prev)) (?prev - 1) = Some h"
      using rollback_total [of "?prev - 1" "log rf"] True by auto
    with True e appendNew_mergeLog [of ?prev "log rf" "aeEntries args"] show ?thesis
      by (auto simp: AppendEntries_def Let_def frame_simps)
  next
    case False
    then show ?thesis
      by (auto simp: AppendEntries_def Let_def frame_simps convert_term go_nth_def)
  qed
qed

text \<open>Property C13: the handler succeeds exactly when the request is not outdated and the log has the
  previous entry with the stated term. Then the log contains the entries right after that
  position, everything before is untouched, and nothing behind them is dropped when they
  were there already; without success the log does not change.\<close>

theorem AppendEntries_log:
  assumes "AppendEntries c1 c2 args rf = Some (rf', reply, notify)"
  shows "(aerSuccess reply \<longleftrightarrow>
      currentTerm rf \<le> aeTerm args \<and> 0 \<le> aePrevLogIndex args \<and>
      aePrevLogIndex args < go_len (log rf) \<and>
      leTerm (log rf ! nat (aePrevLogIndex args)) = aePrevLogTerm args) \<and>
    (\<not> aerSuccess reply \<longrightarrow> log rf' = log rf) \<and>
    (aerSuccess reply \<longrightarrow>
      (let p = nat (aePrevLogIndex args) + 1; es = aeEntries args
       in take (p + length es) (log rf') = take p (log rf) @ es \<and>
          (prefix es (drop p (log rf)) \<longrightarrow> log rf' = log rf) \<and>
          (\<not> prefix es (drop p (log rf)) \<longrightarrow> log rf' = take p (log rf) @ es)) \<and>
      durable rf')"
  using assms
proof (cases rule: AppendEntries_cases)
  case stale
  then show ?thesis by (auto simp: convert_term frame_simps)
next
  case (mismatch rf1)
  then show ?thesis by (auto simp: frame_simps)
next
  case (success rf1 rf2)
  let ?p = "nat (aePrevLogIndex args) + 1"
  have t: "currentTerm rf \<le> aeTerm args" using success(1,2) by (simp add: convert_term)
  have p: "?p \<le> length (log rf)" using success(3,4) by simp
  have l: "log rf' = mergeLog ?p (log rf) (aeEntries args)"
    by (simp add: success(10,6) frame_simps)
  moreover have "durable rf'" by (auto simp: success(10,6) durable_def persist_def)
  ultimately show ?thesis
    using t success(3-5,7) mergeLog_contains [OF p, of "aeEntries args"]
    by (auto simp: Let_def mergeLog_def)
qed

definition ae_conflict :: "nat AppendEntriesArgs" where
  "ae_conflict = \<lparr>aeTerm = 3, aeLeaderID = 1, aePrevLogIndex = 1, aePrevLogTerm = 1,
     aeEntries = [\<lparr>leCommand = Some 20, leTerm = 3\<rparr>], aeLeaderCommit = 1\<rparr>"

definition peer_conflict :: "nat Raft" where
  "peer_conflict = peer0\<lparr>currentTerm := 2,
     log := [\<lparr>leCommand = None, leTerm = 0\<rparr>, \<lparr>leCommand = Some 10, leTerm = 1\<rparr>,
             \<lparr>leCommand = Some 11, leTerm = 2\<rparr>, \<lparr>leCommand = Some 12, leTerm = 2\<rparr>]\<rparr>"

theorem AppendEntries_log_witness:
  "\<exists>rf' reply notify.
     AppendEntries (0, 0) (0, 0) ae_conflict peer_conflict = Some (rf', reply, notify) \<and>
     aerSuccess reply \<and>
     log rf' = [\<lparr>leCommand = None, leTerm = 0\<rparr>, \<lparr>leCommand = Some 10, leTerm = 1\<rparr>,
                \<lparr>leCommand = Some 20, leTerm = 3\<rparr>]"
proof -
  have "AppendEntries (0, 0) (0, 0) ae_conflict peer_conflict \<noteq> None" by code_simp
  then obtain rf' reply notify where
    r: "AppendEntries (0, 0) (0, 0) ae_conflict peer_conflict = Some (rf', reply, notify)"
    by (metis option.exhaust prod_cases3)
  have "aerSuccess reply \<and>
     log rf' = [\<lparr>leCommand = None, leTerm = 0\<rparr>, \<lparr>leCommand = Some 10, leTerm = 1\<rparr>,
                \<lparr>leCommand = Some 20, leTerm = 3\<rparr>]"
    using AppendEntries_log [OF r] by (simp add: ae_conflict_def peer_conflict_def Let_def)
  with r show ?thesis by blast
qed

text \<open>A rejection because of the log tells the leader an index to try next that is at
  least 1 and at most the previous index it sent, so \<open>nextIndex\<close> strictly decreases; the
  entries from that index up to the rejected one all have the conflicting term, and the
  entry before the index, unless it is the dummy, has another one.\<close>

theorem AppendEntries_hint:
  assumes "AppendEntries c1 c2 args rf = Some (rf', reply, notify)"
    and "currentTerm rf \<le> aeTerm args" and "\<not> aerSuccess reply"
    and "1 \<le> aePrevLogIndex args" and "log rf \<noteq> []"
  shows "1 \<le> aerNextTryHint reply \<and> aerNextTryHint reply \<le> aePrevLogIndex args \<and>
    aerNextTryHint reply \<le> go_len (log rf) \<and>
    (aePrevLogIndex args < go_len (log rf) \<longrightarrow>
      (let conflictTerm = leTerm (log rf ! nat (aePrevLogIndex args))
       in (\<forall>k. aerNextTryHint reply \<le> k \<and> k \<le> aePrevLogIndex args \<longrightarrow>
               leTerm (log rf ! nat k) = conflictTerm) \<and>
          (1 < aerNextTryHint reply \<longrightarrow>
               leTerm (log rf ! nat (aerNextTryHint reply - 1)) \<noteq> conflictTerm)))"
  using assms(1)
proof (cases rule: AppendEntries_cases)
  case stale
  then show ?thesis using assms(2) by (auto simp: convert_term)
next
  case (success rf1 rf2)
  then show ?thesis using assms(3) by simp
next
  case (mismatch rf1)
  let ?prev = "aePrevLogIndex args"
  show ?thesis
  proof (cases "?prev < go_len (log rf)")
    case False
    then have "go_len (log rf) \<le> ?prev \<and> aerNextTryHint reply = go_len (log rf)"
      using mismatch(7) by auto
    moreover have "1 \<le> go_len (log rf)" using assms(5) by (cases "log rf") auto
    ultimately show ?thesis by simp
  next
    case True
    let ?t = "leTerm (log rf ! nat ?prev)"
    have rb: "rollback (log rf) ?t (?prev - 1) = Some (aerNextTryHint reply - 1)"
      using mismatch(7) True by auto
    have ge: "0 \<le> ?prev - 1" "?prev - 1 < go_len (log rf)" using True assms(4) by auto
    from rollback_spec [OF ge(2,1), of ?t] rb
    have h: "0 \<le> aerNextTryHint reply - 1" "aerNextTryHint reply - 1 \<le> ?prev - 1"
      "\<forall>k. aerNextTryHint reply - 1 < k \<and> k \<le> ?prev - 1 \<longrightarrow> leTerm (log rf ! nat k) = ?t"
      "0 < aerNextTryHint reply - 1 \<longrightarrow> leTerm (log rf ! nat (aerNextTryHint reply - 1)) \<noteq> ?t"
      by auto
    have same: "\<forall>k. aerNextTryHint reply \<le> k \<and> k \<le> ?prev \<longrightarrow> leTerm (log rf ! nat k) = ?t"
    proof (intro allI impI)
      fix k assume k: "aerNextTryHint reply \<le> k \<and> k \<le> ?prev"
      show "leTerm (log rf ! nat k) = ?t"
        using h(3) k by (cases "k = ?prev") auto
    qed
    have "1 \<le> aerNextTryHint reply" "aerNextTryHint reply \<le> ?prev"
      "aerNextTryHint reply \<le> go_len (log rf)"
      "1 < aerNextTryHint reply \<longrightarrow> leTerm (log rf ! nat (aerNextTryHint reply - 1)) \<noteq> ?t"
      using h(1,2,4) True by linarith+
    with same show ?thesis unfolding Let_def by blast
  qed
qed

theorem AppendEntries_hint_witness:
  "\<exists>rf' reply notify.
     AppendEntries (0, 0) (0, 0) (ae_conflict\<lparr>aePrevLogIndex := 3, aePrevLogTerm := 3\<rparr>) peer_conflict
       = Some (rf', reply, notify) \<and> aerNextTryHint reply = 2"
proof -
  let ?args = "ae_conflict\<lparr>aePrevLogIndex := 3, aePrevLogTerm := 3\<rparr>"
  let ?r = "AppendEntries (0, 0) (0, 0) ?args peer_conflict"
  have r: "?r = Some (fst (the ?r), fst (snd (the ?r)), snd (snd (the ?r)))"
    and s: "\<not> aerSuccess (fst (snd (the ?r)))" by code_simp+
  have h: "1 \<le> aerNextTryHint (fst (snd (the ?r))) \<and> aerNextTryHint (fst (snd (the ?r))) \<le> 3"
    using AppendEntries_hint [OF r _ s] by (simp add: ae_conflict_def peer_conflict_def)
  moreover have "aerNextTryHint (fst (snd (the ?r))) = 2" by code_simp
  ultimately show ?thesis using r by blast
qed

text \<open>A request built by a leader whose commit index lies inside its log never
  lowers the commit index of the receiver, and a raised one points into the new log.\<close>

theorem AppendEntries_commit_monotone:
  assumes "appendRequest leader i = Some args"
    and "commitIndex leader < go_len (log leader)"
    and "AppendEntries c1 c2 args rf = Some (rf', reply, notify)"
  shows "commitIndex rf \<le> commitIndex rf' \<and>
    (notify \<longleftrightarrow> commitIndex rf < commitIndex rf') \<and>
    (notify \<longrightarrow> commitIndex rf' = commitIndex leader \<and> commitIndex rf' < go_len (log rf'))"
proof -
  have lc: "aeLeaderCommit args = commitIndex leader"
    "aeLeaderCommit args \<le> aePrevLogIndex args + go_len (aeEntries args)"
    using assms(1,2)
    by (auto simp: appendRequest_def go_Some_iffs of_nat_diff split: option.splits if_splits)
  from assms(3) show ?thesis
  proof (cases rule: AppendEntries_cases)
    case (success rf1 rf2)
    let ?p = "nat (aePrevLogIndex args) + 1"
    have ci: "commitIndex rf2 = commitIndex rf" by (simp add: success(1,6) frame_simps)
    have l: "log rf' = mergeLog ?p (log rf) (aeEntries args)" by (simp add: success(10,6) frame_simps)
    have "?p \<le> length (log rf)" using success(3,4) by simp
    from mergeLog_length [OF this, of "aeEntries args"]
    have "aePrevLogIndex args + go_len (aeEntries args) < go_len (log rf')"
      using success(3) by (simp add: l)
    then show ?thesis
      using lc success(9,10) ci by (auto simp: Min_def)
  qed (auto simp: frame_simps)
qed

definition leader_example :: "nat Raft" where
  "leader_example = peer_conflict\<lparr>me := 1, currentTerm := 3, state := leaderState,
     log := [\<lparr>leCommand = None, leTerm = 0\<rparr>, \<lparr>leCommand = Some 10, leTerm = 1\<rparr>,
             \<lparr>leCommand = Some 20, leTerm = 3\<rparr>],
     commitIndex := 2, nextIndex := [2, 3, 3], matchIndex := [1, 0, 2]\<rparr>"

theorem AppendEntries_commit_monotone_witness:
  "\<exists>args rf' reply notify.
     appendRequest leader_example 0 = Some args \<and>
     AppendEntries (0, 0) (0, 0) args peer_conflict = Some (rf', reply, notify) \<and>
     notify \<and> commitIndex rf' = 2"
proof -
  let ?args = "the (appendRequest leader_example 0)"
  let ?r = "AppendEntries (0, 0) (0, 0) ?args peer_conflict"
  have a: "appendRequest leader_example 0 = Some ?args"
    and ci: "commitIndex leader_example < go_len (log leader_example)"
    and r: "?r = Some (fst (the ?r), fst (snd (the ?r)), snd (snd (the ?r)))"
    and n: "snd (snd (the ?r))" by code_simp+
  have "commitIndex (fst (the ?r)) = 2"
    using AppendEntries_commit_monotone [OF a ci r] n by (simp add: leader_example_def)
  with a r n show ?thesis by blast
qed

section \<open>Commitment\<close>

text \<open>Property C14: \<open>tryCommit\<close> returns, changes at most the commit index, and moves it to the
  greatest index above the old one whose entry is of the current term and replicated on a
  majority (with a single peer, on the leader); it keeps the old value if there is none.\<close>

theorem tryCommit_greatest:
  assumes "length (matchIndex rf) = peers rf" and "0 \<le> commitIndex rf"
  shows "\<exists>ci. tryCommit rf = Some (rf\<lparr>commitIndex := ci\<rparr>) \<and>
    (if \<exists>N. committable rf N
     then committable rf ci \<and> (\<forall>N. committable rf N \<longrightarrow> N \<le> ci) \<and>
          (2 \<le> peers rf \<longrightarrow> leTerm (log rf ! nat ci) = currentTerm rf)
     else ci = commitIndex rf)"
proof -
  obtain ci where ci: "tryCommit rf = Some (rf\<lparr>commitIndex := ci\<rparr>)"
    "ci = commitIndex rf \<and> (\<forall>M \<le> go_len (log rf) - 1. \<not> committable rf M) \<or>
     committable rf ci \<and> (\<forall>M. ci < M \<and> M \<le> go_len (log rf) - 1 \<longrightarrow> \<not> committable rf M)"
    using tryCommitFrom_spec [OF assms, of "go_len (log rf) - 1"] by (auto simp: tryCommit_def)
  have top: "committable rf M \<Longrightarrow> M \<le> go_len (log rf) - 1" for M by (simp add: committable_def)
  show ?thesis
  proof (intro exI conjI)
    show "if \<exists>N. committable rf N
          then committable rf ci \<and> (\<forall>N. committable rf N \<longrightarrow> N \<le> ci) \<and>
               (2 \<le> peers rf \<longrightarrow> leTerm (log rf ! nat ci) = currentTerm rf)
          else ci = commitIndex rf"
      using ci(2) top committable_own_term by (auto simp: not_less) (metis linorder_not_less)+
  qed (rule ci(1))
qed

theorem tryCommit_greatest_witness:
  "\<exists>ci. tryCommit (leader_example\<lparr>commitIndex := 0\<rparr>) =
          Some (leader_example\<lparr>commitIndex := ci\<rparr>) \<and> ci = 2"
proof -
  let ?rf = "leader_example\<lparr>commitIndex := 0\<rparr>"
  have h: "length (matchIndex ?rf) = peers ?rf" "0 \<le> commitIndex ?rf" by code_simp+
  have "holders ?rf 2 = {1, 2}"
    by (auto simp: holders_def leader_example_def peer_conflict_def peer0_def Make_def
        resetElectionTimer_def readPersist_def persister_defs Let_def less_Suc_eq numeral_3_eq_3)
  then have c: "committable ?rf 2"
    by (simp add: committable_def majority_def leader_example_def peer_conflict_def peer0_def
        Make_def resetElectionTimer_def readPersist_def persister_defs Let_def)
  obtain ci where ci: "tryCommit ?rf = Some (?rf\<lparr>commitIndex := ci\<rparr>)"
    "if \<exists>N. committable ?rf N
     then committable ?rf ci \<and> (\<forall>N. committable ?rf N \<longrightarrow> N \<le> ci) \<and>
          (2 \<le> peers ?rf \<longrightarrow> leTerm (log ?rf ! nat ci) = currentTerm ?rf)
     else ci = commitIndex ?rf"
    using tryCommit_greatest [OF h] by blast
  moreover have "\<exists>N. committable ?rf N" using c by blast
  ultimately have "committable ?rf ci \<and> (\<forall>N. committable ?rf N \<longrightarrow> N \<le> ci)" by presburger
  with c have "committable ?rf ci" "2 \<le> ci" by blast+
  then have "ci = 2" by (simp add: committable_def leader_example_def)
  with ci(1) show ?thesis by simp
qed

section \<open>Applying entries\<close>

text \<open>Over any run of one instance, whatever handlers run in between, the indices it
  sends on \<open>applyCh\<close> are consecutive and start right after \<open>lastApplied\<close>: no entry is
  skipped, repeated or reordered. A new instance starts at index 1.\<close>

theorem applied_indices_consecutive:
  assumes "node_run rf ms rf'"
  shows "map CommandIndex ms = [lastApplied rf + 1..lastApplied rf'] \<and>
    go_len ms = lastApplied rf' - lastApplied rf \<and> (\<forall>m \<in> set ms. CommandValid m)"
  using assms
proof (induction rule: node_run.induct)
  case (run_start rf)
  then show ?case by simp
next
  case (run_op rf ms rf' rf'')
  then show ?case by (simp add: node_op_lastApplied)
next
  case (run_apply rf ms rf' rf'' m)
  have m: "CommandIndex m = lastApplied rf' + 1" "CommandValid m"
    "lastApplied rf'' = lastApplied rf' + 1"
    using run_apply.hyps(2) by (auto simp: applyNext_def Let_def split: if_splits)
  have "lastApplied rf \<le> lastApplied rf'" using run_apply.IH by linarith
  then have "[lastApplied rf + 1..lastApplied rf' + 1] =
      [lastApplied rf + 1..lastApplied rf'] @ [lastApplied rf' + 1]"
    by (simp add: upto_rec2)
  then show ?case using run_apply.IH m by auto
qed

theorem applied_indices_consecutive_witness:
  "\<exists>ms rf'. node_run leader_example ms rf' \<and> map CommandIndex ms = [1, 2]"
proof -
  let ?r1 = "fst (the (the (applyNext leader_example)))"
  let ?m1 = "snd (the (the (applyNext leader_example)))"
  let ?r2 = "fst (the (the (applyNext ?r1)))"
  let ?m2 = "snd (the (the (applyNext ?r1)))"
  have s: "applyNext leader_example = Some (Some (?r1, ?m1))" "applyNext ?r1 = Some (Some (?r2, ?m2))"
    "lastApplied leader_example = 0" "lastApplied ?r2 = 2" by code_simp+
  have run: "node_run leader_example ([] @ [?m1] @ [?m2]) ?r2"
    using run_apply [OF run_apply [OF run_start s(1)] s(2)] by simp
  from applied_indices_consecutive [OF run] s(3,4)
  have "map CommandIndex ([] @ [?m1] @ [?m2]) = [1..2]" by simp
  also have "[1..2::int] = [1, 2]" by (simp add: upto.simps)
  finally have "map CommandIndex ([] @ [?m1] @ [?m2]) = [1, 2]" .
  with run show ?thesis by (intro exI conjI)
qed

end
