(* ===== verification/RaftCluster.thy ===== *)
theory RaftCluster
  imports RaftSteps
begin

text \<open>
  A group of Raft peers and the RPCs in flight between them. The state is the list of
  peers and the list of messages; an action is one peer running one piece of code under
  its lock, the delivery or the loss of a message, or a crash with a restart. Messages
  may be delayed without bound, reordered and lost, as in \<open>src/src/labrpc/labrpc.go\<close>, which
  delivers a request at most once and returns at most one reply for it.

  Result: the code as written can elect two leaders in one term, because
  \<open>sendRequestVoteAndHandleReply\<close> counts a vote that was granted for an earlier term.
  When replies that belong to an earlier term are excluded, there is at most one leader per
  term, also across crashes.
\<close>

section \<open>Messages, actions, steps\<close>

text \<open>
  A message carries the calling peer, the called peer and the arguments. The flag of a
  request says whether the caller still waits for the reply: the instance that sent it
  may have crashed.
\<close>

datatype 'c rpc =
  RVReq bool nat nat RequestVoteArgs
| RVRep nat nat RequestVoteArgs RequestVoteReply
| AEReq bool nat nat "'c AppendEntriesArgs"
| AERep nat nat "'c AppendEntriesArgs" AppendEntriesReply

record 'c cluster =
  nodes :: "'c Raft list"
  net :: "'c rpc list"

datatype 'c action =
  Timeout nat int clock
| Deliver "'c rpc" int clock clock
| Drop "'c rpc"
| Heartbeat nat int
| Client nat 'c
| Apply nat
| Restart nat clock

text \<open>
  Sending an RPC puts the request on the network (\<open>sendRequestVote\<close>, \<open>sendAppendEntries\<close>). In this theory a request
  carries the entries it was made with; in theory \<open>RaftAlias\<close> it carries what the log of its sender has made of them
  when it is encoded.
\<close>

definition sendRequestVote :: "nat \<Rightarrow> (nat \<times> RequestVoteArgs) list \<Rightarrow> 'c rpc list" where
  "sendRequestVote i msgs = map (\<lambda>(j, args). RVReq True i j args) msgs"

definition sendAppendEntries :: "nat \<Rightarrow> (nat \<times> 'c AppendEntriesArgs) list \<Rightarrow> 'c rpc list" where
  "sendAppendEntries i msgs = map (\<lambda>(j, args). AEReq True i j args) msgs"

text \<open>A crash of peer \<open>i\<close>: replies to it are lost, nobody waits for its requests any more.\<close>

fun replyTo :: "nat \<Rightarrow> 'c rpc \<Rightarrow> bool" where
  "replyTo i (RVRep i' j a r) = (i' = i)"
| "replyTo i (AERep i' j b r') = (i' = i)"
| "replyTo i m = False"

fun orphan :: "nat \<Rightarrow> 'c rpc \<Rightarrow> 'c rpc" where
  "orphan i (RVReq w i' j a) = RVReq (w \<and> i' \<noteq> i) i' j a"
| "orphan i (AEReq w i' j b) = AEReq (w \<and> i' \<noteq> i) i' j b"
| "orphan i m = m"

definition crashNet :: "nat \<Rightarrow> 'c rpc list \<Rightarrow> 'c rpc list" where
  "crashNet i ms = map (orphan i) (filter (\<lambda>m. \<not> replyTo i m) ms)"

text \<open>Handling a message at its destination: the new peer state and the messages it sends.\<close>

fun receiver :: "'c rpc \<Rightarrow> nat" where
  "receiver (RVReq w i j a) = j"
| "receiver (RVRep i j a r) = i"
| "receiver (AEReq w i j b) = j"
| "receiver (AERep i j b r') = i"

fun handle :: "'c rpc \<Rightarrow> int \<Rightarrow> clock \<Rightarrow> clock \<Rightarrow> 'c Raft \<Rightarrow> ('c Raft \<times> 'c rpc list) option" where
  "handle (RVReq w i j a) now c1 c2 rf =
     map_option (\<lambda>(rf, r). (rf, if w then [RVRep i j a r] else [])) (RequestVote c1 c2 a rf)"
| "handle (RVRep i j a r) now c1 c2 rf =
     map_option (\<lambda>(rf, aes, _). (rf, sendAppendEntries i aes))
       (sendRequestVoteAndHandleReply now c1 a j (Some r) rf)"
| "handle (AEReq w i j b) now c1 c2 rf =
     map_option (\<lambda>(rf, r, _). (rf, if w then [AERep i j b r] else [])) (AppendEntries c1 c2 b rf)"
| "handle (AERep i j b r') now c1 c2 rf =
     map_option (\<lambda>(rf, _). (rf, [])) (handleAppendEntriesReply c1 j b (Some r') rf)"

text \<open>One action; \<open>None\<close> when it is not possible or a handler panics.\<close>

fun exec :: "'c action \<Rightarrow> 'c cluster \<Rightarrow> 'c cluster option" where
  "exec (Timeout i now c) s =
     (if i < length (nodes s) then
        map_option
          (\<lambda>(rf, rvs). s\<lparr>nodes := (nodes s)[i := rf], net := net s @ sendRequestVote i rvs\<rparr>)
          (electionTimoutRoutine now c (nodes s ! i))
      else None)"
| "exec (Deliver m now c1 c2) s =
     (if m \<in> set (net s) \<and> receiver m < length (nodes s) then
        map_option
          (\<lambda>(rf, ms). s\<lparr>nodes := (nodes s)[receiver m := rf], net := remove1 m (net s) @ ms\<rparr>)
          (handle m now c1 c2 (nodes s ! receiver m))
      else None)"
| "exec (Drop m) s = Some (s\<lparr>net := remove1 m (net s)\<rparr>)"
| "exec (Heartbeat i now) s =
     (if i < length (nodes s) then
        map_option
          (\<lambda>(rf, aes, _). s\<lparr>nodes := (nodes s)[i := rf], net := net s @ sendAppendEntries i aes\<rparr>)
          (periodicAppendEntriesRoutine now (nodes s ! i))
      else None)"
| "exec (Client i cmd) s =
     (if i < length (nodes s)
      then Some (s\<lparr>nodes := (nodes s)[i := fst (Start cmd (nodes s ! i))]\<rparr>) else None)"
| "exec (Apply i) s =
     (if i < length (nodes s) then
        (case applyNext (nodes s ! i) of
           Some (Some (rf, m)) \<Rightarrow> Some (s\<lparr>nodes := (nodes s)[i := rf]\<rparr>)
         | _ \<Rightarrow> None)
      else None)"
| "exec (Restart i c) s =
     (if i < length (nodes s) then
        (let rf = nodes s ! i
         in Some (s\<lparr>nodes := (nodes s)[i := Make c (peers rf) (me rf) (Persister_Copy (persister rf))],
                    net := crashNet i (net s)\<rparr>))
      else None)"

text \<open>A list of actions, each of which must be allowed where it happens.\<close>

fun execs ::
    "('c cluster \<Rightarrow> 'c action \<Rightarrow> bool) \<Rightarrow> 'c action list \<Rightarrow> 'c cluster \<Rightarrow> 'c cluster option" where
  "execs allowed [] s = Some s"
| "execs allowed (a # as) s =
     (if allowed s a then (case exec a s of None \<Rightarrow> None | Some t \<Rightarrow> execs allowed as t) else None)"

inductive cstep :: "('c cluster \<Rightarrow> 'c action \<Rightarrow> bool) \<Rightarrow> 'c cluster \<Rightarrow> 'c cluster \<Rightarrow> bool"
  for allowed where
  act: "allowed s a \<Longrightarrow> exec a s = Some t \<Longrightarrow> cstep allowed s t"

inductive_cases cstepE: "cstep allowed s t"

definition init_cluster :: "nat \<Rightarrow> (nat \<Rightarrow> clock) \<Rightarrow> 'c cluster" where
  "init_cluster n cs = \<lparr>nodes = map (\<lambda>i. Make (cs i) n (int i) MakePersister) [0..<n], net = []\<rparr>"

definition initial :: "'c cluster \<Rightarrow> bool" where
  "initial s \<longleftrightarrow> (\<exists>n cs. s = init_cluster n cs)"

text \<open>Everything is allowed: the code as it is.\<close>

definition anything :: "'c cluster \<Rightarrow> 'c action \<Rightarrow> bool" where
  "anything s a = True"

text \<open>
  A vote is handed to the candidate only while it is still in the term it asked for: the
  check \<open>args.Term == rf.currentTerm\<close> that the reply handler does not make.
\<close>

fun fresh_votes :: "'c cluster \<Rightarrow> 'c action \<Rightarrow> bool" where
  "fresh_votes s (Deliver (RVRep i j a r) now c1 c2) = (rvTerm a = currentTerm (nodes s ! i))"
| "fresh_votes s a = True"

lemma execs_steps: "execs allowed as s = Some t \<Longrightarrow> (cstep allowed)\<^sup>*\<^sup>* s t"
proof (induction as arbitrary: s)
  case Nil
  then show ?case by simp
next
  case (Cons a as)
  then obtain u where "allowed s a" "exec a s = Some u" "execs allowed as u = Some t"
    by (auto split: option.splits if_splits)
  then have "cstep allowed s u" "(cstep allowed)\<^sup>*\<^sup>* u t"
    by (auto intro: act Cons.IH)
  then show ?case by (rule converse_rtranclp_into_rtranclp)
qed

section \<open>Two leaders in one term\<close>

text \<open>
  Three servers. Server 0 starts an election in term 1 and server 1 votes for it; before
  the reply arrives server 0 times out and starts another election in term 2. The old
  reply then makes server 0 leader of term 2 on the strength of a term 1 vote, and server
  2, with the vote of server 1 in term 2, becomes leader of term 2 as well.
\<close>

definition rv :: "int \<Rightarrow> int \<Rightarrow> RequestVoteArgs" where
  "rv t cand = \<lparr>rvTerm = t, rvCandidateID = cand, rvLastLogIndex = 0, rvLastLogTerm = 0\<rparr>"

definition double_leader_run :: "nat action list" where
  "double_leader_run =
     [Timeout 0 1000 (1000, 0),
      Deliver (RVReq True 0 1 (rv 1 0)) 1001 (1001, 0) (1001, 0),
      Timeout 0 2000 (2000, 0),
      Deliver (RVRep 0 1 (rv 1 0) \<lparr>rvrTerm = 1, rvrVoteGranted = True\<rparr>) 2001 (2001, 0) (2001, 0),
      Timeout 2 3000 (3000, 0),
      Timeout 2 4000 (4000, 0),
      Deliver (RVReq True 2 1 (rv 2 2)) 4001 (4001, 0) (4001, 0),
      Deliver (RVRep 2 1 (rv 2 2) \<lparr>rvrTerm = 2, rvrVoteGranted = True\<rparr>) 4002 (4002, 0) (4002, 0)]"

lemma double_leader_run_result:
  "case execs anything double_leader_run (init_cluster 3 (\<lambda>_. (0, 0))) of
     None \<Rightarrow> False
   | Some s \<Rightarrow> map (\<lambda>rf. (state rf, currentTerm rf)) (nodes s) =
       [(leaderState, 2), (followerState, 2), (leaderState, 2)]"
  by code_simp

text \<open>Property C16: the code as written can reach a state with two leaders in one term: a vote reply
  of an abandoned election is counted in the current one.\<close>

theorem two_leaders_in_one_term:
  "\<exists>s i k. (cstep anything)\<^sup>*\<^sup>* (init_cluster 3 (\<lambda>_. (0, 0)) :: nat cluster) s \<and>
     i < 3 \<and> k < 3 \<and> i \<noteq> k \<and>
     state (nodes s ! i) = leaderState \<and> state (nodes s ! k) = leaderState \<and>
     currentTerm (nodes s ! i) = currentTerm (nodes s ! k)"
proof -
  obtain s where s: "execs anything double_leader_run (init_cluster 3 (\<lambda>_. (0, 0))) = Some s"
    "map (\<lambda>rf. (state rf, currentTerm rf)) (nodes s) =
       [(leaderState, 2), (followerState, 2), (leaderState, 2)]"
    using double_leader_run_result by (auto split: option.splits)
  have "length (nodes s) = 3" using arg_cong [OF s(2), of length] by simp
  then have "state (nodes s ! 0) = leaderState \<and> state (nodes s ! 2) = leaderState \<and>
      currentTerm (nodes s ! 0) = currentTerm (nodes s ! 2)"
    using arg_cong [OF s(2), of "\<lambda>xs. xs ! 0"] arg_cong [OF s(2), of "\<lambda>xs. xs ! 2"] by simp
  with execs_steps [OF s(1)] show ?thesis
    by (intro exI [of _ s] exI [of _ 0] exI [of _ 2]) simp
qed

section \<open>The election invariant\<close>

text \<open>
  Auxiliary history: \<open>H j t\<close> is the vote server \<open>j\<close> cast in term \<open>t\<close>; \<open>C i\<close> is the set of
  servers whose votes server \<open>i\<close> has counted in its present term.
\<close>

type_synonym history = "nat \<Rightarrow> int \<Rightarrow> int option"

definition vote_of :: "'c Raft \<Rightarrow> int option" where
  "vote_of rf = (if votedFor rf = noPeer then None else Some (votedFor rf))"

definition node_ok :: "nat \<Rightarrow> history \<Rightarrow> nat \<Rightarrow> 'c Raft \<Rightarrow> bool" where
  "node_ok n H i rf \<longleftrightarrow>
     node_inv rf \<and> peers rf = n \<and> me rf = int i \<and>
     (\<forall>t > currentTerm rf. H i t = None) \<and> H i (currentTerm rf) = vote_of rf"

text \<open>An answer to a vote request of \<open>i\<close> to \<open>j\<close> in term \<open>t\<close> may still arrive.\<close>

fun pending :: "nat \<Rightarrow> nat \<Rightarrow> int \<Rightarrow> 'c rpc \<Rightarrow> bool" where
  "pending i j t (RVReq w i' j' a) = (w \<and> i' = i \<and> j' = j \<and> rvTerm a = t)"
| "pending i j t (RVRep i' j' a r) = (i' = i \<and> j' = j \<and> rvTerm a = t)"
| "pending i j t m = False"

abbreviation npending :: "nat \<Rightarrow> nat \<Rightarrow> int \<Rightarrow> 'c rpc list \<Rightarrow> nat" where
  "npending i j t ms \<equiv> length (filter (pending i j t) ms)"

text \<open>Every server has at most one answer under way or counted.\<close>

definition one_answer :: "nat \<Rightarrow> int \<Rightarrow> nat set \<Rightarrow> 'c rpc list \<Rightarrow> bool" where
  "one_answer i t A ms \<longleftrightarrow> (\<forall>j. npending i j t ms + of_bool (j \<in> A) \<le> 1)"

definition cand_ok :: "nat \<Rightarrow> history \<Rightarrow> nat set \<Rightarrow> 'c rpc list \<Rightarrow> nat \<Rightarrow> 'c Raft \<Rightarrow> bool" where
  "cand_ok n H A ms i rf \<longleftrightarrow>
     (state rf \<noteq> followerState \<longrightarrow>
        i \<in> A \<and> A \<subseteq> {0..<n} \<and> votesReceived rf = int (card A) \<and>
        (\<forall>j \<in> A. H j (currentTerm rf) = Some (int i)) \<and>
        (state rf = leaderState \<longrightarrow> n div 2 < card A) \<and>
        one_answer i (currentTerm rf) A ms)"

definition rv_ok :: "'c Raft list \<Rightarrow> bool \<Rightarrow> nat \<Rightarrow> nat \<Rightarrow> RequestVoteArgs \<Rightarrow> bool" where
  "rv_ok ns w i j a \<longleftrightarrow>
     i < length ns \<and> j < length ns \<and> i \<noteq> j \<and> rvCandidateID a = int i \<and>
     rvTerm a \<le> currentTerm (ns ! i) \<and>
     (w \<and> rvTerm a = currentTerm (ns ! i) \<longrightarrow> state (ns ! i) \<noteq> followerState)"

fun msg_ok :: "'c Raft list \<Rightarrow> history \<Rightarrow> 'c rpc \<Rightarrow> bool" where
  "msg_ok ns H (RVReq w i j a) = rv_ok ns w i j a"
| "msg_ok ns H (RVRep i j a r) =
     (rv_ok ns True i j a \<and> (rvrVoteGranted r \<longrightarrow> H j (rvTerm a) = Some (int i)))"
| "msg_ok ns H m = True"

definition vinv :: "'c Raft list \<Rightarrow> 'c rpc list \<Rightarrow> history \<Rightarrow> (nat \<Rightarrow> nat set) \<Rightarrow> bool" where
  "vinv ns ms H C \<longleftrightarrow>
     (\<forall>i < length ns. node_ok (length ns) H i (ns ! i)) \<and>
     (\<forall>i < length ns. cand_ok (length ns) H (C i) ms i (ns ! i)) \<and>
     (\<forall>m \<in> set ms. msg_ok ns H m)"

definition cluster_inv :: "'c cluster \<Rightarrow> bool" where
  "cluster_inv s \<longleftrightarrow> (\<exists>H C. vinv (nodes s) (net s) H C)"

lemma cluster_inv_leaders:
  assumes "cluster_inv s" and "i < length (nodes s)" and "k < length (nodes s)"
    and "state (nodes s ! i) = leaderState" and "state (nodes s ! k) = leaderState"
    and "currentTerm (nodes s ! i) = currentTerm (nodes s ! k)"
  shows "i = k"
proof -
  let ?n = "length (nodes s)" and ?t = "currentTerm (nodes s ! i)"
  from assms(1) obtain H C where "vinv (nodes s) (net s) H C" by (auto simp: cluster_inv_def)
  then have "cand_ok ?n H (C i) (net s) i (nodes s ! i)" "cand_ok ?n H (C k) (net s) k (nodes s ! k)"
    using assms(2,3) by (auto simp: vinv_def)
  then have "majority ?n (C i)" "majority ?n (C k)"
    "\<And>v. v \<in> C i \<Longrightarrow> H v ?t = Some (int i)" "\<And>v. v \<in> C k \<Longrightarrow> H v ?t = Some (int k)"
    using assms(4-6) by (auto simp: cand_ok_def majority_def)
  then have "int i = int k" by (rule maj.quorum_choice_unique)
  then show ?thesis by simp
qed

subsection \<open>Updating the history\<close>

definition record_vote :: "history \<Rightarrow> nat \<Rightarrow> 'c Raft \<Rightarrow> history" where
  "record_vote H j rf = H(j := (H j)(currentTerm rf := vote_of rf))"

lemma record_vote_other [simp]: "i \<noteq> j \<Longrightarrow> record_vote H j rf i = H i"
  by (simp add: record_vote_def)

lemma record_vote_now [simp]: "record_vote H j rf j (currentTerm rf) = vote_of rf"
  by (simp add: record_vote_def)

lemma record_vote_same: "node_ok n H j rf \<Longrightarrow> record_vote H j rf = H"
  by (auto simp: node_ok_def record_vote_def fun_eq_iff)

lemma record_vote_extends:
  assumes "node_ok n H j rf" and "vote_step rf rf'" and "H k t = Some x"
  shows "record_vote H j rf' k t = Some x"
proof (cases "k = j \<and> t = currentTerm rf'")
  case True
  then have t: "t = currentTerm rf"
    using assms by (auto simp: node_ok_def vote_step_def order.order_iff_strict)
  then have "vote_of rf = Some x" using True assms(1,3) by (simp add: node_ok_def)
  then have "vote_of rf' = Some x"
    using True t assms(2) by (auto simp: vote_of_def vote_step_def split: if_splits)
  then show ?thesis using True by simp
next
  case False
  then show ?thesis using assms(3) by (auto simp: record_vote_def)
qed

lemma node_ok_record:
  assumes "node_ok n H j rf" and "vote_step rf rf'" and "node_inv rf'"
  shows "node_ok n (record_vote H j rf') j rf'"
  using assms by (auto simp: node_ok_def vote_step_def record_vote_def)

lemma one_answer_mono:
  assumes "one_answer i t A ms" and "\<And>j. npending i j t ms' \<le> npending i j t ms"
  shows "one_answer i t A ms'"
  unfolding one_answer_def
proof
  fix j
  have "npending i j t ms + of_bool (j \<in> A) \<le> 1" using assms(1) by (simp only: one_answer_def)
  then show "npending i j t ms' + of_bool (j \<in> A) \<le> 1"
    using assms(2) [of j] by (meson add_le_mono1 order_trans)
qed

lemma cand_ok_mono:
  assumes "cand_ok n H A ms i rf"
    and "\<And>k t x. H k t = Some x \<Longrightarrow> H' k t = Some x"
    and "\<And>j. npending i j (currentTerm rf) ms' \<le> npending i j (currentTerm rf) ms"
  shows "cand_ok n H' A ms' i rf"
  using assms by (auto simp: cand_ok_def intro: one_answer_mono)

subsection \<open>Kinds of steps\<close>

text \<open>Changing only the network.\<close>

lemma vinv_net:
  assumes "vinv ns ms H C"
    and "\<And>m. m \<in> set ms' \<Longrightarrow> msg_ok ns H m"
    and "\<And>i j t. npending i j t ms' \<le> npending i j t ms"
  shows "vinv ns ms' H C"
  unfolding vinv_def
proof (intro conjI allI impI ballI)
  fix i assume "i < length ns"
  then have "cand_ok (length ns) H (C i) ms i (ns ! i)" using assms(1) by (simp add: vinv_def)
  then show "cand_ok (length ns) H (C i) ms' i (ns ! i)"
    by (rule cand_ok_mono) (use assms(3) in auto)
qed (use assms in \<open>auto simp: vinv_def\<close>)

text \<open>
  A quiet step of one peer: it stays in its term and role and counts no vote, or it moves
  to a later term as a follower.
\<close>

definition quiet :: "'c Raft \<Rightarrow> 'c Raft \<Rightarrow> bool" where
  "quiet rf rf' \<longleftrightarrow>
     currentTerm rf' = currentTerm rf \<and> state rf' = state rf \<and> votesReceived rf' = votesReceived rf \<or>
     currentTerm rf < currentTerm rf' \<and> state rf' = followerState"

lemma rv_ok_step:
  assumes "rv_ok ns w i j a" and "k < length ns" and "currentTerm (ns ! k) \<le> currentTerm rf'"
    and "currentTerm rf' = currentTerm (ns ! k) \<Longrightarrow> state (ns ! k) \<noteq> followerState \<Longrightarrow>
         state rf' \<noteq> followerState"
  shows "rv_ok (ns[k := rf']) w i j a"
  using assms by (cases "i = k") (auto simp: rv_ok_def nth_list_update)

lemma msg_ok_step:
  assumes "msg_ok ns H m" and "k < length ns" and "currentTerm (ns ! k) \<le> currentTerm rf'"
    and "currentTerm rf' = currentTerm (ns ! k) \<Longrightarrow> state (ns ! k) \<noteq> followerState \<Longrightarrow>
         state rf' \<noteq> followerState"
    and "\<And>k t x. H k t = Some x \<Longrightarrow> H' k t = Some x"
  shows "msg_ok (ns[k := rf']) H' m"
  using assms by (cases m) (auto intro: rv_ok_step)

lemma vinv_replace:
  assumes "vinv ns ms H C" and k: "k < length ns"
    and nv: "node_inv rf'" and vs: "vote_step (ns ! k) rf'"
    and msgs: "\<And>m. m \<in> set ms \<Longrightarrow> msg_ok (ns[k := rf']) (record_vote H k rf') m"
    and cand: "cand_ok (length ns) (record_vote H k rf') (C' k) ms k rf'"
    and others: "\<And>i. i \<noteq> k \<Longrightarrow> C' i = C i"
  shows "vinv (ns[k := rf']) ms (record_vote H k rf') C'"
proof -
  have ok: "node_ok (length ns) H i (ns ! i)" "cand_ok (length ns) H (C i) ms i (ns ! i)"
    if "i < length ns" for i using assms(1) that by (auto simp: vinv_def)
  note ext = record_vote_extends [OF ok(1) [OF k] vs]
  have "node_ok (length ns) (record_vote H k rf') i (ns[k := rf'] ! i)" if "i < length ns" for i
    using ok(1) [OF that] node_ok_record [OF ok(1) [OF k] vs nv] that
    by (cases "i = k") (auto simp: node_ok_def)
  moreover have "cand_ok (length ns) (record_vote H k rf') (C' i) ms i (ns[k := rf'] ! i)"
    if "i < length ns" for i
    using cand others [of i] cand_ok_mono [OF ok(2) [OF that] ext] that by (cases "i = k") auto
  ultimately show ?thesis using msgs by (simp add: vinv_def)
qed

lemma vinv_node:
  assumes "vinv ns ms H C" and k: "k < length ns"
    and nv: "node_inv rf'" and vs: "vote_step (ns ! k) rf'"
    and role: "currentTerm rf' = currentTerm (ns ! k) \<Longrightarrow> state (ns ! k) \<noteq> followerState \<Longrightarrow>
         state rf' \<noteq> followerState"
    and cand: "cand_ok (length ns) (record_vote H k rf') (C' k) ms k rf'"
    and others: "\<And>i. i \<noteq> k \<Longrightarrow> C' i = C i"
  shows "vinv (ns[k := rf']) ms (record_vote H k rf') C'"
proof (rule vinv_replace [OF assms(1-4)])
  fix m assume m: "m \<in> set ms"
  show "msg_ok (ns[k := rf']) (record_vote H k rf') m"
  proof (rule msg_ok_step)
    show "msg_ok ns H m" using assms(1) m by (simp add: vinv_def)
    show "currentTerm (ns ! k) \<le> currentTerm rf'" using vs by (simp add: vote_step_def)
    have "node_ok (length ns) H k (ns ! k)" using assms(1) k by (simp add: vinv_def)
    then show "\<And>j t x. H j t = Some x \<Longrightarrow> record_vote H k rf' j t = Some x"
      using vs by (rule record_vote_extends)
  qed (use k role in auto)
qed (use cand others in auto)

lemma vinv_quiet:
  assumes "vinv ns ms H C" and k: "k < length ns"
    and "node_inv rf'" and vs: "vote_step (ns ! k) rf'" and q: "quiet (ns ! k) rf'"
  shows "vinv (ns[k := rf']) ms (record_vote H k rf') C"
proof (rule vinv_node [OF assms(1-4)])
  have ok: "node_ok (length ns) H k (ns ! k)" "cand_ok (length ns) H (C k) ms k (ns ! k)"
    using assms(1) k by (auto simp: vinv_def)
  have "cand_ok (length ns) (record_vote H k rf') (C k) ms k (ns ! k)"
    by (rule cand_ok_mono [OF ok(2) record_vote_extends [OF ok(1) vs]]) auto
  then show "cand_ok (length ns) (record_vote H k rf') (C k) ms k rf'"
    using q by (auto simp: quiet_def cand_ok_def)
qed (use q in \<open>auto simp: quiet_def\<close>)

lemma vinv_send:
  assumes "vinv ns ms H C"
    and "\<And>m. m \<in> set new \<Longrightarrow> msg_ok ns H m"
    and "\<And>i. i < length ns \<Longrightarrow> state (ns ! i) \<noteq> followerState \<Longrightarrow>
         one_answer i (currentTerm (ns ! i)) (C i) (ms @ new)"
  shows "vinv ns (ms @ new) H C"
  using assms by (auto simp: vinv_def cand_ok_def)

subsection \<open>Quiet operations\<close>

lemma quiet_refl [simp]: "quiet rf rf"
  by (simp add: quiet_def)

lemma quiet_convert [simp]: "quiet rf (fst (convertToFollowerIfOutOfTerm c t rf))"
  by (auto simp: quiet_def convert_term convert_vote frame_simps)

lemma quiet_then_same:
  "quiet rf rf1 \<Longrightarrow> currentTerm rf' = currentTerm rf1 \<Longrightarrow> state rf' = state rf1 \<Longrightarrow>
   votesReceived rf' = votesReceived rf1 \<Longrightarrow> quiet rf rf'"
  by (simp add: quiet_def)

lemma quiet_RequestVote: "RequestVote c1 c2 a rf = Some (rf', r) \<Longrightarrow> quiet rf rf'"
  by (elim RequestVote_cases)
     (auto simp: quiet_def convert_term convert_vote frame_simps max_def split: if_splits)

lemma quiet_AppendEntries: "AppendEntries c1 c2 b rf = Some (rf', r, nf) \<Longrightarrow> quiet rf rf'"
  by (elim AppendEntries_cases)
     (auto simp: quiet_def convert_term convert_vote frame_simps max_def split: if_splits)

lemma quiet_appendReply:
  assumes "handleAppendEntriesReply c j b res rf = Some (rf', nf)"
  shows "quiet rf rf'"
  using assms
proof (cases rule: appendReply_cases)
  case (success reply nxt ci)
  show ?thesis unfolding success(11) by (simp add: quiet_def)
qed (auto simp: quiet_def convert_term convert_vote frame_simps)

lemma quiet_sendAppendEntries: "sendAppendEntriesToPeers now rf = Some (rf', aes) \<Longrightarrow> quiet rf rf'"
  by (drule sendAppendEntriesToPeers_shape) (auto simp: quiet_def)

lemma quiet_periodic: "periodicAppendEntriesRoutine now rf = Some (rf', aes, g) \<Longrightarrow> quiet rf rf'"
  by (auto simp: periodicAppendEntriesRoutine_def split: if_splits option.splits
      dest!: quiet_sendAppendEntries intro: quiet_then_same)

lemma quiet_Start: "quiet rf (fst (Start cmd rf))"
  by (simp add: Start_def Let_def quiet_def frame_simps)

lemma quiet_apply: "applyNext rf = Some (Some (rf', m)) \<Longrightarrow> quiet rf rf'"
  by (drule applyNext_shape) (auto simp: quiet_def)

subsection \<open>Counting pending answers\<close>

lemma npending_pos: "m \<in> set ms \<Longrightarrow> pending i j t m \<Longrightarrow> 0 < npending i j t ms"
  by (auto simp: filter_empty_conv)

lemma npending_remove1:
  "npending i j t (remove1 m ms) = npending i j t ms - of_bool (m \<in> set ms \<and> pending i j t m)"
proof (induction ms)
  case (Cons x ms)
  then show ?case
    using npending_pos [of m ms i j t] by (cases "pending i j t m") auto
qed simp

lemma npending_AE [simp]: "npending i j t (sendAppendEntries k aes) = 0"
  by (auto simp: sendAppendEntries_def filter_empty_conv)

lemma npending_crashNet_le: "npending i j t (crashNet k ms) \<le> npending i j t ms"
proof (induction ms)
  case Nil
  then show ?case by (simp add: crashNet_def)
next
  case (Cons m ms)
  then show ?case by (cases m) (auto simp: crashNet_def)
qed

lemma npending_none:
  assumes "\<And>m. m \<in> set ms \<Longrightarrow> \<not> pending i j t m"
  shows "npending i j t ms = 0"
  using assms by (auto simp: filter_empty_conv)

lemma filter_eq_length: "distinct L \<Longrightarrow> length (filter (\<lambda>x. x = j) L) = of_bool (j \<in> set L)"
  by (induction L) auto

lemma npending_requests:
  assumes "distinct L"
  shows "npending i j t (sendRequestVote k (map (\<lambda>x. (x, a)) L)) =
         of_bool (i = k \<and> t = rvTerm a \<and> j \<in> set L)"
proof -
  have "npending i j t (sendRequestVote k (map (\<lambda>x. (x, a)) L)) =
        length (filter (\<lambda>x. k = i \<and> x = j \<and> rvTerm a = t) L)"
    by (induction L) (auto simp: sendRequestVote_def)
  then show ?thesis
    using filter_eq_length [OF assms, of j] by (cases "k = i \<and> rvTerm a = t") auto
qed

subsection \<open>Every action keeps the invariant\<close>

lemma cluster_invI: "vinv (nodes s) (net s) H C \<Longrightarrow> cluster_inv s"
  by (auto simp: cluster_inv_def)

text \<open>A quiet step of one peer, with a network that has no more answers under way than before.\<close>

lemma quiet_step_inv:
  assumes "vinv ns ms H C" and "k < length ns" and "node_inv (ns ! k) \<Longrightarrow> node_inv rf' \<and> vote_step (ns ! k) rf'"
    and "quiet (ns ! k) rf'"
    and "\<And>m. m \<in> set ms' \<Longrightarrow> m \<in> set ms \<or> msg_ok (ns[k := rf']) (record_vote H k rf') m"
    and "\<And>i j t. npending i j t ms' \<le> npending i j t ms"
  shows "vinv (ns[k := rf']) ms' (record_vote H k rf') C"
proof -
  have "node_inv (ns ! k)" using assms(1,2) by (auto simp: vinv_def node_ok_def)
  then have v: "vinv (ns[k := rf']) ms (record_vote H k rf') C"
    using assms(1-4) by (intro vinv_quiet) auto
  show ?thesis
  proof (rule vinv_net [OF v])
    fix m assume "m \<in> set ms'"
    then show "msg_ok (ns[k := rf']) (record_vote H k rf') m"
      using assms(5) v unfolding vinv_def by blast
  qed (rule assms(6))
qed

lemma msg_ok_AE: "m \<in> set (sendAppendEntries i aes) \<Longrightarrow> msg_ok ns H m"
  by (auto simp: sendAppendEntries_def)

lemma vinv_send_AE:
  assumes "vinv ns ms H C"
  shows "vinv ns (ms @ sendAppendEntries i aes) H C"
proof (rule vinv_net [OF assms])
  fix m assume "m \<in> set (ms @ sendAppendEntries i aes)"
  then show "msg_ok ns H m" using assms msg_ok_AE by (auto simp: vinv_def)
qed (simp only: filter_append length_append npending_AE)

lemma set_remove1_in: "m \<in> set (remove1 x ms) \<Longrightarrow> m \<in> set ms"
  using set_remove1_subset by fastforce

lemma otherPeers_set: "set (otherPeers rf) = {i. i < peers rf \<and> int i \<noteq> me rf}"
  by (auto simp: otherPeers_def)

lemma vote_requests_shape:
  assumes "those (map (\<lambda>i. map_option (Pair i) (voteRequest rf)) (otherPeers rf)) = Some rvs"
    and "log rf \<noteq> []"
  obtains a where "rvs = map (\<lambda>i. (i, a)) (otherPeers rf)" "rvTerm a = currentTerm rf"
    "rvCandidateID a = me rf"
proof -
  let ?a = "\<lparr>rvTerm = currentTerm rf, rvCandidateID = me rf,
             rvLastLogIndex = go_len (log rf) - 1, rvLastLogTerm = leTerm (last (log rf))\<rparr>"
  have "voteRequest rf = Some ?a" using assms(2) by (simp add: voteRequest_def go_nth_last)
  then have "rvs = map (\<lambda>i. (i, ?a)) (otherPeers rf)"
    using assms(1) by (simp add: those_map_Some)
  then show thesis by (rule that) simp_all
qed

lemma Timeout_inv:
  assumes inv: "vinv ns ms H C" and k: "k < length ns"
    and ex: "electionTimoutRoutine now c (ns ! k) = Some (rf', rvs)"
  shows "\<exists>C. vinv (ns[k := rf']) (ms @ sendRequestVote k rvs) (record_vote H k rf') C"
  using ex
proof (cases rule: electionTimout_cases)
  case idle
  have "node_ok (length ns) H k (ns ! k)" using inv k by (simp add: vinv_def)
  then show ?thesis using inv idle by (auto simp: sendRequestVote_def record_vote_same)
next
  case fired
  have ok: "node_ok (length ns) H k (ns ! k)" using inv k by (simp add: vinv_def)
  then have st: "node_inv rf'" "vote_step (ns ! k) rf'"
    using timeout_step [OF ex] by (auto simp: node_ok_def)
  have me: "me rf' = int k" "peers rf' = length ns" "vote_of rf' = Some (int k)"
    using ok fired by (auto simp: node_ok_def vote_of_def noPeer_def)
  let ?H = "record_vote H k rf'" and ?C = "C(k := {k})" and ?t = "currentTerm rf'"
  have old: "npending k j ?t ms = 0" for j
  proof (rule npending_none)
    fix m assume "m \<in> set ms"
    then have "msg_ok ns H m" using inv by (simp add: vinv_def)
    then show "\<not> pending k j ?t m" using fired by (cases m) (auto simp: rv_ok_def)
  qed
  have "cand_ok (length ns) ?H (?C k) ms k rf'"
    using k fired me old by (auto simp: cand_ok_def one_answer_def record_vote_def)
  then have v1: "vinv (ns[k := rf']) ms ?H ?C"
    using fired by (intro vinv_node [OF inv k st]) auto
  obtain l where "log rf' = \<lparr>leCommand = None, leTerm = 0\<rparr> # l"
    using st(1) by (auto simp: node_inv_def)
  then have ne: "log rf' \<noteq> []" by simp
  obtain a where a: "rvs = map (\<lambda>i. (i, a)) (otherPeers rf')" "rvTerm a = ?t" "rvCandidateID a = int k"
    using vote_requests_shape [OF fired(15) ne] me by metis
  have cnt: "npending i j t (sendRequestVote k rvs) = of_bool (i = k \<and> t = ?t \<and> j \<in> set (otherPeers rf'))" for i j t
    unfolding a(1) by (subst npending_requests) (auto simp: otherPeers_def a(2))
  have "vinv (ns[k := rf']) (ms @ sendRequestVote k rvs) ?H ?C"
  proof (rule vinv_send [OF v1])
    fix m assume "m \<in> set (sendRequestVote k rvs :: 'a rpc list)"
    then show "msg_ok (ns[k := rf']) ?H m"
      using k fired me a by (auto simp: sendRequestVote_def rv_ok_def otherPeers_set)
  next
    fix i assume i: "i < length (ns[k := rf'])" "state (ns[k := rf'] ! i) \<noteq> followerState"
    show "one_answer i (currentTerm (ns[k := rf'] ! i)) (?C i) (ms @ sendRequestVote k rvs)"
    proof (cases "i = k")
      case True
      with k old me show ?thesis
        by (auto simp: one_answer_def cnt otherPeers_set)
    next
      case False
      have "one_answer i (currentTerm (ns[k := rf'] ! i)) (?C i) ms"
        using v1 i by (auto simp: vinv_def cand_ok_def)
      then show ?thesis by (rule one_answer_mono) (use False in \<open>simp add: cnt\<close>)
    qed
  qed
  then show ?thesis by blast
qed

lemma DeliverRVReq_inv:
  assumes inv: "vinv ns ms H C" and m: "RVReq w i j a \<in> set ms"
    and ex: "RequestVote c1 c2 a (ns ! j) = Some (rf', r)"
  shows "\<exists>C. vinv (ns[j := rf'])
           (remove1 (RVReq w i j a) ms @ (if w then [RVRep i j a r] else [])) (record_vote H j rf') C"
proof -
  have ok: "rv_ok ns w i j a" using inv m by (auto simp: vinv_def)
  then have j: "j < length ns" by (simp add: rv_ok_def)
  have "vinv (ns[j := rf']) (remove1 (RVReq w i j a) ms @ (if w then [RVRep i j a r] else []))
          (record_vote H j rf') C"
  proof (rule quiet_step_inv [OF inv j RequestVote_step [OF ex] quiet_RequestVote [OF ex]])
    fix m' assume m': "m' \<in> set (remove1 (RVReq w i j a) ms @ (if w then [RVRep i j a r] else []))"
    show "m' \<in> set ms \<or> msg_ok (ns[j := rf']) (record_vote H j rf') m'"
    proof (cases "m' = RVRep i j a r \<and> w")
      case True
      have "rv_ok (ns[j := rf']) True i j a"
        using ok True by (auto simp: rv_ok_def nth_list_update)
      moreover have "record_vote H j rf' j (rvTerm a) = Some (int i)" if "rvrVoteGranted r"
        using ex that
      proof (cases rule: RequestVote_cases)
        case (granted rf1)
        then have "currentTerm rf' = rvTerm a" "vote_of rf' = Some (int i)"
          using ok by (auto simp: frame_simps vote_of_def rv_ok_def noPeer_def)
        then show ?thesis by (metis record_vote_now)
      qed simp
      ultimately show ?thesis using True by simp
    qed (use m' in \<open>auto dest: set_remove1_in split: if_splits\<close>)
  next
    fix i' j' t
    show "npending i' j' t (remove1 (RVReq w i j a) ms @ (if w then [RVRep i j a r] else []))
          \<le> npending i' j' t ms"
      using npending_pos [OF m, of i' j' t] m by (auto simp: npending_remove1)
  qed
  then show ?thesis by blast
qed

lemma DeliverRVRep_inv:
  assumes inv: "vinv ns ms H C" and m: "RVRep i j a r \<in> set ms"
    and fresh: "rvTerm a = currentTerm (ns ! i)"
    and ex: "sendRequestVoteAndHandleReply now c1 a j (Some r) (ns ! i) = Some (rf', aes, sp)"
  shows "\<exists>C. vinv (ns[i := rf']) (remove1 (RVRep i j a r) ms @ sendAppendEntries i aes) (record_vote H i rf') C"
proof -
  let ?ms = "remove1 (RVRep i j a r) ms"
  have ok: "rv_ok ns True i j a" "rvrVoteGranted r \<longrightarrow> H j (rvTerm a) = Some (int i)"
    using inv m by (auto simp: vinv_def)
  then have i: "i < length ns" and role: "state (ns ! i) \<noteq> followerState"
    using fresh by (auto simp: rv_ok_def)
  then have nd: "node_ok (length ns) H i (ns ! i)" and cd: "cand_ok (length ns) H (C i) ms i (ns ! i)"
    using inv by (auto simp: vinv_def)
  then have ninv: "node_inv (ns ! i)" by (simp add: node_ok_def)
  have st: "node_inv rf'" "vote_step (ns ! i) rf'" using voteReply_step [OF ex ninv] by auto
  have v0: "vinv ns ?ms H C"
    by (rule vinv_net [OF inv]) (use inv in \<open>auto simp: vinv_def npending_remove1 dest: set_remove1_in\<close>)
  have send: "\<exists>C. vinv (ns[i := rf']) (?ms @ sendAppendEntries i aes) (record_vote H i rf') C"
    if "\<exists>C'. vinv (ns[i := rf']) ?ms (record_vote H i rf') C'"
  proof -
    from that obtain C' where v: "vinv (ns[i := rf']) ?ms (record_vote H i rf') C'" by blast
    have "vinv (ns[i := rf']) (?ms @ sendAppendEntries i aes) (record_vote H i rf') C'"
      using v by (rule vinv_send_AE)
    then show ?thesis by blast
  qed
  have quiet_case: ?thesis if "quiet (ns ! i) rf'"
    by (rule send) (use vinv_quiet [OF v0 i st that] in blast)
  have counted_case: ?thesis
    if g: "rvrVoteGranted r" and f: "currentTerm rf' = currentTerm (ns ! i)"
      "votesReceived rf' = votesReceived (ns ! i) + 1" "state rf' \<noteq> followerState"
      "state rf' = leaderState \<Longrightarrow>
       state (ns ! i) = leaderState \<or> int (length ns) div 2 < votesReceived (ns ! i) + 1"
  proof (rule send)
    let ?A = "insert j (C i)"
    have c: "i \<in> C i" "C i \<subseteq> {0..<length ns}" "votesReceived (ns ! i) = int (card (C i))"
      "\<forall>k \<in> C i. H k (currentTerm (ns ! i)) = Some (int i)"
      "state (ns ! i) = leaderState \<longrightarrow> length ns div 2 < card (C i)"
      "one_answer i (currentTerm (ns ! i)) (C i) ms"
      using cd role by (auto simp: cand_ok_def)
    have fin: "finite (C i)" using c(2) finite_subset by blast
    have p: "pending i j (currentTerm (ns ! i)) (RVRep i j a r)" using fresh by simp
    have one: "npending i j (currentTerm (ns ! i)) ms + of_bool (j \<in> C i) \<le> 1"
      using c(6) by (simp only: one_answer_def)
    then have jC: "j \<notin> C i" using npending_pos [OF m p] by auto
    have ext: "\<And>k t x. H k t = Some x \<Longrightarrow> record_vote H i rf' k t = Some x"
      by (rule record_vote_extends [OF nd st(2)])
    have ans: "one_answer i (currentTerm (ns ! i)) ?A ?ms"
      unfolding one_answer_def
    proof
      fix k
      have "npending i k (currentTerm (ns ! i)) ms + of_bool (k \<in> C i) \<le> 1"
        using c(6) by (simp only: one_answer_def)
      then show "npending i k (currentTerm (ns ! i)) ?ms + of_bool (k \<in> ?A) \<le> 1"
        using one npending_pos [OF m p] m p by (cases "k = j") (auto simp: npending_remove1)
    qed
    have "card ?A = card (C i) + 1" using fin jC by simp
    then have "cand_ok (length ns) (record_vote H i rf') ?A ?ms i rf'"
      using c f ok g fresh ext ans by (auto simp: cand_ok_def rv_ok_def)
    then have "vinv (ns[i := rf']) ?ms (record_vote H i rf') (C(i := ?A))"
      using f(3) by (intro vinv_node [OF v0 i st]) auto
    then show "\<exists>C'. vinv (ns[i := rf']) ?ms (record_vote H i rf') C'" by blast
  qed
  from ex show ?thesis
  proof (cases rule: voteReply_cases)
    case (counted reply)
    then show ?thesis using role by (intro counted_case) auto
  next
    case (elected reply)
    from sendAppendEntriesToPeers_shape [OF elected(6)] show ?thesis
      using elected role nd by (intro counted_case) (auto simp: becomeLeader_def node_ok_def)
  qed (intro quiet_case; simp)+
qed

lemma DeliverAE_inv:
  assumes inv: "vinv ns ms H C" and k: "k < length ns"
    and st: "node_inv (ns ! k) \<Longrightarrow> node_inv rf' \<and> vote_step (ns ! k) rf'" and q: "quiet (ns ! k) rf'"
    and new: "\<And>m'. m' \<in> set new \<Longrightarrow> (\<exists>i j b r. m' = AERep i j b r) \<or> (\<exists>w i j b. m' = AEReq w i j b)"
  shows "\<exists>C. vinv (ns[k := rf']) (remove1 m ms @ new) (record_vote H k rf') C"
proof -
  have none: "npending i j t new = 0" for i j t
    by (rule npending_none) (use new in force)
  have "vinv (ns[k := rf']) (remove1 m ms @ new) (record_vote H k rf') C"
  proof (rule quiet_step_inv [OF inv k st q])
    fix m' assume "m' \<in> set (remove1 m ms @ new)"
    then show "m' \<in> set ms \<or> msg_ok (ns[k := rf']) (record_vote H k rf') m'"
      using new by (fastforce dest: set_remove1_in)
  next
    fix i j t
    show "npending i j t (remove1 m ms @ new) \<le> npending i j t ms"
      by (simp only: filter_append length_append npending_remove1 none)
  qed
  then show ?thesis by blast
qed

lemma quiet_only_inv:
  assumes inv: "vinv ns ms H C" and k: "k < length ns"
    and st: "node_inv (ns ! k) \<Longrightarrow> node_inv rf' \<and> vote_step (ns ! k) rf'" and q: "quiet (ns ! k) rf'"
  shows "\<exists>C. vinv (ns[k := rf']) (ms @ sendAppendEntries k aes) (record_vote H k rf') C"
  using quiet_step_inv [OF inv k st q, of ms] vinv_send_AE by blast

lemma Restart_inv:
  assumes inv: "vinv ns ms H C" and k: "k < length ns"
    and rf': "rf' = Make c (peers (ns ! k)) (me (ns ! k)) (Persister_Copy (persister (ns ! k)))"
  shows "\<exists>C. vinv (ns[k := rf']) (crashNet k ms) (record_vote H k rf') C"
proof -
  have ok: "node_ok (length ns) H k (ns ! k)" using inv k by (simp add: vinv_def)
  then have st: "node_inv rf'" "vote_step (ns ! k) rf'"
    using restart_step [of "ns ! k" c] by (auto simp: node_ok_def rf')
  have fol: "state rf' = followerState"
    by (auto simp: rf' Make_def Let_def readPersist_def resetElectionTimer_def split: option.splits)
  have ext: "\<And>j t x. H j t = Some x \<Longrightarrow> record_vote H k rf' j t = Some x"
    by (rule record_vote_extends [OF ok st(2)])
  have old: "\<exists>m0 \<in> set ms. \<not> replyTo k m0 \<and> m = orphan k m0" if "m \<in> set (crashNet k ms)" for m
    using that by (auto simp: crashNet_def)
  have mono: "currentTerm (ns ! k) \<le> currentTerm rf'" using st(2) by (simp add: vote_step_def)
  have keep: "msg_ok ns H m" if m: "m \<in> set (crashNet k ms)" for m
  proof -
    obtain m0 where m0: "m0 \<in> set ms" "m = orphan k m0" using old [OF m] by blast
    then have "msg_ok ns H m0" using inv by (simp add: vinv_def)
    then show ?thesis using m0(2) by (cases m0) (auto simp: rv_ok_def)
  qed
  have v0: "vinv ns (crashNet k ms) H C"
    by (rule vinv_net [OF inv keep npending_crashNet_le])
  have "vinv (ns[k := rf']) (crashNet k ms) (record_vote H k rf') C"
  proof (rule vinv_replace [OF v0 k st])
    fix m assume m: "m \<in> set (crashNet k ms)"
    obtain m0 where m0: "\<not> replyTo k m0" "m = orphan k m0" using old [OF m] by blast
    show "msg_ok (ns[k := rf']) (record_vote H k rf') m"
      using keep [OF m] m0 mono k ext
      by (cases m0) (auto simp: rv_ok_def nth_list_update)
  qed (use fol in \<open>auto simp: cand_ok_def\<close>)
  then show ?thesis by blast
qed

text \<open>The peer that acts, and the history after the action.\<close>

fun actor :: "'c action \<Rightarrow> nat option" where
  "actor (Timeout i now c) = Some i"
| "actor (Deliver m now c1 c2) = Some (receiver m)"
| "actor (Drop m) = None"
| "actor (Heartbeat i now) = Some i"
| "actor (Client i cmd) = Some i"
| "actor (Apply i) = Some i"
| "actor (Restart i c) = Some i"

definition later_history :: "'c action \<Rightarrow> 'c cluster \<Rightarrow> history \<Rightarrow> history" where
  "later_history a t H = (case actor a of None \<Rightarrow> H | Some k \<Rightarrow> record_vote H k (nodes t ! k))"

text \<open>The actions one by one, with the piece of code that ran.\<close>

lemma exec_cases:
  assumes ex: "exec a s = Some t"
  obtains (timeout) i now c rf' rvs where "a = Timeout i now c" "i < length (nodes s)"
      "electionTimoutRoutine now c (nodes s ! i) = Some (rf', rvs)"
      "nodes t = (nodes s)[i := rf']" "net t = net s @ sendRequestVote i rvs"
  | (rvreq) w i j x now c1 c2 rf' r where "a = Deliver (RVReq w i j x) now c1 c2"
      "j < length (nodes s)" "RVReq w i j x \<in> set (net s)"
      "RequestVote c1 c2 x (nodes s ! j) = Some (rf', r)" "nodes t = (nodes s)[j := rf']"
      "net t = remove1 (RVReq w i j x) (net s) @ (if w then [RVRep i j x r] else [])"
  | (rvrep) i j x r now c1 c2 rf' aes sp where "a = Deliver (RVRep i j x r) now c1 c2"
      "i < length (nodes s)" "RVRep i j x r \<in> set (net s)"
      "sendRequestVoteAndHandleReply now c1 x j (Some r) (nodes s ! i) = Some (rf', aes, sp)"
      "nodes t = (nodes s)[i := rf']" "net t = remove1 (RVRep i j x r) (net s) @ sendAppendEntries i aes"
  | (aereq) w i j b now c1 c2 rf' r nf where "a = Deliver (AEReq w i j b) now c1 c2"
      "j < length (nodes s)" "AEReq w i j b \<in> set (net s)"
      "AppendEntries c1 c2 b (nodes s ! j) = Some (rf', r, nf)" "nodes t = (nodes s)[j := rf']"
      "net t = remove1 (AEReq w i j b) (net s) @ (if w then [AERep i j b r] else [])"
  | (aerep) i j b r now c1 c2 rf' nf where "a = Deliver (AERep i j b r) now c1 c2"
      "i < length (nodes s)" "AERep i j b r \<in> set (net s)"
      "handleAppendEntriesReply c1 j b (Some r) (nodes s ! i) = Some (rf', nf)"
      "nodes t = (nodes s)[i := rf']" "net t = remove1 (AERep i j b r) (net s) @ []"
  | (drop) m where "a = Drop m" "nodes t = nodes s" "net t = remove1 m (net s)"
  | (heartbeat) i now rf' aes g where "a = Heartbeat i now" "i < length (nodes s)"
      "periodicAppendEntriesRoutine now (nodes s ! i) = Some (rf', aes, g)"
      "nodes t = (nodes s)[i := rf']" "net t = net s @ sendAppendEntries i aes"
  | (client) i cmd where "a = Client i cmd" "i < length (nodes s)"
      "nodes t = (nodes s)[i := fst (Start cmd (nodes s ! i))]" "net t = net s"
  | (applied) i rf' m where "a = Apply i" "i < length (nodes s)"
      "applyNext (nodes s ! i) = Some (Some (rf', m))" "nodes t = (nodes s)[i := rf']" "net t = net s"
  | (restart) i c rf' where "a = Restart i c" "i < length (nodes s)"
      "rf' = Make c (peers (nodes s ! i)) (me (nodes s ! i)) (Persister_Copy (persister (nodes s ! i)))"
      "nodes t = (nodes s)[i := rf']" "net t = crashNet i (net s)"
proof (cases a)
  case (Deliver m now c1 c2)
  with ex show ?thesis
    by (cases m) (auto split: if_splits intro: rvreq rvrep aereq aerep)
qed (use ex in \<open>auto simp: Let_def split: if_splits option.splits
       intro: timeout drop heartbeat client applied restart\<close>)

lemma exec_vinv:
  assumes v: "vinv (nodes s) (net s) H C" and fresh: "fresh_votes s a" and ex: "exec a s = Some t"
  shows "\<exists>C. vinv (nodes t) (net t) (later_history a t H) C"
  using ex
proof (cases rule: exec_cases)
  case (timeout i now c rf' rvs)
  then show ?thesis using Timeout_inv [OF v] by (simp add: later_history_def)
next
  case (rvreq w i j x now c1 c2 rf' r)
  then show ?thesis using DeliverRVReq_inv [OF v] by (simp add: later_history_def)
next
  case (rvrep i j x r now c1 c2 rf' aes sp)
  then show ?thesis using DeliverRVRep_inv [OF v rvrep(3) _ rvrep(4)] fresh by (simp add: later_history_def)
next
  case (aereq w i j b now c1 c2 rf' r nf)
  show ?thesis
    using DeliverAE_inv [OF v aereq(2) AppendEntries_step [OF aereq(4)] quiet_AppendEntries [OF aereq(4)],
        of "if w then [AERep i j b r] else []" "AEReq w i j b"] aereq
    by (auto simp: later_history_def split: if_splits)
next
  case (aerep i j b r now c1 c2 rf' nf)
  show ?thesis
    using DeliverAE_inv [OF v aerep(2) appendReply_step [OF aerep(4)] quiet_appendReply [OF aerep(4)],
        of "[]" "AERep i j b r"] aerep by (auto simp: later_history_def)
next
  case (drop m)
  have "vinv (nodes s) (remove1 m (net s)) H C"
    by (rule vinv_net [OF v]) (use v in \<open>auto simp: vinv_def npending_remove1 dest: set_remove1_in\<close>)
  then show ?thesis using drop by (auto simp: later_history_def)
next
  case (heartbeat i now rf' aes g)
  show ?thesis
    using quiet_only_inv [OF v heartbeat(2) periodic_step [OF heartbeat(3)] quiet_periodic [OF heartbeat(3)]]
      heartbeat by (simp add: later_history_def)
next
  case (client i cmd)
  obtain rf' res where r: "Start cmd (nodes s ! i) = (rf', res)" by (cases "Start cmd (nodes s ! i)")
  have "vinv (nodes t) (net t) (record_vote H i rf') C"
    using quiet_step_inv [OF v client(2) Start_step [OF r], of "net s"] quiet_Start [of "nodes s ! i" cmd]
    by (simp add: client(3,4) r)
  then show ?thesis using client by (auto simp: later_history_def r)
next
  case (applied i rf' m)
  have "vinv (nodes t) (net t) (record_vote H i rf') C"
    using quiet_step_inv [OF v applied(2) node_step_inv [OF ns_apply [OF applied(3)]] quiet_apply [OF applied(3)],
        of "net s"] by (simp add: applied(4,5))
  then show ?thesis using applied by (auto simp: later_history_def)
next
  case (restart i c rf')
  then show ?thesis using Restart_inv [OF v restart(2,3)] by (simp add: later_history_def)
qed

lemma exec_inv: "cluster_inv s \<Longrightarrow> fresh_votes s a \<Longrightarrow> exec a s = Some t \<Longrightarrow> cluster_inv t"
  using exec_vinv unfolding cluster_inv_def by blast

lemma initial_vinv:
  assumes "initial s"
  shows "vinv (nodes s) (net s) (\<lambda>_ _. None) (\<lambda>_. {})"
proof -
  from assms obtain n cs where s: "s = init_cluster n cs" by (auto simp: initial_def)
  have f: "peers (Make c n (int i) MakePersister) = n" "me (Make c n (int i) MakePersister) = int i"
    "votedFor (Make c n (int i) MakePersister) = noPeer"
    "state (Make c n (int i) MakePersister) = followerState" for c i
    by (simp_all add: Make_def Let_def readPersist_def resetElectionTimer_def persister_defs)
  show ?thesis
    by (auto simp: s init_cluster_def vinv_def node_ok_def cand_ok_def vote_of_def f)
qed

lemma initial_inv: "initial s \<Longrightarrow> cluster_inv s"
  by (rule cluster_invI) (rule initial_vinv)

interpretation elections: inductive_invariant initial "cstep fresh_votes" cluster_inv
  by unfold_locales (auto intro: initial_inv exec_inv elim!: cstepE)

section \<open>Election safety\<close>

text \<open>Property C5: when a vote reply reaches a candidate only while it is still in the term it asked
  the vote for, every reachable state has at most one leader per term; messages may be lost,
  delayed and reordered and peers may crash and restart at any time.\<close>

theorem election_safety:
  assumes "initial s0" and "(cstep fresh_votes)\<^sup>*\<^sup>* s0 s"
    and "i < length (nodes s)" and "k < length (nodes s)"
    and "state (nodes s ! i) = leaderState" and "state (nodes s ! k) = leaderState"
    and "currentTerm (nodes s ! i) = currentTerm (nodes s ! k)"
  shows "i = k"
  using elections.reachable_inv [OF assms(1,2)] assms(3-7) by (rule cluster_inv_leaders)

definition single_leader_run :: "nat action list" where
  "single_leader_run =
     [Timeout 0 1000 (1000, 0),
      Timeout 2 1000 (1000, 0),
      Deliver (RVReq True 0 1 (rv 1 0)) 1001 (1001, 0) (1001, 0),
      Deliver (RVReq True 2 1 (rv 1 2)) 1001 (1001, 0) (1001, 0),
      Restart 1 (1002, 0),
      Deliver (RVRep 0 1 (rv 1 0) \<lparr>rvrTerm = 1, rvrVoteGranted = True\<rparr>) 1003 (1003, 0) (1003, 0)]"

theorem election_safety_witness:
  "\<exists>s. (cstep fresh_votes)\<^sup>*\<^sup>* (init_cluster 3 (\<lambda>_. (0, 0)) :: nat cluster) s \<and>
     state (nodes s ! 0) = leaderState \<and>
     (\<forall>k < 3. state (nodes s ! k) = leaderState \<and> currentTerm (nodes s ! k) = 1 \<longrightarrow> 0 = k)"
proof -
  have "case execs fresh_votes single_leader_run (init_cluster 3 (\<lambda>_. (0, 0))) of
      None \<Rightarrow> False
    | Some s \<Rightarrow> map (\<lambda>rf. (state rf, currentTerm rf)) (nodes s) =
        [(leaderState, 1), (followerState, 1), (candidateState, 1)]"
    by code_simp
  then obtain s where s: "execs fresh_votes single_leader_run (init_cluster 3 (\<lambda>_. (0, 0))) = Some s"
    "map (\<lambda>rf. (state rf, currentTerm rf)) (nodes s) =
       [(leaderState, 1), (followerState, 1), (candidateState, 1)]"
    by (auto split: option.splits)
  note steps = execs_steps [OF s(1)]
  have len: "length (nodes s) = 3" using arg_cong [OF s(2), of length] by simp
  then have l: "state (nodes s ! 0) = leaderState" "currentTerm (nodes s ! 0) = 1"
    using arg_cong [OF s(2), of "\<lambda>xs. xs ! 0"] by simp_all
  have ini: "initial (init_cluster 3 (\<lambda>_. (0, 0)))" by (auto simp: initial_def)
  have "0 = k" if "k < 3" "state (nodes s ! k) = leaderState" "currentTerm (nodes s ! k) = 1" for k
    using election_safety [OF ini steps, of 0 k] len l that by simp
  with steps l show ?thesis by blast
qed

section \<open>Outdated replies to AppendEntries\<close>

text \<open>
  Five servers. Leader 0 of term 1 replicates two entries on server 4, whose reply is
  delayed. Leader 1 of term 2 then replaces both entries by one on server 0, and server 0
  is elected again in term 3, now with a log of length 2. The reply from term 1 sets
  \<open>nextIndex[4]\<close> to 3.
\<close>

definition vote_for :: "nat \<Rightarrow> RequestVoteArgs \<Rightarrow> nat \<Rightarrow> int \<Rightarrow> nat action list" where
  "vote_for i a j now =
     [Deliver (RVReq True i j a) now (now, 0) (now, 0),
      Deliver (RVRep i j a \<lparr>rvrTerm = rvTerm a, rvrVoteGranted = True\<rparr>) now (now, 0) (now, 0)]"

definition old_append :: "nat AppendEntriesArgs" where
  "old_append = \<lparr>aeTerm = 1, aeLeaderID = 0, aePrevLogIndex = 0, aePrevLogTerm = 0,
     aeEntries = [\<lparr>leCommand = Some 10, leTerm = 1\<rparr>, \<lparr>leCommand = Some 11, leTerm = 1\<rparr>],
     aeLeaderCommit = 0\<rparr>"

definition new_append :: "nat AppendEntriesArgs" where
  "new_append = \<lparr>aeTerm = 2, aeLeaderID = 1, aePrevLogIndex = 0, aePrevLogTerm = 0,
     aeEntries = [\<lparr>leCommand = Some 20, leTerm = 2\<rparr>], aeLeaderCommit = 0\<rparr>"

definition stale_append_run :: "nat action list" where
  "stale_append_run =
     [Timeout 0 1000 (1000, 0)] @ vote_for 0 (rv 1 0) 1 1001 @ vote_for 0 (rv 1 0) 2 1002 @
     [Client 0 10, Client 0 11, Heartbeat 0 2000,
      Deliver (AEReq True 0 4 old_append) 2001 (2001, 0) (2001, 0),
      Timeout 1 3000 (3000, 0)] @ vote_for 1 (rv 2 1) 2 3001 @ vote_for 1 (rv 2 1) 3 3002 @
     [Client 1 20, Heartbeat 1 4000,
      Deliver (AEReq True 1 0 new_append) 4001 (4001, 0) (4001, 0),
      Timeout 0 6000 (6000, 0)] @
     vote_for 0 \<lparr>rvTerm = 3, rvCandidateID = 0, rvLastLogIndex = 1, rvLastLogTerm = 2\<rparr> 2 6001 @
     vote_for 0 \<lparr>rvTerm = 3, rvCandidateID = 0, rvLastLogIndex = 1, rvLastLogTerm = 2\<rparr> 3 6002 @
     [Deliver (AERep 0 4 old_append \<lparr>aerTerm = 1, aerSuccess = True, aerNextTryHint = 0\<rparr>)
        6003 (6003, 0) (6003, 0)]"

lemma stale_append_run_result:
  "case execs fresh_votes stale_append_run (init_cluster 5 (\<lambda>_. (0, 0))) of
     None \<Rightarrow> False
   | Some s \<Rightarrow>
       (let rf = nodes s ! 0
        in state rf = leaderState \<and> currentTerm rf = 3 \<and> length (log rf) = 2 \<and>
           matchIndex rf ! 4 = 2 \<and> periodicAppendEntriesRoutine 7000 rf = None)"
  by code_simp

text \<open>Property C17: the leader does not check that a reply to \<open>AppendEntries\<close> belongs to its present
  term. Even when no outdated vote is counted it can reach a state in which it believes a
  follower holds an entry beyond the end of its own log, and its next heartbeat panics with
  an index out of range.\<close>

theorem stale_append_reply_panics:
  "\<exists>s. (cstep fresh_votes)\<^sup>*\<^sup>* (init_cluster 5 (\<lambda>_. (0, 0)) :: nat cluster) s \<and>
     state (nodes s ! 0) = leaderState \<and>
     matchIndex (nodes s ! 0) ! 4 \<ge> go_len (log (nodes s ! 0)) \<and>
     periodicAppendEntriesRoutine 7000 (nodes s ! 0) = None"
proof -
  obtain s where s: "execs fresh_votes stale_append_run (init_cluster 5 (\<lambda>_. (0, 0))) = Some s"
    "state (nodes s ! 0) = leaderState \<and> length (log (nodes s ! 0)) = 2 \<and>
     matchIndex (nodes s ! 0) ! 4 = 2 \<and> periodicAppendEntriesRoutine 7000 (nodes s ! 0) = None"
    using stale_append_run_result by (auto simp: Let_def split: option.splits)
  with execs_steps [OF s(1)] show ?thesis by (intro exI [of _ s]) simp
qed

end
