(* ===== verification/RaftLog.thy ===== *)
theory RaftLog
  imports RaftCluster
begin

text \<open>
  The invariant behind Raft's log: what every leader's log was when it was elected and how far it
  has grown, who voted for it with which log, and how much of it every follower has
  acknowledged. The consequences are proved here: logs that agree in one entry's term agree up to
  that entry, an entry that a majority has acknowledged in its own term is in the log of every later
  leader, and two peers have the same committed entries. That every action keeps the invariant is
  shown in \<open>RaftLogSteps\<close>.
\<close>

section \<open>Auxiliary history\<close>

text \<open>
  \<open>LL t\<close> is the log of the leader of term \<open>t\<close>, as it stood last, \<open>EL t\<close> the log with which it was
  elected (empty when no leader was elected in term \<open>t\<close>), \<open>WL t\<close> that leader and \<open>EQ t\<close> the
  servers that voted for it. \<open>VL j t\<close> is the log of server \<open>j\<close> when it voted in term \<open>t\<close>, and
  \<open>Ack j t\<close> how many entries of \<open>LL t\<close> it has accepted.
\<close>

type_synonym 'c entries = "'c LogEntry list"

record 'c ghost =
  LL :: "int \<Rightarrow> 'c entries"
  EL :: "int \<Rightarrow> 'c entries"
  WL :: "int \<Rightarrow> nat"
  EQ :: "int \<Rightarrow> nat set"
  VL :: "nat \<Rightarrow> int \<Rightarrow> 'c entries"
  Ack :: "nat \<Rightarrow> int \<Rightarrow> nat"

text \<open>Every entry came from the leader of its term, together with everything before it.\<close>

definition lp :: "(int \<Rightarrow> 'c entries) \<Rightarrow> 'c entries \<Rightarrow> bool" where
  "lp L l \<longleftrightarrow> l \<noteq> [] \<and> sorted (map leTerm l) \<and>
     (\<forall>x < length l. take (Suc x) l = take (Suc x) (L (leTerm (l ! x))))"

text \<open>The comparison of \<open>RequestVote\<close>: the second log is at least as up to date as the first.\<close>

definition upto :: "'c entries \<Rightarrow> 'c entries \<Rightarrow> bool" where
  "upto l e \<longleftrightarrow> leTerm (last l) < leTerm (last e) \<or>
     leTerm (last l) = leTerm (last e) \<and> length l \<le> length e"

text \<open>The first \<open>x + 1\<close> entries of the leader of term \<open>t\<close>.\<close>

abbreviation pre :: "'c ghost \<Rightarrow> int \<Rightarrow> nat \<Rightarrow> 'c entries" where
  "pre G t x \<equiv> take (Suc x) (LL G t)"

text \<open>They are in \<open>l\<close>, or a leader of a term between \<open>t\<close> and \<open>u\<close> did not have them.\<close>

definition kept :: "'c ghost \<Rightarrow> int \<Rightarrow> nat \<Rightarrow> 'c entries \<Rightarrow> int \<Rightarrow> bool" where
  "kept G t x l u \<longleftrightarrow> prefix (pre G t x) l \<or>
     (\<exists>s. t < s \<and> s < u \<and> EL G s \<noteq> [] \<and> \<not> prefix (pre G t x) (EL G s))"

definition committed :: "nat \<Rightarrow> 'c ghost \<Rightarrow> int \<Rightarrow> nat \<Rightarrow> bool" where
  "committed n G t x \<longleftrightarrow> majority n {j. j < n \<and> x < Ack G j t} \<and> leTerm (LL G t ! x) = t"

text \<open>Why a peer of term \<open>u\<close> with log \<open>l\<close> may take entry \<open>c\<close> for committed.\<close>

definition justified :: "nat \<Rightarrow> 'c ghost \<Rightarrow> int \<Rightarrow> nat \<Rightarrow> 'c entries \<Rightarrow> bool" where
  "justified n G u c l \<longleftrightarrow> c = 0 \<or>
     (\<exists>t x. committed n G t x \<and> c \<le> x \<and> t \<le> u \<and> take (Suc c) l = take (Suc c) (LL G t))"

section \<open>The invariant\<close>

definition elected_ok :: "nat \<Rightarrow> history \<Rightarrow> 'c ghost \<Rightarrow> int \<Rightarrow> bool" where
  "elected_ok n H G u \<longleftrightarrow> 0 < u \<and> (\<forall>e \<in> set (EL G u). leTerm e < u) \<and> prefix (EL G u) (LL G u) \<and>
     majority n (EQ G u) \<and>
     (\<forall>j \<in> EQ G u. H j u = Some (int (WL G u)) \<and> VL G j u \<noteq> [] \<and> upto (VL G j u) (EL G u))"

definition leader_log_ok :: "'c ghost \<Rightarrow> int \<Rightarrow> bool" where
  "leader_log_ok G u \<longleftrightarrow> (u = 0 \<or> EL G u \<noteq> []) \<and> lp (LL G) (LL G u) \<and> (\<forall>e \<in> set (LL G u). leTerm e \<le> u)"

definition ginv :: "nat \<Rightarrow> history \<Rightarrow> 'c ghost \<Rightarrow> bool" where
  "ginv n H G \<longleftrightarrow>
     (\<forall>u. EL G u \<noteq> [] \<longrightarrow> elected_ok n H G u) \<and>
     (\<forall>u. LL G u \<noteq> [] \<longrightarrow> leader_log_ok G u) \<and>
     (\<forall>j t. Ack G j t \<le> length (LL G t))"

definition voted_ok :: "'c ghost \<Rightarrow> nat \<Rightarrow> int \<Rightarrow> bool" where
  "voted_ok G i u \<longleftrightarrow> lp (LL G) (VL G i u) \<and> (\<forall>e \<in> set (VL G i u). leTerm e < u) \<and>
     (\<forall>t x. t < u \<longrightarrow> x < Ack G i t \<longrightarrow> kept G t x (VL G i u) u)"

definition lead_ok :: "nat \<Rightarrow> 'c ghost \<Rightarrow> nat \<Rightarrow> 'c Raft \<Rightarrow> bool" where
  "lead_ok n G i rf \<longleftrightarrow>
     EL G (currentTerm rf) \<noteq> [] \<and> WL G (currentTerm rf) = i \<and> LL G (currentTerm rf) = log rf \<and>
     Ack G i (currentTerm rf) = length (log rf) \<and>
     (\<forall>j < n. 0 < matchIndex rf ! j \<longrightarrow> nat (matchIndex rf ! j) < Ack G j (currentTerm rf))"

definition ninv :: "nat \<Rightarrow> 'c ghost \<Rightarrow> nat \<Rightarrow> 'c Raft \<Rightarrow> bool" where
  "ninv n G i rf \<longleftrightarrow>
     lp (LL G) (log rf) \<and> (\<forall>e \<in> set (log rf). leTerm e \<le> currentTerm rf) \<and>
     (state rf = leaderState \<longrightarrow> lead_ok n G i rf) \<and>
     (\<forall>t x. x < Ack G i t \<longrightarrow> t \<le> currentTerm rf \<and> kept G t x (log rf) (currentTerm rf + 1)) \<and>
     0 \<le> commitIndex rf \<and> justified n G (currentTerm rf) (nat (commitIndex rf)) (log rf) \<and>
     (\<forall>u. EL G u \<noteq> [] \<longrightarrow> WL G u = i \<longrightarrow>
        u \<le> currentTerm rf \<and> (u = currentTerm rf \<longrightarrow> state rf \<noteq> candidateState)) \<and>
     (\<forall>u. VL G i u \<noteq> [] \<longrightarrow> u \<le> currentTerm rf \<and> voted_ok G i u)"

text \<open>Votes for server \<open>i\<close> are for terms it has seen; while its election is open, its log is at
  least as up to date as those of its voters.\<close>

definition cinv :: "nat \<Rightarrow> history \<Rightarrow> 'c ghost \<Rightarrow> nat \<Rightarrow> 'c Raft \<Rightarrow> bool" where
  "cinv n H G i rf \<longleftrightarrow>
     (\<forall>j < n. \<forall>u. H j u = Some (int i) \<longrightarrow> u \<le> currentTerm rf) \<and>
     (state rf = candidateState \<longrightarrow> EL G (currentTerm rf) = [] \<longrightarrow>
        (\<forall>j < n. H j (currentTerm rf) = Some (int i) \<longrightarrow>
           VL G j (currentTerm rf) \<noteq> [] \<and> upto (VL G j (currentTerm rf)) (log rf)))"

definition rvreq_ok :: "'c ghost \<Rightarrow> RequestVoteArgs \<Rightarrow> 'c Raft \<Rightarrow> bool" where
  "rvreq_ok G a rf \<longleftrightarrow> 0 < rvTerm a \<and>
     (rvTerm a = currentTerm rf \<longrightarrow> state rf = candidateState \<longrightarrow> EL G (rvTerm a) = [] \<longrightarrow>
        rvLastLogIndex a = go_len (log rf) - 1 \<and> rvLastLogTerm a = leTerm (last (log rf)))"

text \<open>An \<open>AppendEntries\<close> request carries a piece of the log of the leader of its term.\<close>

definition aereq_ok :: "nat \<Rightarrow> 'c ghost \<Rightarrow> nat \<Rightarrow> 'c AppendEntriesArgs \<Rightarrow> bool" where
  "aereq_ok n G i b \<longleftrightarrow>
     EL G (aeTerm b) \<noteq> [] \<and> WL G (aeTerm b) = i \<and>
     0 \<le> aePrevLogIndex b \<and> nat (aePrevLogIndex b) < length (LL G (aeTerm b)) \<and>
     aePrevLogTerm b = leTerm (LL G (aeTerm b) ! nat (aePrevLogIndex b)) \<and>
     prefix (aeEntries b) (drop (nat (aePrevLogIndex b) + 1) (LL G (aeTerm b))) \<and>
     justified n G (aeTerm b) (nat (aeLeaderCommit b)) (LL G (aeTerm b))"

fun minv :: "'c Raft list \<Rightarrow> 'c ghost \<Rightarrow> 'c rpc \<Rightarrow> bool" where
  "minv ns G (RVReq w i j a) = rvreq_ok G a (ns ! i)"
| "minv ns G (RVRep i j a r) = (0 < rvTerm a)"
| "minv ns G (AEReq w i j b) =
     (i \<noteq> j \<and> i < length ns \<and> j < length ns \<and> aereq_ok (length ns) G i b)"
| "minv ns G (AERep i j b r') =
     (i \<noteq> j \<and> i < length ns \<and> j < length ns \<and> 0 \<le> aePrevLogIndex b \<and>
      (aerSuccess r' \<longrightarrow> nat (aePrevLogIndex b) + length (aeEntries b) < Ack G j (aeTerm b)))"

definition linv :: "'c Raft list \<Rightarrow> 'c rpc list \<Rightarrow> history \<Rightarrow> 'c ghost \<Rightarrow> bool" where
  "linv ns ms H G \<longleftrightarrow>
     ginv (length ns) H G \<and>
     (\<forall>i < length ns. ninv (length ns) G i (ns ! i)) \<and>
     (\<forall>i < length ns. cinv (length ns) H G i (ns ! i)) \<and>
     (\<forall>m \<in> set ms. minv ns G m)"

definition log_inv :: "'c cluster \<Rightarrow> bool" where
  "log_inv s \<longleftrightarrow> (\<exists>H C G. vinv (nodes s) (net s) H C \<and> linv (nodes s) (net s) H G)"

section \<open>Logs made of leaders' entries\<close>

lemma lp_prefix:
  assumes "lp L l" and "prefix l' l" and "l' \<noteq> []"
  shows "lp L l'"
proof -
  obtain r where l: "l = l' @ r" using assms(2) by (auto simp: prefix_def)
  have "take (Suc x) l' = take (Suc x) (L (leTerm (l' ! x)))" if "x < length l'" for x
  proof -
    have x: "x < length l" using that l by simp
    have "take (Suc x) l = take (Suc x) (L (leTerm (l ! x)))" using assms(1) x unfolding lp_def by blast
    then show ?thesis using that by (simp add: l nth_append)
  qed
  then show ?thesis using assms by (auto simp: lp_def l sorted_append)
qed

lemma lp_matching:
  assumes "lp L l" and "lp L l'" and "x < length l" and "x < length l'"
    and "leTerm (l ! x) = leTerm (l' ! x)"
  shows "take (Suc x) l = take (Suc x) l'"
  using assms by (simp add: lp_def)

lemma lp_last:
  assumes "lp L l"
  shows "l = take (length l) (L (leTerm (last l)))"
proof -
  have ne: "l \<noteq> []" using assms by (simp add: lp_def)
  then have x: "length l - 1 < length l" by simp
  have "take (Suc (length l - 1)) l = take (Suc (length l - 1)) (L (leTerm (l ! (length l - 1))))"
    using assms x unfolding lp_def by blast
  then show ?thesis using ne by (simp add: last_conv_nth)
qed

lemma lp_last_ge: "lp L l \<Longrightarrow> e \<in> set l \<Longrightarrow> leTerm e \<le> leTerm (last l)"
proof -
  assume "lp L l" "e \<in> set l"
  then have "sorted (map leTerm l)" "l \<noteq> []" by (auto simp: lp_def)
  then show ?thesis using \<open>e \<in> set l\<close> by (cases l rule: rev_cases) (auto simp: sorted_append)
qed

text \<open>Growing leader logs keep it.\<close>

lemma take_grow: "x < length l \<Longrightarrow> prefix l l' \<Longrightarrow> take (Suc x) l' = take (Suc x) l"
  by (auto simp: prefix_def)

lemma lp_grow:
  assumes "lp L l" and "\<And>t. prefix (L t) (L' t)"
  shows "lp L' l"
proof -
  have "take (Suc x) l = take (Suc x) (L' (leTerm (l ! x)))" if x: "x < length l" for x
  proof -
    have e: "take (Suc x) l = take (Suc x) (L (leTerm (l ! x)))" using assms(1) x by (simp add: lp_def)
    have "x < length (L (leTerm (l ! x)))" using arg_cong [OF e, of length] x by simp
    then show ?thesis using take_grow [OF _ assms(2)] e by metis
  qed
  then show ?thesis using assms(1) by (simp add: lp_def)
qed

lemma lp_snoc:
  assumes "lp L l" and "\<And>e. e \<in> set l \<Longrightarrow> leTerm e \<le> u" and "L u = l @ [\<lparr>leCommand = c, leTerm = u\<rparr>]"
  shows "lp L (l @ [\<lparr>leCommand = c, leTerm = u\<rparr>])"
  using assms by (auto simp: lp_def sorted_append nth_append less_Suc_eq)

lemma merge_keeps:
  assumes P: "prefix P l" "prefix P m" and eq: "take p l = take p m" "p \<le> length l"
    and es: "prefix es (drop p m)"
  shows "prefix P (mergeLog p l es)"
proof (cases "prefix es (drop p l)")
  case False
  obtain r where r: "drop p m = es @ r" using es by (auto simp: prefix_def)
  have m: "m = take p l @ es @ r" using eq(1) append_take_drop_id [of p m] r by simp
  show ?thesis
  proof (cases "length P \<le> p + length es")
    case True
    then show ?thesis
      using P(2) False eq(2) unfolding m
      by (simp add: mergeLog_def)
         (metis P(2) m append_assoc length_append length_take min.absorb2 prefix_length_prefix prefixI)
  next
    case longer: False
    have "prefix (take p l @ es) m" using m by (metis append_assoc prefixI)
    moreover have "length (take p l @ es) \<le> length P" using longer eq(2) by simp
    ultimately have "prefix (take p l @ es) P" using P(2) prefix_length_prefix by blast
    then have "prefix (take p l @ es) l" using P(1) prefix_order.trans by blast
    then obtain z where "l = take p l @ es @ z" by (auto simp: prefix_def)
    then have "drop p l = es @ z" using eq(2)
      by (metis append_take_drop_id same_append_eq)
    with False show ?thesis by simp
  qed
qed (simp add: mergeLog_def P(1))

lemma merge_cases:
  assumes "take p l = take p m" and "p \<le> length l" and "prefix es (drop p m)"
  shows "mergeLog p l es = l \<or> mergeLog p l es = take (p + length es) m"
proof -
  obtain r where r: "drop p m = es @ r" using assms(3) by (auto simp: prefix_def)
  then have "take (p + length es) m = take p l @ es" using assms(1) by (simp add: take_add)
  then show ?thesis by (simp add: mergeLog_def)
qed

lemma merge_has:
  assumes "take p l = take p m" and "p \<le> length l" and "prefix es (drop p m)"
  shows "take (p + length es) (mergeLog p l es) = take (p + length es) m"
proof -
  obtain r where r: "drop p m = es @ r" using assms(3) by (auto simp: prefix_def)
  then show ?thesis using assms(1) mergeLog_contains [OF assms(2), of es] by (simp add: take_add)
qed

section \<open>Leader completeness\<close>

lemma committed_in:
  assumes "ginv n H G" and "committed n G t x"
  shows "x < length (LL G t)" and "0 \<le> t" and "LL G t \<noteq> []"
proof -
  have "{j. j < n \<and> x < Ack G j t} \<noteq> {}"
    using assms(2) by (auto simp: committed_def majority_def simp del: Collect_empty_eq)
  then obtain j where "x < Ack G j t" by blast
  moreover have "Ack G j t \<le> length (LL G t)" using assms(1) by (simp add: ginv_def)
  ultimately show "x < length (LL G t)" by simp
  then show "LL G t \<noteq> []" by auto
  then show "0 \<le> t" using assms(1) by (force simp: ginv_def leader_log_ok_def elected_ok_def)
qed

lemma ginv_elected:
  assumes "ginv n H G" and "EL G u \<noteq> []"
  shows "elected_ok n H G u" and "leader_log_ok G u" and "lp (LL G) (EL G u)" and "LL G u \<noteq> []"
proof -
  show e: "elected_ok n H G u" using assms by (simp add: ginv_def)
  then show "LL G u \<noteq> []" using assms(2) by (auto simp: elected_ok_def)
  then show "leader_log_ok G u" using assms(1) by (simp add: ginv_def)
  then show "lp (LL G) (EL G u)" using e assms(2) lp_prefix by (auto simp: elected_ok_def leader_log_ok_def)
qed

text \<open>A log that is at least as up to date as one that has the entry has it as well, when all
  leaders in between have it.\<close>

lemma upto_keeps:
  assumes G: "ginv n H G" and l: "lp (LL G) l" and e: "lp (LL G) e" and up: "upto l e"
    and P: "prefix (pre G t x) l" and x: "x < length (LL G t)" "leTerm (LL G t ! x) = t" and t0: "0 \<le> t"
    and IH: "\<And>s. t < s \<Longrightarrow> s \<le> leTerm (last e) \<Longrightarrow> EL G s \<noteq> [] \<Longrightarrow> prefix (pre G t x) (EL G s)"
  shows "prefix (pre G t x) e"
proof -
  let ?a = "leTerm (last l)" and ?b = "leTerm (last e)"
  have le: "l = take (length l) (LL G ?a)" "e = take (length e) (LL G ?b)"
    using lp_last [OF l] lp_last [OF e] by simp_all
  have "LL G t ! x \<in> set (pre G t x)" using x(1) by (auto simp: in_set_conv_nth)
  then have "LL G t ! x \<in> set l" using P set_mono_prefix by blast
  then have ta: "t \<le> ?a" using lp_last_ge [OF l] x(2) by metis
  show ?thesis
  proof (cases "?a = ?b")
    case True
    then have "length l \<le> length e" using up by (simp add: upto_def)
    then have "prefix l e" using le True by (metis prefix_length_prefix take_is_prefix)
    with P show ?thesis by (rule prefix_order.trans)
  next
    case False
    then have ab: "?a < ?b" using up by (simp add: upto_def)
    have ene: "e \<noteq> []" using e by (simp add: lp_def)
    then have "LL G ?b \<noteq> []" using le(2) by auto
    then have eb: "EL G ?b \<noteq> []" using G ab ta t0 by (auto simp: ginv_def leader_log_ok_def)
    note ok = ginv_elected [OF G eb]
    have p: "prefix (EL G ?b) (LL G ?b)" using ok(1) by (simp add: elected_ok_def)
    have "\<not> prefix e (EL G ?b)"
    proof
      assume "prefix e (EL G ?b)"
      then have "last e \<in> set (EL G ?b)" using ene set_mono_prefix last_in_set by blast
      then show False using ok(1) by (auto simp: elected_ok_def)
    qed
    then have "prefix (EL G ?b) e" using p le(2) by (metis prefix_same_cases take_is_prefix)
    moreover have "prefix (pre G t x) (EL G ?b)" by (rule IH [OF _ _ eb]) (use ab ta in auto)
    ultimately show ?thesis by (metis prefix_order.trans)
  qed
qed

lemma leader_complete:
  assumes G: "ginv n H G" and V: "\<And>i u. i < n \<Longrightarrow> VL G i u \<noteq> [] \<Longrightarrow> voted_ok G i u"
    and com: "committed n G t x"
  shows "t < u \<Longrightarrow> EL G u \<noteq> [] \<Longrightarrow> prefix (pre G t x) (EL G u)"
proof (induction "nat u" arbitrary: u rule: less_induct)
  case less
  note c = committed_in [OF G com]
  note ok = ginv_elected [OF G less.prems(2)]
  have IH: "prefix (pre G t x) (EL G s)" if "t < s" "s < u" "EL G s \<noteq> []" for s
    using less.hyps [of s] that c(2) by simp
  have "majority n (EQ G u)" "majority n {j. j < n \<and> x < Ack G j t}"
    using ok(1) com by (auto simp: elected_ok_def committed_def)
  from majority_meet [OF this] obtain j where j: "j \<in> EQ G u" "j < n" "x < Ack G j t" by blast
  let ?l = "VL G j u"
  have v: "?l \<noteq> []" "upto ?l (EL G u)" using ok(1) j(1) by (auto simp: elected_ok_def)
  from V [OF j(2) v(1)] have w: "lp (LL G) ?l" "kept G t x ?l u"
    using j(3) less.prems(1) by (auto simp: voted_ok_def)
  have P: "prefix (pre G t x) ?l" using w(2) IH by (auto simp: kept_def)
  have tm: "leTerm (LL G t ! x) = t" using com by (simp add: committed_def)
  have "leTerm (last (EL G u)) < u"
    using ok(1) less.prems(2) last_in_set by (force simp: elected_ok_def)
  then show ?case
    by (intro upto_keeps [OF G w(1) ok(3) v(2) P c(1) tm c(2)] IH) auto
qed

text \<open>The same for the leader's log as it is now, and for its own term.\<close>

lemma leader_has:
  assumes G: "ginv n H G" and V: "\<And>i u. i < n \<Longrightarrow> VL G i u \<noteq> [] \<Longrightarrow> voted_ok G i u"
    and com: "committed n G t x" and "t \<le> u" and "EL G u \<noteq> []"
  shows "prefix (pre G t x) (LL G u)"
proof (cases "t = u")
  case True
  then show ?thesis by (simp add: take_is_prefix)
next
  case False
  then have "prefix (pre G t x) (EL G u)" using leader_complete [OF G V com] assms(4,5) by simp
  moreover have "prefix (EL G u) (LL G u)"
    using ginv_elected(1) [OF G assms(5)] by (simp add: elected_ok_def)
  ultimately show ?thesis by (rule prefix_order.trans)
qed

lemma committed_agree:
  assumes G: "ginv n H G" and V: "\<And>i u. i < n \<Longrightarrow> VL G i u \<noteq> [] \<Longrightarrow> voted_ok G i u"
    and "committed n G t x" and "committed n G u y" and "t \<le> u" and "c \<le> x"
  shows "take (Suc c) (LL G t) = take (Suc c) (LL G u)"
proof (cases "t = u")
  case False
  have "0 \<le> t" "LL G u \<noteq> []" using committed_in [OF G assms(3)] committed_in [OF G assms(4)] by auto
  then have "EL G u \<noteq> []" using G False assms(5) by (auto simp: ginv_def leader_log_ok_def)
  from leader_has [OF G V assms(3,5) this] have "prefix (pre G t x) (LL G u)" by simp
  then have "prefix (take (Suc c) (LL G t)) (LL G u)"
    using assms(6) take_is_prefix [of "Suc c" "pre G t x"] prefix_order.trans
    by (fastforce simp: min_absorb1)
  moreover have "length (take (Suc c) (LL G t)) = Suc c"
    using committed_in(1) [OF G assms(3)] assms(6) by simp
  ultimately show ?thesis by (auto simp: prefix_def)
qed simp

lemma justified_agree:
  assumes G: "ginv n H G" and V: "\<And>i u. i < n \<Longrightarrow> VL G i u \<noteq> [] \<Longrightarrow> voted_ok G i u"
    and "justified n G u c l" and "justified n G u' c' l'" and "z \<le> c" and "z \<le> c'" and "0 < z"
  shows "take (Suc z) l = take (Suc z) l'"
proof -
  obtain t x where t: "committed n G t x" "c \<le> x" "take (Suc c) l = take (Suc c) (LL G t)"
    using assms(3,5,7) by (auto simp: justified_def)
  obtain t' x' where t': "committed n G t' x'" "c' \<le> x'" "take (Suc c') l' = take (Suc c') (LL G t')"
    using assms(4,6,7) by (auto simp: justified_def)
  have "take (Suc z) (LL G t) = take (Suc z) (LL G t')"
  proof (cases "t \<le> t'")
    case True
    then show ?thesis
      using committed_agree [OF G V t(1) t'(1) True, of z] t(2) assms(5) by simp
  next
    case False
    then have "t' \<le> t" by simp
    then show ?thesis
      using committed_agree [OF G V t'(1) t(1) _, of z] t'(2) assms(6) by simp
  qed
  moreover have "take (Suc z) l = take (Suc z) (LL G t)"
    using arg_cong [OF t(3), of "take (Suc z)"] assms(5) by (simp add: min_absorb1)
  moreover have "take (Suc z) l' = take (Suc z) (LL G t')"
    using arg_cong [OF t'(3), of "take (Suc z)"] assms(6) by (simp add: min_absorb1)
  ultimately show ?thesis by simp
qed

text \<open>What the invariant says of the peers.\<close>

lemma log_inv_voted:
  assumes "linv ns ms H G"
  shows "i < length ns \<Longrightarrow> VL G i u \<noteq> [] \<Longrightarrow> voted_ok G i u"
  using assms by (auto simp: linv_def ninv_def)

lemma log_inv_matching:
  assumes "log_inv s" and "i < length (nodes s)" and "j < length (nodes s)"
    and "x < length (log (nodes s ! i))" and "x < length (log (nodes s ! j))"
    and "leTerm (log (nodes s ! i) ! x) = leTerm (log (nodes s ! j) ! x)"
  shows "take (Suc x) (log (nodes s ! i)) = take (Suc x) (log (nodes s ! j))"
  using assms by (auto simp: log_inv_def linv_def ninv_def intro: lp_matching)

lemma log_inv_safety:
  assumes "log_inv s" and "i < length (nodes s)" and "j < length (nodes s)"
    and "int x \<le> commitIndex (nodes s ! i)" and "int x \<le> commitIndex (nodes s ! j)" and "0 < x"
  shows "take (Suc x) (log (nodes s ! i)) = take (Suc x) (log (nodes s ! j))"
proof -
  obtain H C G where l: "linv (nodes s) (net s) H G" using assms(1) by (auto simp: log_inv_def)
  then have "ginv (length (nodes s)) H G" by (simp add: linv_def)
  moreover have "justified (length (nodes s)) G (currentTerm (nodes s ! k)) (nat (commitIndex (nodes s ! k)))
      (log (nodes s ! k))" if "k < length (nodes s)" for k
    using l that by (simp add: linv_def ninv_def)
  ultimately show ?thesis
    using assms(2-6) by (intro justified_agree [OF _ log_inv_voted [OF l]]) auto
qed

section \<open>Growth of the auxiliary history\<close>

text \<open>What a step of peer \<open>k\<close> may change.\<close>

definition grow :: "nat \<Rightarrow> 'c ghost \<Rightarrow> 'c ghost \<Rightarrow> bool" where
  "grow k G G' \<longleftrightarrow>
     (\<forall>t. prefix (LL G t) (LL G' t)) \<and>
     (\<forall>t. EL G t \<noteq> [] \<longrightarrow> EL G' t = EL G t \<and> WL G' t = WL G t \<and> EQ G' t = EQ G t \<and>
        (\<forall>j. VL G' j t = VL G j t) \<and> (WL G t \<noteq> k \<longrightarrow> LL G' t = LL G t)) \<and>
     (\<forall>t. EL G' t \<noteq> [] \<longrightarrow> EL G t \<noteq> [] \<or> WL G' t = k) \<and>
     (\<forall>j t. Ack G j t \<le> Ack G' j t) \<and> (\<forall>j. j \<noteq> k \<longrightarrow> Ack G' j = Ack G j \<and> VL G' j = VL G j)"

lemma grow_refl [simp]: "grow k G G"
  by (simp add: grow_def)

lemma grow_pre: "grow k G G' \<Longrightarrow> x < length (LL G t) \<Longrightarrow> pre G' t x = pre G t x"
  by (rule take_grow) (auto simp: grow_def)

lemma grow_lp: "grow k G G' \<Longrightarrow> lp (LL G) l \<Longrightarrow> lp (LL G') l"
  by (erule lp_grow) (simp add: grow_def)

lemma grow_kept:
  assumes "grow k G G'" and "x < length (LL G t)" and "kept G t x l u"
  shows "kept G' t x l u"
  using assms grow_pre [OF assms(1,2)] unfolding kept_def grow_def by metis

lemma grow_committed:
  assumes "ginv n H G" and "grow k G G'" and "committed n G t x"
  shows "committed n G' t x"
proof -
  have x: "x < length (LL G t)" using committed_in [OF assms(1,3)] by simp
  have "{j. j < n \<and> x < Ack G j t} \<subseteq> {j. j < n \<and> x < Ack G' j t}"
    using assms(2) by (auto simp: grow_def intro: less_le_trans)
  then have "card {j. j < n \<and> x < Ack G j t} \<le> card {j. j < n \<and> x < Ack G' j t}"
    by (intro card_mono) auto
  then have "majority n {j. j < n \<and> x < Ack G' j t}"
    using assms(3) by (auto simp: committed_def majority_def)
  moreover have "LL G' t ! x = LL G t ! x"
    using assms(2) x by (auto simp: grow_def prefix_def nth_append dest!: spec [of _ t])
  ultimately show ?thesis using assms(3) by (simp add: committed_def)
qed

lemma grow_justified:
  assumes "ginv n H G" and "grow k G G'" and "justified n G u c l"
  shows "justified n G' u c l"
proof (cases "c = 0")
  case False
  then obtain t x where t: "committed n G t x" "c \<le> x" "t \<le> u" "take (Suc c) l = take (Suc c) (LL G t)"
    using assms(3) by (auto simp: justified_def)
  have "c < length (LL G t)" using committed_in(1) [OF assms(1) t(1)] t(2) by simp
  then have "take (Suc c) l = take (Suc c) (LL G' t)" using t(4) grow_pre [OF assms(2)] by metis
  then show ?thesis using grow_committed [OF assms(1,2) t(1)] t(2,3) by (auto simp: justified_def)
qed (simp add: justified_def)

lemma grow_justified_leader:
  assumes "ginv n H G" and "grow k G G'" and "justified n G u c (LL G s)"
  shows "justified n G' u c (LL G' s)"
proof (cases "c = 0")
  case False
  then obtain t x where t: "committed n G t x" "c \<le> x" "take (Suc c) (LL G s) = take (Suc c) (LL G t)"
    using assms(3) by (auto simp: justified_def)
  have "c < length (LL G t)" using committed_in(1) [OF assms(1) t(1)] t(2) by simp
  then have "c < length (LL G s)" using arg_cong [OF t(3), of length] by simp
  then have "take (Suc c) (LL G' s) = take (Suc c) (LL G s)" by (rule grow_pre [OF assms(2)])
  moreover have "justified n G' u c (LL G s)" using assms by (rule grow_justified)
  ultimately show ?thesis by (simp add: justified_def)
qed (simp add: justified_def)

lemma grow_voted:
  assumes "ginv n H G" and "grow k G G'" and "VL G' i u = VL G i u"
    and "\<And>t. t < u \<Longrightarrow> Ack G' i t = Ack G i t" and "voted_ok G i u"
  shows "voted_ok G' i u"
proof -
  have "x < length (LL G t)" if "x < Ack G i t" for t x
    using assms(1) that by (auto simp: ginv_def intro: less_le_trans)
  then show ?thesis
    using assms(3-5) grow_lp [OF assms(2)] grow_kept [OF assms(2)] by (simp add: voted_ok_def)
qed

text \<open>The invariant of the other peers.\<close>

lemma grow_ninv:
  assumes G: "ginv n H G" and gr: "grow k G G'" and i: "i \<noteq> k" and inv: "ninv n G i rf"
  shows "ninv n G' i rf"
proof -
  have same: "Ack G' i = Ack G i" "VL G' i = VL G i" using gr i by (auto simp: grow_def)
  have len: "x < length (LL G t)" if "x < Ack G i t" for t x
    using G that by (auto simp: ginv_def intro: less_le_trans)
  have lead: "lead_ok n G' i rf" if l: "state rf = leaderState"
  proof -
    have o: "lead_ok n G i rf" using inv l by (simp add: ninv_def)
    then have "EL G' (currentTerm rf) = EL G (currentTerm rf)" "WL G' (currentTerm rf) = i"
      "LL G' (currentTerm rf) = LL G (currentTerm rf)"
      using gr i by (auto simp: grow_def lead_ok_def)
    moreover have "nat (matchIndex rf ! j) < Ack G' j (currentTerm rf)"
      if "j < n" "0 < matchIndex rf ! j" for j
    proof -
      have "nat (matchIndex rf ! j) < Ack G j (currentTerm rf)" using o that by (simp add: lead_ok_def)
      also have "\<dots> \<le> Ack G' j (currentTerm rf)" using gr by (simp add: grow_def)
      finally show ?thesis .
    qed
    ultimately show ?thesis using o same by (simp add: lead_ok_def)
  qed
  have "EL G u \<noteq> [] \<and> WL G u = i" if "EL G' u \<noteq> []" "WL G' u = i" for u
    using gr i that unfolding grow_def by metis
  then have w: "\<forall>u. EL G' u \<noteq> [] \<longrightarrow> WL G' u = i \<longrightarrow>
      u \<le> currentTerm rf \<and> (u = currentTerm rf \<longrightarrow> state rf \<noteq> candidateState)"
    using inv unfolding ninv_def by blast
  have v: "voted_ok G' i u" if "VL G i u \<noteq> []" for u
    by (rule grow_voted [OF G gr]) (use inv that same in \<open>auto simp: ninv_def\<close>)
  show ?thesis
    using inv grow_lp [OF gr] lead grow_kept [OF gr len] grow_justified [OF G gr] same w v
    unfolding ninv_def by simp
qed

lemma grow_aereq:
  assumes G: "ginv n H G" and gr: "grow k G G'" and b: "aereq_ok n G i b"
  shows "aereq_ok n G' i b"
proof -
  let ?t = "aeTerm b"
  have "prefix (LL G ?t) (LL G' ?t)" using gr by (simp add: grow_def)
  then obtain r where r: "LL G' ?t = LL G ?t @ r" by (auto simp: prefix_def)
  have b': "EL G ?t \<noteq> []" "justified n G ?t (nat (aeLeaderCommit b)) (LL G ?t)"
    "prefix (aeEntries b) (drop (nat (aePrevLogIndex b) + 1) (LL G ?t))"
    "nat (aePrevLogIndex b) < length (LL G ?t)"
    using b by (simp_all add: aereq_ok_def)
  have "EL G' ?t \<noteq> [] \<and> WL G' ?t = i" using b b'(1) gr by (auto simp: aereq_ok_def grow_def)
  moreover have "prefix (aeEntries b) (drop (nat (aePrevLogIndex b) + 1) (LL G' ?t))"
    using b'(3,4) r prefix_prefix by auto
  moreover have "justified n G' ?t (nat (aeLeaderCommit b)) (LL G' ?t)"
    using grow_justified_leader [OF G gr b'(2)] .
  ultimately show ?thesis using b r by (auto simp: aereq_ok_def nth_append)
qed

lemma grow_aerep: "grow k G G' \<Longrightarrow> x < Ack G j t \<Longrightarrow> x < Ack G' j t"
  by (auto simp: grow_def intro: less_le_trans)

end
