(* ===== verification/RaftLogSteps.thy ===== *)
theory RaftLogSteps
  imports RaftLog
begin

text \<open>
  The invariant of \<open>RaftLog\<close> under the steps of one peer: steps that leave log and votes alone, a
  vote, the start of an election, its success, and a new entry at the leader.
\<close>

section \<open>One peer changes\<close>

text \<open>A peer that still stands for election has not changed its log.\<close>

definition cand_stable :: "'c ghost \<Rightarrow> 'c Raft \<Rightarrow> 'c Raft \<Rightarrow> bool" where
  "cand_stable G rf rf' \<longleftrightarrow> currentTerm rf \<le> currentTerm rf' \<and>
     (state rf' = candidateState \<longrightarrow> EL G (currentTerm rf') = [] \<longrightarrow>
        currentTerm rf' = currentTerm rf \<and> state rf = candidateState \<and> log rf' = log rf)"

lemma cand_stable_refl [simp]: "cand_stable G rf rf"
  by (simp add: cand_stable_def)

lemma grow_EL_empty: "grow k G G' \<Longrightarrow> EL G' u = [] \<Longrightarrow> EL G u = []"
  by (auto simp: grow_def)

lemma cinv_step:
  assumes "cinv n H G i rf" and gr: "grow k G G'" and cs: "cand_stable G' rf rf'"
    and o: "\<And>j. j \<noteq> k \<Longrightarrow> H' j = H j"
    and k: "\<And>u. H' k u = Some (int i) \<Longrightarrow> H k u = Some (int i) \<and> VL G' k u = VL G k u"
  shows "cinv n H' G' i rf'"
proof -
  have old: "H j u = Some (int i) \<and> VL G' j u = VL G j u" if "H' j u = Some (int i)" for j u
    using k o gr that by (cases "j = k") (auto simp: grow_def)
  show ?thesis
    unfolding cinv_def
  proof (intro conjI allI impI)
    fix j u assume "j < n" "H' j u = Some (int i)"
    then have "u \<le> currentTerm rf" using assms(1) old by (auto simp: cinv_def)
    then show "u \<le> currentTerm rf'" using cs by (auto simp: cand_stable_def)
  next
    fix j assume c: "state rf' = candidateState" "EL G' (currentTerm rf') = []" "j < n"
      "H' j (currentTerm rf') = Some (int i)"
    then have s: "currentTerm rf' = currentTerm rf" "state rf = candidateState" "log rf' = log rf"
      using cs by (auto simp: cand_stable_def)
    have e: "EL G (currentTerm rf) = []" using grow_EL_empty [OF gr c(2)] s(1) by simp
    have h: "H j (currentTerm rf) = Some (int i)" "VL G' j (currentTerm rf) = VL G j (currentTerm rf)"
      using old [OF c(4)] s(1) by auto
    have "VL G j (currentTerm rf) \<noteq> [] \<and> upto (VL G j (currentTerm rf)) (log rf)"
      using assms(1) s(2) e c(3) h(1) by (simp add: cinv_def)
    then show "VL G' j (currentTerm rf') \<noteq> []" "upto (VL G' j (currentTerm rf')) (log rf')"
      using h(2) s by auto
  qed
qed

lemma rvreq_step:
  assumes "rvreq_ok G a rf" and "grow k G G'" and "cand_stable G' rf rf'"
  shows "rvreq_ok G' a rf'"
  using assms grow_EL_empty [OF assms(2), of "rvTerm a"] by (auto simp: rvreq_ok_def cand_stable_def)

lemma minv_step:
  assumes G: "ginv (length ns) H G" and gr: "grow k G G'" and k: "k < length ns"
    and m: "minv ns G m"
    and rv: "\<And>a. rvreq_ok G a (ns ! k) \<Longrightarrow> (\<exists>w j. m = RVReq w k j a) \<Longrightarrow> rvreq_ok G' a rf'"
  shows "minv (ns[k := rf']) G' m"
proof (cases m)
  case (RVReq w i j a)
  then show ?thesis
    using m rv k rvreq_step [OF _ gr cand_stable_refl, of a "ns ! i"] by (cases "i = k") auto
next
  case (AEReq w i j b)
  then show ?thesis using m grow_aereq [OF G gr] by simp
next
  case (AERep i j b r)
  then show ?thesis using m grow_aerep [OF gr] by simp
qed (use m in simp)

lemma linv_step:
  assumes inv: "linv ns ms H G" and k: "k < length ns" and gr: "grow k G G'"
    and G': "ginv (length ns) H' G'" and nk: "ninv (length ns) G' k rf'"
    and ck: "\<And>i. i < length ns \<Longrightarrow> cinv (length ns) H' G' i (ns[k := rf'] ! i)"
    and ms: "\<And>m. m \<in> set ms' \<Longrightarrow> minv (ns[k := rf']) G' m"
  shows "linv (ns[k := rf']) ms' H' G'"
proof -
  have G: "ginv (length ns) H G" using inv by (simp add: linv_def)
  have "ninv (length ns) G' i (ns[k := rf'] ! i)" if "i < length ns" for i
  proof (cases "i = k")
    case True
    then show ?thesis using k nk by simp
  next
    case False
    have "ninv (length ns) G i (ns ! i)" using inv that by (simp add: linv_def)
    then show ?thesis using grow_ninv [OF G gr False] False by simp
  qed
  then show ?thesis using G' ck ms by (simp add: linv_def)
qed

lemma linv_parts:
  assumes "linv ns ms H G" and "k < length ns"
  shows "ginv (length ns) H G" and "ninv (length ns) G k (ns ! k)" and "cinv (length ns) H G k (ns ! k)"
  using assms by (simp_all add: linv_def)

text \<open>The step of a peer that casts no vote and does not open an election.\<close>

lemma linv_plain:
  assumes inv: "linv ns ms H G" and k: "k < length ns" and gr: "grow k G G'"
    and cs: "cand_stable G' (ns ! k) rf'"
    and G': "ginv (length ns) H G'" and nk: "ninv (length ns) G' k rf'"
    and vl: "VL G' = VL G"
  shows "linv (ns[k := rf']) ms H G'"
proof (rule linv_step [OF inv k gr G' nk])
  fix i assume i: "i < length ns"
  have "cinv (length ns) H G i (ns ! i)" using inv i by (simp add: linv_def)
  then show "cinv (length ns) H G' i (ns[k := rf'] ! i)"
    by (rule cinv_step [OF _ gr]) (use cs i k vl in \<open>auto simp: nth_list_update\<close>)
next
  fix m assume "m \<in> set ms"
  then have "minv ns G m" using inv by (simp add: linv_def)
  then show "minv (ns[k := rf']) G' m"
    by (rule minv_step [OF linv_parts(1) [OF inv k] gr k]) (rule rvreq_step [OF _ gr cs])
qed

lemma linv_net:
  assumes "linv ns ms H G" and "\<And>m. m \<in> set ms' \<Longrightarrow> m \<in> set ms \<or> minv ns G m"
  shows "linv ns ms' H G"
  using assms by (auto simp: linv_def)

section \<open>Steps that leave log and votes alone\<close>

definition lquiet :: "'c Raft \<Rightarrow> 'c Raft \<Rightarrow> bool" where
  "lquiet rf rf' \<longleftrightarrow> log rf' = log rf \<and> (commitIndex rf' = commitIndex rf \<or> commitIndex rf' = 0) \<and>
     (currentTerm rf' = currentTerm rf \<and> votedFor rf' = votedFor rf \<and>
        (state rf' = followerState \<or> state rf' = state rf \<and> matchIndex rf' = matchIndex rf) \<or>
      currentTerm rf < currentTerm rf' \<and> votedFor rf' = noPeer \<and> state rf' = followerState)"

lemma record_vote_quiet:
  assumes "node_ok n H k rf"
    and "currentTerm rf' = currentTerm rf \<and> votedFor rf' = votedFor rf \<or>
         currentTerm rf < currentTerm rf' \<and> votedFor rf' = noPeer"
  shows "record_vote H k rf' = H"
  using assms by (auto simp: record_vote_def node_ok_def vote_of_def fun_eq_iff)

lemma lquiet_record: "node_ok n H k rf \<Longrightarrow> lquiet rf rf' \<Longrightarrow> record_vote H k rf' = H"
  by (rule record_vote_quiet) (auto simp: lquiet_def)

lemma kept_later: "kept G t x l u \<Longrightarrow> u \<le> u' \<Longrightarrow> kept G t x l u'"
  by (auto simp: kept_def intro: less_le_trans)

lemma justified_later: "justified n G u c l \<Longrightarrow> u \<le> u' \<Longrightarrow> justified n G u' c l"
  by (force simp: justified_def)

lemma lquiet_ninv:
  assumes "ninv n G i rf" and q: "lquiet rf rf'"
  shows "ninv n G i rf'"
proof -
  have le: "currentTerm rf \<le> currentTerm rf'" and l: "log rf' = log rf" using q by (auto simp: lquiet_def)
  have "lead_ok n G i rf'" if "state rf' = leaderState"
    using assms that by (auto simp: ninv_def lquiet_def lead_ok_def)
  moreover have "\<forall>t x. x < Ack G i t \<longrightarrow> t \<le> currentTerm rf' \<and> kept G t x (log rf') (currentTerm rf' + 1)"
    using assms(1) le l kept_later [of G _ _ "log rf" "currentTerm rf + 1" "currentTerm rf' + 1"]
    by (fastforce simp: ninv_def)
  moreover have "justified n G (currentTerm rf') (nat (commitIndex rf')) (log rf')"
  proof (cases "commitIndex rf' = 0")
    case False
    then have "commitIndex rf' = commitIndex rf" using q by (simp add: lquiet_def)
    moreover have "justified n G (currentTerm rf) (nat (commitIndex rf)) (log rf)"
      using assms(1) by (simp add: ninv_def)
    ultimately show ?thesis using justified_later [OF _ le] l by metis
  qed (simp add: justified_def)
  moreover have "u \<le> currentTerm rf' \<and> (u = currentTerm rf' \<longrightarrow> state rf' \<noteq> candidateState)"
    if "EL G u \<noteq> []" "WL G u = i" for u
  proof -
    have "u \<le> currentTerm rf" "u = currentTerm rf \<longrightarrow> state rf \<noteq> candidateState"
      using assms(1) that unfolding ninv_def by blast+
    then show ?thesis using q by (auto simp: lquiet_def)
  qed
  ultimately show ?thesis
    using assms(1) le l q by (auto simp: ninv_def lquiet_def intro: order_trans)
qed

lemma linv_quiet:
  assumes inv: "linv ns ms H G" and k: "k < length ns" and q: "lquiet (ns ! k) rf'"
  shows "linv (ns[k := rf']) ms H G"
proof (rule linv_plain [OF inv k grow_refl])
  show "cand_stable G (ns ! k) rf'" using q by (auto simp: cand_stable_def lquiet_def)
  show "ninv (length ns) G k rf'" using linv_parts(2) [OF inv k] q by (rule lquiet_ninv)
qed (use linv_parts(1) [OF inv k] in auto)

lemma lquiet_refl [simp]: "lquiet rf rf"
  by (simp add: lquiet_def)

lemma lquiet_convert [simp]: "lquiet rf (fst (convertToFollowerIfOutOfTerm c t rf))"
  by (auto simp: lquiet_def convert_term convert_vote frame_simps)

lemma lquiet_then:
  "lquiet rf rf1 \<Longrightarrow> log rf' = log rf1 \<Longrightarrow> commitIndex rf' = commitIndex rf1 \<Longrightarrow>
   currentTerm rf' = currentTerm rf1 \<Longrightarrow> votedFor rf' = votedFor rf1 \<Longrightarrow> state rf' = state rf1 \<Longrightarrow>
   matchIndex rf' = matchIndex rf1 \<Longrightarrow> lquiet rf rf'"
  by (simp add: lquiet_def)

lemma lquiet_sends: "sendAppendEntriesToPeers now rf = Some (rf', aes) \<Longrightarrow> lquiet rf rf'"
  by (drule sendAppendEntriesToPeers_shape) (auto simp: lquiet_def)

lemma lquiet_periodic: "periodicAppendEntriesRoutine now rf = Some (rf', aes, g) \<Longrightarrow> lquiet rf rf'"
  by (auto simp: periodicAppendEntriesRoutine_def split: if_splits option.splits
      dest!: lquiet_sends intro: lquiet_then)

lemma lquiet_apply: "applyNext rf = Some (Some (rf', m)) \<Longrightarrow> lquiet rf rf'"
  by (drule applyNext_shape) (auto simp: lquiet_def)

lemma lquiet_restart:
  assumes "node_inv rf"
  shows "lquiet rf (Make c (peers rf) (me rf) (Persister_Copy (persister rf)))"
proof -
  let ?rf' = "Make c (peers rf) (me rf) (Persister_Copy (persister rf))"
  have p: "persistent_fields ?rf' = persistent_fields rf"
    using assms by (simp only: Make_recovers recovered_Copy) (simp add: node_inv_def durable_def)
  have "commitIndex ?rf' = 0" "state ?rf' = followerState"
    by (auto simp: Make_def Let_def readPersist_def resetElectionTimer_def split: option.splits)
  then show ?thesis using p by (simp add: lquiet_def)
qed

section \<open>Requests of a leader\<close>

lemma appendRequest_ok:
  assumes "ninv n G k rf" and "state rf = leaderState" and r: "appendRequest rf j = Some b"
  shows "aereq_ok n G k b"
proof -
  obtain nxt where n: "0 \<le> nxt - 1" "nxt - 1 < go_len (log rf)" "aePrevLogIndex b = nxt - 1"
    "aePrevLogTerm b = leTerm (log rf ! nat (nxt - 1))" "aeTerm b = currentTerm rf"
    "aeLeaderCommit b = commitIndex rf"
    "(if go_len (log rf) > nxt then go_from (log rf) nxt else Some []) = Some (aeEntries b)"
    using r by (auto simp: appendRequest_def go_nth_Some_iff split: option.splits)
  have "nat (nxt - 1) + 1 = nat nxt" using n(1) by simp
  then have "aeEntries b = drop (nat (nxt - 1) + 1) (log rf)"
    using n(1,2,7) by (auto simp: go_from_Some_iff split: if_splits)
  moreover have "lead_ok n G k rf" "justified n G (currentTerm rf) (nat (commitIndex rf)) (log rf)"
    using assms(1,2) by (simp_all add: ninv_def)
  ultimately show ?thesis
    using n(1-6) by (simp add: aereq_ok_def lead_ok_def)
qed

lemma leader_sends:
  assumes "ninv n G k rf" and "state rf = leaderState" and "peers rf = n" and "me rf = int k"
    and "sendAppendEntriesToPeers now rf = Some (rf', aes)" and "(j, b) \<in> set aes"
  shows "k \<noteq> j \<and> j < n \<and> aereq_ok n G k b"
proof -
  have "those (map (\<lambda>i. map_option (Pair i) (appendRequest rf i)) (otherPeers rf)) = Some aes"
    using assms(5) by (auto simp: sendAppendEntriesToPeers_def split: option.splits)
  from those_pairs [OF this assms(6)]
  have "j \<in> set (otherPeers rf)" "appendRequest rf j = Some b" by simp_all
  then show ?thesis
    using appendRequest_ok [OF assms(1,2)] assms(3,4) by (auto simp: otherPeers_set)
qed

lemma linv_send_AE:
  assumes "linv ns ms H G" and "k < length ns"
    and "\<And>j b. (j, b) \<in> set aes \<Longrightarrow> k \<noteq> j \<and> j < length ns \<and> aereq_ok (length ns) G k b"
  shows "linv ns (ms @ sendAppendEntries k aes) H G"
proof (rule linv_net [OF assms(1)])
  fix m assume "m \<in> set (ms @ sendAppendEntries k aes)"
  then show "m \<in> set ms \<or> minv ns G m"
    using assms(2,3) by (auto simp: sendAppendEntries_def)
qed

section \<open>Casting a vote\<close>

text \<open>The log a vote is cast with is recorded while the election is open.\<close>

definition record_log :: "'c ghost \<Rightarrow> nat \<Rightarrow> int \<Rightarrow> 'c entries \<Rightarrow> 'c ghost" where
  "record_log G k u l = (if EL G u = [] then G\<lparr>VL := (VL G)(k := (VL G k)(u := l))\<rparr> else G)"

lemma record_log_fields [simp]:
  "LL (record_log G k u l) = LL G" "EL (record_log G k u l) = EL G" "WL (record_log G k u l) = WL G"
  "EQ (record_log G k u l) = EQ G" "Ack (record_log G k u l) = Ack G"
  by (simp_all add: record_log_def)

lemma record_log_VL:
  "VL (record_log G k u l) j v = (if j = k \<and> v = u \<and> EL G u = [] then l else VL G j v)"
  by (simp add: record_log_def)

lemma record_log_preds [simp]:
  "kept (record_log G k u l) = kept G" "committed n (record_log G k u l) = committed n G"
  "justified n (record_log G k u l) = justified n G"
  by (simp_all add: fun_eq_iff kept_def committed_def justified_def)

lemma record_log_grow [simp]: "grow k G (record_log G k u l)"
  by (auto simp: grow_def record_log_VL fun_eq_iff)

lemma record_log_ginv:
  assumes "ginv n H G" and "\<And>j t x. H j t = Some x \<Longrightarrow> H' j t = Some x"
  shows "ginv n H' (record_log G k u l)"
proof -
  have "elected_ok n H' (record_log G k u l) v" if "EL G v \<noteq> []" for v
    using ginv_elected(1) [OF assms(1) that] assms(2) that by (auto simp: elected_ok_def record_log_VL)
  then show ?thesis using assms(1) by (auto simp: ginv_def leader_log_ok_def)
qed

lemma open_terms:
  assumes "ginv n H G" and "lp (LL G) l" and "\<And>e. e \<in> set l \<Longrightarrow> leTerm e \<le> u" and "EL G u = []"
    and "0 < u" and "e \<in> set l"
  shows "leTerm e < u"
proof -
  obtain x where x: "x < length l" "e = l ! x" using assms(6) by (auto simp: in_set_conv_nth)
  have "take (Suc x) l = take (Suc x) (LL G (leTerm e))" using assms(2) x unfolding lp_def by blast
  then have "LL G (leTerm e) \<noteq> []" using x(1) by auto
  then have "leTerm e \<noteq> u" using assms(1,4,5) by (auto simp: ginv_def leader_log_ok_def)
  then show ?thesis using assms(3) [OF assms(6)] by simp
qed

lemma record_log_ninv:
  assumes G: "ginv n H G" and inv: "ninv n G k rf" and u: "0 < currentTerm rf"
  shows "ninv n (record_log G k (currentTerm rf) (log rf)) k rf"
proof -
  let ?G = "record_log G k (currentTerm rf) (log rf)"
  have "voted_ok ?G k (currentTerm rf)" if e: "EL G (currentTerm rf) = []"
  proof -
    have "kept G t x (log rf) (currentTerm rf)" if a: "x < Ack G k t" for t x
    proof -
      have "kept G t x (log rf) (currentTerm rf + 1)" using inv a by (simp add: ninv_def)
      then show ?thesis
        using e unfolding kept_def by (metis order.not_eq_order_implies_strict zle_add1_eq_le)
    qed
    moreover have "\<forall>e \<in> set (log rf). leTerm e < currentTerm rf"
      using open_terms [OF G _ _ e u] inv by (auto simp: ninv_def)
    ultimately show ?thesis using inv e by (simp add: voted_ok_def record_log_VL ninv_def)
  qed
  then have "u \<le> currentTerm rf \<and> voted_ok ?G k u" if "VL ?G k u \<noteq> []" for u
    using inv that by (cases "u = currentTerm rf") (auto simp: ninv_def voted_ok_def record_log_VL)
  moreover have "lead_ok n ?G k rf" if "state rf = leaderState"
    using inv that by (simp add: ninv_def lead_ok_def)
  ultimately show ?thesis using inv by (auto simp: ninv_def)
qed

text \<open>Peer \<open>k\<close> votes for another peer \<open>c\<close>.\<close>

lemma linv_vote:
  assumes inv: "linv ns ms H G" and k: "k < length ns" and c: "c < length ns" "c \<noteq> k"
    and nd: "node_ok (length ns) H k (ns ! k)" and vs: "vote_step (ns ! k) rf'"
    and vote: "vote_of rf' = Some (int c)" and nk: "ninv (length ns) G k rf'"
    and cs: "cand_stable G (ns ! k) rf'"
    and u: "0 < currentTerm rf'" "currentTerm rf' \<le> currentTerm (ns ! c)"
    and up: "currentTerm (ns ! c) = currentTerm rf' \<Longrightarrow> state (ns ! c) = candidateState \<Longrightarrow>
        EL G (currentTerm rf') = [] \<Longrightarrow> upto (log rf') (log (ns ! c))"
  shows "linv (ns[k := rf']) ms (record_vote H k rf') (record_log G k (currentTerm rf') (log rf'))"
proof -
  let ?u = "currentTerm rf'" and ?H = "record_vote H k rf'"
  let ?G = "record_log G k (currentTerm rf') (log rf')"
  note G = linv_parts(1) [OF inv k]
  have ext: "\<And>j t x. H j t = Some x \<Longrightarrow> ?H j t = Some x" by (rule record_vote_extends [OF nd vs])
  have h: "H k v = Some x \<and> v \<noteq> ?u" if "?H k v = Some x" "x \<noteq> int c" for v x
    using that vote by (auto simp: record_vote_def split: if_splits)
  have cs': "cand_stable ?G (ns ! k) rf'" using cs by (simp add: cand_stable_def)
  show ?thesis
  proof (rule linv_step [OF inv k record_log_grow record_log_ginv [OF G ext] record_log_ninv [OF G nk u(1)]])
    fix i assume i: "i < length ns"
    have ci: "cinv (length ns) H G i (ns ! i)" using inv i by (simp add: linv_def)
    show "cinv (length ns) ?H ?G i (ns[k := rf'] ! i)"
    proof (cases "i = c")
      case False
      show ?thesis
      proof (rule cinv_step [OF ci record_log_grow])
        show "cand_stable ?G (ns ! i) (ns[k := rf'] ! i)" using cs' k by (cases "i = k") auto
      qed (use h False in \<open>auto simp: record_log_VL\<close>)
    next
      case True
      have old: "H j v = Some (int c) \<and> VL ?G j v = VL G j v"
        if "?H j v = Some (int c)" "\<not> (j = k \<and> v = ?u)" for j v
        using that by (auto simp: record_vote_def record_log_VL split: if_splits)
      have "v \<le> currentTerm (ns ! c)" if "j < length ns" "?H j v = Some (int c)" for j v
        using old [OF that(2)] ci that(1) u(2) True by (auto simp: cinv_def)
      moreover have "VL ?G j (currentTerm (ns ! c)) \<noteq> [] \<and>
          upto (VL ?G j (currentTerm (ns ! c))) (log (ns ! c))"
        if j: "j < length ns" "?H j (currentTerm (ns ! c)) = Some (int c)"
          and st: "state (ns ! c) = candidateState" "EL G (currentTerm (ns ! c)) = []" for j
      proof (cases "j = k \<and> currentTerm (ns ! c) = ?u")
        case True
        moreover have "log rf' \<noteq> []" using nk by (simp add: ninv_def lp_def)
        ultimately show ?thesis using up st by (simp add: record_log_VL)
      next
        case False
        then show ?thesis using old [OF j(2)] ci \<open>i = c\<close> st j(1) by (auto simp: cinv_def)
      qed
      ultimately show ?thesis using True c(2) by (simp add: cinv_def)
    qed
  next
    fix m assume "m \<in> set ms"
    then have "minv ns G m" using inv by (simp add: linv_def)
    then show "minv (ns[k := rf']) ?G m"
      by (rule minv_step [OF G record_log_grow k]) (rule rvreq_step [OF _ record_log_grow cs'])
  qed
qed

text \<open>The election timer of peer \<open>k\<close> fires.\<close>

lemma term_nonneg: "node_inv rf \<Longrightarrow> ninv n G k rf \<Longrightarrow> 0 \<le> currentTerm rf"
  by (auto simp: node_inv_def ninv_def)

lemma ninv_candidate:
  assumes inv: "ninv n G k rf" and l: "log rf' = log rf" "commitIndex rf' = commitIndex rf"
    and t: "currentTerm rf' = currentTerm rf + 1" and c: "state rf' = candidateState"
  shows "ninv n G k rf'"
proof -
  have "ninv n G k (rf'\<lparr>votedFor := noPeer, state := followerState\<rparr>)"
    by (rule lquiet_ninv [OF inv]) (simp add: lquiet_def l t)
  moreover have "u < currentTerm rf'" if "EL G u \<noteq> []" "WL G u = k" for u
    using inv that t by (auto simp: ninv_def)
  ultimately show ?thesis using c by (fastforce simp: ninv_def)
qed

lemma linv_candidate:
  assumes inv: "linv ns ms H G" and k: "k < length ns"
    and nd: "node_ok (length ns) H k (ns ! k)" and vs: "vote_step (ns ! k) rf'"
    and vote: "vote_of rf' = Some (int k)"
    and l: "log rf' = log (ns ! k)" "commitIndex rf' = commitIndex (ns ! k)"
    and t: "currentTerm rf' = currentTerm (ns ! k) + 1" and c: "state rf' = candidateState"
    and old: "\<And>w j a. RVReq w k j a \<in> set ms \<Longrightarrow> rvTerm a \<le> currentTerm (ns ! k)"
  shows "linv (ns[k := rf']) ms (record_vote H k rf') (record_log G k (currentTerm rf') (log rf'))"
proof -
  let ?u = "currentTerm rf'" and ?H = "record_vote H k rf'"
  let ?G = "record_log G k (currentTerm rf') (log rf')"
  note G = linv_parts(1) [OF inv k] and nk0 = linv_parts(2) [OF inv k] and ck0 = linv_parts(3) [OF inv k]
  have "node_inv (ns ! k)" using nd by (simp add: node_ok_def)
  then have u: "0 < ?u" using term_nonneg [OF _ nk0] t by simp
  have nk: "ninv (length ns) G k rf'" by (rule ninv_candidate [OF nk0 l t c])
  have ext: "\<And>j t x. H j t = Some x \<Longrightarrow> ?H j t = Some x" by (rule record_vote_extends [OF nd vs])
  have h: "H j v = Some x \<or> j = k \<and> v = ?u \<and> x = int k" if "?H j v = Some x" for j v x
    using that vote by (auto simp: record_vote_def split: if_splits)
  show ?thesis
  proof (rule linv_step [OF inv k record_log_grow record_log_ginv [OF G ext] record_log_ninv [OF G nk u]])
    fix i assume i: "i < length ns"
    have ci: "cinv (length ns) H G i (ns ! i)" using inv i by (simp add: linv_def)
    show "cinv (length ns) ?H ?G i (ns[k := rf'] ! i)"
    proof (cases "i = k")
      case False
      have "H k v = Some (int i) \<and> v \<noteq> ?u" if "?H k v = Some (int i)" for v
        using that vote False by (auto simp: record_vote_def split: if_splits)
      then show ?thesis
        by (intro cinv_step [OF ci record_log_grow]) (use False in \<open>auto simp: record_log_VL\<close>)
    next
      case True
      have v: "v \<le> currentTerm (ns ! k) \<or> j = k \<and> v = ?u"
        if "j < length ns" "?H j v = Some (int k)" for j v
        using h [OF that(2)] ck0 that(1) by (auto simp: cinv_def)
      have "log rf' \<noteq> []" using nk by (simp add: ninv_def lp_def)
      then show ?thesis
        using v t k True by (fastforce simp: cinv_def record_log_VL upto_def)
    qed
  next
    fix m assume m: "m \<in> set ms"
    then have mi: "minv ns G m" using inv by (simp add: linv_def)
    show "minv (ns[k := rf']) ?G m"
    proof (rule minv_step [OF G record_log_grow k mi])
      fix a assume a: "rvreq_ok G a (ns ! k)" "\<exists>w j. m = RVReq w k j a"
      then have "rvTerm a \<noteq> ?u" using old m t by force
      then show "rvreq_ok ?G a rf'" using a(1) by (simp add: rvreq_ok_def)
    qed
  qed
qed

section \<open>Winning an election\<close>

definition elect :: "'c ghost \<Rightarrow> nat \<Rightarrow> int \<Rightarrow> 'c entries \<Rightarrow> nat set \<Rightarrow> 'c ghost" where
  "elect G k u l Q = G\<lparr>LL := (LL G)(u := l), EL := (EL G)(u := l), WL := (WL G)(u := k),
     EQ := (EQ G)(u := Q), Ack := (Ack G)(k := (Ack G k)(u := length l))\<rparr>"

lemma elect_grow:
  assumes "EL G u = []" and "LL G u = []"  and "\<And>j. Ack G j u = 0"
  shows "grow k G (elect G k u l Q)"
  using assms by (auto simp: grow_def elect_def)

lemma elect_ginv:
  assumes G: "ginv n H G" and e: "EL G u = []" "LL G u = []" "\<And>j. Ack G j u = 0" and u: "0 < u"
    and l: "lp (LL G) l" "\<And>e. e \<in> set l \<Longrightarrow> leTerm e \<le> u" and Q: "majority n Q"
    and v: "\<And>j. j \<in> Q \<Longrightarrow> H j u = Some (int k) \<and> VL G j u \<noteq> [] \<and> upto (VL G j u) l"
  shows "ginv n H (elect G k u l Q)"
proof -
  let ?G = "elect G k u l Q"
  have gr: "grow k G ?G" by (rule elect_grow [OF e])
  have "leTerm e < u" if "e \<in> set l" for e by (rule open_terms [OF G l e(1) u that])
  then have "elected_ok n H ?G u" using u Q v by (simp add: elected_ok_def elect_def)
  moreover have "elected_ok n H ?G t" if "t \<noteq> u" "EL G t \<noteq> []" for t
    using ginv_elected(1) [OF G that(2)] that(1) by (simp add: elected_ok_def elect_def)
  moreover have "leader_log_ok ?G u"
    using grow_lp [OF gr l(1)] l by (auto simp: leader_log_ok_def elect_def lp_def)
  moreover have "leader_log_ok ?G t" if "t \<noteq> u" "LL G t \<noteq> []" for t
  proof -
    have o: "leader_log_ok G t" using G that(2) by (simp add: ginv_def)
    have "lp (LL ?G) (LL G t)" by (rule grow_lp [OF gr]) (use o in \<open>simp add: leader_log_ok_def\<close>)
    moreover have "LL ?G t = LL G t" "EL ?G t = EL G t" using that(1) by (simp_all add: elect_def)
    ultimately show ?thesis using o by (simp add: leader_log_ok_def)
  qed
  moreover have "Ack ?G j t \<le> length (LL ?G t)" for j t
    using G e(3) by (auto simp: elect_def ginv_def)
  moreover have "EL G t \<noteq> []" "LL G t \<noteq> []" if "t \<noteq> u" "EL ?G t \<noteq> [] \<or> LL ?G t \<noteq> []" "EL ?G t \<noteq> []" for t
    using that ginv_elected(4) [OF G] by (auto simp: elect_def)
  moreover have "LL G t \<noteq> []" if "t \<noteq> u" "LL ?G t \<noteq> []" for t using that by (simp add: elect_def)
  ultimately show ?thesis unfolding ginv_def by metis
qed

lemma kept_prefix: "kept G t x l u \<Longrightarrow> prefix l l' \<Longrightarrow> kept G t x l' u"
  by (auto simp: kept_def intro: prefix_order.trans)

lemma justified_prefix:
  assumes "ginv n H G" and "justified n G u c l" and "prefix l l'"
  shows "justified n G u c l'"
proof (cases "c = 0")
  case False
  then obtain t x where t: "committed n G t x" "c \<le> x" "t \<le> u" "take (Suc c) l = take (Suc c) (LL G t)"
    using assms(2) by (auto simp: justified_def)
  have "c < length (LL G t)" using committed_in(1) [OF assms(1) t(1)] t(2) by simp
  then have "c < length l" using arg_cong [OF t(4), of length] by simp
  then show ?thesis using t take_grow [OF _ assms(3)] by (auto simp: justified_def)
qed (simp add: justified_def)

text \<open>A leader whose log has become the log of its term.\<close>

lemma leader_ninv:
  assumes G: "ginv n H G" and inv: "ninv n G k rf" and gr: "grow k G G'" and G': "ginv n H G'"
    and f: "currentTerm rf' = currentTerm rf" "commitIndex rf' = commitIndex rf" "state rf' = leaderState"
    and l: "lp (LL G') (log rf')" "\<forall>e \<in> set (log rf'). leTerm e \<le> currentTerm rf" "prefix (log rf) (log rf')"
    and lead: "lead_ok n G' k rf'" and vl: "VL G' = VL G"
    and same: "\<And>t. t \<noteq> currentTerm rf \<Longrightarrow> Ack G' k t = Ack G k t \<and> EL G' t = EL G t \<and> WL G' t = WL G t"
  shows "ninv n G' k rf'"
proof -
  let ?u = "currentTerm rf"
  have len: "x < length (LL G t)" if "x < Ack G k t" for t x
    using G that by (auto simp: ginv_def intro: less_le_trans)
  have "t \<le> ?u \<and> kept G' t x (log rf') (?u + 1)" if "x < Ack G' k t" for t x
  proof (cases "t = ?u")
    case True
    then show ?thesis using lead f(1) by (simp add: kept_def lead_ok_def take_is_prefix)
  next
    case False
    then have a: "x < Ack G k t" using that same by simp
    then have "t \<le> ?u" "kept G t x (log rf) (?u + 1)" using inv by (auto simp: ninv_def)
    then show ?thesis using grow_kept [OF gr len [OF a]] kept_prefix [OF _ l(3)] by blast
  qed
  moreover have "justified n G ?u (nat (commitIndex rf)) (log rf)" using inv by (simp add: ninv_def)
  then have "justified n G' ?u (nat (commitIndex rf)) (log rf')"
    using grow_justified [OF G gr] justified_prefix [OF G' _ l(3)] by blast
  moreover have "u \<le> ?u" if "EL G' u \<noteq> []" "WL G' u = k" for u
    using inv same that by (cases "u = ?u") (auto simp: ninv_def)
  moreover have "u \<le> ?u \<and> voted_ok G' k u" if v: "VL G' k u \<noteq> []" for u
  proof -
    have o: "u \<le> ?u" "voted_ok G k u" using inv v vl by (auto simp: ninv_def)
    have "voted_ok G' k u"
      by (rule grow_voted [OF G gr _ _ o(2)]) (use o(1) same vl in auto)
    then show ?thesis using o(1) by simp
  qed
  ultimately show ?thesis using inv f l(1,2) lead by (simp add: ninv_def)
qed

lemma open_election:
  assumes "ginv n H G" and "EL G u = []" and "0 < u"
  shows "LL G u = []" and "Ack G j u = 0"
proof -
  show l: "LL G u = []" using assms by (auto simp: ginv_def leader_log_ok_def)
  have "Ack G j u \<le> length (LL G u)" using assms(1) by (simp add: ginv_def)
  then show "Ack G j u = 0" using l by simp
qed

text \<open>A candidate with a majority of votes is the first leader of its term.\<close>

lemma winner_is_first:
  assumes G: "ginv n H G" and "ninv n G k rf" and "state rf = candidateState"
    and Q: "majority n Q" "\<And>j. j \<in> Q \<Longrightarrow> H j (currentTerm rf) = Some (int k)"
  shows "EL G (currentTerm rf) = []"
proof (rule ccontr)
  assume e: "EL G (currentTerm rf) \<noteq> []"
  have "elected_ok n H G (currentTerm rf)" by (rule ginv_elected(1) [OF G e])
  then have "majority n (EQ G (currentTerm rf))"
    "\<And>j. j \<in> EQ G (currentTerm rf) \<Longrightarrow> H j (currentTerm rf) = Some (int (WL G (currentTerm rf)))"
    by (auto simp: elected_ok_def)
  from maj.quorum_choice_unique [OF Q(1) this(1) Q(2) this(2)]
  have "WL G (currentTerm rf) = k" by simp
  then show False using assms(2,3) e by (auto simp: ninv_def)
qed

lemma linv_elected:
  assumes inv: "linv ns ms H G" and k: "k < length ns" and ni: "node_inv (ns ! k)"
    and c: "state (ns ! k) = candidateState" and pos: "0 < currentTerm (ns ! k)"
    and Q: "majority (length ns) Q" "\<And>j. j \<in> Q \<Longrightarrow> H j (currentTerm (ns ! k)) = Some (int k)"
    and f: "currentTerm rf' = currentTerm (ns ! k)" "log rf' = log (ns ! k)"
      "commitIndex rf' = commitIndex (ns ! k)" "state rf' = leaderState"
      "\<And>j. j < length ns \<Longrightarrow> matchIndex rf' ! j = 0"
  shows "linv (ns[k := rf']) ms H (elect G k (currentTerm (ns ! k)) (log (ns ! k)) Q)"
proof -
  let ?u = "currentTerm (ns ! k)" and ?G = "elect G k (currentTerm (ns ! k)) (log (ns ! k)) Q"
  note G = linv_parts(1) [OF inv k] and nk = linv_parts(2) [OF inv k] and ck = linv_parts(3) [OF inv k]
  have e: "EL G ?u = []" by (rule winner_is_first [OF G nk c Q])
  note op = open_election [OF G e pos]
  have v: "H j ?u = Some (int k) \<and> VL G j ?u \<noteq> [] \<and> upto (VL G j ?u) (log (ns ! k))" if j: "j \<in> Q" for j
  proof -
    have "j < length ns" using Q(1) j by (auto simp: majority_def)
    then show ?thesis using Q(2) [OF j] ck c e by (simp add: cinv_def)
  qed
  show ?thesis
  proof (rule linv_plain [OF inv k])
    show gr: "grow k G ?G" by (rule elect_grow [OF e op])
    show "cand_stable ?G (ns ! k) rf'" using f by (simp add: cand_stable_def)
    show G': "ginv (length ns) H ?G"
      by (rule elect_ginv [OF G e op pos _ _ Q(1) v]) (use nk in \<open>auto simp: ninv_def\<close>)
    have "lp (LL ?G) (log rf')" using nk grow_lp [OF gr] f(2) by (simp add: ninv_def)
    then show "ninv (length ns) ?G k rf'"
      by (rule leader_ninv [OF G nk gr G' f(1,3,4)])
         (use nk f in \<open>auto simp: ninv_def lead_ok_def elect_def lp_def\<close>)
  qed (simp add: elect_def)
qed

section \<open>A new entry at the leader\<close>

definition extend :: "'c ghost \<Rightarrow> nat \<Rightarrow> int \<Rightarrow> 'c entries \<Rightarrow> 'c ghost" where
  "extend G k u l = G\<lparr>LL := (LL G)(u := l), Ack := (Ack G)(k := (Ack G k)(u := length l))\<rparr>"

lemma extend_grow:
  assumes "WL G u = k" and "prefix (LL G u) l" and "Ack G k u \<le> length l"
  shows "grow k G (extend G k u l)"
  using assms by (auto simp: grow_def extend_def)

lemma linv_client:
  assumes inv: "linv ns ms H G" and k: "k < length ns" and lead: "state (ns ! k) = leaderState"
    and f: "currentTerm rf' = currentTerm (ns ! k)"
      "log rf' = log (ns ! k) @ [\<lparr>leCommand = cmd, leTerm = currentTerm (ns ! k)\<rparr>]"
      "commitIndex rf' = commitIndex (ns ! k)" "state rf' = leaderState"
      "matchIndex rf' = matchIndex (ns ! k)"
  shows "linv (ns[k := rf']) ms H (extend G k (currentTerm rf') (log rf'))"
proof -
  let ?u = "currentTerm rf'" and ?l = "log (ns ! k)" and ?G = "extend G k (currentTerm rf') (log rf')"
  note G = linv_parts(1) [OF inv k] and nk = linv_parts(2) [OF inv k]
  have ld: "EL G ?u \<noteq> []" "WL G ?u = k" "LL G ?u = ?l" "Ack G k ?u = length ?l"
    using nk lead f(1) by (auto simp: ninv_def lead_ok_def)
  have gr: "grow k G ?G" by (rule extend_grow) (use ld f in auto)
  have lpl: "lp (LL ?G) (log rf')"
    unfolding f(2)
    by (rule lp_snoc) (use nk grow_lp [OF gr] f in \<open>auto simp: ninv_def extend_def\<close>)
  have tm: "\<forall>e \<in> set (log rf'). leTerm e \<le> ?u" using nk f by (auto simp: ninv_def)
  have pre: "prefix (EL G ?u) (log rf')"
    using ginv_elected(1) [OF G ld(1)] ld(3) f(2) by (auto simp: elected_ok_def prefix_def)
  show ?thesis
  proof (rule linv_plain [OF inv k gr])
    show "cand_stable ?G (ns ! k) rf'" using f by (simp add: cand_stable_def)
    have "elected_ok (length ns) H ?G t" if "EL G t \<noteq> []" for t
      using ginv_elected(1) [OF G that] pre by (auto simp: elected_ok_def extend_def)
    moreover have "leader_log_ok ?G t" if t: "LL ?G t \<noteq> []" for t
    proof (cases "t = ?u")
      case True
      then show ?thesis using lpl tm ld(1) by (simp add: leader_log_ok_def extend_def)
    next
      case False
      then have l: "LL ?G t = LL G t" "EL ?G t = EL G t" by (simp_all add: extend_def)
      then have "leader_log_ok G t" using G t by (simp add: ginv_def)
      then show ?thesis using grow_lp [OF gr] l by (simp add: leader_log_ok_def)
    qed
    moreover have "Ack ?G j t \<le> length (LL ?G t)" for j t
    proof -
      have "Ack G j t \<le> length (LL G t)" using G by (simp add: ginv_def)
      then show ?thesis using ld(3) f(2) by (auto simp: extend_def)
    qed
    moreover have "EL ?G = EL G" by (simp add: extend_def)
    ultimately show G': "ginv (length ns) H ?G" by (simp add: ginv_def)
    have "nat (matchIndex rf' ! j) < Ack ?G j ?u" if "j < length ns" "0 < matchIndex rf' ! j" for j
    proof (rule grow_aerep [OF gr])
      show "nat (matchIndex rf' ! j) < Ack G j ?u"
        using nk lead that f(1,5) by (simp add: ninv_def lead_ok_def)
    qed
    then have "lead_ok (length ns) ?G k rf'" using ld by (simp add: lead_ok_def extend_def)
    then show "ninv (length ns) ?G k rf'"
      by (intro leader_ninv [OF G nk gr G' f(1,3,4) lpl])
         (use tm f in \<open>auto simp: extend_def\<close>)
  qed (simp add: extend_def)
qed

end
