(* ===== verification/RaftLogAccept.thy ===== *)
theory RaftLogAccept
  imports RaftLogSteps RaftCommit
begin

text \<open>
  The invariant of \<open>RaftLog\<close> when a follower accepts the entries of an \<open>AppendEntries\<close> request and when
  the leader learns of it.
\<close>

section \<open>Accepting entries\<close>

definition acked :: "'c ghost \<Rightarrow> nat \<Rightarrow> int \<Rightarrow> nat \<Rightarrow> 'c ghost" where
  "acked G k u x = G\<lparr>Ack := (Ack G)(k := (Ack G k)(u := max (Ack G k u) x))\<rparr>"

lemma acked_fields [simp]:
  "LL (acked G k u x) = LL G" "EL (acked G k u x) = EL G" "WL (acked G k u x) = WL G"
  "EQ (acked G k u x) = EQ G" "VL (acked G k u x) = VL G" "kept (acked G k u x) = kept G"
  by (simp_all add: acked_def kept_def fun_eq_iff)

lemma acked_grow [simp]: "grow k G (acked G k u x)"
  by (simp add: grow_def) (simp add: acked_def)

lemma acked_ginv:
  assumes "ginv n H G" and "x \<le> length (LL G u)"
  shows "ginv n H (acked G k u x)"
proof -
  have "Ack (acked G k u x) j t \<le> length (LL G t)" for j t
    using assms by (auto simp: acked_def ginv_def)
  then show ?thesis using assms(1) by (auto simp: ginv_def elected_ok_def leader_log_ok_def)
qed

text \<open>The request fits the log at \<open>PrevLogIndex\<close>, so both have the same entries up to there.\<close>

lemma fits:
  assumes G: "ginv n H G" and b: "aereq_ok n G i b" and l: "lp (LL G) l"
    and prev: "aePrevLogIndex b < go_len l" "leTerm (l ! nat (aePrevLogIndex b)) = aePrevLogTerm b"
  shows "take (nat (aePrevLogIndex b) + 1) l = take (nat (aePrevLogIndex b) + 1) (LL G (aeTerm b))"
    and "nat (aePrevLogIndex b) + 1 \<le> length l"
    and "prefix (aeEntries b) (drop (nat (aePrevLogIndex b) + 1) (LL G (aeTerm b)))"
    and "nat (aePrevLogIndex b) + 1 + length (aeEntries b) \<le> length (LL G (aeTerm b))"
proof -
  have x: "nat (aePrevLogIndex b) < length l" "nat (aePrevLogIndex b) < length (LL G (aeTerm b))"
    "0 \<le> aePrevLogIndex b" "EL G (aeTerm b) \<noteq> []"
    using b prev(1) by (auto simp: aereq_ok_def)
  then have "lp (LL G) (LL G (aeTerm b))"
    using ginv_elected(2) [OF G x(4)] by (simp add: leader_log_ok_def)
  from lp_matching [OF l this x(1,2)]
  show "take (nat (aePrevLogIndex b) + 1) l = take (nat (aePrevLogIndex b) + 1) (LL G (aeTerm b))"
    using b prev(2) by (simp add: aereq_ok_def)
  show "nat (aePrevLogIndex b) + 1 \<le> length l" using x by simp
  show es: "prefix (aeEntries b) (drop (nat (aePrevLogIndex b) + 1) (LL G (aeTerm b)))"
    using b by (simp add: aereq_ok_def)
  show "nat (aePrevLogIndex b) + 1 + length (aeEntries b) \<le> length (LL G (aeTerm b))"
    using prefix_length_le [OF es] x(2) by simp
qed

lemma merge_kept:
  assumes G: "ginv n H G" and s: "EL G s \<noteq> []" and t: "t \<le> s" and k: "kept G t x l u" "u \<le> s + 1"
    and m: "take p l = take p (LL G s)" "p \<le> length l" "prefix es (drop p (LL G s))"
  shows "kept G t x (mergeLog p l es) (s + 1)"
proof (cases "prefix (pre G t x) l")
  case True
  show ?thesis
  proof (cases "t = s \<or> prefix (pre G t x) (EL G s)")
    case has: True
    have "prefix (EL G s) (LL G s)" using ginv_elected(1) [OF G s] by (simp add: elected_ok_def)
    then have "prefix (pre G t x) (LL G s)"
      using has take_is_prefix prefix_order.trans by blast
    from merge_keeps [OF True this m] show ?thesis by (simp add: kept_def)
  next
    case False
    then have "t < s" "\<not> prefix (pre G t x) (EL G s)" using t by auto
    then show ?thesis unfolding kept_def using s by (intro disjI2 exI [of _ s]) simp
  qed
next
  case False
  then obtain v where "t < v" "v < u" "EL G v \<noteq> []" "\<not> prefix (pre G t x) (EL G v)"
    using k(1) by (auto simp: kept_def)
  then show ?thesis using k(2) unfolding kept_def by (meson less_le_trans)
qed

lemma merge_justified:
  assumes G: "ginv n H G" and V: "\<And>i u. i < n \<Longrightarrow> VL G i u \<noteq> [] \<Longrightarrow> voted_ok G i u"
    and s: "EL G s \<noteq> []" "u \<le> s" and j: "justified n G u c l"
    and m: "take p l = take p (LL G s)" "p \<le> length l" "prefix es (drop p (LL G s))"
  shows "justified n G s c (mergeLog p l es)"
proof (cases "c = 0")
  case False
  then obtain t x where t: "committed n G t x" "c \<le> x" "t \<le> u" "take (Suc c) l = take (Suc c) (LL G t)"
    using j by (auto simp: justified_def)
  let ?P = "take (Suc c) (LL G t)"
  have len: "length ?P = Suc c" using committed_in(1) [OF G t(1)] t(2) by simp
  have "prefix (pre G t x) (LL G s)" using leader_has [OF G V t(1) _ s(1)] t(3) s(2) by simp
  then have "prefix ?P (LL G s)"
    using t(2) take_is_prefix [of "Suc c" "pre G t x"] prefix_order.trans by (fastforce simp: min_absorb1)
  moreover have "prefix ?P l" using t(4) take_is_prefix by metis
  ultimately have "prefix ?P (mergeLog p l es)" using merge_keeps m by blast
  then have "take (Suc c) (mergeLog p l es) = ?P" using len by (auto simp: prefix_def)
  then show ?thesis
    unfolding justified_def using t s(2) by (intro disjI2 exI [of _ t] exI [of _ x]) simp
qed (simp add: justified_def)

lemma justified_cut:
  assumes "justified n G u c l" and "c' \<le> c" and "take (Suc c') l' = take (Suc c') l"
  shows "justified n G u c' l'"
proof (cases "c' = 0")
  case False
  then obtain t x where t: "committed n G t x" "c \<le> x" "t \<le> u" "take (Suc c) l = take (Suc c) (LL G t)"
    using assms(1,2) by (auto simp: justified_def)
  have "take (Suc c') l = take (Suc c') (LL G t)"
    using arg_cong [OF t(4), of "take (Suc c')"] assms(2) by (simp add: min_absorb1)
  then show ?thesis using t assms(2,3) by (fastforce simp: justified_def)
qed (simp add: justified_def)

lemma accept_ninv:
  assumes G: "ginv n H G" and V: "\<And>i u. i < n \<Longrightarrow> VL G i u \<noteq> [] \<Longrightarrow> voted_ok G i u"
    and inv: "ninv n G k rf" and b: "aereq_ok n G i b" and ik: "i \<noteq> k"
    and prev: "aePrevLogIndex b < go_len (log rf)"
      "leTerm (log rf ! nat (aePrevLogIndex b)) = aePrevLogTerm b"
    and f: "currentTerm rf \<le> aeTerm b" "currentTerm rf' = aeTerm b"
      "log rf' = mergeLog (nat (aePrevLogIndex b) + 1) (log rf) (aeEntries b)"
      "state rf' = leaderState \<Longrightarrow> state rf = leaderState \<and> aeTerm b = currentTerm rf"
    and ci: "commitIndex rf' = commitIndex rf \<or> aeLeaderCommit b > commitIndex rf \<and>
      commitIndex rf' = Min (aeLeaderCommit b) (aePrevLogIndex b + go_len (aeEntries b))"
  shows "ninv n (acked G k (aeTerm b) (nat (aePrevLogIndex b) + 1 + length (aeEntries b))) k rf'"
proof -
  let ?s = "aeTerm b" and ?p = "nat (aePrevLogIndex b) + 1" and ?es = "aeEntries b" and ?l = "log rf"
  let ?G = "acked G k ?s (?p + length ?es)"
  have lpl: "lp (LL G) ?l" and s: "EL G ?s \<noteq> []" "WL G ?s = i" "0 \<le> aePrevLogIndex b"
    using inv b by (auto simp: ninv_def aereq_ok_def)
  note m = fits [OF G b lpl prev]
  have L: "lp (LL G) (LL G ?s)" "\<forall>e \<in> set (LL G ?s). leTerm e \<le> ?s"
    using ginv_elected(2) [OF G s(1)] by (auto simp: leader_log_ok_def)
  have lp': "lp (LL G) (log rf')"
    using merge_cases [OF m(1-3)] lpl lp_prefix [OF L(1) take_is_prefix, of "?p + length ?es"]
      ginv_elected(4) [OF G s(1)] by (auto simp: f(3))
  have tm: "\<forall>e \<in> set (log rf'). leTerm e \<le> ?s"
    using merge_cases [OF m(1-3)] inv f(1) L(2)
    by (auto simp: f(3) ninv_def dest!: in_set_takeD intro: order_trans)
  have nl: "state rf' \<noteq> leaderState"
    using f(4) inv s(2) ik by (auto simp: ninv_def lead_ok_def)
  have acks: "t \<le> ?s \<and> kept G t x (log rf') (?s + 1)" if "x < Ack ?G k t" for t x
  proof (cases "x < Ack G k t")
    case True
    then have "t \<le> currentTerm rf" "kept G t x ?l (currentTerm rf + 1)" using inv by (simp_all add: ninv_def)
    then show ?thesis using merge_kept [OF G s(1) _ _ _ m(1-3)] f(1) by (fastforce simp: f(3))
  next
    case False
    then have x: "t = ?s" "x < ?p + length ?es" using that by (auto simp: acked_def split: if_splits)
    have "take (Suc x) (log rf') = take (Suc x) (LL G ?s)"
      using arg_cong [OF merge_has [OF m(1-3)], of "take (Suc x)"] x(2) by (simp add: f(3) min_absorb1)
    then show ?thesis using x(1) by (metis kept_def order_refl take_is_prefix)
  qed
  have c0: "0 \<le> commitIndex rf" "justified n G (currentTerm rf) (nat (commitIndex rf)) ?l"
    using inv by (auto simp: ninv_def)
  have com: "0 \<le> commitIndex rf' \<and> justified n G ?s (nat (commitIndex rf')) (log rf')"
  proof (cases "commitIndex rf' = commitIndex rf")
    case True
    then show ?thesis using c0 merge_justified [OF G V s(1) f(1) _ m(1-3)] by (simp add: f(3))
  next
    case False
    then have c: "aeLeaderCommit b > commitIndex rf"
      "commitIndex rf' = Min (aeLeaderCommit b) (aePrevLogIndex b + go_len ?es)" using ci by auto
    then have n: "0 \<le> commitIndex rf'" "nat (commitIndex rf') \<le> nat (aeLeaderCommit b)"
      "Suc (nat (commitIndex rf')) \<le> ?p + length ?es"
      using c0(1) s(3) by (auto simp: Min_def)
    have "take (Suc (nat (commitIndex rf'))) (log rf') = take (Suc (nat (commitIndex rf'))) (LL G ?s)"
      using arg_cong [OF merge_has [OF m(1-3)], of "take (Suc (nat (commitIndex rf')))"] n(3)
      by (simp add: f(3) min_absorb1)
    moreover have "justified n G ?s (nat (aeLeaderCommit b)) (LL G ?s)" using b by (simp add: aereq_ok_def)
    ultimately show ?thesis using justified_cut n(1,2) by blast
  qed
  have "u \<le> ?s \<and> (u = ?s \<longrightarrow> state rf' \<noteq> candidateState)" if "EL G u \<noteq> []" "WL G u = k" for u
    using inv that s(2) ik f(1) by (auto simp: ninv_def)
  moreover have "u \<le> ?s \<and> voted_ok ?G k u" if v: "VL G k u \<noteq> []" for u
  proof -
    have o: "u \<le> currentTerm rf" "voted_ok G k u" using inv v by (auto simp: ninv_def)
    have "voted_ok ?G k u"
      by (rule grow_voted [OF G acked_grow _ _ o(2)]) (use o(1) f(1) in \<open>auto simp: acked_def\<close>)
    then show ?thesis using o(1) f(1) by simp
  qed
  moreover have "justified n ?G ?s (nat (commitIndex rf')) (log rf')"
    using com grow_justified [OF G acked_grow] by blast
  ultimately show ?thesis using lp' tm nl acks com f(2) by (simp add: ninv_def)
qed

lemma linv_accept:
  assumes inv: "linv ns ms H G" and k: "k < length ns"
    and b: "aereq_ok (length ns) G i b" and ik: "i \<noteq> k"
    and prev: "aePrevLogIndex b < go_len (log (ns ! k))"
      "leTerm (log (ns ! k) ! nat (aePrevLogIndex b)) = aePrevLogTerm b"
    and f: "currentTerm (ns ! k) \<le> aeTerm b" "currentTerm rf' = aeTerm b"
      "log rf' = mergeLog (nat (aePrevLogIndex b) + 1) (log (ns ! k)) (aeEntries b)"
      "state rf' = leaderState \<Longrightarrow> state (ns ! k) = leaderState \<and> aeTerm b = currentTerm (ns ! k)"
    and ci: "commitIndex rf' = commitIndex (ns ! k) \<or> aeLeaderCommit b > commitIndex (ns ! k) \<and>
      commitIndex rf' = Min (aeLeaderCommit b) (aePrevLogIndex b + go_len (aeEntries b))"
  shows "linv (ns[k := rf']) ms H
           (acked G k (aeTerm b) (nat (aePrevLogIndex b) + 1 + length (aeEntries b)))"
proof -
  note G = linv_parts(1) [OF inv k] and nk = linv_parts(2) [OF inv k]
  have "lp (LL G) (log (ns ! k))" using nk by (simp add: ninv_def)
  note m = fits [OF G b this prev]
  show ?thesis
  proof (rule linv_plain [OF inv k acked_grow])
    have "EL G (aeTerm b) \<noteq> []" using b by (simp add: aereq_ok_def)
    then show "cand_stable (acked G k (aeTerm b) (nat (aePrevLogIndex b) + 1 + length (aeEntries b)))
        (ns ! k) rf'" using f by (simp add: cand_stable_def)
  qed (use acked_ginv [OF G m(4)] accept_ninv [OF G log_inv_voted [OF inv] nk b ik prev f ci] in auto)
qed

section \<open>An acknowledged request\<close>

lemma committable_committed:
  assumes inv: "ninv n G k rf" and lead: "state rf = leaderState" and n: "2 \<le> n"
    and nd: "peers rf = n" "me rf = int k" and c0: "0 \<le> commitIndex rf" and c: "committable rf N"
  shows "committed n G (currentTerm rf) (nat N)"
proof -
  have N: "0 < N" "N < go_len (log rf)" "majority n (holders rf N)"
    using c c0 nd by (auto simp: committable_def)
  have ld: "LL G (currentTerm rf) = log rf" "Ack G k (currentTerm rf) = length (log rf)"
    "\<And>j. j < n \<Longrightarrow> 0 < matchIndex rf ! j \<Longrightarrow> nat (matchIndex rf ! j) < Ack G j (currentTerm rf)"
    using inv lead by (auto simp: ninv_def lead_ok_def)
  have "holders rf N \<subseteq> {j. j < n \<and> nat N < Ack G j (currentTerm rf)}"
  proof
    fix j assume "j \<in> holders rf N"
    then have j: "j < n" "j = k \<or> N \<le> matchIndex rf ! j" using nd by (auto simp: holders_def)
    have "nat N < Ack G j (currentTerm rf)" if "N \<le> matchIndex rf ! j"
      using ld(3) [OF j(1)] that N(1) by simp
    moreover have "nat N < Ack G k (currentTerm rf)" using ld(2) N by simp
    ultimately show "j \<in> {j. j < n \<and> nat N < Ack G j (currentTerm rf)}" using j by auto
  qed
  then have "card (holders rf N) \<le> card {j. j < n \<and> nat N < Ack G j (currentTerm rf)}"
    by (intro card_mono) auto
  then have "majority n {j. j < n \<and> nat N < Ack G j (currentTerm rf)}"
    using N(3) by (auto simp: majority_def)
  moreover have "leTerm (log rf ! nat N) = currentTerm rf"
    using committable_own_term [OF c] n nd by simp
  ultimately show ?thesis using ld(1) by (simp add: committed_def)
qed

lemma reply_ninv:
  assumes inv: "ninv n G k rf" and lead: "state rf = leaderState" and n: "2 \<le> n"
    and nd: "peers rf = n" "me rf = int k" "length (matchIndex rf) = n"
    and y: "0 \<le> y" "nat y < Ack G j (currentTerm rf)"
    and tc: "tryCommit (rf\<lparr>nextIndex := ni, matchIndex := (matchIndex rf)[j := y]\<rparr>) = Some rf'"
  shows "ninv n G k rf'" and "\<exists>ci. rf' = rf\<lparr>nextIndex := ni, matchIndex := (matchIndex rf)[j := y], commitIndex := ci\<rparr>"
proof -
  let ?rf = "rf\<lparr>nextIndex := ni, matchIndex := (matchIndex rf)[j := y]\<rparr>"
  have c0: "0 \<le> commitIndex rf" and ld: "lead_ok n G k rf" using inv lead by (auto simp: ninv_def)
  have "nat ((matchIndex rf)[j := y] ! i) < Ack G i (currentTerm rf)"
    if "i < n" "0 < (matchIndex rf)[j := y] ! i" for i
    using ld y nd(3) that by (cases "i = j") (auto simp: lead_ok_def)
  then have "lead_ok n G k ?rf" using ld by (simp add: lead_ok_def)
  then have inv2: "ninv n G k ?rf" using inv by (simp add: ninv_def)
  obtain ci where ci: "rf' = ?rf\<lparr>commitIndex := ci\<rparr>" "ci = commitIndex rf \<or> committable ?rf ci"
    using tryCommitFrom_spec [of ?rf "go_len (log ?rf) - 1"] tc nd(1,3) c0 by (auto simp: tryCommit_def)
  then show "\<exists>ci. rf' = rf\<lparr>nextIndex := ni, matchIndex := (matchIndex rf)[j := y], commitIndex := ci\<rparr>" by auto
  have LL: "LL G (currentTerm rf) = log rf" using ld by (simp add: lead_ok_def)
  have "0 \<le> ci \<and> justified n G (currentTerm rf) (nat ci) (log rf)"
  proof (cases "ci = commitIndex rf")
    case True
    then show ?thesis using inv by (simp add: ninv_def)
  next
    case False
    then have c: "committable ?rf ci" using ci(2) by simp
    then have "0 \<le> ci" using c0 by (simp add: committable_def)
    moreover have "committed n G (currentTerm rf) (nat ci)"
      using committable_committed [OF inv2 _ n _ _ _ c] lead nd c0 by simp
    ultimately show ?thesis
      using LL unfolding justified_def
      by (intro conjI disjI2 exI [of _ "currentTerm rf"] exI [of _ "nat ci"]) simp_all
  qed
  then show "ninv n G k rf'"
    using inv2 by (simp add: ci(1) ninv_def lead_ok_def)
qed

end
