(* ===== verification/RaftSafety.thy ===== *)
theory RaftSafety
  imports RaftLogAccept
begin

text \<open>
  Safety of replicated logs in a cluster whose replies are delivered in the term of their request and whose
  requests carry the entries they were made with (theory \<open>RaftAlias\<close> drops the latter):
  every action keeps the invariant of \<open>RaftLog\<close>, and with it log matching, the completeness of leaders
  and the agreement of all peers on committed entries, across crashes, restarts and elections.
\<close>

section \<open>Delivery of replies\<close>

text \<open>
  Replies are handed to a peer only while it is in the term in which it sent the request: the
  check \<open>args.Term == rf.currentTerm\<close>, which neither of the reply handlers makes.
\<close>

fun fresh_replies :: "'c cluster \<Rightarrow> 'c action \<Rightarrow> bool" where
  "fresh_replies s (Deliver (RVRep i j a r) now c1 c2) = (rvTerm a = currentTerm (nodes s ! i))"
| "fresh_replies s (Deliver (AERep i j b r') now c1 c2) = (aeTerm b = currentTerm (nodes s ! i))"
| "fresh_replies s a = True"

lemma fresh_replies_votes: "fresh_replies s a \<Longrightarrow> fresh_votes s a"
  by (cases "(s, a)" rule: fresh_votes.cases) auto

section \<open>Every action keeps the invariant\<close>

definition evolves :: "'c ghost \<Rightarrow> 'c ghost \<Rightarrow> bool" where
  "evolves G G' \<longleftrightarrow> (\<exists>k. grow k G G')"

lemma evolvesI [intro]: "grow k G G' \<Longrightarrow> evolves G G'"
  by (auto simp: evolves_def)

lemma vinv_node_ok: "vinv ns ms H C \<Longrightarrow> k < length ns \<Longrightarrow> node_ok (length ns) H k (ns ! k)"
  by (simp add: vinv_def)

lemma remove_net:
  assumes "linv ns ms H G" and "\<And>m. m \<in> set new \<Longrightarrow> minv ns G m"
  shows "linv ns (remove1 x ms @ new) H G"
  by (rule linv_net [OF assms(1)]) (use assms(2) in \<open>auto dest: set_remove1_in\<close>)

lemma quiet_case:
  assumes v: "vinv ns ms H C" and inv: "linv ns ms H G" and k: "k < length ns"
    and q: "lquiet (ns ! k) rf'" and new: "\<And>m. m \<in> set new \<Longrightarrow> minv (ns[k := rf']) G m"
    and old: "set ms' \<subseteq> set ms \<union> set new"
  shows "\<exists>G'. evolves G G' \<and> linv (ns[k := rf']) ms' (record_vote H k rf') G'"
proof -
  have "record_vote H k rf' = H" by (rule lquiet_record [OF vinv_node_ok [OF v k] q])
  moreover have "linv (ns[k := rf']) ms' H G"
    by (rule linv_net [OF linv_quiet [OF inv k q]]) (use new old in auto)
  ultimately show ?thesis using evolvesI [OF grow_refl] by auto
qed

lemma ninv_same:
  assumes "ninv n G k rf" and "log rf' = log rf" and "currentTerm rf' = currentTerm rf"
    and "state rf' = state rf" and "matchIndex rf' = matchIndex rf" and "commitIndex rf' = commitIndex rf"
  shows "ninv n G k rf'"
  using assms by (simp add: ninv_def lead_ok_def)

lemma Timeout_case:
  assumes v: "vinv ns ms H C" and inv: "linv ns ms H G" and k: "k < length ns"
    and ex: "electionTimoutRoutine now c (ns ! k) = Some (rf', rvs)"
  shows "\<exists>G'. evolves G G' \<and> linv (ns[k := rf']) (ms @ sendRequestVote k rvs) (record_vote H k rf') G'"
  using ex
proof (cases rule: electionTimout_cases)
  case idle
  then show ?thesis by (intro quiet_case [OF v inv k, of _ "[]"]) (auto simp: sendRequestVote_def)
next
  case fired
  note nd = vinv_node_ok [OF v k]
  have st: "vote_step (ns ! k) rf'" "node_inv rf'"
    using timeout_step [OF ex] nd by (auto simp: node_ok_def)
  have me: "vote_of rf' = Some (int k)" using nd fired by (auto simp: node_ok_def vote_of_def noPeer_def)
  have old: "rvTerm a \<le> currentTerm (ns ! k)" if "RVReq w k j a \<in> set ms" for w j a
    using v that by (auto simp: vinv_def rv_ok_def)
  let ?G = "record_log G k (currentTerm rf') (log rf')"
  have l: "linv (ns[k := rf']) ms (record_vote H k rf') ?G"
    by (rule linv_candidate [OF inv k nd st(1) me]) (use fired old in auto)
  have "0 \<le> currentTerm (ns ! k)"
    using term_nonneg [OF _ linv_parts(2) [OF inv k]] nd by (simp add: node_ok_def)
  moreover have "log rf' \<noteq> []" using st(2) by (auto simp: node_inv_def)
  ultimately have "rvreq_ok ?G a rf'" if "(j, a) \<in> set rvs" for j a
    using those_pairs [OF fired(15) that] fired(3) by (auto simp: voteRequest_def go_nth_last rvreq_ok_def)
  then have "linv (ns[k := rf']) (ms @ sendRequestVote k rvs) (record_vote H k rf') ?G"
    by (intro linv_net [OF l]) (use k in \<open>auto simp: sendRequestVote_def\<close>)
  then show ?thesis using evolvesI [OF record_log_grow] by blast
qed

lemma RVReq_case:
  assumes v: "vinv ns ms H C" and inv: "linv ns ms H G" and m: "RVReq w i k a \<in> set ms"
    and ex: "RequestVote c1 c2 a (ns ! k) = Some (rf', r)"
  shows "\<exists>G'. evolves G G' \<and> linv (ns[k := rf']) (remove1 (RVReq w i k a) ms @ (if w then [RVRep i k a r] else []))
           (record_vote H k rf') G'"
proof -
  have rv: "rv_ok ns w i k a" using v m by (auto simp: vinv_def)
  then have k: "k < length ns" and i: "i < length ns" "i \<noteq> k" by (auto simp: rv_ok_def)
  have rq: "rvreq_ok G a (ns ! i)" using inv m by (auto simp: linv_def)
  then have pos: "0 < rvTerm a" by (simp add: rvreq_ok_def)
  note nd = vinv_node_ok [OF v k]
  from ex show ?thesis
  proof (cases rule: RequestVote_cases)
    case refused
    show ?thesis
      by (rule quiet_case [OF v inv k, of _ "[RVRep i k a r]"])
         (use refused(1) pos in \<open>auto dest: set_remove1_in\<close>)
  next
    case (granted rf1)
    have tm: "currentTerm rf' = rvTerm a" using granted by (simp add: frame_simps)
    have "ninv (length ns) G k rf1"
      using lquiet_ninv [OF linv_parts(2) [OF inv k]] by (simp add: granted(1))
    then have nk: "ninv (length ns) G k rf'"
      by (rule ninv_same) (simp_all add: granted(5) frame_simps)
    have up: "upto (log rf') (log (ns ! i))"
      if "currentTerm (ns ! i) = currentTerm rf'" "state (ns ! i) = candidateState" "EL G (currentTerm rf') = []"
      using granted(1,4,5) rq that tm by (auto simp: upto_def upToDate_def rvreq_ok_def frame_simps)
    have l: "linv (ns[k := rf']) ms (record_vote H k rf') (record_log G k (currentTerm rf') (log rf'))"
    proof (rule linv_vote [OF inv k i nd _ _ nk _ _ _ up])
      show "vote_step (ns ! k) rf'" using RequestVote_step [OF ex] nd by (simp add: node_ok_def)
      show "vote_of rf' = Some (int i)"
        using rv by (simp add: granted(5) frame_simps vote_of_def rv_ok_def noPeer_def)
      show "cand_stable G (ns ! k) rf'"
        using granted(2) by (auto simp: cand_stable_def granted(1,5) frame_simps convert_vote convert_term split: if_splits)
    qed (use pos tm rv in \<open>auto simp: rv_ok_def\<close>)
    show ?thesis
      by (intro exI conjI, rule evolvesI [OF record_log_grow], rule remove_net [OF l])
         (use pos in \<open>auto split: if_splits\<close>)
  qed
qed

lemma RVRep_case:
  assumes v: "vinv ns ms H C" and inv: "linv ns ms H G" and m: "RVRep k j a r \<in> set ms"
    and fresh: "rvTerm a = currentTerm (ns ! k)"
    and ex: "sendRequestVoteAndHandleReply now c1 a j (Some r) (ns ! k) = Some (rf', aes, sp)"
    and v': "\<exists>C. vinv (ns[k := rf']) ms' (record_vote H k rf') C"
  shows "\<exists>G'. evolves G G' \<and> linv (ns[k := rf']) (remove1 (RVRep k j a r) ms @ sendAppendEntries k aes) (record_vote H k rf') G'"
proof -
  have rv: "rv_ok ns True k j a" and pos: "0 < rvTerm a" using v inv m by (auto simp: vinv_def linv_def)
  then have k: "k < length ns" and role: "state (ns ! k) \<noteq> followerState"
    using fresh by (auto simp: rv_ok_def)
  note nd = vinv_node_ok [OF v k]
  have plain: ?thesis if "lquiet (ns ! k) rf'" "aes = []"
    by (rule quiet_case [OF v inv k that(1), of "[]"])
       (use that(2) in \<open>auto simp: sendAppendEntries_def dest: set_remove1_in\<close>)
  from ex show ?thesis
  proof (cases rule: voteReply_cases)
    case (outdated reply)
    then show ?thesis by (intro plain) simp_all
  next
    case (counted reply)
    then show ?thesis by (intro plain) (simp_all add: lquiet_def)
  next
    case (elected reply)
    let ?bl = "becomeLeader ((ns ! k)\<lparr>votesReceived := votesReceived (ns ! k) + 1\<rparr>)"
    have f: "log ?bl = log (ns ! k)" "currentTerm ?bl = currentTerm (ns ! k)" "state ?bl = leaderState"
      "commitIndex ?bl = commitIndex (ns ! k)" "votedFor ?bl = votedFor (ns ! k)"
      "me ?bl = int k" "peers ?bl = length ns"
      "\<And>j. j < length ns \<Longrightarrow> matchIndex ?bl ! j = 0"
      using nd by (auto simp: becomeLeader_def node_ok_def)
    have q: "lquiet ?bl rf'" by (rule lquiet_sends [OF elected(6)])
    have sh: "currentTerm rf' = currentTerm (ns ! k)" "votedFor rf' = votedFor (ns ! k)" "state rf' = leaderState"
      using sendAppendEntriesToPeers_shape [OF elected(6)] f by auto
    have H: "record_vote H k rf' = H" by (rule record_vote_quiet [OF nd]) (simp add: sh)
    obtain C' where "vinv (ns[k := rf']) ms' H C'" using v' H by auto
    then have "cand_ok (length ns) H (C' k) ms' k rf'" using k by (auto simp: vinv_def)
    then have Q: "majority (length ns) (C' k)" "\<And>j. j \<in> C' k \<Longrightarrow> H j (currentTerm (ns ! k)) = Some (int k)"
      using sh by (auto simp: cand_ok_def majority_def)
    have cand: "state (ns ! k) = candidateState" using role elected(4) by (cases "state (ns ! k)") auto
    let ?G = "elect G k (currentTerm (ns ! k)) (log (ns ! k)) (C' k)"
    have l: "linv (ns[k := ?bl]) ms H ?G"
      by (rule linv_elected [OF inv k _ cand _ Q]) (use nd pos fresh f in \<open>auto simp: node_ok_def\<close>)
    have "linv (ns[k := rf']) ms H ?G" using linv_quiet [OF l, of k rf'] k q by simp
    then have "linv (ns[k := rf']) (ms @ sendAppendEntries k aes) H ?G"
    proof (rule linv_send_AE)
      have "ninv (length ns) ?G k ?bl" using linv_parts(2) [OF l, of k] k by simp
      from leader_sends [OF this f(3,7,6) elected(6)]
      show "k \<noteq> j \<and> j < length (ns[k := rf']) \<and> aereq_ok (length (ns[k := rf'])) ?G k b"
        if "(j, b) \<in> set aes" for j b using that by simp
    qed (simp add: k)
    then have "linv (ns[k := rf']) (remove1 (RVRep k j a r) ms @ sendAppendEntries k aes) H ?G"
      by (rule linv_net) (auto dest: set_remove1_in)
    moreover have "grow k G ?G"
      using winner_is_first [OF linv_parts(1,2) [OF inv k] cand Q] open_election [OF linv_parts(1) [OF inv k]] pos fresh
      by (intro elect_grow) auto
    ultimately show ?thesis using H by auto
  qed (intro plain; simp)+
qed

lemma AEReq_case:
  assumes v: "vinv ns ms H C" and inv: "linv ns ms H G" and m: "AEReq w i k b \<in> set ms"
    and ex: "AppendEntries c1 c2 b (ns ! k) = Some (rf', r, nf)"
  shows "\<exists>G'. evolves G G' \<and> linv (ns[k := rf']) (remove1 (AEReq w i k b) ms @ (if w then [AERep i k b r] else []))
           (record_vote H k rf') G'"
proof -
  have mi: "i \<noteq> k" "i < length ns" "k < length ns" "aereq_ok (length ns) G i b"
    using inv m by (auto simp: linv_def)
  note nd = vinv_node_ok [OF v mi(3)]
  have p0: "0 \<le> aePrevLogIndex b" using mi(4) by (simp add: aereq_ok_def)
  have plain: ?thesis if "lquiet (ns ! k) rf'" "\<not> aerSuccess r"
    by (rule quiet_case [OF v inv mi(3) that(1), of "[AERep i k b r]"])
       (use that(2) mi p0 in \<open>auto dest: set_remove1_in\<close>)
  from ex show ?thesis
  proof (cases rule: AppendEntries_cases)
    case stale
    then show ?thesis by (intro plain) simp_all
  next
    case (mismatch rf1)
    have "lquiet (ns ! k) rf1" by (simp add: mismatch(1))
    then show ?thesis using mismatch(4)
      by (intro plain) (auto simp: mismatch(3) frame_simps intro: lquiet_then)
  next
    case (success rf1 rf2)
    have fld: "currentTerm rf' = aeTerm b" "state rf' = state rf1" "votedFor rf' = votedFor rf1"
      "log rf' = mergeLog (nat (aePrevLogIndex b) + 1) (log (ns ! k)) (aeEntries b)"
      "commitIndex rf' = (if nf then Min (aeLeaderCommit b) (aePrevLogIndex b + go_len (aeEntries b))
                          else commitIndex (ns ! k))"
      using success by (auto simp: frame_simps)
    have le: "currentTerm (ns ! k) \<le> aeTerm b" using success(1,2) by (auto simp: convert_term)
    have H: "record_vote H k rf' = H"
      by (rule record_vote_quiet [OF nd]) (use fld success(1,2) le in \<open>auto simp: convert_vote\<close>)
    let ?G = "acked G k (aeTerm b) (nat (aePrevLogIndex b) + 1 + length (aeEntries b))"
    have l: "linv (ns[k := rf']) ms H ?G"
    proof (rule linv_accept [OF inv mi(3,4,1) success(4,5) le fld(1,4)])
      show "state (ns ! k) = leaderState \<and> aeTerm b = currentTerm (ns ! k)" if "state rf' = leaderState"
        using that fld(2) success(1) le by (auto simp: convert_vote split: if_splits)
      show "commitIndex rf' = commitIndex (ns ! k) \<or> aeLeaderCommit b > commitIndex (ns ! k) \<and>
          commitIndex rf' = Min (aeLeaderCommit b) (aePrevLogIndex b + go_len (aeEntries b))"
        using fld(5) success(9) by auto
    qed
    have "nat (aePrevLogIndex b) + length (aeEntries b) < Ack ?G k (aeTerm b)" by (auto simp: acked_def)
    then have "minv (ns[k := rf']) ?G (AERep i k b r)" using mi p0 by simp
    then have "linv (ns[k := rf']) (remove1 (AEReq w i k b) ms @ (if w then [AERep i k b r] else [])) H ?G"
      by (intro remove_net [OF l]) (auto split: if_splits)
    then show ?thesis unfolding H using evolvesI [OF acked_grow] by blast
  qed
qed

lemma AERep_case:
  assumes v: "vinv ns ms H C" and inv: "linv ns ms H G" and m: "AERep k j b r \<in> set ms"
    and fresh: "aeTerm b = currentTerm (ns ! k)"
    and ex: "handleAppendEntriesReply c1 j b (Some r) (ns ! k) = Some (rf', nf)"
  shows "\<exists>G'. evolves G G' \<and> linv (ns[k := rf']) (remove1 (AERep k j b r) ms @ []) (record_vote H k rf') G'"
proof -
  have mi: "k \<noteq> j" "k < length ns" "j < length ns" "0 \<le> aePrevLogIndex b"
    "aerSuccess r \<longrightarrow> nat (aePrevLogIndex b) + length (aeEntries b) < Ack G j (aeTerm b)"
    using inv m by (auto simp: linv_def)
  note nd = vinv_node_ok [OF v mi(2)]
  have plain: ?thesis if "lquiet (ns ! k) rf'"
    by (rule quiet_case [OF v inv mi(2) that, of "[]"]) (auto dest: set_remove1_in)
  from ex show ?thesis
  proof (cases rule: appendReply_cases)
    case (outdated reply)
    then show ?thesis by (intro plain) simp
  next
    case (rejected reply)
    show ?thesis by (rule plain) (simp add: rejected(7) lquiet_def)
  next
    case (success reply nxt ci)
    have y: "Max 0 (nxt - 1) = aePrevLogIndex b + go_len (aeEntries b)"
      using mi(4) success(5) by (simp add: Max_def)
    have rs: "reply = r" using success(1) by simp
    have "node_inv (ns ! k)" "peers (ns ! k) = length ns" "me (ns ! k) = int k"
      using nd by (auto simp: node_ok_def)
    then have nk: "length (matchIndex (ns ! k)) = length ns" "peers (ns ! k) = length ns" "me (ns ! k) = int k"
      using success(3) by (auto simp: node_inv_def)
    note rp = reply_ninv [OF linv_parts(2) [OF inv mi(2)] success(3) _ nk(2,3,1) _ _ success(8)]
    have n: "2 \<le> length ns" using mi(1-3) by linarith
    have "ninv (length ns) G k rf'"
      by (rule rp(1) [OF n]) (use y mi(4,5) success(4) rs fresh in \<open>auto simp: nat_add_distrib\<close>)
    then have "linv (ns[k := rf']) ms H G"
      by (intro linv_plain [OF inv mi(2) grow_refl])
         (use linv_parts(1) [OF inv mi(2)] success(3) in \<open>auto simp: success(11) cand_stable_def\<close>)
    then have "linv (ns[k := rf']) (remove1 (AERep k j b r) ms @ []) H G" by (rule remove_net) simp
    moreover have "record_vote H k rf' = H"
      by (rule record_vote_quiet [OF nd]) (simp add: success(11))
    ultimately show ?thesis using evolvesI [OF grow_refl] by auto
  qed (intro plain; simp)+
qed

lemma Heartbeat_case:
  assumes v: "vinv ns ms H C" and inv: "linv ns ms H G" and k: "k < length ns"
    and ex: "periodicAppendEntriesRoutine now (ns ! k) = Some (rf', aes, g)"
  shows "\<exists>G'. evolves G G' \<and> linv (ns[k := rf']) (ms @ sendAppendEntries k aes) (record_vote H k rf') G'"
proof (rule quiet_case [OF v inv k lquiet_periodic [OF ex]])
  fix m assume m: "m \<in> set (sendAppendEntries k aes)"
  then have "aes \<noteq> []" by (auto simp: sendAppendEntries_def)
  then obtain rf1 where s: "state (ns ! k) = leaderState" "sendAppendEntriesToPeers now (ns ! k) = Some (rf1, aes)"
    using ex by (auto simp: periodicAppendEntriesRoutine_def split: if_splits option.splits)
  have "peers (ns ! k) = length ns" "me (ns ! k) = int k"
    using vinv_node_ok [OF v k] by (auto simp: node_ok_def)
  from leader_sends [OF linv_parts(2) [OF inv k] s(1) this s(2)]
  show "minv (ns[k := rf']) G m" using m k by (auto simp: sendAppendEntries_def)
qed simp

lemma Client_case:
  assumes v: "vinv ns ms H C" and inv: "linv ns ms H G" and k: "k < length ns"
  shows "\<exists>G'. evolves G G' \<and> linv (ns[k := fst (Start cmd (ns ! k))]) ms (record_vote H k (fst (Start cmd (ns ! k)))) G'"
proof (cases "state (ns ! k) = leaderState")
  case True
  let ?rf' = "fst (Start cmd (ns ! k))"
  have "linv (ns[k := ?rf']) ms H (extend G k (currentTerm ?rf') (log ?rf'))"
    by (rule linv_client [OF inv k True]) (simp_all add: Start_def Let_def True frame_simps)
  moreover have "record_vote H k ?rf' = H"
    by (rule record_vote_quiet [OF vinv_node_ok [OF v k]]) (simp add: Start_def Let_def frame_simps)
  moreover have "lead_ok (length ns) G k (ns ! k)"
    using linv_parts(2) [OF inv k] True by (simp add: ninv_def)
  then have "grow k G (extend G k (currentTerm ?rf') (log ?rf'))"
    by (intro extend_grow) (simp_all add: lead_ok_def Start_def Let_def True frame_simps)
  ultimately show ?thesis by auto
next
  case False
  then show ?thesis by (intro quiet_case [OF v inv k, of _ "[]"]) (simp_all add: Start_def)
qed

lemma Restart_case:
  assumes v: "vinv ns ms H C" and inv: "linv ns ms H G" and k: "k < length ns"
    and rf': "rf' = Make c (peers (ns ! k)) (me (ns ! k)) (Persister_Copy (persister (ns ! k)))"
  shows "\<exists>G'. evolves G G' \<and> linv (ns[k := rf']) (crashNet k ms) (record_vote H k rf') G'"
proof -
  note nd = vinv_node_ok [OF v k]
  have q: "lquiet (ns ! k) rf'" unfolding rf' by (rule lquiet_restart) (use nd in \<open>simp add: node_ok_def\<close>)
  have l: "linv (ns[k := rf']) ms H G" by (rule linv_quiet [OF inv k q])
  have "minv (ns[k := rf']) G m" if m: "m \<in> set (crashNet k ms)" for m
  proof -
    obtain m0 where m0: "m0 \<in> set ms" "m = orphan k m0" using m by (auto simp: crashNet_def)
    then have "minv (ns[k := rf']) G m0" using l by (simp add: linv_def)
    then show ?thesis using m0(2) by (cases m0) auto
  qed
  then have "linv (ns[k := rf']) (crashNet k ms) H G" by (intro linv_net [OF l]) blast
  then show ?thesis using lquiet_record [OF nd q] evolvesI [OF grow_refl] by auto
qed

lemma exec_linv:
  assumes v: "vinv (nodes s) (net s) H C" and l: "linv (nodes s) (net s) H G"
    and fresh: "fresh_replies s a" and ex: "exec a s = Some t"
  shows "\<exists>G'. evolves G G' \<and> linv (nodes t) (net t) (later_history a t H) G'"
  using ex
proof (cases rule: exec_cases)
  case (timeout i now c rf' rvs)
  then show ?thesis using Timeout_case [OF v l] by (simp add: later_history_def)
next
  case (rvreq w i j x now c1 c2 rf' r)
  then show ?thesis using RVReq_case [OF v l] by (simp add: later_history_def)
next
  case (rvrep i j x r now c1 c2 rf' aes sp)
  obtain C' where "vinv (nodes t) (net t) (later_history a t H) C'"
    using exec_vinv [OF v fresh_replies_votes [OF fresh] ex] by blast
  then have "\<exists>C. vinv ((nodes s)[i := rf']) (net t) (record_vote H i rf') C"
    using rvrep by (auto simp: later_history_def)
  from RVRep_case [OF v l _ _ rvrep(4) this] show ?thesis
    using rvrep fresh by (simp add: later_history_def)
next
  case (aereq w i j b now c1 c2 rf' r nf)
  then show ?thesis using AEReq_case [OF v l] by (simp add: later_history_def)
next
  case (aerep i j b r now c1 c2 rf' nf)
  then show ?thesis using AERep_case [OF v l _ _ aerep(4)] fresh by (simp add: later_history_def)
next
  case (drop m)
  have "linv (nodes s) (remove1 m (net s)) H G"
    by (rule linv_net [OF l]) (auto dest: set_remove1_in)
  then show ?thesis using drop evolvesI [OF grow_refl] by (auto simp: later_history_def)
next
  case (heartbeat i now rf' aes g)
  then show ?thesis using Heartbeat_case [OF v l] by (simp add: later_history_def)
next
  case (client i cmd)
  then show ?thesis using Client_case [OF v l] by (simp add: later_history_def)
next
  case (applied i rf' m)
  then show ?thesis
    using quiet_case [OF v l _ lquiet_apply, of i rf' m "[]" "net s"] by (simp add: later_history_def)
next
  case (restart i c rf')
  then show ?thesis using Restart_case [OF v l _ restart(3)] by (simp add: later_history_def)
qed

lemma exec_log_inv:
  assumes "log_inv s" and "fresh_replies s a" and "exec a s = Some t"
  shows "log_inv t"
proof -
  obtain H C G where i: "vinv (nodes s) (net s) H C" "linv (nodes s) (net s) H G"
    using assms(1) by (auto simp: log_inv_def)
  show ?thesis
    using exec_vinv [OF i(1) fresh_replies_votes [OF assms(2)] assms(3)] exec_linv [OF i assms(2,3)]
    unfolding log_inv_def by blast
qed

lemma initial_log_inv:
  assumes "initial s"
  shows "log_inv (s :: 'c cluster)"
proof -
  obtain n cs where s: "s = init_cluster n cs" using assms by (auto simp: initial_def)
  let ?d = "\<lparr>leCommand = None, leTerm = 0\<rparr> :: 'c LogEntry"
  let ?G = "\<lparr>LL = (\<lambda>t. if t = 0 then [?d] else []), EL = (\<lambda>_. []), WL = (\<lambda>_. 0), EQ = (\<lambda>_. {}),
             VL = (\<lambda>_ _. []), Ack = (\<lambda>_ _. 0)\<rparr> :: 'c ghost"
  have f: "log (Make c n (int i) MakePersister) = [?d]" "currentTerm (Make c n (int i) MakePersister) = 0"
    "state (Make c n (int i) MakePersister) = followerState"
    "commitIndex (Make c n (int i) MakePersister) = 0" for c i
    by (simp_all add: Make_def Let_def readPersist_def resetElectionTimer_def persister_defs)
  have "ginv n (\<lambda>_ _. None) ?G" by (simp add: ginv_def leader_log_ok_def lp_def)
  then have "linv (nodes s) (net s) (\<lambda>_ _. None) ?G"
    by (auto simp: s init_cluster_def linv_def ninv_def cinv_def lp_def justified_def f)
  then show ?thesis using initial_vinv [OF assms] by (auto simp: log_inv_def)
qed

interpretation logs: inductive_invariant initial "cstep fresh_replies" log_inv
  by unfold_locales (auto intro: initial_log_inv exec_log_inv elim!: cstepE)

lemma exec_length: "exec a s = Some t \<Longrightarrow> length (nodes t) = length (nodes s)"
  by (erule exec_cases) simp_all

text \<open>What stays as it is from one state to a later one: what peers took for committed, and who was
  elected in a term.\<close>

definition evolved :: "nat \<Rightarrow> 'c ghost \<Rightarrow> 'c ghost \<Rightarrow> bool" where
  "evolved n G G' \<longleftrightarrow> (\<forall>u c l. justified n G u c l \<longrightarrow> justified n G' u c l) \<and>
     (\<forall>u. EL G u \<noteq> [] \<longrightarrow> EL G' u = EL G u \<and> WL G' u = WL G u)"

definition past :: "'c cluster \<Rightarrow> 'c cluster \<Rightarrow> bool" where
  "past s t \<longleftrightarrow> length (nodes t) = length (nodes s) \<and>
     (\<exists>H C G H' C' G'. vinv (nodes s) (net s) H C \<and> linv (nodes s) (net s) H G \<and>
        vinv (nodes t) (net t) H' C' \<and> linv (nodes t) (net t) H' G' \<and> evolved (length (nodes s)) G G')"

lemma past_refl: "log_inv s \<Longrightarrow> past s s"
  by (auto simp: log_inv_def past_def evolved_def)

lemma past_step:
  assumes "past s t" and "fresh_replies t a" and "exec a t = Some u"
  shows "past s u"
proof -
  let ?n = "length (nodes s)"
  obtain H C G H' C' G' where i: "vinv (nodes s) (net s) H C" "linv (nodes s) (net s) H G"
    and j: "vinv (nodes t) (net t) H' C'" "linv (nodes t) (net t) H' G'" "evolved ?n G G'"
    and n: "length (nodes t) = ?n"
    using assms(1) by (auto simp: past_def)
  obtain C'' where v: "vinv (nodes u) (net u) (later_history a u H') C''"
    using exec_vinv [OF j(1) fresh_replies_votes [OF assms(2)] assms(3)] by blast
  obtain G'' k where g: "grow k G' G''" "linv (nodes u) (net u) (later_history a u H') G''"
    using exec_linv [OF j(1,2) assms(2,3)] by (auto simp: evolves_def)
  have "ginv ?n H' G'" using j(2) n by (simp add: linv_def)
  then have "evolved ?n G G''"
    using j(3) g(1) grow_justified [OF _ g(1)] unfolding evolved_def grow_def by metis
  moreover have "length (nodes u) = ?n" using exec_length [OF assms(3)] n by simp
  ultimately show ?thesis unfolding past_def using i v g(2) by blast
qed

lemma steps_past:
  assumes "initial s0" and "(cstep fresh_replies)\<^sup>*\<^sup>* s0 s" and "(cstep fresh_replies)\<^sup>*\<^sup>* s t"
  shows "past s t"
  using assms(3)
proof (rule logs.reachable_rel [where R = past])
  show "log_inv s" using logs.reachable_inv [OF assms(1,2)] .
  then show "past s s" by (rule past_refl)
qed (auto elim!: cstepE intro: past_step)

lemma steps_past_commits:
  assumes "initial s0" and "(cstep fresh_replies)\<^sup>*\<^sup>* s0 s" and "(cstep fresh_replies)\<^sup>*\<^sup>* s t"
    and "i < length (nodes s)"
  shows "\<exists>H C G. vinv (nodes t) (net t) H C \<and> linv (nodes t) (net t) H G \<and>
    length (nodes t) = length (nodes s) \<and>
    justified (length (nodes s)) G (currentTerm (nodes s ! i)) (nat (commitIndex (nodes s ! i)))
      (log (nodes s ! i))"
proof -
  obtain H C G H' C' G' where i: "linv (nodes s) (net s) H G"
    and j: "vinv (nodes t) (net t) H' C'" "linv (nodes t) (net t) H' G'" "evolved (length (nodes s)) G G'"
    and n: "length (nodes t) = length (nodes s)"
    using steps_past [OF assms(1-3)] by (auto simp: past_def)
  have "justified (length (nodes s)) G (currentTerm (nodes s ! i)) (nat (commitIndex (nodes s ! i)))
      (log (nodes s ! i))"
    using i assms(4) by (simp add: linv_def ninv_def)
  then show ?thesis using j n unfolding evolved_def by blast
qed

text \<open>One leader per term, over time.\<close>

lemma leader_of_term:
  assumes "initial s0" and "(cstep fresh_replies)\<^sup>*\<^sup>* s0 s" and "(cstep fresh_replies)\<^sup>*\<^sup>* s t"
    and "i < length (nodes s)" and "j < length (nodes s)"
    and "state (nodes s ! i) = leaderState" and "state (nodes t ! j) = leaderState"
    and "currentTerm (nodes s ! i) = currentTerm (nodes t ! j)"
  shows "i = j"
proof -
  obtain H C G H' C' G' where g: "linv (nodes s) (net s) H G" "linv (nodes t) (net t) H' G'"
    "evolved (length (nodes s)) G G'" and n: "length (nodes t) = length (nodes s)"
    using steps_past [OF assms(1-3)] by (auto simp: past_def)
  have "lead_ok (length (nodes s)) G i (nodes s ! i)" "lead_ok (length (nodes s)) G' j (nodes t ! j)"
    using g(1,2) n assms(4-7) by (auto simp: linv_def ninv_def)
  then show ?thesis using g(3) assms(8) by (auto simp: evolved_def lead_ok_def)
qed

lemma init_head:
  assumes "log_inv s" and "i < length (nodes s)"
  shows "\<exists>l. log (nodes s ! i) = \<lparr>leCommand = None, leTerm = 0\<rparr> # l"
  using assms by (auto simp: log_inv_def vinv_def node_ok_def node_inv_def)

section \<open>Log matching, leader completeness, state machine safety\<close>

text \<open>
  In a cluster whose requests carry the entries they were made with; theory \<open>RaftAlias\<close> goes on from here
  to requests whose entries are shared with the log of their sender. Two runs for the witnesses: server 0 is elected in term 1 and commits an entry that server 1 has;
  then it tells server 1, crashes, and server 1 is elected in term 2 by server 2.
\<close>

definition append_args :: "int \<Rightarrow> int \<Rightarrow> nat LogEntry list \<Rightarrow> int \<Rightarrow> nat AppendEntriesArgs" where
  "append_args prev pt es ci = \<lparr>aeTerm = 1, aeLeaderID = 0, aePrevLogIndex = prev, aePrevLogTerm = pt,
     aeEntries = es, aeLeaderCommit = ci\<rparr>"

definition commit_run :: "nat action list" where
  "commit_run =
     (let args = append_args 0 0 [\<lparr>leCommand = Some 10, leTerm = 1\<rparr>] 0
      in [Timeout 0 1000 (1000, 0)] @ vote_for 0 (rv 1 0) 1 1001 @
         [Client 0 10, Heartbeat 0 2000,
          Deliver (AEReq True 0 1 args) 2001 (2001, 0) (2001, 0),
          Deliver (AERep 0 1 args \<lparr>aerTerm = 1, aerSuccess = True, aerNextTryHint = 0\<rparr>)
            2002 (2002, 0) (2002, 0)])"

definition takeover_run :: "nat action list" where
  "takeover_run =
     [Heartbeat 0 3000, Deliver (AEReq True 0 1 (append_args 1 1 [] 1)) 3001 (3001, 0) (3001, 0),
      Restart 0 (3002, 0), Timeout 1 4000 (4000, 0)] @
     vote_for 1 \<lparr>rvTerm = 2, rvCandidateID = 1, rvLastLogIndex = 1, rvLastLogTerm = 1\<rparr> 2 4001"

definition after_commit :: "nat cluster" where
  "after_commit = the (execs fresh_replies commit_run (init_cluster 3 (\<lambda>_. (0, 0))))"

definition after_takeover :: "nat cluster" where
  "after_takeover = the (execs fresh_replies takeover_run after_commit)"

abbreviation entry10 :: "nat LogEntry" where
  "entry10 \<equiv> \<lparr>leCommand = Some 10, leTerm = 1\<rparr>"

abbreviation dummy :: "nat LogEntry" where
  "dummy \<equiv> \<lparr>leCommand = None, leTerm = 0\<rparr>"

abbreviation msg10 :: "nat ApplyMsg" where
  "msg10 \<equiv> \<lparr>CommandValid = True, Command = Some 10, CommandIndex = 1\<rparr>"

lemma runs_defined:
  "execs fresh_replies commit_run (init_cluster 3 (\<lambda>_. (0, 0))) \<noteq> None"
  "execs fresh_replies takeover_run after_commit \<noteq> None"
  unfolding after_commit_def by code_simp+

lemma runs_states:
  "map (\<lambda>rf. (state rf, currentTerm rf, commitIndex rf, log rf, map_option (map_option snd) (applyNext rf)))
     (nodes after_commit) =
   [(leaderState, 1, 1, [dummy, entry10], Some (Some msg10)),
    (followerState, 1, 0, [dummy, entry10], Some None),
    (followerState, 0, 0, [dummy], Some None)]"
  "map (\<lambda>rf. (state rf, currentTerm rf, commitIndex rf, log rf, map_option (map_option snd) (applyNext rf)))
     (nodes after_takeover) =
   [(followerState, 1, 0, [dummy, entry10], Some None),
    (leaderState, 2, 1, [dummy, entry10], Some (Some msg10)),
    (followerState, 2, 0, [dummy], Some None)]"
  unfolding after_takeover_def after_commit_def by code_simp+

lemma initial_3: "initial (init_cluster 3 (\<lambda>_. (0, 0)))"
  by (auto simp: initial_def)

lemma runs_steps:
  "(cstep fresh_replies)\<^sup>*\<^sup>* (init_cluster 3 (\<lambda>_. (0, 0))) after_commit"
  "(cstep fresh_replies)\<^sup>*\<^sup>* after_commit after_takeover"
  using runs_defined by (auto simp: after_commit_def after_takeover_def intro!: execs_steps)

lemma runs_length: "length (nodes after_commit) = 3" "length (nodes after_takeover) = 3"
  using arg_cong [OF runs_states(1), of length] arg_cong [OF runs_states(2), of length] by simp_all

lemma runs_fields:
  "state (nodes after_takeover ! 1) = leaderState" "currentTerm (nodes after_takeover ! 1) = 2"
  "currentTerm (nodes after_commit ! 0) = 1" "commitIndex (nodes after_commit ! 0) = 1"
  "log (nodes after_commit ! 0) = [dummy, entry10]" "log (nodes after_takeover ! 1) = [dummy, entry10]"
  "log (nodes after_takeover ! 0) = [dummy, entry10]"
  "map_option (map_option snd) (applyNext (nodes after_commit ! 0)) = Some (Some msg10)"
  "map_option (map_option snd) (applyNext (nodes after_takeover ! 1)) = Some (Some msg10)"
  using arg_cong [OF runs_states(1), of "\<lambda>xs. xs ! 0"] arg_cong [OF runs_states(2), of "\<lambda>xs. xs ! 0"]
    arg_cong [OF runs_states(2), of "\<lambda>xs. xs ! 1"] runs_length by simp_all

text \<open>Log matching: if two peers have entries of the same term at the same
  index, their logs are identical up to that index.\<close>

lemma value_log_matching:
  assumes "initial s0" and "(cstep fresh_replies)\<^sup>*\<^sup>* s0 s"
    and "i < length (nodes s)" and "j < length (nodes s)"
    and "x < length (log (nodes s ! i))" and "x < length (log (nodes s ! j))"
    and "leTerm (log (nodes s ! i) ! x) = leTerm (log (nodes s ! j) ! x)"
  shows "take (Suc x) (log (nodes s ! i)) = take (Suc x) (log (nodes s ! j))"
  using logs.reachable_inv [OF assms(1,2)] assms(3-7) by (rule log_inv_matching)

text \<open>Leader completeness: what a peer has marked as committed is, from then on, in the log of every leader
  whose term is at least that of the peer at that moment, at the same positions.\<close>

lemma value_leader_completeness:
  assumes "initial s0" and "(cstep fresh_replies)\<^sup>*\<^sup>* s0 s" and "(cstep fresh_replies)\<^sup>*\<^sup>* s t"
    and "i < length (nodes s)" and "j < length (nodes s)"
    and "int x \<le> commitIndex (nodes s ! i)"
    and "state (nodes t ! j) = leaderState"
    and "currentTerm (nodes s ! i) \<le> currentTerm (nodes t ! j)"
  shows "x < length (log (nodes s ! i)) \<and>
    take (Suc x) (log (nodes t ! j)) = take (Suc x) (log (nodes s ! i))"
proof -
  let ?n = "length (nodes s)" and ?c = "nat (commitIndex (nodes s ! i))"
  obtain H C G where l: "linv (nodes t) (net t) H G" and n: "length (nodes t) = ?n"
    and ju: "justified ?n G (currentTerm (nodes s ! i)) ?c (log (nodes s ! i))"
    using steps_past_commits [OF assms(1-4)] by auto
  have inv: "log_inv s" "log_inv t"
    using logs.reachable_inv [OF assms(1)] assms(2,3) by (auto intro: rtranclp_trans)
  show ?thesis
  proof (cases "x = 0")
    case True
    then show ?thesis using init_head [OF inv(1) assms(4)] init_head [OF inv(2), of j] assms(5) n by auto
  next
    case False
    have G: "ginv ?n H G" "ninv ?n G j (nodes t ! j)" using l n assms(5) by (auto simp: linv_def)
    have V: "\<And>i u. i < ?n \<Longrightarrow> VL G i u \<noteq> [] \<Longrightarrow> voted_ok G i u" using log_inv_voted [OF l] n by simp
    have ld: "EL G (currentTerm (nodes t ! j)) \<noteq> []" "LL G (currentTerm (nodes t ! j)) = log (nodes t ! j)"
      using G(2) assms(7) by (auto simp: ninv_def lead_ok_def)
    obtain r y where r: "committed ?n G r y" "?c \<le> y" "r \<le> currentTerm (nodes s ! i)"
      "take (Suc ?c) (log (nodes s ! i)) = take (Suc ?c) (LL G r)"
      using ju False assms(6) by (auto simp: justified_def)
    have xc: "Suc x \<le> Suc ?c" "Suc x \<le> Suc y" using assms(6) r(2) by linarith+
    have P: "prefix (pre G r y) (log (nodes t ! j))"
      using leader_has [OF G(1) V r(1) _ ld(1)] r(3) assms(8) ld(2) by simp
    have len: "y < length (LL G r)" by (rule committed_in(1) [OF G(1) r(1)])
    then have "take (Suc x) (log (nodes t ! j)) = take (Suc x) (LL G r)"
      using P xc(2) by (auto simp: prefix_def min_absorb1)
    moreover have "take (Suc x) (log (nodes s ! i)) = take (Suc x) (LL G r)"
      using arg_cong [OF r(4), of "take (Suc x)"] xc(1) by (simp add: min_absorb1)
    moreover have "Suc x \<le> length (log (nodes s ! i))"
      using arg_cong [OF r(4), of length] len r(2) xc by simp
    ultimately show ?thesis by simp
  qed
qed

text \<open>State machine safety: two peers never deliver different commands to their services under the same index,
  even at different times and with crashes, restarts and changes of leader in between.\<close>

lemma value_state_machine_safety:
  assumes "initial s0" and "(cstep fresh_replies)\<^sup>*\<^sup>* s0 s" and "(cstep fresh_replies)\<^sup>*\<^sup>* s t"
    and "i < length (nodes s)" and "j < length (nodes s)"
    and "applyNext (nodes s ! i) = Some (Some (rf, m))" and "applyNext (nodes t ! j) = Some (Some (rf', m'))"
    and "CommandIndex m = CommandIndex m'"
  shows "m = m'"
proof -
  let ?n = "length (nodes s)"
  obtain H C G where v: "vinv (nodes t) (net t) H C" and l: "linv (nodes t) (net t) H G"
    and n: "length (nodes t) = ?n"
    and ju: "justified ?n G (currentTerm (nodes s ! i)) (nat (commitIndex (nodes s ! i))) (log (nodes s ! i))"
    using steps_past_commits [OF assms(1-4)] by auto
  have G: "ginv ?n H G" "ninv ?n G j (nodes t ! j)" using l n assms(5) by (auto simp: linv_def)
  have V: "\<And>i u. i < ?n \<Longrightarrow> VL G i u \<noteq> [] \<Longrightarrow> voted_ok G i u" using log_inv_voted [OF l] n by simp
  let ?x = "CommandIndex m"
  have a: "?x \<le> commitIndex (nodes s ! i)" "?x < go_len (log (nodes s ! i))" "CommandValid m"
      "Command m = leCommand (log (nodes s ! i) ! nat ?x)" "?x = lastApplied (nodes s ! i) + 1"
    using assms(6) by (auto simp: applyNext_def Let_def go_nth_Some_iff split: if_splits)
  have b: "?x \<le> commitIndex (nodes t ! j)" "?x < go_len (log (nodes t ! j))" "CommandValid m'"
      "Command m' = leCommand (log (nodes t ! j) ! nat ?x)" "?x = lastApplied (nodes t ! j) + 1"
    using assms(7,8) by (auto simp: applyNext_def Let_def go_nth_Some_iff split: if_splits)
  have "node_inv (nodes t ! j)" using v n assms(5) by (auto simp: vinv_def node_ok_def)
  then have pos: "0 < ?x" using b(5) by (simp add: node_inv_def)
  have "justified ?n G (currentTerm (nodes t ! j)) (nat (commitIndex (nodes t ! j))) (log (nodes t ! j))"
    using G(2) by (simp add: ninv_def)
  from justified_agree [OF G(1) V ju this, of "nat ?x"]
  have "take (Suc (nat ?x)) (log (nodes s ! i)) = take (Suc (nat ?x)) (log (nodes t ! j))"
    using a(1) b(1) pos by simp
  then have "log (nodes s ! i) ! nat ?x = log (nodes t ! j) ! nat ?x"
    by (metis lessI nth_take)
  then show ?thesis using a b assms(8) by simp
qed

end
