(* ===== verification/LabRpc.thy ===== *)
theory LabRpc
  imports Prelude "HOL-Library.Word"
begin

text \<open>
  The simulated network, \<open>src/src/labrpc/labrpc.go\<close>. A server is known by a pointer, a
  number here; a map with pointer or interface values gives \<open>None\<close> for \<open>nil\<close> and for a
  missing key alike, as a Go map lookup does. The objects that serve the calls have an
  arbitrary state \<open>'o\<close>; a method takes the encoded arguments and returns the encoded reply
  (reflection and the codec are not modelled). A \<open>log.Fatalf\<close> and a panic are error values.

  \<open>processReq\<close> runs concurrently with changes of the network. What it sees of them is its
  argument: the network when it reads the endpoint, the outcome of each round of its waiting
  loop, and the network when it checks the server for the last time. Random numbers are
  arguments too.
\<close>

section \<open>Messages\<close>

record ('n, 'b) reqMsg =
  endname :: 'n
  svcMeth :: string
  reqArgs :: "'b list"

record 'b replyMsg =
  ok :: bool
  reply :: "'b list"

datatype rpc_error = SliceOutOfRange | UnknownService | UnknownMethod | EndExists | NilServer

section \<open>Services and servers\<close>

text \<open>What reflection tells about a method; \<open>Func\<close> is its code with decoding and encoding.\<close>

record ('b, 'o) Method =
  mName :: string
  PkgPath :: string
  NumIn :: nat
  In2Ptr :: bool
  NumOut :: nat
  Func :: "'b list \<Rightarrow> 'o \<Rightarrow> 'b list \<times> 'o"

record ('b, 'o) Service =
  svcName :: string
  methods :: "string \<rightharpoonup> ('b, 'o) Method"

definition isHandler :: "('b, 'o) Method \<Rightarrow> bool" where
  "isHandler method =
     (\<not> (PkgPath method \<noteq> [] \<or> NumIn method \<noteq> 3 \<or> \<not> In2Ptr method \<or> NumOut method \<noteq> 0))"

definition MakeService :: "string \<Rightarrow> ('b, 'o) Method list \<Rightarrow> ('b, 'o) Service" where
  "MakeService typeName ms =
     \<lparr>svcName = typeName,
      methods = fold (\<lambda>m f. if isHandler m then f(mName m \<mapsto> m) else f) ms Map.empty\<rparr>"

definition Service_dispatch ::
    "string \<Rightarrow> ('n, 'b) reqMsg \<Rightarrow> ('b, 'o) Service \<Rightarrow> 'o \<Rightarrow> rpc_error + 'b replyMsg \<times> 'o" where
  "Service_dispatch methname req svc obj =
     (case methods svc methname of
        Some method \<Rightarrow>
          (case Func method (reqArgs req) obj of
             (rb, obj) \<Rightarrow> Inr (\<lparr>ok = True, reply = rb\<rparr>, obj))
      | None \<Rightarrow> Inl UnknownMethod)"

record ('b, 'o) Server =
  services :: "string \<rightharpoonup> ('b, 'o) Service"
  svCount :: int

definition MakeServer :: "('b, 'o) Server" where
  "MakeServer = \<lparr>services = Map.empty, svCount = 0\<rparr>"

definition AddService :: "('b, 'o) Service \<Rightarrow> ('b, 'o) Server \<Rightarrow> ('b, 'o) Server" where
  "AddService svc rs = rs\<lparr>services := (services rs)(svcName svc \<mapsto> svc)\<rparr>"

text \<open>\<open>strings.LastIndex(s, ".")\<close>; -1 when there is no dot.\<close>

fun LastIndexDot :: "string \<Rightarrow> int" where
  "LastIndexDot [] = - 1"
| "LastIndexDot (c # cs) =
     (let i = LastIndexDot cs in if 0 \<le> i then i + 1 else if c = CHR ''.'' then 0 else - 1)"

definition Server_dispatch ::
    "('n, 'b) reqMsg \<Rightarrow> ('b, 'o) Server \<Rightarrow> 'o \<Rightarrow> rpc_error + ('b, 'o) Server \<times> 'b replyMsg \<times> 'o" where
  "Server_dispatch req rs obj =
     (let rs = rs\<lparr>svCount := svCount rs + 1\<rparr>;
          dot = LastIndexDot (svcMeth req)
      in case (go_upto (svcMeth req) dot, go_from (svcMeth req) (dot + 1)) of
           (Some serviceName, Some methodName) \<Rightarrow>
             (case services rs serviceName of
                Some service \<Rightarrow>
                  map_sum id (\<lambda>(r, obj). (rs, r, obj)) (Service_dispatch methodName req service obj)
              | None \<Rightarrow> Inl UnknownService)
         | _ \<Rightarrow> Inl SliceOutOfRange)"

definition Server_GetCount :: "('b, 'o) Server \<Rightarrow> int" where
  "Server_GetCount rs = svCount rs"

section \<open>The network\<close>

record ('n, 's) Network =
  reliable :: bool
  longDelays :: bool
  longReordering :: bool
  ends :: "'n set"
  enabled :: "'n \<Rightarrow> bool"
  netServers :: "'s \<Rightarrow> nat option"
  connections :: "'n \<Rightarrow> 's option"
  netDone :: bool
  netCount :: "32 word"
  netBytes :: "64 word"

definition MakeNetwork :: "('n, 's) Network" where
  "MakeNetwork =
     \<lparr>reliable = True, longDelays = False, longReordering = False, ends = {}, enabled = (\<lambda>_. False),
      netServers = (\<lambda>_. None), connections = (\<lambda>_. None), netDone = False, netCount = 0, netBytes = 0\<rparr>"

text \<open>The goroutine of \<open>MakeNetwork\<close> counts every request before it is processed.\<close>

definition acceptReq :: "('n, 'b) reqMsg \<Rightarrow> ('n, 's) Network \<Rightarrow> ('n, 's) Network" where
  "acceptReq req rn =
     rn\<lparr>netCount := netCount rn + 1, netBytes := netBytes rn + of_nat (length (reqArgs req))\<rparr>"

definition Cleanup :: "('n, 's) Network \<Rightarrow> ('n, 's) Network" where
  "Cleanup rn = rn\<lparr>netDone := True\<rparr>"

definition Reliable :: "bool \<Rightarrow> ('n, 's) Network \<Rightarrow> ('n, 's) Network" where
  "Reliable yes rn = rn\<lparr>reliable := yes\<rparr>"

definition LongReordering :: "bool \<Rightarrow> ('n, 's) Network \<Rightarrow> ('n, 's) Network" where
  "LongReordering yes rn = rn\<lparr>longReordering := yes\<rparr>"

definition LongDelays :: "bool \<Rightarrow> ('n, 's) Network \<Rightarrow> ('n, 's) Network" where
  "LongDelays yes rn = rn\<lparr>longDelays := yes\<rparr>"

definition readEndnameInfo ::
    "'n \<Rightarrow> ('n, 's) Network \<Rightarrow> bool \<times> 's option \<times> nat option \<times> bool \<times> bool" where
  "readEndnameInfo e rn =
     (let servername = connections rn e;
          server = (case servername of None \<Rightarrow> None | Some s \<Rightarrow> netServers rn s)
      in (enabled rn e, servername, server, reliable rn, longReordering rn))"

definition isServerDead :: "'n \<Rightarrow> 's \<Rightarrow> nat \<Rightarrow> ('n, 's) Network \<Rightarrow> bool" where
  "isServerDead e servername server rn =
     (enabled rn e = False \<or> netServers rn servername \<noteq> Some server)"

definition MakeEnd :: "'n \<Rightarrow> ('n, 's) Network \<Rightarrow> rpc_error + ('n, 's) Network" where
  "MakeEnd e rn =
     (if e \<in> ends rn then Inl EndExists
      else Inr (rn\<lparr>ends := insert e (ends rn), enabled := (enabled rn)(e := False),
                   connections := (connections rn)(e := None)\<rparr>))"

definition AddServer :: "'s \<Rightarrow> nat \<Rightarrow> ('n, 's) Network \<Rightarrow> ('n, 's) Network" where
  "AddServer servername rs rn = rn\<lparr>netServers := (netServers rn)(servername := Some rs)\<rparr>"

definition DeleteServer :: "'s \<Rightarrow> ('n, 's) Network \<Rightarrow> ('n, 's) Network" where
  "DeleteServer servername rn = rn\<lparr>netServers := (netServers rn)(servername := None)\<rparr>"

definition Connect :: "'n \<Rightarrow> 's \<Rightarrow> ('n, 's) Network \<Rightarrow> ('n, 's) Network" where
  "Connect e servername rn = rn\<lparr>connections := (connections rn)(e := Some servername)\<rparr>"

definition Enable :: "'n \<Rightarrow> bool \<Rightarrow> ('n, 's) Network \<Rightarrow> ('n, 's) Network" where
  "Enable e en rn = rn\<lparr>enabled := (enabled rn)(e := en)\<rparr>"

text \<open>\<open>GetCount\<close> of a deleted server calls a method of a \<open>nil\<close> pointer.\<close>

definition GetCount :: "(nat \<Rightarrow> ('b, 'o) Server) \<Rightarrow> 's \<Rightarrow> ('n, 's) Network \<Rightarrow> rpc_error + int" where
  "GetCount heap servername rn =
     (case netServers rn servername of
        None \<Rightarrow> Inl NilServer
      | Some p \<Rightarrow> Inr (Server_GetCount (heap p)))"

definition GetTotalCount :: "('n, 's) Network \<Rightarrow> int" where
  "GetTotalCount rn = sint (netCount rn)"

definition GetTotalBytes :: "('n, 's) Network \<Rightarrow> int" where
  "GetTotalBytes rn = sint (netBytes rn)"

section \<open>Processing a request\<close>

text \<open>
  One round of the waiting loop: the handler's reply arrives, or 100 ms pass and the network
  is as given.
\<close>

datatype ('n, 's) poll = GotReply | Timeout "('n, 's) Network"

text \<open>The loop; \<open>None\<close> when it is still waiting after the rounds of the list.\<close>

fun awaitReply :: "'n \<Rightarrow> 's \<Rightarrow> nat \<Rightarrow> ('n, 's) poll list \<Rightarrow> bool option" where
  "awaitReply e servername server [] = None"
| "awaitReply e servername server (GotReply # ps) = Some True"
| "awaitReply e servername server (Timeout rn # ps) =
     (if isServerDead e servername server rn then Some False
      else awaitReply e servername server ps)"

text \<open>
  The result of \<open>processReq\<close>: the server whose handler was started, if any, what is sent on
  \<open>replyCh\<close> (where the reply of the handler itself is \<open>Forward\<close>), and after how many ms.
\<close>

datatype answer = Refuse | Forward | Waiting

record outcome =
  executed :: "nat option"
  answered :: answer
  delay :: int

text \<open>The random numbers, in the order they are drawn.\<close>

record draws =
  dShort :: int
  dDropReq :: int
  dDropRep :: int
  dReorder :: int
  dBound :: int
  dDelay :: int
  dTimeout :: int

definition processReq ::
    "draws \<Rightarrow> 'n \<Rightarrow> ('n, 's) Network \<Rightarrow> ('n, 's) poll list \<Rightarrow> ('n, 's) Network \<Rightarrow> outcome" where
  "processReq d e rn polls rn' =
     (case readEndnameInfo e rn of
        (True, Some servername, Some server, rel, longreordering) \<Rightarrow>
          let short = (if \<not> rel then dShort d mod 27 else 0)
          in if \<not> rel \<and> dDropReq d mod 1000 < 100 then
               \<lparr>executed = None, answered = Refuse, delay = short\<rparr>
             else
               (case awaitReply e servername server polls of
                  None \<Rightarrow> \<lparr>executed = Some server, answered = Waiting, delay = short\<rparr>
                | Some replyOK \<Rightarrow>
                    let serverDead = isServerDead e servername server rn'
                    in if \<not> replyOK \<or> serverDead then
                         \<lparr>executed = Some server, answered = Refuse, delay = short\<rparr>
                       else if \<not> rel \<and> dDropRep d mod 1000 < 100 then
                         \<lparr>executed = Some server, answered = Refuse, delay = short\<rparr>
                       else if longreordering \<and> dReorder d mod 900 < 600 then
                         \<lparr>executed = Some server, answered = Forward,
                          delay = short + 200 + dDelay d mod (1 + dBound d mod 2000)\<rparr>
                       else \<lparr>executed = Some server, answered = Forward, delay = short\<rparr>)
      | _ \<Rightarrow>
          \<lparr>executed = None, answered = Refuse,
           delay = (if longDelays rn then dTimeout d mod 7000 else dTimeout d mod 100)\<rparr>)"

text \<open>\<open>Call\<close> from the caller's side: the reply it decodes, \<open>None\<close> when it returns false.\<close>

definition Call :: "('n, 's) Network \<Rightarrow> outcome \<Rightarrow> 'b list \<Rightarrow> 'b list option" where
  "Call rn oc handlerReply =
     (if netDone rn then None
      else (case answered oc of Forward \<Rightarrow> Some handlerReply | _ \<Rightarrow> None))"

section \<open>Properties\<close>

lemma awaitReply_True:
  "awaitReply e servername server polls = Some True \<Longrightarrow>
    \<exists>rns rest. polls = map Timeout rns @ GotReply # rest \<and> (\<forall>q \<in> set rns. \<not> isServerDead e servername server q)"
proof (induction e servername server polls rule: awaitReply.induct)
  case (2 e servername server ps)
  then show ?case by (intro exI [of _ "[]"] exI [of _ ps]) simp
next
  case (3 e servername server q ps)
  then obtain rns rest where "ps = map Timeout rns @ GotReply # rest" "\<forall>q \<in> set rns. \<not> isServerDead e servername server q"
    by (auto split: if_splits)
  then show ?case using 3 by (intro exI [of _ "q # rns"] exI [of _ rest]) (auto split: if_splits)
qed simp

lemma reorder_bounds:
  fixes x y :: int
  shows "0 \<le> y mod (1 + x mod 2000)" and "y mod (1 + x mod 2000) < 2000"
proof -
  have "0 \<le> x mod 2000" "x mod 2000 < 2000" by simp_all
  then show "0 \<le> y mod (1 + x mod 2000)" "y mod (1 + x mod 2000) < 2000"
    using pos_mod_bound [of "1 + x mod 2000" y] pos_mod_sign [of "1 + x mod 2000" y] by linarith+
qed

text \<open>Property C27: a caller gets a positive answer only when the handler of the server the endpoint was
  connected to has run and returned, when at every check made every 100 ms until then and at the last check, made
  after the handler returned, the endpoint was enabled and the server was neither deleted nor replaced, so that
  the handler did not run on an instance whose persister had been superseded. No check is made between the last one
  and the moment at which the answer is sent: it is sent at once, or, with long reordering, 200 to 2199 ms later.\<close>

theorem reply_from_live_server:
  assumes "processReq d e rn polls rn' = oc" and "answered oc = Forward"
  shows "\<exists>servername server rns rest. connections rn e = Some servername \<and> netServers rn servername = Some server \<and>
    enabled rn e \<and> executed oc = Some server \<and> polls = map Timeout rns @ GotReply # rest \<and>
    (\<forall>q \<in> set rns. enabled q e \<and> netServers q servername = Some server) \<and>
    enabled rn' e \<and> netServers rn' servername = Some server \<and>
    (let short = if reliable rn then 0 else dShort d mod 27
     in delay oc = short \<or> longReordering rn \<and> short + 200 \<le> delay oc \<and> delay oc < short + 2200)"
proof -
  let ?short = "if reliable rn then 0 else dShort d mod 27"
  obtain sn sv where s: "enabled rn e" "connections rn e = Some sn" "netServers rn sn = Some sv"
    "awaitReply e sn sv polls = Some True" "\<not> isServerDead e sn sv rn'" "executed oc = Some sv"
    "delay oc = ?short \<or> longReordering rn \<and> delay oc = ?short + 200 + dDelay d mod (1 + dBound d mod 2000)"
    using assms
    by (auto simp: processReq_def readEndnameInfo_def Let_def split: option.splits bool.splits if_splits prod.splits)
  obtain rns rest where p: "polls = map Timeout rns @ GotReply # rest" "\<forall>q \<in> set rns. \<not> isServerDead e sn sv q"
    using awaitReply_True [OF s(4)] by blast
  have "delay oc = ?short \<or> longReordering rn \<and> ?short + 200 \<le> delay oc \<and> delay oc < ?short + 2200"
    using s(7) reorder_bounds [of "dDelay d" "dBound d"] by linarith
  then show ?thesis using s p unfolding Let_def isServerDead_def
    by (intro exI [of _ sn] exI [of _ sv] exI [of _ rns] exI [of _ rest]) simp
qed

definition small_net :: "(nat, nat) Network" where
  "small_net = Enable 7 True (Connect 7 1 (AddServer 1 42 MakeNetwork))"

definition no_draws :: draws where
  "no_draws = \<lparr>dShort = 0, dDropReq = 0, dDropRep = 0, dReorder = 0, dBound = 0, dDelay = 0, dTimeout = 0\<rparr>"

theorem reply_from_live_server_witness:
  "enabled small_net 7 \<and> executed (processReq no_draws 7 small_net [Timeout small_net, GotReply] small_net) = Some 42"
proof -
  let ?p = "processReq no_draws 7 small_net [Timeout small_net, GotReply] small_net"
  have f: "answered ?p = Forward" by code_simp
  have "netServers small_net 1 = Some 42" "connections small_net 7 = Some 1" by code_simp+
  then show ?thesis using reply_from_live_server [OF refl f] by (auto simp: Let_def)
qed

text \<open>Property C28: on a reliable network that does not change, a call to an enabled endpoint with a server reaches
  the handler and brings its reply back, without delay unless long reordering is on, when the delay is
  between 200 and 2199 ms.\<close>

theorem reliable_call_delivered:
  assumes "enabled rn e" and "connections rn e = Some sn" and "netServers rn sn = Some sv"
    and "reliable rn" and "polls = replicate k (Timeout rn) @ [GotReply]" and "\<not> netDone rn"
  shows "executed (processReq d e rn polls rn) = Some sv \<and>
    Call rn (processReq d e rn polls rn) bs = Some bs \<and>
    (delay (processReq d e rn polls rn) = 0 \<or>
      longReordering rn \<and> 200 \<le> delay (processReq d e rn polls rn) \<and>
      delay (processReq d e rn polls rn) < 2200)"
proof -
  have live: "\<not> isServerDead e sn sv rn" using assms by (simp add: isServerDead_def)
  then have w: "awaitReply e sn sv polls = Some True"
    unfolding assms(5) by (induction k) simp_all
  note b = reorder_bounds [of "dDelay d" "dBound d"]
  show ?thesis using assms live w b
    by (auto simp: processReq_def readEndnameInfo_def Call_def Let_def)
qed

theorem reliable_call_delivered_witness:
  "Call small_net (processReq no_draws 7 small_net [Timeout small_net, GotReply] small_net) ''reply'' = Some ''reply''"
proof -
  have "enabled small_net 7" "connections small_net 7 = Some 1" "netServers small_net 1 = Some 42"
    "reliable small_net" "\<not> netDone small_net" by code_simp+
  then show ?thesis
    using reliable_call_delivered [of small_net 7 1 42 "[Timeout small_net, GotReply]" 1 no_draws "''reply''"]
    by simp
qed

lemma LastIndexDot_none: "CHR ''.'' \<notin> set s \<Longrightarrow> LastIndexDot s = - 1"
  by (induction s) (auto simp: Let_def)

lemma LastIndexDot_last: "CHR ''.'' \<notin> set m \<Longrightarrow> LastIndexDot (s @ CHR ''.'' # m) = go_len s"
  by (induction s) (auto simp: Let_def LastIndexDot_none)

text \<open>A request for \<open>service.method\<close> is counted and handed to that method of that service, where
  the service name may itself contain dots; an unknown service or method ends the process, and so
  does a name without a dot.\<close>

theorem dispatch_splits_name:
  assumes "CHR ''.'' \<notin> set meth"
  shows "Server_dispatch (req\<lparr>svcMeth := sv @ CHR ''.'' # meth\<rparr>) rs obj =
      (case services rs sv of
         None \<Rightarrow> Inl UnknownService
       | Some svc \<Rightarrow>
           (case methods svc meth of
              None \<Rightarrow> Inl UnknownMethod
            | Some m \<Rightarrow> Inr (rs\<lparr>svCount := svCount rs + 1\<rparr>,
                             \<lparr>ok = True, reply = fst (Func m (reqArgs req) obj)\<rparr>,
                             snd (Func m (reqArgs req) obj)))) \<and>
    Server_dispatch (req\<lparr>svcMeth := meth\<rparr>) rs obj = Inl SliceOutOfRange"
  using assms
  by (auto simp: Server_dispatch_def Service_dispatch_def LastIndexDot_last LastIndexDot_none Let_def
      go_upto_def go_from_def nat_add_distrib split: option.splits prod.splits)

definition echo_method :: "(char, nat) Method" where
  "echo_method = \<lparr>mName = ''Echo'', PkgPath = [], NumIn = 3, In2Ptr = True, NumOut = 0,
                  Func = (\<lambda>a n. (a, Suc n))\<rparr>"

theorem dispatch_splits_name_witness:
  "Server_dispatch \<lparr>endname = 0 :: nat, svcMeth = ''T.Echo'', reqArgs = ''hi''\<rparr>
     (AddService (MakeService ''T'' [echo_method]) MakeServer) (0 :: nat) =
   Inr (\<lparr>services = [''T'' \<mapsto> MakeService ''T'' [echo_method]], svCount = 1\<rparr>,
        \<lparr>ok = True, reply = ''hi''\<rparr>, 1)"
proof -
  let ?rs = "AddService (MakeService ''T'' [echo_method]) MakeServer"
  have "CHR ''.'' \<notin> set ''Echo''" by simp
  from dispatch_splits_name [OF this, where req = "\<lparr>endname = 0 :: nat, svcMeth = [], reqArgs = ''hi''\<rparr>" and sv = "''T''" and rs = ?rs and obj = 0]
  show ?thesis by (simp add: AddService_def MakeServer_def MakeService_def isHandler_def echo_method_def)
qed

lemma fold_acceptReq: "netCount (fold acceptReq reqs rn) = netCount rn + of_nat (length reqs)"
  by (induction reqs arbitrary: rn) (simp_all add: acceptReq_def)

text \<open>Property C29: the RPC counter is the number of requests accepted so far as long as fewer than two to the
  power 31 of them have been made; the next request makes it negative.\<close>

theorem total_count:
  "GetTotalCount (fold acceptReq reqs MakeNetwork) =
     (if length reqs mod 2 ^ 32 < 2 ^ 31 then int (length reqs mod 2 ^ 32)
      else int (length reqs mod 2 ^ 32) - 2 ^ 32)"
proof -
  have c: "netCount (fold acceptReq reqs MakeNetwork) = of_nat (length reqs)" by (simp add: fold_acceptReq) (simp add: MakeNetwork_def)
  have "sint (of_nat n :: 32 word) = (if n mod 2 ^ 32 < 2 ^ 31 then int (n mod 2 ^ 32) else int (n mod 2 ^ 32) - 2 ^ 32)"
    for n
  proof -
    define k where "k = int (n mod 2 ^ 32)"
    have k: "0 \<le> k" "k < 2 ^ 32" by (auto simp: k_def nat_less_iff simp flip: of_nat_mod)
    have "uint (of_nat n :: 32 word) = k" by (simp add: k_def unsigned_of_nat take_bit_eq_mod zmod_int)
    then have "sint (of_nat n :: 32 word) = (k + 2 ^ 31) mod 2 ^ 32 - 2 ^ 31"
      by (simp add: sint_uint signed_take_bit_eq_take_bit_shift take_bit_eq_mod)
    moreover have "(k + 2 ^ 31) mod 2 ^ 32 = (if k < 2 ^ 31 then k + 2 ^ 31 else k - 2 ^ 31)"
    proof (cases "k < 2 ^ 31")
      case False
      have "(k + 2 ^ 31) mod 2 ^ 32 = (k + 2 ^ 31 - 2 ^ 32) mod 2 ^ 32" by (rule minus_mod_self2 [symmetric])
      also have "\<dots> = k - 2 ^ 31" using k False by (subst mod_pos_pos_trivial) simp_all
      finally show ?thesis using False by simp
    qed (use k in \<open>simp add: mod_pos_pos_trivial\<close>)
    ultimately show ?thesis by (auto simp: k_def)
  qed
  then show ?thesis by (simp add: GetTotalCount_def c)
qed

end
