(* ===== verification/RaftConfig.thy ===== *)
theory RaftConfig
  imports RaftSafety LabRpc
begin

text \<open>
  The harness that runs a group of Raft peers in the tests, \<open>src/src/raft/config.go\<close>: it starts and
  crashes peers, switches the network's endpoints, collects what the peers apply and looks for a
  leader and for agreement. A call of \<open>t.Fatal\<close>, of \<open>log.Fatal\<close> and a panic are failure values.

  While a peer runs, \<open>saved[i]\<close> and the peer's own field \<open>persister\<close> point to the same object; the record
  has it in the peer, and in \<open>saved\<close> once the peer has been shut down. Random names, times and the
  peers' states at the moments the harness looks at them are arguments.
\<close>

section \<open>Data\<close>

datatype 'c apply_error =
  CommitMismatch int nat "'c option" nat "'c option"
| OutOfOrder nat int

datatype 'c failure =
  ApplyError "'c apply_error"
| TermHasLeaders int nat
| ExpectedOneLeader
| DisagreeOnTerm
| ClaimsToBeLeader nat
| ValuesDoNotMatch int "'c option" "'c option"
| OnlyDecided int int int
| FailedAgreement "'c option"
| TestTooLong
| NetworkFatal rpc_error
| RuntimePanic

record ('c, 'n) config =
  cfgNet :: "('n, nat) Network"
  cfgN :: nat
  rafts :: "'c Raft option list"
  applyErr :: "'c apply_error option list"
  connected :: "bool list"
  saved :: "'c gob_value Persister option list"
  endnames :: "'n list option list"
  logs :: "(int \<rightharpoonup> 'c option) list"
  cfgStart :: int
  cfgT0 :: int
  rpcs0 :: int
  cmds0 :: int
  bytes0 :: int
  maxIndex :: int
  maxIndex0 :: int

section \<open>Switching endpoints\<close>

definition setunreliable :: "bool \<Rightarrow> ('c, 'n) config \<Rightarrow> ('c, 'n) config" where
  "setunreliable unrel cfg = cfg\<lparr>cfgNet := Reliable (\<not> unrel) (cfgNet cfg)\<rparr>"

definition setlongreordering :: "bool \<Rightarrow> ('c, 'n) config \<Rightarrow> ('c, 'n) config" where
  "setlongreordering longrel cfg = cfg\<lparr>cfgNet := LongReordering longrel (cfgNet cfg)\<rparr>"

definition rpcCount :: "(nat \<Rightarrow> ('b, 'o) Server) \<Rightarrow> nat \<Rightarrow> ('c, 'n) config \<Rightarrow> rpc_error + int" where
  "rpcCount heap server cfg = GetCount heap server (cfgNet cfg)"

definition rpcTotal :: "('c, 'n) config \<Rightarrow> int" where
  "rpcTotal cfg = GetTotalCount (cfgNet cfg)"

definition bytesTotal :: "('c, 'n) config \<Rightarrow> int" where
  "bytesTotal cfg = GetTotalBytes (cfgNet cfg)"

text \<open>\<open>cfg.net.Enable(cfg.endnames[i][j], b)\<close>.\<close>

definition endOf :: "('c, 'n) config \<Rightarrow> nat \<Rightarrow> nat \<Rightarrow> 'n option" where
  "endOf cfg i j = (case endnames cfg ! i of None \<Rightarrow> None | Some ns \<Rightarrow> go_nth ns (int j))"

definition enableEnd :: "nat \<Rightarrow> nat \<Rightarrow> bool \<Rightarrow> ('c, 'n) config \<Rightarrow> 'c failure + ('c, 'n) config" where
  "enableEnd i j b cfg =
     (case endOf cfg i j of
        None \<Rightarrow> Inl RuntimePanic
      | Some e \<Rightarrow> Inr (cfg\<lparr>cfgNet := Enable e b (cfgNet cfg)\<rparr>))"

definition connect :: "nat \<Rightarrow> ('c, 'n) config \<Rightarrow> 'c failure + ('c, 'n) config" where
  "connect i cfg =
     (let cfg = cfg\<lparr>connected := (connected cfg)[i := True]\<rparr>
      in case go_for (\<lambda>j cfg. if connected cfg ! j then enableEnd i j True cfg else Inr cfg)
              [0..<cfgN cfg] cfg of
           Inl e \<Rightarrow> Inl e
         | Inr cfg \<Rightarrow>
             go_for (\<lambda>j cfg. if connected cfg ! j then enableEnd j i True cfg else Inr cfg)
               [0..<cfgN cfg] cfg)"

definition disconnect :: "nat \<Rightarrow> ('c, 'n) config \<Rightarrow> 'c failure + ('c, 'n) config" where
  "disconnect i cfg =
     (let cfg = cfg\<lparr>connected := (connected cfg)[i := False]\<rparr>
      in case go_for (\<lambda>j cfg. if endnames cfg ! i \<noteq> None then enableEnd i j False cfg else Inr cfg)
              [0..<cfgN cfg] cfg of
           Inl e \<Rightarrow> Inl e
         | Inr cfg \<Rightarrow>
             go_for (\<lambda>j cfg. if endnames cfg ! j \<noteq> None then enableEnd j i False cfg else Inr cfg)
               [0..<cfgN cfg] cfg)"

section \<open>Crashing and starting peers\<close>

text \<open>The object \<open>saved[i]\<close> points to.\<close>

definition savedNow :: "('c, 'n) config \<Rightarrow> nat \<Rightarrow> 'c gob_value Persister option" where
  "savedNow cfg i =
     (case rafts cfg ! i of Some rf \<Rightarrow> Some (persister rf) | None \<Rightarrow> saved cfg ! i)"

definition crash1 :: "nat \<Rightarrow> ('c, 'n) config \<Rightarrow> 'c failure + ('c, 'n) config" where
  "crash1 i cfg =
     (case disconnect i cfg of
        Inl e \<Rightarrow> Inl e
      | Inr cfg \<Rightarrow>
          let cfg = cfg\<lparr>cfgNet := DeleteServer i (cfgNet cfg)\<rparr>;
              ps = map_option Persister_Copy (savedNow cfg i);
              cfg = cfg\<lparr>rafts := (rafts cfg)[i := None]\<rparr>;
              ps = map_option (\<lambda>ps. SaveRaftState (ReadRaftState ps) MakePersister) ps
          in Inr (cfg\<lparr>saved := (saved cfg)[i := ps]\<rparr>))"

text \<open>\<open>ends[j] = cfg.net.MakeEnd(cfg.endnames[i][j]); cfg.net.Connect(cfg.endnames[i][j], j)\<close>.\<close>

definition makeEnd1 :: "nat \<Rightarrow> nat \<Rightarrow> ('c, 'n) config \<Rightarrow> 'c failure + ('c, 'n) config" where
  "makeEnd1 i j cfg =
     (case endOf cfg i j of
        None \<Rightarrow> Inl RuntimePanic
      | Some e \<Rightarrow>
          (case MakeEnd e (cfgNet cfg) of
             Inl er \<Rightarrow> Inl (NetworkFatal er)
           | Inr nt \<Rightarrow> Inr (cfg\<lparr>cfgNet := Connect e j nt\<rparr>)))"

text \<open>
  \<open>names\<close> are the random endpoint names, \<open>c\<close> the clock and random number of \<open>Make\<close>, \<open>srv\<close> the new
  server object.
\<close>

definition start1 ::
    "'n list \<Rightarrow> clock \<Rightarrow> nat \<Rightarrow> nat \<Rightarrow> ('c, 'n) config \<Rightarrow> 'c failure + ('c, 'n) config" where
  "start1 names c srv i cfg =
     (case crash1 i cfg of
        Inl e \<Rightarrow> Inl e
      | Inr cfg \<Rightarrow>
          let cfg = cfg\<lparr>endnames := (endnames cfg)[i := Some names]\<rparr>
          in case go_for (makeEnd1 i) [0..<cfgN cfg] cfg of
               Inl e \<Rightarrow> Inl e
             | Inr cfg \<Rightarrow>
                 let ps = (case saved cfg ! i of Some ps \<Rightarrow> Persister_Copy ps | None \<Rightarrow> MakePersister);
                     rf = Make c (cfgN cfg) (int i) ps
                 in Inr (cfg\<lparr>saved := (saved cfg)[i := Some ps], rafts := (rafts cfg)[i := Some rf],
                             cfgNet := AddServer i srv (cfgNet cfg)\<rparr>))"

definition make_config ::
    "(nat \<Rightarrow> 'n list) \<Rightarrow> (nat \<Rightarrow> clock) \<Rightarrow> int \<Rightarrow> nat \<Rightarrow> bool \<Rightarrow> 'c failure + ('c, 'n) config" where
  "make_config names cs now n unreliable =
     (let cfg = \<lparr>cfgNet = MakeNetwork, cfgN = n, rafts = replicate n None,
                 applyErr = replicate n None, connected = replicate n False,
                 saved = replicate n None, endnames = replicate n None,
                 logs = replicate n Map.empty, cfgStart = now, cfgT0 = 0, rpcs0 = 0, cmds0 = 0,
                 bytes0 = 0, maxIndex = 0, maxIndex0 = 0\<rparr>;
          cfg = setunreliable unreliable cfg;
          cfg = cfg\<lparr>cfgNet := LongDelays True (cfgNet cfg)\<rparr>
      in case go_for (\<lambda>i cfg. start1 (names i) (cs i) i i cfg) [0..<n] cfg of
           Inl e \<Rightarrow> Inl e
         | Inr cfg \<Rightarrow> go_for connect [0..<n] cfg)"

definition checkTimeout :: "bool \<Rightarrow> int \<Rightarrow> ('c, 'n) config \<Rightarrow> 'c failure option" where
  "checkTimeout failed now cfg =
     (if \<not> failed \<and> now - cfgStart cfg > 120000 then Some TestTooLong else None)"

definition cleanup ::
    "bool \<Rightarrow> int \<Rightarrow> ('c, 'n) config \<Rightarrow> ('c, 'n) config \<times> 'c failure option" where
  "cleanup failed now cfg =
     (let cfg = cfg\<lparr>rafts := map (map_option Kill) (rafts cfg), cfgNet := Cleanup (cfgNet cfg)\<rparr>
      in (cfg, checkTimeout failed now cfg))"

section \<open>Watching what is applied\<close>

text \<open>
  The goroutine that reads \<open>applyCh\<close> of peer \<open>i\<close>, for one message. \<open>log.Fatalf\<close> ends the process, so that
  the assignment to \<open>applyErr[i]\<close> after it is never executed.
\<close>

definition applier :: "nat \<Rightarrow> 'c ApplyMsg \<Rightarrow> ('c, 'n) config \<Rightarrow> 'c failure + ('c, 'n) config" where
  "applier i m cfg =
     (if \<not> CommandValid m then Inr cfg
      else
        let v = Command m; k = CommandIndex m;
            err_msg = fold (\<lambda>j e. case (logs cfg ! j) k of
                             Some old \<Rightarrow> if old \<noteq> v then Some (CommitMismatch k i v j old) else e
                           | None \<Rightarrow> e) [0..<length (logs cfg)] None;
            prevok = ((logs cfg ! i) (k - 1) \<noteq> None);
            cfg = cfg\<lparr>logs := (logs cfg)[i := (logs cfg ! i)(k \<mapsto> v)],
                      maxIndex := Max k (maxIndex cfg)\<rparr>;
            err_msg = (if k > 1 \<and> \<not> prevok then Some (OutOfOrder i k) else err_msg)
        in case err_msg of None \<Rightarrow> Inr cfg | Some e \<Rightarrow> Inl (ApplyError e))"

definition nCommitted :: "int \<Rightarrow> ('c, 'n) config \<Rightarrow> 'c failure + int \<times> 'c option" where
  "nCommitted index cfg =
     go_for (\<lambda>i (count, cmd).
        case applyErr cfg ! i of
          Some e \<Rightarrow> Inl (ApplyError e)
        | None \<Rightarrow>
            (case (logs cfg ! i) index of
               None \<Rightarrow> Inr (count, cmd)
             | Some cmd1 \<Rightarrow>
                 if count > 0 \<and> cmd \<noteq> cmd1 then Inl (ValuesDoNotMatch index cmd cmd1)
                 else Inr (count + 1, cmd1)))
       [0..<length (rafts cfg)] (0, None)"

section \<open>Looking for leaders\<close>

text \<open>\<open>obs i\<close> is the peer \<open>cfg.rafts[i]\<close> when its \<open>GetState\<close> is called.\<close>

definition GetStateOf :: "(nat \<Rightarrow> 'c Raft option) \<Rightarrow> nat \<Rightarrow> 'c failure + int \<times> bool" where
  "GetStateOf obs i = (case obs i of None \<Rightarrow> Inl RuntimePanic | Some rf \<Rightarrow> Inr (GetState rf))"

text \<open>The map \<open>leaders\<close>, as the list of its entries in the order of insertion.\<close>

fun addLeader :: "int \<Rightarrow> nat \<Rightarrow> (int \<times> nat list) list \<Rightarrow> (int \<times> nat list) list" where
  "addLeader t i [] = [(t, [i])]"
| "addLeader t i ((u, is) # ls) = (if u = t then (u, is @ [i]) # ls else (u, is) # addLeader t i ls)"

definition collectLeaders ::
    "bool list \<Rightarrow> nat \<Rightarrow> (nat \<Rightarrow> 'c Raft option) \<Rightarrow> 'c failure + (int \<times> nat list) list" where
  "collectLeaders con n obs =
     go_for (\<lambda>i ls.
        if con ! i then
          (case GetStateOf obs i of
             Inl e \<Rightarrow> Inl e
           | Inr (term, leader) \<Rightarrow> Inr (if leader then addLeader term i ls else ls))
        else Inr ls) [0..<n] []"

text \<open>One iteration; \<open>range_order\<close> is the order in which \<open>range\<close> visits the map.\<close>

definition oneLeaderRound ::
    "((int \<times> nat list) list \<Rightarrow> (int \<times> nat list) list) \<Rightarrow> bool list \<Rightarrow> nat \<Rightarrow> (nat \<Rightarrow> 'c Raft option)
      \<Rightarrow> 'c failure + nat option" where
  "oneLeaderRound range_order con n obs =
     (case collectLeaders con n obs of
        Inl e \<Rightarrow> Inl e
      | Inr leaders \<Rightarrow>
          (case go_for (\<lambda>(term, ls) lastTerm.
                  if length ls > 1 then Inl (TermHasLeaders term (length ls))
                  else Inr (if term > lastTerm then term else lastTerm)) (range_order leaders) (- 1) of
             Inl e \<Rightarrow> Inl e
           | Inr lastTermWithLeader \<Rightarrow>
               if length leaders \<noteq> 0 then
                 (case map_of leaders lastTermWithLeader of
                    Some (l # ls) \<Rightarrow> Inr (Some l)
                  | _ \<Rightarrow> Inl RuntimePanic)
               else Inr None))"

text \<open>The list has one element per iteration, which are ten in the code.\<close>

fun checkOneLeader ::
    "((int \<times> nat list) list \<Rightarrow> (int \<times> nat list) list) \<Rightarrow> bool list \<Rightarrow> nat \<Rightarrow> (nat \<Rightarrow> 'c Raft option) list
      \<Rightarrow> 'c failure + nat" where
  "checkOneLeader range_order con n [] = Inl ExpectedOneLeader"
| "checkOneLeader range_order con n (obs # rest) =
     (case oneLeaderRound range_order con n obs of
        Inl e \<Rightarrow> Inl e
      | Inr (Some l) \<Rightarrow> Inr l
      | Inr None \<Rightarrow> checkOneLeader range_order con n rest)"

definition checkTerms :: "bool list \<Rightarrow> nat \<Rightarrow> (nat \<Rightarrow> 'c Raft option) \<Rightarrow> 'c failure + int" where
  "checkTerms con n obs =
     go_for (\<lambda>i term.
        if con ! i then
          (case GetStateOf obs i of
             Inl e \<Rightarrow> Inl e
           | Inr (xterm, _) \<Rightarrow>
               if term = - 1 then Inr xterm
               else if term \<noteq> xterm then Inl DisagreeOnTerm
               else Inr term)
        else Inr term) [0..<n] (- 1)"

definition checkNoLeader :: "bool list \<Rightarrow> nat \<Rightarrow> (nat \<Rightarrow> 'c Raft option) \<Rightarrow> 'c failure + unit" where
  "checkNoLeader con n obs =
     go_for (\<lambda>i u.
        if con ! i then
          (case GetStateOf obs i of
             Inl e \<Rightarrow> Inl e
           | Inr (_, is_leader) \<Rightarrow> if is_leader then Inl (ClaimsToBeLeader i) else Inr u)
        else Inr u) [0..<n] ()"

section \<open>Waiting for agreement\<close>

text \<open>
  What \<open>wait\<close> sees in one iteration: the configuration, and the peers when it asks for their terms.
  It asks all of them, also those that are \<open>nil\<close> since a crash. \<open>None\<close> is the result -1.
\<close>

fun movedOn :: "int \<Rightarrow> (nat \<Rightarrow> 'c Raft option) \<Rightarrow> nat list \<Rightarrow> 'c failure + bool" where
  "movedOn startTerm obs [] = Inr False"
| "movedOn startTerm obs (r # rs) =
     (case GetStateOf obs r of
        Inl e \<Rightarrow> Inl e
      | Inr (t, _) \<Rightarrow> if t > startTerm then Inr True else movedOn startTerm obs rs)"

definition waitDone :: "int \<Rightarrow> int \<Rightarrow> ('c, 'n) config \<Rightarrow> 'c failure + 'c option option" where
  "waitDone index n cfg =
     (case nCommitted index cfg of
        Inl e \<Rightarrow> Inl e
      | Inr (nd, cmd) \<Rightarrow> if nd < n then Inl (OnlyDecided nd index n) else Inr (Some cmd))"

fun wait ::
    "int \<Rightarrow> int \<Rightarrow> int \<Rightarrow> (('c, 'n) config \<times> (nat \<Rightarrow> 'c Raft option)) list \<Rightarrow> ('c, 'n) config
      \<Rightarrow> 'c failure + 'c option option" where
  "wait index n startTerm [] final = waitDone index n final"
| "wait index n startTerm ((cfg, obs) # rest) final =
     (case nCommitted index cfg of
        Inl e \<Rightarrow> Inl e
      | Inr (nd, _) \<Rightarrow>
          if nd \<ge> n then waitDone index n final
          else if startTerm > - 1 then
            (case movedOn startTerm obs [0..<length (rafts cfg)] of
               Inl e \<Rightarrow> Inl e
             | Inr True \<Rightarrow> Inr None
             | Inr False \<Rightarrow> wait index n startTerm rest final)
          else wait index n startTerm rest final)"

text \<open>
  \<open>one\<close>: \<open>tryStart\<close> is the loop over the servers that looks for a leader, \<open>watch\<close> the loop that waits
  for agreement; both are given the states they see. \<open>Start\<close> changes the peer it is called on.
\<close>

fun tryStart ::
    "'c \<Rightarrow> nat \<Rightarrow> nat \<Rightarrow> bool list \<Rightarrow> 'c Raft option list \<Rightarrow> nat \<Rightarrow> nat \<times> 'c Raft option list \<times> int" where
  "tryStart cmd n 0 con rfs starts = (starts, rfs, - 1)"
| "tryStart cmd n (Suc left) con rfs starts =
     (let starts = (starts + 1) mod n
      in case (if con ! starts then rfs ! starts else None) of
           None \<Rightarrow> tryStart cmd n left con rfs starts
         | Some rf \<Rightarrow>
             (case Start cmd rf of
                (rf', index1, _, leader) \<Rightarrow>
                  let rfs = rfs[starts := Some rf']
                  in if leader then (starts, rfs, index1)
                     else tryStart cmd n left con rfs starts))"

fun watch ::
    "'c \<Rightarrow> int \<Rightarrow> int \<Rightarrow> ('c, 'n) config list \<Rightarrow> 'c failure + bool" where
  "watch cmd index expected [] = Inr False"
| "watch cmd index expected (cfg # rest) =
     (case nCommitted index cfg of
        Inl e \<Rightarrow> Inl e
      | Inr (nd, cmd1) \<Rightarrow>
          if nd > 0 \<and> nd \<ge> expected \<and> cmd1 = Some cmd then Inr True
          else watch cmd index expected rest)"

text \<open>One element of the list per round of the outer loop: the peers and what is seen afterwards.\<close>

fun one ::
    "'c \<Rightarrow> nat \<Rightarrow> int \<Rightarrow> bool \<Rightarrow> nat
      \<Rightarrow> (bool list \<times> 'c Raft option list \<times> ('c, 'n) config list) list \<Rightarrow> 'c failure + int" where
  "one cmd n expected retry starts [] = Inl (FailedAgreement (Some cmd))"
| "one cmd n expected retry starts ((con, rfs, seen) # rest) =
     (case tryStart cmd n n con rfs starts of
        (starts, rfs, index) \<Rightarrow>
          if index \<noteq> - 1 then
            (case watch cmd index expected seen of
               Inl e \<Rightarrow> Inl e
             | Inr True \<Rightarrow> Inr index
             | Inr False \<Rightarrow>
                 if \<not> retry then Inl (FailedAgreement (Some cmd))
                 else one cmd n expected retry starts rest)
          else one cmd n expected retry starts rest)"

section \<open>Statistics\<close>

definition begin_test :: "int \<Rightarrow> ('c, 'n) config \<Rightarrow> ('c, 'n) config" where
  "begin_test now cfg =
     cfg\<lparr>cfgT0 := now, rpcs0 := rpcTotal cfg, bytes0 := bytesTotal cfg, cmds0 := 0,
         maxIndex0 := maxIndex cfg\<rparr>"

text \<open>The numbers \<open>end\<close> prints: time, peers, RPCs, bytes, agreements.\<close>

definition end_test ::
    "bool \<Rightarrow> int \<Rightarrow> ('c, 'n) config \<Rightarrow> 'c failure + (int \<times> nat \<times> int \<times> int \<times> int) option" where
  "end_test failed now cfg =
     (case checkTimeout failed now cfg of
        Some e \<Rightarrow> Inl e
      | None \<Rightarrow>
          Inr (if failed then None
               else Some (now - cfgT0 cfg, cfgN cfg, rpcTotal cfg - rpcs0 cfg,
                          bytesTotal cfg - bytes0 cfg, maxIndex cfg - maxIndex0 cfg)))"

end
