(* ===== verification/RaftConfigNet.thy ===== *)
theory RaftConfigNet
  imports RaftConfig
begin

text \<open>
  The endpoints of the Raft test harness: after \<open>make_config\<close> and any sequence of \<open>connect\<close>,
  \<open>disconnect\<close>, \<open>crash1\<close> and \<open>start1\<close>, exactly the endpoints between connected peers are enabled.
\<close>

section \<open>Loops over endpoints\<close>

lemma endOf_net [simp]: "endOf (cfg\<lparr>cfgNet := nt\<rparr>) i j = endOf cfg i j"
  "endOf (cfg\<lparr>connected := c\<rparr>) i j = endOf cfg i j"
  by (simp_all add: endOf_def)

lemma enable_loop:
  assumes "\<And>j nt. Q (cfg\<lparr>cfgNet := nt\<rparr>) j = Q cfg j"
    and "\<And>j. j \<in> set js \<Longrightarrow> Q cfg j \<Longrightarrow> endOf cfg (a j) (b j) = Some (nm j)"
  shows "go_for (\<lambda>j cfg. if Q cfg j then enableEnd (a j) (b j) v cfg else Inr cfg) js cfg =
    Inr (cfg\<lparr>cfgNet := (cfgNet cfg)\<lparr>enabled :=
      (\<lambda>e. if \<exists>j \<in> set js. Q cfg j \<and> nm j = e then v else enabled (cfgNet cfg) e)\<rparr>\<rparr>)"
  using assms
proof (induction js arbitrary: cfg)
  case (Cons x js)
  show ?case
  proof (cases "Q cfg x")
    case True
    let ?cfg = "cfg\<lparr>cfgNet := Enable (nm x) v (cfgNet cfg)\<rparr>"
    have e: "enableEnd (a x) (b x) v cfg = Inr ?cfg"
      using Cons.prems(2) [of x] True by (simp add: enableEnd_def)
    have Q: "Q ?cfg j = Q cfg j" for j using Cons.prems(1) by simp
    have "go_for (\<lambda>j cfg. if Q cfg j then enableEnd (a j) (b j) v cfg else Inr cfg) js ?cfg =
      Inr (?cfg\<lparr>cfgNet := (cfgNet ?cfg)\<lparr>enabled :=
        (\<lambda>e. if \<exists>j \<in> set js. Q ?cfg j \<and> nm j = e then v else enabled (cfgNet ?cfg) e)\<rparr>\<rparr>)"
      by (rule Cons.IH) (use Cons.prems Q in auto)
    also have "(\<lambda>e. if \<exists>j \<in> set js. Q ?cfg j \<and> nm j = e then v else enabled (cfgNet ?cfg) e) =
        (\<lambda>e. if \<exists>j \<in> set (x # js). Q cfg j \<and> nm j = e then v else enabled (cfgNet cfg) e)"
      unfolding Q using True by (auto simp: Enable_def fun_eq_iff)
    also have "?cfg\<lparr>cfgNet := (cfgNet ?cfg)\<lparr>enabled :=
          (\<lambda>e. if \<exists>j \<in> set (x # js). Q cfg j \<and> nm j = e then v else enabled (cfgNet cfg) e)\<rparr>\<rparr> =
        cfg\<lparr>cfgNet := (cfgNet cfg)\<lparr>enabled :=
          (\<lambda>e. if \<exists>j \<in> set (x # js). Q cfg j \<and> nm j = e then v else enabled (cfgNet cfg) e)\<rparr>\<rparr>"
      by (simp add: Enable_def)
    finally show ?thesis using True e by simp
  next
    case False
    then show ?thesis using Cons by simp
  qed
qed simp

section \<open>The invariant\<close>

definition shaped :: "('c, 'n) config \<Rightarrow> bool" where
  "shaped cfg \<longleftrightarrow>
     length (connected cfg) = cfgN cfg \<and> length (endnames cfg) = cfgN cfg \<and>
     length (rafts cfg) = cfgN cfg \<and> length (saved cfg) = cfgN cfg \<and>
     (\<forall>i < cfgN cfg. connected cfg ! i \<longrightarrow> endnames cfg ! i \<noteq> None) \<and>
     (\<forall>i < cfgN cfg. \<forall>ns. endnames cfg ! i = Some ns \<longrightarrow> length ns = cfgN cfg)"

definition wired :: "('c, 'n) config \<Rightarrow> bool" where
  "wired cfg \<longleftrightarrow> shaped cfg \<and>
     (\<forall>i < cfgN cfg. \<forall>i' < cfgN cfg. \<forall>j j' e.
        endOf cfg i j = Some e \<longrightarrow> endOf cfg i' j' = Some e \<longrightarrow> i = i' \<and> j = j') \<and>
     (\<forall>i < cfgN cfg. \<forall>j e. endOf cfg i j = Some e \<longrightarrow> e \<in> ends (cfgNet cfg)) \<and>
     (\<forall>e. enabled (cfgNet cfg) e \<longleftrightarrow>
        (\<exists>i < cfgN cfg. \<exists>j < cfgN cfg. endOf cfg i j = Some e \<and> connected cfg ! i \<and> connected cfg ! j))"

lemma shaped_endOf:
  assumes "shaped cfg" and "i < cfgN cfg" and "j < cfgN cfg" and "endnames cfg ! i \<noteq> None"
  shows "endOf cfg i j = Some (the (endOf cfg i j))"
  using assms by (auto simp: shaped_def endOf_def go_nth_in)

lemma endOf_in: "shaped cfg \<Longrightarrow> i < cfgN cfg \<Longrightarrow> endOf cfg i j = Some e \<Longrightarrow> j < cfgN cfg"
  by (auto simp: shaped_def endOf_def go_nth_Some_iff split: option.splits)

lemma connect_enables:
  assumes sh: "shaped cfg" and i: "i < cfgN cfg" and ne: "endnames cfg ! i \<noteq> None"
  defines "con \<equiv> (connected cfg)[i := True]"
  shows "\<exists>nt. connect i cfg = Inr (cfg\<lparr>connected := con, cfgNet := (cfgNet cfg)\<lparr>enabled := nt\<rparr>\<rparr>) \<and>
    (\<forall>e. nt e \<longleftrightarrow> (\<exists>j < cfgN cfg. con ! j \<and> (endOf cfg i j = Some e \<or> endOf cfg j i = Some e)) \<or> enabled (cfgNet cfg) e)"
proof -
  let ?n = "cfgN cfg" and ?nm = "\<lambda>i j. the (endOf cfg i j)" and ?c0 = "cfg\<lparr>connected := con\<rparr>"
  let ?c1 = "?c0\<lparr>cfgNet := (cfgNet cfg)\<lparr>enabled :=
      (\<lambda>e. if \<exists>j \<in> set [0..<?n]. con ! j \<and> ?nm i j = e then True else enabled (cfgNet cfg) e)\<rparr>\<rparr>"
  let ?nt = "\<lambda>e. if \<exists>j \<in> set [0..<?n]. con ! j \<and> ?nm j i = e then True else enabled (cfgNet ?c1) e"
  have named: "endnames cfg ! j \<noteq> None" if "j < ?n" "con ! j" for j
    using sh ne that by (cases "j = i") (auto simp: shaped_def con_def)
  have "go_for (\<lambda>j cfg. if connected cfg ! j then enableEnd i j True cfg else Inr cfg) [0..<?n] ?c0 = Inr ?c1"
    using enable_loop [where Q = "\<lambda>cfg j. connected cfg ! j" and cfg = ?c0 and js = "[0..<?n]"
        and a = "\<lambda>_. i" and b = "\<lambda>j. j" and nm = "?nm i" and v = True]
      shaped_endOf [OF sh i _ ne] by simp
  moreover have "go_for (\<lambda>j cfg. if connected cfg ! j then enableEnd j i True cfg else Inr cfg) [0..<?n] ?c1 =
      Inr (?c1\<lparr>cfgNet := (cfgNet ?c1)\<lparr>enabled := ?nt\<rparr>\<rparr>)"
    using enable_loop [where Q = "\<lambda>cfg j. connected cfg ! j" and cfg = ?c1 and js = "[0..<?n]"
        and a = "\<lambda>j. j" and b = "\<lambda>_. i" and nm = "\<lambda>j. ?nm j i" and v = True]
      shaped_endOf [OF sh _ i named] by simp
  ultimately have eq: "connect i cfg = Inr (cfg\<lparr>connected := con, cfgNet := (cfgNet cfg)\<lparr>enabled := ?nt\<rparr>\<rparr>)"
    by (simp add: connect_def Let_def con_def)
  have nm: "?nm a b = e \<longleftrightarrow> endOf cfg a b = Some e" if "a < ?n" "b < ?n" "endnames cfg ! a \<noteq> None" for a b e
    using shaped_endOf [OF sh that] by (metis option.sel)
  have "?nt e \<longleftrightarrow> (\<exists>j < ?n. con ! j \<and> ?nm j i = e) \<or> (\<exists>j < ?n. con ! j \<and> ?nm i j = e) \<or> enabled (cfgNet cfg) e" for e
    by auto
  moreover have "(\<exists>j < ?n. con ! j \<and> ?nm j i = e) \<longleftrightarrow> (\<exists>j < ?n. con ! j \<and> endOf cfg j i = Some e)"
    "(\<exists>j < ?n. con ! j \<and> ?nm i j = e) \<longleftrightarrow> (\<exists>j < ?n. con ! j \<and> endOf cfg i j = Some e)" for e
    using nm [OF _ i named] nm [OF i _ ne] by blast+
  ultimately have "?nt e \<longleftrightarrow> (\<exists>j < ?n. con ! j \<and> (endOf cfg i j = Some e \<or> endOf cfg j i = Some e)) \<or> enabled (cfgNet cfg) e" for e
    by blast
  then show ?thesis by (intro exI [of _ ?nt]) (simp only: eq simp_thms)
qed

lemma connect_wired:
  assumes w: "wired cfg" and i: "i < cfgN cfg" and ne: "endnames cfg ! i \<noteq> None"
  shows "\<exists>cfg'. connect i cfg = Inr cfg' \<and> wired cfg' \<and> connected cfg' = (connected cfg)[i := True] \<and>
    endnames cfg' = endnames cfg \<and> cfgN cfg' = cfgN cfg"
proof -
  let ?con = "(connected cfg)[i := True]" and ?n = "cfgN cfg"
  have sh: "shaped cfg" using w by (simp add: wired_def)
  obtain nt where eq: "connect i cfg = Inr (cfg\<lparr>connected := ?con, cfgNet := (cfgNet cfg)\<lparr>enabled := nt\<rparr>\<rparr>)"
    and nt: "\<And>e. nt e \<longleftrightarrow> (\<exists>j < ?n. ?con ! j \<and> (endOf cfg i j = Some e \<or> endOf cfg j i = Some e)) \<or> enabled (cfgNet cfg) e"
    using connect_enables [OF sh i ne] by blast
  have con: "?con ! j \<longleftrightarrow> j = i \<or> connected cfg ! j" if "j < ?n" for j
    using sh i that by (auto simp: shaped_def nth_list_update)
  have "enabled (cfgNet cfg) e \<longleftrightarrow> (\<exists>a < ?n. \<exists>b < ?n. endOf cfg a b = Some e \<and> connected cfg ! a \<and> connected cfg ! b)" for e
    using w unfolding wired_def by blast
  then have "nt e \<longleftrightarrow> (\<exists>a < ?n. \<exists>b < ?n. endOf cfg a b = Some e \<and> ?con ! a \<and> ?con ! b)" for e
    using i con unfolding nt by metis
  moreover have "\<forall>j < ?n. ?con ! j \<longrightarrow> endnames cfg ! j \<noteq> None" using sh ne con by (auto simp: shaped_def)
  ultimately have "wired (cfg\<lparr>connected := ?con, cfgNet := (cfgNet cfg)\<lparr>enabled := nt\<rparr>\<rparr>)"
    using w unfolding wired_def shaped_def by simp
  then show ?thesis using eq by auto
qed

lemma disconnect_disables:
  assumes sh: "shaped cfg" and i: "i < cfgN cfg"
  defines "con \<equiv> (connected cfg)[i := False]"
  shows "\<exists>nt. disconnect i cfg = Inr (cfg\<lparr>connected := con, cfgNet := (cfgNet cfg)\<lparr>enabled := nt\<rparr>\<rparr>) \<and>
    (\<forall>e. nt e \<longleftrightarrow> \<not> (\<exists>j < cfgN cfg. endOf cfg i j = Some e \<or> endOf cfg j i = Some e) \<and> enabled (cfgNet cfg) e)"
proof -
  let ?n = "cfgN cfg" and ?nm = "\<lambda>i j. the (endOf cfg i j)" and ?c0 = "cfg\<lparr>connected := con\<rparr>"
  let ?c1 = "?c0\<lparr>cfgNet := (cfgNet cfg)\<lparr>enabled :=
      (\<lambda>e. if \<exists>j \<in> set [0..<?n]. endnames cfg ! i \<noteq> None \<and> ?nm i j = e then False
           else enabled (cfgNet cfg) e)\<rparr>\<rparr>"
  let ?nt = "\<lambda>e. if \<exists>j \<in> set [0..<?n]. endnames cfg ! j \<noteq> None \<and> ?nm j i = e then False else enabled (cfgNet ?c1) e"
  have "go_for (\<lambda>j cfg. if endnames cfg ! i \<noteq> None then enableEnd i j False cfg else Inr cfg) [0..<?n] ?c0 = Inr ?c1"
    using enable_loop [where Q = "\<lambda>cfg j. endnames cfg ! i \<noteq> None" and cfg = ?c0 and js = "[0..<?n]"
        and a = "\<lambda>_. i" and b = "\<lambda>j. j" and nm = "?nm i" and v = False]
      shaped_endOf [OF sh i] by simp
  moreover have "go_for (\<lambda>j cfg. if endnames cfg ! j \<noteq> None then enableEnd j i False cfg else Inr cfg) [0..<?n] ?c1 =
      Inr (?c1\<lparr>cfgNet := (cfgNet ?c1)\<lparr>enabled := ?nt\<rparr>\<rparr>)"
    using enable_loop [where Q = "\<lambda>cfg j. endnames cfg ! j \<noteq> None" and cfg = ?c1 and js = "[0..<?n]"
        and a = "\<lambda>j. j" and b = "\<lambda>_. i" and nm = "\<lambda>j. ?nm j i" and v = False]
      shaped_endOf [OF sh _ i] by simp
  ultimately have eq: "disconnect i cfg = Inr (cfg\<lparr>connected := con, cfgNet := (cfgNet cfg)\<lparr>enabled := ?nt\<rparr>\<rparr>)"
    by (simp add: disconnect_def Let_def con_def)
  have nm: "endnames cfg ! a \<noteq> None \<and> ?nm a b = e \<longleftrightarrow> endOf cfg a b = Some e" if "a < ?n" "b < ?n" for a b e
    using shaped_endOf [OF sh that] by (cases "endnames cfg ! a") (auto simp: endOf_def)
  have a: "?nt e \<longleftrightarrow> \<not> (\<exists>j < ?n. endnames cfg ! j \<noteq> None \<and> ?nm j i = e) \<and>
      \<not> (\<exists>j < ?n. endnames cfg ! i \<noteq> None \<and> ?nm i j = e) \<and> enabled (cfgNet cfg) e" for e
    by auto
  have b: "(\<exists>j < ?n. endnames cfg ! j \<noteq> None \<and> ?nm j i = e) \<longleftrightarrow> (\<exists>j < ?n. endOf cfg j i = Some e)"
    "(\<exists>j < ?n. endnames cfg ! i \<noteq> None \<and> ?nm i j = e) \<longleftrightarrow> (\<exists>j < ?n. endOf cfg i j = Some e)" for e
    by (simp_all add: nm i cong: conj_cong del: not_None_eq)
  have "?nt e \<longleftrightarrow> \<not> (\<exists>j < ?n. endOf cfg i j = Some e \<or> endOf cfg j i = Some e) \<and> enabled (cfgNet cfg) e" for e
    by (rule trans [OF a]) (simp only: b, blast)
  then show ?thesis by (intro exI [of _ ?nt]) (simp only: eq simp_thms)
qed

lemma disconnect_wired:
  assumes w: "wired cfg" and i: "i < cfgN cfg"
  shows "\<exists>cfg'. disconnect i cfg = Inr cfg' \<and> wired cfg' \<and> connected cfg' = (connected cfg)[i := False] \<and>
    (\<exists>nt. cfg' = cfg\<lparr>connected := (connected cfg)[i := False], cfgNet := nt\<rparr> \<and> ends nt = ends (cfgNet cfg))"
proof -
  let ?con = "(connected cfg)[i := False]" and ?n = "cfgN cfg"
  have sh: "shaped cfg" using w by (simp add: wired_def)
  obtain nt where eq: "disconnect i cfg = Inr (cfg\<lparr>connected := ?con, cfgNet := (cfgNet cfg)\<lparr>enabled := nt\<rparr>\<rparr>)"
    and nt: "\<And>e. nt e \<longleftrightarrow> \<not> (\<exists>j < ?n. endOf cfg i j = Some e \<or> endOf cfg j i = Some e) \<and> enabled (cfgNet cfg) e"
    using disconnect_disables [OF sh i] by blast
  have con: "?con ! j \<longleftrightarrow> j \<noteq> i \<and> connected cfg ! j" if "j < ?n" for j
    using sh i that by (auto simp: shaped_def nth_list_update)
  have inj: "a = a' \<and> b = b'" if "a < ?n" "a' < ?n" "endOf cfg a b = Some e" "endOf cfg a' b' = Some e"
    for a a' b b' e using w that unfolding wired_def by blast
  have "enabled (cfgNet cfg) e \<longleftrightarrow> (\<exists>a < ?n. \<exists>b < ?n. endOf cfg a b = Some e \<and> connected cfg ! a \<and> connected cfg ! b)" for e
    using w unfolding wired_def by blast
  moreover have "(\<exists>j < ?n. endOf cfg i j = Some e \<or> endOf cfg j i = Some e) \<longleftrightarrow> a = i \<or> b = i"
    if "a < ?n" "b < ?n" "endOf cfg a b = Some e" for a b e
    using inj [OF that(1) i that(3)] inj [OF that(1) _ that(3)] that i by metis
  ultimately have "nt e \<longleftrightarrow> (\<exists>a < ?n. \<exists>b < ?n. endOf cfg a b = Some e \<and> (a \<noteq> i \<and> connected cfg ! a) \<and> (b \<noteq> i \<and> connected cfg ! b))" for e
    unfolding nt by blast
  then have "nt e \<longleftrightarrow> (\<exists>a < ?n. \<exists>b < ?n. endOf cfg a b = Some e \<and> ?con ! a \<and> ?con ! b)" for e
    by (simp add: con cong: conj_cong)
  moreover have "\<forall>j < ?n. ?con ! j \<longrightarrow> endnames cfg ! j \<noteq> None" using sh con by (auto simp: shaped_def)
  ultimately have "wired (cfg\<lparr>connected := ?con, cfgNet := (cfgNet cfg)\<lparr>enabled := nt\<rparr>\<rparr>)"
    using w unfolding wired_def shaped_def by simp
  then show ?thesis using eq by auto
qed

lemma wired_cong:
  assumes "wired cfg" and "cfgN cfg' = cfgN cfg" and "connected cfg' = connected cfg"
    and "endnames cfg' = endnames cfg" and "ends (cfgNet cfg') = ends (cfgNet cfg)"
    and "enabled (cfgNet cfg') = enabled (cfgNet cfg)" and "length (rafts cfg') = length (rafts cfg)"
    and "length (saved cfg') = length (saved cfg)"
  shows "wired cfg'"
proof -
  have "endOf cfg' = endOf cfg" using assms(4) by (simp add: endOf_def fun_eq_iff)
  then show ?thesis using assms unfolding wired_def shaped_def by simp
qed

lemma crash1_wired:
  assumes w: "wired cfg" and i: "i < cfgN cfg"
  shows "\<exists>cfg'. crash1 i cfg = Inr cfg' \<and> wired cfg' \<and> connected cfg' = (connected cfg)[i := False] \<and>
    endnames cfg' = endnames cfg \<and> ends (cfgNet cfg') = ends (cfgNet cfg) \<and> cfgN cfg' = cfgN cfg \<and>
    rafts cfg' = (rafts cfg)[i := None]"
proof -
  obtain cfg1 nt where d: "disconnect i cfg = Inr cfg1" "wired cfg1"
    "cfg1 = cfg\<lparr>connected := (connected cfg)[i := False], cfgNet := nt\<rparr>" "ends nt = ends (cfgNet cfg)"
    using disconnect_wired [OF w i] by blast
  then show ?thesis
    by (auto simp: crash1_def Let_def DeleteServer_def intro!: wired_cong [OF d(2)])
qed

lemma ends_loop:
  assumes "endnames cfg ! i = Some ns" and "distinct js" and "distinct ns" and "\<And>j. j \<in> set js \<Longrightarrow> j < length ns"
    and "\<And>j. j \<in> set js \<Longrightarrow> ns ! j \<notin> ends (cfgNet cfg)"
  shows "\<exists>nt. go_for (makeEnd1 i) js cfg
      = Inr (cfg\<lparr>cfgNet := nt\<rparr>) \<and> ends nt = ends (cfgNet cfg) \<union> (\<lambda>j. ns ! j) ` set js \<and>
    enabled nt = (\<lambda>e. enabled (cfgNet cfg) e \<and> e \<notin> (\<lambda>j. ns ! j) ` set js)"
  using assms
proof (induction js arbitrary: cfg)
  case Nil
  show ?case by (rule exI [of _ "cfgNet cfg"]) simp
next
  case (Cons x js)
  let ?cfg = "cfg\<lparr>cfgNet := Connect (ns ! x) x ((cfgNet cfg)\<lparr>ends := insert (ns ! x) (ends (cfgNet cfg)),
      enabled := (enabled (cfgNet cfg))(ns ! x := False),
      connections := (connections (cfgNet cfg))(ns ! x := None)\<rparr>)\<rparr>"
  have x: "endOf cfg i x = Some (ns ! x)" using Cons.prems(1,4) by (simp add: endOf_def go_nth_in)
  have other: "ns ! j \<noteq> ns ! x" if "j \<in> set js" for j
    using Cons.prems(2-4) that nth_eq_iff_index_eq [OF Cons.prems(3), of j x] by auto
  have new: "ns ! j \<notin> ends (cfgNet ?cfg)" if "j \<in> set js" for j
    using Cons.prems(5) [of j] other that by (simp add: Connect_def)
  have "\<exists>nt. go_for (makeEnd1 i) js ?cfg = Inr (?cfg\<lparr>cfgNet := nt\<rparr>) \<and>
      ends nt = ends (cfgNet ?cfg) \<union> (\<lambda>j. ns ! j) ` set js \<and>
      enabled nt = (\<lambda>e. enabled (cfgNet ?cfg) e \<and> e \<notin> (\<lambda>j. ns ! j) ` set js)"
    by (rule Cons.IH) (use new Cons.prems in auto)
  moreover have "makeEnd1 i x cfg = Inr ?cfg"
    using x Cons.prems(5) [of x] by (simp add: makeEnd1_def MakeEnd_def)
  ultimately obtain nt where "go_for (makeEnd1 i) (x # js) cfg = Inr (cfg\<lparr>cfgNet := nt\<rparr>)"
    "ends nt = ends (cfgNet cfg) \<union> (\<lambda>j. ns ! j) ` set (x # js)"
    "enabled nt = (\<lambda>e. enabled (cfgNet cfg) e \<and> e \<notin> (\<lambda>j. ns ! j) ` set (x # js))"
    by (auto simp: Connect_def fun_eq_iff)
  then show ?case by blast
qed

lemma start1_wired:
  assumes w: "wired cfg" and i: "i < cfgN cfg" and ns: "length names = cfgN cfg" "distinct names"
    "set names \<inter> ends (cfgNet cfg) = {}"
  shows "\<exists>cfg'. start1 names c srv i cfg = Inr cfg' \<and> wired cfg' \<and>
    connected cfg' = (connected cfg)[i := False] \<and> endnames cfg' = (endnames cfg)[i := Some names] \<and>
    cfgN cfg' = cfgN cfg \<and> ends (cfgNet cfg') = ends (cfgNet cfg) \<union> set names"
proof -
  obtain cfg1 where c1: "crash1 i cfg = Inr cfg1" "wired cfg1" "connected cfg1 = (connected cfg)[i := False]"
    "endnames cfg1 = endnames cfg" "ends (cfgNet cfg1) = ends (cfgNet cfg)" "cfgN cfg1 = cfgN cfg"
    using crash1_wired [OF w i] by blast
  let ?n = "cfgN cfg" and ?c2 = "cfg1\<lparr>endnames := (endnames cfg1)[i := Some names]\<rparr>"
  have sh: "shaped cfg1" using c1(2) by (simp add: wired_def)
  have le: "length (endnames cfg1) = ?n" "length (connected cfg1) = ?n" using sh c1(6) by (auto simp: shaped_def)
  have img: "(\<lambda>j. names ! j) ` set [0..<?n] = set names"
    using ns(1) map_nth [of names] by (metis set_map)
  have new: "names ! j \<notin> ends (cfgNet ?c2)" if "j \<in> set [0..<?n]" for j
  proof -
    have "names ! j \<in> set names" using that ns(1) by simp
    then show ?thesis using ns(3) c1(5) by (simp add: disjoint_iff)
  qed
  obtain nt where nt: "go_for (makeEnd1 i) [0..<?n] ?c2
      = Inr (?c2\<lparr>cfgNet := nt\<rparr>)" "ends nt = ends (cfgNet cfg1) \<union> set names"
    "enabled nt = (\<lambda>e. enabled (cfgNet cfg1) e \<and> e \<notin> set names)"
    using ends_loop [of ?c2 i names "[0..<?n]"] ns(1,2) new i le(1) unfolding img by auto
  define cfg3 where "cfg3 = ?c2\<lparr>cfgNet := nt\<rparr>"
  have e3: "endOf cfg3 a b = (if a = i then go_nth names (int b) else endOf cfg1 a b)" if "a < ?n" for a b
    using that i le by (auto simp: cfg3_def endOf_def nth_list_update)
  have off: "\<not> connected cfg1 ! i" using c1(3) i w by (auto simp: wired_def shaped_def)
  have old: "e \<in> ends (cfgNet cfg)" if "a < ?n" "endOf cfg1 a b = Some e" for a b e
    using c1(2,5,6) that unfolding wired_def by metis
  have nm: "e \<in> set names" if "go_nth names b = Some e" for b e
    using that by (auto simp: go_nth_Some_iff)
  have en: "enabled nt e \<longleftrightarrow> (\<exists>a < ?n. \<exists>b < ?n. endOf cfg3 a b = Some e \<and> connected cfg1 ! a \<and> connected cfg1 ! b)" for e
  proof -
    have "enabled nt e \<longleftrightarrow> e \<notin> set names \<and>
        (\<exists>a < ?n. \<exists>b < ?n. endOf cfg1 a b = Some e \<and> connected cfg1 ! a \<and> connected cfg1 ! b)"
      using c1(2,6) unfolding wired_def nt(3) by auto
    then show ?thesis using e3 off old ns(3) by (metis disjoint_iff)
  qed
  have inj: "a = a' \<and> b = b'" if "a < ?n" "a' < ?n" "endOf cfg3 a b = Some e" "endOf cfg3 a' b' = Some e"
    for a a' b b' e
  proof -
    have "a = a' \<and> b = b'" if "a \<noteq> i" "a' \<noteq> i"
      using c1(2,6) e3 \<open>a < ?n\<close> \<open>a' < ?n\<close> \<open>endOf cfg3 a b = Some e\<close> \<open>endOf cfg3 a' b' = Some e\<close> that
      unfolding wired_def by metis
    moreover have "b = b'" if "a = i" "a' = i"
      using ns(2) \<open>endOf cfg3 a b = Some e\<close> \<open>endOf cfg3 a' b' = Some e\<close> that i
      by (auto simp: e3 go_nth_Some_iff nth_eq_iff_index_eq)
    moreover have "a = i \<longleftrightarrow> a' = i"
      using e3 old nm ns(3) that by (metis disjoint_iff)
    ultimately show ?thesis by metis
  qed
  have sh3: "shaped cfg3"
    using sh off c1(6) ns(1) i le by (auto simp: cfg3_def shaped_def nth_list_update)
  have "e \<in> ends nt" if "a < ?n" "endOf cfg3 a b = Some e" for a b e
    using e3 [OF that(1)] that old nm nt(2) c1(5) by (auto split: if_splits)
  then have "wired cfg3" using sh3 inj en c1(6) unfolding wired_def by (simp add: cfg3_def)
  then have "wired (cfg3\<lparr>saved := sv, rafts := rf, cfgNet := AddServer i srv nt\<rparr>)"
    if "length sv = length (saved cfg1)" "length rf = length (rafts cfg1)" for sv rf
    by (rule wired_cong) (use that in \<open>simp_all add: cfg3_def AddServer_def\<close>)
  then show ?thesis
    using c1 nt(1) by (auto simp: start1_def Let_def cfg3_def AddServer_def nt(2))
qed

lemma wired_enabled:
  assumes "wired cfg"
  shows "enabled (cfgNet cfg) e \<longleftrightarrow>
      (\<exists>i < cfgN cfg. \<exists>j < cfgN cfg. endOf cfg i j = Some e \<and> connected cfg ! i \<and> connected cfg ! j)"
    and "i < cfgN cfg \<Longrightarrow> j < cfgN cfg \<Longrightarrow> endOf cfg i j = Some e \<Longrightarrow>
      enabled (cfgNet cfg) e \<longleftrightarrow> connected cfg ! i \<and> connected cfg ! j"
proof -
  show en: "enabled (cfgNet cfg) e \<longleftrightarrow>
      (\<exists>i < cfgN cfg. \<exists>j < cfgN cfg. endOf cfg i j = Some e \<and> connected cfg ! i \<and> connected cfg ! j)"
    using assms unfolding wired_def by blast
  assume ij: "i < cfgN cfg" "j < cfgN cfg" "endOf cfg i j = Some e"
  have "a = i \<and> b = j" if "a < cfgN cfg" "endOf cfg a b = Some e" for a b
    using assms that ij unfolding wired_def by blast
  then show "enabled (cfgNet cfg) e \<longleftrightarrow> connected cfg ! i \<and> connected cfg ! j"
    using en ij by blast
qed

section \<open>Every configuration\<close>

text \<open>The harness's operations on peers; a peer is connected only after it has been started, and
  \<open>randstring\<close> never draws a name twice.\<close>

inductive cfg_step :: "('c, 'n) config \<Rightarrow> ('c, 'n) config \<Rightarrow> bool" where
  cs_connect: "i < cfgN cfg \<Longrightarrow> endnames cfg ! i \<noteq> None \<Longrightarrow> connect i cfg = Inr cfg' \<Longrightarrow> cfg_step cfg cfg'"
| cs_disconnect: "i < cfgN cfg \<Longrightarrow> disconnect i cfg = Inr cfg' \<Longrightarrow> cfg_step cfg cfg'"
| cs_crash1: "i < cfgN cfg \<Longrightarrow> crash1 i cfg = Inr cfg' \<Longrightarrow> cfg_step cfg cfg'"
| cs_start1: "i < cfgN cfg \<Longrightarrow> length names = cfgN cfg \<Longrightarrow> distinct names \<Longrightarrow>
     set names \<inter> ends (cfgNet cfg) = {} \<Longrightarrow> start1 names c srv i cfg = Inr cfg' \<Longrightarrow> cfg_step cfg cfg'"

lemma cfg_step_wired:
  assumes "cfg_step cfg cfg'" and "wired cfg"
  shows "wired cfg'"
  using assms
proof (induction rule: cfg_step.induct)
  case (cs_connect i cfg cfg')
  then show ?case using connect_wired [of cfg i] by auto
next
  case (cs_disconnect i cfg cfg')
  then show ?case using disconnect_wired [of cfg i] by auto
next
  case (cs_crash1 i cfg cfg')
  then show ?case using crash1_wired [of cfg i] by auto
next
  case (cs_start1 i cfg names c srv cfg')
  then show ?case using start1_wired [of cfg i names c srv] by auto
qed

definition fresh_names :: "nat \<Rightarrow> (nat \<Rightarrow> 'n list) \<Rightarrow> bool" where
  "fresh_names n names \<longleftrightarrow> (\<forall>i < n. length (names i) = n) \<and> distinct (concat (map names [0..<n]))"

lemma start_all:
  assumes "fresh_names n names" and "wired cfg" and "cfgN cfg = n" and "m \<le> n"
    and "ends (cfgNet cfg) = {}"
  shows "\<exists>cfg'. go_for (\<lambda>i cfg. start1 (names i) (cs i) i i cfg) [0..<m] cfg = Inr cfg' \<and> wired cfg' \<and>
    cfgN cfg' = n \<and> ends (cfgNet cfg') = set (concat (map names [0..<m])) \<and>
    (\<forall>i < m. endnames cfg' ! i \<noteq> None)"
  using assms(4)
proof (induction m)
  case 0
  then show ?case using assms by simp
next
  case (Suc m)
  let ?f = "\<lambda>i cfg. start1 (names i) (cs i) i i cfg"
  obtain c1 where c1: "go_for ?f [0..<m] cfg = Inr c1" "wired c1" "cfgN c1 = n"
    "ends (cfgNet c1) = set (concat (map names [0..<m]))" "\<forall>i < m. endnames c1 ! i \<noteq> None"
    using Suc by auto
  have d: "distinct (concat (map names [0..<n]))" "length (names m) = n"
    using assms(1) Suc.prems by (auto simp: fresh_names_def)
  have "[0..<n] = [0..<m] @ m # [Suc m..<n]"
    using Suc.prems by (metis Suc_le_lessD le_add_diff_inverse less_imp_le_nat plus_nat.add_0 upt_add_eq_append upt_conv_Cons zero_le)
  then have "distinct (names m)" "set (names m) \<inter> ends (cfgNet c1) = {}"
    using d(1) c1(4) by auto
  then obtain c2 where c2: "start1 (names m) (cs m) m m c1 = Inr c2" "wired c2" "cfgN c2 = n"
    "ends (cfgNet c2) = ends (cfgNet c1) \<union> set (names m)" "endnames c2 = (endnames c1)[m := Some (names m)]"
    using start1_wired [OF c1(2), of m "names m" "cs m" m] d(2) c1(3) Suc.prems by auto
  have "length (endnames c1) = n" using c1(2,3) by (simp add: wired_def shaped_def)
  then have "\<forall>i < Suc m. endnames c2 ! i \<noteq> None"
    using c1(5) c2(5) Suc.prems by (auto simp: less_Suc_eq nth_list_update)
  moreover have "go_for ?f [0..<Suc m] cfg = Inr c2" using c1(1) c2(1) by (simp add: go_for_append)
  ultimately show ?case using c2 c1(4) by auto
qed

lemma connect_all:
  assumes "wired cfg" and "cfgN cfg = n" and "\<forall>i < n. endnames cfg ! i \<noteq> None" and "m \<le> n"
  shows "\<exists>cfg'. go_for connect [0..<m] cfg = Inr cfg' \<and> wired cfg' \<and> cfgN cfg' = n \<and>
    endnames cfg' = endnames cfg \<and> (\<forall>i < m. connected cfg' ! i)"
  using assms(4)
proof (induction m)
  case 0
  then show ?case using assms by simp
next
  case (Suc m)
  then obtain c1 where c1: "go_for connect [0..<m] cfg = Inr c1" "wired c1" "cfgN c1 = n"
    "endnames c1 = endnames cfg" "\<forall>i < m. connected c1 ! i" by auto
  then obtain c2 where c2: "connect m c1 = Inr c2" "wired c2" "cfgN c2 = n"
    "endnames c2 = endnames cfg" "connected c2 = (connected c1)[m := True]"
    using connect_wired [OF c1(2), of m] assms(3) Suc.prems by auto
  have "length (connected c1) = n" using c1(2,3) by (simp add: wired_def shaped_def)
  then have "\<forall>i < Suc m. connected c2 ! i"
    using c1(5) c2(5) Suc.prems by (auto simp: less_Suc_eq nth_list_update)
  then show ?case using c1(1) c2 by (auto simp: go_for_append)
qed

lemma make_config_wired:
  fixes names :: "nat \<Rightarrow> 'n list"
  assumes "fresh_names n names"
  shows "\<exists>cfg :: ('c, 'n) config. make_config names cs now n unreliable = Inr cfg \<and> wired cfg \<and> cfgN cfg = n \<and>
    (\<forall>i < n. endnames cfg ! i \<noteq> None \<and> connected cfg ! i)"
proof -
  define c0 :: "('c, 'n) config" where
    "c0 = \<lparr>cfgNet = LongDelays True (Reliable (\<not> unreliable) MakeNetwork), cfgN = n, rafts = replicate n None,
                 applyErr = replicate n None, connected = replicate n False,
                 saved = replicate n None, endnames = replicate n None,
                 logs = replicate n Map.empty, cfgStart = now, cfgT0 = 0, rpcs0 = 0, cmds0 = 0,
                 bytes0 = 0, maxIndex = 0, maxIndex0 = 0\<rparr>"
  have w: "wired c0" "cfgN c0 = n" "ends (cfgNet c0) = {}"
    by (auto simp: c0_def wired_def shaped_def endOf_def LongDelays_def Reliable_def MakeNetwork_def)
  obtain c1 where c1: "go_for (\<lambda>i cfg. start1 (names i) (cs i) i i cfg) [0..<n] c0 = Inr c1" "wired c1"
    "cfgN c1 = n" "\<forall>i < n. endnames c1 ! i \<noteq> None"
    using start_all [OF assms w(1,2) order_refl w(3)] by blast
  obtain c2 where c2: "go_for connect [0..<n] c1 = Inr c2" "wired c2" "cfgN c2 = n"
    "endnames c2 = endnames c1" "\<forall>i < n. connected c2 ! i"
    using connect_all [OF c1(2-4) order_refl] by blast
  have "make_config names cs now n unreliable = Inr c2"
    using c1(1) c2(1) by (simp add: make_config_def Let_def setunreliable_def c0_def)
  then show ?thesis using c1(4) c2 by auto
qed

interpretation harness: inductive_invariant
  "\<lambda>cfg. \<exists>names cs now n unreliable. fresh_names n names \<and> make_config names cs now n unreliable = Inr cfg"
  cfg_step wired
proof
  fix cfg :: "('a, 'b) config"
  assume "\<exists>names cs now n unreliable. fresh_names n names \<and> make_config names cs now n unreliable = Inr cfg"
  then show "wired cfg" using make_config_wired by (metis sum.inject(2))
qed (rule cfg_step_wired)

text \<open>Property C12: the harness can always be set up, and after any sequence of \<open>connect\<close>, \<open>disconnect\<close>,
  \<open>crash1\<close> and \<open>start1\<close> an endpoint is enabled exactly when it is the one from one connected peer's
  present instance to another connected peer: endpoints of crashed or disconnected peers and of
  earlier instances carry nothing.\<close>

theorem endpoints_follow_connections:
  fixes names :: "nat \<Rightarrow> 'n list"
  assumes "fresh_names n names"
  shows "\<exists>cfg0 :: ('c, 'n) config. make_config names cs now n unreliable = Inr cfg0 \<and> (\<forall>i < n. connected cfg0 ! i) \<and>
    (\<forall>cfg. cfg_step\<^sup>*\<^sup>* cfg0 cfg \<longrightarrow>
       (\<forall>e. enabled (cfgNet cfg) e \<longleftrightarrow>
          (\<exists>i < cfgN cfg. \<exists>j < cfgN cfg. endOf cfg i j = Some e \<and> connected cfg ! i \<and> connected cfg ! j)) \<and>
       (\<forall>i < cfgN cfg. \<forall>j < cfgN cfg. \<forall>e.
          endOf cfg i j = Some e \<longrightarrow> (enabled (cfgNet cfg) e \<longleftrightarrow> connected cfg ! i \<and> connected cfg ! j)))"
proof -
  obtain c0 :: "('c, 'n) config" where c0: "make_config names cs now n unreliable = Inr c0" "\<forall>i < n. connected c0 ! i"
    using make_config_wired [OF assms] by blast
  have w: "wired cfg" if "cfg_step\<^sup>*\<^sup>* c0 cfg" for cfg
    using harness.reachable_inv [OF _ that] assms c0(1) by blast
  show ?thesis
    by (intro exI [of _ c0] conjI c0 allI impI; drule w) (erule wired_enabled, erule (3) wired_enabled)
qed

theorem endpoints_follow_connections_witness:
  "\<exists>cfg0. make_config (\<lambda>i. [(i, 0 :: nat), (i, 1)]) (\<lambda>_. (0, 0)) 0 2 False = (Inr cfg0 :: nat failure + _) \<and>
     connected cfg0 ! 1 \<and>
     (case disconnect 1 cfg0 of
        Inl e \<Rightarrow> False
      | Inr cfg \<Rightarrow> endOf cfg 0 1 = Some (0, 1) \<and> \<not> enabled (cfgNet cfg) (0, 1) \<and> enabled (cfgNet cfg) (0, 0))"
proof -
  let ?names = "\<lambda>i. [(i, 0 :: nat), (i, 1)]"
  have "fresh_names 2 ?names" by (auto simp: fresh_names_def upt_rec)
  from endpoints_follow_connections [OF this, of "\<lambda>_. (0, 0)" 0 False]
  obtain cfg0 :: "(nat, nat \<times> nat) config" where c: "make_config ?names (\<lambda>_. (0, 0)) 0 2 False = Inr cfg0"
    "\<forall>i < 2. connected cfg0 ! i"
    and all: "\<And>cfg i j e. cfg_step\<^sup>*\<^sup>* cfg0 cfg \<Longrightarrow> i < cfgN cfg \<Longrightarrow> j < cfgN cfg \<Longrightarrow> endOf cfg i j = Some e \<Longrightarrow>
      enabled (cfgNet cfg) e \<longleftrightarrow> connected cfg ! i \<and> connected cfg ! j" by blast
  have ev: "case make_config ?names (\<lambda>_. (0, 0)) 0 2 False :: nat failure + (nat, nat \<times> nat) config of
      Inl e \<Rightarrow> False
    | Inr cfg0 \<Rightarrow> cfgN cfg0 = 2 \<and> (case disconnect 1 cfg0 of Inl e \<Rightarrow> False
        | Inr cfg \<Rightarrow> cfgN cfg = 2 \<and> endOf cfg 0 1 = Some (0, 1) \<and> endOf cfg 0 0 = Some (0, 0) \<and>
            connected cfg = [True, False])"
    by code_simp
  then obtain cfg where d: "disconnect 1 cfg0 = Inr cfg" "cfgN cfg0 = 2" "cfgN cfg = 2" "endOf cfg 0 1 = Some (0, 1)"
    "endOf cfg 0 0 = Some (0, 0)" "connected cfg = [True, False]"
    using c(1) by (auto split: sum.splits)
  then have "cfg_step\<^sup>*\<^sup>* cfg0 cfg" by (intro r_into_rtranclp cs_disconnect) auto
  note a = all [OF this]
  have "\<not> enabled (cfgNet cfg) (0, 1)" "enabled (cfgNet cfg) (0, 0)"
    using a [of 0 1] a [of 0 0] d by simp_all
  then show ?thesis using c d by simp
qed

end
