(* ===== verification/RaftApplied.thy ===== *)
theory RaftApplied
  imports RaftSafety
begin

text \<open>
  What the peers of a cluster have delivered to their services: the entry under an index is the same
  for all peers and for all time, and \<open>lastApplied\<close> changes only by delivering and by a restart.
\<close>

section \<open>What has been recorded\<close>

definition recorded :: "nat \<Rightarrow> 'c ghost \<Rightarrow> int \<Rightarrow> 'c option \<Rightarrow> bool" where
  "recorded n G k v \<longleftrightarrow> 0 < k \<and>
     (\<exists>t x. committed n G t x \<and> nat k \<le> x \<and> leCommand (LL G t ! nat k) = v)"

lemma recorded_grow:
  assumes "ginv n H G" and "grow q G G'" and "recorded n G k v"
  shows "recorded n G' k v"
proof -
  obtain t x where t: "committed n G t x" "nat k \<le> x" "leCommand (LL G t ! nat k) = v" and k: "0 < k"
    using assms(3) by (auto simp: recorded_def)
  have "nat k < length (LL G t)" using committed_in(1) [OF assms(1) t(1)] t(2) by simp
  moreover have "prefix (LL G t) (LL G' t)" using assms(2) by (simp add: grow_def)
  ultimately have "LL G' t ! nat k = LL G t ! nat k" by (auto simp: prefix_def nth_append)
  then show ?thesis
    unfolding recorded_def using grow_committed [OF assms(1,2) t(1)] t(2,3) k
    by (intro conjI exI [of _ t] exI [of _ x]) simp_all
qed

lemma recorded_unique:
  assumes G: "ginv n H G" and V: "\<And>i u. i < n \<Longrightarrow> VL G i u \<noteq> [] \<Longrightarrow> voted_ok G i u"
    and "recorded n G k v" and "recorded n G k w"
  shows "v = w"
proof -
  obtain t x where t: "committed n G t x" "nat k \<le> x" "leCommand (LL G t ! nat k) = v"
    using assms(3) by (auto simp: recorded_def)
  obtain u y where u: "committed n G u y" "nat k \<le> y" "leCommand (LL G u ! nat k) = w"
    using assms(4) by (auto simp: recorded_def)
  have "take (Suc (nat k)) (LL G t) = take (Suc (nat k)) (LL G u)"
  proof (cases "t \<le> u")
    case True
    show ?thesis by (rule committed_agree [OF G V t(1) u(1) True t(2)])
  next
    case False
    then have le: "u \<le> t" by simp
    show ?thesis by (rule committed_agree [OF G V u(1) t(1) le u(2), symmetric])
  qed
  then have "LL G t ! nat k = LL G u ! nat k" by (metis lessI nth_take)
  then show ?thesis using t(3) u(3) by simp
qed

lemma applied_recorded:
  assumes j: "justified n G u (nat (commitIndex rf)) (log rf)" and "0 \<le> lastApplied rf"
    and a: "applyNext rf = Some (Some (rf', m))"
  shows "recorded n G (CommandIndex m) (Command m)" and "CommandIndex m = lastApplied rf + 1"
    and "CommandValid m" and "lastApplied rf' = lastApplied rf + 1"
proof -
  let ?k = "lastApplied rf + 1"
  have m: "CommandIndex m = ?k" "Command m = leCommand (log rf ! nat ?k)" "?k \<le> commitIndex rf"
    "CommandValid m" "lastApplied rf' = ?k"
    using a by (auto simp: applyNext_def Let_def go_nth_Some_iff split: if_splits)
  then show "CommandIndex m = lastApplied rf + 1" "CommandValid m" "lastApplied rf' = lastApplied rf + 1" by simp_all
  obtain t x where t: "committed n G t x" "nat (commitIndex rf) \<le> x"
    "take (Suc (nat (commitIndex rf))) (log rf) = take (Suc (nat (commitIndex rf))) (LL G t)"
    using j m(3) assms(2) by (auto simp: justified_def)
  have k: "nat ?k \<le> nat (commitIndex rf)" using m(3) by simp
  then have "log rf ! nat ?k = LL G t ! nat ?k"
    using t(3) by (metis le_imp_less_Suc nth_take)
  moreover have "nat ?k \<le> x" using k t(2) by simp
  ultimately show "recorded n G (CommandIndex m) (Command m)"
    using t(1) m assms(2) unfolding recorded_def by fastforce
qed

lemma exec_lastApplied_eq:
  assumes "exec a s = Some t" and "\<And>i. a \<noteq> Apply i" and "i < length (nodes s)"
  shows "lastApplied (nodes t ! i) = (case a of Restart j c \<Rightarrow> if i = j then 0 else lastApplied (nodes s ! i)
    | _ \<Rightarrow> lastApplied (nodes s ! i))"
proof -
  have one: "lastApplied (nodes t ! i) = lastApplied (nodes s ! i)"
    if "nodes t = (nodes s)[k := rf']" "node_op (nodes s ! k) rf'" for k rf'
    using node_op_lastApplied [OF that(2)] that(1) assms(3) by (cases "i = k") auto
  from assms(1) show ?thesis
  proof (cases rule: exec_cases)
    case (timeout j now c rf' rvs)
    show ?thesis using one [OF timeout(4)] op_timeout [OF timeout(3)] timeout(1) by simp
  next
    case (rvreq w j k x now c1 c2 rf' r)
    show ?thesis using one [OF rvreq(5)] op_RequestVote [OF rvreq(4)] rvreq(1) by simp
  next
    case (rvrep j k x r now c1 c2 rf' aes sp)
    show ?thesis using one [OF rvrep(5)] op_voteReply [OF rvrep(4)] rvrep(1) by simp
  next
    case (aereq w j k b now c1 c2 rf' r nf)
    show ?thesis using one [OF aereq(5)] op_AppendEntries [OF aereq(4)] aereq(1) by simp
  next
    case (aerep j k b r now c1 c2 rf' nf)
    show ?thesis using one [OF aerep(5)] op_appendReply [OF aerep(4)] aerep(1) by simp
  next
    case (heartbeat j now rf' aes g)
    show ?thesis using one [OF heartbeat(4)] op_periodic [OF heartbeat(3)] heartbeat(1) by simp
  next
    case (client j cmd)
    show ?thesis using one [OF client(3)] op_Start [of cmd _ _ "snd (Start cmd (nodes s ! j))"] client(1) by simp
  next
    case (restart j c rf')
    have "lastApplied rf' = 0"
      by (auto simp: restart(3) Make_def Let_def readPersist_def resetElectionTimer_def split: option.splits)
    then show ?thesis using restart(1,4) assms(3) by (cases "i = j") auto
  qed (use assms(2) in auto)
qed

lemma exec_lastApplied:
  assumes "vinv (nodes s) (net s) H C" and "exec a s = Some t" and "\<And>i. a \<noteq> Apply i" and "i < length (nodes s)"
  shows "lastApplied (nodes t ! i) \<le> lastApplied (nodes s ! i)"
proof -
  have "0 \<le> lastApplied (nodes s ! i)"
    using assms(1,4) by (auto simp: vinv_def node_ok_def node_inv_def)
  then show ?thesis using exec_lastApplied_eq [OF assms(2-4)] by (simp split: action.splits)
qed

section \<open>Commands\<close>

text \<open>
  Only the entry at index 0 has no command; all commands in logs and messages are from a set \<open>X\<close> that has
  the commands of the calls of \<open>Start\<close>.
\<close>

definition commands :: "'c set \<Rightarrow> 'c LogEntry list \<Rightarrow> bool" where
  "commands X es \<longleftrightarrow> (\<forall>e \<in> set es. leCommand e \<in> Some ` X)"

fun msg_commands :: "'c set \<Rightarrow> 'c rpc \<Rightarrow> bool" where
  "msg_commands X (AEReq w i j b) = commands X (aeEntries b)"
| "msg_commands X m = True"

definition cmd_inv :: "'c set \<Rightarrow> 'c cluster \<Rightarrow> bool" where
  "cmd_inv X s \<longleftrightarrow> (\<forall>rf \<in> set (nodes s). commands X (tl (log rf))) \<and> (\<forall>m \<in> set (net s). msg_commands X m)"

lemma commands_sub: "commands X es \<Longrightarrow> set es' \<subseteq> set es \<Longrightarrow> commands X es'"
  by (auto simp: commands_def)

lemma mergeLog_commands:
  assumes "commands X (tl l)" and "commands X es" and "1 \<le> p" and "l \<noteq> []"
  shows "commands X (tl (mergeLog p l es))"
proof -
  have "tl (take p l @ es) = take (p - 1) (tl l) @ es" using assms(3,4) by (cases l; cases p) auto
  then show ?thesis using assms(1,2) by (auto simp: mergeLog_def commands_def dest!: in_set_takeD)
qed

lemma AppendEntries_commands:
  assumes "AppendEntries c1 c2 b rf = Some (rf', r, nf)" and "commands X (tl (log rf))" and "commands X (aeEntries b)"
    and "log rf \<noteq> []"
  shows "commands X (tl (log rf'))"
  using assms(1)
proof (cases rule: AppendEntries_cases)
  case (success rf1 rf2)
  then have "log rf' = mergeLog (nat (aePrevLogIndex b) + 1) (log rf) (aeEntries b)" by (simp add: frame_simps)
  then show ?thesis using mergeLog_commands [OF assms(2,3) _ assms(4)] by simp
qed (use assms(2) in \<open>auto simp: frame_simps\<close>)

lemma voteReply_log:
  assumes "sendRequestVoteAndHandleReply now c args srv res rf = Some (rf', aes, sp)"
  shows "log rf' = log rf \<and> (aes = [] \<or> (\<exists>rf1. log rf1 = log rf \<and> sendAppendEntriesToPeers now rf1 = Some (rf', aes)))"
  using assms
proof (cases rule: voteReply_cases)
  case (elected reply)
  moreover have "log rf' = log (becomeLeader (rf\<lparr>votesReceived := votesReceived rf + 1\<rparr>))"
    using lquiet_sends [OF elected(6)] by (simp add: lquiet_def)
  ultimately show ?thesis by (auto simp: becomeLeader_def)
qed (auto simp: frame_simps)

lemma sends_commands:
  assumes "sendAppendEntriesToPeers now rf = Some (rf', aes)" and "commands X (tl (log rf))" and "(j, b) \<in> set aes"
  shows "commands X (aeEntries b)"
proof -
  have "those (map (\<lambda>i. map_option (Pair i) (appendRequest rf i)) (otherPeers rf)) = Some aes"
    using assms(1) by (auto simp: sendAppendEntriesToPeers_def split: option.splits)
  from those_pairs [OF this assms(3)] have r: "appendRequest rf j = Some b" by simp
  obtain nxt where n: "0 \<le> nxt - 1"
    "(if go_len (log rf) > nxt then go_from (log rf) nxt else Some []) = Some (aeEntries b)"
    using r by (auto simp: appendRequest_def go_nth_Some_iff split: option.splits)
  have "drop (nat nxt) (log rf) = drop (nat nxt - 1) (tl (log rf))"
    using n(1) by (simp add: drop_Suc [symmetric] Suc_diff_le)
  then have "set (aeEntries b) \<subseteq> set (tl (log rf))"
    using n set_drop_subset [of "nat nxt - 1" "tl (log rf)"] by (auto simp: go_from_Some_iff split: if_splits)
  then show ?thesis by (rule commands_sub [OF assms(2)])
qed

lemma sent_messages:
  assumes "\<And>j b. (j, b) \<in> set aes \<Longrightarrow> commands X (aeEntries b)" and "m \<in> set (sendAppendEntries i aes)"
  shows "msg_commands X m"
  using assms by (auto simp: sendAppendEntries_def)

lemma cmd_inv_step:
  assumes "cmd_inv X s" and "nodes t = (nodes s)[i := rf']" and "commands X (tl (log rf'))"
    and "set (net t) \<subseteq> set (net s) \<union> M" and "\<And>m. m \<in> M \<Longrightarrow> msg_commands X m"
  shows "cmd_inv X t"
proof -
  have "set (nodes t) \<subseteq> insert rf' (set (nodes s))"
    unfolding assms(2) by (rule set_update_subset_insert)
  then have "\<forall>rf \<in> set (nodes t). commands X (tl (log rf))" using assms(1,3) by (auto simp: cmd_inv_def)
  moreover have "\<forall>m \<in> set (net t). msg_commands X m" using assms(1,4,5) by (auto simp: cmd_inv_def)
  ultimately show ?thesis by (simp add: cmd_inv_def)
qed

lemma orphan_commands: "msg_commands X x \<Longrightarrow> msg_commands X (orphan i x)"
  by (induction i x rule: orphan.induct) auto

text \<open>The invariant of single peers is kept by every action, whatever messages are delivered.\<close>

definition nodes_ok :: "'c cluster \<Rightarrow> bool" where
  "nodes_ok s \<longleftrightarrow> (\<forall>rf \<in> set (nodes s). node_inv rf)"

lemma vinv_nodes_ok: "vinv (nodes s) (net s) H C \<Longrightarrow> nodes_ok s"
  by (auto simp: nodes_ok_def vinv_def node_ok_def in_set_conv_nth)

lemma exec_nodes_ok:
  assumes v: "nodes_ok s" and ex: "exec a s = Some t"
  shows "nodes_ok t"
proof -
  have one: "nodes_ok t" if "nodes t = (nodes s)[k := rf']" "k < length (nodes s)" "node_step (nodes s ! k) rf'" for k rf'
  proof -
    have "node_inv rf'" using node_step_inv [OF that(3)] v that(2) by (simp add: nodes_ok_def)
    moreover have "set (nodes t) \<subseteq> insert rf' (set (nodes s))"
      unfolding that(1) by (rule set_update_subset_insert)
    ultimately show ?thesis using v by (auto simp: nodes_ok_def)
  qed
  from ex show ?thesis
  proof (cases rule: exec_cases)
    case (timeout j now c rf' rvs)
    show ?thesis by (rule one [OF timeout(4,2) ns_op [OF op_timeout [OF timeout(3)]]])
  next
    case (rvreq w j k x now c1 c2 rf' r)
    show ?thesis by (rule one [OF rvreq(5,2) ns_op [OF op_RequestVote [OF rvreq(4)]]])
  next
    case (rvrep j k x r now c1 c2 rf' aes sp)
    show ?thesis by (rule one [OF rvrep(5,2) ns_op [OF op_voteReply [OF rvrep(4)]]])
  next
    case (aereq w j k b now c1 c2 rf' r nf)
    show ?thesis by (rule one [OF aereq(5,2) ns_op [OF op_AppendEntries [OF aereq(4)]]])
  next
    case (aerep j k b r now c1 c2 rf' nf)
    show ?thesis by (rule one [OF aerep(5,2) ns_op [OF op_appendReply [OF aerep(4)]]])
  next
    case (drop m)
    then show ?thesis using v by (simp add: nodes_ok_def)
  next
    case (heartbeat j now rf' aes g)
    show ?thesis by (rule one [OF heartbeat(4,2) ns_op [OF op_periodic [OF heartbeat(3)]]])
  next
    case (client j cmd)
    show ?thesis
      by (rule one [OF client(3,2) ns_op [OF op_Start [of cmd _ _ "snd (Start cmd (nodes s ! j))"]]]) simp
  next
    case (applied j rf' m)
    show ?thesis by (rule one [OF applied(4,2) ns_apply [OF applied(3)]])
  next
    case (restart j c rf')
    show ?thesis by (rule one [OF restart(4,2)]) (simp add: restart(3) ns_restart)
  qed
qed

lemma exec_cmd_inv:
  assumes v: "nodes_ok s" and c: "cmd_inv X s" and ex: "exec a s = Some t"
    and new: "\<And>i cmd. a = Client i cmd \<Longrightarrow> cmd \<in> X"
  shows "cmd_inv X t"
proof -
  have nd: "commands X (tl (log (nodes s ! i)))" "log (nodes s ! i) \<noteq> []" "node_inv (nodes s ! i)" if "i < length (nodes s)" for i
    using c v nth_mem [OF that] by (fastforce simp: cmd_inv_def nodes_ok_def node_inv_def)+
  have rem: "set (remove1 x (net s) @ ys) \<subseteq> set (net s) \<union> set ys" for x ys
    using set_remove1_subset [of x "net s"] by auto
  from ex show ?thesis
  proof (cases rule: exec_cases)
    case (timeout i now cl rf' rvs)
    have "log rf' = log (nodes s ! i)" using timeout(3) by (cases rule: electionTimout_cases) simp_all
    then show ?thesis using timeout nd(1)
      by (intro cmd_inv_step [OF c timeout(4), of "set (sendRequestVote i rvs)"]) (auto simp: sendRequestVote_def)
  next
    case (rvreq w i j x now c1 c2 rf' r)
    have "log rf' = log (nodes s ! j)" using rvreq(4) by (cases rule: RequestVote_cases) (simp_all add: frame_simps)
    then show ?thesis using nd(1) [OF rvreq(2)] rem
      by (intro cmd_inv_step [OF c rvreq(5), of "set (if w then [RVRep i j x r] else [])"])
        (simp_all only: rvreq(6), auto)
  next
    case (rvrep i j x r now c1 c2 rf' aes sp)
    note l = voteReply_log [OF rvrep(4)]
    have "commands X (aeEntries b)" if "(k, b) \<in> set aes" for k b
      using l nd(1) [OF rvrep(2)] that sends_commands by fastforce
    note sent = sent_messages [where aes = aes and i = i, OF this]
    show ?thesis using l nd(1) [OF rvrep(2)] rem sent
      by (intro cmd_inv_step [OF c rvrep(5), of "set (sendAppendEntries i aes)"]) (simp_all add: rvrep(6) del: set_append)
  next
    case (aereq w i j b now c1 c2 rf' r nf)
    have "commands X (aeEntries b)" using c aereq(3) by (force simp: cmd_inv_def)
    from AppendEntries_commands [OF aereq(4) nd(1) [OF aereq(2)] this nd(2) [OF aereq(2)]]
    show ?thesis using rem
      by (intro cmd_inv_step [OF c aereq(5), of "set (if w then [AERep i j b r] else [])"])
        (simp_all only: aereq(6), auto)
  next
    case (aerep i j b r now c1 c2 rf' nf)
    have "log rf' = log (nodes s ! i)" using aerep(4) by (cases rule: appendReply_cases) (simp_all add: frame_simps)
    then show ?thesis using nd(1) [OF aerep(2)] set_remove1_subset [of _ "net s"]
      by (intro cmd_inv_step [OF c aerep(5), of "{}"]) (simp_all add: aerep(6))
  next
    case (drop m)
    then show ?thesis using c set_remove1_subset [of m "net s"] by (auto simp: cmd_inv_def)
  next
    case (heartbeat i now rf' aes g)
    have l: "log rf' = log (nodes s ! i)" using lquiet_periodic [OF heartbeat(3)] by (simp add: lquiet_def)
    have "commands X (aeEntries b)" if "(k, b) \<in> set aes" for k b
      using heartbeat(3) nd(1) [OF heartbeat(2)] that
      by (auto simp: periodicAppendEntriesRoutine_def split: if_splits option.splits intro: sends_commands)
    note sent = sent_messages [where aes = aes and i = i, OF this]
    show ?thesis using l nd(1) [OF heartbeat(2)] sent
      by (intro cmd_inv_step [OF c heartbeat(4), of "set (sendAppendEntries i aes)"]) (simp_all add: heartbeat(5))
  next
    case (client i cmd)
    have "commands X (tl (log (fst (Start cmd (nodes s ! i)))))"
      using nd(1,2) [OF client(2)] new [OF client(1)] by (auto simp: Start_def Let_def frame_simps commands_def)
    then show ?thesis by (intro cmd_inv_step [OF c client(3), of "{}"]) (simp_all add: client(4))
  next
    case (applied i rf' m)
    have "log rf' = log (nodes s ! i)" using lquiet_apply [OF applied(3)] by (simp add: lquiet_def)
    then show ?thesis using nd(1) [OF applied(2)] by (intro cmd_inv_step [OF c applied(4), of "{}"]) (simp_all add: applied(5))
  next
    case (restart i cl rf')
    have "log rf' = log (nodes s ! i)"
      using lquiet_restart [OF nd(3) [OF restart(2)], of cl] by (simp add: lquiet_def restart(3))
    moreover have "msg_commands X m" if "m \<in> set (crashNet i (net s))" for m
    proof -
      obtain x where "x \<in> set (net s)" "m = orphan i x" using \<open>m \<in> set (crashNet i (net s))\<close> by (auto simp: crashNet_def)
      then show ?thesis using c orphan_commands [of X x i] by (auto simp: cmd_inv_def)
    qed
    ultimately show ?thesis using nd(1) [OF restart(2)]
      by (intro cmd_inv_step [OF c restart(4), of "set (crashNet i (net s))"]) (simp_all add: restart(5))
  qed
qed

lemma initial_cmd_inv: "initial s \<Longrightarrow> cmd_inv X s"
  by (auto simp: initial_def init_cluster_def cmd_inv_def commands_def Make_def Let_def readPersist_def
      resetElectionTimer_def persister_defs)

lemma delivered_command:
  assumes "cmd_inv X s" and "i < length (nodes s)" and "applyNext (nodes s ! i) = Some (Some (rf, m))"
    and "0 \<le> lastApplied (nodes s ! i)"
  shows "Command m \<in> Some ` X"
proof -
  let ?l = "log (nodes s ! i)" and ?k = "lastApplied (nodes s ! i) + 1"
  have m: "Command m = leCommand (?l ! nat ?k)" "?k < go_len ?l"
    using assms(3) by (auto simp: applyNext_def Let_def go_nth_Some_iff split: if_splits)
  then have "?l ! nat ?k = tl ?l ! nat (lastApplied (nodes s ! i))" "nat (lastApplied (nodes s ! i)) < length (tl ?l)"
    using assms(4) by (auto simp: nth_tl nat_add_distrib)
  then have "?l ! nat ?k \<in> set (tl ?l)" by simp
  moreover have "commands X (tl ?l)" using assms(1,2) by (simp add: cmd_inv_def)
  ultimately show ?thesis using m(1) by (simp add: commands_def)
qed

end
