(* ===== verification/RaftAlias.thy ===== *)
theory RaftAlias
  imports RaftApplied
begin

text \<open>
  Requests that share their entries with the log of their sender. \<open>sendAppendEntriesToPeers\<close> puts the slice
  \<open>rf.log[rf.nextIndex[i]:]\<close> into the arguments (raft.go), and \<open>Call\<close> encodes the arguments after the lock
  has been released (labrpc.go). In between \<open>AppendEntries\<close> may cut the log and append to it in place, and the
  request then carries what the array holds at the moment it is encoded.

  The state of theory \<open>RaftCluster\<close> is extended by the capacities of the arrays behind the logs and by the
  requests that are not encoded yet. Result: with this sharing two peers can deliver different commands under
  one index, even when all replies are handled in their term. When in addition every request is encoded before
  its sender overwrites the entries it shares, log matching, leader completeness and state machine safety hold.
\<close>

section \<open>Arrays behind logs\<close>

record 'c raft_mem =
  cl :: "'c cluster"
  caps :: "nat list"
  unsent :: "'c rpc list"

text \<open>
  The encoding of a request is an action of its own. The number of an action is the capacity of the array that
  \<open>append\<close> allocates when the old one is full, which the language leaves open.
\<close>

datatype 'c mem_action =
  Act "'c action" nat
| EncodeArgs "'c rpc"

text \<open>
  Entries from position \<open>k\<close> on, seen through an array whose first elements are the log \<open>l\<close>: behind the end of
  the log the array has its old elements.
\<close>

definition overlay :: "nat \<Rightarrow> 'a list \<Rightarrow> 'a list \<Rightarrow> 'a list" where
  "overlay k l es = take (length es) (drop k l) @ drop (length l - k) es"

fun requestOf :: "nat \<Rightarrow> 'c rpc \<Rightarrow> bool" where
  "requestOf i (AEReq w i' j b) = (i' = i)"
| "requestOf i m = False"

fun isRequest :: "'c rpc \<Rightarrow> bool" where
  "isRequest (AEReq w i j b) = True"
| "isRequest m = False"

fun showing :: "nat \<Rightarrow> 'c LogEntry list \<Rightarrow> 'c rpc \<Rightarrow> 'c rpc" where
  "showing i l (AEReq w i' j b) =
     AEReq w i' j (if i' = i then b\<lparr>aeEntries := overlay (nat (aePrevLogIndex b) + 1) l (aeEntries b)\<rparr> else b)"
| "showing i l m = m"

fun isRestart :: "'c action \<Rightarrow> bool" where
  "isRestart (Restart i c) = True"
| "isRestart a = False"

text \<open>
  What a request that is not encoded yet shows after an action: the peer that acts writes its log into its array.
  \<open>AppendEntries\<close> appends one entry at a time, so that an array that gets full has been filled before the log
  moves to a new one; the entries of a request lie within the array it was made from. A restarted peer decodes its log into a new array and leaves the old one alone.
\<close>

definition written :: "'c action \<Rightarrow> 'c cluster \<Rightarrow> 'c rpc \<Rightarrow> 'c rpc" where
  "written a t m =
     (case actor a of
        None \<Rightarrow> m
      | Some i \<Rightarrow> if isRestart a then m else showing i (log (nodes t ! i)) m)"

fun replace1 :: "'a \<Rightarrow> 'a \<Rightarrow> 'a list \<Rightarrow> 'a list" where
  "replace1 x y [] = []"
| "replace1 x y (z # zs) = (if z = x then y # zs else z # replace1 x y zs)"

definition rewriteNet :: "('c rpc \<Rightarrow> 'c rpc) \<Rightarrow> 'c rpc list \<Rightarrow> 'c rpc list \<Rightarrow> 'c rpc list" where
  "rewriteNet f us ms = fold (\<lambda>m. replace1 m (f m)) us ms"

text \<open>The peer whose log moves to a new array: it does not fit into the old one, or the peer was restarted.\<close>

definition movedLog :: "'c action \<Rightarrow> nat list \<Rightarrow> 'c cluster \<Rightarrow> nat option" where
  "movedLog a cs t =
     (case actor a of
        None \<Rightarrow> None
      | Some i \<Rightarrow> if isRestart a \<or> cs ! i < length (log (nodes t ! i)) then Some i else None)"

text \<open>The requests an action puts at the end of the network.\<close>

fun newRequests :: "'c action \<Rightarrow> 'c cluster \<Rightarrow> 'c cluster \<Rightarrow> 'c rpc list" where
  "newRequests (Deliver m now c1 c2) s t = filter isRequest (drop (length (net s) - 1) (net t))"
| "newRequests (Restart i c) s t = []"
| "newRequests a s t = filter isRequest (drop (length (net s)) (net t))"

text \<open>A request can be delivered or lost only when it has been encoded.\<close>

fun encoded :: "'c action \<Rightarrow> 'c raft_mem \<Rightarrow> bool" where
  "encoded (Deliver m now c1 c2) s = (count_list (unsent s) m < count_list (net (cl s)) m)"
| "encoded (Drop m) s = (count_list (unsent s) m < count_list (net (cl s)) m)"
| "encoded a s = True"

fun mexec :: "'c mem_action \<Rightarrow> 'c raft_mem \<Rightarrow> 'c raft_mem option" where
  "mexec (Act a k) s =
     (if encoded a s then
        (case exec a (cl s) of
           None \<Rightarrow> None
         | Some t \<Rightarrow>
             (let us = map (written a t) (unsent s);
                  t' = t\<lparr>net := rewriteNet (written a t) (unsent s) (net t)\<rparr>;
                  new = newRequests a (cl s) t
              in case movedLog a (caps s) t of
                   None \<Rightarrow> Some \<lparr>cl = t', caps = caps s, unsent = us @ new\<rparr>
                 | Some i \<Rightarrow>
                     if length (log (nodes t ! i)) \<le> k
                     then Some \<lparr>cl = t', caps = (caps s)[i := k], unsent = filter (\<lambda>m. \<not> requestOf i m) us @ new\<rparr>
                     else None))
      else None)"
| "mexec (EncodeArgs m) s = (if m \<in> set (unsent s) then Some (s\<lparr>unsent := remove1 m (unsent s)\<rparr>) else None)"

inductive mstep :: "('c raft_mem \<Rightarrow> 'c mem_action \<Rightarrow> bool) \<Rightarrow> 'c raft_mem \<Rightarrow> 'c raft_mem \<Rightarrow> bool" for allowed where
  mact: "allowed s x \<Longrightarrow> mexec x s = Some t \<Longrightarrow> mstep allowed s t"

inductive_cases mstepE: "mstep allowed s t"

fun mexecs :: "('c raft_mem \<Rightarrow> 'c mem_action \<Rightarrow> bool) \<Rightarrow> 'c mem_action list \<Rightarrow> 'c raft_mem \<Rightarrow> 'c raft_mem option" where
  "mexecs allowed [] s = Some s"
| "mexecs allowed (x # xs) s =
     (if allowed s x then (case mexec x s of None \<Rightarrow> None | Some t \<Rightarrow> mexecs allowed xs t) else None)"

definition initial_mem :: "'c raft_mem \<Rightarrow> bool" where
  "initial_mem s \<longleftrightarrow> initial (cl s) \<and> unsent s = [] \<and> length (caps s) = length (nodes (cl s)) \<and>
     (\<forall>i < length (nodes (cl s)). length (log (nodes (cl s) ! i)) \<le> caps s ! i)"

text \<open>
  Executions without conditions, those whose replies are handled in their term, and those in which moreover no
  peer overwrites entries that a request of it still shares.
\<close>

definition unrestricted :: "'c raft_mem \<Rightarrow> 'c mem_action \<Rightarrow> bool" where
  "unrestricted s x = True"

fun repliesInTerm :: "'c raft_mem \<Rightarrow> 'c mem_action \<Rightarrow> bool" where
  "repliesInTerm s (Act a k) = fresh_replies (cl s) a"
| "repliesInTerm s (EncodeArgs m) = True"

fun encodedInTime :: "'c raft_mem \<Rightarrow> 'c mem_action \<Rightarrow> bool" where
  "encodedInTime s (Act a k) =
     (case exec a (cl s) of None \<Rightarrow> True | Some t \<Rightarrow> \<forall>m \<in> set (unsent s). written a t m = m)"
| "encodedInTime s (EncodeArgs m) = True"

definition timely :: "'c raft_mem \<Rightarrow> 'c mem_action \<Rightarrow> bool" where
  "timely s x \<longleftrightarrow> repliesInTerm s x \<and> encodedInTime s x"

section \<open>What a shared slice shows\<close>

lemma overlay_length [simp]: "length (overlay k l es) = length es"
  by (simp add: overlay_def)

lemma overlay_nth:
  "x < length es \<Longrightarrow> overlay k l es ! x = (if k + x < length l then l ! (k + x) else es ! x)"
  by (auto simp: overlay_def nth_append min_def)

lemma overlay_set: "set (overlay k l es) \<subseteq> set (drop k l) \<union> set es"
  unfolding overlay_def by (auto dest: in_set_takeD in_set_dropD)

text \<open>Appending to the log leaves requests as they were made; so only \<open>AppendEntries\<close> can change them.\<close>

lemma overlay_append: "overlay k (l @ xs) (take n (drop k l)) = take n (drop k l)"
  by (rule nth_equalityI) (auto simp: overlay_nth nth_append)

lemma replace1_same [simp]: "replace1 x x xs = xs"
  by (induction xs) auto

lemma rewriteNet_same: "\<forall>m \<in> set us. f m = m \<Longrightarrow> rewriteNet f us ms = ms"
  unfolding rewriteNet_def by (induction us arbitrary: ms) auto

lemma replace1_set: "set (replace1 x y xs) \<subseteq> insert y (set xs)"
  by (induction xs) auto

lemma rewriteNet_set: "set (rewriteNet f us ms) \<subseteq> set ms \<union> f ` set us"
  unfolding rewriteNet_def
proof (induction us arbitrary: ms)
  case (Cons u us)
  then show ?case using replace1_set [of u "f u" ms] by fastforce
qed simp

section \<open>Executions that encode in time\<close>

lemma mexec_cases:
  assumes "mexec (Act a k) s = Some s'"
  obtains t us cs where "exec a (cl s) = Some t" "cl s' = t\<lparr>net := rewriteNet (written a t) (unsent s) (net t)\<rparr>"
    "set (unsent s') \<subseteq> written a t ` set (unsent s) \<union> set (net t)"
proof -
  obtain t where t: "exec a (cl s) = Some t" using assms by (auto split: if_splits option.splits)
  have new: "set (newRequests a (cl s) t) \<subseteq> set (net t)"
    by (cases a) (auto dest: in_set_dropD)
  show ?thesis using assms t new by (intro that [OF t]) (auto simp: Let_def split: if_splits option.splits)
qed

lemma mexec_timely:
  assumes "timely s (Act a k)" and "mexec (Act a k) s = Some t"
  shows "fresh_replies (cl s) a" and "exec a (cl s) = Some (cl t)"
proof -
  show "fresh_replies (cl s) a" using assms(1) by (simp add: timely_def)
  obtain u where u: "exec a (cl s) = Some u" "cl t = u\<lparr>net := rewriteNet (written a u) (unsent s) (net u)\<rparr>"
    using assms(2) by (rule mexec_cases)
  then have "\<forall>m \<in> set (unsent s). written a u m = m" using assms(1) by (simp add: timely_def)
  from rewriteNet_same [OF this] show "exec a (cl s) = Some (cl t)" using u by simp
qed

lemma mexec_encode: "mexec (EncodeArgs m) s = Some t \<Longrightarrow> cl t = cl s"
  by (auto split: if_splits)

lemma mstep_cl: "mstep timely s t \<Longrightarrow> (cstep fresh_replies)\<^sup>*\<^sup>* (cl s) (cl t)"
proof (elim mstepE)
  fix x assume x: "timely s x" "mexec x s = Some t"
  show ?thesis
  proof (cases x)
    case (Act a k)
    then show ?thesis using mexec_timely [of s a k t] x by (blast intro: act)
  next
    case (EncodeArgs m)
    then show ?thesis using mexec_encode x(2) by fastforce
  qed
qed

lemma msteps_cl: "(mstep timely)\<^sup>*\<^sup>* s t \<Longrightarrow> (cstep fresh_replies)\<^sup>*\<^sup>* (cl s) (cl t)"
proof (induction rule: rtranclp_induct)
  case (step t u)
  show ?case using step.IH mstep_cl [OF step.hyps(2)] by (rule rtranclp_trans)
qed simp

lemma mexecs_msteps: "mexecs allowed xs s = Some t \<Longrightarrow> (mstep allowed)\<^sup>*\<^sup>* s t"
proof (induction xs arbitrary: s)
  case (Cons x xs)
  then obtain u where "mstep allowed s u" "mexecs allowed xs u = Some t"
    by (auto intro: mact split: if_splits option.splits)
  then show ?case using Cons.IH by (auto intro: converse_rtranclp_into_rtranclp)
qed simp

lemma mexecs_append: "mexecs allowed (xs @ ys) s = Option.bind (mexecs allowed xs s) (mexecs allowed ys)"
  by (induction xs arbitrary: s) (auto split: option.split)

text \<open>A run in which every request is encoded at once.\<close>

lemma encode_all:
  "mexecs timely (map EncodeArgs us) \<lparr>cl = c, caps = cs, unsent = us\<rparr> = Some \<lparr>cl = c, caps = cs, unsent = []\<rparr>"
  by (induction us) (simp_all add: timely_def)

lemma exec_at_once:
  assumes ex: "exec a c = Some t" and fr: "fresh_replies c a" and nd: "\<And>m. a \<noteq> Drop m"
  shows "\<exists>k cs' us. mexecs timely (Act a k # map EncodeArgs us) \<lparr>cl = c, caps = cs, unsent = []\<rparr> =
    Some \<lparr>cl = t, caps = cs', unsent = []\<rparr>"
proof -
  let ?k = "case actor a of None \<Rightarrow> 0 | Some i \<Rightarrow> length (log (nodes t ! i))"
  have "encoded a \<lparr>cl = c, caps = cs, unsent = []\<rparr>"
    using ex nd by (cases a) (auto simp: count_list_0_iff neq0_conv [symmetric] simp del: neq0_conv split: if_splits)
  then have "\<exists>cs' us. mexec (Act a ?k) \<lparr>cl = c, caps = cs, unsent = []\<rparr> = Some \<lparr>cl = t, caps = cs', unsent = us\<rparr>"
    using ex by (cases "actor a") (simp_all add: Let_def movedLog_def rewriteNet_def)
  then obtain cs' us where "mexec (Act a ?k) \<lparr>cl = c, caps = cs, unsent = []\<rparr> = Some \<lparr>cl = t, caps = cs', unsent = us\<rparr>"
    by blast
  moreover have "timely \<lparr>cl = c, caps = cs, unsent = []\<rparr> (Act a ?k)" using fr by (simp add: timely_def split: option.split)
  ultimately show ?thesis using encode_all [of us t cs']
    by (intro exI [of _ ?k] exI [of _ cs'] exI [of _ us]) (simp only: mexecs.simps if_True option.case)
qed

lemma execs_at_once:
  assumes "execs fresh_replies as c = Some t" and "\<And>m. Drop m \<notin> set as"
  shows "\<exists>xs cs'. mexecs timely xs \<lparr>cl = c, caps = cs, unsent = []\<rparr> = Some \<lparr>cl = t, caps = cs', unsent = []\<rparr> \<and>
    (\<forall>a k. Act a k \<in> set xs \<longrightarrow> a \<in> set as)"
  using assms
proof (induction as arbitrary: c cs)
  case Nil
  then show ?case by (intro exI [of _ "[]"] exI [of _ cs]) simp
next
  case (Cons a as)
  then obtain u where u: "fresh_replies c a" "exec a c = Some u" "execs fresh_replies as u = Some t"
    by (auto split: option.splits if_splits)
  obtain k cs1 us where e: "mexecs timely (Act a k # map EncodeArgs us) \<lparr>cl = c, caps = cs, unsent = []\<rparr> =
      Some \<lparr>cl = u, caps = cs1, unsent = []\<rparr>"
    using exec_at_once [OF u(2,1)] Cons.prems(2) by force
  obtain xs cs' where "mexecs timely xs \<lparr>cl = u, caps = cs1, unsent = []\<rparr> = Some \<lparr>cl = t, caps = cs', unsent = []\<rparr>"
    "\<forall>a k. Act a k \<in> set xs \<longrightarrow> a \<in> set as" using Cons.IH [OF u(3)] Cons.prems(2) by force
  then show ?case using e
    by (intro exI [of _ "(Act a k # map EncodeArgs us) @ xs"] exI [of _ cs']) (auto simp only: mexecs_append bind.bind_lunit, auto)
qed

interpretation memory: inductive_invariant initial_mem "mstep timely" "\<lambda>s. log_inv (cl s)"
proof unfold_locales
  show "log_inv (cl s)" if "initial_mem s" for s :: "'a raft_mem"
    using that by (intro initial_log_inv) (simp add: initial_mem_def)
  show "log_inv (cl t)" if "log_inv (cl s)" "mstep timely s t" for s t :: "'a raft_mem"
    using logs.steps_inv [OF mstep_cl [OF that(2)] that(1)] .
qed

section \<open>Commands in all executions\<close>

text \<open>Whatever a request shows by the time it is encoded are entries of its sender's log.\<close>

definition mem_cmd_inv :: "'c set \<Rightarrow> 'c raft_mem \<Rightarrow> bool" where
  "mem_cmd_inv X s \<longleftrightarrow> nodes_ok (cl s) \<and> cmd_inv X (cl s) \<and> (\<forall>m \<in> set (unsent s). msg_commands X m)"

lemma exec_actor: "exec a s = Some t \<Longrightarrow> actor a = Some i \<Longrightarrow> i < length (nodes t)"
  by (erule exec_cases) auto

lemma showing_commands:
  assumes "msg_commands X m" and "commands X (tl l)"
  shows "msg_commands X (showing i l m)"
proof (cases m)
  case (AEReq w i' j b)
  have "set (drop (nat (aePrevLogIndex b) + 1) l) \<subseteq> set (tl l)"
    using set_drop_subset [of "nat (aePrevLogIndex b)" "tl l"] by (simp add: drop_Suc)
  then have "set (overlay (nat (aePrevLogIndex b) + 1) l (aeEntries b)) \<subseteq> set (tl l) \<union> set (aeEntries b)"
    using overlay_set [of "nat (aePrevLogIndex b) + 1" l "aeEntries b"] by blast
  then show ?thesis using assms AEReq by (auto simp: commands_def)
qed simp_all

lemma written_commands:
  assumes "exec a s = Some t" and "cmd_inv X t" and "msg_commands X m"
  shows "msg_commands X (written a t m)"
  using assms exec_actor [OF assms(1)]
  by (auto simp: written_def cmd_inv_def intro!: showing_commands split: option.split)

lemma mexec_commands:
  assumes inv: "mem_cmd_inv X s" and ex: "mexec x s = Some t" and new: "\<And>i cmd k. x = Act (Client i cmd) k \<Longrightarrow> cmd \<in> X"
  shows "mem_cmd_inv X t"
proof (cases x)
  case (Act a k)
  obtain u where u: "exec a (cl s) = Some u" "cl t = u\<lparr>net := rewriteNet (written a u) (unsent s) (net u)\<rparr>"
    "set (unsent t) \<subseteq> written a u ` set (unsent s) \<union> set (net u)"
    using ex unfolding Act by (rule mexec_cases)
  have n: "nodes_ok u" using exec_nodes_ok [OF _ u(1)] inv by (simp add: mem_cmd_inv_def)
  have c: "cmd_inv X u" using exec_cmd_inv [OF _ _ u(1)] inv new Act by (simp add: mem_cmd_inv_def)
  have w: "msg_commands X (written a u m)" if "m \<in> set (unsent s)" for m
    using written_commands [OF u(1) c] inv that by (simp add: mem_cmd_inv_def)
  have "\<forall>m \<in> set (net u). msg_commands X m" using c by (simp add: cmd_inv_def)
  then have "\<forall>m \<in> set (net (cl t)) \<union> set (unsent t). msg_commands X m"
    using w u(2,3) rewriteNet_set [of "written a u" "unsent s" "net u"] by fastforce
  then show ?thesis using n c u(2) by (auto simp: mem_cmd_inv_def nodes_ok_def cmd_inv_def)
next
  case (EncodeArgs m)
  then have "cl t = cl s" "set (unsent t) \<subseteq> set (unsent s)"
    using ex set_remove1_subset [of m "unsent s"] by (auto split: if_splits)
  then show ?thesis using inv by (auto simp: mem_cmd_inv_def)
qed

lemma initial_mem_commands: "initial_mem s \<Longrightarrow> mem_cmd_inv X s"
  using initial_cmd_inv [of "cl s" X] vinv_nodes_ok [OF initial_vinv [of "cl s"]]
  by (simp add: mem_cmd_inv_def initial_mem_def)

lemma mexec_length: "mexec x s = Some t \<Longrightarrow> length (nodes (cl t)) = length (nodes (cl s))"
proof (cases x)
  case (Act a k)
  assume "mexec x s = Some t"
  then have "mexec (Act a k) s = Some t" by (simp only: Act)
  then show ?thesis by (rule mexec_cases) (simp add: exec_length)
qed (auto split: if_splits)

text \<open>The first log is made with one element.\<close>

definition init_mem :: "nat \<Rightarrow> (nat \<Rightarrow> clock) \<Rightarrow> 'c raft_mem" where
  "init_mem n ts = \<lparr>cl = init_cluster n ts, caps = replicate n 1, unsent = []\<rparr>"

lemma init_mem_initial: "initial_mem (init_mem n ts :: 'c raft_mem)"
proof -
  have "length (log (Make c n i MakePersister :: 'c Raft)) = 1" for c i
    by (simp add: Make_def Let_def readPersist_def resetElectionTimer_def persister_defs)
  moreover have "initial (init_cluster n ts :: 'c cluster)" by (auto simp: initial_def)
  ultimately show ?thesis by (simp add: initial_mem_def init_mem_def) (simp add: init_cluster_def)
qed

section \<open>Different commands under one index\<close>

text \<open>
  Five servers. Server 0 leads term 1 and has entries 1 and 2 in its log; server 3 has the first, and the
  request with the second is made but not encoded. Server 1 is elected in term 2 and replaces both entries of
  server 0 in place by 3 and 4. The request, encoded now, carries the entry 4 of term 2, and server 3, still in
  term 1, puts it behind entry 1. Server 2, elected in term 3, finds the last entry of server 3 in order and
  tells it that both entries are committed: server 3 delivers 1 where server 1 delivers 3.
\<close>

definition append_of :: "int \<Rightarrow> int \<Rightarrow> int \<Rightarrow> int \<Rightarrow> nat LogEntry list \<Rightarrow> int \<Rightarrow> nat AppendEntriesArgs" where
  "append_of t ld prev pt es ci = \<lparr>aeTerm = t, aeLeaderID = ld, aePrevLogIndex = prev, aePrevLogTerm = pt,
     aeEntries = es, aeLeaderCommit = ci\<rparr>"

definition at :: "int \<Rightarrow> 'c rpc \<Rightarrow> 'c mem_action" where
  "at now m = Act (Deliver m now (now, 0) (now, 0)) 0"

definition vote :: "nat \<Rightarrow> RequestVoteArgs \<Rightarrow> nat \<Rightarrow> int \<Rightarrow> nat mem_action list" where
  "vote i args j now = [at now (RVReq True i j args),
     at (now + 1) (RVRep i j args \<lparr>rvrTerm = rvTerm args, rvrVoteGranted = True\<rparr>)]"

definition exchange :: "nat \<Rightarrow> nat AppendEntriesArgs \<Rightarrow> nat \<Rightarrow> int \<Rightarrow> nat mem_action list" where
  "exchange i args j now = [EncodeArgs (AEReq True i j args), Act (Deliver (AEReq True i j args) now (now, 0) (now, 0)) 4,
     at (now + 1) (AERep i j args \<lparr>aerTerm = aeTerm args, aerSuccess = True, aerNextTryHint = 0\<rparr>)]"

definition overwritten_run :: "nat mem_action list" where
  "overwritten_run =
     (let e = (\<lambda>t x. \<lparr>leCommand = Some x, leTerm = t\<rparr>); second = [e 2 3, e 2 4]
      in [Act (Timeout 0 1000 (1000, 0)) 0] @ vote 0 (rv 1 0) 1 1001 @ vote 0 (rv 1 0) 2 1003 @
         [Act (Client 0 1) 4, Act (Heartbeat 0 2000) 0] @ exchange 0 (append_of 1 0 0 0 [e 1 1] 0) 3 2001 @
         [Act (Client 0 2) 0, Act (Heartbeat 0 3000) 0] @
         [Act (Timeout 1 4000 (4000, 0)) 0] @ vote 1 (rv 2 1) 2 4001 @ vote 1 (rv 2 1) 4 4003 @
         [Act (Client 1 3) 4, Act (Client 1 4) 0, Act (Heartbeat 1 5000) 0] @
         exchange 1 (append_of 2 1 0 0 second 0) 0 5001 @ exchange 1 (append_of 2 1 0 0 second 0) 2 5003 @
         [Act (Heartbeat 1 6000) 0] @ exchange 1 (append_of 2 1 2 2 [] 2) 2 6001 @
         [EncodeArgs (AEReq True 0 3 (append_of 1 0 1 1 [e 2 4] 0)),
          Act (Deliver (AEReq True 0 3 (append_of 1 0 1 1 [e 2 4] 0)) 6003 (6003, 0) (6003, 0)) 4] @
         [Act (Timeout 2 7000 (7000, 0)) 0] @
         concat (map (\<lambda>j. vote 2 \<lparr>rvTerm = 3, rvCandidateID = 2, rvLastLogIndex = 2, rvLastLogTerm = 2\<rparr> j 7001) [0, 4]) @
         exchange 2 (append_of 3 2 2 2 [] 2) 3 7003)"

definition five_servers :: "nat raft_mem" where
  "five_servers = init_mem 5 (\<lambda>_. (0, 0))"

lemma overwritten_run_result:
  "case mexecs repliesInTerm overwritten_run five_servers of
     None \<Rightarrow> False
   | Some s \<Rightarrow> map (\<lambda>rf. map_option (map_option (\<lambda>(rf, m). (CommandIndex m, Command m)))  (applyNext rf)) (nodes (cl s)) =
       [Some None, Some (Some (1, Some 3)), Some (Some (1, Some 3)), Some (Some (1, Some 1)), Some None]"
  by code_simp

text \<open>Property C18: because requests share their entries with the log, two peers can deliver different
  commands under the same index, although all replies are handled in their term.\<close>

theorem overwritten_request_breaks_safety:
  "\<exists>s rf m rf' m'. (mstep repliesInTerm)\<^sup>*\<^sup>* five_servers s \<and> initial_mem five_servers \<and>
     applyNext (nodes (cl s) ! 1) = Some (Some (rf, m)) \<and> applyNext (nodes (cl s) ! 3) = Some (Some (rf', m')) \<and>
     CommandIndex m = CommandIndex m' \<and> Command m \<noteq> Command m'"
proof -
  let ?v = "\<lambda>rf :: nat Raft. map_option (map_option (\<lambda>(rf, m). (CommandIndex m, Command m))) (applyNext rf)"
  obtain s where s: "mexecs repliesInTerm overwritten_run five_servers = Some s"
    "map ?v (nodes (cl s)) = [Some None, Some (Some (1, Some 3)), Some (Some (1, Some 3)), Some (Some (1, Some 1)), Some None]"
    using overwritten_run_result by (auto split: option.splits)
  have "length (nodes (cl s)) = 5" using arg_cong [OF s(2), of length] by simp
  then have v: "?v (nodes (cl s) ! 1) = Some (Some (1, Some 3))" "?v (nodes (cl s) ! 3) = Some (Some (1, Some 1))"
    using arg_cong [OF s(2), of "\<lambda>xs. xs ! 1"] arg_cong [OF s(2), of "\<lambda>xs. xs ! 3"] by simp_all
  moreover have "initial_mem five_servers"
    by (simp add: five_servers_def init_mem_initial)
  ultimately show ?thesis using mexecs_msteps [OF s(1)] by (intro exI [of _ s]) (auto simp: map_option_eq_Some)
qed

section \<open>Log matching, leader completeness, state machine safety\<close>

text \<open>The runs of theory \<open>RaftSafety\<close>, with requests that are encoded when they are made.\<close>

definition three_servers :: "nat raft_mem" where
  "three_servers = init_mem 3 (\<lambda>_. (0, 0))"

lemma three_servers_initial: "initial_mem three_servers"
  by (simp add: three_servers_def init_mem_initial)

lemma mem_runs:
  "\<exists>s t. (mstep timely)\<^sup>*\<^sup>* three_servers s \<and> (mstep timely)\<^sup>*\<^sup>* s t \<and> cl s = after_commit \<and> cl t = after_takeover"
proof -
  have run: "execs fresh_replies commit_run (init_cluster 3 (\<lambda>_. (0, 0))) = Some after_commit"
    "execs fresh_replies takeover_run after_commit = Some after_takeover"
    using runs_defined by (auto simp: after_commit_def after_takeover_def)
  have nd: "Drop m \<notin> set commit_run" "Drop m \<notin> set takeover_run" for m
    by (auto simp: commit_run_def takeover_run_def Let_def vote_for_def)
  obtain xs cs where s: "mexecs timely xs three_servers = Some \<lparr>cl = after_commit, caps = cs, unsent = []\<rparr>"
    using execs_at_once [OF run(1) nd(1)] unfolding three_servers_def init_mem_def by blast
  obtain ys cs' where "mexecs timely ys \<lparr>cl = after_commit, caps = cs, unsent = []\<rparr> =
      Some \<lparr>cl = after_takeover, caps = cs', unsent = []\<rparr>"
    using execs_at_once [OF run(2) nd(2)] by blast
  then show ?thesis using mexecs_msteps s by (metis raft_mem.select_convs(1))
qed

lemma initial_mem_cl: "initial_mem s \<Longrightarrow> initial (cl s)"
  by (simp add: initial_mem_def)

text \<open>Property C7: in every state of an execution in which replies are handled in their term and requests are
  encoded before their sender overwrites the entries they share, if two peers have entries of the same term
  at the same index, their logs are identical up to that index.\<close>

theorem log_matching:
  assumes "initial_mem s0" and "(mstep timely)\<^sup>*\<^sup>* s0 s"
    and "i < length (nodes (cl s))" and "j < length (nodes (cl s))"
    and "x < length (log (nodes (cl s) ! i))" and "x < length (log (nodes (cl s) ! j))"
    and "leTerm (log (nodes (cl s) ! i) ! x) = leTerm (log (nodes (cl s) ! j) ! x)"
  shows "take (Suc x) (log (nodes (cl s) ! i)) = take (Suc x) (log (nodes (cl s) ! j))"
  by (rule value_log_matching [OF initial_mem_cl [OF assms(1)] msteps_cl [OF assms(2)] assms(3-7)])

theorem log_matching_witness:
  "\<exists>t. (mstep timely)\<^sup>*\<^sup>* three_servers t \<and>
   leTerm (log (nodes (cl t) ! 0) ! 1) = 1 \<and> leTerm (log (nodes (cl t) ! 1) ! 1) = 1 \<and>
   take 2 (log (nodes (cl t) ! 0)) = take 2 (log (nodes (cl t) ! 1))"
proof -
  obtain t where t: "(mstep timely)\<^sup>*\<^sup>* three_servers t" "cl t = after_takeover"
    using mem_runs by (meson rtranclp_trans)
  have "take (Suc 1) (log (nodes (cl t) ! 0)) = take (Suc 1) (log (nodes (cl t) ! 1))"
    by (rule log_matching [OF three_servers_initial t(1)])
      (simp_all add: t(2) runs_length runs_fields runs_fields [unfolded One_nat_def])
  then show ?thesis using t by (intro exI [of _ t]) (simp add: runs_fields runs_fields [unfolded One_nat_def])
qed

text \<open>Property C6: in an execution in which replies are handled in their term and requests are encoded before
  their sender overwrites the entries they share, what a peer has marked as committed is, from then on, in the
  log of every leader whose term is at least that of the peer at that moment, at the same positions.\<close>

theorem leader_completeness:
  assumes "initial_mem s0" and "(mstep timely)\<^sup>*\<^sup>* s0 s" and "(mstep timely)\<^sup>*\<^sup>* s t"
    and "i < length (nodes (cl s))" and "j < length (nodes (cl s))"
    and "int x \<le> commitIndex (nodes (cl s) ! i)"
    and "state (nodes (cl t) ! j) = leaderState"
    and "currentTerm (nodes (cl s) ! i) \<le> currentTerm (nodes (cl t) ! j)"
  shows "x < length (log (nodes (cl s) ! i)) \<and>
    take (Suc x) (log (nodes (cl t) ! j)) = take (Suc x) (log (nodes (cl s) ! i))"
  by (rule value_leader_completeness [OF initial_mem_cl [OF assms(1)] msteps_cl [OF assms(2)] msteps_cl [OF assms(3)] assms(4-8)])

theorem leader_completeness_witness:
  "\<exists>s t. (mstep timely)\<^sup>*\<^sup>* three_servers s \<and> (mstep timely)\<^sup>*\<^sup>* s t \<and> state (nodes (cl t) ! 1) = leaderState \<and>
   currentTerm (nodes (cl t) ! 1) = 2 \<and> commitIndex (nodes (cl s) ! 0) = 1 \<and>
   1 < length (log (nodes (cl s) ! 0)) \<and>
   take (Suc 1) (log (nodes (cl t) ! 1)) = take (Suc 1) (log (nodes (cl s) ! 0))"
proof -
  obtain s t where st: "(mstep timely)\<^sup>*\<^sup>* three_servers s" "(mstep timely)\<^sup>*\<^sup>* s t" "cl s = after_commit" "cl t = after_takeover"
    using mem_runs by blast
  then show ?thesis using leader_completeness [OF three_servers_initial st(1,2), of 0 1 1] runs_length runs_fields(1-4)
    by (intro exI [of _ s] exI [of _ t]) simp
qed

text \<open>Property C1: in an execution in which replies are handled in their term and requests are encoded before
  their sender overwrites the entries they share, two peers never deliver different commands to their services
  under the same index, even at different times and with crashes, restarts and changes of leader in between.\<close>

theorem state_machine_safety:
  assumes "initial_mem s0" and "(mstep timely)\<^sup>*\<^sup>* s0 s" and "(mstep timely)\<^sup>*\<^sup>* s t"
    and "i < length (nodes (cl s))" and "j < length (nodes (cl s))"
    and "applyNext (nodes (cl s) ! i) = Some (Some (rf, m))" and "applyNext (nodes (cl t) ! j) = Some (Some (rf', m'))"
    and "CommandIndex m = CommandIndex m'"
  shows "m = m'"
  by (rule value_state_machine_safety [OF initial_mem_cl [OF assms(1)] msteps_cl [OF assms(2)] msteps_cl [OF assms(3)] assms(4-8)])

theorem state_machine_safety_witness:
  "\<exists>s t rf m rf' m'. (mstep timely)\<^sup>*\<^sup>* three_servers s \<and> (mstep timely)\<^sup>*\<^sup>* s t \<and>
     applyNext (nodes (cl s) ! 0) = Some (Some (rf, m)) \<and> applyNext (nodes (cl t) ! 1) = Some (Some (rf', m')) \<and>
     CommandIndex m = 1 \<and> CommandIndex m' = 1 \<and> m = m'"
proof -
  obtain s t where st: "(mstep timely)\<^sup>*\<^sup>* three_servers s" "(mstep timely)\<^sup>*\<^sup>* s t" "cl s = after_commit" "cl t = after_takeover"
    using mem_runs by blast
  obtain rf m where m: "applyNext (nodes (cl s) ! 0) = Some (Some (rf, m))" "m = msg10"
    using runs_fields(8) st(3) by auto
  obtain rf' m' where m': "applyNext (nodes (cl t) ! 1) = Some (Some (rf', m'))" "m' = msg10"
    using runs_fields(9) st(4) by auto
  have "m = m'"
    by (rule state_machine_safety [OF three_servers_initial st(1,2) _ _ m(1) m'(1)])
       (simp_all add: runs_length st m(2) m'(2))
  then show ?thesis using st m m' by (intro exI [of _ s] exI [of _ t] exI [of _ rf] exI [of _ m] exI [of _ rf'] exI [of _ m']) simp
qed

end
