(* ===== verification/RaftHarness.thy ===== *)
theory RaftHarness
  imports RaftConfig RaftAlias
begin

text \<open>
  The Raft test harness watching a cluster of peers whose replies are delivered in their term and whose
  requests are encoded before their sender overwrites the entries they share: it never reports that peers applied different commands or applied them out of order, and never finds
  two leaders in one term.
\<close>

section \<open>The cluster and its watcher\<close>

text \<open>
  The peers run; when a peer delivers an entry the harness handles the message under its own lock.
\<close>

inductive hstep :: "'c raft_mem \<times> ('c, 'n) config \<Rightarrow> 'c raft_mem \<times> ('c, 'n) config \<Rightarrow> bool" where
  hs_peer: "timely s x \<Longrightarrow> mexec x s = Some t \<Longrightarrow> (\<And>i k. x \<noteq> Act (Apply i) k) \<Longrightarrow> hstep (s, cfg) (t, cfg)"
| hs_apply: "timely s (Act (Apply i) k) \<Longrightarrow> mexec (Act (Apply i) k) s = Some t \<Longrightarrow>
     applyNext (nodes (cl s) ! i) = Some (Some (rf, m)) \<Longrightarrow>
     applier i m cfg = Inr cfg' \<Longrightarrow> hstep (s, cfg) (t, cfg')"

definition hstart :: "'c raft_mem \<times> ('c, 'n) config \<Rightarrow> bool" where
  "hstart sc \<longleftrightarrow> (case sc of (s, cfg) \<Rightarrow> initial_mem s \<and> logs cfg = replicate (length (nodes (cl s))) Map.empty \<and>
     applyErr cfg = replicate (length (nodes (cl s))) None \<and> length (rafts cfg) = length (nodes (cl s)))"

section \<open>The invariant\<close>

definition watched :: "'c cluster \<Rightarrow> 'c ghost \<Rightarrow> ('c, 'n) config \<Rightarrow> bool" where
  "watched s G cfg \<longleftrightarrow> length (logs cfg) = length (nodes s) \<and>
     applyErr cfg = replicate (length (nodes s)) None \<and> length (rafts cfg) = length (nodes s) \<and>
     (\<forall>i < length (nodes s). \<forall>k v. (logs cfg ! i) k = Some v \<longrightarrow> recorded (length (nodes s)) G k v) \<and>
     (\<forall>i < length (nodes s). \<forall>k. 1 \<le> k \<longrightarrow> k \<le> lastApplied (nodes s ! i) \<longrightarrow> (logs cfg ! i) k \<noteq> None)"

definition hinv :: "'c raft_mem \<times> ('c, 'n) config \<Rightarrow> bool" where
  "hinv sc \<longleftrightarrow> (case sc of (s, cfg) \<Rightarrow>
     \<exists>H C G. vinv (nodes (cl s)) (net (cl s)) H C \<and> linv (nodes (cl s)) (net (cl s)) H G \<and> watched (cl s) G cfg)"

lemma fold_no_mismatch:
  assumes "\<And>j old. j \<in> set js \<Longrightarrow> (logs cfg ! j) k = Some old \<Longrightarrow> old = v"
  shows "fold (\<lambda>j e. case (logs cfg ! j) k of
                Some old \<Rightarrow> if old \<noteq> v then Some (CommitMismatch k i v j old) else e
              | None \<Rightarrow> e) js None = None"
  using assms by (induction js) (auto split: option.splits)

lemma applier_ok:
  assumes l: "linv (nodes s) (net s) H G" and v: "vinv (nodes s) (net s) H C" and w: "watched s G cfg"
    and i: "i < length (nodes s)" and a: "applyNext (nodes s ! i) = Some (Some (rf, m))"
  shows "applier i m cfg = Inr (cfg\<lparr>logs := (logs cfg)[i := (logs cfg ! i)(CommandIndex m \<mapsto> Command m)],
      maxIndex := Max (CommandIndex m) (maxIndex cfg)\<rparr>)"
    and "recorded (length (nodes s)) G (CommandIndex m) (Command m)"
    and "CommandIndex m = lastApplied (nodes s ! i) + 1" and "lastApplied rf = lastApplied (nodes s ! i) + 1"
proof -
  let ?n = "length (nodes s)"
  have G: "ginv ?n H G" and "justified ?n G (currentTerm (nodes s ! i)) (nat (commitIndex (nodes s ! i)))
      (log (nodes s ! i))" using l i by (auto simp: linv_def ninv_def)
  moreover have "0 \<le> lastApplied (nodes s ! i)" using v i by (auto simp: vinv_def node_ok_def node_inv_def)
  ultimately have r: "recorded ?n G (CommandIndex m) (Command m)" "CommandIndex m = lastApplied (nodes s ! i) + 1"
    "CommandValid m" "lastApplied rf = lastApplied (nodes s ! i) + 1"
    using applied_recorded [OF _ _ a] by blast+
  show "recorded ?n G (CommandIndex m) (Command m)" "CommandIndex m = lastApplied (nodes s ! i) + 1"
    "lastApplied rf = lastApplied (nodes s ! i) + 1" by (rule r)+
  have "old = Command m" if "j \<in> set [0..<length (logs cfg)]" "(logs cfg ! j) (CommandIndex m) = Some old" for j old
  proof -
    have "recorded ?n G (CommandIndex m) old" using w that by (simp add: watched_def)
    then show ?thesis using recorded_unique [OF G log_inv_voted [OF l]] r(1) by blast
  qed
  from fold_no_mismatch [of "[0..<length (logs cfg)]" cfg "CommandIndex m" "Command m" i, OF this]
  have none: "fold (\<lambda>j e. case (logs cfg ! j) (CommandIndex m) of
      Some old \<Rightarrow> if old \<noteq> Command m then Some (CommitMismatch (CommandIndex m) i (Command m) j old) else e
    | None \<Rightarrow> e) [0..<length (logs cfg)] None = None" .
  have "(logs cfg ! i) (CommandIndex m - 1) \<noteq> None" if "CommandIndex m > 1"
    using w i that r(2) by (simp add: watched_def)
  then show "applier i m cfg = Inr (cfg\<lparr>logs := (logs cfg)[i := (logs cfg ! i)(CommandIndex m \<mapsto> Command m)],
      maxIndex := Max (CommandIndex m) (maxIndex cfg)\<rparr>)"
    using r(3) unfolding applier_def Let_def none by simp
qed

lemma watched_peer:
  assumes fr: "fresh_replies s a" and ex: "exec a s = Some t" and na: "\<And>i. a \<noteq> Apply i"
    and i: "vinv (nodes s) (net s) H C" "linv (nodes s) (net s) H G" "watched s G cfg"
  shows "\<exists>H C G. vinv (nodes t) (net t) H C \<and> linv (nodes t) (net t) H G \<and> watched t G cfg"
proof -
  obtain C' where v: "vinv (nodes t) (net t) (later_history a t H) C'"
    using exec_vinv [OF i(1) fresh_replies_votes [OF fr] ex] by blast
  obtain G' q where g: "grow q G G'" "linv (nodes t) (net t) (later_history a t H) G'"
    using exec_linv [OF i(1,2) fr ex] by (auto simp: evolves_def)
  have n: "length (nodes t) = length (nodes s)" by (rule exec_length [OF ex])
  have G: "ginv (length (nodes s)) H G" using i(2) by (simp add: linv_def)
  have "watched t G' cfg"
    using i(3) recorded_grow [OF G g(1)] exec_lastApplied [OF i(1) ex na]
    unfolding watched_def n by (meson order_trans)
  then show ?thesis using v g(2) by blast
qed

lemma watched_apply:
  assumes ex: "exec (Apply i) s = Some t" and ap: "applyNext (nodes s ! i) = Some (Some (rf, m))"
    and cf: "applier i m cfg = Inr cfg'"
    and inv: "vinv (nodes s) (net s) H C" "linv (nodes s) (net s) H G" "watched s G cfg"
  shows "\<exists>H C G. vinv (nodes t) (net t) H C \<and> linv (nodes t) (net t) H G \<and> watched t G cfg'"
proof -
  have i: "i < length (nodes s)" and t: "nodes t = (nodes s)[i := rf]"
    using ex ap by (auto split: if_splits option.splits)
  note ok = applier_ok [OF inv(2,1,3) i ap]
  have fr: "fresh_replies s (Apply i)" by simp
  obtain C' where v: "vinv (nodes t) (net t) (later_history (Apply i) t H) C'"
    using exec_vinv [OF inv(1) fresh_replies_votes [OF fr] ex] by blast
  obtain G' q where g: "grow q G G'" "linv (nodes t) (net t) (later_history (Apply i) t H) G'"
    using exec_linv [OF inv(1,2) fr ex] by (auto simp: evolves_def)
  have G: "ginv (length (nodes s)) H G" using inv(2) by (simp add: linv_def)
  have cfg': "cfg' = cfg\<lparr>logs := (logs cfg)[i := (logs cfg ! i)(CommandIndex m \<mapsto> Command m)],
      maxIndex := Max (CommandIndex m) (maxIndex cfg)\<rparr>"
    using ok(1) cf by simp
  have ln: "length (logs cfg) = length (nodes s)" using inv(3) by (simp add: watched_def)
  have "recorded (length (nodes s)) G' k x" if "j < length (nodes s)" "(logs cfg' ! j) k = Some x" for j k x
    using that inv(3) ok(2) recorded_grow [OF G g(1)] i ln
    by (auto simp: cfg' watched_def nth_list_update split: if_splits)
  moreover have "(logs cfg' ! j) k \<noteq> None" if "j < length (nodes s)" "1 \<le> k" "k \<le> lastApplied (nodes t ! j)" for j k
  proof (cases "j = i \<and> k = CommandIndex m")
    case True
    then show ?thesis using i ln by (simp add: cfg')
  next
    case False
    then have "k \<le> lastApplied (nodes s ! j)"
      using that(3) ok(3,4) i by (cases "j = i") (auto simp: t)
    then have "(logs cfg ! j) k \<noteq> None" using inv(3) that(1,2) by (simp add: watched_def)
    then show ?thesis using i ln by (auto simp: cfg' nth_list_update)
  qed
  ultimately have "watched t G' cfg'" using inv(3) t by (simp add: watched_def cfg')
  then show ?thesis using v g(2) by blast
qed

lemma hstep_hinv:
  assumes "hstep sc tc" and "hinv sc"
  shows "hinv tc"
  using assms
proof (induction rule: hstep.induct)
  case (hs_peer s x t cfg)
  show ?case
  proof (cases x)
    case (Act a k)
    then have ex: "timely s (Act a k)" "mexec (Act a k) s = Some t" using hs_peer.hyps by simp_all
    have na: "\<And>i. a \<noteq> Apply i" using hs_peer.hyps(3) Act by blast
    show ?thesis using watched_peer [OF mexec_timely [OF ex] na] hs_peer.prems by (auto simp: hinv_def)
  next
    case (EncodeArgs m)
    then have "mexec (EncodeArgs m) s = Some t" using hs_peer.hyps(2) by simp
    from mexec_encode [OF this] show ?thesis using hs_peer.prems by (simp add: hinv_def)
  qed
next
  case (hs_apply s i k t rf m cfg cfg')
  show ?case using watched_apply [OF mexec_timely(2) [OF hs_apply.hyps(1,2)] hs_apply.hyps(3,4)] hs_apply.prems
    by (auto simp: hinv_def)
qed

lemma hstart_hinv: "hstart sc \<Longrightarrow> hinv sc"
proof -
  assume h: "hstart sc"
  obtain s cfg where sc: "sc = (s, cfg)" by (cases sc)
  obtain H C G where "vinv (nodes (cl s)) (net (cl s)) H C" "linv (nodes (cl s)) (net (cl s)) H G"
    using initial_log_inv [of "cl s"] h by (auto simp: sc hstart_def initial_mem_def log_inv_def)
  moreover have "lastApplied (nodes (cl s) ! i) = 0" if "i < length (nodes (cl s))" for i
    using h that by (auto simp: sc hstart_def initial_mem_def initial_def init_cluster_def Make_def Let_def readPersist_def
        resetElectionTimer_def persister_defs)
  then have "watched (cl s) G cfg" using h by (auto simp: sc hstart_def watched_def)
  ultimately show ?thesis by (auto simp: sc hinv_def)
qed

interpretation watch: inductive_invariant hstart hstep hinv
  by unfold_locales (auto intro: hstart_hinv hstep_hinv)

section \<open>Agreement\<close>

lemma nCommitted_loop:
  assumes "applyErr cfg = replicate n None" and "\<And>i v. i < n \<Longrightarrow> (logs cfg ! i) index = Some v \<Longrightarrow> v = c"
    and "m \<le> n" and "length (rafts cfg) = n"
  shows "go_for (\<lambda>i (count, cmd).
        case applyErr cfg ! i of
          Some e \<Rightarrow> Inl (ApplyError e)
        | None \<Rightarrow>
            (case (logs cfg ! i) index of
               None \<Rightarrow> Inr (count, cmd)
             | Some cmd1 \<Rightarrow>
                 if count > 0 \<and> cmd \<noteq> cmd1 then Inl (ValuesDoNotMatch index cmd cmd1)
                 else Inr (count + 1, cmd1))) [0..<m] (0, None) =
    Inr (int (card {i. i < m \<and> (logs cfg ! i) index \<noteq> None}),
         if \<exists>i < m. (logs cfg ! i) index \<noteq> None then c else None)"
  using assms(3)
proof (induction m)
  case (Suc m)
  let ?A = "\<lambda>m. {i. i < m \<and> (logs cfg ! i) index \<noteq> None}"
  have fin: "finite (?A m)" by simp
  have A: "?A (Suc m) = (if (logs cfg ! m) index = None then ?A m else insert m (?A m))"
    by (auto simp: less_Suc_eq)
  have ex: "(\<exists>i < Suc m. (logs cfg ! i) index \<noteq> None) \<longleftrightarrow>
      (logs cfg ! m) index \<noteq> None \<or> (\<exists>i < m. (logs cfg ! i) index \<noteq> None)" by (auto simp: less_Suc_eq)
  have pos: "0 < card (?A m) \<longleftrightarrow> (\<exists>i < m. (logs cfg ! i) index \<noteq> None)"
    using fin by (auto simp: card_gt_0_iff)
  have "card (?A (Suc m)) = card (?A m) + of_bool ((logs cfg ! m) index \<noteq> None)"
    unfolding A using fin by auto
  moreover have "v = c" if "(logs cfg ! m) index = Some v" for v
    using assms(2) [of m v] Suc.prems that by simp
  ultimately show ?case
    using Suc pos unfolding ex by (auto simp: go_for_append assms(1) split: option.splits)
qed simp

text \<open>Property C10: while the harness watches a cluster in which replies are handled in their term and
  requests are encoded before their sender overwrites the entries they share, the goroutines that read the apply channels never report a mismatch or an entry out of order, whatever
  crashes, restarts, losses and elections happen; and \<open>nCommitted\<close> never fails and returns for every
  index the number of peers that have applied it and the command they all applied.\<close>

theorem harness_finds_agreement:
  assumes "hstart (s0, cfg0)" and "hstep\<^sup>*\<^sup>* (s0, cfg0) (s, cfg)"
  shows "(\<forall>i rf m. i < length (nodes (cl s)) \<longrightarrow> applyNext (nodes (cl s) ! i) = Some (Some (rf, m)) \<longrightarrow>
           (\<exists>cfg'. applier i m cfg = Inr cfg')) \<and>
    (\<forall>index. \<exists>cmd.
       nCommitted index cfg = Inr (int (card {i. i < length (nodes (cl s)) \<and> (logs cfg ! i) index \<noteq> None}), cmd) \<and>
       (\<forall>i v. i < length (nodes (cl s)) \<longrightarrow> (logs cfg ! i) index = Some v \<longrightarrow> v = cmd))"
proof (intro conjI allI impI)
  have "hinv (s, cfg)" using watch.reachable_inv [OF assms] .
  then obtain H C G where inv: "vinv (nodes (cl s)) (net (cl s)) H C" "linv (nodes (cl s)) (net (cl s)) H G" "watched (cl s) G cfg"
    by (auto simp: hinv_def)
  show "\<exists>cfg'. applier i m cfg = Inr cfg'"
    if "i < length (nodes (cl s))" "applyNext (nodes (cl s) ! i) = Some (Some (rf, m))" for i rf m
    using applier_ok(1) [OF inv(2,1,3) that] by blast
  fix index
  have G: "ginv (length (nodes (cl s))) H G" using inv(2) by (simp add: linv_def)
  obtain c where c: "\<And>i v. i < length (nodes (cl s)) \<Longrightarrow> (logs cfg ! i) index = Some v \<Longrightarrow> v = c"
  proof (cases "\<exists>i v. i < length (nodes (cl s)) \<and> (logs cfg ! i) index = Some v")
    case True
    then obtain i v where "i < length (nodes (cl s))" "(logs cfg ! i) index = Some v" by blast
    then have r: "recorded (length (nodes (cl s))) G index v" using inv(3) by (simp add: watched_def)
    have "w = v" if "j < length (nodes (cl s))" "(logs cfg ! j) index = Some w" for j w
    proof -
      have "recorded (length (nodes (cl s))) G index w" using inv(3) that by (simp add: watched_def)
      then show ?thesis using recorded_unique [OF G log_inv_voted [OF inv(2)]] r by blast
    qed
    then show ?thesis by (rule that)
  qed (use that [of None] in blast)
  have w: "applyErr cfg = replicate (length (nodes (cl s))) None" "length (rafts cfg) = length (nodes (cl s))"
    using inv(3) by (auto simp: watched_def)
  have "nCommitted index cfg = Inr (int (card {i. i < length (nodes (cl s)) \<and> (logs cfg ! i) index \<noteq> None}),
      if \<exists>i < length (nodes (cl s)). (logs cfg ! i) index \<noteq> None then c else None)"
    unfolding nCommitted_def w(2) by (rule nCommitted_loop [OF w(1) c order_refl w(2)])
  moreover have "v = (if \<exists>i < length (nodes (cl s)). (logs cfg ! i) index \<noteq> None then c else None)"
    if "i < length (nodes (cl s))" "(logs cfg ! i) index = Some v" for i v
    using c [OF that] that by auto
  ultimately show "\<exists>cmd. nCommitted index cfg =
        Inr (int (card {i. i < length (nodes (cl s)) \<and> (logs cfg ! i) index \<noteq> None}), cmd) \<and>
      (\<forall>i v. i < length (nodes (cl s)) \<longrightarrow> (logs cfg ! i) index = Some v \<longrightarrow> v = cmd)" by blast
qed

definition empty_config :: "(nat, nat) config" where
  "empty_config = \<lparr>cfgNet = MakeNetwork, cfgN = 3, rafts = replicate 3 None, applyErr = replicate 3 None,
     connected = replicate 3 False, saved = replicate 3 None, endnames = replicate 3 None,
     logs = replicate 3 Map.empty, cfgStart = 0, cfgT0 = 0, rpcs0 = 0, cmds0 = 0, bytes0 = 0,
     maxIndex = 0, maxIndex0 = 0\<rparr>"

lemma mexecs_hsteps:
  assumes "mexecs timely xs s = Some t" and "\<And>i k. Act (Apply i) k \<notin> set xs"
  shows "hstep\<^sup>*\<^sup>* (s, cfg) (t, cfg)"
  using assms
proof (induction xs arbitrary: s)
  case (Cons x xs)
  then obtain u where u: "timely s x" "mexec x s = Some u" "mexecs timely xs u = Some t"
    by (auto split: option.splits if_splits)
  have "hstep (s, cfg) (u, cfg)" by (rule hs_peer [OF u(1,2)]) (use Cons.prems(2) in force)
  moreover have "hstep\<^sup>*\<^sup>* (u, cfg) (t, cfg)" using Cons.IH [OF u(3)] Cons.prems(2) by simp
  ultimately show ?case by (rule converse_rtranclp_into_rtranclp)
qed simp

theorem harness_finds_agreement_witness:
  "\<exists>s cfg. hstep\<^sup>*\<^sup>* (three_servers, empty_config) (s, cfg) \<and>
     (logs cfg ! 0) 1 = Some (Some 10) \<and> nCommitted 1 cfg = Inr (1, Some 10)"
proof -
  have st: "hstart (three_servers, empty_config)"
    using three_servers_initial by (simp add: hstart_def three_servers_def init_mem_def init_cluster_def empty_config_def)
  have ap: "execs fresh_replies commit_run (init_cluster 3 (\<lambda>_. (0, 0))) = Some after_commit"
    using runs_defined by (auto simp: after_commit_def)
  have "Drop x \<notin> set commit_run" for x by (auto simp: commit_run_def Let_def vote_for_def)
  from execs_at_once [OF ap this] obtain xs cs where
    xs: "mexecs timely xs three_servers = Some \<lparr>cl = after_commit, caps = cs, unsent = []\<rparr>" "\<forall>a k. Act a k \<in> set xs \<longrightarrow> a \<in> set commit_run"
    unfolding three_servers_def init_mem_def by blast
  let ?s = "\<lparr>cl = after_commit, caps = cs, unsent = []\<rparr>"
  have "Apply i \<notin> set commit_run" for i by (auto simp: commit_run_def Let_def vote_for_def)
  then have h1: "hstep\<^sup>*\<^sup>* (three_servers, empty_config) (?s, empty_config)"
    using xs(2) by (intro mexecs_hsteps [OF xs(1)]) blast
  obtain rf m where m: "applyNext (nodes after_commit ! 0) = Some (Some (rf, m))" "m = msg10"
    using runs_fields(8) by auto
  then have m': "applyNext (nodes (cl ?s) ! 0) = Some (Some (rf, m))" by simp
  obtain cfg where c: "applier 0 m empty_config = Inr cfg"
    using harness_finds_agreement [OF st h1, THEN conjunct1, rule_format, OF _ m'] runs_length by auto
  have l: "logs cfg = [[1 \<mapsto> Some 10], Map.empty, Map.empty]"
    using c by (auto simp: applier_def m(2) empty_config_def numeral_3_eq_3)
  have "exec (Apply 0) after_commit = Some (after_commit\<lparr>nodes := (nodes after_commit)[0 := rf]\<rparr>)"
    using m(1) runs_length by simp
  from exec_at_once [OF this, of cs] obtain k cs' us where
    e: "mexecs timely (Act (Apply 0) k # map EncodeArgs us) ?s =
      Some \<lparr>cl = after_commit\<lparr>nodes := (nodes after_commit)[0 := rf]\<rparr>, caps = cs', unsent = []\<rparr>" by auto
  then obtain u where u: "timely ?s (Act (Apply 0) k)" "mexec (Act (Apply 0) k) ?s = Some u"
    by (auto simp del: mexec.simps split: if_splits option.splits)
  have n: "length (nodes (cl u)) = 3" using mexec_length [OF u(2)] runs_length by simp
  have h2: "hstep\<^sup>*\<^sup>* (three_servers, empty_config) (u, cfg)"
    using h1 hs_apply [OF u m' c] by (rule rtranclp.rtrancl_into_rtrancl)
  have "{i. i < 3 \<and> (logs cfg ! i) 1 \<noteq> None} = {0}" by (auto simp: l less_Suc_eq numeral_3_eq_3)
  moreover from harness_finds_agreement [OF st h2, THEN conjunct2, THEN spec, of 1]
  obtain cmd where "nCommitted 1 cfg = Inr (int (card {i. i < 3 \<and> (logs cfg ! i) 1 \<noteq> None}), cmd)"
    "\<forall>i v. i < 3 \<longrightarrow> (logs cfg ! i) 1 = Some v \<longrightarrow> v = cmd"
    using n by auto
  moreover from this(2) have "Some 10 = cmd" by (rule allE [of _ 0]) (simp add: l)
  ultimately have "nCommitted 1 cfg = Inr (1, Some 10)" by simp
  then show ?thesis using h2 by (intro exI conjI) (auto simp: l)
qed

section \<open>Leaders\<close>

lemma addLeader_new: "t \<notin> fst ` set ls \<Longrightarrow> addLeader t i ls = ls @ [(t, [i])]"
  by (induction t i ls rule: addLeader.induct) auto

text \<open>The connected peers that were seen as leaders, with at most one per term.\<close>

abbreviation leads :: "bool list \<Rightarrow> (nat \<Rightarrow> 'c Raft) \<Rightarrow> nat \<Rightarrow> bool" where
  "leads con rf i \<equiv> con ! i \<and> state (rf i) = leaderState"

lemma collectLeaders_spec:
  assumes "\<And>i j. i < n \<Longrightarrow> j < n \<Longrightarrow> leads con rf i \<Longrightarrow> leads con rf j \<Longrightarrow>
      currentTerm (rf i) = currentTerm (rf j) \<Longrightarrow> i = j"
    and "m \<le> n"
  shows "collectLeaders con m (\<lambda>i. Some (rf i)) =
    (Inr (map (\<lambda>i. (currentTerm (rf i), [i])) (filter (leads con rf) [0..<m])) :: 'c failure + _)"
  using assms(2) unfolding collectLeaders_def
proof (induction m)
  case (Suc m)
  let ?ls = "map (\<lambda>i. (currentTerm (rf i), [i])) (filter (leads con rf) [0..<m])"
  have "currentTerm (rf m) \<notin> fst ` set ?ls" if l: "leads con rf m"
  proof
    assume "currentTerm (rf m) \<in> fst ` set ?ls"
    then obtain i where "i < m" "leads con rf i" "currentTerm (rf m) = currentTerm (rf i)" by auto
    then show False using assms(1) [of m i] l Suc.prems by simp
  qed
  note new = addLeader_new [OF this, of m]
  let ?f = "\<lambda>i ls. if con ! i then
          (case GetStateOf (\<lambda>i. Some (rf i)) i of
             Inl e \<Rightarrow> Inl e
           | Inr (term, leader) \<Rightarrow> Inr (if leader then addLeader term i ls else ls))
        else (Inr ls :: 'c failure + _)"
  have IH: "go_for ?f [0..<m] [] = Inr ?ls" using Suc.IH Suc.prems by simp
  have "?f m ?ls = Inr (if leads con rf m then ?ls @ [(currentTerm (rf m), [m])] else ?ls)"
    using new by (simp add: GetStateOf_def GetState_def)
  then have "go_for ?f [0..<Suc m] [] = Inr (if leads con rf m then ?ls @ [(currentTerm (rf m), [m])] else ?ls)"
    by (simp only: upt_Suc_append [OF le0] go_for_append IH sum.case go_for.simps)
  then show ?case by (simp split: if_splits)
qed simp

lemma range_max:
  assumes "\<And>t ls. (t, ls) \<in> set xs \<Longrightarrow> length ls = 1"
  shows "go_for (\<lambda>(term, ls) lastTerm.
           if length ls > 1 then Inl (TermHasLeaders term (length ls))
           else Inr (if term > lastTerm then term else lastTerm)) xs b = (Inr (fold max (map fst xs) b) :: 'c failure + int)"
  using assms
proof (induction xs arbitrary: b)
  case (Cons x xs)
  obtain t ls where x: "x = (t, ls)" by (cases x)
  have "length ls = 1" using Cons.prems x by auto
  moreover have "go_for (\<lambda>(term, ls) lastTerm.
           if length ls > 1 then Inl (TermHasLeaders term (length ls))
           else Inr (if term > lastTerm then term else lastTerm)) xs c = (Inr (fold max (map fst xs) c) :: 'c failure + int)" for c
    by (rule Cons.IH) (use Cons.prems in auto)
  moreover have "max t b = (if t > b then t else b)" by (simp add: max_def)
  ultimately show ?case by (simp add: x)
qed simp

lemma fold_max_ge: "x \<le> b \<or> x \<in> set xs \<Longrightarrow> (x :: int) \<le> fold max xs b"
proof (induction xs arbitrary: b)
  case (Cons y xs)
  then have "x \<le> max y b \<or> x \<in> set xs" by (metis le_max_iff_disj order_refl set_ConsD)
  then show ?case using Cons.IH [of "max y b"] by simp
qed simp

lemma fold_max_in: "fold max xs (b :: int) = b \<or> fold max xs b \<in> set xs"
proof (induction xs arbitrary: b)
  case (Cons x xs)
  show ?case using Cons.IH [of "max x b"] by (auto simp: max_def split: if_splits)
qed simp

lemma oneLeaderRound_spec:
  assumes uni: "\<And>i j. i < n \<Longrightarrow> j < n \<Longrightarrow> leads con rf i \<Longrightarrow> leads con rf j \<Longrightarrow>
      currentTerm (rf i) = currentTerm (rf j) \<Longrightarrow> i = j"
    and pos: "\<And>i. i < n \<Longrightarrow> 0 \<le> currentTerm (rf i)"
    and perm: "\<And>xs. mset (range_order xs) = mset xs"
  shows "\<exists>r. oneLeaderRound range_order con n (\<lambda>i. Some (rf i)) = (Inr r :: 'c failure + _) \<and>
    (case r of
       None \<Rightarrow> \<forall>i < n. \<not> leads con rf i
     | Some l \<Rightarrow> l < n \<and> leads con rf l \<and>
         (\<forall>i < n. leads con rf i \<longrightarrow> currentTerm (rf i) \<le> currentTerm (rf l)))"
proof -
  let ?L = "filter (leads con rf) [0..<n]"
  let ?ls = "map (\<lambda>i. (currentTerm (rf i), [i])) ?L"
  have col: "collectLeaders con n (\<lambda>i. Some (rf i)) = (Inr ?ls :: 'c failure + _)"
    by (rule collectLeaders_spec [OF uni order_refl])
  have set: "set (range_order ?ls) = set ?ls" by (rule mset_eq_setD [OF perm])
  have one: "length ls = 1" if "(t, ls) \<in> set (range_order ?ls)" for t ls using that set by auto
  let ?M = "fold max (map fst (range_order ?ls)) (- 1)"
  note rm = range_max [of "range_order ?ls" "- 1", OF one]
  have terms: "set (map fst (range_order ?ls)) = (\<lambda>i. currentTerm (rf i)) ` set ?L"
    using set by (simp add: image_image del: set_filter)
  show ?thesis
  proof (cases "?L = []")
    case True
    have "oneLeaderRound range_order con n (\<lambda>i. Some (rf i)) = (Inr None :: 'c failure + _)"
      by (simp only: oneLeaderRound_def col sum.case rm) (simp add: True)
    moreover have "\<forall>i < n. \<not> leads con rf i" using True by (auto simp: filter_empty_conv)
    ultimately show ?thesis by auto
  next
    case False
    obtain i0 where i0: "i0 \<in> set ?L" using False by (cases ?L) auto
    have top: "currentTerm (rf i) \<le> ?M" if "i \<in> set ?L" for i
      by (rule fold_max_ge) (use that terms in blast)
    have "- 1 < currentTerm (rf i0)" using pos i0 by fastforce
    then have "?M \<noteq> - 1" using top [OF i0] by linarith
    then obtain l where l: "l \<in> set ?L" "currentTerm (rf l) = ?M"
      using fold_max_in [of "map fst (range_order ?ls)" "- 1"] terms by auto
    have "distinct (map fst ?ls)"
      using uni by (auto simp: distinct_map inj_on_def comp_def)
    moreover have "(currentTerm (rf l), [l]) \<in> set ?ls" using l(1) by auto
    ultimately have "map_of ?ls (currentTerm (rf l)) = Some [l]" by (rule map_of_is_SomeI)
    then have mo: "map_of ?ls ?M = Some [l]" using l(2) by metis
    have "length ?ls \<noteq> 0" using False by simp
    then have "oneLeaderRound range_order con n (\<lambda>i. Some (rf i)) = (Inr (Some l) :: 'c failure + _)"
      by (simp only: oneLeaderRound_def col sum.case rm mo) simp
    moreover have "currentTerm (rf i) \<le> currentTerm (rf l)" if "i < n" "leads con rf i" for i
      using top [of i] l(2) that by simp
    ultimately show ?thesis using l(1) by auto
  qed
qed

text \<open>
  The moments at which the harness asks the peers: in round \<open>r\<close> it asks peer \<open>i\<close> in state
  \<open>\<sigma> (r * n + i)\<close> of a run of the cluster.
\<close>

definition seen :: "(nat \<Rightarrow> 'c cluster) \<Rightarrow> nat \<Rightarrow> nat \<Rightarrow> nat \<Rightarrow> 'c Raft" where
  "seen \<sigma> n r i = nodes (\<sigma> (r * n + i)) ! i"

definition run_of :: "(nat \<Rightarrow> 'c cluster) \<Rightarrow> bool" where
  "run_of \<sigma> \<longleftrightarrow> initial (\<sigma> 0) \<and> (\<forall>m. (cstep fresh_replies)\<^sup>*\<^sup>* (\<sigma> m) (\<sigma> (Suc m)))"

lemma run_later:
  assumes "run_of \<sigma>" and "m \<le> k"
  shows "(cstep fresh_replies)\<^sup>*\<^sup>* (\<sigma> m) (\<sigma> k)"
  using assms(2)
proof (induction k rule: dec_induct)
  case (step k)
  then show ?case using assms(1) by (meson run_of_def rtranclp_trans)
qed simp

lemma steps_length: "(cstep allowed)\<^sup>*\<^sup>* s t \<Longrightarrow> length (nodes t) = length (nodes s)"
  by (induction rule: rtranclp_induct) (auto elim!: cstepE dest: exec_length)

lemma seen_unique:
  assumes run: "run_of \<sigma>" and n: "length (nodes (\<sigma> 0)) = n" and ij: "i < n" "j < n"
    and "state (seen \<sigma> n r i) = leaderState" and "state (seen \<sigma> n r j) = leaderState"
    and "currentTerm (seen \<sigma> n r i) = currentTerm (seen \<sigma> n r j)"
  shows "i = j"
proof -
  have *: "a = b" if "a \<le> b" "a < n" "b < n" "state (seen \<sigma> n r a) = leaderState"
      "state (seen \<sigma> n r b) = leaderState" "currentTerm (seen \<sigma> n r a) = currentTerm (seen \<sigma> n r b)" for a b
  proof (rule leader_of_term)
    show "initial (\<sigma> 0)" using run by (simp add: run_of_def)
    show st: "(cstep fresh_replies)\<^sup>*\<^sup>* (\<sigma> 0) (\<sigma> (r * n + a))" by (rule run_later [OF run]) simp
    show "(cstep fresh_replies)\<^sup>*\<^sup>* (\<sigma> (r * n + a)) (\<sigma> (r * n + b))" by (rule run_later [OF run]) (use that in simp)
    show "a < length (nodes (\<sigma> (r * n + a)))" "b < length (nodes (\<sigma> (r * n + a)))"
      using steps_length [OF st] n that by auto
  qed (use that in \<open>auto simp: seen_def\<close>)
  show ?thesis using * [of i j] * [of j i] assms by (metis nat_le_linear)
qed

lemma seen_nonneg:
  assumes run: "run_of \<sigma>" and n: "length (nodes (\<sigma> 0)) = n" and i: "i < n"
  shows "0 \<le> currentTerm (seen \<sigma> n r i)"
proof -
  let ?s = "\<sigma> (r * n + i)"
  have st: "(cstep fresh_replies)\<^sup>*\<^sup>* (\<sigma> 0) ?s" by (rule run_later [OF run]) simp
  have "initial (\<sigma> 0)" using run by (simp add: run_of_def)
  from logs.reachable_inv [OF this st] obtain H C G where
    inv: "vinv (nodes ?s) (net ?s) H C" "linv (nodes ?s) (net ?s) H G" by (auto simp: log_inv_def)
  have "i < length (nodes ?s)" using steps_length [OF st] n i by simp
  then have "node_inv (nodes ?s ! i)" "ninv (length (nodes ?s)) G i (nodes ?s ! i)"
    using inv by (auto simp: vinv_def node_ok_def linv_def)
  then show ?thesis unfolding seen_def by (rule term_nonneg)
qed

text \<open>Property C11: \<open>checkOneLeader\<close>, which asks the peers one after the other while the cluster runs on,
  never reports two leaders of one term. It returns a connected peer that was seen as leader, of the
  latest term with a leader seen in that round, or reports that there is no leader when none of the
  connected peers was seen as leader in any round.\<close>

theorem checkOneLeader_sound:
  assumes "run_of \<sigma>" and "length (nodes (\<sigma> 0)) = n" and "\<And>xs. mset (range_order xs) = mset xs"
  shows "case checkOneLeader range_order con n (map (\<lambda>r i. Some (seen \<sigma> n r i)) rounds) of
      Inl e \<Rightarrow> e = ExpectedOneLeader \<and> (\<forall>r \<in> set rounds. \<forall>i < n. \<not> leads con (seen \<sigma> n r) i)
    | Inr l \<Rightarrow> l < n \<and> (\<exists>r \<in> set rounds. leads con (seen \<sigma> n r) l \<and>
        (\<forall>i < n. leads con (seen \<sigma> n r) i \<longrightarrow> currentTerm (seen \<sigma> n r i) \<le> currentTerm (seen \<sigma> n r l)))"
proof (induction rounds)
  case (Cons r rounds)
  obtain res where res: "oneLeaderRound range_order con n (\<lambda>i. Some (seen \<sigma> n r i)) = (Inr res :: 'a failure + _)"
    "case res of None \<Rightarrow> \<forall>i < n. \<not> leads con (seen \<sigma> n r) i
     | Some l \<Rightarrow> l < n \<and> leads con (seen \<sigma> n r) l \<and>
         (\<forall>i < n. leads con (seen \<sigma> n r) i \<longrightarrow> currentTerm (seen \<sigma> n r i) \<le> currentTerm (seen \<sigma> n r l))"
    using oneLeaderRound_spec [of n con "seen \<sigma> n r" range_order] seen_unique [OF assms(1,2)]
      seen_nonneg [OF assms(1,2)] assms(3) by blast
  then show ?case using Cons by (cases res) (auto split: sum.splits)
qed simp

theorem checkOneLeader_sound_witness:
  "checkOneLeader (\<lambda>xs. xs) [True, True, True] 3
     (map (\<lambda>r i. Some (seen (\<lambda>m. if m = 0 then init_cluster 3 (\<lambda>_. (0, 0)) else after_commit) 3 r i)) [0, 1])
   = Inr 0"
proof -
  let ?\<sigma> = "\<lambda>m :: nat. if m = 0 then init_cluster 3 (\<lambda>_. (0, 0)) else after_commit"
  let ?con = "[True, True, True]"
  have run: "run_of ?\<sigma>" using runs_steps(1) by (auto simp: run_of_def initial_3)
  have st: "state (nodes after_commit ! i) = leaderState \<longleftrightarrow> i = 0" if "i < 3" for i
    using arg_cong [OF runs_states(1), of "\<lambda>xs. xs ! i"] that runs_length(1)
    by (auto simp: less_Suc_eq numeral_3_eq_3)
  have i0: "state (seen ?\<sigma> 3 0 0) \<noteq> leaderState"
    by (simp add: seen_def init_cluster_def Make_def Let_def readPersist_def resetElectionTimer_def persister_defs)
  have r: "leads ?con (seen ?\<sigma> 3 r) i \<longleftrightarrow> i = 0 \<and> r = 1" if "i < 3" "r \<in> set [0, 1]" for r i
  proof -
    have c: "?con ! i" using that(1) by (auto simp: less_Suc_eq numeral_3_eq_3)
    show ?thesis
    proof (cases "r = 0 \<and> i = 0")
      case True
      then show ?thesis using i0 by simp
    next
      case False
      then have "seen ?\<sigma> 3 r i = nodes after_commit ! i" by (auto simp: seen_def)
      then show ?thesis using c st [OF that(1)] False that(2) by auto
    qed
  qed
  have sp: "case checkOneLeader (\<lambda>xs. xs) ?con 3 (map (\<lambda>r i. Some (seen ?\<sigma> 3 r i)) [0, 1]) of
      Inl e \<Rightarrow> e = ExpectedOneLeader \<and> (\<forall>r \<in> set [0, 1]. \<forall>i < 3. \<not> leads ?con (seen ?\<sigma> 3 r) i)
    | Inr l \<Rightarrow> l < 3 \<and> (\<exists>r \<in> set [0, 1]. leads ?con (seen ?\<sigma> 3 r) l \<and>
        (\<forall>i < 3. leads ?con (seen ?\<sigma> 3 r) i \<longrightarrow> currentTerm (seen ?\<sigma> 3 r i) \<le> currentTerm (seen ?\<sigma> 3 r l)))"
    by (rule checkOneLeader_sound [OF run]) (simp_all add: init_cluster_def)
  show ?thesis
  proof (cases "checkOneLeader (\<lambda>xs. xs) ?con 3 (map (\<lambda>r i. Some (seen ?\<sigma> 3 r i)) [0, 1])")
    case (Inl e)
    then have "\<not> leads ?con (seen ?\<sigma> 3 1) 0" using sp unfolding Inl sum.case by (meson list.set_intros zero_less_numeral)
    then show ?thesis using r [of 0 1] by simp
  next
    case (Inr l)
    then obtain q where "l < 3" "q \<in> set [0, 1]" "leads ?con (seen ?\<sigma> 3 q) l"
      using sp unfolding Inr sum.case by blast
    then have "l = 0" using r by blast
    then show ?thesis using Inr by simp
  qed
qed

end
