(* ===== verification/KVServer.thy ===== *)
theory KVServer
  imports RaftNode
begin

text \<open>
  The replicated key/value server, \<open>src/src/kvraft/common.go\<close> and \<open>src/src/kvraft/server.go\<close>.
  Maps are partial functions. A handler holds \<open>kv.mu\<close> except while it sleeps; what other
  goroutines did to the server meanwhile is the argument \<open>env\<close>: \<open>env i\<close> is the server at the
  \<open>i\<close>-th check. The Raft peer has its own lock, so it may change between \<open>GetState\<close> and
  \<open>Start\<close>: \<open>rfS\<close> is the peer as \<open>Start\<close> finds it. A handler returns the server as it leaves it when it first releases the lock,
  and its reply.

  The interface to reason about duplicate suppression is the locale \<open>dedup_service\<close>: an
  operation is executed the first time its identifier is seen and its result is recorded.
  It is interpreted on \<open>readApplyChRoutine\<close>, so that the properties of the server are
  instances of facts proved once from the interface.
\<close>

section \<open>common.go\<close>

datatype Err = ErrZero | OK | ErrNoKey | ErrWrongLeader

record PutAppendArgs =
  paKey :: string
  paValue :: string
  paOp :: string
  paID :: int

record PutAppendReply =
  parErr :: Err

record GetArgs =
  gaKey :: string
  gaID :: int

record GetReply =
  grErr :: Err
  grValue :: string

section \<open>server.go\<close>

definition numChecks :: nat where
  "numChecks = 3"

record Op =
  OpType :: string
  opKey :: string
  opValue :: string
  OpID :: int

record Record =
  recErr :: Err
  recValue :: string

record KVServer =
  kv_me :: int
  rf :: "Op Raft"
  kv_dead :: bool
  maxraftstate :: int
  db :: "string \<rightharpoonup> string"
  execRecord :: "int \<rightharpoonup> Record"

text \<open>The loop that waits for the operation to be applied, over the states seen at the checks.\<close>

fun Get_wait :: "int \<Rightarrow> int \<Rightarrow> KVServer list \<Rightarrow> GetReply" where
  "Get_wait term1 opID [] = \<lparr>grErr = ErrWrongLeader, grValue = []\<rparr>"
| "Get_wait term1 opID (kv # kvs) =
     (if fst (GetState (rf kv)) \<noteq> term1 then \<lparr>grErr = ErrWrongLeader, grValue = []\<rparr>
      else
        (case execRecord kv opID of
           Some record \<Rightarrow> \<lparr>grErr = recErr record, grValue = recValue record\<rparr>
         | None \<Rightarrow> Get_wait term1 opID kvs))"

definition Get :: "GetArgs \<Rightarrow> Op Raft \<Rightarrow> (nat \<Rightarrow> KVServer) \<Rightarrow> KVServer \<Rightarrow> KVServer \<times> GetReply" where
  "Get args rfS env kv =
     (case GetState (rf kv) of
        (term1, isLeader) \<Rightarrow>
          if \<not> isLeader then (kv, \<lparr>grErr = ErrWrongLeader, grValue = []\<rparr>)
          else
            (case execRecord kv (gaID args) of
               Some record \<Rightarrow> (kv, \<lparr>grErr = recErr record, grValue = recValue record\<rparr>)
             | None \<Rightarrow>
                 let opID = gaID args;
                     op = \<lparr>OpType = ''Get'', opKey = gaKey args, opValue = [], OpID = opID\<rparr>;
                     kv = kv\<lparr>rf := fst (Start op rfS)\<rparr>
                 in (kv, Get_wait term1 opID (map env [0..<numChecks]))))"

fun PutAppend_wait :: "int \<Rightarrow> int \<Rightarrow> KVServer list \<Rightarrow> PutAppendReply" where
  "PutAppend_wait term1 opID [] = \<lparr>parErr = ErrWrongLeader\<rparr>"
| "PutAppend_wait term1 opID (kv # kvs) =
     (if fst (GetState (rf kv)) \<noteq> term1 then \<lparr>parErr = ErrWrongLeader\<rparr>
      else
        (case execRecord kv opID of
           Some record \<Rightarrow> \<lparr>parErr = recErr record\<rparr>
         | None \<Rightarrow> PutAppend_wait term1 opID kvs))"

definition PutAppend ::
    "PutAppendArgs \<Rightarrow> Op Raft \<Rightarrow> (nat \<Rightarrow> KVServer) \<Rightarrow> KVServer \<Rightarrow> KVServer \<times> PutAppendReply" where
  "PutAppend args rfS env kv =
     (case GetState (rf kv) of
        (term1, isLeader) \<Rightarrow>
          if \<not> isLeader then (kv, \<lparr>parErr = ErrWrongLeader\<rparr>)
          else
            (case execRecord kv (paID args) of
               Some record \<Rightarrow> (kv, \<lparr>parErr = recErr record\<rparr>)
             | None \<Rightarrow>
                 let opID = paID args;
                     op = \<lparr>OpType = paOp args, opKey = paKey args, opValue = paValue args,
                           OpID = opID\<rparr>;
                     kv = kv\<lparr>rf := fst (Start op rfS)\<rparr>
                 in (kv, PutAppend_wait term1 opID (map env [0..<numChecks]))))"

definition KV_Kill :: "KVServer \<Rightarrow> KVServer" where
  "KV_Kill kv = kv\<lparr>kv_dead := True, rf := Kill (rf kv)\<rparr>"

definition KV_killed :: "KVServer \<Rightarrow> bool" where
  "KV_killed kv = kv_dead kv"

text \<open>What the routine that reads \<open>applyCh\<close> does with one operation.\<close>

definition applyOp :: "Op \<Rightarrow> KVServer \<Rightarrow> KVServer" where
  "applyOp op kv =
     (case execRecord kv (OpID op) of
        Some _ \<Rightarrow> kv
      | None \<Rightarrow>
          if OpType op = ''Get'' then
            (case db kv (opKey op) of
               None \<Rightarrow> kv\<lparr>execRecord :=
                          (execRecord kv)(OpID op \<mapsto> \<lparr>recErr = ErrNoKey, recValue = []\<rparr>)\<rparr>
             | Some value \<Rightarrow> kv\<lparr>execRecord :=
                          (execRecord kv)(OpID op \<mapsto> \<lparr>recErr = OK, recValue = value\<rparr>)\<rparr>)
          else if OpType op = ''Put'' then
            kv\<lparr>db := (db kv)(opKey op \<mapsto> opValue op),
               execRecord := (execRecord kv)(OpID op \<mapsto> \<lparr>recErr = OK, recValue = []\<rparr>)\<rparr>
          else if OpType op = ''Append'' then
            let kv = (if db kv (opKey op) = None then kv\<lparr>db := (db kv)(opKey op \<mapsto> [])\<rparr> else kv)
            in kv\<lparr>db := (db kv)(opKey op \<mapsto> the (db kv (opKey op)) @ opValue op),
                  execRecord := (execRecord kv)(OpID op \<mapsto> \<lparr>recErr = OK, recValue = []\<rparr>)\<rparr>
          else kv)"

text \<open>One round of the routine; \<open>None\<close> is the panic of the type assertion on a \<open>nil\<close> command.\<close>

definition readApplyChRoutine :: "Op ApplyMsg \<Rightarrow> KVServer \<Rightarrow> KVServer option" where
  "readApplyChRoutine msg kv = map_option (\<lambda>op. applyOp op kv) (Command msg)"

definition StartKVServer ::
    "clock \<Rightarrow> nat \<Rightarrow> int \<Rightarrow> Op gob_value Persister \<Rightarrow> int \<Rightarrow> KVServer" where
  "StartKVServer c servers self ps maxstate =
     \<lparr>kv_me = self, rf = Make c servers self ps, kv_dead = False, maxraftstate = maxstate,
      db = Map.empty, execRecord = Map.empty\<rparr>"

section \<open>Executing each operation once\<close>

text \<open>
  The abstract service: an operation maps the data to new data and a result. The server
  keeps the results by identifier and skips an operation whose identifier it knows.
\<close>

text \<open>The operations of a sequence that take effect: valid, and the first with their identifier.\<close>

fun effective :: "('op \<Rightarrow> 'id) \<Rightarrow> ('op \<Rightarrow> bool) \<Rightarrow> 'id set \<Rightarrow> 'op list \<Rightarrow> 'op list" where
  "effective ident valid S [] = []"
| "effective ident valid S (op # ops) =
     (if ident op \<in> S \<or> \<not> valid op then effective ident valid S ops
      else op # effective ident valid (insert (ident op) S) ops)"

fun spec_run :: "('op \<Rightarrow> 'd \<Rightarrow> 'd \<times> 'r) \<Rightarrow> 'op list \<Rightarrow> 'd \<Rightarrow> 'd" where
  "spec_run spec [] d = d"
| "spec_run spec (op # ops) d = spec_run spec ops (fst (spec op d))"

lemma effective_distinct:
  "distinct (map ident (effective ident valid S ops)) \<and>
   ident ` set (effective ident valid S ops) \<inter> S = {}"
  by (induction ops arbitrary: S) auto

lemma effective_set: "set (effective ident valid S ops) \<subseteq> {op \<in> set ops. valid op}"
  by (induction ops arbitrary: S) auto

locale dedup_service =
  fixes step :: "'op \<Rightarrow> 'st \<Rightarrow> 'st"
    and data :: "'st \<Rightarrow> 'd" and seen :: "'st \<Rightarrow> 'id \<rightharpoonup> 'r"
    and ident :: "'op \<Rightarrow> 'id" and valid :: "'op \<Rightarrow> bool"
    and spec :: "'op \<Rightarrow> 'd \<Rightarrow> 'd \<times> 'r"
  assumes step_skip: "seen st (ident op) \<noteq> None \<or> \<not> valid op \<Longrightarrow> step op st = st"
    and step_data: "seen st (ident op) = None \<Longrightarrow> valid op \<Longrightarrow>
          data (step op st) = fst (spec op (data st))"
    and step_seen: "seen st (ident op) = None \<Longrightarrow> valid op \<Longrightarrow>
          seen (step op st) = (seen st)(ident op \<mapsto> snd (spec op (data st)))"
begin

lemma run_effective:
  "data (fold step ops st) = spec_run spec (effective ident valid (dom (seen st)) ops) (data st)"
proof (induction ops arbitrary: st)
  case Nil
  then show ?case by simp
next
  case (Cons op ops)
  show ?case
  proof (cases "seen st (ident op) = None \<and> valid op")
    case True
    then have "dom (seen (step op st)) = insert (ident op) (dom (seen st))"
      by (simp add: step_seen)
    with True Cons show ?thesis by (simp add: step_data domIff)
  next
    case False
    with Cons show ?thesis by (auto simp: step_skip)
  qed
qed

lemma seen_stable: "seen st i = Some r \<Longrightarrow> seen (fold step ops st) i = Some r"
proof (induction ops arbitrary: st)
  case Nil
  then show ?case by simp
next
  case (Cons op ops)
  have "seen (step op st) i = Some r"
    using Cons.prems
    by (cases "seen st (ident op) = None \<and> valid op") (auto simp: step_skip step_seen)
  then show ?case using Cons.IH by simp
qed

text \<open>A recorded result is what the first operation with its identifier returned.\<close>

lemma seen_result:
  assumes "seen (fold step ops st) i = Some r" and "seen st i = None"
  shows "\<exists>pre op post. ops = pre @ op # post \<and> ident op = i \<and> valid op \<and>
           (\<forall>op' \<in> set pre. ident op' = i \<longrightarrow> \<not> valid op') \<and>
           r = snd (spec op (data (fold step pre st)))"
  using assms
proof (induction ops arbitrary: st)
  case Nil
  then show ?case by simp
next
  case (Cons op ops)
  show ?case
  proof (cases "ident op = i \<and> valid op")
    case True
    then have "seen (step op st) i = Some (snd (spec op (data st)))"
      using Cons.prems(2) by (auto simp: step_seen)
    with Cons.prems(1) have "r = snd (spec op (data st))"
      using seen_stable [of "step op st" i _ ops] by simp
    with True show ?thesis
      by (intro exI [of _ "[]"] exI [of _ op] exI [of _ ops]) simp
  next
    case False
    then have "seen (step op st) i = None"
      using Cons.prems(2)
      by (cases "seen st (ident op) = None \<and> valid op") (auto simp: step_skip step_seen)
    then obtain pre op' post where
      "ops = pre @ op' # post" "ident op' = i" "valid op'"
      "\<forall>x \<in> set pre. ident x = i \<longrightarrow> \<not> valid x"
      "r = snd (spec op' (data (fold step pre (step op st))))"
      using Cons.IH [of "step op st"] Cons.prems(1) by auto
    with False show ?thesis
      by (intro exI [of _ "op # pre"] exI [of _ op'] exI [of _ post]) auto
  qed
qed

lemma seen_complete:
  assumes "op \<in> set ops" and "valid op"
  shows "seen (fold step ops st) (ident op) \<noteq> None"
proof -
  obtain pre post where ops: "ops = pre @ op # post" using assms(1) by (auto dest: split_list)
  have "\<exists>r. seen (step op (fold step pre st)) (ident op) = Some r"
    using assms(2)
    by (cases "seen (fold step pre st) (ident op)") (auto simp: step_skip step_seen)
  then show ?thesis using seen_stable by (fastforce simp: ops)
qed

end

section \<open>The key/value service behind the server\<close>

definition valid_op :: "Op \<Rightarrow> bool" where
  "valid_op op \<longleftrightarrow> OpType op \<in> {''Get'', ''Put'', ''Append''}"

definition kv_spec :: "Op \<Rightarrow> (string \<rightharpoonup> string) \<Rightarrow> (string \<rightharpoonup> string) \<times> Record" where
  "kv_spec op m =
     (if OpType op = ''Get'' then
        (m, case m (opKey op) of None \<Rightarrow> \<lparr>recErr = ErrNoKey, recValue = []\<rparr>
                               | Some v \<Rightarrow> \<lparr>recErr = OK, recValue = v\<rparr>)
      else if OpType op = ''Put'' then
        (m(opKey op \<mapsto> opValue op), \<lparr>recErr = OK, recValue = []\<rparr>)
      else
        (m(opKey op \<mapsto> (case m (opKey op) of None \<Rightarrow> [] | Some v \<Rightarrow> v) @ opValue op),
         \<lparr>recErr = OK, recValue = []\<rparr>))"

interpretation kv: dedup_service applyOp db execRecord OpID valid_op kv_spec
proof
  fix st :: KVServer and op :: Op
  show "execRecord st (OpID op) \<noteq> None \<or> \<not> valid_op op \<Longrightarrow> applyOp op st = st"
    by (auto simp: applyOp_def valid_op_def split: option.splits)
  assume "execRecord st (OpID op) = None" "valid_op op"
  then show "db (applyOp op st) = fst (kv_spec op (db st))"
    and "execRecord (applyOp op st) = (execRecord st)(OpID op \<mapsto> snd (kv_spec op (db st)))"
    by (auto simp: applyOp_def valid_op_def kv_spec_def Let_def split: option.splits)
qed

section \<open>Properties\<close>

text \<open>The server after it has read the given operations from \<open>applyCh\<close>.\<close>

definition kv_at :: "KVServer \<Rightarrow> Op list \<Rightarrow> bool" where
  "kv_at kv ops \<longleftrightarrow>
     db kv = db (fold applyOp ops (kv\<lparr>db := Map.empty, execRecord := Map.empty\<rparr>)) \<and>
     execRecord kv = execRecord (fold applyOp ops (kv\<lparr>db := Map.empty, execRecord := Map.empty\<rparr>))"

lemma applyOp_independent:
  assumes d: "db kv = db kv'" and e: "execRecord kv = execRecord kv'"
  shows "db (applyOp op kv) = db (applyOp op kv') \<and>
    execRecord (applyOp op kv) = execRecord (applyOp op kv')"
proof (cases "execRecord kv' (OpID op) = None \<and> valid_op op")
  case True
  then have "execRecord kv (OpID op) = None" "execRecord kv' (OpID op) = None" "valid_op op"
    by (simp_all add: e)
  then show ?thesis by (simp only: kv.step_data kv.step_seen d e)
next
  case False
  then have no: "execRecord kv' (OpID op) \<noteq> None \<or> \<not> valid_op op" by simp
  then have "execRecord kv (OpID op) \<noteq> None \<or> \<not> valid_op op" by (simp only: e)
  then have "applyOp op kv = kv" by (rule kv.step_skip)
  moreover have "applyOp op kv' = kv'" using no by (rule kv.step_skip)
  ultimately show ?thesis by (simp only: d e)
qed

lemma fold_applyOp_independent:
  "db kv = db kv' \<Longrightarrow> execRecord kv = execRecord kv' \<Longrightarrow>
   db (fold applyOp ops kv) = db (fold applyOp ops kv') \<and>
   execRecord (fold applyOp ops kv) = execRecord (fold applyOp ops kv')"
proof (induction ops arbitrary: kv kv')
  case (Cons op ops)
  then have "db (applyOp op kv) = db (applyOp op kv')"
    "execRecord (applyOp op kv) = execRecord (applyOp op kv')"
    using applyOp_independent by blast+
  from Cons.IH [OF this] show ?case by (simp only: fold_Cons comp_apply)
qed simp

abbreviation empty_kv :: KVServer where
  "empty_kv \<equiv> StartKVServer (0, 0) 0 0 MakePersister (- 1)"

lemma empty_kv_fields [simp]: "db empty_kv = Map.empty" "execRecord empty_kv = Map.empty"
  by (simp_all add: StartKVServer_def)

lemma kv_at_iff:
  "kv_at kv ops \<longleftrightarrow> db kv = db (fold applyOp ops empty_kv) \<and>
     execRecord kv = execRecord (fold applyOp ops empty_kv)"
  using fold_applyOp_independent [of "kv\<lparr>db := Map.empty, execRecord := Map.empty\<rparr>" empty_kv ops]
  by (simp add: kv_at_def)

lemma kv_at_data:
  "kv_at kv ops \<Longrightarrow> db kv = spec_run kv_spec (effective OpID valid_op {} ops) Map.empty"
  using kv.run_effective [of ops empty_kv] by (simp add: kv_at_iff)

text \<open>Property C19: the server's data after any sequence of messages, duplicates included, is what the
  plain key/value map gives for the valid operations with every identifier executed once, at
  its first occurrence; so two replicas that have applied the same log agree.\<close>

theorem kv_executes_once:
  assumes "kv_at kv ops"
  shows "db kv = spec_run kv_spec (effective OpID valid_op {} ops) Map.empty \<and>
    distinct (map OpID (effective OpID valid_op {} ops)) \<and>
    (\<forall>kv'. kv_at kv' ops \<longrightarrow> db kv' = db kv \<and> execRecord kv' = execRecord kv)"
  using assms kv_at_data [OF assms] effective_distinct [of OpID valid_op "{}" ops]
  by (simp add: kv_at_iff)

definition put_op :: "string \<Rightarrow> string \<Rightarrow> int \<Rightarrow> Op" where
  "put_op k v i = \<lparr>OpType = ''Put'', opKey = k, opValue = v, OpID = i\<rparr>"

definition append_op :: "string \<Rightarrow> string \<Rightarrow> int \<Rightarrow> Op" where
  "append_op k v i = \<lparr>OpType = ''Append'', opKey = k, opValue = v, OpID = i\<rparr>"

definition get_op :: "string \<Rightarrow> int \<Rightarrow> Op" where
  "get_op k i = \<lparr>OpType = ''Get'', opKey = k, opValue = [], OpID = i\<rparr>"

text \<open>An append that the clerk has sent twice.\<close>

definition kv_ops :: "Op list" where
  "kv_ops = [put_op ''x'' ''a'' 1, append_op ''x'' ''b'' 2, append_op ''x'' ''b'' 2, get_op ''x'' 3]"

definition kv_example :: KVServer where
  "kv_example = fold applyOp kv_ops empty_kv"

lemma kv_example_at: "kv_at kv_example kv_ops"
  by (simp add: kv_at_iff kv_example_def)

theorem kv_executes_once_witness: "db kv_example ''x'' = Some ''ab''"
proof -
  have "db kv_example = spec_run kv_spec (effective OpID valid_op {} kv_ops) Map.empty"
    using kv_executes_once [OF kv_example_at] by blast
  moreover have "spec_run kv_spec (effective OpID valid_op {} kv_ops) Map.empty ''x'' = Some ''ab''"
    by code_simp
  ultimately show ?thesis by simp
qed

text \<open>Once an identifier has a recorded result, no later message changes it, and a
  retransmitted request is answered from the record without a new log entry.\<close>

theorem kv_record_stable:
  assumes "execRecord kv (gaID args) = Some r"
  shows "execRecord (fold applyOp ops kv) (gaID args) = Some r \<and>
    (snd (GetState (rf kv)) \<longrightarrow>
       Get args rfS env kv = (kv, \<lparr>grErr = recErr r, grValue = recValue r\<rparr>))"
  using assms kv.seen_stable [OF assms, of ops] by (auto simp: Get_def split: prod.splits)

theorem kv_record_stable_witness:
  "execRecord (fold applyOp [put_op ''x'' ''c'' 4, get_op ''x'' 3] kv_example) 3 =
     Some \<lparr>recErr = OK, recValue = ''ab''\<rparr>"
proof -
  have "execRecord kv_example (gaID \<lparr>gaKey = ''x'', gaID = 3\<rparr>) =
      Some \<lparr>recErr = OK, recValue = ''ab''\<rparr>" by code_simp
  from kv_record_stable [OF this, of "[put_op ''x'' ''c'' 4, get_op ''x'' 3]"]
  show ?thesis by (simp only: GetArgs.simps)
qed

lemma Get_wait_record:
  "grErr (Get_wait t i kvs) \<noteq> ErrWrongLeader \<Longrightarrow>
   \<exists>kv \<in> set kvs. \<exists>r. fst (GetState (rf kv)) = t \<and> execRecord kv i = Some r \<and>
     Get_wait t i kvs = \<lparr>grErr = recErr r, grValue = recValue r\<rparr>"
proof (induction kvs)
  case (Cons kv kvs)
  then show ?case by (cases "execRecord kv i") (auto split: if_splits)
qed simp

text \<open>Property C20: when \<open>Get\<close> answers with anything but a wrong-leader error, an operation with the
  request's identifier has been applied from the log and the answer is what that operation
  returned at its place in the log: for a get, the value the map had there. The server was
  leader when the request came in, and still in the same term when the answer was read.\<close>

theorem Get_answer_from_log:
  assumes "Get args rfS env kv = (kv', reply)" and "grErr reply \<noteq> ErrWrongLeader"
    and "kv_at kv ops0" and "\<forall>i < numChecks. kv_at (env i) (ops i)"
  shows "snd (GetState (rf kv)) \<and>
    (\<exists>l pre op post. (l = ops0 \<or> (\<exists>i < numChecks. l = ops i \<and>
          fst (GetState (rf (env i))) = fst (GetState (rf kv)))) \<and>
       l = pre @ op # post \<and> OpID op = gaID args \<and> valid_op op \<and>
       (\<forall>op' \<in> set pre. OpID op' = gaID args \<longrightarrow> \<not> valid_op op') \<and>
       (let r = snd (kv_spec op (spec_run kv_spec (effective OpID valid_op {} pre) Map.empty))
        in reply = \<lparr>grErr = recErr r, grValue = recValue r\<rparr>))"
proof -
  let ?ok = "\<lambda>l. l = ops0 \<or> (\<exists>i < numChecks. l = ops i \<and>
          fst (GetState (rf (env i))) = fst (GetState (rf kv)))"
  have L: "snd (GetState (rf kv))"
    using assms(1,2) by (auto simp: Get_def split: prod.splits if_splits)
  have "\<exists>l s r. ?ok l \<and> kv_at s l \<and> execRecord s (gaID args) = Some r \<and>
          reply = \<lparr>grErr = recErr r, grValue = recValue r\<rparr>"
  proof (cases "execRecord kv (gaID args)")
    case (Some r)
    then show ?thesis using L assms(1,3) by (auto simp: Get_def split: prod.splits if_splits)
  next
    case None
    then have w: "reply = Get_wait (fst (GetState (rf kv))) (gaID args) (map env [0..<numChecks])"
      using L assms(1) by (auto simp: Get_def Let_def split: prod.splits if_splits)
    obtain s r where "s \<in> set (map env [0..<numChecks])"
      "fst (GetState (rf s)) = fst (GetState (rf kv))" "execRecord s (gaID args) = Some r"
      "reply = \<lparr>grErr = recErr r, grValue = recValue r\<rparr>"
      using Get_wait_record [of "fst (GetState (rf kv))" "gaID args" "map env [0..<numChecks]"]
        assms(2) by (auto simp: w)
    moreover from this(1) obtain i where "i < numChecks" "s = env i" by auto
    ultimately show ?thesis using assms(4) by blast
  qed
  then obtain l s r where l: "?ok l" "kv_at s l" "execRecord s (gaID args) = Some r"
    "reply = \<lparr>grErr = recErr r, grValue = recValue r\<rparr>" by blast
  then obtain pre op post where p: "l = pre @ op # post" "OpID op = gaID args" "valid_op op"
    "\<forall>op' \<in> set pre. OpID op' = gaID args \<longrightarrow> \<not> valid_op op'"
    "r = snd (kv_spec op (db (fold applyOp pre empty_kv)))"
    using kv.seen_result [of l empty_kv "gaID args" r] by (auto simp: kv_at_iff)
  have "db (fold applyOp pre empty_kv) = spec_run kv_spec (effective OpID valid_op {} pre) Map.empty"
    using kv.run_effective [of pre empty_kv] by simp
  with L l(1,4) p show ?thesis unfolding Let_def by metis
qed

definition kv_leader :: KVServer where
  "kv_leader = empty_kv\<lparr>rf := (rf empty_kv)\<lparr>state := leaderState, currentTerm := 1\<rparr>\<rparr>"

definition kv_leader_later :: KVServer where
  "kv_leader_later = fold applyOp kv_ops kv_leader"

theorem Get_answer_from_log_witness:
  "snd (Get \<lparr>gaKey = ''x'', gaID = 3\<rparr> (rf kv_leader) (\<lambda>_. kv_leader_later) kv_leader) =
     \<lparr>grErr = OK, grValue = ''ab''\<rparr> \<and>
   (\<exists>pre op post. kv_ops = pre @ op # post \<and> OpID op = 3 \<and> valid_op op)"
  (is "_ \<and> ?found")
proof -
  let ?args = "\<lparr>gaKey = ''x'', gaID = 3\<rparr>"
  let ?g = "Get ?args (rf kv_leader) (\<lambda>_. kv_leader_later) kv_leader"
  have g: "?g = (fst ?g, snd ?g)" by simp
  have e: "grErr (snd ?g) \<noteq> ErrWrongLeader" and r: "snd ?g = \<lparr>grErr = OK, grValue = ''ab''\<rparr>"
    by code_simp+
  have k0: "kv_at kv_leader []" by (simp add: kv_at_iff kv_leader_def)
  have "db kv_leader_later = db (fold applyOp kv_ops empty_kv) \<and>
        execRecord kv_leader_later = execRecord (fold applyOp kv_ops empty_kv)"
    unfolding kv_leader_later_def by (rule fold_applyOp_independent) (simp_all add: kv_leader_def)
  then have k1: "\<forall>i < numChecks. kv_at kv_leader_later ((\<lambda>_. kv_ops) i)" by (simp add: kv_at_iff)
  from Get_answer_from_log [OF g e k0 k1] obtain l pre op post where
    "l = [] \<or> (\<exists>i < numChecks. l = kv_ops)" "l = pre @ op # post" "OpID op = gaID ?args" "valid_op op"
    by blast
  then have "kv_ops = pre @ op # post \<and> OpID op = 3 \<and> valid_op op" by auto
  then have ?found by blast
  with r show ?thesis by simp
qed

end
