(* ===== verification/KVClerk.thy ===== *)
theory KVClerk
  imports KVServer
begin

text \<open>
  The client side of the key/value service, \<open>src/src/kvraft/client.go\<close>. A clerk tries the
  servers in turn, starting with the one that answered last, for as long as no server gives
  a final answer: the loops are partial functions, whose value is \<open>None\<close> when they run for
  ever. The network and the servers are the argument \<open>call\<close>: \<open>call k s args\<close> is what the
  \<open>k\<close>-th RPC of the operation returns when it is sent to the endpoint \<open>s\<close>, \<open>None\<close> when
  \<open>Call\<close> returned false.

  The locale \<open>round_robin\<close> is the contract of such a loop; the loops of \<open>Get\<close> and
  \<open>PutAppend\<close> are its interpretations.
\<close>

section \<open>Trying servers in turn\<close>

locale round_robin =
  fixes n :: nat
    and attempt :: "nat \<Rightarrow> int \<Rightarrow> 'r option"
    and loop :: "nat \<Rightarrow> int \<Rightarrow> 'r option"
  assumes loop_answer: "0 \<le> i \<Longrightarrow> i < int n \<Longrightarrow> attempt k i = Some r \<Longrightarrow> loop k i = Some r"
    and loop_retry: "0 \<le> i \<Longrightarrow> i < int n \<Longrightarrow> attempt k i = None \<Longrightarrow>
          loop k i = loop (Suc k) ((i + 1) mod int n)"
begin

lemma stops_by:
  assumes "attempt (k + d) ((p + int d) mod int n) \<noteq> None" and "0 \<le> p" and "p < int n"
  shows "\<exists>j r. j \<le> d \<and> attempt (k + j) ((p + int j) mod int n) = Some r \<and> loop k p = Some r"
  using assms
proof (induction d arbitrary: k p)
  case 0
  then show ?case using loop_answer by fastforce
next
  case (Suc d)
  show ?case
  proof (cases "attempt k p")
    case None
    have *: "((p + 1) mod int n + int j) mod int n = (p + int (Suc j)) mod int n" for j
      by (simp add: mod_simps ac_simps)
    have "\<exists>j r. j \<le> d \<and> attempt (Suc k + j) (((p + 1) mod int n + int j) mod int n) = Some r \<and>
            loop (Suc k) ((p + 1) mod int n) = Some r"
      by (rule Suc.IH) (use Suc.prems in \<open>simp_all only: * , simp_all\<close>)
    then obtain j r where "j \<le> d" "attempt (k + Suc j) ((p + int (Suc j)) mod int n) = Some r"
      "loop (Suc k) ((p + 1) mod int n) = Some r" unfolding * by auto
    then show ?thesis using loop_retry [OF Suc.prems(2,3) None]
      by (intro exI [of _ "Suc j"] exI [of _ r]) simp
  next
    case (Some r)
    then show ?thesis using loop_answer [OF Suc.prems(2,3) Some] Suc.prems(2,3)
      by (intro exI [of _ 0] exI [of _ r]) simp
  qed
qed

text \<open>
  When one server gives a final answer to every attempt from number \<open>start\<close> on, the loop ends
  within one more round over the servers.
\<close>

lemma returns:
  assumes s: "0 \<le> s" "s < int n" and p: "0 \<le> p" "p < int n"
    and live: "\<And>k. start \<le> k \<Longrightarrow> attempt k s \<noteq> None"
  shows "\<exists>j r. j < start + n \<and> attempt j ((p + int j) mod int n) = Some r \<and> loop 0 p = Some r"
proof -
  define d where "d = start + nat ((s - p - int start) mod int n)"
  have n: "0 < int n" using s by simp
  have "(p + int d) mod int n = (p + int start + (s - p - int start) mod int n) mod int n"
    using n by (simp add: d_def add.assoc)
  also have "\<dots> = s" using s by (simp add: mod_simps)
  finally have e: "(p + int d) mod int n = s" .
  have lt: "d < start + n" using n pos_mod_bound [of "int n" "s - p - int start"] by (simp add: d_def nat_less_iff)
  have "start \<le> d" by (simp add: d_def)
  then have "attempt (0 + d) ((p + int d) mod int n) \<noteq> None" using live e by simp
  from stops_by [OF this p] obtain j r where "j \<le> d" "attempt j ((p + int j) mod int n) = Some r"
    "loop 0 p = Some r" by auto
  with lt show ?thesis by (intro exI [of _ j] exI [of _ r]) simp
qed

end

section \<open>client.go\<close>

datatype go_panic = IndexOutOfRange

record 'e Clerk =
  servers :: "'e list"
  prevLeader :: int

definition nrand :: "int \<Rightarrow> int" where
  \<comment> \<open>the argument is the raw random number that \<open>rand.Int\<close> reduces below its bound\<close>
  "nrand raw = raw mod 2 ^ 62"

definition MakeClerk :: "'e list \<Rightarrow> 'e Clerk" where
  "MakeClerk eps = \<lparr>servers = eps, prevLeader = 0\<rparr>"

text \<open>The loops, from attempt \<open>k\<close> on with server index \<open>i\<close>.\<close>

partial_function (option) Clerk_Get_loop ::
    "(nat \<Rightarrow> 'e \<Rightarrow> GetArgs \<Rightarrow> GetReply option) \<Rightarrow> string \<Rightarrow> int \<Rightarrow> 'e Clerk \<Rightarrow> nat \<Rightarrow> int
      \<Rightarrow> (go_panic + 'e Clerk \<times> string) option" where
  "Clerk_Get_loop call key ID ck k i =
     (case go_nth (servers ck) i of
        None \<Rightarrow> Some (Inl IndexOutOfRange)
      | Some server \<Rightarrow>
          let args = \<lparr>gaKey = key, gaID = ID\<rparr>
          in (case call k server args of
                None \<Rightarrow> Clerk_Get_loop call key ID ck (Suc k) ((i + 1) mod go_len (servers ck))
              | Some reply \<Rightarrow>
                  if grErr reply = OK then Some (Inr (ck\<lparr>prevLeader := i\<rparr>, grValue reply))
                  else if grErr reply = ErrNoKey then Some (Inr (ck\<lparr>prevLeader := i\<rparr>, []))
                  else Clerk_Get_loop call key ID ck (Suc k) ((i + 1) mod go_len (servers ck))))"

definition Clerk_Get ::
    "(nat \<Rightarrow> 'e \<Rightarrow> GetArgs \<Rightarrow> GetReply option) \<Rightarrow> int \<Rightarrow> string \<Rightarrow> 'e Clerk
      \<Rightarrow> (go_panic + 'e Clerk \<times> string) option" where
  "Clerk_Get call raw key ck = Clerk_Get_loop call key (nrand raw) ck 0 (prevLeader ck)"

partial_function (option) Clerk_PutAppend_loop ::
    "(nat \<Rightarrow> 'e \<Rightarrow> PutAppendArgs \<Rightarrow> PutAppendReply option) \<Rightarrow> string \<Rightarrow> string \<Rightarrow> string \<Rightarrow> int
      \<Rightarrow> 'e Clerk \<Rightarrow> nat \<Rightarrow> int \<Rightarrow> (go_panic + 'e Clerk) option" where
  "Clerk_PutAppend_loop call key value oper ID ck k i =
     (case go_nth (servers ck) i of
        None \<Rightarrow> Some (Inl IndexOutOfRange)
      | Some server \<Rightarrow>
          let args = \<lparr>paKey = key, paValue = value, paOp = oper, paID = ID\<rparr>
          in (case call k server args of
                None \<Rightarrow> Clerk_PutAppend_loop call key value oper ID ck (Suc k)
                          ((i + 1) mod go_len (servers ck))
              | Some reply \<Rightarrow>
                  if parErr reply = OK then Some (Inr (ck\<lparr>prevLeader := i\<rparr>))
                  else if parErr reply = ErrNoKey then Some (Inr ck)
                  else Clerk_PutAppend_loop call key value oper ID ck (Suc k)
                         ((i + 1) mod go_len (servers ck))))"

definition Clerk_PutAppend ::
    "(nat \<Rightarrow> 'e \<Rightarrow> PutAppendArgs \<Rightarrow> PutAppendReply option) \<Rightarrow> int \<Rightarrow> string \<Rightarrow> string \<Rightarrow> string
      \<Rightarrow> 'e Clerk \<Rightarrow> (go_panic + 'e Clerk) option" where
  "Clerk_PutAppend call raw key value oper ck =
     Clerk_PutAppend_loop call key value oper (nrand raw) ck 0 (prevLeader ck)"

definition Clerk_Put ::
    "(nat \<Rightarrow> 'e \<Rightarrow> PutAppendArgs \<Rightarrow> PutAppendReply option) \<Rightarrow> int \<Rightarrow> string \<Rightarrow> string
      \<Rightarrow> 'e Clerk \<Rightarrow> (go_panic + 'e Clerk) option" where
  "Clerk_Put call raw key value ck = Clerk_PutAppend call raw key value ''Put'' ck"

definition Clerk_Append ::
    "(nat \<Rightarrow> 'e \<Rightarrow> PutAppendArgs \<Rightarrow> PutAppendReply option) \<Rightarrow> int \<Rightarrow> string \<Rightarrow> string
      \<Rightarrow> 'e Clerk \<Rightarrow> (go_panic + 'e Clerk) option" where
  "Clerk_Append call raw key value ck = Clerk_PutAppend call raw key value ''Append'' ck"

declare Clerk_Get_loop.simps [code] Clerk_PutAppend_loop.simps [code]

section \<open>The loops keep the contract\<close>

text \<open>What one attempt yields: a final answer or, as \<open>None\<close>, a reason to go on.\<close>

definition get_attempt ::
    "(nat \<Rightarrow> 'e \<Rightarrow> GetArgs \<Rightarrow> GetReply option) \<Rightarrow> GetArgs \<Rightarrow> 'e Clerk \<Rightarrow> nat \<Rightarrow> int
      \<Rightarrow> (go_panic + 'e Clerk \<times> string) option" where
  "get_attempt call args ck k i =
     (case call k (servers ck ! nat i) args of
        None \<Rightarrow> None
      | Some reply \<Rightarrow>
          if grErr reply = OK then Some (Inr (ck\<lparr>prevLeader := i\<rparr>, grValue reply))
          else if grErr reply = ErrNoKey then Some (Inr (ck\<lparr>prevLeader := i\<rparr>, []))
          else None)"

definition put_attempt ::
    "(nat \<Rightarrow> 'e \<Rightarrow> PutAppendArgs \<Rightarrow> PutAppendReply option) \<Rightarrow> PutAppendArgs \<Rightarrow> 'e Clerk
      \<Rightarrow> nat \<Rightarrow> int \<Rightarrow> (go_panic + 'e Clerk) option" where
  "put_attempt call args ck k i =
     (case call k (servers ck ! nat i) args of
        None \<Rightarrow> None
      | Some reply \<Rightarrow>
          if parErr reply = OK then Some (Inr (ck\<lparr>prevLeader := i\<rparr>))
          else if parErr reply = ErrNoKey then Some (Inr ck)
          else None)"

interpretation get_loop: round_robin "length (servers ck)"
  "get_attempt call \<lparr>gaKey = key, gaID = ID\<rparr> ck" "Clerk_Get_loop call key ID ck"
  by unfold_locales
     (subst Clerk_Get_loop.simps,
      auto simp: get_attempt_def go_simps Let_def split: option.splits if_splits)+

interpretation put_loop: round_robin "length (servers ck)"
  "put_attempt call \<lparr>paKey = key, paValue = value, paOp = oper, paID = ID\<rparr> ck"
  "Clerk_PutAppend_loop call key value oper ID ck"
  by unfold_locales
     (subst Clerk_PutAppend_loop.simps,
      auto simp: put_attempt_def go_simps Let_def split: option.splits if_splits)+

section \<open>Properties\<close>

text \<open>Property C22: a \<open>Get\<close> of the clerk returns when some server answers it for good from some attempt on,
  however the other servers and the network behave before and meanwhile: it sends at most one
  more round of requests after that attempt, and returns the value of an answer a server gave
  to this request, an empty string for a missing key. The server that answered is the next
  one to be tried first. Attempt \<open>j\<close> goes to the server \<open>j\<close> places after the remembered one.\<close>

theorem Clerk_Get_returns:
  assumes "0 \<le> prevLeader ck" "prevLeader ck < go_len (servers ck)"
    and s: "s < length (servers ck)"
    and live: "\<And>k. start \<le> k \<Longrightarrow> \<exists>reply. call k (servers ck ! s) \<lparr>gaKey = key, gaID = nrand raw\<rparr> = Some reply \<and>
                 grErr reply \<in> {OK, ErrNoKey}"
  shows "\<exists>j i reply. j < start + length (servers ck) \<and>
    i = (prevLeader ck + int j) mod go_len (servers ck) \<and>
    call j (servers ck ! nat i) \<lparr>gaKey = key, gaID = nrand raw\<rparr> = Some reply \<and>
    grErr reply \<in> {OK, ErrNoKey} \<and>
    Clerk_Get call raw key ck =
      Some (Inr (ck\<lparr>prevLeader := i\<rparr>, if grErr reply = OK then grValue reply else []))"
proof -
  have "get_attempt call \<lparr>gaKey = key, gaID = nrand raw\<rparr> ck k (int s) \<noteq> None" if "start \<le> k" for k
    using live [OF that] by (auto simp: get_attempt_def)
  from get_loop.returns [where start = start, OF _ _ assms(1,2) this] s
  obtain j r where j: "j < start + length (servers ck)"
    "get_attempt call \<lparr>gaKey = key, gaID = nrand raw\<rparr> ck j
       ((prevLeader ck + int j) mod go_len (servers ck)) = Some r"
    "Clerk_Get call raw key ck = Some r" by (auto simp: Clerk_Get_def)
  then show ?thesis
    by (intro exI [of _ j] exI [of _ "(prevLeader ck + int j) mod go_len (servers ck)"])
       (auto simp: get_attempt_def split: option.splits if_splits)
qed

text \<open>Two servers: the first is unreachable twice and then no leader, the second is down at first.\<close>

definition two_servers :: "nat \<Rightarrow> nat \<Rightarrow> GetArgs \<Rightarrow> GetReply option" where
  "two_servers k s args =
     (if s = 0 then (if k < 2 then None else Some \<lparr>grErr = ErrWrongLeader, grValue = []\<rparr>)
      else if k < 3 then None else Some \<lparr>grErr = OK, grValue = ''v''\<rparr>)"

theorem Clerk_Get_returns_witness:
  "Clerk_Get two_servers 7 ''x'' (MakeClerk [0, 1]) = Some (Inr (\<lparr>servers = [0, 1], prevLeader = 1\<rparr>, ''v''))"
proof -
  let ?ck = "MakeClerk [0, 1 :: nat]"
  have "\<exists>j i reply. j < 3 + length (servers ?ck) \<and>
    i = (prevLeader ?ck + int j) mod go_len (servers ?ck) \<and>
    two_servers j (servers ?ck ! nat i) \<lparr>gaKey = ''x'', gaID = nrand 7\<rparr> = Some reply \<and>
    grErr reply \<in> {OK, ErrNoKey} \<and>
    Clerk_Get two_servers 7 ''x'' ?ck =
      Some (Inr (?ck\<lparr>prevLeader := i\<rparr>, if grErr reply = OK then grValue reply else []))"
    by (rule Clerk_Get_returns [where s = 1]) (simp_all add: MakeClerk_def two_servers_def)
  then obtain j i reply where
    "two_servers j (servers ?ck ! nat i) \<lparr>gaKey = ''x'', gaID = nrand 7\<rparr> = Some reply"
    "i = int j mod 2" "grErr reply \<in> {OK, ErrNoKey}"
    "Clerk_Get two_servers 7 ''x'' ?ck =
      Some (Inr (?ck\<lparr>prevLeader := i\<rparr>, if grErr reply = OK then grValue reply else []))"
    by (auto simp: MakeClerk_def)
  then show ?thesis
    by (cases "i = 0") (auto simp: MakeClerk_def two_servers_def split: if_splits)
qed

text \<open>A \<open>Put\<close> or an \<open>Append\<close> of the clerk returns under the same condition, after an answer
  of a server to a request with the operation's own identifier. The clerk remembers the server
  only when the answer was \<open>OK\<close>.\<close>

theorem Clerk_PutAppend_returns:
  assumes "0 \<le> prevLeader ck" "prevLeader ck < go_len (servers ck)"
    and s: "s < length (servers ck)"
    and args: "args = \<lparr>paKey = key, paValue = value, paOp = oper, paID = nrand raw\<rparr>"
    and live: "\<And>k. start \<le> k \<Longrightarrow> \<exists>reply. call k (servers ck ! s) args = Some reply \<and>
                 parErr reply \<in> {OK, ErrNoKey}"
  shows "\<exists>j i reply. j < start + length (servers ck) \<and>
    i = (prevLeader ck + int j) mod go_len (servers ck) \<and>
    call j (servers ck ! nat i) args = Some reply \<and> parErr reply \<in> {OK, ErrNoKey} \<and>
    Clerk_PutAppend call raw key value oper ck =
      Some (Inr (if parErr reply = OK then ck\<lparr>prevLeader := i\<rparr> else ck))"
proof -
  have "put_attempt call args ck k (int s) \<noteq> None" if "start \<le> k" for k
    using live [OF that] by (auto simp: put_attempt_def)
  from put_loop.returns [where start = start, OF _ _ assms(1,2) this [unfolded args]] s
  obtain j r where j: "j < start + length (servers ck)"
    "put_attempt call args ck j ((prevLeader ck + int j) mod go_len (servers ck)) = Some r"
    "Clerk_PutAppend call raw key value oper ck = Some r" by (auto simp: Clerk_PutAppend_def args)
  then show ?thesis
    by (intro exI [of _ j] exI [of _ "(prevLeader ck + int j) mod go_len (servers ck)"])
       (auto simp: put_attempt_def split: option.splits if_splits)
qed

theorem Clerk_PutAppend_returns_witness:
  "Clerk_Append (\<lambda>k s args. if s = (1 :: nat) \<and> 2 \<le> k then Some \<lparr>parErr = OK\<rparr> else None)
     7 ''x'' ''v'' (MakeClerk [0, 1]) = Some (Inr \<lparr>servers = [0, 1], prevLeader = 1\<rparr>)"
proof -
  let ?ck = "MakeClerk [0, 1 :: nat]"
  let ?call = "\<lambda>k s args. if s = (1 :: nat) \<and> (2 :: nat) \<le> k then Some \<lparr>parErr = OK\<rparr> else None"
  let ?args = "\<lparr>paKey = ''x'', paValue = ''v'', paOp = ''Append'', paID = nrand 7\<rparr>"
  have "\<exists>j i reply. j < 2 + length (servers ?ck) \<and>
    i = (prevLeader ?ck + int j) mod go_len (servers ?ck) \<and>
    ?call j (servers ?ck ! nat i) ?args = Some reply \<and> parErr reply \<in> {OK, ErrNoKey} \<and>
    Clerk_PutAppend ?call 7 ''x'' ''v'' ''Append'' ?ck =
      Some (Inr (if parErr reply = OK then ?ck\<lparr>prevLeader := i\<rparr> else ?ck))"
    by (rule Clerk_PutAppend_returns [where s = 1 and start = 2]) (simp_all add: MakeClerk_def)
  then obtain j i reply where
    "?call j (servers ?ck ! nat i) ?args = Some reply" "i = int j mod 2"
    "Clerk_PutAppend ?call 7 ''x'' ''v'' ''Append'' ?ck =
      Some (Inr (if parErr reply = OK then ?ck\<lparr>prevLeader := i\<rparr> else ?ck))"
    by (auto simp: MakeClerk_def)
  then show ?thesis
    by (cases "i = 0") (auto simp: MakeClerk_def Clerk_Append_def split: if_splits)
qed

end
