(* ===== verification/KVReplicas.thy ===== *)
theory KVReplicas
  imports RaftAlias KVServer
begin

text \<open>
  The replicated key/value service: a cluster of Raft peers with the key/value server above each of
  them. The servers' requests enter Raft through \<open>Start\<close>; what a peer delivers is executed by its
  server's \<open>readApplyChRoutine\<close>; a restarted server begins with empty tables and a Raft peer made from
  the persister. The peers are those of \<open>RaftAlias\<close>, with a condition \<open>allowed\<close> on the actions that happen; the
  field \<open>rf\<close> of a server in the list stands for nothing; the server at peer \<open>i\<close> is \<open>serverAt\<close>.
\<close>

section \<open>The system\<close>

type_synonym service = "Op raft_mem \<times> KVServer list"

definition serverAt :: "service \<Rightarrow> nat \<Rightarrow> KVServer" where
  "serverAt sk i = (snd sk ! i)\<lparr>rf := nodes (cl (fst sk)) ! i\<rparr>"

inductive raction :: "(Op raft_mem \<Rightarrow> Op mem_action \<Rightarrow> bool) \<Rightarrow> Op mem_action \<Rightarrow> service \<Rightarrow> service \<Rightarrow> bool"
  for allowed where
  r_peer: "allowed s x \<Longrightarrow> mexec x s = Some t \<Longrightarrow> (\<And>i k. x \<noteq> Act (Apply i) k) \<Longrightarrow> (\<And>i c k. x \<noteq> Act (Restart i c) k) \<Longrightarrow>
    raction allowed x (s, kvs) (t, kvs)"
| r_apply: "allowed s (Act (Apply i) k) \<Longrightarrow> mexec (Act (Apply i) k) s = Some t \<Longrightarrow>
    applyNext (nodes (cl s) ! i) = Some (Some (r, m)) \<Longrightarrow>
    readApplyChRoutine m (kvs ! i) = Some kv' \<Longrightarrow> raction allowed (Act (Apply i) k) (s, kvs) (t, kvs[i := kv'])"
| r_restart: "allowed s (Act (Restart i c) k) \<Longrightarrow> mexec (Act (Restart i c) k) s = Some t \<Longrightarrow>
    raction allowed (Act (Restart i c) k) (s, kvs) (t, kvs[i := StartKVServer c (length (nodes (cl s))) (int i)
       (Persister_Copy (persister (nodes (cl s) ! i))) (maxraftstate (kvs ! i))])"

definition rstep :: "(Op raft_mem \<Rightarrow> Op mem_action \<Rightarrow> bool) \<Rightarrow> service \<Rightarrow> service \<Rightarrow> bool" where
  "rstep allowed sk tk \<longleftrightarrow> (\<exists>x. raction allowed x sk tk)"

definition rstart :: "service \<Rightarrow> bool" where
  "rstart sk \<longleftrightarrow> initial_mem (fst sk) \<and> length (snd sk) = length (nodes (cl (fst sk))) \<and>
     (\<forall>kv \<in> set (snd sk). db kv = Map.empty \<and> execRecord kv = Map.empty)"

section \<open>What a server has executed\<close>

definition all_recorded :: "nat \<Rightarrow> Op ghost \<Rightarrow> Op list \<Rightarrow> bool" where
  "all_recorded n G ops \<longleftrightarrow> (\<forall>k < length ops. recorded n G (int k + 1) (Some (ops ! k)))"

text \<open>The operations that peer \<open>r\<close> has delivered since it was started, which its server has executed.\<close>

definition executed_ops :: "nat \<Rightarrow> Op ghost \<Rightarrow> Op Raft \<Rightarrow> KVServer \<Rightarrow> Op list \<Rightarrow> bool" where
  "executed_ops n G r kv ops \<longleftrightarrow> go_len ops = lastApplied r \<and> kv_at kv ops \<and> all_recorded n G ops"

text \<open>
  The invariant; \<open>B\<close> has sequences of operations that were executed at earlier moments, \<open>X\<close> has the
  operations that were submitted.
\<close>

definition rinv :: "Op set \<Rightarrow> Op list set \<Rightarrow> service \<Rightarrow> bool" where
  "rinv X B sk \<longleftrightarrow> (case sk of (s, kvs) \<Rightarrow> length kvs = length (nodes (cl s)) \<and> cmd_inv X (cl s) \<and>
     (\<exists>H C G. vinv (nodes (cl s)) (net (cl s)) H C \<and> linv (nodes (cl s)) (net (cl s)) H G \<and> (\<forall>ops \<in> B. all_recorded (length (nodes (cl s))) G ops) \<and>
        (\<forall>i < length (nodes (cl s)). \<exists>ops. executed_ops (length (nodes (cl s))) G (nodes (cl s) ! i) (kvs ! i) ops \<and> set ops \<subseteq> X)))"

lemma rinvI:
  assumes "vinv (nodes (cl s)) (net (cl s)) H C" and "linv (nodes (cl s)) (net (cl s)) H G" and "length kvs = length (nodes (cl s))" and "cmd_inv X (cl s)"
    and "\<forall>ops \<in> B. all_recorded (length (nodes (cl s))) G ops"
    and "\<forall>i < length (nodes (cl s)). \<exists>ops. executed_ops (length (nodes (cl s))) G (nodes (cl s) ! i) (kvs ! i) ops \<and> set ops \<subseteq> X"
  shows "rinv X B (s, kvs)"
  using assms unfolding rinv_def by blast

lemma all_recorded_grow: "ginv n H G \<Longrightarrow> grow q G G' \<Longrightarrow> all_recorded n G ops \<Longrightarrow> all_recorded n G' ops"
  unfolding all_recorded_def by (blast intro: recorded_grow)

lemma kv_at_start: "kv_at (StartKVServer c n i ps ms) []"
  by (simp add: kv_at_def StartKVServer_def)

lemma kv_at_apply: "kv_at kv ops \<Longrightarrow> kv_at (applyOp op kv) (ops @ [op])"
  using applyOp_independent [of kv "fold applyOp ops empty_kv" op] by (simp add: kv_at_iff)

lemma all_recorded_snoc:
  "all_recorded n G ops \<Longrightarrow> recorded n G (go_len ops + 1) (Some op) \<Longrightarrow> all_recorded n G (ops @ [op])"
  by (auto simp: all_recorded_def nth_append less_Suc_eq)

lemma all_recorded_prefix:
  assumes G: "ginv n H G" and V: "\<And>i u. i < n \<Longrightarrow> VL G i u \<noteq> [] \<Longrightarrow> voted_ok G i u"
    and a: "all_recorded n G ops" and b: "all_recorded n G ops'"
  shows "ops = take (length ops) ops' \<or> ops' = take (length ops') ops"
proof -
  have eq: "ops ! k = ops' ! k" if "k < length ops" "k < length ops'" for k
  proof -
    have "recorded n G (int k + 1) (Some (ops ! k))" "recorded n G (int k + 1) (Some (ops' ! k))"
      using a b that by (simp_all add: all_recorded_def)
    then show ?thesis using recorded_unique [OF G V] by blast
  qed
  show ?thesis
  proof (cases "length ops \<le> length ops'")
    case True
    then have "ops = take (length ops) ops'" by (intro nth_equalityI) (auto simp: eq)
    then show ?thesis ..
  next
    case False
    then have "ops' = take (length ops') ops" by (intro nth_equalityI) (auto simp: eq)
    then show ?thesis ..
  qed
qed

text \<open>Raft's part of a step is the same for all actions; what is left are the operations the servers have executed.\<close>

lemma rinv_exec:
  assumes inv: "rinv X B (s, kvs)" and fr: "fresh_replies (cl s) a" and ex: "exec a (cl s) = Some (cl t)"
    and new: "\<And>i op. a = Client i op \<Longrightarrow> op \<in> X" and kvs': "length kvs' = length kvs"
    and keep: "\<And>H C G j. vinv (nodes (cl s)) (net (cl s)) H C \<Longrightarrow> linv (nodes (cl s)) (net (cl s)) H G \<Longrightarrow> cmd_inv X (cl s) \<Longrightarrow>
      length kvs = length (nodes (cl s)) \<Longrightarrow>
      (\<And>i. i < length (nodes (cl s)) \<Longrightarrow> \<exists>ops. executed_ops (length (nodes (cl s))) G (nodes (cl s) ! i) (kvs ! i) ops \<and> set ops \<subseteq> X) \<Longrightarrow>
      j < length (nodes (cl s)) \<Longrightarrow> \<exists>ops. executed_ops (length (nodes (cl s))) G (nodes (cl t) ! j) (kvs' ! j) ops \<and> set ops \<subseteq> X"
  shows "rinv X B (t, kvs')"
proof -
  let ?n = "length (nodes (cl s))"
  obtain H C G where i: "vinv (nodes (cl s)) (net (cl s)) H C" "linv (nodes (cl s)) (net (cl s)) H G" "\<forall>ops \<in> B. all_recorded ?n G ops"
    "\<forall>i < ?n. \<exists>ops. executed_ops ?n G (nodes (cl s) ! i) (kvs ! i) ops \<and> set ops \<subseteq> X" "length kvs = ?n" "cmd_inv X (cl s)"
    using inv by (auto simp: rinv_def)
  obtain C' where v: "vinv (nodes (cl t)) (net (cl t)) (later_history a (cl t) H) C'"
    using exec_vinv [OF i(1) fresh_replies_votes [OF fr] ex] by blast
  obtain G' q where g: "grow q G G'" "linv (nodes (cl t)) (net (cl t)) (later_history a (cl t) H) G'"
    using exec_linv [OF i(1,2) fr ex] by (auto simp: evolves_def)
  have rec: "all_recorded ?n G ops \<Longrightarrow> all_recorded ?n G' ops" for ops
    using all_recorded_grow [OF _ g(1)] i(2) unfolding linv_def by blast
  have "\<exists>ops. executed_ops ?n G' (nodes (cl t) ! j) (kvs' ! j) ops \<and> set ops \<subseteq> X" if "j < ?n" for j
    using keep [OF i(1,2,6,5) _ that] i(4) rec unfolding executed_ops_def by metis
  moreover have "cmd_inv X (cl t)" by (rule exec_cmd_inv [OF vinv_nodes_ok [OF i(1)] i(6) ex]) (rule new)
  moreover have "\<forall>ops \<in> B. all_recorded ?n G' ops" using i(3) rec by blast
  ultimately show ?thesis using i(5) kvs' exec_length [OF ex] by (intro rinvI [OF v g(2)]) simp_all
qed

lemma executed_apply:
  assumes inv: "vinv (nodes (cl s)) (net (cl s)) H C" "linv (nodes (cl s)) (net (cl s)) H G" "cmd_inv X (cl s)" and i: "i < length (nodes (cl s))"
    and ap: "applyNext (nodes (cl s) ! i) = Some (Some (r, m))" and read: "readApplyChRoutine m kv = Some kv'"
    and ops: "executed_ops (length (nodes (cl s))) G (nodes (cl s) ! i) kv ops" "set ops \<subseteq> X"
  shows "\<exists>ops. executed_ops (length (nodes (cl s))) G r kv' ops \<and> set ops \<subseteq> X"
proof -
  let ?n = "length (nodes (cl s))"
  have "justified ?n G (currentTerm (nodes (cl s) ! i)) (nat (commitIndex (nodes (cl s) ! i))) (log (nodes (cl s) ! i))"
    using inv(2) i by (auto simp: linv_def ninv_def)
  moreover have "0 \<le> lastApplied (nodes (cl s) ! i)" using inv(1) i by (auto simp: vinv_def node_ok_def node_inv_def)
  moreover from this have "Command m \<in> Some ` X" by (intro delivered_command [OF inv(3) i ap])
  ultimately have m: "recorded ?n G (CommandIndex m) (Command m)" "CommandIndex m = lastApplied (nodes (cl s) ! i) + 1"
    "lastApplied r = lastApplied (nodes (cl s) ! i) + 1" "Command m \<in> Some ` X"
    using applied_recorded [OF _ _ ap] by blast+
  obtain op where op: "Command m = Some op" "kv' = applyOp op kv" using read by (auto simp: readApplyChRoutine_def)
  have "all_recorded ?n G (ops @ [op])"
    by (rule all_recorded_snoc) (use ops m op(1) in \<open>simp_all add: executed_ops_def\<close>)
  then have "executed_ops ?n G r kv' (ops @ [op])" "set (ops @ [op]) \<subseteq> X"
    using ops m(3,4) op kv_at_apply by (auto simp: executed_ops_def)
  then show ?thesis by blast
qed

lemma raction_rinv:
  assumes "raction timely x sk tk" and "rinv X B sk" and "\<And>i op k. x = Act (Client i op) k \<Longrightarrow> op \<in> X"
  shows "rinv X B tk"
  using assms
proof (induction rule: raction.induct)
  case (r_peer s x t kvs)
  show ?case
  proof (cases x)
    case (Act a k)
    then have tm: "timely s (Act a k)" "mexec (Act a k) s = Some t" using r_peer.hyps by simp_all
    have na: "\<And>i. a \<noteq> Apply i" "\<And>i c. a \<noteq> Restart i c" using r_peer.hyps(3,4) Act by blast+
    have "lastApplied (nodes (cl t) ! i) = lastApplied (nodes (cl s) ! i)" if "i < length (nodes (cl s))" for i
      using exec_lastApplied_eq [OF mexec_timely(2) [OF tm] na(1) that] na(2) by (cases a) auto
    then have "executed_ops n G (nodes (cl t) ! i) kv ops \<longleftrightarrow> executed_ops n G (nodes (cl s) ! i) kv ops"
      if "i < length (nodes (cl s))" for n G i kv ops using that by (simp add: executed_ops_def)
    note same = this
    show ?thesis
    proof (rule rinv_exec [OF r_peer.prems(1) mexec_timely [OF tm] _ refl])
      show "op \<in> X" if "a = Client i op" for i op using r_peer.prems(2) Act that by blast
      fix H C G j
      assume j: "j < length (nodes (cl s))" and "\<And>i. i < length (nodes (cl s)) \<Longrightarrow>
          \<exists>ops. executed_ops (length (nodes (cl s))) G (nodes (cl s) ! i) (kvs ! i) ops \<and> set ops \<subseteq> X"
      then show "\<exists>ops. executed_ops (length (nodes (cl s))) G (nodes (cl t) ! j) (kvs ! j) ops \<and> set ops \<subseteq> X"
        using same [OF j] by blast
    qed
  next
    case (EncodeArgs m)
    then have "mexec (EncodeArgs m) s = Some t" using r_peer.hyps(2) by simp
    from mexec_encode [OF this] show ?thesis using r_peer.prems(1) by (simp add: rinv_def)
  qed
next
  case (r_apply s i k t r m kvs kv')
  note tm = mexec_timely [OF r_apply.hyps(1,2)]
  have i: "i < length (nodes (cl s))" and t: "nodes (cl t) = (nodes (cl s))[i := r]"
    using tm(2) [symmetric] r_apply.hyps(3) by (auto split: if_splits option.splits)
  show ?case
  proof (rule rinv_exec [OF r_apply.prems(1) tm])
    fix H C G j
    assume inv: "vinv (nodes (cl s)) (net (cl s)) H C" "linv (nodes (cl s)) (net (cl s)) H G" "cmd_inv X (cl s)"
      and len: "length kvs = length (nodes (cl s))" and j: "j < length (nodes (cl s))"
      and old: "\<And>i. i < length (nodes (cl s)) \<Longrightarrow>
        \<exists>ops. executed_ops (length (nodes (cl s))) G (nodes (cl s) ! i) (kvs ! i) ops \<and> set ops \<subseteq> X"
    show "\<exists>ops. executed_ops (length (nodes (cl s))) G (nodes (cl t) ! j) (kvs[i := kv'] ! j) ops \<and> set ops \<subseteq> X"
      using old [OF i] old [OF j] executed_apply [OF inv i r_apply.hyps(3,4)] i len by (cases "j = i") (auto simp: t)
  qed simp_all
next
  case (r_restart s i c k t kvs)
  let ?kv = "StartKVServer c (length (nodes (cl s))) (int i) (Persister_Copy (persister (nodes (cl s) ! i))) (maxraftstate (kvs ! i))"
  note tm = mexec_timely [OF r_restart.hyps]
  have i: "i < length (nodes (cl s))" using tm(2) by (auto split: if_splits)
  have la: "lastApplied (nodes (cl t) ! j) = (if j = i then 0 else lastApplied (nodes (cl s) ! j))"
    if "j < length (nodes (cl s))" for j using exec_lastApplied_eq [OF tm(2) _ that] by simp
  then have new: "executed_ops n G (nodes (cl t) ! i) ?kv []" for n G
    using i kv_at_start by (simp add: executed_ops_def all_recorded_def)
  show ?case
  proof (rule rinv_exec [OF r_restart.prems(1) tm])
    fix H C G j
    assume len: "length kvs = length (nodes (cl s))" and j: "j < length (nodes (cl s))"
      and old: "\<And>i. i < length (nodes (cl s)) \<Longrightarrow>
        \<exists>ops. executed_ops (length (nodes (cl s))) G (nodes (cl s) ! i) (kvs ! i) ops \<and> set ops \<subseteq> X"
    show "\<exists>ops. executed_ops (length (nodes (cl s))) G (nodes (cl t) ! j) (kvs[i := ?kv] ! j) ops \<and> set ops \<subseteq> X"
    proof (cases "j = i")
      case True
      then show ?thesis using new i len by (intro exI [of _ "[]"]) simp
    next
      case False
      then show ?thesis using old [OF j] la [OF j] by (simp add: executed_ops_def)
    qed
  qed simp_all
qed

lemma rstart_rinv:
  assumes "rstart sk"
  shows "rinv X {} sk"
proof -
  obtain s kvs where sk: "sk = (s, kvs)" by (cases sk)
  have st: "initial (cl s)" "length kvs = length (nodes (cl s))" "\<forall>kv \<in> set kvs. db kv = Map.empty \<and> execRecord kv = Map.empty"
    using assms by (simp_all add: sk rstart_def initial_mem_def)
  obtain H C G where "vinv (nodes (cl s)) (net (cl s)) H C" "linv (nodes (cl s)) (net (cl s)) H G"
    using initial_log_inv [OF st(1)] by (auto simp: log_inv_def)
  moreover have "executed_ops (length (nodes (cl s))) G (nodes (cl s) ! i) (kvs ! i) []" if "i < length (nodes (cl s))" for i
  proof -
    have "lastApplied (nodes (cl s) ! i) = 0"
      using st(1) that by (auto simp: initial_def init_cluster_def Make_def Let_def readPersist_def
          resetElectionTimer_def persister_defs)
    moreover have "kv_at (kvs ! i) []" using st(2,3) that by (simp add: kv_at_def)
    ultimately show ?thesis by (simp add: executed_ops_def all_recorded_def)
  qed
  then have "\<forall>i < length (nodes (cl s)). \<exists>ops. executed_ops (length (nodes (cl s))) G (nodes (cl s) ! i) (kvs ! i) ops \<and> set ops \<subseteq> X"
    by (metis empty_iff empty_set subsetI)
  ultimately show ?thesis using st(2) initial_cmd_inv [OF st(1)] by (auto simp: sk rinv_def all_recorded_def)
qed

lemma rstep_rinv: "rstep timely sk tk \<Longrightarrow> rinv UNIV B sk \<Longrightarrow> rinv UNIV B tk"
  by (auto simp: rstep_def intro: raction_rinv)

interpretation replicas: inductive_invariant rstart "rstep timely" "rinv UNIV {}"
  by unfold_locales (auto intro: rstart_rinv rstep_rinv)

lemma rsteps_rinv:
  assumes "(rstep timely)\<^sup>*\<^sup>* sk tk" and "rinv UNIV B sk"
  shows "rinv UNIV B tk"
  using assms by (induction rule: rtranclp_induct) (auto intro: rstep_rinv)

lemma rsteps_length: "(rstep timely)\<^sup>*\<^sup>* sk tk \<Longrightarrow> length (snd tk) = length (snd sk)"
  by (induction rule: rtranclp_induct) (auto simp: rstep_def elim: raction.cases)

lemma kv_at_records:
  assumes "kv_at kv ops" and "kv_at kv' ops'" and "execRecord kv x = Some r" and "execRecord kv' x = Some r'"
    and "ops = take (length ops) ops' \<or> ops' = take (length ops') ops"
  shows "r = r'"
proof -
  have rec: "execRecord (fold applyOp ops empty_kv) x = Some r" "execRecord (fold applyOp ops' empty_kv) x = Some r'"
    using assms(1-4) by (simp_all add: kv_at_iff)
  have ext: "execRecord (fold applyOp l' empty_kv) x = Some q"
    if "execRecord (fold applyOp l empty_kv) x = Some q" "l = take (length l) l'" for l l' q
  proof -
    have "l' = l @ drop (length l) l'" using that(2) by (metis append_take_drop_id)
    then show ?thesis using kv.seen_stable [OF that(1), of "drop (length l) l'"] by (metis fold_append comp_apply)
  qed
  show ?thesis using assms(5) ext [OF rec(1)] ext [OF rec(2)] rec by fastforce
qed

section \<open>Properties\<close>

text \<open>Property C4: two key/value servers, looked at at any two moments of an execution with crashes, restarts,
  lost and delayed messages and changes of leader, in which replies are handled in their term and requests are
  encoded before their sender overwrites the entries they share, have executed sequences of operations of which one is
  a prefix of the other; so when both know the result of a request, it is the same result.\<close>

theorem replicas_agree:
  assumes "rstart sk0" and "(rstep timely)\<^sup>*\<^sup>* sk0 sk" and "(rstep timely)\<^sup>*\<^sup>* sk tk"
    and "i < length (snd sk)" and "j < length (snd sk)"
  shows "(\<exists>ops ops'. kv_at (serverAt sk i) ops \<and> kv_at (serverAt tk j) ops' \<and>
      go_len ops = lastApplied (rf (serverAt sk i)) \<and> go_len ops' = lastApplied (rf (serverAt tk j)) \<and>
      (ops = take (length ops) ops' \<or> ops' = take (length ops') ops)) \<and>
    (\<forall>x r r'. execRecord (serverAt sk i) x = Some r \<longrightarrow> execRecord (serverAt tk j) x = Some r' \<longrightarrow> r = r')"
proof -
  obtain s kvs t kvs' where sk: "sk = (s, kvs)" "tk = (t, kvs')" by (cases sk, cases tk)
  let ?n = "length (nodes (cl s))"
  have "rinv UNIV {} sk" by (rule replicas.reachable_inv [OF assms(1,2)])
  then obtain H C G where a: "vinv (nodes (cl s)) (net (cl s)) H C" "linv (nodes (cl s)) (net (cl s)) H G" "length kvs = ?n"
    "\<forall>i < ?n. \<exists>ops. executed_ops ?n G (nodes (cl s) ! i) (kvs ! i) ops" "cmd_inv UNIV (cl s)" by (auto simp: sk rinv_def)
  then obtain ops where ops: "executed_ops ?n G (nodes (cl s) ! i) (kvs ! i) ops" using assms(4) by (auto simp: sk)
  then have "rinv UNIV {ops} sk" using a unfolding sk rinv_def executed_ops_def by auto
  from rsteps_rinv [OF assms(3) this] obtain H' C' G' where
    b: "linv (nodes (cl t)) (net (cl t)) H' G'" "length kvs' = length (nodes (cl t))" "all_recorded (length (nodes (cl t))) G' ops"
      "\<forall>i < length (nodes (cl t)). \<exists>ops. executed_ops (length (nodes (cl t))) G' (nodes (cl t) ! i) (kvs' ! i) ops"
    by (auto simp: sk rinv_def)
  have n: "length kvs' = length kvs" using assms(3) rsteps_length by (fastforce simp: sk)
  then obtain ops' where ops': "executed_ops (length (nodes (cl t))) G' (nodes (cl t) ! j) (kvs' ! j) ops'"
    using b(2,4) assms(5) by (auto simp: sk)
  have G: "ginv (length (nodes (cl t))) H' G'" using b(1) by (simp add: linv_def)
  have pre: "ops = take (length ops) ops' \<or> ops' = take (length ops') ops"
    using all_recorded_prefix [OF G log_inv_voted [OF b(1)] b(3)] ops' by (simp add: executed_ops_def)
  have at: "kv_at (kvs ! i) ops" "kv_at (kvs' ! j) ops'" using ops ops' by (simp_all add: executed_ops_def)
  have "r = r'" if "execRecord (kvs ! i) x = Some r" "execRecord (kvs' ! j) x = Some r'" for x r r'
    using kv_at_records [OF at that] pre by blast
  moreover have "kv_at (serverAt sk i) ops" "kv_at (serverAt tk j) ops'"
    using at by (simp_all add: serverAt_def sk kv_at_iff)
  ultimately show ?thesis using pre ops ops' by (auto simp: serverAt_def sk executed_ops_def)
qed

text \<open>A run: an append is committed by server 0 with server 1, executed by server 0, and then by server 1.\<close>

fun rexec :: "Op mem_action \<Rightarrow> service \<Rightarrow> service option" where
  "rexec (Act (Apply i) k) (s, kvs) =
     (case (applyNext (nodes (cl s) ! i), mexec (Act (Apply i) k) s) of
        (Some (Some (r, m)), Some t) \<Rightarrow> map_option (\<lambda>kv. (t, kvs[i := kv])) (readApplyChRoutine m (kvs ! i))
      | _ \<Rightarrow> None)"
| "rexec (Act (Restart i c) k) (s, kvs) = None"
| "rexec x (s, kvs) = map_option (\<lambda>t. (t, kvs)) (mexec x s)"

fun rexecs :: "Op mem_action list \<Rightarrow> service \<Rightarrow> service option" where
  "rexecs [] sk = Some sk"
| "rexecs (x # xs) sk =
     (if timely (fst sk) x then (case rexec x sk of None \<Rightarrow> None | Some tk \<Rightarrow> rexecs xs tk) else None)"

lemma rexec_raction: "allowed (fst sk) x \<Longrightarrow> rexec x sk = Some tk \<Longrightarrow> raction allowed x sk tk"
proof (induction x sk rule: rexec.induct)
  case (1 i k s kvs)
  then show ?case by (auto split: option.splits intro: r_apply simp del: mexec.simps)
qed (auto simp del: mexec.simps elim!: r_peer [rotated])

lemma rexecs_rsteps:
  assumes "rexecs xs sk = Some tk" and "\<And>s x. timely s x \<Longrightarrow> allowed s x"
  shows "(rstep allowed)\<^sup>*\<^sup>* sk tk"
  using assms(1)
proof (induction xs arbitrary: sk)
  case (Cons x xs)
  then obtain uk where "timely (fst sk) x" "rexec x sk = Some uk" "rexecs xs uk = Some tk"
    by (auto split: if_splits option.splits)
  then show ?case using rexec_raction assms(2) Cons.IH by (metis rstep_def converse_rtranclp_into_rtranclp)
qed simp

definition op1 :: Op where
  "op1 = append_op ''x'' ''a'' 7"

definition kv_append :: "int \<Rightarrow> int \<Rightarrow> Op LogEntry list \<Rightarrow> int \<Rightarrow> Op AppendEntriesArgs" where
  "kv_append prev pt es ci = \<lparr>aeTerm = 1, aeLeaderID = 0, aePrevLogIndex = prev, aePrevLogTerm = pt,
     aeEntries = es, aeLeaderCommit = ci\<rparr>"

definition kv_run :: "Op mem_action list" where
  "kv_run =
     (let args = kv_append 0 0 [\<lparr>leCommand = Some op1, leTerm = 1\<rparr>] 0
      in [Act (Timeout 0 1000 (1000, 0)) 0,
          at 1001 (RVReq True 0 1 (rv 1 0)),
          at 1002 (RVRep 0 1 (rv 1 0) \<lparr>rvrTerm = 1, rvrVoteGranted = True\<rparr>),
          Act (Client 0 op1) 2, Act (Heartbeat 0 2000) 0,
          EncodeArgs (AEReq True 0 1 args),
          Act (Deliver (AEReq True 0 1 args) 2001 (2001, 0) (2001, 0)) 2,
          at 2002 (AERep 0 1 args \<lparr>aerTerm = 1, aerSuccess = True, aerNextTryHint = 0\<rparr>),
          Act (Apply 0) 0])"

definition kv_run_on :: "Op mem_action list" where
  "kv_run_on = [Act (Heartbeat 0 3000) 0, EncodeArgs (AEReq True 0 1 (kv_append 1 1 [] 1)),
     at 3001 (AEReq True 0 1 (kv_append 1 1 [] 1)), Act (Apply 1) 0]"

definition kv_start :: service where
  "kv_start = (init_mem 3 (\<lambda>_. (0, 0)), replicate 3 empty_kv)"

lemma kv_start_rstart: "rstart kv_start"
  using init_mem_initial [of 3 "\<lambda>_. (0, 0)"] by (auto simp: kv_start_def rstart_def init_mem_def init_cluster_def)

definition kv_sk :: service where
  "kv_sk = the (rexecs kv_run kv_start)"

definition kv_tk :: service where
  "kv_tk = the (rexecs kv_run_on kv_sk)"

lemma kv_runs_defined: "rexecs kv_run kv_start \<noteq> None" "rexecs kv_run_on kv_sk \<noteq> None"
  unfolding kv_sk_def by code_simp+

theorem replicas_agree_witness:
  "\<exists>r r'. execRecord (serverAt kv_sk 0) 7 = Some r \<and> execRecord (serverAt kv_tk 1) 7 = Some r' \<and> r = r'"
proof -
  have s1: "(rstep timely)\<^sup>*\<^sup>* kv_start kv_sk" using rexecs_rsteps kv_runs_defined(1) by (auto simp: kv_sk_def)
  have s2: "(rstep timely)\<^sup>*\<^sup>* kv_sk kv_tk" using rexecs_rsteps kv_runs_defined(2) by (auto simp: kv_tk_def)
  have "length (snd kv_sk) = 3" unfolding kv_sk_def by code_simp
  moreover have "execRecord (serverAt kv_sk 0) 7 \<noteq> None" "execRecord (serverAt kv_tk 1) 7 \<noteq> None"
    unfolding kv_tk_def kv_sk_def by code_simp+
  ultimately show ?thesis using replicas_agree [OF kv_start_rstart s1 s2, of 0 1] by fastforce
qed

text \<open>The peers in all executions, without conditions on the actions.\<close>

definition typed_inv :: "service \<Rightarrow> bool" where
  "typed_inv sk \<longleftrightarrow> mem_cmd_inv UNIV (fst sk) \<and> length (snd sk) = length (nodes (cl (fst sk)))"

interpretation typed: inductive_invariant rstart "rstep unrestricted" typed_inv
proof unfold_locales
  show "typed_inv sk" if "rstart sk" for sk using that initial_mem_commands by (auto simp: rstart_def typed_inv_def)
  show "typed_inv tk" if inv: "typed_inv sk" and st: "rstep unrestricted sk tk" for sk tk
  proof -
    obtain x where "raction unrestricted x sk tk" using st by (auto simp: rstep_def)
    then have "mexec x (fst sk) = Some (fst tk)" "length (snd tk) = length (snd sk)" by (auto elim: raction.cases)
    then show ?thesis using inv mexec_commands [of UNIV "fst sk" x "fst tk"] mexec_length [of x "fst sk" "fst tk"]
      by (simp add: typed_inv_def)
  qed
qed

text \<open>Property C21: in every execution, whatever the order of messages, the age of replies and the moment at which
  requests are encoded, every entry of a server's log after the first carries an operation, and so does every
  message delivered to a key/value server: the type assertion on \<open>msg.Command\<close> in the routine that reads
  \<open>applyCh\<close> never panics.\<close>

theorem delivered_commands_typed:
  assumes "rstart sk0" and "(rstep unrestricted)\<^sup>*\<^sup>* sk0 sk" and "i < length (snd sk)"
  shows "(\<forall>e \<in> set (tl (log (rf (serverAt sk i)))). leCommand e \<noteq> None) \<and>
    (\<forall>r m. applyNext (rf (serverAt sk i)) = Some (Some (r, m)) \<longrightarrow>
       (\<exists>kv'. readApplyChRoutine m (serverAt sk i) = Some kv'))"
proof -
  let ?s = "cl (fst sk)"
  have a: "nodes_ok ?s" "length (snd sk) = length (nodes ?s)" "cmd_inv UNIV ?s"
    using typed.reachable_inv [OF assms(1,2)] by (simp_all add: typed_inv_def mem_cmd_inv_def)
  have i: "i < length (nodes ?s)" using assms(3) a(2) by simp
  have la: "0 \<le> lastApplied (nodes ?s ! i)" using a(1) nth_mem [OF i] by (auto simp: nodes_ok_def node_inv_def)
  have "commands UNIV (tl (log (nodes ?s ! i)))" using a(3) i by (simp add: cmd_inv_def)
  moreover have "Command m \<in> Some ` UNIV" if "applyNext (nodes ?s ! i) = Some (Some (r, m))" for r m
    by (rule delivered_command [OF a(3) i that la])
  ultimately show ?thesis by (auto simp: serverAt_def commands_def readApplyChRoutine_def)
qed

definition kv_before :: service where
  "kv_before = the (rexecs (butlast kv_run) kv_start)"

theorem delivered_commands_typed_witness:
  "\<exists>r m kv'. applyNext (rf (serverAt kv_before 0)) = Some (Some (r, m)) \<and>
     readApplyChRoutine m (serverAt kv_before 0) = Some kv'"
proof -
  have d: "rexecs (butlast kv_run) kv_start \<noteq> None" "length (snd kv_before) = 3"
    "map_option (map_option (CommandIndex \<circ> snd)) (applyNext (rf (serverAt kv_before 0))) = Some (Some 1)"
    unfolding kv_before_def by code_simp+
  then obtain r m where m: "applyNext (rf (serverAt kv_before 0)) = Some (Some (r, m))" by auto
  have "(rstep unrestricted)\<^sup>*\<^sup>* kv_start kv_before"
    using rexecs_rsteps [of "butlast kv_run" kv_start kv_before unrestricted] d(1) by (auto simp: kv_before_def unrestricted_def)
  from delivered_commands_typed [OF kv_start_rstart this, of 0] m d(2) show ?thesis by auto
qed

end
