(* ===== verification/Bitset.thy ===== *)
theory Bitset
  imports Prelude "HOL-Library.Word"
begin

unbundle bit_operations_syntax

text \<open>
  The bit sets of the linearizability checker, \<open>src/src/porcupine/bitset.go\<close>: slices of 64-bit
  words. Positions are \<open>uint\<close>, here natural numbers; an access outside the slice panics
  (\<open>None\<close>). Go's \<open>set\<close> and \<open>clear\<close> change the slice in place and return it; the functions here
  return the changed slice.

  The interface the checker uses is the locale \<open>bit_vector\<close>: a set of positions below a
  capacity.
\<close>

type_synonym bitset = "64 word list"

definition newBitset :: "nat \<Rightarrow> bitset" where
  "newBitset bits =
     (let extra = (if bits mod 64 \<noteq> 0 then 1 else 0);
          chunks = bits div 64 + extra
      in replicate chunks 0)"

definition bitset_clone :: "bitset \<Rightarrow> bitset" where
  "bitset_clone b = b"

definition bitsetIndex :: "nat \<Rightarrow> nat \<times> nat" where
  "bitsetIndex pos = (pos div 64, pos mod 64)"

definition bitset_set :: "nat \<Rightarrow> bitset \<Rightarrow> bitset option" where
  "bitset_set pos b =
     (case bitsetIndex pos of
        (major, minor) \<Rightarrow>
          map_option (\<lambda>v. b[major := v OR push_bit minor 1]) (go_nth b (int major)))"

definition bitset_clear :: "nat \<Rightarrow> bitset \<Rightarrow> bitset option" where
  "bitset_clear pos b =
     (case bitsetIndex pos of
        (major, minor) \<Rightarrow>
          map_option (\<lambda>v. b[major := v AND NOT (push_bit minor 1)]) (go_nth b (int major)))"

definition bitset_get :: "nat \<Rightarrow> bitset \<Rightarrow> bool option" where
  "bitset_get pos b =
     (case bitsetIndex pos of
        (major, minor) \<Rightarrow>
          map_option (\<lambda>v. v AND push_bit minor 1 \<noteq> 0) (go_nth b (int major)))"

definition OnesCount64 :: "64 word \<Rightarrow> nat" where
  "OnesCount64 v = length (filter (bit v) [0..<64])"

definition popcnt :: "bitset \<Rightarrow> nat" where
  "popcnt b = sum_list (map OnesCount64 b)"

definition bitset_hash :: "bitset \<Rightarrow> 64 word" where
  "bitset_hash b = fold (\<lambda>v hash. hash XOR v) b (of_nat (popcnt b))"

definition bitset_equals :: "bitset \<Rightarrow> bitset \<Rightarrow> bool" where
  "bitset_equals b b2 =
     (if length b \<noteq> length b2 then False else list_all (\<lambda>i. b ! i = b2 ! i) [0..<length b])"

section \<open>The set a bit set stands for\<close>

definition members :: "bitset \<Rightarrow> nat set" where
  "members b = {i. i < 64 * length b \<and> bit (b ! (i div 64)) (i mod 64)}"

locale bit_vector =
  fixes cap :: "'b \<Rightarrow> nat" and elems :: "'b \<Rightarrow> nat set"
    and ins :: "nat \<Rightarrow> 'b \<Rightarrow> 'b option" and del :: "nat \<Rightarrow> 'b \<Rightarrow> 'b option"
    and mem :: "nat \<Rightarrow> 'b \<Rightarrow> bool option"
  assumes ins_in: "i < cap b \<Longrightarrow> \<exists>b'. ins i b = Some b' \<and> cap b' = cap b \<and> elems b' = insert i (elems b)"
    and del_in: "i < cap b \<Longrightarrow> \<exists>b'. del i b = Some b' \<and> cap b' = cap b \<and> elems b' = elems b - {i}"
    and mem_in: "i < cap b \<Longrightarrow> mem i b = Some (i \<in> elems b)"
    and out: "cap b \<le> i \<Longrightarrow> ins i b = None \<and> del i b = None \<and> mem i b = None"
    and bounded: "elems b \<subseteq> {..< cap b}"
begin

lemma ins_Some: "ins i b = Some b' \<Longrightarrow> i < cap b \<and> cap b' = cap b \<and> elems b' = insert i (elems b)"
  using ins_in [of i b] out [of b i] by (cases "i < cap b") auto

lemma del_Some: "del i b = Some b' \<Longrightarrow> i < cap b \<and> cap b' = cap b \<and> elems b' = elems b - {i}"
  using del_in [of i b] out [of b i] by (cases "i < cap b") auto

text \<open>Undoing an insertion of a new element.\<close>

lemma del_ins: "ins i b = Some b' \<Longrightarrow> i \<notin> elems b \<Longrightarrow> del i b' = Some b'' \<Longrightarrow> elems b'' = elems b"
  using ins_Some del_Some by fastforce

lemma finite_elems: "finite (elems b)"
  using bounded finite_subset by blast

end

lemma index_less: "i < 64 * length b \<Longrightarrow> i div 64 < length b" for b :: bitset
  by (simp add: less_mult_imp_div_less mult.commute)

lemma index_less_iff: "i div 64 < length b \<longleftrightarrow> i < 64 * length b" for b :: bitset
  by (auto simp: index_less)

lemma index_inject: "i div 64 = j div 64 \<Longrightarrow> i mod 64 = j mod 64 \<Longrightarrow> i = j" for i j :: nat
  by (metis div_mod_decomp)

lemma bit_single: "m < 64 \<Longrightarrow> bit (2 ^ m :: 64 word) k \<longleftrightarrow> k = m"
  by (auto simp: bit_exp_iff)

lemma and_single: "m < 64 \<Longrightarrow> v AND 2 ^ m = (0 :: 64 word) \<longleftrightarrow> \<not> bit v m"
  by (metis (no_types, lifting) bit_0_eq bit_and_iff bit_single bit_word_eqI bot_apply bot_bool_def)

lemma members_update:
  assumes "p < 64 * length b"
    and "\<And>k. k < 64 \<Longrightarrow> bit w k \<longleftrightarrow> (if k = p mod 64 then x else bit (b ! (p div 64)) k)"
  shows "members (b[p div 64 := w]) = (if x then insert p (members b) else members b - {p})"
proof -
  have "i \<in> members (b[p div 64 := w]) \<longleftrightarrow> (if i = p then x else i \<in> members b)" for i
  proof (cases "i div 64 = p div 64")
    case True
    then have "i \<in> members (b[p div 64 := w]) \<longleftrightarrow> i < 64 * length b \<and> bit w (i mod 64)"
      using index_less [OF assms(1)] by (auto simp: members_def)
    moreover have "i mod 64 = p mod 64 \<longleftrightarrow> i = p" using index_inject [OF True] by auto
    ultimately show ?thesis using assms(2) [of "i mod 64"] assms(1) True by (auto simp: members_def)
  next
    case False
    then show ?thesis by (auto simp: members_def)
  qed
  then show ?thesis by (intro set_eqI) (cases x; simp)
qed

interpretation bs: bit_vector "\<lambda>b. 64 * length b" members bitset_set bitset_clear bitset_get
proof
  fix i :: nat and b :: bitset
  show "members b \<subseteq> {..< 64 * length b}" by (auto simp: members_def)
  show "64 * length b \<le> i \<Longrightarrow> bitset_set i b = None \<and> bitset_clear i b = None \<and> bitset_get i b = None"
    using index_less_iff [of i b]
    by (auto simp: bitset_set_def bitset_clear_def bitset_get_def bitsetIndex_def go_nth_def)
  assume i: "i < 64 * length b"
  note idx = index_less [OF i]
  have bits: "bit (b ! (i div 64) OR push_bit (i mod 64) 1) k \<longleftrightarrow>
        (if k = i mod 64 then True else bit (b ! (i div 64)) k)"
    "bit (b ! (i div 64) AND NOT (push_bit (i mod 64) 1)) k \<longleftrightarrow>
        (if k = i mod 64 then False else bit (b ! (i div 64)) k)" if "k < 64" for k
    using that by (auto simp: bit_or_iff bit_and_iff bit_not_iff bit_single)
  show "\<exists>b'. bitset_set i b = Some b' \<and> 64 * length b' = 64 * length b \<and> members b' = insert i (members b)"
    using idx members_update [OF i bits(1)] by (simp add: bitset_set_def bitsetIndex_def go_nth_def)
  show "\<exists>b'. bitset_clear i b = Some b' \<and> 64 * length b' = 64 * length b \<and> members b' = members b - {i}"
    using idx members_update [OF i bits(2)] by (simp add: bitset_clear_def bitsetIndex_def go_nth_def)
  show "bitset_get i b = Some (i \<in> members b)"
    using i idx by (simp add: bitset_get_def bitsetIndex_def go_nth_def members_def and_single)
qed

lemma members_new [simp]: "members (newBitset n) = {}"
  by (auto simp: members_def newBitset_def Let_def)

lemma newBitset_cap: "n \<le> 64 * length (newBitset n)"
proof -
  have "n = 64 * (n div 64) + n mod 64" by simp
  moreover have "n mod 64 < 64" by simp
  ultimately show ?thesis by (auto simp: newBitset_def Let_def)
qed

lemma bitset_equals_iff: "bitset_equals b b2 \<longleftrightarrow> b = b2"
  by (auto simp: bitset_equals_def list_all_iff intro: nth_equalityI)

lemma members_inject:
  assumes "length b = length b2" and m: "members b = members b2"
  shows "b = b2"
proof (rule nth_equalityI [OF assms(1)])
  fix j assume j: "j < length b"
  show "b ! j = b2 ! j"
  proof (rule bit_word_eqI)
    fix k assume "k < LENGTH(64)"
    then have k: "(64 * j + k) div 64 = j" "(64 * j + k) mod 64 = k" "64 * j + k < 64 * length b"
      using j by auto
    have "64 * j + k \<in> members b \<longleftrightarrow> 64 * j + k \<in> members b2" using m by simp
    then show "bit (b ! j) k \<longleftrightarrow> bit (b2 ! j) k" using k assms by (simp add: members_def)
  qed
qed

lemma OnesCount64_card: "OnesCount64 v = card {k. k < 64 \<and> bit v k}"
  by (simp add: OnesCount64_def distinct_length_filter Int_def conj_commute)

lemma popcnt_members: "popcnt b = card (members b)"
  proof (induction b rule: rev_induct)
  case (snoc v b)
  let ?f = "\<lambda>k. 64 * length b + k"
  have nth: "(b @ [v]) ! (i div 64) = (if i < 64 * length b then b ! (i div 64) else v)"
    if "i < 64 * length (b @ [v])" for i
    using that index_less_iff [of i b] index_less_iff [of i "b @ [v]"] by (auto simp: nth_append)
  have "members (b @ [v]) = members b \<union> ?f ` {k. k < 64 \<and> bit v k}" (is "_ = _ \<union> ?f ` ?K")
  proof (rule set_eqI)
    fix i
    show "i \<in> members (b @ [v]) \<longleftrightarrow> i \<in> members b \<union> ?f ` ?K"
    proof (cases "i < 64 * length b")
      case True
      then show ?thesis using nth [of i] by (auto simp: members_def)
    next
      case False
      then obtain k where k: "i = ?f k" by (metis le_iff_add not_less)
      show ?thesis
      proof (cases "k < 64")
        case True
        then show ?thesis using nth [of i] k by (auto simp: members_def)
      next
        case False
        then show ?thesis using k by (auto simp: members_def)
      qed
    qed
  qed
  moreover have "members b \<inter> ?f ` ?K = {}" by (auto simp: members_def)
  ultimately have "card (members (b @ [v])) = card (members b) + card (?f ` ?K)"
    by (simp add: card_Un_disjoint bs.finite_elems)
  also have "card (?f ` ?K) = OnesCount64 v" by (simp add: OnesCount64_card card_image inj_on_def)
  finally show ?case using snoc by (simp add: popcnt_def)
qed (simp add: members_def popcnt_def)

text \<open>The number of bits set is the number of members, bit sets of one capacity are equal exactly when they have
  the same members, and \<open>set\<close>, \<open>clear\<close> and \<open>get\<close> act on the members as insertion, deletion and membership,
  and panic exactly beyond the capacity.\<close>

theorem bitset_operations:
  "popcnt b = card (members b) \<and> (length b = length b2 \<longrightarrow> (bitset_equals b b2 \<longleftrightarrow> members b = members b2)) \<and>
   (if i < 64 * length b
    then \<exists>s c. bitset_set i b = Some s \<and> members s = insert i (members b) \<and>
               bitset_clear i b = Some c \<and> members c = members b - {i} \<and>
               bitset_get i b = Some (i \<in> members b)
    else bitset_set i b = None \<and> bitset_clear i b = None \<and> bitset_get i b = None)"
proof -
  have "if i < 64 * length b
    then \<exists>s c. bitset_set i b = Some s \<and> members s = insert i (members b) \<and>
               bitset_clear i b = Some c \<and> members c = members b - {i} \<and>
               bitset_get i b = Some (i \<in> members b)
    else bitset_set i b = None \<and> bitset_clear i b = None \<and> bitset_get i b = None"
    using bs.ins_in [of i b] bs.del_in [of i b] bs.mem_in [of i b] bs.out [of b i] by auto
  moreover have "length b = length b2 \<longrightarrow> (bitset_equals b b2 \<longleftrightarrow> members b = members b2)"
    using members_inject [of b b2] by (auto simp: bitset_equals_iff)
  ultimately show ?thesis by (simp add: popcnt_members)
qed

end
