(* ===== verification/Checker.thy ===== *)
theory Checker
  imports Bitset "HOL-Library.Monad_Syntax"
begin

text \<open>
  The linearizability checker of \<open>src/src/porcupine\<close>: \<open>model.go\<close>, \<open>checker.go\<close> and
  \<open>porcupine.go\<close>.

  The doubly linked list of the search is modelled with explicit pointers: the heap is a list
  of nodes, a pointer is an index, \<open>None\<close> is \<open>nil\<close>. Values of type \<open>interface{}\<close> are of one
  type \<open>'v\<close>; \<open>Step\<close> of a model may panic on a value of the wrong dynamic type. \<open>None\<close> is a
  panic throughout, except for the two loops over the list that are partial functions, where
  it is divergence (shown not to happen in theory \<open>CheckerCorrect\<close>).

  \<open>sort.Sort\<close> is a parameter as in theory \<open>MapReduce\<close>. The slices \<open>seq\<close> that \<open>longest\<close> points to
  are kept in a store of their own, since \<open>checkParallel\<close> compares the pointers.
\<close>

section \<open>model.go\<close>

record 'v Operation =
  opClientId :: int
  Input :: 'v
  opCall :: int
  Output :: 'v
  opReturn :: int

datatype EventKind = CallEvent | ReturnEvent

record 'v Event =
  evClientId :: int
  Kind :: EventKind
  evValue :: 'v
  Id :: int

record ('v, 'st) Model =
  Partition :: "('v Operation list \<Rightarrow> 'v Operation list list option) option"
  PartitionEvent :: "('v Event list \<Rightarrow> 'v Event list list option) option"
  Init :: 'st
  Step :: "'st \<Rightarrow> 'v \<Rightarrow> 'v \<Rightarrow> (bool \<times> 'st) option"
  Equal :: "('st \<Rightarrow> 'st \<Rightarrow> bool) option"

definition NoPartition :: "'v Operation list \<Rightarrow> 'v Operation list list" where
  "NoPartition history = [history]"

definition NoPartitionEvent :: "'v Event list \<Rightarrow> 'v Event list list" where
  "NoPartitionEvent history = [history]"

definition ShallowEqual :: "'st \<Rightarrow> 'st \<Rightarrow> bool" where
  "ShallowEqual state1 state2 = (state1 = state2)"

datatype CheckResult = Unknown | Ok | Illegal

section \<open>checker.go: entries\<close>

datatype entryKind = callEntry | returnEntry

record 'v entry =
  kind :: entryKind
  val :: 'v
  eid :: int
  etime :: int
  eclientId :: int

fun entriesFrom :: "int \<Rightarrow> 'v Operation list \<Rightarrow> 'v entry list" where
  "entriesFrom i [] = []"
| "entriesFrom i (elem # history) =
     \<lparr>kind = callEntry, val = Input elem, eid = i, etime = opCall elem, eclientId = opClientId elem\<rparr> #
     \<lparr>kind = returnEntry, val = Output elem, eid = i, etime = opReturn elem, eclientId = opClientId elem\<rparr> #
     entriesFrom (i + 1) history"

definition makeEntries ::
    "('v entry list \<Rightarrow> 'v entry list) \<Rightarrow> 'v Operation list \<Rightarrow> 'v entry list" where
  "makeEntries sorter history = sorter (entriesFrom 0 history)"

fun renumberFrom :: "(int \<rightharpoonup> int) \<Rightarrow> int \<Rightarrow> 'v Event list \<Rightarrow> 'v Event list" where
  "renumberFrom m i [] = []"
| "renumberFrom m i (v # events) =
     (case m (Id v) of
        Some r \<Rightarrow> v\<lparr>Id := r\<rparr> # renumberFrom m i events
      | None \<Rightarrow> v\<lparr>Id := i\<rparr> # renumberFrom (m(Id v \<mapsto> i)) (i + 1) events)"

definition renumber :: "'v Event list \<Rightarrow> 'v Event list" where
  "renumber events = renumberFrom Map.empty 0 events"

fun convertFrom :: "int \<Rightarrow> 'v Event list \<Rightarrow> 'v entry list" where
  "convertFrom i [] = []"
| "convertFrom i (elem # events) =
     \<lparr>kind = (if Kind elem = ReturnEvent then returnEntry else callEntry), val = evValue elem,
      eid = Id elem, etime = i, eclientId = evClientId elem\<rparr> # convertFrom (i + 1) events"

definition convertEntries :: "'v Event list \<Rightarrow> 'v entry list" where
  "convertEntries events = convertFrom 0 events"

section \<open>checker.go: the linked list\<close>

record 'v node =
  nvalue :: "'v option"
  nmatch :: "nat option"
  nid :: int
  nnext :: "nat option"
  nprev :: "nat option"

type_synonym 'v heap = "'v node list"

definition deref :: "nat option \<Rightarrow> 'v heap \<Rightarrow> 'v node option" where
  "deref p h = (case p of None \<Rightarrow> None | Some a \<Rightarrow> if a < length h then Some (h ! a) else None)"

definition setNext :: "nat option \<Rightarrow> nat option \<Rightarrow> 'v heap \<Rightarrow> 'v heap option" where
  "setNext p q h =
     (case p of None \<Rightarrow> None
      | Some a \<Rightarrow> if a < length h then Some (h[a := (h ! a)\<lparr>nnext := q\<rparr>]) else None)"

definition setPrev :: "nat option \<Rightarrow> nat option \<Rightarrow> 'v heap \<Rightarrow> 'v heap option" where
  "setPrev p q h =
     (case p of None \<Rightarrow> None
      | Some a \<Rightarrow> if a < length h then Some (h[a := (h ! a)\<lparr>nprev := q\<rparr>]) else None)"

definition insertBefore :: "nat \<Rightarrow> nat option \<Rightarrow> 'v heap \<Rightarrow> 'v heap option" where
  "insertBefore n mark h =
     (case mark of
        None \<Rightarrow> Some h
      | Some _ \<Rightarrow>
          do {
            m \<leftarrow> deref mark h;
            let beforeMark = nprev m;
            h \<leftarrow> setPrev mark (Some n) h;
            h \<leftarrow> setNext (Some n) mark h;
            if beforeMark \<noteq> None then
              do {
                h \<leftarrow> setPrev (Some n) beforeMark h;
                setNext beforeMark (Some n) h
              }
            else Some h
          })"

text \<open>\<open>length\<close>: follows \<open>next\<close> to \<open>nil\<close>.\<close>

partial_function (option) nodeLength :: "'v heap \<Rightarrow> nat option \<Rightarrow> nat option" where
  "nodeLength h n =
     (case n of
        None \<Rightarrow> Some 0
      | Some _ \<Rightarrow> do { nd \<leftarrow> deref n h; l \<leftarrow> nodeLength h (nnext nd); Some (Suc l) })"

text \<open>The loop of \<open>makeLinkedEntries\<close>, over the entries from the last to the first.\<close>

fun linkEntries ::
    "'v entry list \<Rightarrow> nat option \<Rightarrow> (int \<rightharpoonup> nat) \<Rightarrow> 'v heap \<Rightarrow> (nat option \<times> 'v heap) option" where
  "linkEntries [] root match h = Some (root, h)"
| "linkEntries (elem # es) root match h =
     (let a = length h
      in if kind elem = returnEntry then
           do {
             h \<leftarrow> insertBefore a root (h @ [\<lparr>nvalue = Some (val elem), nmatch = None, nid = eid elem,
                                             nnext = None, nprev = None\<rparr>]);
             linkEntries es (Some a) (match(eid elem \<mapsto> a)) h
           }
         else
           do {
             h \<leftarrow> insertBefore a root (h @ [\<lparr>nvalue = Some (val elem), nmatch = match (eid elem),
                                             nid = eid elem, nnext = None, nprev = None\<rparr>]);
             linkEntries es (Some a) match h
           })"

definition makeLinkedEntries :: "'v entry list \<Rightarrow> (nat option \<times> 'v heap) option" where
  "makeLinkedEntries entries = linkEntries (rev entries) None Map.empty []"

definition lift :: "nat option \<Rightarrow> 'v heap \<Rightarrow> 'v heap option" where
  "lift entry h =
     do {
       e \<leftarrow> deref entry h;
       h \<leftarrow> setNext (nprev e) (nnext e) h;
       e \<leftarrow> deref entry h;
       h \<leftarrow> setPrev (nnext e) (nprev e) h;
       e \<leftarrow> deref entry h;
       m \<leftarrow> deref (nmatch e) h;
       h \<leftarrow> setNext (nprev m) (nnext m) h;
       m \<leftarrow> deref (nmatch e) h;
       if nnext m \<noteq> None then setPrev (nnext m) (nprev m) h else Some h
     }"

definition unlift :: "nat option \<Rightarrow> 'v heap \<Rightarrow> 'v heap option" where
  "unlift entry h =
     do {
       e \<leftarrow> deref entry h;
       let match = nmatch e;
       m \<leftarrow> deref match h;
       h \<leftarrow> setNext (nprev m) match h;
       m \<leftarrow> deref match h;
       h \<leftarrow> (if nnext m \<noteq> None then setPrev (nnext m) match h else Some h);
       e \<leftarrow> deref entry h;
       h \<leftarrow> setNext (nprev e) entry h;
       e \<leftarrow> deref entry h;
       setPrev (nnext e) entry h
     }"

section \<open>checker.go: the search\<close>

record 'st cacheEntry =
  ceLinearized :: bitset
  ceState :: 'st

definition modelEqual :: "('v, 'st) Model \<Rightarrow> 'st \<Rightarrow> 'st \<Rightarrow> bool" where
  "modelEqual model = (case Equal model of Some eq \<Rightarrow> eq | None \<Rightarrow> ShallowEqual)"

definition cacheContains ::
    "('v, 'st) Model \<Rightarrow> (64 word \<Rightarrow> 'st cacheEntry list) \<Rightarrow> 'st cacheEntry \<Rightarrow> bool" where
  "cacheContains model cache entry =
     list_ex (\<lambda>elem. bitset_equals (ceLinearized entry) (ceLinearized elem) \<and>
                     modelEqual model (ceState entry) (ceState elem))
       (cache (bitset_hash (ceLinearized entry)))"

record ('v, 'st) search =
  hp :: "'v heap"
  ent :: "nat option"
  cur :: 'st
  linearized :: bitset
  cache :: "64 word \<Rightarrow> 'st cacheEntry list"
  calls :: "(nat \<times> 'st) list"
  longest :: "nat option list"
  seqs :: "int list list"

datatype ('a, 'r) progress = Continue 'a | Return 'r

text \<open>\<open>uint(entry.id)\<close> as a position: a negative number becomes one beyond every slice.\<close>

definition uintPos :: "int \<Rightarrow> nat" where
  "uintPos i = nat (i mod 2 ^ 64)"

text \<open>The update of \<open>longest\<close> before the search backs up; \<open>seq\<close> is stored when first needed.\<close>

definition callIds :: "'v heap \<Rightarrow> (nat \<times> 'st) list \<Rightarrow> int list option" where
  "callIds h cs = those (map (\<lambda>c. map_option nid (deref (Some (fst c)) h)) cs)"

fun updateLongest ::
    "nat \<Rightarrow> int list \<Rightarrow> int list \<Rightarrow> nat option list \<Rightarrow> int list list \<Rightarrow> nat option
      \<Rightarrow> (nat option list \<times> int list list) option" where
  "updateLongest callsLen ids [] lg sq p = Some (lg, sq)"
| "updateLongest callsLen ids (i # is) lg sq p =
     (case go_nth lg i of
        None \<Rightarrow> None
      | Some old \<Rightarrow>
          if (case old of None \<Rightarrow> True | Some q \<Rightarrow> callsLen > length (sq ! q)) then
            (case p of
               None \<Rightarrow> updateLongest callsLen ids is (lg[nat i := Some (length sq)]) (sq @ [ids])
                         (Some (length sq))
             | Some q \<Rightarrow> updateLongest callsLen ids is (lg[nat i := Some q]) sq p)
          else updateLongest callsLen ids is lg sq p)"

text \<open>One round of the loop of \<open>checkSingle\<close> after the test of \<open>kill\<close>, with \<open>headEntry\<close> at address \<open>headEntry\<close>.\<close>

definition pushCall ::
    "('v, 'st) Model \<Rightarrow> nat \<Rightarrow> 'v node \<Rightarrow> 'st \<Rightarrow> ('v, 'st) search \<Rightarrow> ('v, 'st) search option" where
  "pushCall model headEntry e newState s =
     do {
       newLinearized \<leftarrow> bitset_set (uintPos (nid e)) (bitset_clone (linearized s));
       let newCacheEntry = \<lparr>ceLinearized = newLinearized, ceState = newState\<rparr>;
       if \<not> cacheContains model (cache s) newCacheEntry then
         do {
           let hash = bitset_hash newLinearized;
           a \<leftarrow> ent s;
           lin \<leftarrow> bitset_set (uintPos (nid e)) (linearized s);
           h \<leftarrow> lift (ent s) (hp s);
           head \<leftarrow> deref (Some headEntry) h;
           Some (s\<lparr>cache := (cache s)(hash := cache s hash @ [newCacheEntry]),
                   calls := calls s @ [(a, cur s)], cur := newState, linearized := lin,
                   hp := h, ent := nnext head\<rparr>)
         }
       else Some (s\<lparr>ent := nnext e\<rparr>)
     }"

definition popCall :: "bool \<Rightarrow> ('v, 'st) search \<Rightarrow> ('v, 'st) search option" where
  "popCall computePartial s =
     do {
       ids \<leftarrow> callIds (hp s) (calls s);
       (lg, sq) \<leftarrow> (if computePartial
                     then updateLongest (length (calls s)) ids ids (longest s) (seqs s) None
                     else Some (longest s, seqs s));
       let (a, st) = last (calls s);
       e \<leftarrow> deref (Some a) (hp s);
       lin \<leftarrow> bitset_clear (uintPos (nid e)) (linearized s);
       h \<leftarrow> unlift (Some a) (hp s);
       e \<leftarrow> deref (Some a) h;
       Some (s\<lparr>longest := lg, seqs := sq, cur := st, linearized := lin,
               calls := butlast (calls s), hp := h, ent := nnext e\<rparr>)
     }"

definition checkStep ::
    "('v, 'st) Model \<Rightarrow> bool \<Rightarrow> nat \<Rightarrow> ('v, 'st) search
      \<Rightarrow> (('v, 'st) search, bool \<times> nat option list \<times> int list list) progress option" where
  "checkStep model computePartial headEntry s =
     do {
       e \<leftarrow> deref (ent s) (hp s);
       if nmatch e \<noteq> None then
         do {
           matching \<leftarrow> deref (nmatch e) (hp s);
           inp \<leftarrow> nvalue e;
           out \<leftarrow> nvalue matching;
           (ok, newState) \<leftarrow> Step model (cur s) inp out;
           if ok then map_option Continue (pushCall model headEntry e newState s)
           else Some (Continue (s\<lparr>ent := nnext e\<rparr>))
         }
       else if calls s = [] then Some (Return (False, longest s, seqs s))
       else map_option Continue (popCall computePartial s)
     }"

text \<open>The result of a finished search: \<open>longest\<close> and the stored sequences.\<close>

definition finish :: "nat \<Rightarrow> ('v, 'st) search \<Rightarrow> (bool \<times> nat option list \<times> int list list) option" where
  "finish n s =
     map_option (\<lambda>seq. (True, replicate n (Some (length (seqs s))), seqs s @ [seq]))
       (callIds (hp s) (calls s))"

text \<open>
  The loop. \<open>kill k\<close> is the flag at round \<open>k\<close>. The outer \<open>None\<close> is divergence, the inner one a
  panic.
\<close>

partial_function (option) checkLoop ::
    "('v, 'st) Model \<Rightarrow> bool \<Rightarrow> (nat \<Rightarrow> bool) \<Rightarrow> nat \<Rightarrow> nat \<Rightarrow> nat \<Rightarrow> ('v, 'st) search
      \<Rightarrow> (bool \<times> nat option list \<times> int list list) option option" where
  "checkLoop model computePartial kill n headEntry k s =
     (case deref (Some headEntry) (hp s) of
        None \<Rightarrow> Some None
      | Some head \<Rightarrow>
          if nnext head = None then Some (finish n s)
          else if kill k then Some (Some (False, longest s, seqs s))
          else
            (case checkStep model computePartial headEntry s of
               None \<Rightarrow> Some None
             | Some (Return r) \<Rightarrow> Some (Some r)
             | Some (Continue s') \<Rightarrow> checkLoop model computePartial kill n headEntry (Suc k) s'))"

declare nodeLength.simps [code] checkLoop.simps [code]

definition checkSingle ::
    "('v, 'st) Model \<Rightarrow> 'v entry list \<Rightarrow> bool \<Rightarrow> (nat \<Rightarrow> bool)
      \<Rightarrow> (bool \<times> nat option list \<times> int list list) option option" where
  "checkSingle model history computePartial kill =
     (case makeLinkedEntries history of
        None \<Rightarrow> Some None
      | Some (entry, h) \<Rightarrow>
          (case nodeLength h entry of
             None \<Rightarrow> None
           | Some l \<Rightarrow>
               let n = l div 2;
                   headEntry = length h
               in (case insertBefore headEntry entry
                          (h @ [\<lparr>nvalue = None, nmatch = None, nid = - 1, nnext = None, nprev = None\<rparr>]) of
                     None \<Rightarrow> Some None
                   | Some h \<Rightarrow>
                       checkLoop model computePartial kill n headEntry 0
                         \<lparr>hp = h, ent = entry, cur = Init model, linearized = newBitset n,
                          cache = (\<lambda>_. []), calls = [], longest = replicate n None, seqs = []\<rparr>)))"

section \<open>checker.go: partitions\<close>

definition fillDefault :: "('v, 'st) Model \<Rightarrow> ('v, 'st) Model" where
  "fillDefault model =
     (let model = (if Partition model = None
                   then model\<lparr>Partition := Some (\<lambda>h. Some (NoPartition h))\<rparr> else model);
          model = (if PartitionEvent model = None
                   then model\<lparr>PartitionEvent := Some (\<lambda>h. Some (NoPartitionEvent h))\<rparr> else model)
      in if Equal model = None then model\<lparr>Equal := Some ShallowEqual\<rparr> else model)"

text \<open>
  The loop of \<open>checkParallel\<close> that receives the results: what arrives, in order. The result is
  \<open>ok\<close>, \<open>timedOut\<close> and \<open>count\<close>; \<open>None\<close> when the loop still waits after the events of the list.
\<close>

datatype parEvent = Result bool | TimerFired

fun collect :: "bool \<Rightarrow> nat \<Rightarrow> parEvent list \<Rightarrow> bool \<Rightarrow> nat \<Rightarrow> (bool \<times> bool \<times> nat) option" where
  "collect computeInfo nhist [] ok cnt = None"
| "collect computeInfo nhist (Result result # evs) ok cnt =
     (let cnt = cnt + 1;
          ok = (ok \<and> result)
      in if \<not> ok \<and> \<not> computeInfo then Some (ok, False, cnt)
         else if cnt \<ge> nhist then Some (ok, False, cnt)
         else collect computeInfo nhist evs ok cnt)"
| "collect computeInfo nhist (TimerFired # evs) ok cnt = Some (ok, True, cnt)"

definition verdict :: "bool \<Rightarrow> bool \<Rightarrow> CheckResult" where
  "verdict ok timedOut = (if \<not> ok then Illegal else if timedOut then Unknown else Ok)"

text \<open>
  The distinct sequences \<open>longest\<close> points to. Go ranges over a map of pointers in an unspecified
  order; here they come in the order of their first use.
\<close>

definition partials :: "nat option list \<Rightarrow> int list list \<Rightarrow> int list list" where
  "partials lg sq = map ((!) sq) (remdups (List.map_filter id lg))"

record 'v linearizationInfo =
  liHistory :: "'v entry list list"
  partialLinearizations :: "int list list list"

text \<open>
  The searches run in goroutines: \<open>kills i k\<close> is the flag the \<open>i\<close>-th one reads in its round
  \<open>k\<close>, \<open>arrivals\<close> the order in which the main goroutine receives the results and the timer.
  \<open>None\<close> when a search panics or diverges, or the main goroutine waits for ever.
\<close>

datatype arrival = Arrived nat | TimedOut

definition runSingles ::
    "('v, 'st) Model \<Rightarrow> 'v entry list list \<Rightarrow> bool \<Rightarrow> (nat \<Rightarrow> nat \<Rightarrow> bool)
      \<Rightarrow> (bool \<times> nat option list \<times> int list list) list option" where
  "runSingles model hist computeInfo kills =
     those (map (\<lambda>i. Option.bind (checkSingle model (hist ! i) computeInfo (kills i)) id)
                [0..<length hist])"

fun parEvent_of :: "(bool \<times> nat option list \<times> int list list) list \<Rightarrow> arrival \<Rightarrow> parEvent" where
  "parEvent_of rs (Arrived i) = Result (fst (rs ! i))"
| "parEvent_of rs TimedOut = TimerFired"

text \<open>
  The stores to the flag \<open>kill\<close>: how many results the main goroutine has received when it sets it, after a
  negative result that ends the loop or when the timer fires; \<open>None\<close> when it does not set it.
\<close>

fun killStored :: "bool \<Rightarrow> nat \<Rightarrow> parEvent list \<Rightarrow> bool \<Rightarrow> nat \<Rightarrow> nat option" where
  "killStored computeInfo nhist [] ok cnt = None"
| "killStored computeInfo nhist (Result result # evs) ok cnt =
     (let cnt = cnt + 1;
          ok = (ok \<and> result)
      in if \<not> ok \<and> \<not> computeInfo then Some cnt
         else if cnt \<ge> nhist then None
         else killStored computeInfo nhist evs ok cnt)"
| "killStored computeInfo nhist (TimerFired # evs) ok cnt = Some cnt"

text \<open>
  What the searches can read: the flag is never reset, and a search reads it as set only when it was set
  before the search sent its result, so that the result is not among those received until then.
\<close>

definition legalKills ::
    "('v, 'st) Model \<Rightarrow> 'v entry list list \<Rightarrow> bool \<Rightarrow> (nat \<Rightarrow> nat \<Rightarrow> bool) \<Rightarrow> arrival list \<Rightarrow> bool" where
  "legalKills model hist computeInfo kills arrivals \<longleftrightarrow>
     (\<forall>i k. kills i k \<longrightarrow> kills i (Suc k)) \<and>
     (case runSingles model hist computeInfo kills of
        None \<Rightarrow> True
      | Some rs \<Rightarrow>
          (case killStored computeInfo (length hist) (map (parEvent_of rs) arrivals) True 0 of
             None \<Rightarrow> \<forall>i k. \<not> kills i k
           | Some c \<Rightarrow> \<forall>i k. kills i k \<longrightarrow> Arrived i \<notin> set (take c arrivals)))"

definition checkParallel ::
    "('v, 'st) Model \<Rightarrow> 'v entry list list \<Rightarrow> bool \<Rightarrow> (nat \<Rightarrow> nat \<Rightarrow> bool) \<Rightarrow> arrival list
      \<Rightarrow> (CheckResult \<times> 'v linearizationInfo) option" where
  "checkParallel model hist computeInfo kills arrivals =
     do {
       rs \<leftarrow> runSingles model hist computeInfo kills;
       (ok, timedOut, cnt) \<leftarrow> collect computeInfo (length hist) (map (parEvent_of rs) arrivals) True 0;
       let info = (if computeInfo
                   then \<lparr>liHistory = hist,
                         partialLinearizations = map (\<lambda>(r, lg, sq). partials lg sq) rs\<rparr>
                   else \<lparr>liHistory = [], partialLinearizations = []\<rparr>);
       Some (verdict ok timedOut, info)
     }"

definition checkEvents ::
    "(nat \<Rightarrow> nat \<Rightarrow> bool) \<Rightarrow> arrival list \<Rightarrow> ('v, 'st) Model \<Rightarrow> 'v Event list \<Rightarrow> bool
      \<Rightarrow> (CheckResult \<times> 'v linearizationInfo) option" where
  "checkEvents kills arrivals model history verbose =
     do {
       let model = fillDefault model;
       partitions \<leftarrow> the (PartitionEvent model) history;
       let l = map (\<lambda>subhistory. convertEntries (renumber subhistory)) partitions;
       checkParallel model l verbose kills arrivals
     }"

definition checkOperations ::
    "('v entry list \<Rightarrow> 'v entry list) \<Rightarrow> (nat \<Rightarrow> nat \<Rightarrow> bool) \<Rightarrow> arrival list \<Rightarrow> ('v, 'st) Model
      \<Rightarrow> 'v Operation list \<Rightarrow> bool \<Rightarrow> (CheckResult \<times> 'v linearizationInfo) option" where
  "checkOperations sorter kills arrivals model history verbose =
     do {
       let model = fillDefault model;
       partitions \<leftarrow> the (Partition model) history;
       let l = map (makeEntries sorter) partitions;
       checkParallel model l verbose kills arrivals
     }"

text \<open>The values of the flag in a call of \<open>checkOperations\<close>.\<close>

definition operationKills ::
    "('v entry list \<Rightarrow> 'v entry list) \<Rightarrow> (nat \<Rightarrow> nat \<Rightarrow> bool) \<Rightarrow> arrival list \<Rightarrow> ('v, 'st) Model
      \<Rightarrow> 'v Operation list \<Rightarrow> bool \<Rightarrow> bool" where
  "operationKills sorter kills arrivals model history verbose \<longleftrightarrow>
     (case the (Partition (fillDefault model)) history of
        None \<Rightarrow> True
      | Some partitions \<Rightarrow>
          legalKills (fillDefault model) (map (makeEntries sorter) partitions) verbose kills arrivals)"

section \<open>porcupine.go\<close>

definition CheckOperations ::
    "('v entry list \<Rightarrow> 'v entry list) \<Rightarrow> (nat \<Rightarrow> nat \<Rightarrow> bool) \<Rightarrow> arrival list \<Rightarrow> ('v, 'st) Model
      \<Rightarrow> 'v Operation list \<Rightarrow> bool option" where
  "CheckOperations sorter kills arrivals model history =
     map_option (\<lambda>(res, _). res = Ok) (checkOperations sorter kills arrivals model history False)"

definition CheckOperationsTimeout ::
    "('v entry list \<Rightarrow> 'v entry list) \<Rightarrow> (nat \<Rightarrow> nat \<Rightarrow> bool) \<Rightarrow> arrival list \<Rightarrow> ('v, 'st) Model
      \<Rightarrow> 'v Operation list \<Rightarrow> CheckResult option" where
  "CheckOperationsTimeout sorter kills arrivals model history =
     map_option fst (checkOperations sorter kills arrivals model history False)"

definition CheckOperationsVerbose ::
    "('v entry list \<Rightarrow> 'v entry list) \<Rightarrow> (nat \<Rightarrow> nat \<Rightarrow> bool) \<Rightarrow> arrival list \<Rightarrow> ('v, 'st) Model
      \<Rightarrow> 'v Operation list \<Rightarrow> (CheckResult \<times> 'v linearizationInfo) option" where
  "CheckOperationsVerbose sorter kills arrivals model history =
     checkOperations sorter kills arrivals model history True"

definition CheckEvents ::
    "(nat \<Rightarrow> nat \<Rightarrow> bool) \<Rightarrow> arrival list \<Rightarrow> ('v, 'st) Model \<Rightarrow> 'v Event list \<Rightarrow> bool option" where
  "CheckEvents kills arrivals model history =
     map_option (\<lambda>(res, _). res = Ok) (checkEvents kills arrivals model history False)"

definition CheckEventsTimeout ::
    "(nat \<Rightarrow> nat \<Rightarrow> bool) \<Rightarrow> arrival list \<Rightarrow> ('v, 'st) Model \<Rightarrow> 'v Event list \<Rightarrow> CheckResult option" where
  "CheckEventsTimeout kills arrivals model history =
     map_option fst (checkEvents kills arrivals model history False)"

definition CheckEventsVerbose ::
    "(nat \<Rightarrow> nat \<Rightarrow> bool) \<Rightarrow> arrival list \<Rightarrow> ('v, 'st) Model \<Rightarrow> 'v Event list
      \<Rightarrow> (CheckResult \<times> 'v linearizationInfo) option" where
  "CheckEventsVerbose kills arrivals model history =
     checkEvents kills arrivals model history True"

end
