(* ===== verification/CheckerHeap.thy ===== *)
theory CheckerHeap
  imports Checker
begin

text \<open>
  The doubly linked list of the linearizability checker: what the pointer operations of
  \<open>checker.go\<close> do to it. \<open>dll h xs\<close> says that the nodes at the addresses \<open>xs\<close> are linked in this
  order; \<open>insertBefore\<close> builds such lists, \<open>lift\<close> takes a call and its return out and \<open>unlift\<close>
  restores the heap exactly, which is why the search may take operations out in any nesting.
\<close>

definition first :: "nat list \<Rightarrow> nat option \<Rightarrow> nat option" where
  "first xs q = (case xs of [] \<Rightarrow> q | x # _ \<Rightarrow> Some x)"

fun lseg :: "'v heap \<Rightarrow> nat option \<Rightarrow> nat list \<Rightarrow> nat option \<Rightarrow> bool" where
  "lseg h p [] q \<longleftrightarrow> True"
| "lseg h p (x # xs) q \<longleftrightarrow>
     x < length h \<and> nprev (h ! x) = p \<and> nnext (h ! x) = first xs q \<and> lseg h (Some x) xs q"

definition dll :: "'v heap \<Rightarrow> nat list \<Rightarrow> bool" where
  "dll h xs \<longleftrightarrow> distinct xs \<and> lseg h None xs None"

text \<open>Two heaps that differ in their links only.\<close>

definition same_data :: "'v heap \<Rightarrow> 'v heap \<Rightarrow> bool" where
  "same_data h h' \<longleftrightarrow> length h = length h' \<and>
     (\<forall>a < length h. nvalue (h ! a) = nvalue (h' ! a) \<and> nmatch (h ! a) = nmatch (h' ! a) \<and> nid (h ! a) = nid (h' ! a))"

lemma first_simps [simp]: "first [] q = q" "first (x # xs) q = Some x"
  by (simp_all add: first_def)

lemma first_append: "first (xs @ ys) q = first xs (first ys q)"
  by (cases xs) auto

lemma lseg_append:
  "lseg h p (xs @ ys) q \<longleftrightarrow> lseg h p xs (first ys q) \<and> lseg h (if xs = [] then p else Some (last xs)) ys q"
  by (induction xs arbitrary: p) (auto simp: first_append)

lemma lseg_frame: "a \<notin> set xs \<Longrightarrow> lseg (h[a := nd]) p xs q \<longleftrightarrow> lseg h p xs q"
  by (induction xs arbitrary: p) auto

lemma lseg_bounded: "lseg h p xs q \<Longrightarrow> set xs \<subseteq> {..<length h}"
  by (induction xs arbitrary: p) auto

lemma lseg_extend: "lseg h p xs q \<Longrightarrow> lseg (h @ hs) p xs q"
  by (induction xs arbitrary: p) (auto simp: nth_append)

text \<open>Changing the outer links of a segment.\<close>

lemma lseg_new_prev: "lseg h p (x # xs) q \<Longrightarrow> x \<notin> set xs \<Longrightarrow> lseg (h[x := (h ! x)\<lparr>nprev := p'\<rparr>]) p' (x # xs) q"
  by (simp add: lseg_frame)

lemma lseg_new_next:
  "lseg h p (xs @ [x]) q \<Longrightarrow> x \<notin> set xs \<Longrightarrow> lseg (h[x := (h ! x)\<lparr>nnext := q'\<rparr>]) p (xs @ [x]) q'"
  by (auto simp: lseg_append lseg_frame)

lemma lseg_join: "lseg h p' (xs @ [p]) (Some y) \<Longrightarrow> lseg h (Some p) (y # zs) q \<Longrightarrow> lseg h p' (xs @ p # y # zs) q"
  by (simp add: lseg_append)

lemma dll_bounded: "dll h xs \<Longrightarrow> x \<in> set xs \<Longrightarrow> x < length h"
  using lseg_bounded by (fastforce simp: dll_def)

lemma dll_next: "dll h (xs @ x # ys) \<Longrightarrow> nnext (h ! x) = first ys None"
  by (simp add: dll_def lseg_append)

lemma same_data_refl [simp]: "same_data h h"
  by (simp add: same_data_def)

lemma same_data_trans: "same_data h h' \<Longrightarrow> same_data h' h'' \<Longrightarrow> same_data h h''"
  by (simp add: same_data_def)

lemma same_data_update:
  "same_data (h[a := (h ! a)\<lparr>nnext := q\<rparr>]) h" "same_data (h[a := (h ! a)\<lparr>nprev := q\<rparr>]) h"
  by (cases "a < length h"; auto simp: same_data_def nth_list_update)+

lemma node_same_link: "nnext nd = q \<Longrightarrow> nd\<lparr>nnext := q\<rparr> = nd" "nprev nd = q \<Longrightarrow> nd\<lparr>nprev := q\<rparr> = nd"
  by (cases nd; simp)+

lemma nodeLength_lseg: "lseg h p xs None \<Longrightarrow> nodeLength h (first xs None) = Some (length xs)"
proof (induction xs arbitrary: p)
  case Nil
  then show ?case by (simp add: nodeLength.simps)
next
  case (Cons x xs)
  then have "nodeLength h (first xs None) = Some (length xs)" by (metis lseg.simps(2))
  then show ?case using Cons.prems by (simp add: nodeLength.simps [of h "Some x"] deref_def)
qed

section \<open>Building the list\<close>

lemma insertBefore_front:
  assumes "dll h xs" "nnext nd = None" "nprev nd = None"
  shows "\<exists>h'. insertBefore (length h) (first xs None) (h @ [nd]) = Some h' \<and>
    dll h' (length h # xs) \<and> same_data h' (h @ [nd])"
proof (cases xs)
  case Nil
  then show ?thesis using assms by (auto simp: insertBefore_def dll_def)
next
  case (Cons x ys)
  let ?a = "length h" and ?h = "h @ [nd]"
  let ?h1 = "?h[x := (?h ! x)\<lparr>nprev := Some ?a\<rparr>]"
  let ?h2 = "?h1[?a := (?h1 ! ?a)\<lparr>nnext := Some x\<rparr>]"
  have x: "x < length h" "?a \<notin> set xs" using dll_bounded [OF assms(1)] Cons by auto
  have "nprev (h ! x) = None" using assms(1) Cons by (simp add: dll_def)
  then have ins: "insertBefore ?a (first xs None) ?h = Some ?h2"
    using x Cons by (simp add: insertBefore_def deref_def setPrev_def setNext_def nth_append)
  have "lseg ?h1 (Some ?a) (x # ys) None"
    using assms(1) Cons lseg_new_prev [of ?h None x ys None "Some ?a"] lseg_extend [of h None "x # ys" None "[nd]"]
    by (simp add: dll_def)
  then have "lseg ?h2 (Some ?a) (x # ys) None" using x Cons by (subst lseg_frame) auto
  then have "dll ?h2 (?a # xs)" using assms x Cons by (simp add: dll_def)
  moreover have "same_data ?h2 ?h" using same_data_update same_data_trans by blast
  ultimately show ?thesis using ins by blast
qed

section \<open>Taking a node out and putting it back\<close>

definition unlink :: "nat \<Rightarrow> 'v heap \<Rightarrow> 'v heap option" where
  "unlink x h =
     do {
       e \<leftarrow> deref (Some x) h;
       h \<leftarrow> setNext (nprev e) (nnext e) h;
       e \<leftarrow> deref (Some x) h;
       if nnext e \<noteq> None then setPrev (nnext e) (nprev e) h else Some h
     }"

definition relink :: "nat \<Rightarrow> 'v heap \<Rightarrow> 'v heap option" where
  "relink x h =
     do {
       e \<leftarrow> deref (Some x) h;
       h \<leftarrow> setNext (nprev e) (Some x) h;
       e \<leftarrow> deref (Some x) h;
       if nnext e \<noteq> None then setPrev (nnext e) (Some x) h else Some h
     }"

text \<open>A node with a predecessor can be taken out of the list, and put back.\<close>

lemma unlink_dll:
  assumes "dll h (xs @ p # x # ys)"
  shows "\<exists>h'. unlink x h = Some h' \<and> dll h' (xs @ p # ys) \<and> same_data h' h \<and> h' ! x = h ! x \<and> relink x h' = Some h"
proof -
  have d: "x \<noteq> p" "x \<notin> set ys" "p \<notin> set ys" "p \<notin> set xs" "distinct ys" "distinct xs" "set xs \<inter> set ys = {}"
    using assms by (auto simp: dll_def)
  have b: "p < length h" "x < length h" using dll_bounded [OF assms] by auto
  have l: "lseg h None (xs @ [p]) (Some x)" "lseg h (Some x) ys None"
    "nprev (h ! x) = Some p" "nnext (h ! x) = first ys None" "nnext (h ! p) = Some x"
    using assms by (auto simp: dll_def lseg_append)
  let ?h1 = "h[p := (h ! p)\<lparr>nnext := first ys None\<rparr>]"
  have l1: "lseg ?h1 None (xs @ [p]) (first ys None)" using lseg_new_next [OF l(1)] d by simp
  have l2: "lseg ?h1 (Some x) ys None" using l(2) d by (simp add: lseg_frame)
  have undo1: "?h1[p := (?h1 ! p)\<lparr>nnext := Some x\<rparr>] = h" using b l(5) by (simp add: node_same_link)
  show ?thesis
  proof (cases ys)
    case Nil
    have "unlink x h = Some ?h1" "relink x ?h1 = Some h"
      using b d l undo1 Nil by (simp_all add: unlink_def relink_def deref_def setNext_def setPrev_def)
    moreover have "dll ?h1 (xs @ p # ys)" using l1 d Nil by (simp add: dll_def)
    moreover have "?h1 ! x = h ! x" using d by simp
    ultimately show ?thesis using same_data_update(1) by blast
  next
    case (Cons y zs)
    let ?h2 = "?h1[y := (?h1 ! y)\<lparr>nprev := Some p\<rparr>]"
    have y: "y \<noteq> p" "y \<noteq> x" "y < length h" using d dll_bounded [OF assms] Cons by auto
    have yp: "nprev (h ! y) = Some x" using l(2) Cons by simp
    have "unlink x h = Some ?h2"
      using b d l y Cons by (simp add: unlink_def deref_def setNext_def setPrev_def)
    moreover have "relink x ?h2 = Some h"
    proof -
      have "?h2[p := (?h2 ! p)\<lparr>nnext := Some x\<rparr>] = h[y := (h ! y)\<lparr>nprev := Some p\<rparr>]"
        using y b l(5) by (auto simp: list_eq_iff_nth_eq nth_list_update node_same_link)
      moreover have "h[y := (h ! y)\<lparr>nprev := Some p\<rparr>, y := (h ! y)\<lparr>nprev := Some x\<rparr>] = h"
        using y yp by (simp add: node_same_link)
      ultimately show ?thesis
        using b d l y Cons yp by (simp add: relink_def deref_def setNext_def setPrev_def)
    qed
    moreover have "dll ?h2 (xs @ p # ys)"
    proof -
      have "lseg ?h2 (Some p) (y # zs) None" using lseg_new_prev [of ?h1 "Some x" y zs None] l2 d Cons by simp
      moreover have "lseg ?h2 None (xs @ [p]) (Some y)"
        using l1 d Cons y by (subst lseg_frame) auto
      ultimately have "lseg ?h2 None (xs @ p # y # zs) None" by (rule lseg_join [rotated])
      then show ?thesis using d Cons by (auto simp: dll_def)
    qed
    moreover have "same_data ?h2 h" using same_data_update same_data_trans by blast
    moreover have "?h2 ! x = h ! x" using d y by simp
    ultimately show ?thesis by blast
  qed
qed

lemma dll_prev: "dll h (xs @ p # x # ys) \<Longrightarrow> nprev (h ! x) = Some p"
  by (simp add: dll_def lseg_append)

text \<open>\<open>lift\<close> takes out the call and then its return, \<open>unlift\<close> puts them back in the opposite order.\<close>

lemma lift_unlinks:
  assumes "dll h (xs @ p # a # ys)" and "ys \<noteq> []" and "nmatch (h ! a) = Some b"
    and "unlink a h = Some h1" and "h1 ! a = h ! a" and "length h1 = length h"
  shows "lift (Some a) h = unlink b h1"
proof -
  have "a < length h" using dll_bounded [OF assms(1)] by simp
  moreover obtain y where "nnext (h ! a) = Some y"
    using dll_next [of h "xs @ [p]" a ys] assms(1,2) by (cases ys) auto
  ultimately show ?thesis using assms(3-6)
    by (auto simp: lift_def unlink_def deref_def split: Option.bind_splits if_splits)
qed

lemma unlift_relinks:
  assumes "a < length h" and "nmatch (h ! a) = Some b" and "relink b h = Some h1"
    and "nnext (h1 ! a) \<noteq> None" and "length h1 = length h" and "nprev (h1 ! a) = Some p" and "p \<noteq> a"
  shows "unlift (Some a) h = relink a h1"
proof -
  have "unlift (Some a) h =
      relink b h \<bind> (\<lambda>h. do {
        e \<leftarrow> deref (Some a) h;
        h \<leftarrow> setNext (nprev e) (Some a) h;
        e \<leftarrow> deref (Some a) h;
        setPrev (nnext e) (Some a) h })"
    using assms(1,2) by (simp add: unlift_def relink_def deref_def Let_def cong: if_cong)
  then show ?thesis using assms by (auto simp: relink_def [of a] deref_def setNext_def)
qed

lemma lift_dll:
  assumes dll: "dll h (xs @ p # ys @ a # mid @ b # post)" and mt: "nmatch (h ! a) = Some b"
  shows "\<exists>h'. lift (Some a) h = Some h' \<and> dll h' (xs @ p # ys @ mid @ post) \<and> same_data h' h \<and>
    unlift (Some a) h' = Some h"
proof -
  obtain us q where q: "xs @ p # ys = us @ [q]" by (metis append_is_Nil_conv list.discI rev_exhaust)
  have d: "dll h (us @ q # a # mid @ b # post)" using dll q by (metis append.assoc append_Cons append_Nil)
  obtain h1 where h1: "unlink a h = Some h1" "dll h1 (us @ q # mid @ b # post)" "same_data h1 h" "h1 ! a = h ! a"
      "relink a h1 = Some h"
    using unlink_dll [OF d] by blast
  obtain vs r where r: "us @ q # mid = vs @ [r]" by (metis append_is_Nil_conv list.discI rev_exhaust)
  have "dll h1 (vs @ r # b # post)" using h1(2) r by (metis append.assoc append_Cons append_Nil)
  then obtain h2 where h2: "unlink b h1 = Some h2" "dll h2 (vs @ r # post)" "same_data h2 h1" "h2 ! b = h1 ! b"
      "relink b h2 = Some h1"
    using unlink_dll by blast
  have len: "length h1 = length h" "length h2 = length h" using h1(3) h2(3) by (auto simp: same_data_def)
  have a: "a < length h" using dll_bounded [OF d] by simp
  have "lift (Some a) h = Some h2" using lift_unlinks [OF d _ mt h1(1,4) len(1)] h2(1) by simp
  moreover have "unlift (Some a) h2 = Some h"
  proof -
    have "nmatch (h2 ! a) = Some b" using mt h1(3) h2(3) a len by (simp add: same_data_def)
    moreover have "nnext (h1 ! a) \<noteq> None"
      using dll_next [of h "us @ [q]" a "mid @ b # post"] d h1(4) by (cases mid) simp_all
    moreover have "nprev (h1 ! a) = Some q" "q \<noteq> a" using dll_prev [OF d] d h1(4) by (auto simp: dll_def)
    ultimately show ?thesis using unlift_relinks [OF _ _ h2(5)] a len h1(5) by simp
  qed
  moreover have "dll h2 (xs @ p # ys @ mid @ post)"
  proof -
    have "vs @ r # post = (us @ [q]) @ mid @ post" using r by (metis append.assoc append_Cons append_Nil)
    then show ?thesis using h2(2) q by (metis append.assoc append_Cons)
  qed
  moreover have "same_data h2 h" using h1(3) h2(3) same_data_trans by blast
  ultimately show ?thesis by blast
qed

text \<open>Property C35: \<open>lift\<close> takes a call and its return out of the list and leaves the rest linked in order; \<open>unlift\<close>
  then restores the heap exactly, also when the return follows the call at once or is the last node.\<close>

theorem lift_unlift:
  assumes "dll h (headEntry # pre @ a # mid @ b # post)" and "nmatch (h ! a) = Some b"
  shows "\<exists>h'. lift (Some a) h = Some h' \<and> dll h' (headEntry # pre @ mid @ post) \<and> unlift (Some a) h' = Some h"
  using lift_dll [of h "[]" headEntry pre a mid b post] assms by auto

definition heapExample :: "nat heap" where
  "heapExample =
     [\<lparr>nvalue = Some 7, nmatch = None, nid = 0, nnext = None, nprev = Some 1\<rparr>,
      \<lparr>nvalue = Some 5, nmatch = Some 0, nid = 0, nnext = Some 0, nprev = Some 2\<rparr>,
      \<lparr>nvalue = None, nmatch = None, nid = - 1, nnext = Some 1, nprev = None\<rparr>]"

theorem lift_unlift_witness: "\<exists>h'. lift (Some 1) heapExample = Some h' \<and> dll h' [2] \<and> unlift (Some 1) h' = Some heapExample"
  using lift_unlift [of heapExample 2 "[]" 1 "[]" 0 "[]"] by (simp add: dll_def heapExample_def)

section \<open>The list of a history\<close>

text \<open>
  \<open>makeLinkedEntries\<close> allocates the nodes from the last entry to the first: with the entries in
  that order, \<open>r\<close>, the node of \<open>r ! k\<close> is at address \<open>k\<close>.
\<close>

definition linkedData :: "'v entry list \<Rightarrow> 'v heap \<Rightarrow> bool" where
  "linkedData r h \<longleftrightarrow> length h = length r \<and>
     (\<forall>k < length r. nvalue (h ! k) = Some (val (r ! k)) \<and> nid (h ! k) = eid (r ! k) \<and>
        (\<forall>j. nmatch (h ! k) = Some j \<longleftrightarrow>
           kind (r ! k) = callEntry \<and> j < k \<and> kind (r ! j) = returnEntry \<and> eid (r ! j) = eid (r ! k)))"

lemma linkedData_snoc:
  assumes "linkedData ds h" and "same_data h' (h @ [nd])" and "nvalue nd = Some (val e)" and "nid nd = eid e"
    and "\<And>j. nmatch nd = Some j \<longleftrightarrow>
      kind e = callEntry \<and> j < length ds \<and> kind (ds ! j) = returnEntry \<and> eid (ds ! j) = eid e"
  shows "linkedData (ds @ [e]) h'"
  unfolding linkedData_def
proof (intro conjI allI impI)
  have len: "length h' = Suc (length ds)" "length h = length ds"
    using assms(1,2) by (auto simp: linkedData_def same_data_def)
  then show "length h' = length (ds @ [e])" by simp
  fix k assume k: "k < length (ds @ [e])"
  have s: "nvalue (h' ! k) = nvalue ((h @ [nd]) ! k)" "nid (h' ! k) = nid ((h @ [nd]) ! k)"
      "nmatch (h' ! k) = nmatch ((h @ [nd]) ! k)"
    using assms(2) k len by (auto simp: same_data_def)
  show "nvalue (h' ! k) = Some (val ((ds @ [e]) ! k))" "nid (h' ! k) = eid ((ds @ [e]) ! k)"
    using s k len assms(1,3,4) by (auto simp: nth_append linkedData_def)
  fix j
  show "nmatch (h' ! k) = Some j \<longleftrightarrow> kind ((ds @ [e]) ! k) = callEntry \<and> j < k \<and>
      kind ((ds @ [e]) ! j) = returnEntry \<and> eid ((ds @ [e]) ! j) = eid ((ds @ [e]) ! k)"
  proof (cases "k < length ds")
    case True
    then show ?thesis using s(3) len assms(1) by (auto simp: nth_append linkedData_def)
  next
    case False
    then have "k = length ds" using k by simp
    then show ?thesis using s(3) len assms(5) by (auto simp: nth_append)
  qed
qed

abbreviation returnIds :: "'v entry list \<Rightarrow> int list" where
  "returnIds r \<equiv> map eid (filter (\<lambda>e. kind e = returnEntry) r)"

lemma linkEntries_list:
  assumes "distinct (returnIds (ds @ es))" and "linkedData ds h" and "dll h (rev [0..<length ds])"
    and "root = first (rev [0..<length ds]) None"
    and "\<And>i j. m i = Some j \<longleftrightarrow> j < length ds \<and> kind (ds ! j) = returnEntry \<and> eid (ds ! j) = i"
  shows "\<exists>h'. linkEntries es root m h = Some (first (rev [0..<length (ds @ es)]) None, h') \<and>
    linkedData (ds @ es) h' \<and> dll h' (rev [0..<length (ds @ es)])"
  using assms
proof (induction es arbitrary: ds root m h)
  case Nil
  then show ?case by simp
next
  case (Cons e es)
  let ?nd = "\<lparr>nvalue = Some (val e), nmatch = (if kind e = returnEntry then None else m (eid e)), nid = eid e,
    nnext = None, nprev = None\<rparr>"
  let ?m = "if kind e = returnEntry then m(eid e \<mapsto> length ds) else m"
  have len: "length h = length ds" using Cons.prems(2) by (simp add: linkedData_def)
  obtain h' where h': "insertBefore (length h) root (h @ [?nd]) = Some h'" "dll h' (length ds # rev [0..<length ds])"
      "same_data h' (h @ [?nd])"
    using insertBefore_front [of h "rev [0..<length ds]" ?nd] Cons.prems(3,4) len by auto
  have link: "linkEntries (e # es) root m h = linkEntries es (Some (length ds)) ?m h'"
    using h'(1) len by (simp add: Let_def split: if_splits)
  have data: "linkedData (ds @ [e]) h'"
    using linkedData_snoc [OF Cons.prems(2) h'(3)] Cons.prems(5) by (cases "kind e") auto
  have new: "eid (ds ! j) \<noteq> eid e" if "kind e = returnEntry" "j < length ds" "kind (ds ! j) = returnEntry" for j
  proof -
    have "eid (ds ! j) \<in> set (returnIds ds)" using that nth_mem [OF that(2)] by simp
    then show ?thesis using Cons.prems(1) that(1) by auto
  qed
  have "?m i = Some j \<longleftrightarrow> j < length (ds @ [e]) \<and> kind ((ds @ [e]) ! j) = returnEntry \<and> eid ((ds @ [e]) ! j) = i" for i j
    using Cons.prems(5) [of i j] new by (cases "kind e") (auto simp: nth_append less_Suc_eq)
  then show ?case using Cons.IH [of "ds @ [e]" h' "Some (length ds)" ?m] Cons.prems(1) data h'(2) link by simp
qed

lemma makeLinkedEntries_list:
  assumes "distinct (returnIds es)"
  shows "\<exists>h. makeLinkedEntries es = Some (first (rev [0..<length es]) None, h) \<and>
    linkedData (rev es) h \<and> dll h (rev [0..<length es])"
proof -
  have "distinct (returnIds (rev es))" using assms by (simp add: rev_filter [symmetric] rev_map [symmetric])
  then show ?thesis
    using linkEntries_list [of "[]" "rev es" "[]" None Map.empty]
    by (simp add: makeLinkedEntries_def linkedData_def dll_def)
qed

end
