(* ===== verification/CheckerSearch.thy ===== *)
theory CheckerSearch
  imports Checker
begin

text \<open>
  The search of the linearizability checker without its pointers, its bit sets and its hash
  table: a depth first search with a memory of the configurations it has met. Operations are
  pairs of a call and a return in a list of events; a configuration is the set of operations
  linearized so far and the state of the object.

  The locale \<open>good_hist\<close> states what the search needs of a history and of the model's
  equality. Within it the search is shown to end, and to succeed exactly when the history can be
  linearized. Theory \<open>CheckerCorrect\<close> interprets it on the list that \<open>makeLinkedEntries\<close> builds
  and shows that \<open>checkSingle\<close> follows this search step by step.
\<close>

section \<open>Histories\<close>

text \<open>
  Events are numbers, in the order of \<open>hL\<close>; \<open>hmt\<close> gives the return that belongs to a call,
  \<open>hoid\<close> the number of the operation, \<open>hstp\<close> the model's step for the operation of a call.
\<close>

record 'st hist =
  hL :: "nat list"
  hmt :: "nat \<Rightarrow> nat option"
  hoid :: "nat \<Rightarrow> nat"
  hstp :: "'st \<Rightarrow> nat \<Rightarrow> bool \<times> 'st"

definition remaining :: "'st hist \<Rightarrow> nat set \<Rightarrow> nat list" where
  "remaining H S = filter (\<lambda>x. hoid H x \<notin> S) (hL H)"

text \<open>
  The operations that are left can be linearized: one whose call comes before every return
  that is left goes first.
\<close>

inductive linz :: "'st hist \<Rightarrow> 'st \<Rightarrow> nat set \<Rightarrow> bool" for H where
  linz_done: "remaining H S = [] \<Longrightarrow> linz H st S"
| linz_move: "remaining H S = pre @ a # suf \<Longrightarrow> \<forall>c \<in> set pre. hmt H c \<noteq> None \<Longrightarrow> hmt H a \<noteq> None \<Longrightarrow>
    hstp H st a = (True, t) \<Longrightarrow> linz H t (insert (hoid H a) S) \<Longrightarrow> linz H st S"

inductive_cases linzE: "linz H st S"

text \<open>The same with the order made explicit.\<close>

fun linzBy :: "'st hist \<Rightarrow> 'st \<Rightarrow> nat set \<Rightarrow> nat list \<Rightarrow> bool" where
  "linzBy H st S [] \<longleftrightarrow> remaining H S = []"
| "linzBy H st S (a # as) \<longleftrightarrow>
     (\<exists>pre suf. remaining H S = pre @ a # suf \<and> (\<forall>c \<in> set pre. hmt H c \<noteq> None)) \<and> hmt H a \<noteq> None \<and>
     (\<exists>t. hstp H st a = (True, t) \<and> linzBy H t (insert (hoid H a) S) as)"

lemma linzBy_linz: "linzBy H st S as \<Longrightarrow> linz H st S"
proof (induction as arbitrary: st S)
  case Nil
  then show ?case by (simp add: linz_done)
next
  case (Cons a as)
  then show ?case by (auto intro: linz_move)
qed

lemma linz_linzBy: "linz H st S \<Longrightarrow> \<exists>as. linzBy H st S as"
proof (induction rule: linz.induct)
  case (linz_done S st)
  then show ?case by (metis linzBy.simps(1))
next
  case (linz_move S pre a suf st t)
  then obtain as where "linzBy H t (insert (hoid H a) S) as" by blast
  then have "linzBy H st S (a # as)" using linz_move by auto
  then show ?case by blast
qed

text \<open>The model's steps along an order of calls.\<close>

fun runBy :: "'st hist \<Rightarrow> 'st \<Rightarrow> nat list \<Rightarrow> bool" where
  "runBy H st [] \<longleftrightarrow> True"
| "runBy H st (a # as) \<longleftrightarrow> (\<exists>t. hstp H st a = (True, t) \<and> runBy H t as)"

definition callsLeft :: "'st hist \<Rightarrow> nat set \<Rightarrow> nat set" where
  "callsLeft H S = {a \<in> set (remaining H S). hmt H a \<noteq> None}"

section \<open>The search\<close>

record 'st asearch =
  apre :: "nat list"
  asuf :: "nat list"
  acur :: 'st
  acalls :: "(nat \<times> 'st) list"
  acache :: "(nat set \<times> 'st) set"

definition opIds :: "'st hist \<Rightarrow> (nat \<times> 'st) list \<Rightarrow> nat set" where
  "opIds H cs = hoid H ` fst ` set cs"

definition aseen :: "('st \<Rightarrow> 'st \<Rightarrow> bool) \<Rightarrow> (nat set \<times> 'st) set \<Rightarrow> nat set \<Rightarrow> 'st \<Rightarrow> bool" where
  "aseen eq C S t \<longleftrightarrow> (\<exists>t'. (S, t') \<in> C \<and> eq t t')"

abbreviation aS :: "'st hist \<Rightarrow> 'st asearch \<Rightarrow> nat set" where
  "aS H s \<equiv> opIds H (acalls s)"

definition askip :: "'st asearch \<Rightarrow> 'st asearch" where
  "askip s = s\<lparr>apre := apre s @ [hd (asuf s)], asuf := tl (asuf s)\<rparr>"

definition apush :: "'st hist \<Rightarrow> nat \<Rightarrow> 'st \<Rightarrow> 'st asearch \<Rightarrow> 'st asearch" where
  "apush H a t s =
     (let S = insert (hoid H a) (aS H s)
      in s\<lparr>apre := [], asuf := remaining H S, acur := t, acalls := acalls s @ [(a, acur s)],
           acache := insert (S, t) (acache s)\<rparr>)"

definition apop :: "'st hist \<Rightarrow> 'st asearch \<Rightarrow> 'st asearch" where
  "apop H s =
     (let (a, st) = last (acalls s);
          rem = remaining H (opIds H (butlast (acalls s)))
      in s\<lparr>apre := takeWhile (\<lambda>x. x \<noteq> a) rem @ [a], asuf := tl (dropWhile (\<lambda>x. x \<noteq> a) rem),
           acur := st, acalls := butlast (acalls s)\<rparr>)"

text \<open>One round; \<open>None\<close> is the answer no.\<close>

definition around :: "'st hist \<Rightarrow> ('st \<Rightarrow> 'st \<Rightarrow> bool) \<Rightarrow> 'st asearch \<Rightarrow> 'st asearch option" where
  "around H eq s =
     (let a = hd (asuf s)
      in if hmt H a \<noteq> None then
           (case hstp H (acur s) a of
              (ok, t) \<Rightarrow>
                if ok \<and> \<not> aseen eq (acache s) (insert (hoid H a) (aS H s)) t
                then Some (apush H a t s) else Some (askip s))
         else if acalls s = [] then None
         else Some (apop H s))"

definition astart :: "'st hist \<Rightarrow> 'st \<Rightarrow> 'st asearch" where
  "astart H ini = \<lparr>apre = [], asuf = hL H, acur = ini, acalls = [], acache = {}\<rparr>"

section \<open>The invariant\<close>

text \<open>The state after the first \<open>j\<close> calls of the stack.\<close>

definition stateAt :: "(nat \<times> 'st) list \<Rightarrow> 'st \<Rightarrow> nat \<Rightarrow> 'st" where
  "stateAt cs st j = (if j < length cs then snd (cs ! j) else st)"

text \<open>Candidate \<open>c\<close> was tried in configuration \<open>(S, st)\<close>.\<close>

definition tried ::
    "'st hist \<Rightarrow> ('st \<Rightarrow> 'st \<Rightarrow> bool) \<Rightarrow> (nat set \<times> 'st) set \<Rightarrow> nat set \<Rightarrow> 'st \<Rightarrow> nat \<Rightarrow> bool" where
  "tried H eq C S st c \<longleftrightarrow>
     (\<forall>t. hstp H st c = (True, t) \<longrightarrow>
        (\<exists>t'. (insert (hoid H c) S, t') \<in> C \<and> (t' = t \<or> eq t t')))"

text \<open>Level \<open>j\<close> of the stack: a legal move, taken after everything before it was tried.\<close>

definition level_ok ::
    "'st hist \<Rightarrow> ('st \<Rightarrow> 'st \<Rightarrow> bool) \<Rightarrow> (nat set \<times> 'st) set \<Rightarrow> (nat \<times> 'st) list \<Rightarrow> 'st \<Rightarrow> nat \<Rightarrow> bool" where
  "level_ok H eq C cs st j \<longleftrightarrow>
     (let S = opIds H (take j cs); a = fst (cs ! j)
      in hstp H (snd (cs ! j)) a = (True, stateAt cs st (Suc j)) \<and> hmt H a \<noteq> None \<and>
         (\<exists>pre suf. remaining H S = pre @ a # suf \<and>
            (\<forall>c \<in> set pre. hmt H c \<noteq> None \<and> tried H eq C S (snd (cs ! j)) c) \<and>
            tried H eq C S (snd (cs ! j)) a))"

definition ainv :: "'st hist \<Rightarrow> ('st \<Rightarrow> 'st \<Rightarrow> bool) \<Rightarrow> 'st \<Rightarrow> 'st asearch \<Rightarrow> bool" where
  "ainv H eq ini s \<longleftrightarrow>
     remaining H (aS H s) = apre s @ asuf s \<and> stateAt (acalls s) (acur s) 0 = ini \<and>
     (\<forall>c \<in> set (apre s). hmt H c \<noteq> None \<and> tried H eq (acache s) (aS H s) (acur s) c) \<and>
     (\<forall>j < length (acalls s). level_ok H eq (acache s) (acalls s) (acur s) j) \<and>
     (\<forall>(S, t) \<in> acache s. \<not> linz H t S \<or>
        (\<exists>j \<le> length (acalls s). S = opIds H (take j (acalls s)) \<and> t = stateAt (acalls s) (acur s) j))"

section \<open>The measure\<close>

text \<open>
  The search enumerates paths: a path is the word of the positions of its calls in the lists they
  were taken from, the last digit that of the next event. In base \<open>2 * length (hL H) + 2\<close> each
  round makes the word larger.
\<close>

fun wval :: "nat \<Rightarrow> nat \<Rightarrow> nat list \<Rightarrow> nat" where
  "wval B m [] = 0"
| "wval B m (d # ds) = d * B ^ m + wval B (m - 1) ds"

definition posAt :: "'st hist \<Rightarrow> (nat \<times> 'st) list \<Rightarrow> nat \<Rightarrow> nat" where
  "posAt H cs j = length (takeWhile (\<lambda>x. x \<noteq> fst (cs ! j)) (remaining H (opIds H (take j cs))))"

definition apath :: "'st hist \<Rightarrow> 'st asearch \<Rightarrow> nat list" where
  "apath H s = map (\<lambda>j. 2 * posAt H (acalls s) j + 1) [0..<length (acalls s)] @ [2 * length (apre s)]"

definition abase :: "'st hist \<Rightarrow> nat" where
  "abase H = 2 * length (hL H) + 2"

definition ameasure :: "'st hist \<Rightarrow> 'st asearch \<Rightarrow> nat" where
  "ameasure H s = abase H ^ Suc (length (hL H)) - wval (abase H) (length (hL H)) (apath H s)"

lemma wval_append: "wval B m (xs @ ys) = wval B m xs + wval B (m - length xs) ys"
  by (induction xs arbitrary: m) simp_all

lemma wval_bound: "0 < B \<Longrightarrow> \<forall>d \<in> set ds. d < B \<Longrightarrow> length ds \<le> Suc m \<Longrightarrow> wval B m ds < B ^ Suc m"
proof (induction ds arbitrary: m)
  case Nil
  then show ?case by simp
next
  case (Cons d ds)
  have "wval B (m - 1) ds < B ^ m"
  proof (cases m)
    case 0
    then show ?thesis using Cons.prems by simp
  next
    case (Suc k)
    then show ?thesis using Cons.IH [of k] Cons.prems by simp
  qed
  moreover have "Suc d * B ^ m \<le> B * B ^ m" using Cons.prems by (intro mult_right_mono) auto
  ultimately show ?case by simp
qed

section \<open>Correctness\<close>

locale good_hist =
  fixes H :: "'st hist" and eq :: "'st \<Rightarrow> 'st \<Rightarrow> bool"
  assumes dist: "distinct (hL H)"
    and mt_after: "a \<in> set (hL H) \<Longrightarrow> hmt H a = Some b \<Longrightarrow> \<exists>pre mid post. hL H = pre @ a # mid @ b # post"
    and mt_ret: "a \<in> set (hL H) \<Longrightarrow> hmt H a = Some b \<Longrightarrow> hmt H b = None"
    and ret_call: "b \<in> set (hL H) \<Longrightarrow> hmt H b = None \<Longrightarrow> \<exists>a \<in> set (hL H). hmt H a = Some b"
    and oid_match: "a \<in> set (hL H) \<Longrightarrow> hmt H a = Some b \<Longrightarrow> hoid H b = hoid H a"
    and oid_inj: "a \<in> set (hL H) \<Longrightarrow> a' \<in> set (hL H) \<Longrightarrow> hmt H a \<noteq> None \<Longrightarrow> hmt H a' \<noteq> None \<Longrightarrow>
          hoid H a = hoid H a' \<Longrightarrow> a = a'"
    and eq_step: "a \<in> set (hL H) \<Longrightarrow> eq s s' \<Longrightarrow> hstp H s a = (True, t) \<Longrightarrow> \<exists>t'. hstp H s' a = (True, t') \<and> eq t t'"
begin

lemma remaining_subset: "set (remaining H S) \<subseteq> set (hL H)"
  by (auto simp: remaining_def)

lemma remaining_distinct: "distinct (remaining H S)"
  using dist by (simp add: remaining_def)

text \<open>The events of an operation are its call and its return.\<close>

lemma same_op:
  assumes "a \<in> set (hL H)" "hmt H a = Some b" "x \<in> set (hL H)"
  shows "hoid H x = hoid H a \<longleftrightarrow> x = a \<or> x = b"
proof
  assume x: "hoid H x = hoid H a"
  show "x = a \<or> x = b"
  proof (cases "hmt H x")
    case None
    then obtain a' where a': "a' \<in> set (hL H)" "hmt H a' = Some x" using ret_call assms(3) by blast
    then have "hoid H a' = hoid H a" using oid_match x by metis
    then have "a' = a" using oid_inj assms(1,2) a' by (metis option.distinct(1))
    then show ?thesis using a' assms(2) by simp
  next
    case (Some y)
    then show ?thesis using oid_inj assms x by (metis option.distinct(1))
  qed
qed (use oid_match assms in auto)

text \<open>Linearizing an operation removes its two events, the return behind the call.\<close>

lemma remaining_insert:
  assumes "remaining H S = pre @ a # suf" and "hmt H a = Some b"
  shows "\<exists>mid post. suf = mid @ b # post \<and> remaining H (insert (hoid H a) S) = pre @ mid @ post"
proof -
  have "a \<in> set (remaining H S)" by (simp add: assms(1))
  then have a: "a \<in> set (hL H)" "hoid H a \<notin> S" by (auto simp: remaining_def)
  obtain p m q where L: "hL H = p @ a # m @ b # q" using mt_after a(1) assms(2) by blast
  have "hoid H b = hoid H a" using oid_match a(1) assms(2) by blast
  with L a have r: "remaining H S = filter (\<lambda>x. hoid H x \<notin> S) p @ a # filter (\<lambda>x. hoid H x \<notin> S) m @ b # filter (\<lambda>x. hoid H x \<notin> S) q"
    by (simp add: remaining_def)
  have "a \<notin> set (filter (\<lambda>x. hoid H x \<notin> S) p)" using L dist by auto
  moreover have "a \<notin> set pre" using remaining_distinct [of S] by (simp add: assms(1))
  ultimately have pre: "pre = filter (\<lambda>x. hoid H x \<notin> S) p" and
    suf: "suf = filter (\<lambda>x. hoid H x \<notin> S) m @ b # filter (\<lambda>x. hoid H x \<notin> S) q"
    using r assms(1) split_at_unique by metis+
  have other: "filter (\<lambda>x. hoid H x \<noteq> hoid H a \<and> hoid H x \<notin> S) xs = filter (\<lambda>x. hoid H x \<notin> S) xs"
    if "set xs \<subseteq> set (hL H)" "a \<notin> set xs" "b \<notin> set xs" for xs
    using same_op [OF a(1) assms(2)] that by (auto intro!: filter_cong)
  have "filter (\<lambda>x. hoid H x \<noteq> hoid H a \<and> hoid H x \<notin> S) (hL H) =
      filter (\<lambda>x. hoid H x \<notin> S) p @ filter (\<lambda>x. hoid H x \<notin> S) m @ filter (\<lambda>x. hoid H x \<notin> S) q"
    using dist \<open>hoid H b = hoid H a\<close> other [of p] other [of m] other [of q] by (simp add: L subset_iff)
  then have "remaining H (insert (hoid H a) S) = pre @ filter (\<lambda>x. hoid H x \<notin> S) m @ filter (\<lambda>x. hoid H x \<notin> S) q"
    by (simp add: remaining_def pre)
  with suf show ?thesis by blast
qed

lemma linz_eq: "linz H s S \<Longrightarrow> eq s s' \<Longrightarrow> linz H s' S"
proof (induction arbitrary: s' rule: linz.induct)
  case (linz_done S st)
  then show ?case by (auto intro: linz.linz_done)
next
  case (linz_move S pre a suf st t)
  have "a \<in> set (remaining H S)" using linz_move by simp
  then have "a \<in> set (hL H)" using remaining_subset by blast
  then obtain t' where "hstp H s' a = (True, t')" "eq t t'" using eq_step linz_move by blast
  with linz_move show ?case by (auto intro: linz.linz_move)
qed

text \<open>A candidate's configuration is larger than every configuration of the stack.\<close>

lemma ainv_opIds:
  assumes "ainv H eq ini s"
  shows "k \<le> length (acalls s) \<Longrightarrow> card (opIds H (take k (acalls s))) = k \<and>
    fst ` set (take k (acalls s)) \<subseteq> set (hL H)"
proof (induction k)
  case 0
  then show ?case by (simp add: opIds_def)
next
  case (Suc k)
  let ?a = "fst (acalls s ! k)"
  have k: "k < length (acalls s)" using Suc.prems by simp
  then have "level_ok H eq (acache s) (acalls s) (acur s) k" using assms by (simp add: ainv_def)
  then obtain pre suf where "remaining H (opIds H (take k (acalls s))) = pre @ ?a # suf"
    by (auto simp: level_ok_def Let_def)
  then have "?a \<in> set (remaining H (opIds H (take k (acalls s))))" by simp
  then have a: "?a \<in> set (hL H)" "hoid H ?a \<notin> opIds H (take k (acalls s))" by (auto simp: remaining_def)
  have e: "opIds H (take (Suc k) (acalls s)) = insert (hoid H ?a) (opIds H (take k (acalls s)))"
    using k by (simp add: opIds_def take_Suc_conv_app_nth)
  have "finite (opIds H (take k (acalls s)))" by (simp add: opIds_def)
  then have "card (opIds H (take (Suc k) (acalls s))) = Suc k" using Suc a k by (simp add: e)
  then show ?case using Suc a k by (simp add: take_Suc_conv_app_nth)
qed

text \<open>When everything before the first return has been tried, the configuration is dead.\<close>

lemma exhausted_dead:
  assumes inv: "ainv H eq ini s" and ret: "asuf s = b # suf" "hmt H b = None"
  shows "\<not> linz H (acur s) (aS H s)"
proof
  assume "linz H (acur s) (aS H s)"
  then show False
  proof (cases rule: linz.cases)
    case linz_done
    then show ?thesis using inv ret by (simp add: ainv_def)
  next
    case 2: (linz_move pre a suf' t)
    have r: "pre @ a # suf' = apre s @ b # suf" using 2(1) inv ret(1) by (simp add: ainv_def)
    have "a \<in> set (apre s)"
      using split_order [OF r] 2(2,3) ret(2) by auto
    then have "tried H eq (acache s) (aS H s) (acur s) a" using inv by (simp add: ainv_def)
    then obtain t' where t': "(insert (hoid H a) (aS H s), t') \<in> acache s" "t' = t \<or> eq t t'"
      using 2(4) by (auto simp: tried_def)
    have "linz H t' (insert (hoid H a) (aS H s))" using t'(2) 2(5) linz_eq by blast
    moreover have "\<forall>(S, t) \<in> acache s. \<not> linz H t S \<or>
        (\<exists>j \<le> length (acalls s). S = opIds H (take j (acalls s)) \<and> t = stateAt (acalls s) (acur s) j)"
      using inv by (simp add: ainv_def)
    ultimately obtain j where j: "j \<le> length (acalls s)" "insert (hoid H a) (aS H s) = opIds H (take j (acalls s))"
      using t'(1) by blast
    have "a \<in> set (remaining H (aS H s))" using 2(1) by simp
    then have "hoid H a \<notin> aS H s" by (simp add: remaining_def)
    then have "card (insert (hoid H a) (aS H s)) = Suc (length (acalls s))"
      using ainv_opIds [OF inv order_refl] by (simp add: opIds_def)
    then show ?thesis using j ainv_opIds [OF inv j(1)] by simp
  qed
qed

text \<open>The list that is left ends with a return, so a search that has not succeeded has a next event.\<close>

lemma next_event:
  assumes "ainv H eq ini s" and "remaining H (aS H s) \<noteq> []"
  shows "asuf s \<noteq> []"
proof
  assume e: "asuf s = []"
  with assms have r: "remaining H (aS H s) = apre s" and c: "\<forall>c \<in> set (apre s). hmt H c \<noteq> None"
    by (auto simp: ainv_def)
  then have l: "remaining H (aS H s) = butlast (apre s) @ [last (apre s)]" using assms(2) by simp
  obtain b where "hmt H (last (apre s)) = Some b" using c r assms(2) by fastforce
  from remaining_insert [OF l this] show False by simp
qed

lemma tried_mono: "tried H eq C S st c \<Longrightarrow> C \<subseteq> C' \<Longrightarrow> tried H eq C' S st c"
  unfolding tried_def by blast

lemma level_ok_mono: "level_ok H eq C cs st j \<Longrightarrow> C \<subseteq> C' \<Longrightarrow> level_ok H eq C' cs st j"
  unfolding level_ok_def Let_def using tried_mono by blast

text \<open>Lower levels do not see the top of the stack.\<close>

lemma stateAt_snoc: "j \<le> length cs \<Longrightarrow> stateAt (cs @ [(a, st)]) t j = stateAt cs st j"
  by (auto simp: stateAt_def nth_append)

lemma level_ok_snoc:
  "j < length cs \<Longrightarrow> level_ok H eq C (cs @ [(a, st)]) t j \<longleftrightarrow> level_ok H eq C cs st j"
  by (simp add: level_ok_def nth_append stateAt_snoc Let_def)

lemma opIds_snoc: "opIds H (cs @ [(a, st)]) = insert (hoid H a) (opIds H cs)"
  by (simp add: opIds_def)

lemma askip_inv:
  assumes "ainv H eq ini s" and "asuf s = a # suf" and "hmt H a \<noteq> None"
    and "tried H eq (acache s) (aS H s) (acur s) a"
  shows "ainv H eq ini (askip s)"
  using assms by (auto simp: ainv_def askip_def)

lemma apush_inv:
  assumes inv: "ainv H eq ini s" and suf: "asuf s = a # suf" and mt: "hmt H a \<noteq> None"
    and step: "hstp H (acur s) a = (True, t)"
  shows "ainv H eq ini (apush H a t s)"
proof -
  let ?cs = "acalls s @ [(a, acur s)]" and ?S = "insert (hoid H a) (aS H s)"
  let ?C = "insert (?S, t) (acache s)"
  have r: "remaining H (aS H s) = apre s @ a # suf" and p: "\<forall>c \<in> set (apre s). hmt H c \<noteq> None \<and> tried H eq ?C (aS H s) (acur s) c"
    using inv suf by (auto simp: ainv_def intro: tried_mono)
  have new: "tried H eq ?C (aS H s) (acur s) a" using step by (auto simp: tried_def)
  have levels: "level_ok H eq ?C ?cs t j" if "j < length ?cs" for j
  proof (cases "j < length (acalls s)")
    case True
    then show ?thesis using inv by (auto simp: level_ok_snoc ainv_def intro: level_ok_mono)
  next
    case False
    with that have j: "j = length (acalls s)" by simp
    show ?thesis unfolding level_ok_def Let_def using r p new mt step by (auto simp: j stateAt_def)
  qed
  have cached: "\<not> linz H t' S \<or> (\<exists>j \<le> length ?cs. S = opIds H (take j ?cs) \<and> t' = stateAt ?cs t j)"
    if "(S, t') \<in> ?C" for S t'
  proof (cases "(S, t') \<in> acache s")
    case True
    moreover have "\<forall>(S, t) \<in> acache s. \<not> linz H t S \<or>
        (\<exists>j \<le> length (acalls s). S = opIds H (take j (acalls s)) \<and> t = stateAt (acalls s) (acur s) j)"
      using inv by (simp add: ainv_def)
    ultimately have "\<not> linz H t' S \<or>
        (\<exists>j \<le> length (acalls s). S = opIds H (take j (acalls s)) \<and> t' = stateAt (acalls s) (acur s) j)"
      by blast
    then show ?thesis by (metis stateAt_snoc le_SucI length_append_singleton butlast_snoc take_butlast take_append diff_is_0_eq take0 append_Nil2)
  next
    case False
    with that have "S = opIds H (take (length ?cs) ?cs)" "t' = stateAt ?cs t (length ?cs)"
      by (auto simp: opIds_snoc stateAt_def)
    then show ?thesis by blast
  qed
  have "stateAt ?cs t 0 = ini" using inv by (simp add: stateAt_snoc ainv_def)
  then show ?thesis using levels cached
    by (auto simp: ainv_def apush_def Let_def opIds_snoc)
qed

lemma apop_inv:
  assumes inv: "ainv H eq ini s" and suf: "asuf s = b # suf" and mt: "hmt H b = None"
    and cs: "acalls s = cs @ [(a, st)]"
  shows "ainv H eq ini (apop H s)"
proof -
  have "level_ok H eq (acache s) (acalls s) (acur s) (length cs)" using inv by (simp add: ainv_def cs)
  then obtain pre post where r: "remaining H (opIds H cs) = pre @ a # post" and mta: "hmt H a \<noteq> None"
    and p: "\<forall>c \<in> set pre. hmt H c \<noteq> None \<and> tried H eq (acache s) (opIds H cs) st c"
    and ta: "tried H eq (acache s) (opIds H cs) st a"
    by (auto simp: level_ok_def cs Let_def)
  have "a \<notin> set pre" using remaining_distinct [of "opIds H cs"] by (simp add: r)
  then have tw: "takeWhile (\<lambda>x. x \<noteq> a) (pre @ a # post) = pre" "dropWhile (\<lambda>x. x \<noteq> a) (pre @ a # post) = a # post"
    by (auto simp: takeWhile_append dropWhile_append)
  have cached: "\<not> linz H t S \<or> (\<exists>j \<le> length cs. S = opIds H (take j cs) \<and> t = stateAt cs st j)"
    if "(S, t) \<in> acache s" for S t
  proof (cases "linz H t S")
    case True
    moreover have "\<forall>(S, t) \<in> acache s. \<not> linz H t S \<or>
        (\<exists>j \<le> length (acalls s). S = opIds H (take j (acalls s)) \<and> t = stateAt (acalls s) (acur s) j)"
      using inv by (simp add: ainv_def)
    ultimately obtain j where j: "j \<le> length (acalls s)" "S = opIds H (take j (acalls s))"
        "t = stateAt (acalls s) (acur s) j"
      using \<open>(S, t) \<in> acache s\<close> by blast
    have "j \<noteq> length (acalls s)"
      using j True exhausted_dead [OF inv suf mt] by (auto simp: stateAt_def)
    then have "j \<le> length cs" using j(1) by (simp add: cs)
    then show ?thesis using j by (auto simp: cs stateAt_snoc)
  qed simp
  have "stateAt cs st 0 = ini" using inv by (simp add: stateAt_snoc ainv_def cs)
  moreover have "\<forall>j < length cs. level_ok H eq (acache s) cs st j"
    using inv unfolding ainv_def cs by (metis level_ok_snoc length_append_singleton less_SucI)
  ultimately show ?thesis using cached r p mta ta
    by (auto simp: ainv_def apop_def cs tw Let_def)
qed

lemma around_inv:
  assumes inv: "ainv H eq ini s" and ne: "remaining H (aS H s) \<noteq> []" and "around H eq s = Some s'"
  shows "ainv H eq ini s'"
proof -
  obtain a suf where suf: "asuf s = a # suf" using next_event [OF inv ne] by (cases "asuf s") auto
  obtain ok t where st: "hstp H (acur s) a = (ok, t)" by (cases "hstp H (acur s) a")
  show ?thesis
  proof (cases "hmt H a")
    case None
    then have "acalls s \<noteq> []" "s' = apop H s" using assms(3) suf by (auto simp: around_def split: if_splits)
    moreover obtain cs b st where "acalls s = cs @ [(b, st)]"
      using \<open>acalls s \<noteq> []\<close> by (cases "acalls s" rule: rev_cases) auto
    ultimately show ?thesis using apop_inv [OF inv suf None] by simp
  next
    case (Some b)
    show ?thesis
    proof (cases "ok \<and> \<not> aseen eq (acache s) (insert (hoid H a) (aS H s)) t")
      case True
      then have "s' = apush H a t s" using assms(3) suf st Some by (simp add: around_def)
      then show ?thesis using apush_inv [OF inv suf] True st Some by simp
    next
      case False
      then have "s' = askip s" using assms(3) suf st Some by (auto simp: around_def)
      moreover have "tried H eq (acache s) (aS H s) (acur s) a"
        using False st by (auto simp: tried_def aseen_def)
      ultimately show ?thesis using askip_inv [OF inv suf] Some by simp
    qed
  qed
qed

lemma astart_inv: "ainv H eq ini (astart H ini)"
  by (simp add: ainv_def astart_def stateAt_def opIds_def remaining_def)

text \<open>The answer no: the whole history cannot be linearized.\<close>

lemma around_no:
  assumes inv: "ainv H eq ini s" and ne: "remaining H (aS H s) \<noteq> []" and "around H eq s = None"
  shows "\<not> linz H ini {}"
proof -
  obtain a suf where suf: "asuf s = a # suf" using next_event [OF inv ne] by (cases "asuf s") auto
  have "hmt H a = None" "acalls s = []"
    using assms(3) suf by (auto simp: around_def split: if_splits prod.splits)
  then show ?thesis using exhausted_dead [OF inv suf] inv by (simp add: ainv_def stateAt_def opIds_def)
qed

text \<open>The answer yes: the stack is a linearization.\<close>

lemma finished_linzBy:
  assumes inv: "ainv H eq ini s" and fin: "remaining H (aS H s) = []"
  shows "linzBy H ini {} (map fst (acalls s))"
proof -
  have "linzBy H (stateAt (acalls s) (acur s) j) (opIds H (take j (acalls s))) (map fst (drop j (acalls s)))"
    if "j \<le> length (acalls s)" for j
    using that
  proof (induction j rule: inc_induct)
    case base
    then show ?case using fin by simp
  next
    case (step j)
    let ?a = "fst (acalls s ! j)" and ?S = "opIds H (take j (acalls s))"
    have "level_ok H eq (acache s) (acalls s) (acur s) j" using inv step by (simp add: ainv_def)
    then obtain pre suf where "remaining H ?S = pre @ ?a # suf" "\<forall>c \<in> set pre. hmt H c \<noteq> None"
        "hmt H ?a \<noteq> None" "hstp H (snd (acalls s ! j)) ?a = (True, stateAt (acalls s) (acur s) (Suc j))"
      by (auto simp: level_ok_def Let_def)
    moreover have "opIds H (take (Suc j) (acalls s)) = insert (hoid H ?a) ?S"
      using step by (simp add: opIds_def take_Suc_conv_app_nth)
    moreover have "stateAt (acalls s) (acur s) j = snd (acalls s ! j)" using step by (simp add: stateAt_def)
    moreover have "drop j (acalls s) = (acalls s ! j) # drop (Suc j) (acalls s)"
      using step by (simp add: Cons_nth_drop_Suc)
    ultimately show ?case using step.IH by auto
  qed
  from this [of 0] show ?thesis using inv by (simp add: ainv_def opIds_def)
qed

text \<open>The search ends: every round lowers \<open>ameasure\<close>.\<close>

lemma remaining_length: "length (remaining H S) \<le> length (hL H)"
  by (simp add: remaining_def)

lemma ainv_stack:
  assumes "ainv H eq ini s"
  shows "length (acalls s) \<le> length (hL H)"
proof -
  have "opIds H (acalls s) \<subseteq> hoid H ` set (hL H)"
    using ainv_opIds [OF assms order_refl] by (auto simp: opIds_def)
  then have "card (opIds H (acalls s)) \<le> card (hoid H ` set (hL H))" by (intro card_mono) auto
  also have "\<dots> \<le> card (set (hL H))" by (rule card_image_le) simp
  also have "\<dots> \<le> length (hL H)" by (rule card_length)
  finally show ?thesis using ainv_opIds [OF assms order_refl] by simp
qed

lemma ainv_apre: "ainv H eq ini s \<Longrightarrow> length (apre s) \<le> length (hL H)"
  using remaining_length [of "aS H s"] by (simp add: ainv_def)

lemma apath_bound:
  assumes "ainv H eq ini s"
  shows "wval (abase H) (length (hL H)) (apath H s) < abase H ^ Suc (length (hL H))"
proof (rule wval_bound)
  have "posAt H (acalls s) j \<le> length (hL H)" for j
    using remaining_length length_takeWhile_le order_trans by (fastforce simp: posAt_def)
  then show "\<forall>d \<in> set (apath H s). d < abase H"
    using ainv_apre [OF assms] by (fastforce simp: apath_def abase_def le_imp_less_Suc)
qed (use ainv_stack [OF assms] in \<open>simp_all add: apath_def abase_def\<close>)

lemma posAt_snoc: "j < length cs \<Longrightarrow> posAt H (cs @ [(a, st)]) j = posAt H cs j"
  by (simp add: posAt_def nth_append)

lemma apath_askip:
  "wval (abase H) m (apath H s) < wval (abase H) m (apath H (askip s))"
  by (simp add: apath_def askip_def wval_append abase_def)

lemma apath_apush:
  assumes inv: "ainv H eq ini s" and suf: "asuf s = a # suf"
  shows "wval (abase H) m (apath H s) < wval (abase H) m (apath H (apush H a t s))"
proof -
  let ?cs = "acalls s" and ?w = "map (\<lambda>j. 2 * posAt H (acalls s) j + 1) [0..<length (acalls s)]"
  have r: "remaining H (aS H s) = apre s @ a # suf" using inv suf by (simp add: ainv_def)
  then have "a \<notin> set (apre s)" using remaining_distinct [of "aS H s"] by simp
  then have "posAt H (?cs @ [(a, acur s)]) (length ?cs) = length (apre s)"
    by (auto simp: posAt_def r takeWhile_append)
  moreover have "map (\<lambda>j. 2 * posAt H (?cs @ [(a, acur s)]) j + 1) [0..<length ?cs] = ?w"
    by (simp add: posAt_snoc)
  ultimately have "apath H (apush H a t s) = ?w @ [2 * length (apre s) + 1, 0]"
    by (simp add: apath_def apush_def Let_def)
  then show ?thesis
    unfolding apath_def [of H s] by (simp only: wval_append) (simp add: abase_def)
qed

lemma apath_apop:
  assumes inv: "ainv H eq ini s" and cs: "acalls s = cs @ [(a, st)]"
  shows "wval (abase H) (length (hL H)) (apath H s) < wval (abase H) (length (hL H)) (apath H (apop H s))"
proof -
  let ?m = "length (hL H) - length cs" and ?p = "posAt H (acalls s) (length cs)"
  let ?w = "map (\<lambda>j. 2 * posAt H cs j + 1) [0..<length cs]"
  have "length cs < length (hL H)" using ainv_stack [OF inv] by (simp add: cs)
  then obtain k where k: "?m = Suc k" by (metis Suc_diff_Suc)
  have "map (\<lambda>j. 2 * posAt H (acalls s) j + 1) [0..<length cs] = ?w" by (simp add: cs posAt_snoc)
  then have old: "apath H s = ?w @ [2 * ?p + 1, 2 * length (apre s)]" by (simp add: apath_def cs)
  have new: "apath H (apop H s) = ?w @ [2 * ?p + 2]"
    by (simp add: apath_def apop_def cs Let_def posAt_def)
  have "2 * length (apre s) < abase H" using ainv_apre [OF inv] by (simp add: abase_def)
  moreover have "0 < abase H ^ k" by (simp add: abase_def)
  ultimately have "2 * length (apre s) * abase H ^ k < abase H ^ Suc k" by simp
  then show ?thesis by (simp add: old new wval_append k algebra_simps)
qed

lemma around_measure:
  assumes inv: "ainv H eq ini s" and ne: "remaining H (aS H s) \<noteq> []" and "around H eq s = Some s'"
  shows "ameasure H s' < ameasure H s"
proof -
  obtain a suf where suf: "asuf s = a # suf" using next_event [OF inv ne] by (cases "asuf s") auto
  have "s' = askip s \<or> (\<exists>t. s' = apush H a t s) \<or> (s' = apop H s \<and> acalls s \<noteq> [])"
    using assms(3) suf by (auto simp: around_def split: if_splits prod.splits)
  then have "wval (abase H) (length (hL H)) (apath H s) < wval (abase H) (length (hL H)) (apath H s')"
    using apath_askip apath_apush [OF inv suf] apath_apop [OF inv] by (metis prod.exhaust rev_exhaust)
  then show ?thesis using apath_bound [OF inv] by (simp add: ameasure_def)
qed

text \<open>
  Events numbered against the order of the list, as addresses are: an order of the calls that
  are left is a linearization when no operation returned before one that is placed earlier was
  called, and the model accepts it.
\<close>

lemma mt_in: "a \<in> set (remaining H S) \<Longrightarrow> hmt H a = Some b \<Longrightarrow> b \<in> set (remaining H S)"
  using mt_after [of a b] oid_match [of a b] by (auto simp: remaining_def)

lemma ret_in: "b \<in> set (remaining H S) \<Longrightarrow> hmt H b = None \<Longrightarrow> \<exists>a \<in> set (remaining H S). hmt H a = Some b"
  using ret_call [of b] oid_match by (fastforce simp: remaining_def)

lemma callsLeft_empty: "callsLeft H S = {} \<longleftrightarrow> remaining H S = []"
proof
  assume c: "callsLeft H S = {}"
  have "x \<notin> set (remaining H S)" for x
    using c ret_in [of x S] by (cases "hmt H x") (auto simp: callsLeft_def)
  then show "remaining H S = []" by (metis last_in_set)
qed (simp add: callsLeft_def)

lemma callsLeft_insert:
  assumes "a \<in> callsLeft H S"
  shows "callsLeft H (insert (hoid H a) S) = callsLeft H S - {a}"
  using assms by (auto simp: callsLeft_def remaining_def dest: oid_inj [of _ a])

lemma candidate_iff:
  assumes decr: "sorted_wrt (>) (hL H)" and a: "hmt H a \<noteq> None"
  shows "(\<exists>pre suf. remaining H S = pre @ a # suf \<and> (\<forall>c \<in> set pre. hmt H c \<noteq> None)) \<longleftrightarrow>
    a \<in> callsLeft H S \<and> (\<forall>a' \<in> callsLeft H S - {a}. \<forall>b. hmt H a' = Some b \<longrightarrow> b < a)"
proof -
  have sw: "sorted_wrt (>) (remaining H S)" using decr by (simp add: remaining_def sorted_wrt_filter)
  show ?thesis
  proof
    assume "\<exists>pre suf. remaining H S = pre @ a # suf \<and> (\<forall>c \<in> set pre. hmt H c \<noteq> None)"
    then obtain pre suf where r: "remaining H S = pre @ a # suf" and p: "\<forall>c \<in> set pre. hmt H c \<noteq> None" by blast
    have "b < a" if "a' \<in> callsLeft H S" "hmt H a' = Some b" for a' b
    proof -
      have b: "b \<in> set (pre @ a # suf)" using mt_in [of a' S b] that r by (auto simp: callsLeft_def)
      moreover have "hmt H b = None" using mt_ret [of a' b] that remaining_subset [of S] by (auto simp: callsLeft_def)
      ultimately have "b \<in> set suf" using p a by auto
      then show ?thesis using sw r by (simp add: sorted_wrt_append)
    qed
    then show "a \<in> callsLeft H S \<and> (\<forall>a' \<in> callsLeft H S - {a}. \<forall>b. hmt H a' = Some b \<longrightarrow> b < a)"
      using r a by (auto simp: callsLeft_def)
  next
    assume c: "a \<in> callsLeft H S \<and> (\<forall>a' \<in> callsLeft H S - {a}. \<forall>b. hmt H a' = Some b \<longrightarrow> b < a)"
    then have "a \<in> set (remaining H S)" by (simp add: callsLeft_def)
    then obtain pre suf where r: "remaining H S = pre @ a # suf" by (metis split_list)
    have "hmt H x \<noteq> None" if "x \<in> set pre" for x
    proof
      assume "hmt H x = None"
      moreover have "x \<in> set (remaining H S)" using that r by simp
      ultimately obtain a' where a': "a' \<in> set (remaining H S)" "hmt H a' = Some x" using ret_in by blast
      have x: "a < x" using sw r that by (simp add: sorted_wrt_append)
      then have "a' = a" using c a' by (fastforce simp: callsLeft_def)
      then obtain mid post where "suf = mid @ x # post" using remaining_insert [OF r] a'(2) by blast
      then show False using x sw r by (simp add: sorted_wrt_append)
    qed
    then show "\<exists>pre suf. remaining H S = pre @ a # suf \<and> (\<forall>c \<in> set pre. hmt H c \<noteq> None)" using r by blast
  qed
qed

lemma linzBy_order:
  assumes "sorted_wrt (>) (hL H)"
  shows "linzBy H st S as \<longleftrightarrow> distinct as \<and> set as = callsLeft H S \<and>
    sorted_wrt (\<lambda>a a'. \<forall>b. hmt H a' = Some b \<longrightarrow> b < a) as \<and> runBy H st as"
proof (induction as arbitrary: st S)
  case Nil
  then show ?case using callsLeft_empty by auto
next
  case (Cons a as)
  show ?case
  proof (cases "a \<in> callsLeft H S")
    case True
    then have "hmt H a \<noteq> None" by (simp add: callsLeft_def)
    note c = candidate_iff [OF assms this, of S]
    have "linzBy H st S (a # as) \<longleftrightarrow> (\<forall>a' \<in> callsLeft H S - {a}. \<forall>b. hmt H a' = Some b \<longrightarrow> b < a) \<and>
        (\<exists>t. hstp H st a = (True, t) \<and> distinct as \<and> set as = callsLeft H S - {a} \<and>
          sorted_wrt (\<lambda>a a'. \<forall>b. hmt H a' = Some b \<longrightarrow> b < a) as \<and> runBy H t as)"
      using True \<open>hmt H a \<noteq> None\<close> by (simp only: linzBy.simps c Cons.IH callsLeft_insert [OF True]) blast
    moreover have "set as = callsLeft H S - {a} \<longleftrightarrow> a \<notin> set as \<and> set (a # as) = callsLeft H S" using True by auto
    ultimately show ?thesis by (simp only: sorted_wrt.simps distinct.simps runBy.simps) (use True in auto)
  next
    case False
    moreover have "linzBy H st S (a # as) \<Longrightarrow> a \<in> callsLeft H S" by (auto simp: callsLeft_def)
    ultimately show ?thesis by (metis list.set_intros(1))
  qed
qed

end

end
