(* ===== verification/CheckerSim.thy ===== *)
theory CheckerSim
  imports CheckerHeap CheckerSearch
begin

text \<open>
  The loop of \<open>checkSingle\<close> follows the search of theory \<open>CheckerSearch\<close> round by round: the heap
  is the initial list with the calls of the stack lifted out in order, the bit set has the
  numbers of these operations as members, and the hash table holds the configurations met.

  The locale \<open>search_heap\<close> states what this needs of the initial heap. Theory \<open>CheckerCorrect\<close>
  interprets it on the heap that \<open>makeLinkedEntries\<close> builds.
\<close>

fun liftAll :: "'v heap \<Rightarrow> nat list \<Rightarrow> 'v heap option" where
  "liftAll h [] = Some h"
| "liftAll h (a # as) = lift (Some a) h \<bind> (\<lambda>h. liftAll h as)"

definition cacheRel :: "nat \<Rightarrow> (64 word \<Rightarrow> 'st cacheEntry list) \<Rightarrow> (nat set \<times> 'st) set \<Rightarrow> bool" where
  "cacheRel l c C \<longleftrightarrow>
     (\<forall>hash. \<forall>e \<in> set (c hash). bitset_hash (ceLinearized e) = hash \<and> length (ceLinearized e) = l) \<and>
     C = {(members (ceLinearized e), ceState e) | hash e. e \<in> set (c hash)}"

definition simrel :: "'st hist \<Rightarrow> 'v heap \<Rightarrow> nat \<Rightarrow> ('v, 'st) search \<Rightarrow> 'st asearch \<Rightarrow> bool" where
  "simrel H h0 n s a \<longleftrightarrow>
     liftAll h0 (map fst (acalls a)) = Some (hp s) \<and> ent s = first (asuf a) None \<and> cur s = acur a \<and>
     calls s = acalls a \<and> length (linearized s) = length (newBitset n) \<and>
     members (linearized s) = aS H a \<and> cacheRel (length (newBitset n)) (cache s) (acache a) \<and>
     length (longest s) = n"

lemma liftAll_append: "liftAll h (as @ bs) = liftAll h as \<bind> (\<lambda>h. liftAll h bs)"
  by (induction as arbitrary: h) auto

lemma cacheContains_iff:
  assumes "cacheRel l c C" and "length b = l"
  shows "cacheContains model c \<lparr>ceLinearized = b, ceState = t\<rparr> \<longleftrightarrow> aseen (modelEqual model) C (members b) t"
proof
  assume "cacheContains model c \<lparr>ceLinearized = b, ceState = t\<rparr>"
  then obtain e where "e \<in> set (c (bitset_hash b))" "b = ceLinearized e" "modelEqual model t (ceState e)"
    by (auto simp: cacheContains_def list_ex_iff bitset_equals_iff)
  then show "aseen (modelEqual model) C (members b) t" using assms(1) by (auto simp: cacheRel_def aseen_def)
next
  assume "aseen (modelEqual model) C (members b) t"
  then obtain hash e where e: "e \<in> set (c hash)" "members b = members (ceLinearized e)" "modelEqual model t (ceState e)"
    using assms(1) by (auto simp: cacheRel_def aseen_def)
  then have "bitset_hash (ceLinearized e) = hash" "length (ceLinearized e) = l" using assms(1) by (auto simp: cacheRel_def)
  moreover have "b = ceLinearized e" using members_inject e(2) assms(2) calculation(2) by metis
  ultimately show "cacheContains model c \<lparr>ceLinearized = b, ceState = t\<rparr>"
    using e by (auto simp: cacheContains_def list_ex_iff bitset_equals_iff)
qed

lemma cacheRel_insert:
  assumes "cacheRel l c C" and "length b = l"
  shows "cacheRel l (c(bitset_hash b := c (bitset_hash b) @ [\<lparr>ceLinearized = b, ceState = t\<rparr>]))
    (insert (members b, t) C)"
proof -
  let ?c = "c(bitset_hash b := c (bitset_hash b) @ [\<lparr>ceLinearized = b, ceState = t\<rparr>])"
  let ?e = "\<lparr>ceLinearized = b, ceState = t\<rparr>"
  have set: "e \<in> set (?c hash) \<longleftrightarrow> e \<in> set (c hash) \<or> (hash = bitset_hash b \<and> e = ?e)" for e hash
    by auto
  have "?e \<in> set (?c (bitset_hash b))" "members b = members (ceLinearized ?e)" "t = ceState ?e" by auto
  then have "(members b, t) \<in> {(members (ceLinearized e), ceState e) | hash e. e \<in> set (?c hash)}" by blast
  then have "{(members (ceLinearized e), ceState e) | hash e. e \<in> set (?c hash)} = insert (members b, t) C"
    using assms(1) unfolding cacheRel_def set by auto
  then show ?thesis using assms unfolding cacheRel_def set by auto
qed

lemma updateLongest_total:
  "\<forall>i \<in> set is. 0 \<le> i \<and> i < int (length lg) \<Longrightarrow>
    \<exists>lg' sq'. updateLongest k ids is lg sq p = Some (lg', sq') \<and> length lg' = length lg"
proof (induction "is" arbitrary: lg sq p)
  case (Cons i "is")
  have "go_nth lg i = Some (lg ! nat i)" using Cons.prems by (simp add: go_nth_in)
  moreover have "\<exists>lg' sq'. updateLongest k ids is (lg[nat i := x]) sq p = Some (lg', sq') \<and> length lg' = length lg" for x sq p
    using Cons.IH [of "lg[nat i := x]" sq p] Cons.prems by simp
  moreover have "\<exists>lg' sq'. updateLongest k ids is lg sq p = Some (lg', sq') \<and> length lg' = length lg" for sq p
    using Cons.IH [of lg sq p] Cons.prems by simp
  ultimately show ?case by (simp split: option.split)
qed simp

text \<open>
  What the loop returns, for whatever values the flag \<open>kill\<close> takes: a positive answer comes with
  a linearization, and an uninterrupted search answers exactly whether there is one.
\<close>

definition loop_result ::
    "'st hist \<Rightarrow> 'v heap \<Rightarrow> nat \<Rightarrow> 'st \<Rightarrow> (nat \<Rightarrow> bool) \<Rightarrow> bool \<times> nat option list \<times> int list list \<Rightarrow> bool" where
  "loop_result H h0 n ini kill res \<longleftrightarrow>
     (case res of (r, lg, sq) \<Rightarrow>
        (r \<longrightarrow> (\<exists>as. linzBy H ini {} as \<and> lg = replicate n (Some (length sq - 1)) \<and> sq \<noteq> [] \<and>
                    last sq = map (\<lambda>a. nid (h0 ! a)) as)) \<and>
        (\<not> r \<longrightarrow> linz H ini {} \<longrightarrow> (\<exists>k. kill k)))"

locale search_heap = good_hist H "modelEqual model"
  for H :: "'st hist" and model :: "('v, 'st) Model" +
  fixes h0 :: "'v heap" and headEntry :: nat and n :: nat
  assumes start_dll: "dll h0 (headEntry # hL H)"
    and data_match: "a \<in> set (hL H) \<Longrightarrow> nmatch (h0 ! a) = hmt H a"
    and data_id: "a \<in> set (hL H) \<Longrightarrow> uintPos (nid (h0 ! a)) = hoid H a \<and> 0 \<le> nid (h0 ! a) \<and> nid (h0 ! a) < int n"
    and data_step: "a \<in> set (hL H) \<Longrightarrow> hmt H a = Some b \<Longrightarrow>
          \<exists>i out. nvalue (h0 ! a) = Some i \<and> nvalue (h0 ! b) = Some out \<and> Step model st i out = Some (hstp H st a)"
begin

abbreviation eq :: "'st \<Rightarrow> 'st \<Rightarrow> bool" where
  "eq \<equiv> modelEqual model"

lemma hL_bounded: "a \<in> set (hL H) \<Longrightarrow> a < length h0"
  using dll_bounded [OF start_dll] by simp

lemma hoid_capacity: "a \<in> set (hL H) \<Longrightarrow> hoid H a < 64 * length (newBitset n)"
proof -
  assume "a \<in> set (hL H)"
  then have d: "uintPos (nid (h0 ! a)) = hoid H a" "0 \<le> nid (h0 ! a)" "nid (h0 ! a) < int n" using data_id by auto
  have "nid (h0 ! a) mod 2 ^ 64 \<le> nid (h0 ! a)" using d(2) by (simp add: zmod_le_nonneg_dividend)
  then have "hoid H a < n" using d by (simp add: uintPos_def nat_less_iff)
  then show ?thesis using newBitset_cap [of n] by simp
qed

text \<open>The heap with the calls of the stack lifted out.\<close>

lemma level_heap:
  assumes inv: "ainv H eq ini s"
  shows "j \<le> length (acalls s) \<Longrightarrow> \<exists>h. liftAll h0 (map fst (take j (acalls s))) = Some h \<and>
    dll h (headEntry # remaining H (opIds H (take j (acalls s)))) \<and> same_data h h0 \<and>
    (\<forall>k. j = Suc k \<longrightarrow> (\<exists>h1. liftAll h0 (map fst (take k (acalls s))) = Some h1 \<and> unlift (Some (fst (acalls s ! k))) h = Some h1))"
proof (induction j)
  case 0
  then show ?case using start_dll by (simp add: opIds_def remaining_def)
next
  case (Suc j)
  let ?a = "fst (acalls s ! j)" and ?S = "opIds H (take j (acalls s))"
  obtain h where h: "liftAll h0 (map fst (take j (acalls s))) = Some h" "dll h (headEntry # remaining H ?S)" "same_data h h0"
    using Suc by auto
  have "level_ok H eq (acache s) (acalls s) (acur s) j" using inv Suc.prems by (simp add: ainv_def)
  then obtain pre suf b where r: "remaining H ?S = pre @ ?a # suf" and b: "hmt H ?a = Some b"
    by (auto simp: level_ok_def Let_def)
  then obtain mid post where m: "suf = mid @ b # post" "remaining H (insert (hoid H ?a) ?S) = pre @ mid @ post"
    using remaining_insert by blast
  have a: "?a \<in> set (hL H)" using r remaining_subset [of ?S] by auto
  then have "nmatch (h ! ?a) = Some b" using data_match b h(3) hL_bounded by (simp add: same_data_def)
  then obtain h' where h': "lift (Some ?a) h = Some h'" "dll h' (headEntry # pre @ mid @ post)" "same_data h' h"
      "unlift (Some ?a) h' = Some h"
    using lift_dll [of h "[]" headEntry pre ?a mid b post] h(2) r m(1) by auto
  have t: "take (Suc j) (acalls s) = take j (acalls s) @ [acalls s ! j]" using Suc.prems by (simp add: take_Suc_conv_app_nth)
  then have "opIds H (take (Suc j) (acalls s)) = insert (hoid H ?a) ?S" by (simp add: opIds_def)
  then show ?case using h h' m(2) same_data_trans [OF h'(3) h(3)] by (auto simp: t liftAll_append)
qed

lemma sim_heap:
  assumes "simrel H h0 n s a" and "ainv H eq ini a"
  shows "dll (hp s) (headEntry # remaining H (aS H a))" "same_data (hp s) h0"
  using level_heap [OF assms(2) order_refl] assms(1) by (auto simp: simrel_def)

lemma sim_heap_pop:
  assumes "simrel H h0 n s a" and "ainv H eq ini a" and "acalls a = cs @ [(x, st)]"
  shows "\<exists>h. liftAll h0 (map fst cs) = Some h \<and> unlift (Some x) (hp s) = Some h \<and>
    dll h (headEntry # remaining H (opIds H cs)) \<and> same_data h h0"
  using level_heap [OF assms(2), of "length cs"] level_heap [OF assms(2) order_refl] assms(1,3)
  by (auto simp: simrel_def)

lemma sim_calls:
  assumes "ainv H eq ini a" and "c \<in> set (acalls a)"
  shows "fst c \<in> set (hL H)"
  using ainv_opIds [OF assms(1) order_refl] assms(2) by auto

lemma sim_callIds:
  assumes "simrel H h0 n s a" and "ainv H eq ini a"
  shows "callIds (hp s) (calls s) = Some (map (\<lambda>c. nid (h0 ! fst c)) (acalls a))"
proof -
  have "map_option nid (deref (Some (fst c)) (hp s)) = Some (nid (h0 ! fst c))" if "c \<in> set (acalls a)" for c
    using sim_calls [OF assms(2) that] hL_bounded sim_heap(2) [OF assms]
    by (auto simp: deref_def same_data_def)
  then have "map (\<lambda>c. map_option nid (deref (Some (fst c)) (hp s))) (acalls a) =
      map (\<lambda>c. Some (nid (h0 ! fst c))) (acalls a)" by (simp only: map_eq_conv) blast
  moreover have "calls s = acalls a" using assms(1) by (simp add: simrel_def)
  ultimately show ?thesis by (simp only: callIds_def those_map_Some)
qed

text \<open>The node of the next event.\<close>

lemma sim_entry:
  assumes sim: "simrel H h0 n s a" and inv: "ainv H eq ini a" and suf: "asuf a = x # suf"
  shows "deref (ent s) (hp s) = Some (hp s ! x)" "x \<in> set (hL H)" "nmatch (hp s ! x) = hmt H x"
    "nvalue (hp s ! x) = nvalue (h0 ! x)" "nid (hp s ! x) = nid (h0 ! x)" "nnext (hp s ! x) = first suf None"
    "hoid H x \<notin> aS H a"
proof -
  have r: "remaining H (aS H a) = apre a @ x # suf" using inv suf by (simp add: ainv_def)
  then have "x \<in> set (remaining H (aS H a))" by simp
  then show x: "x \<in> set (hL H)" and "hoid H x \<notin> aS H a" by (auto simp: remaining_def)
  note d = sim_heap [OF sim inv]
  show "deref (ent s) (hp s) = Some (hp s ! x)"
    using sim suf d(2) hL_bounded [OF x] by (simp add: simrel_def deref_def same_data_def)
  show "nmatch (hp s ! x) = hmt H x" "nvalue (hp s ! x) = nvalue (h0 ! x)" "nid (hp s ! x) = nid (h0 ! x)"
    using d(2) hL_bounded [OF x] data_match [OF x] by (auto simp: same_data_def)
  show "nnext (hp s ! x) = first suf None" using dll_next [of "hp s" "headEntry # apre a" x suf] d(1) r by simp
qed

lemma sim_skip:
  assumes "simrel H h0 n s a" and "asuf a = x # suf"
  shows "simrel H h0 n (s\<lparr>ent := first suf None\<rparr>) (askip a)"
  using assms by (simp add: simrel_def askip_def)

lemma sim_push:
  assumes sim: "simrel H h0 n s a" and inv: "ainv H eq ini a" and suf: "asuf a = x # suf"
    and mt: "hmt H x = Some b" and step: "hstp H (acur a) x = (True, t)"
  shows "\<exists>s'. pushCall model headEntry (hp s ! x) t s = Some s' \<and>
    simrel H h0 n s' (if aseen eq (acache a) (insert (hoid H x) (aS H a)) t then askip a else apush H x t a)"
proof -
  note e = sim_entry [OF sim inv suf]
  note d = sim_heap [OF sim inv]
  have r: "remaining H (aS H a) = apre a @ x # suf" using inv suf by (simp add: ainv_def)
  have pos: "uintPos (nid (hp s ! x)) = hoid H x" using data_id [OF e(2)] e(5) by simp
  have lin: "length (linearized s) = length (newBitset n)" "members (linearized s) = aS H a" using sim by (auto simp: simrel_def)
  then obtain b' where b': "bitset_set (hoid H x) (linearized s) = Some b'" "length b' = length (newBitset n)"
      "members b' = insert (hoid H x) (aS H a)"
    using bs.ins_in [of "hoid H x" "linearized s"] hoid_capacity [OF e(2)] by auto
  have cache: "cacheRel (length (newBitset n)) (cache s) (acache a)" using sim by (simp add: simrel_def)
  note seen = cacheContains_iff [OF cache b'(2), of model t]
  show ?thesis
  proof (cases "aseen eq (acache a) (insert (hoid H x) (aS H a)) t")
    case True
    then show ?thesis using seen b' pos sim_skip [OF sim suf] e(6)
      by (simp add: pushCall_def bitset_clone_def Let_def)
  next
    case False
    obtain mid post where m: "suf = mid @ b # post" "remaining H (insert (hoid H x) (aS H a)) = apre a @ mid @ post"
      using remaining_insert [OF r mt] by blast
    obtain h' where h': "lift (Some x) (hp s) = Some h'" "dll h' (headEntry # apre a @ mid @ post)" "same_data h' (hp s)"
      using lift_dll [of "hp s" "[]" headEntry "apre a" x mid b post] d(1) r m(1) e(3) mt by auto
    have "deref (Some headEntry) h' = Some (h' ! headEntry)" "nnext (h' ! headEntry) = first (apre a @ mid @ post) None"
      using dll_bounded [OF h'(2)] dll_next [of h' "[]"] h'(2) by (auto simp: deref_def)
    moreover have "ent s = Some x" using sim suf by (simp add: simrel_def)
    moreover have "liftAll h0 (map fst (acalls a)) = Some (hp s)" using sim by (simp add: simrel_def)
    ultimately show ?thesis using False seen b' pos h' m(2) sim suf cacheRel_insert [OF cache b'(2), of t]
      by (simp add: pushCall_def bitset_clone_def Let_def simrel_def apush_def liftAll_append opIds_snoc)
  qed
qed

lemma sim_pop:
  assumes sim: "simrel H h0 n s a" and inv: "ainv H eq ini a" and ne: "acalls a \<noteq> []"
  shows "\<exists>s'. popCall computePartial s = Some s' \<and> simrel H h0 n s' (apop H a)"
proof -
  obtain cs x st where cs: "acalls a = cs @ [(x, st)]" using ne by (metis rev_exhaust surj_pair)
  have calls: "calls s = acalls a" "length (longest s) = n" using sim by (auto simp: simrel_def)
  note ids = sim_callIds [OF sim inv]
  have x: "x \<in> set (hL H)" using sim_calls [OF inv, of "(x, st)"] by (simp add: cs)
  let ?ids = "map (\<lambda>c. nid (h0 ! fst c)) (acalls a)"
  have "\<forall>i \<in> set ?ids. 0 \<le> i \<and> i < int (length (longest s))"
    using sim_calls [OF inv] data_id calls(2) by auto
  from updateLongest_total [OF this, of "length (calls s)" ?ids "seqs s" None]
  have "\<exists>lg sq. (if computePartial then updateLongest (length (calls s)) ?ids ?ids (longest s) (seqs s) None
        else Some (longest s, seqs s)) = Some (lg, sq) \<and> length lg = n"
    using calls(2) by (cases computePartial) simp_all
  then obtain lg sq where lg: "(if computePartial then updateLongest (length (calls s)) ?ids ?ids (longest s) (seqs s) None
        else Some (longest s, seqs s)) = Some (lg, sq)" "length lg = n"
    by blast
  obtain h where h: "liftAll h0 (map fst cs) = Some h" "unlift (Some x) (hp s) = Some h"
      "dll h (headEntry # remaining H (opIds H cs))" "same_data h h0"
    using sim_heap_pop [OF sim inv cs] by blast
  have d2: "same_data (hp s) h0" using sim_heap [OF sim inv] by simp
  then have nid: "nid (hp s ! x) = nid (h0 ! x)" "deref (Some x) (hp s) = Some (hp s ! x)" "deref (Some x) h = Some (h ! x)"
    using hL_bounded [OF x] h(4) by (auto simp: same_data_def deref_def)
  have pos: "uintPos (nid (hp s ! x)) = hoid H x" using data_id [OF x] nid(1) by simp
  have lin: "length (linearized s) = length (newBitset n)" "members (linearized s) = aS H a" using sim by (auto simp: simrel_def)
  then obtain b' where b': "bitset_clear (hoid H x) (linearized s) = Some b'" "length b' = length (newBitset n)"
      "members b' = aS H a - {hoid H x}"
    using bs.del_in [of "hoid H x" "linearized s"] hoid_capacity [OF x] by auto
  have "level_ok H eq (acache a) (acalls a) (acur a) (length cs)" using inv by (simp add: ainv_def cs)
  then obtain pre suf where r: "remaining H (opIds H cs) = pre @ x # suf"
    by (auto simp: level_ok_def Let_def cs)
  then have "x \<in> set (remaining H (opIds H cs))" by simp
  then have "hoid H x \<notin> opIds H cs" by (simp add: remaining_def)
  then have mem: "members b' = opIds H cs" using b'(3) by (simp add: cs opIds_snoc)
  have "x \<notin> set pre" using remaining_distinct [of "opIds H cs"] r by simp
  then have dw: "tl (dropWhile (\<lambda>y. y \<noteq> x) (remaining H (opIds H cs))) = suf"
    by (auto simp: r dropWhile_append)
  have nx: "nnext (h ! x) = first suf None" using dll_next [of h "headEntry # pre" x suf] h(3) r by simp
  have top: "last (calls s) = (x, st)" "butlast (calls s) = cs" using cs calls(1) by simp_all
  have "popCall computePartial s = Some (s\<lparr>longest := lg, seqs := sq, cur := st, linearized := b',
      calls := cs, hp := h, ent := first suf None\<rparr>)"
    by (simp add: popCall_def ids lg(1) top nid(2,3) pos b'(1) h(2) nx Let_def)
  moreover have "apop H a = a\<lparr>apre := takeWhile (\<lambda>y. y \<noteq> x) (remaining H (opIds H cs)) @ [x], asuf := suf,
      acur := st, acalls := cs\<rparr>"
    using dw by (simp add: apop_def cs Let_def)
  ultimately show ?thesis using sim lg(2) h(1) b'(2) mem by (simp add: simrel_def)
qed

text \<open>One round of the loop is one round of the search.\<close>

lemma sim_round:
  assumes sim: "simrel H h0 n s a" and inv: "ainv H eq ini a" and ne: "remaining H (aS H a) \<noteq> []"
  shows "case around H eq a of
      Some a' \<Rightarrow> \<exists>s'. checkStep model computePartial headEntry s = Some (Continue s') \<and> simrel H h0 n s' a'
    | None \<Rightarrow> checkStep model computePartial headEntry s = Some (Return (False, longest s, seqs s))"
proof -
  obtain x suf where suf: "asuf a = x # suf" using next_event [OF inv ne] by (cases "asuf a") auto
  note e = sim_entry [OF sim inv suf]
  have st: "cur s = acur a" "calls s = acalls a" using sim by (auto simp: simrel_def)
  show ?thesis
  proof (cases "hmt H x")
    case None
    then show ?thesis using e suf st sim_pop [OF sim inv] by (auto simp: around_def checkStep_def)
  next
    case (Some b)
    obtain i out where v: "nvalue (h0 ! x) = Some i" "nvalue (h0 ! b) = Some out"
        "Step model (acur a) i out = Some (hstp H (acur a) x)"
      using data_step [OF e(2) Some] by blast
    have b: "b \<in> set (hL H)" using mt_after [OF e(2) Some] by auto
    then have "deref (Some b) (hp s) = Some (hp s ! b)" "nvalue (hp s ! b) = nvalue (h0 ! b)"
      using sim_heap [OF sim inv] hL_bounded [OF b] by (auto simp: deref_def same_data_def)
    note n = this
    obtain ok t where h: "hstp H (acur a) x = (ok, t)" by fastforce
    show ?thesis
    proof (cases ok)
      case True
      then show ?thesis using e n v h suf st Some sim_push [OF sim inv suf Some]
        by (auto simp: around_def checkStep_def)
    next
      case False
      then show ?thesis using e n v h suf st Some sim_skip [OF sim suf]
        by (auto simp: around_def checkStep_def)
    qed
  qed
qed

lemma loop_total:
  assumes "simrel H h0 n s a" and "ainv H eq ini a"
  shows "\<exists>res. checkLoop model computePartial kill n headEntry k s = Some (Some res) \<and> loop_result H h0 n ini kill res"
  using assms
proof (induction "ameasure H a" arbitrary: a s k rule: less_induct)
  case less
  note sim = less.prems(1) and inv = less.prems(2)
  let ?r = "remaining H (aS H a)"
  note d = sim_heap [OF sim inv]
  have hd: "deref (Some headEntry) (hp s) = Some (hp s ! headEntry)" "nnext (hp s ! headEntry) = first ?r None"
    using dll_bounded [OF d(1)] dll_next [of "hp s" "[]"] d(1) by (auto simp: deref_def)
  consider (finished) "?r = []" | (killed) "?r \<noteq> []" "kill k" | (round) "?r \<noteq> []" "\<not> kill k" by blast
  then show ?case
  proof cases
    case finished
    then have "checkLoop model computePartial kill n headEntry k s = Some (finish n s)"
      using hd by (subst checkLoop.simps) simp
    moreover have "finish n s = Some (True, replicate n (Some (length (seqs s))), seqs s @ [map (\<lambda>c. nid (h0 ! fst c)) (acalls a)])"
      using sim_callIds [OF sim inv] by (simp add: finish_def)
    ultimately show ?thesis using finished_linzBy [OF inv finished] by (auto simp: loop_result_def)
  next
    case killed
    then have "checkLoop model computePartial kill n headEntry k s = Some (Some (False, longest s, seqs s))"
      using hd by (subst checkLoop.simps) (auto simp: first_def split: list.splits)
    then show ?thesis using killed by (auto simp: loop_result_def)
  next
    case round
    have loop: "checkLoop model computePartial kill n headEntry k s =
        (case checkStep model computePartial headEntry s of
               None \<Rightarrow> Some None
             | Some (Return r) \<Rightarrow> Some (Some r)
             | Some (Continue s') \<Rightarrow> checkLoop model computePartial kill n headEntry (Suc k) s')"
      using hd round by (subst checkLoop.simps) (auto simp: first_def split: list.splits)
    show ?thesis
    proof (cases "around H eq a")
      case None
      then show ?thesis using loop sim_round [OF sim inv round(1)] around_no [OF inv round(1)]
        by (simp add: loop_result_def)
    next
      case (Some a')
      then obtain s' where "checkStep model computePartial headEntry s = Some (Continue s')" "simrel H h0 n s' a'"
        using sim_round [OF sim inv round(1)] by auto
      then show ?thesis using loop less.hyps [OF around_measure [OF inv round(1) Some]] around_inv [OF inv round(1) Some]
        by simp
    qed
  qed
qed

end

end
