(* ===== verification/CheckerCorrect.thy ===== *)
theory CheckerCorrect
  imports CheckerSim
begin

text \<open>
  The linearizability checker is correct: on a well-formed history \<open>checkSingle\<close> returns, does
  not panic and answers whether the history is linearizable.
\<close>

section \<open>Well-formed histories\<close>

text \<open>
  Every operation has one call and a later return, and the operations are numbered from 0. This is
  what \<open>makeEntries\<close> and \<open>renumber\<close> produce for complete histories.
\<close>

definition wfEntries :: "'v entry list \<Rightarrow> bool" where
  "wfEntries es \<longleftrightarrow>
     int (length es) < 2 ^ 63 \<and> (\<forall>e \<in> set es. 0 \<le> eid e \<and> eid e < int (length es div 2)) \<and>
     (\<forall>i < length es. \<forall>j < length es. kind (es ! i) = kind (es ! j) \<longrightarrow> eid (es ! i) = eid (es ! j) \<longrightarrow> i = j) \<and>
     (\<forall>i < length es. kind (es ! i) = callEntry \<longrightarrow>
        (\<exists>j < length es. i < j \<and> kind (es ! j) = returnEntry \<and> eid (es ! j) = eid (es ! i))) \<and>
     (\<forall>j < length es. kind (es ! j) = returnEntry \<longrightarrow>
        (\<exists>i < j. kind (es ! i) = callEntry \<and> eid (es ! i) = eid (es ! j)))"

text \<open>
  What the checker expects of a model: \<open>Step\<close> does not panic on the values of the history, and equal
  states have the same legal steps, to equal states.
\<close>

definition stepTotal :: "('v, 'st) Model \<Rightarrow> 'v entry list \<Rightarrow> bool" where
  "stepTotal model es \<longleftrightarrow> (\<forall>c \<in> set es. \<forall>r \<in> set es. kind c = callEntry \<longrightarrow> kind r = returnEntry \<longrightarrow>
     (\<forall>st. Step model st (val c) (val r) \<noteq> None))"

definition equalRespects :: "('v, 'st) Model \<Rightarrow> bool" where
  "equalRespects model \<longleftrightarrow> (\<forall>s s' i out t. modelEqual model s s' \<longrightarrow> Step model s i out = Some (True, t) \<longrightarrow>
     (\<exists>t'. Step model s' i out = Some (True, t') \<and> modelEqual model t t'))"

definition checkable :: "('v, 'st) Model \<Rightarrow> 'v entry list \<Rightarrow> bool" where
  "checkable model es \<longleftrightarrow> wfEntries es \<and> stepTotal model es \<and> equalRespects model"

section \<open>The search problem of a history\<close>

definition headNode :: "'v node" where
  "headNode = \<lparr>nvalue = None, nmatch = None, nid = - 1, nnext = None, nprev = None\<rparr>"

definition startHeap :: "'v entry list \<Rightarrow> 'v heap" where
  "startHeap es =
     (case makeLinkedEntries es of
        None \<Rightarrow> []
      | Some (entry, h) \<Rightarrow> the (insertBefore (length h) entry (h @ [headNode])))"

definition histOf :: "('v, 'st) Model \<Rightarrow> 'v entry list \<Rightarrow> 'st hist" where
  "histOf model es =
     \<lparr>hL = rev [0..<length es],
      hmt = (\<lambda>a. nmatch (startHeap es ! a)),
      hoid = (\<lambda>a. uintPos (nid (startHeap es ! a))),
      hstp = (\<lambda>st a. case nmatch (startHeap es ! a) of
                None \<Rightarrow> (False, st)
              | Some b \<Rightarrow>
                  (case Step model st (the (nvalue (startHeap es ! a))) (the (nvalue (startHeap es ! b))) of
                     None \<Rightarrow> (False, st) | Some r \<Rightarrow> r))\<rparr>"

text \<open>Histories that are not well formed are replaced by the empty one.\<close>

definition theEntries :: "('v, 'st) Model \<Rightarrow> 'v entry list \<Rightarrow> 'v entry list" where
  "theEntries model es = (if checkable model es then es else [])"

lemma wf_unique:
  "wfEntries es \<Longrightarrow> i < length es \<Longrightarrow> j < length es \<Longrightarrow> kind (es ! i) = kind (es ! j) \<Longrightarrow> eid (es ! i) = eid (es ! j) \<Longrightarrow> i = j"
  unfolding wfEntries_def by blast

lemma wf_distinct_returns:
  assumes "wfEntries es"
  shows "distinct (returnIds es)"
proof -
  have "distinct es" using wf_unique [OF assms] unfolding distinct_conv_nth by metis
  moreover have "x = y" if "x \<in> set es" "y \<in> set es" "kind x = kind y" "eid x = eid y" for x y
    using wf_unique [OF assms] that unfolding in_set_conv_nth by metis
  ultimately show ?thesis by (simp add: distinct_map inj_on_def)
qed

lemma startHeap_ok:
  assumes "wfEntries es"
  shows "\<exists>h. makeLinkedEntries es = Some (first (rev [0..<length es]) None, h) \<and> length h = length es \<and>
    dll h (rev [0..<length es]) \<and>
    insertBefore (length es) (first (rev [0..<length es]) None) (h @ [headNode]) = Some (startHeap es) \<and>
    dll (startHeap es) (length es # rev [0..<length es]) \<and>
    (\<forall>k < length es. nvalue (startHeap es ! k) = Some (val (rev es ! k)) \<and> nid (startHeap es ! k) = eid (rev es ! k) \<and>
        (\<forall>j. nmatch (startHeap es ! k) = Some j \<longleftrightarrow> kind (rev es ! k) = callEntry \<and> j < k \<and>
           kind (rev es ! j) = returnEntry \<and> eid (rev es ! j) = eid (rev es ! k)))"
proof -
  obtain h where h: "makeLinkedEntries es = Some (first (rev [0..<length es]) None, h)"
      "linkedData (rev es) h" "dll h (rev [0..<length es])"
    using makeLinkedEntries_list [OF wf_distinct_returns [OF assms]] by blast
  have len: "length h = length es" using h(2) by (simp add: linkedData_def)
  obtain h' where h': "insertBefore (length h) (first (rev [0..<length es]) None) (h @ [headNode]) = Some h'"
      "dll h' (length h # rev [0..<length es])" "same_data h' (h @ [headNode])"
    using insertBefore_front [OF h(3), of headNode] by (auto simp: headNode_def)
  have s: "startHeap es = h'" using h(1) h'(1) by (simp add: startHeap_def)
  have "nvalue (h' ! k) = nvalue (h ! k)" "nid (h' ! k) = nid (h ! k)" "nmatch (h' ! k) = nmatch (h ! k)"
    if "k < length es" for k
    using h'(3) that len by (auto simp: same_data_def nth_append)
  then show ?thesis using h h' len s unfolding linkedData_def by simp
qed

lemma startHeap_data:
  assumes "wfEntries es" and "k < length es"
  shows "nvalue (startHeap es ! k) = Some (val (rev es ! k))" "nid (startHeap es ! k) = eid (rev es ! k)"
    "nmatch (startHeap es ! k) = Some j \<longleftrightarrow> kind (rev es ! k) = callEntry \<and> j < k \<and>
       kind (rev es ! j) = returnEntry \<and> eid (rev es ! j) = eid (rev es ! k)"
  using startHeap_ok [OF assms(1)] assms(2) by blast+

text \<open>Well-formedness with the positions counted from the end, as the addresses are.\<close>

lemma wf_rev:
  assumes "wfEntries es" and "k < length es"
  shows "kind (rev es ! k) = callEntry \<Longrightarrow> \<exists>j < k. kind (rev es ! j) = returnEntry \<and> eid (rev es ! j) = eid (rev es ! k)"
    and "kind (rev es ! k) = returnEntry \<Longrightarrow>
      \<exists>j < length es. k < j \<and> kind (rev es ! j) = callEntry \<and> eid (rev es ! j) = eid (rev es ! k)"
    and "j < length es \<Longrightarrow> kind (rev es ! k) = kind (rev es ! j) \<Longrightarrow> eid (rev es ! k) = eid (rev es ! j) \<Longrightarrow> k = j"
    and "0 \<le> eid (rev es ! k) \<and> eid (rev es ! k) < int (length es div 2)"
proof -
  let ?N = "length es"
  have nth: "rev es ! i = es ! (?N - Suc i)" if "i < ?N" for i using that by (simp add: rev_nth)
  {
    assume "kind (rev es ! k) = callEntry"
    then have "kind (es ! (?N - Suc k)) = callEntry" "?N - Suc k < ?N" using assms(2) nth by auto
    then obtain j where j: "j < ?N" "?N - Suc k < j" "kind (es ! j) = returnEntry" "eid (es ! j) = eid (es ! (?N - Suc k))"
      using assms(1) unfolding wfEntries_def by blast
    have "?N - Suc j < k" "rev es ! (?N - Suc j) = es ! j" using j assms(2) nth [of "?N - Suc j"] by auto
    then show "\<exists>j < k. kind (rev es ! j) = returnEntry \<and> eid (rev es ! j) = eid (rev es ! k)"
      using j nth [OF assms(2)] by metis
  next
    assume "kind (rev es ! k) = returnEntry"
    then have "kind (es ! (?N - Suc k)) = returnEntry" "?N - Suc k < ?N" using assms(2) nth by auto
    then obtain j where j: "j < ?N - Suc k" "kind (es ! j) = callEntry" "eid (es ! j) = eid (es ! (?N - Suc k))"
      using assms(1) unfolding wfEntries_def by blast
    have "?N - Suc j < ?N" "k < ?N - Suc j" "rev es ! (?N - Suc j) = es ! j" using j assms(2) nth [of "?N - Suc j"] by auto
    then show "\<exists>j < length es. k < j \<and> kind (rev es ! j) = callEntry \<and> eid (rev es ! j) = eid (rev es ! k)"
      using j nth [OF assms(2)] by metis
  next
    assume j: "j < ?N" "kind (rev es ! k) = kind (rev es ! j)" "eid (rev es ! k) = eid (rev es ! j)"
    then have "?N - Suc k = ?N - Suc j"
      using wf_unique [OF assms(1), of "?N - Suc k" "?N - Suc j"] nth [OF assms(2)] nth [OF j(1)] assms(2) by simp
    then show "k = j" using assms(2) j(1) by simp
  next
    have "rev es ! k \<in> set es" using assms(2) nth_mem [of k "rev es"] by simp
    then show "0 \<le> eid (rev es ! k) \<and> eid (rev es ! k) < int (length es div 2)"
      using assms(1) unfolding wfEntries_def by blast
  }
qed

lemma wf_empty: "wfEntries []"
  by (simp add: wfEntries_def)

lemma wf_theEntries: "wfEntries (theEntries model es)"
  by (simp add: theEntries_def checkable_def wf_empty)

lemma uintPos_inject:
  assumes "0 \<le> i" "i < 2 ^ 63" "0 \<le> j" "j < 2 ^ 63" "uintPos i = uintPos j"
  shows "i = j"
  using assms by (simp add: uintPos_def)

lemma upt_split:
  assumes "b < a" "a < N"
  shows "rev [0..<N] = rev [Suc a..<N] @ a # rev [Suc b..<a] @ b # rev [0..<b]"
proof -
  have "[0..<N] = [0..<b] @ b # [Suc b..<a] @ a # [Suc a..<N]"
    using assms upt_add_eq_append [of 0 b "N - b"] upt_conv_Cons [of b N] upt_add_eq_append [of "Suc b" a "N - a"]
      upt_conv_Cons [of a N] by simp
  then show ?thesis by simp
qed

lemma histOf_simps [simp]:
  "hL (histOf model es) = rev [0..<length es]" "hmt (histOf model es) a = nmatch (startHeap es ! a)"
  "hoid (histOf model es) a = uintPos (nid (startHeap es ! a))"
  by (simp_all add: histOf_def)

lemma histOf_step:
  "hstp (histOf model es) st a = (True, t) \<longleftrightarrow> (\<exists>b. nmatch (startHeap es ! a) = Some b \<and>
     Step model st (the (nvalue (startHeap es ! a))) (the (nvalue (startHeap es ! b))) = Some (True, t))"
  by (auto simp: histOf_def split: option.splits)

text \<open>The list of a well-formed history has the properties the search needs.\<close>

text \<open>The entries of the history, from the last one: every one is a call with its return, or a return with its call.\<close>

lemma theEntries_call_of:
  assumes b: "b < length (theEntries model es)" and none: "nmatch (startHeap (theEntries model es) ! b) = None"
  shows "\<exists>a < length (theEntries model es). nmatch (startHeap (theEntries model es) ! a) = Some b"
proof -
  let ?es = "theEntries model es"
  have r: "kind (rev ?es ! b) = returnEntry"
  proof (rule ccontr)
    assume "kind (rev ?es ! b) \<noteq> returnEntry"
    then have c: "kind (rev ?es ! b) = callEntry" by (cases "kind (rev ?es ! b)") auto
    then obtain j where "j < b" "kind (rev ?es ! j) = returnEntry" "eid (rev ?es ! j) = eid (rev ?es ! b)"
      using wf_rev(1) [OF wf_theEntries b c] by blast
    then show False using startHeap_data(3) [OF wf_theEntries b] c none by simp
  qed
  then obtain j where j: "j < length ?es" "b < j" "kind (rev ?es ! j) = callEntry" "eid (rev ?es ! j) = eid (rev ?es ! b)"
    using wf_rev(2) [OF wf_theEntries b] by blast
  then show ?thesis using startHeap_data(3) [OF wf_theEntries j(1)] r by auto
qed

lemma theEntries_uintPos_inject:
  assumes a: "a < length (theEntries model es)" "a' < length (theEntries model es)"
    and eq: "uintPos (nid (startHeap (theEntries model es) ! a)) = uintPos (nid (startHeap (theEntries model es) ! a'))"
  shows "eid (rev (theEntries model es) ! a) = eid (rev (theEntries model es) ! a')"
proof -
  have "0 \<le> eid (rev (theEntries model es) ! x) \<and> eid (rev (theEntries model es) ! x) < 2 ^ 63"
    if "x < length (theEntries model es)" for x
  proof -
    have "int (length (theEntries model es)) < 2 ^ 63" using wf_theEntries unfolding wfEntries_def by blast
    then show ?thesis using wf_rev(4) [OF wf_theEntries that] by linarith
  qed
  then show ?thesis using eq a startHeap_data(2) [OF wf_theEntries a(1)] startHeap_data(2) [OF wf_theEntries a(2)]
    by (intro uintPos_inject) auto
qed

interpretation ch: good_hist "histOf model (theEntries model es)" "modelEqual model" for model es
proof (unfold_locales, goal_cases)
  case 1
  then show ?case by simp
next
  case (2 a b)
  then have "b < a" "a < length (theEntries model es)"
    using startHeap_data(3) [OF wf_theEntries, of a model es b] by auto
  then show ?case using upt_split by fastforce
next
  case (3 a b)
  then have "kind (rev (theEntries model es) ! b) = returnEntry" "b < length (theEntries model es)"
    using startHeap_data(3) [OF wf_theEntries, of a model es b] by auto
  then show ?case using startHeap_data(3) [OF wf_theEntries, of b model es] by (cases "nmatch (startHeap (theEntries model es) ! b)") auto
next
  case (4 b)
  then show ?case using theEntries_call_of [of b model es] by auto
next
  case (5 a b)
  then show ?case
    using startHeap_data(2,3) [OF wf_theEntries, of a model es] startHeap_data(2) [OF wf_theEntries, of b model es] by simp
next
  case (6 a a')
  then have a: "a < length (theEntries model es)" "a' < length (theEntries model es)" by auto
  have c: "kind (rev (theEntries model es) ! a) = callEntry" "kind (rev (theEntries model es) ! a') = callEntry"
    using 6(3,4) startHeap_data(3) [OF wf_theEntries a(1)] startHeap_data(3) [OF wf_theEntries a(2)] by auto
  have "eid (rev (theEntries model es) ! a) = eid (rev (theEntries model es) ! a')"
    using theEntries_uintPos_inject [OF a] 6(5) by simp
  then show ?case using wf_rev(3) [OF wf_theEntries a] c by simp
next
  case (7 a s s' t)
  then have "equalRespects model" by (auto simp: theEntries_def checkable_def split: if_splits)
  then show ?case using 7(2,3) unfolding histOf_step equalRespects_def by blast
qed

text \<open>The heap and the loop's parameters for it.\<close>

interpretation ch: search_heap "histOf model (theEntries model es)" model "startHeap (theEntries model es)"
  "length (theEntries model es)" "length (theEntries model es) div 2" for model es
proof (unfold_locales, goal_cases)
  case 1
  then show ?case using startHeap_ok [OF wf_theEntries, of model es] by auto
next
  case (2 a)
  then show ?case by simp
next
  case (3 a)
  then have a: "a < length (theEntries model es)" by simp
  then show ?case using wf_rev(4) [OF wf_theEntries a] startHeap_data(2) [OF wf_theEntries a] by simp
next
  case (4 a b st)
  then have a: "a < length (theEntries model es)" and "checkable model es"
    by (auto simp: theEntries_def split: if_splits)
  note d = startHeap_data [OF wf_theEntries a]
  have b: "b < a" "kind (rev (theEntries model es) ! b) = returnEntry" "kind (rev (theEntries model es) ! a) = callEntry"
    using d(3) 4(2) by auto
  then have v: "nvalue (startHeap (theEntries model es) ! b) = Some (val (rev (theEntries model es) ! b))"
    using startHeap_data(1) [OF wf_theEntries, of b model es] a by simp
  have "rev (theEntries model es) ! a \<in> set es" "rev (theEntries model es) ! b \<in> set es"
    using a b(1) nth_mem [of a "rev es"] nth_mem [of b "rev es"] \<open>checkable model es\<close> by (auto simp: theEntries_def)
  then have "Step model st (val (rev (theEntries model es) ! a)) (val (rev (theEntries model es) ! b)) \<noteq> None"
    using \<open>checkable model es\<close> b by (auto simp: checkable_def stepTotal_def)
  then show ?case using d(1) v 4(2) by (auto simp: histOf_def)
qed

text \<open>\<open>checkSingle\<close> starts the loop in the initial state of the search.\<close>

lemma checkSingle_start:
  assumes "checkable model es"
  shows "\<exists>s a. checkSingle model es computePartial kill = checkLoop model computePartial kill (length es div 2) (length es) 0 s \<and>
    simrel (histOf model es) (startHeap es) (length es div 2) s a \<and>
    ainv (histOf model es) (modelEqual model) (Init model) a \<and>
    longest s = replicate (length es div 2) None \<and> seqs s = []"
proof -
  have e: "theEntries model es = es" using assms by (simp add: theEntries_def)
  obtain h where h: "makeLinkedEntries es = Some (first (rev [0..<length es]) None, h)" "length h = length es"
      "dll h (rev [0..<length es])"
      "insertBefore (length es) (first (rev [0..<length es]) None) (h @ [headNode]) = Some (startHeap es)"
    using startHeap_ok assms unfolding checkable_def by blast
  let ?n = "length es div 2" and ?a = "astart (histOf model es) (Init model)"
  let ?s = "\<lparr>hp = startHeap es, ent = first (rev [0..<length es]) None, cur = Init model, linearized = newBitset ?n,
    cache = (\<lambda>_. []), calls = [], longest = replicate ?n None, seqs = []\<rparr>"
  have "nodeLength h (first (rev [0..<length es]) None) = Some (length es)"
    using nodeLength_lseg [of h None "rev [0..<length es]"] h(3) by (simp add: dll_def)
  then have "checkSingle model es computePartial kill = checkLoop model computePartial kill ?n (length es) 0 ?s"
    using h by (simp add: checkSingle_def headNode_def [symmetric] Let_def)
  moreover have "simrel (histOf model es) (startHeap es) ?n ?s ?a"
    by (simp add: simrel_def astart_def opIds_def cacheRel_def)
  moreover have "ainv (histOf model es) (modelEqual model) (Init model) ?a"
    using ch.astart_inv [of model es "Init model"] by (simp add: e)
  moreover have "longest ?s = replicate ?n None \<and> seqs ?s = []" by simp
  ultimately show ?thesis by blast
qed

lemma checkSingle_total:
  assumes "checkable model es"
  shows "\<exists>res. checkSingle model es computePartial kill = Some (Some res) \<and>
    loop_result (histOf model es) (startHeap es) (length es div 2) (Init model) kill res"
proof -
  have e: "theEntries model es = es" using assms by (simp add: theEntries_def)
  show ?thesis
    using checkSingle_start [OF assms, of computePartial kill] ch.loop_total [of model es] by (metis e)
qed

section \<open>Linearizability\<close>

text \<open>The position of the call or the return of operation \<open>i\<close>.\<close>

definition entryPos :: "'v entry list \<Rightarrow> entryKind \<Rightarrow> int \<Rightarrow> nat" where
  "entryPos es k i = length (takeWhile (\<lambda>e. \<not> (kind e = k \<and> eid e = i)) es)"

fun legal :: "('v, 'st) Model \<Rightarrow> 'v entry list \<Rightarrow> 'st \<Rightarrow> int list \<Rightarrow> bool" where
  "legal model es st [] \<longleftrightarrow> True"
| "legal model es st (i # is) \<longleftrightarrow>
     (case Step model st (val (es ! entryPos es callEntry i)) (val (es ! entryPos es returnEntry i)) of
        Some (True, st') \<Rightarrow> legal model es st' is
      | _ \<Rightarrow> False)"

text \<open>
  An order of all operations that the model accepts one after the other, in which no operation
  comes before one that had returned when it was called.
\<close>

definition linearization :: "('v, 'st) Model \<Rightarrow> 'v entry list \<Rightarrow> int list \<Rightarrow> bool" where
  "linearization model es ids \<longleftrightarrow> distinct ids \<and> set ids = eid ` set es \<and>
     sorted_wrt (\<lambda>i j. \<not> entryPos es returnEntry j < entryPos es callEntry i) ids \<and>
     legal model es (Init model) ids"

definition linearizable :: "('v, 'st) Model \<Rightarrow> 'v entry list \<Rightarrow> bool" where
  "linearizable model es \<longleftrightarrow> (\<exists>ids. linearization model es ids)"

lemma entryPos_eq:
  assumes "wfEntries es" and "p < length es"
  shows "entryPos es (kind (es ! p)) (eid (es ! p)) = p"
proof -
  let ?P = "\<lambda>e. \<not> (kind e = kind (es ! p) \<and> eid e = eid (es ! p))" and ?q = "entryPos es (kind (es ! p)) (eid (es ! p))"
  have "?q < length es"
  proof -
    have "\<exists>e \<in> set es. \<not> ?P e" using nth_mem [OF assms(2)] by blast
    then show ?thesis unfolding entryPos_def by (rule length_takeWhile_exists)
  qed
  moreover have "\<not> ?P (es ! ?q)" using calculation nth_length_takeWhile unfolding entryPos_def by fast
  ultimately show ?thesis using wf_unique [OF assms(1) _ assms(2)] by blast
qed

lemma entryPos_rev:
  assumes "wfEntries es" and "a < length es"
  shows "entryPos es (kind (rev es ! a)) (eid (rev es ! a)) = length es - Suc a"
    "es ! (length es - Suc a) = rev es ! a"
  using entryPos_eq [OF assms(1), of "length es - Suc a"] assms(2) by (auto simp: rev_nth)

text \<open>Orders of call nodes and orders of operation numbers.\<close>

abbreviation idAt :: "'v entry list \<Rightarrow> nat \<Rightarrow> int" where
  "idAt es a \<equiv> eid (rev es ! a)"

definition callNodes :: "'v entry list \<Rightarrow> nat set" where
  "callNodes es = {a. a < length es \<and> kind (rev es ! a) = callEntry}"

lemma startHeap_match:
  assumes "wfEntries es" and "a \<in> callNodes es"
  shows "\<exists>b. nmatch (startHeap es ! a) = Some b \<and> b < a \<and> kind (rev es ! b) = returnEntry \<and> idAt es b = idAt es a"
  using assms wf_rev(1) [OF assms(1), of a] startHeap_data(3) [OF assms(1), of a] by (auto simp: callNodes_def)

lemma callNodes_iff:
  assumes "wfEntries es"
  shows "a \<in> callNodes es \<longleftrightarrow> a < length es \<and> nmatch (startHeap es ! a) \<noteq> None"
proof
  assume "a \<in> callNodes es"
  then show "a < length es \<and> nmatch (startHeap es ! a) \<noteq> None"
    using startHeap_match [OF assms] by (auto simp: callNodes_def)
next
  assume "a < length es \<and> nmatch (startHeap es ! a) \<noteq> None"
  then show "a \<in> callNodes es" using startHeap_data(3) [OF assms, of a] by (auto simp: callNodes_def)
qed

lemma callNodes_callsLeft: "wfEntries es \<Longrightarrow> callsLeft (histOf model es) {} = callNodes es"
  using callNodes_iff by (auto simp: callsLeft_def remaining_def)

lemma idAt_inj:
  assumes "wfEntries es"
  shows "inj_on (idAt es) (callNodes es)"
  using wf_rev(3) [OF assms] unfolding inj_on_def callNodes_def by fastforce

lemma idAt_image:
  assumes "wfEntries es"
  shows "idAt es ` callNodes es = eid ` set es"
proof
  show "idAt es ` callNodes es \<subseteq> eid ` set es"
    using nth_mem [of _ "rev es"] by (fastforce simp: callNodes_def)
  show "eid ` set es \<subseteq> idAt es ` callNodes es"
  proof
    fix i assume "i \<in> eid ` set es"
    then have "i \<in> eid ` set (rev es)" by simp
    then obtain e where "e \<in> set (rev es)" "i = eid e" by blast
    then obtain k where k: "k < length es" "i = idAt es k" by (metis in_set_conv_nth length_rev)
    show "i \<in> idAt es ` callNodes es"
    proof (cases "kind (rev es ! k)")
      case callEntry
      then show ?thesis using k by (auto simp: callNodes_def)
    next
      case returnEntry
      then obtain j where "j < length es" "kind (rev es ! j) = callEntry" "idAt es j = idAt es k"
        using wf_rev(2) [OF assms k(1)] by blast
      then show ?thesis using k(2) by (simp add: callNodes_def image_iff) metis
    qed
  qed
qed

lemma legal_runBy:
  assumes "wfEntries es" and "set as \<subseteq> callNodes es"
  shows "runBy (histOf model es) st as \<longleftrightarrow> legal model es st (map (idAt es) as)"
  using assms(2)
proof (induction as arbitrary: st)
  case Nil
  then show ?case by simp
next
  case (Cons a as)
  then have a: "a \<in> callNodes es" "a < length es" "kind (rev es ! a) = callEntry" by (auto simp: callNodes_def)
  obtain b where b: "nmatch (startHeap es ! a) = Some b" "b < a" "kind (rev es ! b) = returnEntry" "idAt es b = idAt es a"
    using startHeap_match [OF assms(1) a(1)] by blast
  have bl: "b < length es" using b(2) a(2) by simp
  have c: "es ! entryPos es callEntry (idAt es a) = rev es ! a" using entryPos_rev [OF assms(1) a(2)] a(3) by simp
  have r: "es ! entryPos es returnEntry (idAt es a) = rev es ! b" using entryPos_rev [OF assms(1) bl] b(3,4) by simp
  have "hstp (histOf model es) st a = (True, t) \<longleftrightarrow> Step model st (val (rev es ! a)) (val (rev es ! b)) = Some (True, t)" for t
    using b(1) startHeap_data(1) [OF assms(1) a(2)] startHeap_data(1) [OF assms(1) bl] by (simp add: histOf_step)
  then show ?case using Cons c r by (auto split: option.splits prod.splits bool.splits)
qed

lemma order_idAt:
  assumes wf: "wfEntries es" and as: "set as \<subseteq> callNodes es"
  shows "sorted_wrt (\<lambda>a a'. \<forall>b. hmt (histOf model es) a' = Some b \<longrightarrow> b < a) as \<longleftrightarrow>
      sorted_wrt (\<lambda>i j. \<not> entryPos es returnEntry j < entryPos es callEntry i) (map (idAt es) as)"
proof -
  have "(\<forall>b. hmt (histOf model es) a' = Some b \<longrightarrow> b < a) \<longleftrightarrow>
      \<not> entryPos es returnEntry (idAt es a') < entryPos es callEntry (idAt es a)" if a: "a \<in> set as" "a' \<in> set as" for a a'
  proof -
    have c: "a < length es" "kind (rev es ! a) = callEntry" "a' < length es" using a as by (auto simp: callNodes_def)
    obtain b where b: "nmatch (startHeap es ! a') = Some b" "b < a'" "kind (rev es ! b) = returnEntry" "idAt es b = idAt es a'"
      using startHeap_match [OF wf] a(2) as by blast
    then have "b < length es" "a \<noteq> b" using c by auto
    then show ?thesis using entryPos_rev(1) [OF wf c(1)] entryPos_rev(1) [OF wf \<open>b < length es\<close>] b c by auto
  qed
  then show ?thesis unfolding sorted_wrt_map by (auto elim!: sorted_wrt_mono_rel [rotated])
qed

lemma linearization_linzBy:
  assumes ok: "checkable model es" and as: "set as \<subseteq> callNodes es"
  shows "linzBy (histOf model es) (Init model) {} as \<longleftrightarrow> linearization model es (map (idAt es) as)"
proof -
  have wf: "wfEntries es" and e: "theEntries model es = es" using ok by (auto simp: checkable_def theEntries_def)
  have decr: "sorted_wrt (>) (hL (histOf model es))" by (simp add: sorted_wrt_rev)
  have "linzBy (histOf model es) (Init model) {} as \<longleftrightarrow> distinct as \<and> set as = callNodes es \<and>
      sorted_wrt (\<lambda>a a'. \<forall>b. hmt (histOf model es) a' = Some b \<longrightarrow> b < a) as \<and> runBy (histOf model es) (Init model) as"
    using ch.linzBy_order [of model es] decr by (simp add: e callNodes_callsLeft [OF wf])
  moreover have "distinct as \<longleftrightarrow> distinct (map (idAt es) as)"
    using inj_on_subset [OF idAt_inj [OF wf] as] by (simp add: distinct_map)
  moreover have "set as = callNodes es \<longleftrightarrow> set (map (idAt es) as) = eid ` set es"
    using inj_on_image_eq_iff [OF idAt_inj [OF wf] as order_refl] idAt_image [OF wf] by simp
  moreover note order_idAt [OF wf as, of model]
  ultimately show ?thesis unfolding linearization_def
    using legal_runBy [OF wf as, of model "Init model"] by blast
qed

lemma linzBy_callNodes:
  assumes ok: "checkable model es" and "linzBy (histOf model es) st {} as"
  shows "set as \<subseteq> callNodes es"
proof -
  have wf: "wfEntries es" and e: "theEntries model es = es" using ok by (auto simp: checkable_def theEntries_def)
  have "sorted_wrt (>) (hL (histOf model es))" by (simp add: sorted_wrt_rev)
  then show ?thesis
    using ch.linzBy_order [of model es st "{}" as] assms(2) by (simp add: e callNodes_callsLeft [OF wf])
qed

lemma linearizable_linz:
  assumes ok: "checkable model es"
  shows "linearizable model es \<longleftrightarrow> linz (histOf model es) (Init model) {}"
proof
  have wf: "wfEntries es" using ok by (simp add: checkable_def)
  assume "linearizable model es"
  then obtain ids where l: "linearization model es ids" by (auto simp: linearizable_def)
  then have "set ids = idAt es ` callNodes es" using idAt_image [OF wf] by (simp add: linearization_def)
  then have "ids \<in> map (idAt es) ` lists (callNodes es)" by (simp only: lists_image [symmetric] in_lists_conv_set) simp
  then obtain as where "ids = map (idAt es) as" "set as \<subseteq> callNodes es" by (auto simp: lists_eq_set)
  then have "linzBy (histOf model es) (Init model) {} as" using l linearization_linzBy [OF ok] by simp
  then show "linz (histOf model es) (Init model) {}" by (rule linzBy_linz)
next
  assume "linz (histOf model es) (Init model) {}"
  from linz_linzBy [OF this] obtain as where l: "linzBy (histOf model es) (Init model) {} as" ..
  then have "linearization model es (map (idAt es) as)"
    using linearization_linzBy [OF ok linzBy_callNodes [OF ok l]] by simp
  then show "linearizable model es" unfolding linearizable_def by (rule exI)
qed

text \<open>What one search answers.\<close>

lemma checkSingle_answer:
  assumes ok: "checkable model es"
  shows "\<exists>r lg sq. checkSingle model es computePartial kill = Some (Some (r, lg, sq)) \<and>
    (r \<longrightarrow> linearization model es (last sq) \<and> lg = replicate (length es div 2) (Some (length sq - 1)) \<and> sq \<noteq> []) \<and>
    (\<not> r \<longrightarrow> linearizable model es \<longrightarrow> (\<exists>k. kill k))"
proof -
  obtain r lg sq where run: "checkSingle model es computePartial kill = Some (Some (r, lg, sq))"
    and res: "loop_result (histOf model es) (startHeap es) (length es div 2) (Init model) kill (r, lg, sq)"
    using checkSingle_total [OF ok] by (metis surj_pair)
  have wf: "wfEntries es" using ok by (simp add: checkable_def)
  have "linearization model es (last sq)" if pos: "r"
  proof -
    obtain as where as: "linzBy (histOf model es) (Init model) {} as" "last sq = map (\<lambda>a. nid (startHeap es ! a)) as"
      using res pos by (auto simp: loop_result_def)
    note sub = linzBy_callNodes [OF ok as(1)]
    have "last sq = map (idAt es) as"
      unfolding as(2) using sub startHeap_data(2) [OF wf] by (auto simp: callNodes_def)
    then show ?thesis using linearization_linzBy [OF ok sub] as(1) by simp
  qed
  then show ?thesis using run res linearizable_linz [OF ok] by (auto simp: loop_result_def)
qed

text \<open>Property C30: the search of the linearizability checker is correct. On a well-formed history and a model
  that handles its values, \<open>checkSingle\<close> returns without a panic; when it is not interrupted its answer is
  whether the history is linearizable, and with a positive answer comes a linearization, which every entry of
  \<open>longest\<close> points to.\<close>

theorem checkSingle_correct:
  assumes "checkable model es"
  shows "\<exists>r lg sq. checkSingle model es computePartial (\<lambda>_. False) = Some (Some (r, lg, sq)) \<and>
    (r \<longleftrightarrow> linearizable model es) \<and>
    (r \<longrightarrow> linearization model es (last sq) \<and> lg = replicate (length es div 2) (Some (length sq - 1)) \<and> sq \<noteq> [])"
  using checkSingle_answer [OF assms, of computePartial "\<lambda>_. False"] by (auto simp: linearizable_def)

text \<open>The search ends. Whether or not partial linearizations are asked for and whenever the flag \<open>kill\<close>
  is set, \<open>checkSingle\<close> returns on a well-formed history, and a positive answer is right even when the flag was set.\<close>

theorem checkSingle_terminates:
  assumes "checkable model es"
  shows "\<exists>r lg sq. checkSingle model es computePartial kill = Some (Some (r, lg, sq)) \<and> (r \<longrightarrow> linearizable model es)"
  using checkSingle_answer [OF assms, of computePartial kill] by (auto simp: linearizable_def)

end
