(* ===== verification/CheckerOps.thy ===== *)
theory CheckerOps
  imports CheckerCorrect "HOL-Library.Multiset"
begin

text \<open>
  \<open>CheckOperations\<close>: histories of operations with their times, the partitions of a history and the
  goroutine that collects the answers of the searches.
\<close>

section \<open>Histories of operations\<close>

text \<open>What \<open>sort.Sort\<close> promises for \<open>byTime\<close>: the same entries, in the order of their times.\<close>

definition timeSorter :: "('v entry list \<Rightarrow> 'v entry list) \<Rightarrow> bool" where
  "timeSorter sorter \<longleftrightarrow> (\<forall>es. mset (sorter es) = mset es \<and> sorted (map etime (sorter es)))"

text \<open>
  Operations take time, and no operation returns in the very instant another is called; the order of
  entries of the same time is not specified.
\<close>

definition properOps :: "'v Operation list \<Rightarrow> bool" where
  "properOps h \<longleftrightarrow> int (length h) < 2 ^ 62 \<and>
     (\<forall>x \<in> set h. opCall x < opReturn x) \<and> (\<forall>x \<in> set h. \<forall>y \<in> set h. opReturn x \<noteq> opCall y)"

fun legalOps :: "('v, 'st) Model \<Rightarrow> 'v Operation list \<Rightarrow> 'st \<Rightarrow> nat list \<Rightarrow> bool" where
  "legalOps model h st [] \<longleftrightarrow> True"
| "legalOps model h st (i # is) \<longleftrightarrow>
     (case Step model st (Input (h ! i)) (Output (h ! i)) of
        Some (True, st') \<Rightarrow> legalOps model h st' is
      | _ \<Rightarrow> False)"

text \<open>
  Linearizability of a history of operations: they can be put in an order that the model accepts and
  in which an operation comes after all that returned before it was called.
\<close>

definition linearizableOps :: "('v, 'st) Model \<Rightarrow> 'v Operation list \<Rightarrow> bool" where
  "linearizableOps model h \<longleftrightarrow>
     (\<exists>ids. distinct ids \<and> set ids = {..<length h} \<and>
        sorted_wrt (\<lambda>i j. \<not> opReturn (h ! j) < opCall (h ! i)) ids \<and> legalOps model h (Init model) ids)"

definition stepTotalOps :: "('v, 'st) Model \<Rightarrow> 'v Operation list \<Rightarrow> bool" where
  "stepTotalOps model h \<longleftrightarrow> (\<forall>x \<in> set h. \<forall>y \<in> set h. \<forall>st. Step model st (Input x) (Output y) \<noteq> None)"

definition callOf :: "'v Operation list \<Rightarrow> nat \<Rightarrow> 'v entry" where
  "callOf h i = \<lparr>kind = callEntry, val = Input (h ! i), eid = int i, etime = opCall (h ! i), eclientId = opClientId (h ! i)\<rparr>"

definition returnOf :: "'v Operation list \<Rightarrow> nat \<Rightarrow> 'v entry" where
  "returnOf h i = \<lparr>kind = returnEntry, val = Output (h ! i), eid = int i, etime = opReturn (h ! i), eclientId = opClientId (h ! i)\<rparr>"

lemma callOf_simps [simp]:
  "kind (callOf h i) = callEntry" "val (callOf h i) = Input (h ! i)" "eid (callOf h i) = int i" "etime (callOf h i) = opCall (h ! i)"
  "kind (returnOf h i) = returnEntry" "val (returnOf h i) = Output (h ! i)" "eid (returnOf h i) = int i" "etime (returnOf h i) = opReturn (h ! i)"
  by (simp_all add: callOf_def returnOf_def)

lemma entriesFrom_append:
  "entriesFrom k (h @ [x]) = entriesFrom k h @ entriesFrom (k + int (length h)) [x]"
  by (induction h arbitrary: k) simp_all

lemma entriesFrom_concat: "entriesFrom 0 h = concat (map (\<lambda>i. [callOf h i, returnOf h i]) [0..<length h])"
proof (induction h rule: rev_induct)
  case (snoc x h)
  have "map (\<lambda>i. [callOf (h @ [x]) i, returnOf (h @ [x]) i]) [0..<length h] = map (\<lambda>i. [callOf h i, returnOf h i]) [0..<length h]"
    by (simp add: callOf_def returnOf_def nth_append)
  then show ?case using snoc by (simp add: entriesFrom_append callOf_def returnOf_def del: map_eq_conv)
qed simp

lemma entriesFrom_set: "set (entriesFrom 0 h) = (callOf h ` {..<length h}) \<union> (returnOf h ` {..<length h})"
  by (auto simp: entriesFrom_concat)

lemma entriesFrom_length: "length (entriesFrom k h) = 2 * length h"
  by (induction h arbitrary: k) simp_all

lemma entriesFrom_distinct: "distinct (entriesFrom 0 h)"
proof -
  have "card (set (entriesFrom 0 h)) = card (callOf h ` {..<length h}) + card (returnOf h ` {..<length h})"
    unfolding entriesFrom_set by (rule card_Un_disjoint) (auto simp: callOf_def returnOf_def)
  also have "card (callOf h ` {..<length h}) = length h" by (simp add: card_image inj_on_def callOf_def)
  also have "card (returnOf h ` {..<length h}) = length h" by (simp add: card_image inj_on_def returnOf_def)
  finally show ?thesis by (intro card_distinct) (simp add: entriesFrom_length)
qed

text \<open>The entries of a history.\<close>

lemma makeEntries_facts:
  assumes "timeSorter sorter"
  shows "set (makeEntries sorter h) = (callOf h ` {..<length h}) \<union> (returnOf h ` {..<length h})"
    "length (makeEntries sorter h) = 2 * length h" "distinct (makeEntries sorter h)"
    "sorted (map etime (makeEntries sorter h))"
proof -
  have m: "mset (makeEntries sorter h) = mset (entriesFrom 0 h)" and s: "sorted (map etime (makeEntries sorter h))"
    using assms by (auto simp: timeSorter_def makeEntries_def)
  show "sorted (map etime (makeEntries sorter h))" by (rule s)
  show "set (makeEntries sorter h) = (callOf h ` {..<length h}) \<union> (returnOf h ` {..<length h})"
    using mset_eq_setD [OF m] entriesFrom_set by metis
  show "length (makeEntries sorter h) = 2 * length h" using mset_eq_length [OF m] by (simp add: entriesFrom_length)
  show "distinct (makeEntries sorter h)" using mset_eq_imp_distinct_iff [OF m] entriesFrom_distinct by blast
qed

lemma makeEntries_pos:
  assumes "timeSorter sorter" and "i < length h"
  shows "\<exists>p < length (makeEntries sorter h). makeEntries sorter h ! p = callOf h i"
    "\<exists>p < length (makeEntries sorter h). makeEntries sorter h ! p = returnOf h i"
proof -
  have "callOf h i \<in> set (makeEntries sorter h)" "returnOf h i \<in> set (makeEntries sorter h)"
    using makeEntries_facts(1) [OF assms(1)] assms(2) by auto
  then show "\<exists>p < length (makeEntries sorter h). makeEntries sorter h ! p = callOf h i"
    "\<exists>p < length (makeEntries sorter h). makeEntries sorter h ! p = returnOf h i"
    by (auto simp: in_set_conv_nth)
qed

lemma makeEntries_elem:
  assumes "timeSorter sorter" and "p < length (makeEntries sorter h)"
  obtains i where "i < length h" "makeEntries sorter h ! p = callOf h i"
  | i where "i < length h" "makeEntries sorter h ! p = returnOf h i"
  using makeEntries_facts(1) [OF assms(1), of h] nth_mem [OF assms(2)] by auto

lemma sorted_time_less:
  assumes "sorted (map etime es)" "p < length es" "q < length es" "etime (es ! p) < etime (es ! q)"
  shows "p < q"
proof (rule ccontr)
  assume "\<not> p < q"
  then have "map etime es ! q \<le> map etime es ! p" using assms(1,2) by (intro sorted_nth_mono) auto
  then show False using assms by simp
qed

lemma makeEntries_wf:
  assumes srt: "timeSorter sorter" and ops: "properOps h"
  shows "wfEntries (makeEntries sorter h)"
proof -
  let ?es = "makeEntries sorter h"
  note f = makeEntries_facts [OF srt, of h]
  have later: "p < q" if "p < length ?es" "q < length ?es" "?es ! p = callOf h i" "?es ! q = returnOf h i" "i < length h" for p q i
    using sorted_time_less [OF f(4), of p q] that ops by (auto simp: properOps_def)
  have "p = q" if "p < length ?es" "q < length ?es" "kind (?es ! p) = kind (?es ! q)" "eid (?es ! p) = eid (?es ! q)" for p q
  proof -
    have "?es ! p = ?es ! q"
      using that(3,4)
      by (cases rule: makeEntries_elem [OF srt that(1)]; cases rule: makeEntries_elem [OF srt that(2)]) auto
    then show ?thesis using f(3) that(1,2) by (simp add: nth_eq_iff_index_eq)
  qed
  moreover have "\<exists>q < length ?es. p < q \<and> kind (?es ! q) = returnEntry \<and> eid (?es ! q) = eid (?es ! p)"
    if p: "p < length ?es" "kind (?es ! p) = callEntry" for p
  proof -
    obtain i where i: "i < length h" "?es ! p = callOf h i"
      using p(2) by (cases rule: makeEntries_elem [OF srt p(1)]) auto
    then obtain q where "q < length ?es" "?es ! q = returnOf h i" using makeEntries_pos(2) [OF srt] by blast
    then show ?thesis using later [OF p(1)] i by (metis callOf_simps(3,5,7))
  qed
  moreover have "\<exists>p < q. kind (?es ! p) = callEntry \<and> eid (?es ! p) = eid (?es ! q)"
    if q: "q < length ?es" "kind (?es ! q) = returnEntry" for q
  proof -
    obtain i where i: "i < length h" "?es ! q = returnOf h i"
      using q(2) by (cases rule: makeEntries_elem [OF srt q(1)]) auto
    then obtain p where "p < length ?es" "?es ! p = callOf h i" using makeEntries_pos(1) [OF srt] by blast
    then show ?thesis using later [OF _ q(1)] i by (metis callOf_simps(1,3,7))
  qed
  moreover have "int (length ?es) < 2 ^ 63" using ops f(2) by (simp add: properOps_def)
  moreover have "\<forall>e \<in> set ?es. 0 \<le> eid e \<and> eid e < int (length ?es div 2)" using f(1,2) by auto
  ultimately show ?thesis unfolding wfEntries_def by blast
qed

lemma makeEntries_checkable:
  assumes "timeSorter sorter" "properOps h" "stepTotalOps model h" "equalRespects model"
  shows "checkable model (makeEntries sorter h)"
proof -
  have "stepTotal model (makeEntries sorter h)"
    using assms(3) makeEntries_facts(1) [OF assms(1), of h] by (auto simp: stepTotal_def stepTotalOps_def)
  then show ?thesis using makeEntries_wf assms by (auto simp: checkable_def)
qed

text \<open>Positions in the sorted history and times.\<close>

lemma makeEntries_entryPos:
  assumes srt: "timeSorter sorter" and ops: "properOps h" and i: "i < length h"
  shows "entryPos (makeEntries sorter h) callEntry (int i) < length (makeEntries sorter h)"
    "makeEntries sorter h ! entryPos (makeEntries sorter h) callEntry (int i) = callOf h i"
    "entryPos (makeEntries sorter h) returnEntry (int i) < length (makeEntries sorter h)"
    "makeEntries sorter h ! entryPos (makeEntries sorter h) returnEntry (int i) = returnOf h i"
proof -
  obtain p q where p: "p < length (makeEntries sorter h)" "makeEntries sorter h ! p = callOf h i"
      and q: "q < length (makeEntries sorter h)" "makeEntries sorter h ! q = returnOf h i"
    using makeEntries_pos [OF srt i] by blast
  note wf = makeEntries_wf [OF srt ops]
  have e: "entryPos (makeEntries sorter h) callEntry (int i) = p" "entryPos (makeEntries sorter h) returnEntry (int i) = q"
    using entryPos_eq [OF wf p(1)] entryPos_eq [OF wf q(1)] p(2) q(2) by simp_all
  show "entryPos (makeEntries sorter h) callEntry (int i) < length (makeEntries sorter h)"
    "makeEntries sorter h ! entryPos (makeEntries sorter h) callEntry (int i) = callOf h i"
    "entryPos (makeEntries sorter h) returnEntry (int i) < length (makeEntries sorter h)"
    "makeEntries sorter h ! entryPos (makeEntries sorter h) returnEntry (int i) = returnOf h i"
    unfolding e using p q by simp_all
qed

lemma makeEntries_before:
  assumes srt: "timeSorter sorter" and ops: "properOps h" and "i < length h" "j < length h"
  shows "entryPos (makeEntries sorter h) returnEntry (int j) < entryPos (makeEntries sorter h) callEntry (int i)
    \<longleftrightarrow> opReturn (h ! j) < opCall (h ! i)"
proof -
  let ?es = "makeEntries sorter h"
  note p = makeEntries_entryPos(1,2) [OF srt ops assms(3)] and q = makeEntries_entryPos(3,4) [OF srt ops assms(4)]
  note s = sorted_time_less [OF makeEntries_facts(4) [OF srt, of h]]
  have "opReturn (h ! j) \<noteq> opCall (h ! i)" using ops assms(3,4) by (simp add: properOps_def)
  then consider "opReturn (h ! j) < opCall (h ! i)" | "opCall (h ! i) < opReturn (h ! j)" by linarith
  then show ?thesis
  proof cases
    case 1
    then show ?thesis using s [OF q(1) p(1)] p(2) q(2) by simp
  next
    case 2
    then show ?thesis using s [OF p(1) q(1)] p(2) q(2) by simp
  qed
qed

lemma legal_legalOps:
  assumes "timeSorter sorter" "properOps h" "set is \<subseteq> {..<length h}"
  shows "legal model (makeEntries sorter h) st (map int is) \<longleftrightarrow> legalOps model h st is"
  using assms(3)
proof (induction "is" arbitrary: st)
  case (Cons i "is")
  then have "i < length h" by simp
  then show ?case using Cons makeEntries_entryPos [OF assms(1,2)] by (simp split: option.splits prod.splits bool.splits)
qed simp

lemma makeEntries_linearizable:
  assumes "timeSorter sorter" "properOps h"
  shows "linearizable model (makeEntries sorter h) \<longleftrightarrow> linearizableOps model h"
proof -
  let ?es = "makeEntries sorter h"
  have ids: "eid ` set ?es = int ` {..<length h}" by (simp add: makeEntries_facts(1) [OF assms(1), of h] image_Un image_image)
  have lin: "linearization model ?es (map int is) \<longleftrightarrow> distinct is \<and> set is = {..<length h} \<and>
      sorted_wrt (\<lambda>i j. \<not> opReturn (h ! j) < opCall (h ! i)) is \<and> legalOps model h (Init model) is"
    if "set is \<subseteq> {..<length h}" for "is"
  proof -
    have "sorted_wrt (\<lambda>i j. \<not> entryPos ?es returnEntry j < entryPos ?es callEntry i) (map int is) \<longleftrightarrow>
        sorted_wrt (\<lambda>i j. \<not> opReturn (h ! j) < opCall (h ! i)) is"
      unfolding sorted_wrt_map
    proof (rule sorted_wrt_iff)
      fix i j assume "i \<in> set is" "j \<in> set is"
      then have "i < length h" "j < length h" using that by auto
      then show "\<not> entryPos ?es returnEntry (int j) < entryPos ?es callEntry (int i) \<longleftrightarrow> \<not> opReturn (h ! j) < opCall (h ! i)"
        using makeEntries_before [OF assms] by blast
    qed
    moreover have "set (map int is) = eid ` set ?es \<longleftrightarrow> set is = {..<length h}"
      unfolding ids set_map by (rule inj_image_eq_iff) (simp add: inj_on_def)
    moreover have "distinct (map int is) \<longleftrightarrow> distinct is" by (simp add: distinct_map inj_on_def)
    ultimately show ?thesis using legal_legalOps [OF assms that, of model "Init model"] unfolding linearization_def by blast
  qed
  show ?thesis
  proof
    assume "linearizable model ?es"
    then obtain xs where xs: "linearization model ?es xs" by (auto simp: linearizable_def)
    then have "xs \<in> map int ` lists {..<length h}"
      by (simp only: lists_image [symmetric] in_lists_conv_set) (simp add: linearization_def ids)
    then obtain "is" where "xs = map int is" "set is \<subseteq> {..<length h}" by (auto simp: lists_eq_set)
    then show "linearizableOps model h" using lin xs unfolding linearizableOps_def by blast
  next
    assume "linearizableOps model h"
    then obtain "is" where "distinct is" "set is = {..<length h}"
        "sorted_wrt (\<lambda>i j. \<not> opReturn (h ! j) < opCall (h ! i)) is" "legalOps model h (Init model) is"
      unfolding linearizableOps_def by blast
    then show "linearizable model ?es" using lin [of "is"] unfolding linearizable_def by auto
  qed
qed

section \<open>Collecting the answers\<close>

lemma verdict_Ok: "verdict ok timedOut = Ok \<longleftrightarrow> ok \<and> \<not> timedOut"
  by (simp add: verdict_def)

lemma collect_all_true:
  "\<forall>b \<in> set bs. b \<Longrightarrow> bs \<noteq> [] \<Longrightarrow> cnt + length bs = N \<Longrightarrow> collect ci N (map Result bs) True cnt = Some (True, False, N)"
proof (induction bs arbitrary: cnt)
  case (Cons b bs)
  show ?case
  proof (cases "bs = []")
    case False
    then have "cnt + 1 < N" using Cons.prems(3) by (cases bs) auto
    moreover have "\<forall>b \<in> set bs. b" "b" using Cons.prems(1) by auto
    ultimately show ?thesis using Cons.IH [OF _ False, of "cnt + 1"] Cons.prems(3) by (simp add: Let_def)
  qed (use Cons.prems in \<open>simp add: Let_def\<close>)
qed simp

lemma collect_some_false:
  "\<not> (\<forall>b \<in> set bs. b) \<Longrightarrow> cnt + length bs \<le> N \<Longrightarrow> \<exists>c. collect False N (map Result bs) True cnt = Some (False, False, c)"
proof (induction bs arbitrary: cnt)
  case (Cons b bs)
  show ?case
  proof (cases b)
    case True
    then have "bs \<noteq> []" using Cons.prems(1) by auto
    then have "cnt + 1 < N" using Cons.prems(2) by (cases bs) auto
    then show ?thesis using Cons.IH [of "cnt + 1"] Cons.prems True by (simp add: Let_def)
  next
    case False
    then show ?thesis by (simp add: Let_def)
  qed
qed simp

lemma collect_verbose:
  "bs \<noteq> [] \<Longrightarrow> cnt + length bs = N \<Longrightarrow> collect True N (map Result bs) k cnt = Some (k \<and> (\<forall>b \<in> set bs. b), False, N)"
proof (induction bs arbitrary: cnt k)
  case (Cons b bs)
  show ?case
  proof (cases "bs = []")
    case False
    then have "cnt + 1 < N" using Cons.prems(2) by (cases bs) auto
    then show ?thesis using Cons.IH [OF False, of "cnt + 1" "k \<and> b"] Cons.prems by (simp add: Let_def conj_assoc)
  qed (use Cons.prems in \<open>simp add: Let_def\<close>)
qed simp

text \<open>A verdict that all searches succeeded without a timeout means that every one of them was heard.\<close>

lemma collect_False: "collect ci N evs False cnt = Some (r, x, c) \<Longrightarrow> \<not> r"
  by (induction ci N evs False cnt rule: collect.induct) (auto simp: Let_def split: if_splits)

lemma collect_ok:
  "collect ci N evs k cnt = Some (True, False, c) \<Longrightarrow> cnt < N \<Longrightarrow>
    \<exists>us vs. evs = map Result us @ vs \<and> (\<forall>b \<in> set us. b) \<and> cnt + length us = N"
proof (induction ci N evs k cnt rule: collect.induct)
  case (2 ci N result evs k cnt)
  show ?case
  proof (cases "k \<and> result \<and> cnt + 1 < N")
    case True
    then obtain us vs where "evs = map Result us @ vs" "\<forall>b \<in> set us. b" "cnt + 1 + length us = N"
      using 2(1) [OF refl refl] 2(2,3) by (auto simp: Let_def)
    then have "Result result # evs = map Result (result # us) @ vs" "\<forall>b \<in> set (result # us). b" "cnt + length (result # us) = N"
      using True by auto
    then show ?thesis by blast
  next
    case False
    then have "result" "cnt + 1 = N"
      using 2(2,3) by (auto simp: Let_def dest: collect_False split: if_splits)
    then have "Result result # evs = map Result [result] @ evs" "\<forall>b \<in> set [result]. b" "cnt + length [result] = N" by auto
    then show ?thesis by blast
  qed
qed simp_all

section \<open>CheckOperations\<close>

lemma fillDefault_model [simp]:
  "Step (fillDefault model) = Step model" "Init (fillDefault model) = Init model"
  "modelEqual (fillDefault model) = modelEqual model"
  by (auto simp: fillDefault_def Let_def modelEqual_def split: option.split)

lemma legalOps_fillDefault: "legalOps (fillDefault model) h st is \<longleftrightarrow> legalOps model h st is"
  by (induction "is" arbitrary: st) (auto split: option.split bool.split)

lemma linearizableOps_fillDefault: "linearizableOps (fillDefault model) h \<longleftrightarrow> linearizableOps model h"
  by (simp add: linearizableOps_def legalOps_fillDefault)

lemma runSingles_answers:
  assumes "\<forall>es \<in> set hist. checkable model es"
  shows "\<exists>rs. runSingles model hist ci kills = Some rs \<and> length rs = length hist \<and>
    (\<forall>i < length hist. (fst (rs ! i) \<longrightarrow> linearizable model (hist ! i)) \<and>
      ((\<forall>k. \<not> kills i k) \<longrightarrow> linearizable model (hist ! i) \<longrightarrow> fst (rs ! i)))"
proof -
  let ?f = "\<lambda>i. Option.bind (checkSingle model (hist ! i) ci (kills i)) id"
  have ans: "\<exists>r lg sq. ?f i = Some (r, lg, sq) \<and> (r \<longrightarrow> linearizable model (hist ! i)) \<and>
      (\<not> r \<longrightarrow> linearizable model (hist ! i) \<longrightarrow> (\<exists>k. kills i k))" if "i < length hist" for i
  proof -
    have "checkable model (hist ! i)" using assms nth_mem [OF that] by blast
    from checkSingle_answer [OF this, of ci "kills i"]
    show ?thesis unfolding linearizable_def by auto
  qed
  then obtain rs where rs: "those (map ?f [0..<length hist]) = Some rs"
    using those_map_total [of "[0..<length hist]" ?f] by fastforce
  have len: "length rs = length hist" using those_eq_Some_length [OF rs] by simp
  have "?f i = Some (rs ! i)" if "i < length hist" for i
    using list_all2_nthD [OF those_map_SomeD [OF rs], of i] that by simp
  then have "(fst (rs ! i) \<longrightarrow> linearizable model (hist ! i)) \<and>
      ((\<forall>k. \<not> kills i k) \<longrightarrow> linearizable model (hist ! i) \<longrightarrow> fst (rs ! i))" if "i < length hist" for i
    using ans [OF that] that by fastforce
  then show ?thesis using rs len by (auto simp: runSingles_def)
qed

lemma partitions_checkable:
  assumes "timeSorter sorter" "equalRespects model" "\<forall>p \<in> set parts. properOps p \<and> stepTotalOps model p"
  shows "\<forall>es \<in> set (map (makeEntries sorter) parts). checkable (fillDefault model) es"
proof -
  have "equalRespects (fillDefault model)" using assms(2) by (simp add: equalRespects_def)
  moreover have "stepTotalOps (fillDefault model) p" if "p \<in> set parts" for p
    using assms(3) that by (simp add: stepTotalOps_def)
  ultimately show ?thesis using assms(1,3) by (auto intro: makeEntries_checkable)
qed

lemma partition_linearizable:
  assumes "timeSorter sorter" "properOps (parts ! i)" "i < length parts"
  shows "linearizable (fillDefault model) (map (makeEntries sorter) parts ! i) \<longleftrightarrow> linearizableOps model (parts ! i)"
  using assms(3) by (simp add: makeEntries_linearizable [OF assms(1,2)] linearizableOps_fillDefault)

lemma checkOperations_all:
  assumes "timeSorter sorter" "equalRespects model"
    and parts: "the (Partition (fillDefault model)) history = Some parts" "parts \<noteq> []"
    and proper: "\<forall>p \<in> set parts. properOps p \<and> stepTotalOps model p"
    and heard: "distinct is" "set is \<subseteq> {..<length parts}" "\<forall>i \<in> set is. \<forall>k. \<not> kills i k"
    and enough: "set is = {..<length parts} \<or> (\<exists>i \<in> set is. \<not> linearizableOps model (parts ! i))"
  shows "CheckOperations sorter kills (map Arrived is) model history = Some (\<forall>p \<in> set parts. linearizableOps model p)"
proof -
  let ?hist = "map (makeEntries sorter) parts" and ?m = "fillDefault model"
  obtain rs where rs: "runSingles ?m ?hist False kills = Some rs" "length rs = length parts"
    and ans: "\<And>i. i < length parts \<Longrightarrow> (fst (rs ! i) \<longrightarrow> linearizable ?m (?hist ! i)) \<and>
      ((\<forall>k. \<not> kills i k) \<longrightarrow> linearizable ?m (?hist ! i) \<longrightarrow> fst (rs ! i))"
    using runSingles_answers [OF partitions_checkable [OF assms(1,2) proper], of False kills] by auto
  let ?bs = "map (\<lambda>i. fst (rs ! i)) is"
  have b: "fst (rs ! i) \<longleftrightarrow> linearizableOps model (parts ! i)" if "i \<in> set is" for i
  proof -
    have i: "i < length parts" "\<forall>k. \<not> kills i k" using that heard(2,3) by auto
    then show ?thesis
      using ans [OF i(1)] partition_linearizable [OF assms(1) _ i(1), of model] proper nth_mem [OF i(1)] by blast
  qed
  have all: "(\<forall>p \<in> set parts. linearizableOps model p) \<longleftrightarrow> (\<forall>x \<in> set ?bs. x)"
  proof (cases "\<exists>i \<in> set is. \<not> linearizableOps model (parts ! i)")
    case True
    then show ?thesis using b heard(2) by (auto dest!: subsetD)
  next
    case False
    then show ?thesis using enough b by (auto simp: in_set_conv_nth)
  qed
  have len: "length is \<le> length parts" "set is = {..<length parts} \<Longrightarrow> length is = length parts"
    using heard(1,2) card_mono [of "{..<length parts}" "set is"] distinct_card [OF heard(1)] by auto
  have evs: "map (parEvent_of rs) (map Arrived is) = map Result ?bs" by simp
  have "\<exists>c. collect False (length ?hist) (map Result ?bs) True 0 = Some (\<forall>x \<in> set ?bs. x, False, c)"
  proof (cases "\<forall>x \<in> set ?bs. x")
    case True
    then have "set is = {..<length parts}" using enough b by auto
    then have "length is = length parts" by (rule len(2))
    then have "?bs \<noteq> []" "0 + length ?bs = length ?hist" using parts(2) by auto
    from collect_all_true [OF True this, of False]
    have "collect False (length ?hist) (map Result ?bs) True 0 = Some (\<forall>x \<in> set ?bs. x, False, length ?hist)"
      using True by simp
    then show ?thesis by (rule exI)
  next
    case False
    then show ?thesis using collect_some_false [OF False, of 0 "length ?hist"] len(1) by (simp only: False) simp
  qed
  then obtain c where "collect False (length ?hist) (map (parEvent_of rs) (map Arrived is)) True 0 = Some (\<forall>x \<in> set ?bs. x, False, c)"
    unfolding evs by blast
  then have "CheckOperations sorter kills (map Arrived is) model history = Some (\<forall>x \<in> set ?bs. x)"
    using rs(1) parts(1)
    by (simp add: CheckOperations_def checkOperations_def checkParallel_def verdict_Ok del: map_map set_map)
  then show ?thesis unfolding all .
qed

text \<open>The flag is set when the first negative answer is received.\<close>

lemma collect_decides:
  assumes "bs \<noteq> []"
  shows "\<exists>c. collect False (length bs) (map Result bs) True 0 = Some (\<forall>x \<in> set bs. x, False, c)"
proof (cases "\<forall>x \<in> set bs. x")
  case True
  then show ?thesis using collect_all_true [OF True assms, of 0 "length bs" False] by simp
next
  case False
  then show ?thesis using collect_some_false [OF False, of 0 "length bs"] by (simp only: False)
qed

lemma killStored_first:
  "p < length bs \<Longrightarrow> \<not> bs ! p \<Longrightarrow> \<forall>q < p. bs ! q \<Longrightarrow> cnt + length bs \<le> N \<Longrightarrow>
    killStored False N (map Result bs) True cnt = Some (cnt + p + 1)"
proof (induction bs arbitrary: p cnt)
  case (Cons b bs)
  show ?case
  proof (cases p)
    case (Suc p')
    then have "b" "p' < length bs" "\<not> bs ! p'" "\<forall>q < p'. bs ! q" using Cons.prems by auto
    moreover from this have "cnt + 1 < N" using Cons.prems(4) by simp
    ultimately show ?thesis using Cons.IH [of p' "cnt + 1"] Cons.prems(4) Suc by (simp add: Let_def)
  qed (use Cons.prems in \<open>simp add: Let_def\<close>)
qed simp

lemma checkOperations_flag:
  assumes "timeSorter sorter" "equalRespects model"
    and parts: "the (Partition (fillDefault model)) history = Some parts" "parts \<noteq> []"
    and proper: "\<forall>p \<in> set parts. properOps p \<and> stepTotalOps model p"
    and all: "distinct is" "set is = {..<length parts}"
    and kill: "operationKills sorter kills (map Arrived is) model history False"
  shows "CheckOperations sorter kills (map Arrived is) model history = Some (\<forall>p \<in> set parts. linearizableOps model p)"
proof -
  let ?hist = "map (makeEntries sorter) parts" and ?m = "fillDefault model"
  obtain rs where rs: "runSingles ?m ?hist False kills = Some rs" "length rs = length parts"
    and ans: "\<And>i. i < length parts \<Longrightarrow> (fst (rs ! i) \<longrightarrow> linearizable ?m (?hist ! i)) \<and>
      ((\<forall>k. \<not> kills i k) \<longrightarrow> linearizable ?m (?hist ! i) \<longrightarrow> fst (rs ! i))"
    using runSingles_answers [OF partitions_checkable [OF assms(1,2) proper], of False kills] by auto
  let ?bs = "map (\<lambda>i. fst (rs ! i)) is"
  have len: "length is = length parts" using distinct_card [OF all(1)] all(2) by simp
  have evs: "map (parEvent_of rs) (map Arrived is) = map Result ?bs" by simp
  have lin: "linearizable ?m (?hist ! i) \<longleftrightarrow> linearizableOps model (parts ! i)" if "i < length parts" for i
    using partition_linearizable [OF assms(1) _ that, of model] proper nth_mem [OF that] by blast
  have "(\<forall>p \<in> set parts. linearizableOps model p) \<longleftrightarrow> (\<forall>x \<in> set ?bs. x)"
  proof (cases "\<forall>x \<in> set ?bs. x")
    case True
    then have "\<forall>i < length parts. linearizableOps model (parts ! i)" using ans lin all(2) by auto
    then show ?thesis using True by (auto simp: in_set_conv_nth)
  next
    case False
    let ?p = "LEAST p. p < length ?bs \<and> \<not> ?bs ! p"
    have "\<exists>p. p < length ?bs \<and> \<not> ?bs ! p" using False by (metis in_set_conv_nth)
    then have p: "?p < length ?bs" "\<not> ?bs ! ?p" "\<forall>q < ?p. ?bs ! q"
      using LeastI_ex [of "\<lambda>p. p < length ?bs \<and> \<not> ?bs ! p"] not_less_Least [of _ "\<lambda>p. p < length ?bs \<and> \<not> ?bs ! p"]
      by (auto dest: less_trans)
    have "killStored False (length ?hist) (map (parEvent_of rs) (map Arrived is)) True 0 = Some (?p + 1)"
      unfolding evs using killStored_first [OF p, of 0 "length ?hist"] len by simp
    then have "\<not> kills i k" if "Arrived i \<in> set (take (?p + 1) (map Arrived is))" for i k
      using kill rs(1) parts(1) that by (auto simp: operationKills_def legalKills_def)
    moreover have "Arrived (is ! ?p) \<in> set (take (?p + 1) (map Arrived is))"
      using p(1) by (auto simp: in_set_conv_nth intro!: exI [of _ ?p])
    ultimately have "\<forall>k. \<not> kills (is ! ?p) k" by blast
    moreover have i: "is ! ?p < length parts" using p(1) all(2) nth_mem [of ?p "is"] by auto
    ultimately have "\<not> linearizableOps model (parts ! (is ! ?p))" using ans [OF i] lin [OF i] p(1,2) by auto
    then show ?thesis using False nth_mem [OF i] by blast
  qed
  moreover have "?bs \<noteq> []" using len parts(2) by auto
  from collect_decides [OF this] obtain c where
    "collect False (length ?hist) (map (parEvent_of rs) (map Arrived is)) True 0 = Some (\<forall>x \<in> set ?bs. x, False, c)"
    unfolding evs using len by auto
  ultimately show ?thesis using rs(1) parts(1)
    by (simp add: CheckOperations_def checkOperations_def checkParallel_def verdict_Ok del: map_map set_map)
qed

text \<open>Property C32: without a timeout, \<open>CheckOperations\<close> returns exactly whether every partition of the history is
  linearizable, in whatever order the searches of the partitions answer. A search that is told to stop because another
  one has already failed does not change the result: only the answers \<open>is\<close> that were received count, which are all of
  them or include a negative one.\<close>

theorem CheckOperations_correct:
  assumes "timeSorter sorter" "equalRespects model"
    and parts: "the (Partition (fillDefault model)) history = Some parts" "parts \<noteq> []"
    and proper: "\<forall>p \<in> set parts. properOps p \<and> stepTotalOps model p"
    and heard: "distinct is" "set is \<subseteq> {..<length parts}" "\<forall>i \<in> set is. \<forall>k. \<not> kills i k"
    and enough: "set is = {..<length parts} \<or> (\<exists>i \<in> set is. \<not> linearizableOps model (parts ! i))"
  shows "CheckOperations sorter kills (map Arrived is) model history = Some (\<forall>p \<in> set parts. linearizableOps model p)"
  using checkOperations_all [OF assms] .

text \<open>Property C34: the verdict \<open>Ok\<close> is never wrong, with or without a timeout, whenever the searches are told to
  stop and whether or not partial linearizations are asked for: all partitions are linearizable.\<close>

theorem checkOperations_sound:
  assumes "timeSorter sorter" "equalRespects model"
    and parts: "the (Partition (fillDefault model)) history = Some parts"
    and proper: "\<forall>p \<in> set parts. properOps p \<and> stepTotalOps model p"
    and arrivals: "distinct arrivals" "\<forall>i. Arrived i \<in> set arrivals \<longrightarrow> i < length parts"
    and ok: "checkOperations sorter kills arrivals model history verbose = Some (Ok, info)"
  shows "\<forall>p \<in> set parts. linearizableOps model p"
proof -
  let ?hist = "map (makeEntries sorter) parts" and ?m = "fillDefault model"
  obtain rs where rs: "runSingles ?m ?hist verbose kills = Some rs" "length rs = length parts"
    and ans: "\<And>i. i < length parts \<Longrightarrow> fst (rs ! i) \<longrightarrow> linearizable ?m (?hist ! i)"
    using runSingles_answers [OF partitions_checkable [OF assms(1,2) proper], of verbose kills] by auto
  obtain c where c: "collect verbose (length parts) (map (parEvent_of rs) arrivals) True 0 = Some (True, False, c)"
    using ok parts rs(1)
    by (auto simp: checkOperations_def checkParallel_def verdict_def Let_def split: Option.bind_splits prod.splits if_splits)
  show ?thesis
  proof (cases "parts = []")
    case False
    then obtain us vs where us: "map (parEvent_of rs) arrivals = map Result us @ vs" "\<forall>b \<in> set us. b" "length us = length parts"
      using collect_ok [OF c] by auto
    let ?as = "take (length us) arrivals"
    have m: "map (parEvent_of rs) ?as = map Result us" using us(1) by (metis append_eq_conv_conj length_map take_map)
    have len: "length ?as = length parts" using m us(3) by (metis length_map)
    have res: "\<exists>i. a = Arrived i \<and> i < length parts \<and> fst (rs ! i)" if "a \<in> set ?as" for a
    proof -
      have "parEvent_of rs a \<in> Result ` set us" using m that by (metis image_eqI image_set)
      then show ?thesis using us(2) arrivals(2) in_set_takeD [OF that] by (cases a) auto
    qed
    then have sub: "set ?as \<subseteq> Arrived ` {..<length parts}" by fastforce
    have "card (set ?as) = length parts" using distinct_card [of ?as] arrivals(1) len by simp
    then have "set ?as = Arrived ` {..<length parts}"
      using card_subset_eq [OF _ sub] by (simp add: card_image inj_on_def)
    then have "fst (rs ! i)" if "i < length parts" for i using res [of "Arrived i"] that by blast
    then have "linearizableOps model (parts ! i)" if "i < length parts" for i
      using ans that partition_linearizable [OF assms(1), of parts i model] proper by simp
    then show ?thesis by (auto simp: in_set_conv_nth)
  qed simp
qed

end
