(* ===== verification/KvModel.thy ===== *)
theory KvModel
  imports Checker "HOL-Library.List_Lexorder" "HOL-Library.Char_ord"
begin

text \<open>
  The sequential specification of the key/value store that the tests hand to the
  linearizability checker, \<open>src/src/models/kv.go\<close>.
\<close>

record KvInput =
  kiOp :: "8 word"
  kiKey :: string
  kiValue :: string

record KvOutput =
  koValue :: string

text \<open>The values of type \<open>interface{}\<close> that occur in a history of the store.\<close>

datatype kv_value = KvIn KvInput | KvOut KvOutput

fun asInput :: "kv_value \<Rightarrow> KvInput option" where
  "asInput (KvIn i) = Some i"
| "asInput (KvOut x) = None"

fun asOutput :: "kv_value \<Rightarrow> KvOutput option" where
  "asOutput (KvIn i) = None"
| "asOutput (KvOut x) = Some x"

fun groupByKey ::
    "kv_value Operation list \<Rightarrow> (string \<rightharpoonup> kv_value Operation list) \<Rightarrow> string list
      \<Rightarrow> ((string \<rightharpoonup> kv_value Operation list) \<times> string list) option" where
  "groupByKey [] m ks = Some (m, ks)"
| "groupByKey (v # vs) m ks =
     do {
       inp \<leftarrow> asInput (Input v);
       let k = kiKey inp;
       case m k of
         None \<Rightarrow> groupByKey vs (m(k \<mapsto> [v])) (ks @ [k])
       | Some l \<Rightarrow> groupByKey vs (m(k \<mapsto> l @ [v])) ks
     }"

definition kvPartition :: "kv_value Operation list \<Rightarrow> kv_value Operation list list option" where
  "kvPartition history =
     do {
       (m, ks) \<leftarrow> groupByKey history Map.empty [];
       let keys = sort ks;
       Some (map (\<lambda>k. the (m k)) keys)
     }"

definition kvStep :: "string \<Rightarrow> kv_value \<Rightarrow> kv_value \<Rightarrow> (bool \<times> string) option" where
  "kvStep st input output =
     do {
       inp \<leftarrow> asInput input;
       out \<leftarrow> asOutput output;
       if kiOp inp = 0 then Some (koValue out = st, st)
       else if kiOp inp = 1 then Some (True, kiValue inp)
       else Some (True, st @ kiValue inp)
     }"

definition quoted :: "string \<Rightarrow> string" where
  "quoted s = CHR 0x27 # s @ [CHR 0x27]"

definition kvDescribeOperation :: "kv_value \<Rightarrow> kv_value \<Rightarrow> string option" where
  "kvDescribeOperation input output =
     do {
       inp \<leftarrow> asInput input;
       out \<leftarrow> asOutput output;
       Some (if kiOp inp = 0 then ''get('' @ quoted (kiKey inp) @ '') -> '' @ quoted (koValue out)
             else if kiOp inp = 1 then
               ''put('' @ quoted (kiKey inp) @ '', '' @ quoted (kiValue inp) @ '')''
             else if kiOp inp = 2 then
               ''append('' @ quoted (kiKey inp) @ '', '' @ quoted (kiValue inp) @ '')''
             else ''<invalid>'')
     }"

definition KvModel :: "(kv_value, string) Model" where
  "KvModel = \<lparr>Partition = Some kvPartition, PartitionEvent = None, Init = [], Step = kvStep, Equal = None\<rparr>"

end
