(* ===== verification/KvCheck.thy ===== *)
theory KvCheck
  imports CheckerOps KvModel
begin

text \<open>
  The checker on histories of the key/value store: \<open>kvPartition\<close> splits a history by key, and each
  part is checked against a register that starts with the empty string.
\<close>

definition opKey :: "kv_value Operation \<Rightarrow> string" where
  "opKey v = (case asInput (Input v) of Some i \<Rightarrow> kiKey i | None \<Rightarrow> [])"

text \<open>Operations of the store: inputs and outputs of the types that \<open>models/kv.go\<close> casts to.\<close>

definition kvTyped :: "kv_value Operation \<Rightarrow> bool" where
  "kvTyped v \<longleftrightarrow> asInput (Input v) \<noteq> None \<and> asOutput (Output v) \<noteq> None"

definition ofKey :: "kv_value Operation list \<Rightarrow> string \<Rightarrow> kv_value Operation list" where
  "ofKey h k = filter (\<lambda>v. opKey v = k) h"

definition keyMap :: "kv_value Operation list \<Rightarrow> string \<Rightarrow> kv_value Operation list option" where
  "keyMap h k = (if ofKey h k = [] then None else Some (ofKey h k))"

lemma keyMap_snoc: "keyMap (ds @ [v]) = (keyMap ds)(opKey v \<mapsto> ofKey ds (opKey v) @ [v])"
  by (auto simp: keyMap_def ofKey_def fun_eq_iff)

lemma groupByKey_groups:
  assumes "\<forall>v \<in> set vs. asInput (Input v) \<noteq> None" and "distinct ks" and "set ks = opKey ` set ds"
  shows "\<exists>ks'. groupByKey vs (keyMap ds) ks = Some (keyMap (ds @ vs), ks') \<and> distinct ks' \<and> set ks' = opKey ` set (ds @ vs)"
  using assms
proof (induction vs arbitrary: ds ks)
  case Nil
  then show ?case by simp
next
  case (Cons v vs)
  obtain i where i: "asInput (Input v) = Some i" using Cons.prems(1) by auto
  then have k: "opKey v = kiKey i" by (simp add: opKey_def)
  have new: "keyMap ds (kiKey i) = None \<longleftrightarrow> kiKey i \<notin> opKey ` set ds"
    by (auto simp: keyMap_def ofKey_def filter_empty_conv image_iff) metis
  show ?case
  proof (cases "keyMap ds (kiKey i)")
    case None
    then have e: "ofKey ds (kiKey i) = []" by (auto simp: keyMap_def split: if_splits)
    then have "groupByKey (v # vs) (keyMap ds) ks = groupByKey vs (keyMap (ds @ [v])) (ks @ [kiKey i])"
      using None i k by (simp add: keyMap_snoc Let_def)
    then show ?thesis using Cons.IH [of "ks @ [kiKey i]" "ds @ [v]"] Cons.prems None new k by simp
  next
    case (Some l)
    then have "l = ofKey ds (kiKey i)" by (auto simp: keyMap_def split: if_splits)
    then have "groupByKey (v # vs) (keyMap ds) ks = groupByKey vs (keyMap (ds @ [v])) ks"
      using Some i k by (simp add: keyMap_snoc Let_def)
    then show ?thesis using Cons.IH [of ks "ds @ [v]"] Cons.prems Some new k by (simp add: insert_absorb)
  qed
qed

lemma groupByKey_panics: "\<exists>v \<in> set vs. asInput (Input v) = None \<Longrightarrow> groupByKey vs m ks = None"
proof (induction vs arbitrary: m ks)
  case (Cons v vs)
  then show ?case by (cases "asInput (Input v)") (auto simp: Let_def split: option.splits)
qed simp

lemma kvPartition_inputs:
  assumes "\<forall>v \<in> set h. asInput (Input v) \<noteq> None"
  shows "kvPartition h = Some (map (ofKey h) (sorted_list_of_set (opKey ` set h)))"
proof -
  have "keyMap [] = Map.empty" by (simp add: keyMap_def ofKey_def fun_eq_iff)
  then obtain ks where ks: "groupByKey h Map.empty [] = Some (keyMap h, ks)" "distinct ks" "set ks = opKey ` set h"
    using groupByKey_groups [of h "[]" "[]"] assms by auto
  have s: "sort ks = sorted_list_of_set (opKey ` set h)"
    using ks(2,3) by (metis sorted_list_of_set_sort_remdups distinct_remdups_id)
  have "the (keyMap h k) = ofKey h k" if "k \<in> set ks" for k
    using that ks(3) by (auto simp: keyMap_def ofKey_def filter_empty_conv)
  then have "map (\<lambda>k. the (keyMap h k)) (sort ks) = map (ofKey h) (sort ks)" by simp
  then show ?thesis using ks(1) s by (simp add: kvPartition_def)
qed

text \<open>\<open>kvPartition\<close> splits a history by key, with the keys in increasing order and the operations of a
  key in their order in the history; it panics exactly on an input that is not a \<open>KvInput\<close>.\<close>

theorem kvPartition_by_key:
  "kvPartition h =
     (if \<forall>v \<in> set h. asInput (Input v) \<noteq> None
      then Some (map (\<lambda>k. filter (\<lambda>v. opKey v = k) h) (sorted_list_of_set (opKey ` set h)))
      else None)"
  using kvPartition_inputs [of h] groupByKey_panics [of h]
  by (auto simp: ofKey_def [abs_def] kvPartition_def)

section \<open>The verdict on a store\<close>

lemma kvModel_respects: "equalRespects KvModel"
  by (simp add: equalRespects_def modelEqual_def KvModel_def ShallowEqual_def)

lemma kvStep_total: "kvTyped x \<Longrightarrow> kvTyped y \<Longrightarrow> kvStep st (Input x) (Output y) \<noteq> None"
  by (auto simp: kvTyped_def kvStep_def)

lemma kv_partition_proper:
  assumes "properOps h" and "\<forall>v \<in> set h. kvTyped v"
  shows "properOps (ofKey h k) \<and> stepTotalOps KvModel (ofKey h k)"
proof -
  have "length (ofKey h k) \<le> length h" by (simp add: ofKey_def)
  then have "int (length (ofKey h k)) < 2 ^ 62" using assms(1) by (simp add: properOps_def)
  then show ?thesis using assms kvStep_total
    by (auto simp: properOps_def stepTotalOps_def ofKey_def KvModel_def)
qed

lemma kv_checked_parts:
  assumes "timeSorter sorter" and "properOps h" and "\<forall>v \<in> set h. kvTyped v" and "h \<noteq> []"
    and "distinct is" and "set is = {..<card (opKey ` set h)}"
    and "operationKills sorter kills (map Arrived is) KvModel h False"
  shows "CheckOperations sorter kills (map Arrived is) KvModel h =
    Some (\<forall>k \<in> opKey ` set h. linearizableOps KvModel (filter (\<lambda>v. opKey v = k) h))"
proof -
  let ?parts = "map (ofKey h) (sorted_list_of_set (opKey ` set h))"
  have "\<forall>v \<in> set h. asInput (Input v) \<noteq> None" using assms(3) by (auto simp: kvTyped_def)
  then have "the (Partition (fillDefault KvModel)) h = Some ?parts"
    using kvPartition_inputs by (simp add: fillDefault_def KvModel_def Let_def)
  moreover have "?parts \<noteq> []" using assms(4) by simp
  moreover have "\<forall>p \<in> set ?parts. properOps p \<and> stepTotalOps KvModel p" using kv_partition_proper [OF assms(2,3)] by auto
  moreover have "length ?parts = card (opKey ` set h)" by simp
  ultimately show ?thesis
    using checkOperations_flag [OF assms(1) kvModel_respects, of h ?parts "is" kills] assms(5-7)
    by (simp add: ofKey_def)
qed

text \<open>Property C31: for a history of operations of the key/value store that is not empty, in which operations take
  time and none returns in the very instant another is called, \<open>CheckOperations\<close> with the model of \<open>models/kv.go\<close>
  answers whether the operations on each key are linearizable as those of a register that is empty at the start.
  The searches of the keys answer in any order, and those that have not answered when the first negative answer
  is received may be interrupted at any moment by the flag that is set then.\<close>

theorem kv_checked_per_key:
  assumes "timeSorter sorter" and "properOps h" and "\<forall>v \<in> set h. kvTyped v" and "h \<noteq> []"
    and "distinct is" and "set is = {..<card (opKey ` set h)}"
    and "operationKills sorter kills (map Arrived is) KvModel h False"
  shows "CheckOperations sorter kills (map Arrived is) KvModel h =
    Some (\<forall>k \<in> opKey ` set h. linearizableOps KvModel (filter (\<lambda>v. opKey v = k) h))"
  using kv_checked_parts [OF assms] .

text \<open>A history with two overlapping operations on one key, the second reading what the first writes.\<close>

definition kvExample :: "kv_value Operation list" where
  "kvExample =
     [\<lparr>opClientId = 0, Input = KvIn \<lparr>kiOp = 1, kiKey = ''x'', kiValue = ''a''\<rparr>, opCall = 1,
       Output = KvOut \<lparr>koValue = ''''\<rparr>, opReturn = 10\<rparr>,
      \<lparr>opClientId = 1, Input = KvIn \<lparr>kiOp = 0, kiKey = ''x'', kiValue = ''''\<rparr>, opCall = 2,
       Output = KvOut \<lparr>koValue = ''a''\<rparr>, opReturn = 5\<rparr>]"

lemma timeSorter_sort_key: "timeSorter (sort_key etime)"
  by (simp add: timeSorter_def)

lemma kvExample_ok: "properOps kvExample" "\<forall>v \<in> set kvExample. kvTyped v" "kvExample \<noteq> []" "opKey ` set kvExample = {''x''}"
  by (simp_all add: properOps_def kvExample_def kvTyped_def opKey_def)

lemma kvExample_verdict:
  "map_option fst (checkOperations (sort_key etime) (\<lambda>_ _. False) [Arrived 0] KvModel kvExample False) = Some Ok"
  by code_simp

lemma kvExample_CheckOperations: "CheckOperations (sort_key etime) (\<lambda>_ _. False) [Arrived 0] KvModel kvExample = Some True"
  by code_simp

lemma no_kills: "operationKills sorter (\<lambda>_ _. False) arrivals model h verbose"
  by (simp add: operationKills_def legalKills_def split: option.split)

theorem kv_checked_per_key_witness:
  "linearizableOps KvModel (filter (\<lambda>v. opKey v = ''x'') kvExample)"
  using kv_checked_per_key [OF timeSorter_sort_key kvExample_ok(1-3), of "[0]" "\<lambda>_ _. False"]
    kvExample_ok(4) kvExample_CheckOperations
  by (simp add: lessThan_Suc no_kills)

lemma kvExample_parts: "the (Partition (fillDefault KvModel)) kvExample = Some [kvExample]"
  by code_simp

lemma kvExample_steps: "\<forall>p \<in> set [kvExample]. properOps p \<and> stepTotalOps KvModel p"
proof -
  have "ofKey kvExample ''x'' = kvExample" by (simp add: ofKey_def kvExample_def opKey_def)
  then show ?thesis using kv_partition_proper [OF kvExample_ok(1,2), of "''x''"] by simp
qed

theorem CheckOperations_correct_witness: "linearizableOps KvModel kvExample"
  using CheckOperations_correct [OF timeSorter_sort_key kvModel_respects kvExample_parts _ kvExample_steps, of "[0]" "\<lambda>_ _. False"]
    kvExample_CheckOperations
  by (simp add: lessThan_Suc)

theorem checkOperations_sound_witness: "linearizableOps KvModel kvExample"
proof -
  obtain info where "checkOperations (sort_key etime) (\<lambda>_ _. False) [Arrived 0] KvModel kvExample False = Some (Ok, info)"
    using kvExample_verdict by auto
  then have "\<forall>p \<in> set [kvExample]. linearizableOps KvModel p"
    by (intro checkOperations_sound [OF timeSorter_sort_key kvModel_respects kvExample_parts kvExample_steps]) simp_all
  then show ?thesis by simp
qed

lemma kvExample_checkable: "checkable KvModel (makeEntries (sort_key etime) kvExample)"
  using makeEntries_checkable [OF timeSorter_sort_key kvExample_ok(1) _ kvModel_respects] kvExample_steps by simp

theorem checkSingle_terminates_witness:
  "\<exists>res. checkSingle KvModel (makeEntries (sort_key etime) kvExample) True (\<lambda>k. k = 3) = Some (Some res)"
  using checkSingle_terminates [OF kvExample_checkable, of True "\<lambda>k. k = 3"] by blast

theorem checkSingle_correct_witness: "linearizable KvModel (makeEntries (sort_key etime) kvExample)"
proof -
  have "map_option (map_option fst) (checkSingle KvModel (makeEntries (sort_key etime) kvExample) False (\<lambda>_. False)) = Some (Some True)"
    by code_simp
  then show ?thesis using checkSingle_correct [OF kvExample_checkable, of False] by auto
qed

end
