(* ===== verification/KVLinear.thy ===== *)
theory KVLinear
  imports KVReplicas KvCheck
begin

text \<open>
  Linearizability of the replicated key/value service, stated with the definition that the checker of
  \<open>src/src/porcupine\<close> decides. An execution of the service is a sequence of states and actions; a request
  is an operation with an identifier of its own that enters Raft after the request was made and is
  answered from the record of some server.
\<close>

section \<open>Executions and requests\<close>

definition rrun :: "(nat \<Rightarrow> service) \<Rightarrow> (nat \<Rightarrow> Op mem_action) \<Rightarrow> nat \<Rightarrow> bool" where
  "rrun tr ac N \<longleftrightarrow> rstart (tr 0) \<and> (\<forall>n < N. raction timely (ac n) (tr n) (tr (Suc n)))"

definition submitted :: "(nat \<Rightarrow> Op mem_action) \<Rightarrow> nat \<Rightarrow> Op set" where
  "submitted ac n = {op. \<exists>m < n. \<exists>i k. ac m = Act (Client i op) k}"

text \<open>
  A request of a clerk: the moment at which it is made, the one at which a server's handler reads the
  recorded result that becomes the answer, and the one at which the clerk returns.
\<close>

record request =
  rqOp :: Op
  rqClient :: int
  rqCall :: nat
  rqRead :: nat
  rqReturn :: nat
  rqServer :: nat
  rqResult :: Record

text \<open>
  All requests of an execution: their identifiers differ, what is submitted to Raft belongs to a request
  that has been made, and every request has been answered.
\<close>

definition served :: "(nat \<Rightarrow> service) \<Rightarrow> (nat \<Rightarrow> Op mem_action) \<Rightarrow> nat \<Rightarrow> request list \<Rightarrow> bool" where
  "served tr ac N reqs \<longleftrightarrow> distinct (map (OpID \<circ> rqOp) reqs) \<and>
     (\<forall>n < N. \<forall>i op k. ac n = Act (Client i op) k \<longrightarrow> (\<exists>q \<in> set reqs. op = rqOp q \<and> rqCall q \<le> n)) \<and>
     (\<forall>q \<in> set reqs. valid_op (rqOp q) \<and> rqRead q \<le> rqReturn q \<and> rqReturn q \<le> N \<and> rqServer q < length (snd (tr 0)) \<and>
        execRecord (serverAt (tr (rqRead q)) (rqServer q)) (OpID (rqOp q)) = Some (rqResult q))"

section \<open>What has been executed\<close>

lemma submitted_mono: "m \<le> n \<Longrightarrow> submitted ac m \<subseteq> submitted ac n"
  by (auto simp: submitted_def intro: less_le_trans)

lemma rinv_mono:
  assumes "rinv X B sk" and "X \<subseteq> Y"
  shows "rinv Y B sk"
proof -
  obtain s kvs where sk: "sk = (s, kvs)" by (cases sk)
  obtain H C G where i: "vinv (nodes (cl s)) (net (cl s)) H C" "linv (nodes (cl s)) (net (cl s)) H G" "length kvs = length (nodes (cl s))"
    "cmd_inv X (cl s)" "\<forall>ops \<in> B. all_recorded (length (nodes (cl s))) G ops"
    "\<forall>i < length (nodes (cl s)). \<exists>ops. executed_ops (length (nodes (cl s))) G (nodes (cl s) ! i) (kvs ! i) ops \<and> set ops \<subseteq> X"
    using assms(1) by (auto simp: sk rinv_def)
  have "commands X es \<Longrightarrow> commands Y es" for es using assms(2) by (auto simp: commands_def)
  moreover from this have "msg_commands X m \<Longrightarrow> msg_commands Y m" for m by (cases m) auto
  ultimately have "cmd_inv Y (cl s)" using i(4) by (auto simp: cmd_inv_def)
  moreover have "\<forall>i < length (nodes (cl s)). \<exists>ops. executed_ops (length (nodes (cl s))) G (nodes (cl s) ! i) (kvs ! i) ops \<and> set ops \<subseteq> Y"
    using i(6) assms(2) by blast
  ultimately show ?thesis unfolding sk by (intro rinvI [OF i(1,2,3) _ i(5)])
qed

text \<open>What the servers have executed now can be remembered.\<close>

lemma rinv_remember:
  assumes "rinv X B sk"
  shows "\<exists>f. (\<forall>i < length (snd sk). kv_at (snd sk ! i) (f i) \<and> set (f i) \<subseteq> X) \<and> rinv X (B \<union> f ` {..<length (snd sk)}) sk"
proof -
  obtain s kvs where sk: "sk = (s, kvs)" by (cases sk)
  obtain H C G where i: "vinv (nodes (cl s)) (net (cl s)) H C" "linv (nodes (cl s)) (net (cl s)) H G" "length kvs = length (nodes (cl s))"
    "cmd_inv X (cl s)" "\<forall>ops \<in> B. all_recorded (length (nodes (cl s))) G ops"
    "\<forall>i < length (nodes (cl s)). \<exists>ops. executed_ops (length (nodes (cl s))) G (nodes (cl s) ! i) (kvs ! i) ops \<and> set ops \<subseteq> X"
    using assms(1) by (auto simp: sk rinv_def)
  then obtain f where f: "\<forall>i < length (nodes (cl s)). executed_ops (length (nodes (cl s))) G (nodes (cl s) ! i) (kvs ! i) (f i) \<and> set (f i) \<subseteq> X"
    by metis
  then have "\<forall>ops \<in> B \<union> f ` {..<length (snd sk)}. all_recorded (length (nodes (cl s))) G ops"
    using i(3,5) by (auto simp: sk executed_ops_def)
  from rinvI [OF i(1-4) this i(6)] show ?thesis using f i(3) unfolding sk executed_ops_def by (intro exI [of _ f]) simp
qed

lemma rinv_prefix:
  assumes "rinv X B sk" and "a \<in> B" and "b \<in> B"
  shows "a = take (length a) b \<or> b = take (length b) a"
proof -
  obtain s kvs where sk: "sk = (s, kvs)" by (cases sk)
  obtain H G where l: "linv (nodes (cl s)) (net (cl s)) H G" "\<forall>ops \<in> B. all_recorded (length (nodes (cl s))) G ops"
    using assms(1) by (auto simp: sk rinv_def)
  have "ginv (length (nodes (cl s))) H G" using l(1) by (simp add: linv_def)
  from all_recorded_prefix [OF this log_inv_voted [OF l(1)]] show ?thesis using l(2) assms(2,3) by blast
qed

lemma raction_length: "raction timely x sk tk \<Longrightarrow> length (snd tk) = length (snd sk)"
  by (auto elim: raction.cases)

lemma rrun_executed:
  assumes run: "rrun tr ac N" and "n \<le> N"
  shows "length (snd (tr n)) = length (snd (tr 0)) \<and>
    (\<exists>e. (\<forall>m \<le> n. \<forall>i < length (snd (tr 0)). kv_at (snd (tr m) ! i) (e m i) \<and> set (e m i) \<subseteq> submitted ac m) \<and>
       rinv (submitted ac n) {e m i | m i. m \<le> n \<and> i < length (snd (tr 0))} (tr n))"
  using assms(2)
proof (induction n)
  case 0
  have "rinv (submitted ac 0) {} (tr 0)" using run rstart_rinv by (simp add: rrun_def)
  from rinv_remember [OF this] obtain f where f: "\<forall>i < length (snd (tr 0)). kv_at (snd (tr 0) ! i) (f i) \<and> set (f i) \<subseteq> submitted ac 0"
    "rinv (submitted ac 0) (f ` {..<length (snd (tr 0))}) (tr 0)" by auto
  moreover have "{f i | m i. m \<le> (0::nat) \<and> i < length (snd (tr 0))} = f ` {..<length (snd (tr 0))}" by auto
  ultimately show ?case by (intro conjI exI [of _ "\<lambda>_. f"]) simp_all
next
  case (Suc n)
  let ?k = "length (snd (tr 0))" and ?X = "submitted ac (Suc n)"
  obtain e where len: "length (snd (tr n)) = ?k" and e: "\<forall>m \<le> n. \<forall>i < ?k. kv_at (snd (tr m) ! i) (e m i) \<and> set (e m i) \<subseteq> submitted ac m"
    "rinv (submitted ac n) {e m i | m i. m \<le> n \<and> i < ?k} (tr n)" using Suc by auto
  have step: "raction timely (ac n) (tr n) (tr (Suc n))" using run Suc.prems by (simp add: rrun_def)
  have "rinv ?X {e m i | m i. m \<le> n \<and> i < ?k} (tr n)" by (rule rinv_mono [OF e(2) submitted_mono]) simp
  then have "rinv ?X {e m i | m i. m \<le> n \<and> i < ?k} (tr (Suc n))"
    by (rule raction_rinv [OF step]) (auto simp: submitted_def)
  from rinv_remember [OF this] obtain f where f: "\<forall>i < length (snd (tr (Suc n))). kv_at (snd (tr (Suc n)) ! i) (f i) \<and> set (f i) \<subseteq> ?X"
    "rinv ?X ({e m i | m i. m \<le> n \<and> i < ?k} \<union> f ` {..<length (snd (tr (Suc n)))}) (tr (Suc n))" by blast
  have len': "length (snd (tr (Suc n))) = ?k" using raction_length [OF step] len by simp
  have "{e m i | m i. m \<le> n \<and> i < ?k} \<union> f ` {..<?k} = {(e(Suc n := f)) m i | m i. m \<le> Suc n \<and> i < ?k}"
  proof (rule set_eqI, rule iffI)
    fix x assume "x \<in> {e m i | m i. m \<le> n \<and> i < ?k} \<union> f ` {..<?k}"
    then consider m i where "x = e m i" "m \<le> n" "i < ?k" | i where "x = f i" "i < ?k" by auto
    then show "x \<in> {(e(Suc n := f)) m i | m i. m \<le> Suc n \<and> i < ?k}"
    proof cases
      case (1 m i)
      then have "x = (e(Suc n := f)) m i \<and> m \<le> Suc n \<and> i < ?k" by auto
      then show ?thesis by blast
    next
      case (2 i)
      then have "x = (e(Suc n := f)) (Suc n) i \<and> Suc n \<le> Suc n \<and> i < ?k" by auto
      then show ?thesis by blast
    qed
  qed (auto simp: le_Suc_eq)
  then show ?case using e(1) f len' by (intro conjI exI [of _ "e(Suc n := f)"]) (auto simp: le_Suc_eq)
qed

section \<open>The order of the requests\<close>

text \<open>
  Where the log has the operation of a request for the first time: there it got its result, and by the time
  the result was read everything up to there had been submitted.
\<close>

definition placed :: "(nat \<Rightarrow> Op mem_action) \<Rightarrow> Op list \<Rightarrow> request \<Rightarrow> nat \<Rightarrow> bool" where
  "placed ac E q p \<longleftrightarrow> p < length E \<and> E ! p = rqOp q \<and>
     (\<forall>op \<in> set (take p E). OpID op = OpID (rqOp q) \<longrightarrow> \<not> valid_op op) \<and>
     rqResult q = snd (kv_spec (rqOp q) (spec_run kv_spec (effective OpID valid_op {} (take p E)) Map.empty)) \<and>
     set (take p E) \<subseteq> submitted ac (rqRead q)"

lemma served_inj:
  assumes "served tr ac N reqs" and "q \<in> set reqs" and "q' \<in> set reqs" and "OpID (rqOp q) = OpID (rqOp q')"
  shows "q = q'"
  using assms inj_onD [of "OpID \<circ> rqOp" "set reqs" q q'] by (simp add: served_def distinct_map)

lemma served_submitted:
  assumes "served tr ac N reqs" and "op \<in> submitted ac n" and "n \<le> N"
  shows "\<exists>q \<in> set reqs. op = rqOp q \<and> rqCall q < n"
proof -
  obtain m i k where m: "m < n" "ac m = Act (Client i op) k" using assms(2) by (auto simp: submitted_def)
  then obtain q where "q \<in> set reqs" "op = rqOp q" "rqCall q \<le> m"
    using assms(1,3) unfolding served_def by (meson less_le_trans)
  then show ?thesis using m(1) by auto
qed

lemma served_placed_own:
  assumes srv: "served tr ac N reqs" and q: "q \<in> set reqs"
    and at: "kv_at (snd (tr (rqRead q)) ! rqServer q) E" and sub: "set E \<subseteq> submitted ac (rqRead q)"
  shows "\<exists>p. placed ac E q p"
proof -
  have "execRecord (snd (tr (rqRead q)) ! rqServer q) (OpID (rqOp q)) = Some (rqResult q)" and N: "rqRead q \<le> N"
    using srv q by (auto simp: served_def serverAt_def)
  then have "execRecord (fold applyOp E empty_kv) (OpID (rqOp q)) = Some (rqResult q)" using at by (simp add: kv_at_iff)
  from kv.seen_result [OF this] obtain pre op post where p: "E = pre @ op # post" "OpID op = OpID (rqOp q)" "valid_op op"
    "\<forall>op' \<in> set pre. OpID op' = OpID (rqOp q) \<longrightarrow> \<not> valid_op op'" "rqResult q = snd (kv_spec op (db (fold applyOp pre empty_kv)))"
    by auto
  have "op \<in> submitted ac (rqRead q)" using p(1) sub by auto
  then obtain q' where q': "q' \<in> set reqs" "op = rqOp q'" using served_submitted [OF srv _ N] by blast
  then have "op = rqOp q" using served_inj [OF srv q q'(1)] p(2) by simp
  moreover have "db (fold applyOp pre empty_kv) = spec_run kv_spec (effective OpID valid_op {} pre) Map.empty"
    using kv.run_effective [of pre empty_kv] by simp
  ultimately show ?thesis using p sub by (intro exI [of _ "length pre"]) (auto simp: placed_def)
qed

lemma placed_extend:
  assumes "placed ac E q p" and "E = take (length E) E'"
  shows "placed ac E' q p"
proof -
  have "E' = E @ drop (length E) E'" using assms(2) by (metis append_take_drop_id)
  then obtain D where D: "E' = E @ D" ..
  have "p < length E" using assms(1) by (simp add: placed_def)
  then have "take p E' = take p E" "E' ! p = E ! p" "p < length E'" by (simp_all add: D nth_append)
  then show ?thesis using assms(1) by (simp add: placed_def)
qed

lemma ex_longest: "xs \<noteq> [] \<Longrightarrow> \<exists>x \<in> set xs. \<forall>y \<in> set xs. length (f y) \<le> length (f x)"
proof (induction xs)
  case (Cons y ys)
  show ?case
  proof (cases "ys = []")
    case False
    then obtain x where x: "x \<in> set ys" "\<forall>z \<in> set ys. length (f z) \<le> length (f x)" using Cons.IH by blast
    then show ?thesis by (cases "length (f y) \<le> length (f x)") fastforce+
  qed simp
qed simp

text \<open>One sequence has the operations of all requests.\<close>

lemma served_placed:
  assumes run: "rrun tr ac N" and srv: "served tr ac N reqs"
  shows "\<exists>E. set E \<subseteq> submitted ac N \<and> (\<forall>q \<in> set reqs. \<exists>p. placed ac E q p)"
proof (cases "reqs = []")
  case False
  let ?k = "length (snd (tr 0))"
  obtain e where e: "\<forall>m \<le> N. \<forall>i < ?k. kv_at (snd (tr m) ! i) (e m i) \<and> set (e m i) \<subseteq> submitted ac m"
    "rinv (submitted ac N) {e m i | m i. m \<le> N \<and> i < ?k} (tr N)" using rrun_executed [OF run order_refl] by blast
  define f where "f q = e (rqRead q) (rqServer q)" for q :: request
  have rd: "rqRead q \<le> N" "rqServer q < ?k" if "q \<in> set reqs" for q using srv that by (auto simp: served_def)
  then have mem: "f q \<in> {e m i | m i. m \<le> N \<and> i < ?k}" if "q \<in> set reqs" for q using that by (auto simp: f_def)
  obtain q0 where q0: "q0 \<in> set reqs" "\<forall>q \<in> set reqs. length (f q) \<le> length (f q0)"
    using ex_longest [OF False] by blast
  have pre: "f q = take (length (f q)) (f q0)" if "q \<in> set reqs" for q
    using rinv_prefix [OF e(2) mem [OF that] mem [OF q0(1)]] q0(2) that by (metis take_all)
  have "\<exists>p. placed ac (f q0) q p" if "q \<in> set reqs" for q
    using served_placed_own [OF srv that, of "f q"] e(1) rd [OF that] placed_extend [OF _ pre [OF that]] by (metis f_def)
  moreover have "set (f q0) \<subseteq> submitted ac N" using e(1) rd [OF q0(1)] submitted_mono [of "rqRead q0" N ac] by (auto simp: f_def)
  ultimately show ?thesis by blast
qed (auto intro: exI [of _ "[]"])

lemma effective_append:
  "effective ident valid S (xs @ ys) =
     effective ident valid S xs @ effective ident valid (S \<union> ident ` {op \<in> set xs. valid op}) ys"
proof (induction xs arbitrary: S)
  case (Cons x xs)
  have "S \<union> ident ` {op \<in> set (x # xs). valid op} = S \<union> ident ` {op \<in> set xs. valid op}" if "ident x \<in> S \<or> \<not> valid x"
    using that by auto
  moreover have "S \<union> ident ` {op \<in> set (x # xs). valid op} = insert (ident x) S \<union> ident ` {op \<in> set xs. valid op}" if "valid x"
    using that by auto
  ultimately show ?case using Cons.IH by auto
qed simp

lemma placed_effective:
  assumes "placed ac E q p" and "valid_op (rqOp q)"
  shows "\<exists>vs. effective OpID valid_op {} E = effective OpID valid_op {} (take p E) @ rqOp q # vs"
proof -
  have E: "E = take p E @ rqOp q # drop (Suc p) E" using assms(1) id_take_nth_drop [of p E] by (simp add: placed_def)
  have "OpID (rqOp q) \<notin> OpID ` {op \<in> set (take p E). valid_op op}" using assms(1) by (auto simp: placed_def)
  then show ?thesis by (subst E, subst effective_append) (use assms(2) in auto)
qed

text \<open>The requests in the order in which their operations took effect.\<close>

definition in_order :: "(nat \<Rightarrow> Op mem_action) \<Rightarrow> request list \<Rightarrow> bool" where
  "in_order ac qs \<longleftrightarrow> (\<forall>us q vs. qs = us @ q # vs \<longrightarrow>
     rqResult q = snd (kv_spec (rqOp q) (spec_run kv_spec (map rqOp us) Map.empty)) \<and>
     rqOp ` set us \<subseteq> submitted ac (rqRead q))"

lemma served_in_order:
  assumes run: "rrun tr ac N" and srv: "served tr ac N reqs"
  shows "\<exists>qs. distinct qs \<and> set qs = set reqs \<and> in_order ac qs"
proof -
  obtain E where E: "set E \<subseteq> submitted ac N" "\<forall>q \<in> set reqs. \<exists>p. placed ac E q p"
    using served_placed [OF run srv] by blast
  let ?L = "effective OpID valid_op {} E"
  have dL: "distinct (map OpID ?L)" using effective_distinct [of OpID valid_op "{}" E] by simp
  have "set ?L \<subseteq> rqOp ` set reqs"
    using effective_set [of OpID valid_op "{}" E] E(1) served_submitted [OF srv _ order_refl] by fastforce
  then have "?L \<in> map rqOp ` lists (set reqs)" by (simp only: lists_image [symmetric] in_lists_conv_set) blast
  then obtain qs where qs: "?L = map rqOp qs" "set qs \<subseteq> set reqs" by (auto simp: lists_eq_set)
  have dqs: "distinct qs" using dL unfolding qs(1) by (simp add: distinct_map)
  have val: "valid_op (rqOp q)" if "q \<in> set reqs" for q using srv that by (auto simp: served_def)
  have split: "\<exists>p. placed ac E q p \<and> effective OpID valid_op {} (take p E) = map rqOp us" if sp: "qs = us @ q # vs" for us q vs
  proof -
    have q: "q \<in> set reqs" using qs(2) sp by auto
    then obtain p where p: "placed ac E q p" using E(2) by blast
    then obtain ws where ws: "map rqOp us @ rqOp q # map rqOp vs = effective OpID valid_op {} (take p E) @ rqOp q # ws"
      using placed_effective [OF p val [OF q]] qs(1) sp by auto
    have "distinct ?L" using dL by (simp add: distinct_map)
    then have "distinct (map rqOp us @ rqOp q # map rqOp vs)" unfolding qs(1) sp by simp
    moreover from this have "distinct (effective OpID valid_op {} (take p E) @ rqOp q # ws)" unfolding ws .
    ultimately have "rqOp q \<notin> set (map rqOp us)" "rqOp q \<notin> set (effective OpID valid_op {} (take p E))"
      by (simp_all only: distinct_append list.set) blast+
    from split_at_unique [OF this, THEN iffD1, OF ws] show ?thesis using p by auto
  qed
  have "set reqs \<subseteq> set qs"
  proof
    fix q assume q: "q \<in> set reqs"
    then obtain p where "placed ac E q p" using E(2) by blast
    then have "rqOp q \<in> set ?L" using placed_effective val [OF q] by fastforce
    then obtain q' where q': "q' \<in> set qs" "rqOp q = rqOp q'" unfolding qs(1) by auto
    then show "q \<in> set qs" using served_inj [OF srv q, of q'] qs(2) by auto
  qed
  moreover have "in_order ac qs"
    unfolding in_order_def
  proof (intro allI impI)
    fix us q vs assume "qs = us @ q # vs"
    from split [OF this] obtain p where p: "placed ac E q p" "effective OpID valid_op {} (take p E) = map rqOp us" by blast
    have "rqOp ` set us \<subseteq> set (take p E)" using effective_set [of OpID valid_op "{}" "take p E"] unfolding p(2) by auto
    then show "rqResult q = snd (kv_spec (rqOp q) (spec_run kv_spec (map rqOp us) Map.empty)) \<and>
        rqOp ` set us \<subseteq> submitted ac (rqRead q)"
      using p unfolding placed_def by auto
  qed
  ultimately show ?thesis using dqs qs(2) by blast
qed

lemma in_order_real_time:
  assumes srv: "served tr ac N reqs" and "in_order ac qs" and "set qs = set reqs"
  shows "sorted_wrt (\<lambda>q q'. \<not> rqReturn q' < rqCall q) qs"
proof -
  have "\<not> rqReturn (qs ! j) < rqCall (qs ! i)" if ij: "i < j" "j < length qs" for i j
  proof -
    have "qs = take j qs @ qs ! j # drop (Suc j) qs" using ij(2) by (rule id_take_nth_drop)
    then have "rqOp ` set (take j qs) \<subseteq> submitted ac (rqRead (qs ! j))" using assms(2) unfolding in_order_def by blast
    moreover have "qs ! i \<in> set (take j qs)" using ij by (auto simp: in_set_conv_nth intro!: exI [of _ i])
    ultimately have sub: "rqOp (qs ! i) \<in> submitted ac (rqRead (qs ! j))" by blast
    have q: "qs ! i \<in> set reqs" "qs ! j \<in> set reqs" using ij assms(3) by (metis less_trans nth_mem)+
    then have rd: "rqRead (qs ! j) \<le> rqReturn (qs ! j)" "rqReturn (qs ! j) \<le> N" using srv by (auto simp: served_def)
    obtain q' where "q' \<in> set reqs" "rqOp (qs ! i) = rqOp q'" "rqCall q' < rqRead (qs ! j)"
      using served_submitted [OF srv sub] rd by auto
    then show ?thesis using served_inj [OF srv q(1), of q'] rd(1) by auto
  qed
  then show ?thesis by (auto simp: sorted_wrt_iff_nth_less)
qed

section \<open>The history of the requests\<close>

text \<open>
  A request as the tests of the service log it for the checker, with the times that the clock shows at the
  moments of the call and of the return.
\<close>

definition opCode :: "Op \<Rightarrow> 8 word" where
  "opCode op = (if OpType op = ''Get'' then 0 else if OpType op = ''Put'' then 1 else 2)"

definition logged :: "(nat \<Rightarrow> int) \<Rightarrow> request \<Rightarrow> kv_value Operation" where
  "logged now q =
     \<lparr>opClientId = rqClient q,
      Input = KvIn \<lparr>kiOp = opCode (rqOp q), kiKey = Op.opKey (rqOp q), kiValue = opValue (rqOp q)\<rparr>,
      opCall = now (rqCall q),
      Output = KvOut \<lparr>koValue = (if OpType (rqOp q) = ''Get'' then recValue (rqResult q) else [])\<rparr>,
      opReturn = now (rqReturn q)\<rparr>"

definition register :: "(string \<rightharpoonup> string) \<Rightarrow> string \<Rightarrow> string" where
  "register m k = (case m k of None \<Rightarrow> [] | Some v \<Rightarrow> v)"

fun runOps :: "('v, 'st) Model \<Rightarrow> 'v Operation list \<Rightarrow> 'st \<Rightarrow> bool" where
  "runOps model [] st \<longleftrightarrow> True"
| "runOps model (v # vs) st \<longleftrightarrow>
     (case Step model st (Input v) (Output v) of Some (True, st') \<Rightarrow> runOps model vs st' | _ \<Rightarrow> False)"

lemma legalOps_runOps: "legalOps model h st is \<longleftrightarrow> runOps model (map ((!) h) is) st"
  by (induction "is" arbitrary: st) (auto split: option.split bool.split)

lemma logged_step:
  assumes "valid_op (rqOp q)" and "rqResult q = snd (kv_spec (rqOp q) m)"
  shows "Op.opKey (rqOp q) = k \<Longrightarrow> Step KvModel (register m k) (Input (logged now q)) (Output (logged now q)) =
      Some (True, register (fst (kv_spec (rqOp q) m)) k)"
    and "Op.opKey (rqOp q) \<noteq> k \<Longrightarrow> register (fst (kv_spec (rqOp q) m)) k = register m k"
  using assms by (auto simp: valid_op_def kv_spec_def KvModel_def kvStep_def logged_def opCode_def register_def split: option.splits)

lemma in_order_runOps:
  assumes "\<forall>q \<in> set qs. valid_op (rqOp q)"
    and "\<And>us q vs. qs = us @ q # vs \<Longrightarrow> rqResult q = snd (kv_spec (rqOp q) (spec_run kv_spec (map rqOp us) m))"
  shows "runOps KvModel (map (logged now) (filter (\<lambda>q. Op.opKey (rqOp q) = k) qs)) (register m k)"
  using assms
proof (induction qs arbitrary: m)
  case (Cons q qs)
  have r: "rqResult q = snd (kv_spec (rqOp q) m)" using Cons.prems(2) [of "[]" q qs] by simp
  note st = logged_step [OF _ r, of k]
  have "runOps KvModel (map (logged now) (filter (\<lambda>q. Op.opKey (rqOp q) = k) qs)) (register (fst (kv_spec (rqOp q) m)) k)"
  proof (rule Cons.IH)
    fix us p vs assume "qs = us @ p # vs"
    then show "rqResult p = snd (kv_spec (rqOp p) (spec_run kv_spec (map rqOp us) (fst (kv_spec (rqOp q) m))))"
      using Cons.prems(2) [of "q # us" p vs] by simp
  qed (use Cons.prems(1) in simp)
  then show ?case using st Cons.prems(1) by auto
qed simp

text \<open>An order of the elements of a list gives an order of its indices.\<close>

lemma indices_of_order:
  assumes "distinct xs" and "distinct ys" and "set ys = set xs"
  shows "\<exists>is. distinct is \<and> set is = {..<length xs} \<and> map ((!) xs) is = ys"
proof -
  have "set ys \<subseteq> (!) xs ` {..<length xs}" using assms(3) by (auto simp: in_set_conv_nth)
  then have "ys \<in> map ((!) xs) ` lists {..<length xs}" by (simp only: lists_image [symmetric] in_lists_conv_set) blast
  then obtain "is" where "is": "ys = map ((!) xs) is" "set is \<subseteq> {..<length xs}" by (auto simp: lists_eq_set)
  have "distinct is" using assms(2) "is"(1) by (metis distinct_map)
  moreover have "card (set is) = length xs"
    using distinct_card [OF assms(1)] distinct_card [OF assms(2)] distinct_card [OF calculation] assms(3) "is"(1) by simp
  then have "set is = {..<length xs}" using "is"(2) by (intro card_subset_eq) auto
  ultimately show ?thesis using "is"(1) by blast
qed

lemma served_linearizable:
  assumes run: "rrun tr ac N" and srv: "served tr ac N reqs" and clock: "mono now"
  shows "linearizableOps KvModel (filter (\<lambda>v. KvCheck.opKey v = k) (map (logged now) reqs))"
proof -
  let ?P = "\<lambda>q. Op.opKey (rqOp q) = k"
  obtain qs where qs: "distinct qs" "set qs = set reqs" "in_order ac qs" using served_in_order [OF run srv] by blast
  have "distinct reqs" using srv by (simp add: served_def distinct_map)
  then obtain "is" where "is": "distinct is" "set is = {..<length (filter ?P reqs)}" "map ((!) (filter ?P reqs)) is = filter ?P qs"
    using indices_of_order [of "filter ?P reqs" "filter ?P qs"] qs by auto
  let ?h = "map (logged now) (filter ?P reqs)"
  have h: "filter (\<lambda>v. KvCheck.opKey v = k) (map (logged now) reqs) = ?h"
    by (simp add: filter_map comp_def KvCheck.opKey_def logged_def)
  have m: "map ((!) ?h) is = map (logged now) (filter ?P qs)"
    unfolding "is"(3) [symmetric] map_map using "is"(2) by (auto intro!: map_cong)
  have "runOps KvModel (map (logged now) (filter ?P qs)) (register Map.empty k)"
    by (rule in_order_runOps) (use qs srv in \<open>auto simp: in_order_def served_def\<close>)
  then have "legalOps KvModel ?h (Init KvModel) is" unfolding legalOps_runOps m by (simp add: register_def KvModel_def)
  moreover have "sorted_wrt (\<lambda>i j. \<not> opReturn (?h ! j) < opCall (?h ! i)) is"
  proof -
    have "sorted_wrt (\<lambda>q q'. \<not> rqReturn q' < rqCall q) (filter ?P qs)"
      using in_order_real_time [OF srv qs(3,2)] by (rule sorted_wrt_filter)
    then have "sorted_wrt (\<lambda>v w. \<not> opReturn w < opCall v) (map (logged now) (filter ?P qs))"
      unfolding sorted_wrt_map by (rule sorted_wrt_mono_rel [rotated]) (use clock in \<open>auto simp: logged_def not_less mono_def\<close>)
    then show ?thesis unfolding m [symmetric] sorted_wrt_map .
  qed
  ultimately show ?thesis using "is"(1,2) unfolding linearizableOps_def h by auto
qed

section \<open>Calls of the clerks\<close>

text \<open>
  A call of a clerk and the handler whose answer it returns: \<open>Get\<close> or \<open>PutAppend\<close> with the arguments of the
  call, which looks at its server at moments before the call returns and does not answer with a
  wrong-leader error.
\<close>

record clerk_call =
  ccOp :: Op
  ccClient :: int
  ccCall :: nat
  ccReturn :: nat
  ccServer :: nat
  ccValue :: string

definition answeredBy :: "(nat \<Rightarrow> service) \<Rightarrow> clerk_call \<Rightarrow> bool" where
  "answeredBy tr c \<longleftrightarrow> (\<exists>rfS m0 m. m0 \<le> ccReturn c \<and> (\<forall>k < numChecks. m k \<le> ccReturn c) \<and>
     (let op = ccOp c; kv = serverAt (tr m0) (ccServer c); env = (\<lambda>k. serverAt (tr (m k)) (ccServer c))
      in if OpType op = ''Get'' then
           (let reply = snd (Get \<lparr>gaKey = Op.opKey op, gaID = OpID op\<rparr> rfS env kv)
            in grErr reply \<noteq> ErrWrongLeader \<and> ccValue c = grValue reply)
         else
           parErr (snd (PutAppend \<lparr>paKey = Op.opKey op, paValue = opValue op, paOp = OpType op, paID = OpID op\<rparr> rfS env kv))
             \<noteq> ErrWrongLeader \<and> ccValue c = []))"

text \<open>
  All calls of an execution: their identifiers differ, what is submitted to Raft belongs to a call that has
  been made, and every call has returned.
\<close>

definition answered :: "(nat \<Rightarrow> service) \<Rightarrow> (nat \<Rightarrow> Op mem_action) \<Rightarrow> nat \<Rightarrow> clerk_call list \<Rightarrow> bool" where
  "answered tr ac N cs \<longleftrightarrow> distinct (map (OpID \<circ> ccOp) cs) \<and>
     (\<forall>n < N. \<forall>i op k. ac n = Act (Client i op) k \<longrightarrow> (\<exists>c \<in> set cs. op = ccOp c \<and> ccCall c \<le> n)) \<and>
     (\<forall>c \<in> set cs. valid_op (ccOp c) \<and> ccReturn c \<le> N \<and> ccServer c < length (snd (tr 0)) \<and> answeredBy tr c)"

definition loggedCall :: "(nat \<Rightarrow> int) \<Rightarrow> clerk_call \<Rightarrow> kv_value Operation" where
  "loggedCall now c =
     \<lparr>opClientId = ccClient c,
      Input = KvIn \<lparr>kiOp = opCode (ccOp c), kiKey = Op.opKey (ccOp c), kiValue = opValue (ccOp c)\<rparr>,
      opCall = now (ccCall c), Output = KvOut \<lparr>koValue = ccValue c\<rparr>, opReturn = now (ccReturn c)\<rparr>"

lemma PutAppend_wait_record:
  "parErr (PutAppend_wait t i kvs) \<noteq> ErrWrongLeader \<Longrightarrow> \<exists>kv \<in> set kvs. execRecord kv i \<noteq> None"
proof (induction kvs)
  case (Cons kv kvs)
  then show ?case by (cases "execRecord kv i") (auto split: if_splits)
qed simp

lemma answeredBy_record:
  assumes "answeredBy tr c"
  shows "\<exists>n r. n \<le> ccReturn c \<and> execRecord (serverAt (tr n) (ccServer c)) (OpID (ccOp c)) = Some r \<and>
    ccValue c = (if OpType (ccOp c) = ''Get'' then recValue r else [])"
proof -
  let ?op = "ccOp c"
  obtain rfS m0 m where m: "m0 \<le> ccReturn c" "\<forall>k < numChecks. m k \<le> ccReturn c"
    and a: "let kv = serverAt (tr m0) (ccServer c); env = (\<lambda>k. serverAt (tr (m k)) (ccServer c))
      in if OpType ?op = ''Get'' then
           (let reply = snd (Get \<lparr>gaKey = Op.opKey ?op, gaID = OpID ?op\<rparr> rfS env kv)
            in grErr reply \<noteq> ErrWrongLeader \<and> ccValue c = grValue reply)
         else
           parErr (snd (PutAppend \<lparr>paKey = Op.opKey ?op, paValue = opValue ?op, paOp = OpType ?op, paID = OpID ?op\<rparr> rfS env kv))
             \<noteq> ErrWrongLeader \<and> ccValue c = []"
    using assms unfolding answeredBy_def Let_def by blast
  let ?kv = "serverAt (tr m0) (ccServer c)" and ?envs = "map (\<lambda>k. serverAt (tr (m k)) (ccServer c)) [0..<numChecks]"
  have env: "\<exists>n \<le> ccReturn c. s = serverAt (tr n) (ccServer c)" if "s \<in> set ?envs" for s using that m(2) by auto
  show ?thesis
  proof (cases "execRecord ?kv (OpID ?op)")
    case (Some r)
    then have "ccValue c = (if OpType ?op = ''Get'' then recValue r else [])"
      using a by (auto simp: Let_def Get_def split: prod.splits if_splits)
    then show ?thesis using Some m(1) by blast
  next
    case None
    show ?thesis
    proof (cases "OpType ?op = ''Get''")
      case True
      then have w: "grErr (Get_wait (fst (GetState (rf ?kv))) (OpID ?op) ?envs) \<noteq> ErrWrongLeader"
        "ccValue c = grValue (Get_wait (fst (GetState (rf ?kv))) (OpID ?op) ?envs)"
        using a None by (auto simp: Let_def Get_def split: prod.splits if_splits)
      from Get_wait_record [OF w(1)] obtain s r where "s \<in> set ?envs" "execRecord s (OpID ?op) = Some r" "ccValue c = recValue r"
        using w(2) by (metis GetReply.select_convs(2))
      then show ?thesis using env [of s] True by auto
    next
      case False
      then have w: "parErr (PutAppend_wait (fst (GetState (rf ?kv))) (OpID ?op) ?envs) \<noteq> ErrWrongLeader" "ccValue c = []"
        using a None by (auto simp: Let_def PutAppend_def split: prod.splits if_splits)
      from PutAppend_wait_record [OF w(1)] obtain s r where "s \<in> set ?envs" "execRecord s (OpID ?op) = Some r" by blast
      then show ?thesis using env [of s] False w(2) by auto
    qed
  qed
qed

text \<open>The calls are requests that were served.\<close>

lemma answered_served:
  assumes "answered tr ac N cs"
  shows "\<exists>reqs. served tr ac N reqs \<and> map (logged now) reqs = map (loggedCall now) cs"
proof -
  have "\<forall>c \<in> set cs. \<exists>n r. n \<le> ccReturn c \<and> execRecord (serverAt (tr n) (ccServer c)) (OpID (ccOp c)) = Some r \<and>
      ccValue c = (if OpType (ccOp c) = ''Get'' then recValue r else [])"
    using assms answeredBy_record unfolding answered_def by blast
  then obtain n r where nr: "\<forall>c \<in> set cs. n c \<le> ccReturn c \<and> execRecord (serverAt (tr (n c)) (ccServer c)) (OpID (ccOp c)) = Some (r c) \<and>
      ccValue c = (if OpType (ccOp c) = ''Get'' then recValue (r c) else [])" by metis
  define f where "f c = \<lparr>rqOp = ccOp c, rqClient = ccClient c, rqCall = ccCall c, rqRead = n c, rqReturn = ccReturn c,
    rqServer = ccServer c, rqResult = r c\<rparr>" for c
  have "served tr ac N (map f cs)"
    using assms nr unfolding served_def answered_def by (auto simp: f_def comp_def)
  moreover have "map (logged now) (map f cs) = map (loggedCall now) cs"
    using nr by (auto simp: f_def logged_def loggedCall_def)
  ultimately show ?thesis by blast
qed

lemma answered_linearizable:
  assumes run: "rrun tr ac N" and "answered tr ac N cs" and clock: "mono now"
  shows "linearizableOps KvModel (filter (\<lambda>v. KvCheck.opKey v = k) (map (loggedCall now) cs))"
  using answered_served [OF assms(2), of now] served_linearizable [OF run _ clock] by metis

section \<open>Properties\<close>

text \<open>Property C2: the replicated key/value service is linearizable. In every execution with crashes, restarts, lost,
  delayed and reordered messages and changes of leader, in which replies are handled in their term and requests are
  encoded before their sender overwrites the entries they share, let every call of a clerk have an identifier that no
  other call has, and be answered by a handler \<open>Get\<close> or \<open>PutAppend\<close> of some server. Then the operations on each key,
  with the times of their calls and returns on a clock that does not go backwards, are linearizable in the sense of
  the checker and the model of \<open>models/kv.go\<close>.\<close>

theorem service_linearizable:
  assumes "rrun tr ac N" and "answered tr ac N cs" and "mono now"
  shows "linearizableOps KvModel (filter (\<lambda>v. KvCheck.opKey v = k) (map (loggedCall now) cs))"
  using answered_linearizable [OF assms] .

text \<open>The run of theory \<open>KVReplicas\<close>: server 0, the leader, answers the append.\<close>

lemma rexecs_append: "rexecs (as @ bs) sk = Option.bind (rexecs as sk) (rexecs bs)"
  by (induction as arbitrary: sk) (auto split: option.split)

lemma rexecs_rrun:
  assumes "rstart sk" and "rexecs as sk \<noteq> None"
  shows "rrun (\<lambda>n. the (rexecs (take n as) sk)) ((!) as) (length as)"
proof -
  have "raction timely (as ! n) (the (rexecs (take n as) sk)) (the (rexecs (take (Suc n) as) sk))" if n: "n < length as" for n
  proof -
    have "rexecs (take (Suc n) as @ drop (Suc n) as) sk \<noteq> None" using assms(2) by simp
    then obtain uk where uk: "rexecs (take (Suc n) as) sk = Some uk" unfolding rexecs_append by (auto split: Option.bind_splits)
    then have "Option.bind (rexecs (take n as) sk) (rexecs [as ! n]) = Some uk"
      using n rexecs_append [of "take n as" "[as ! n]" sk] by (simp add: take_Suc_conv_app_nth)
    then obtain tk where "rexecs (take n as) sk = Some tk" "timely (fst tk) (as ! n)" "rexec (as ! n) tk = Some uk"
      by (auto split: Option.bind_splits if_splits option.splits)
    then show ?thesis using rexec_raction uk by simp
  qed
  then show ?thesis using assms(1) by (simp add: rrun_def)
qed

definition kv_states :: "nat \<Rightarrow> service" where
  "kv_states n = the (rexecs (take n kv_run) kv_start)"

definition kv_call :: clerk_call where
  "kv_call = \<lparr>ccOp = op1, ccClient = 0, ccCall = 3, ccReturn = 9, ccServer = 0, ccValue = []\<rparr>"

lemma kv_states_run: "rrun kv_states ((!) kv_run) 9"
proof -
  have "length kv_run = 9" by code_simp
  then show ?thesis using rexecs_rrun [of kv_start kv_run] kv_start_rstart kv_runs_defined(1) by (simp add: kv_states_def [abs_def])
qed

lemma kv_run_client: "kv_run ! n = Act (Client i op) k \<Longrightarrow> n < 9 \<Longrightarrow> n = 3 \<and> op = op1"
  by (auto simp: at_def kv_run_def Let_def less_Suc_eq numeral_eq_Suc)

lemma kv_call_answered: "answered kv_states ((!) kv_run) 9 [kv_call]"
proof -
  have "parErr (snd (PutAppend \<lparr>paKey = Op.opKey op1, paValue = opValue op1, paOp = OpType op1, paID = OpID op1\<rparr>
      (rf (serverAt (kv_states 3) 0)) (\<lambda>k. serverAt (kv_states 9) 0) (serverAt (kv_states 3) 0))) \<noteq> ErrWrongLeader" by code_simp
  moreover have "OpType op1 \<noteq> ''Get''" by code_simp
  ultimately have "answeredBy kv_states kv_call"
    unfolding answeredBy_def Let_def kv_call_def
    by (intro exI [of _ "rf (serverAt (kv_states 3) 0)"] exI [of _ 3] exI [of _ "\<lambda>_. 9"]) simp_all
  moreover have "valid_op (ccOp kv_call)" "ccServer kv_call < length (snd (kv_states 0))" by code_simp+
  ultimately show ?thesis using kv_run_client by (auto simp: answered_def kv_call_def)
qed

theorem service_linearizable_witness:
  "rrun kv_states ((!) kv_run) 9 \<and> answered kv_states ((!) kv_run) 9 [kv_call] \<and>
   linearizableOps KvModel (filter (\<lambda>v. KvCheck.opKey v = ''x'') (map (loggedCall int) [kv_call]))"
  using service_linearizable [OF kv_states_run kv_call_answered, of int] kv_states_run kv_call_answered
  by (simp only: mono_def of_nat_le_iff) simp

text \<open>Property C3: the checker accepts what the service does. Applied to the log of all calls of such an execution,
  at least one, \<open>CheckOperations\<close> with the model of \<open>models/kv.go\<close> returns true, when every call returns after
  the instant in which it was made and no call returns in the very instant another is made. Its searches answer in
  any order, and the flag that interrupts them has the values that its stores allow.\<close>

theorem checker_accepts_service:
  assumes run: "rrun tr ac N" and ans: "answered tr ac N cs" and clock: "mono now"
    and "timeSorter sorter" and "properOps (map (loggedCall now) cs)" and "cs \<noteq> []"
    and "distinct is" and "set is = {..<card (KvCheck.opKey ` set (map (loggedCall now) cs))}" 
    and "operationKills sorter kills (map Arrived is) KvModel (map (loggedCall now) cs) False"
  shows "CheckOperations sorter kills (map Arrived is) KvModel (map (loggedCall now) cs) = Some True"
proof -
  have "\<forall>v \<in> set (map (loggedCall now) cs). kvTyped v" by (auto simp: kvTyped_def loggedCall_def)
  moreover have "map (loggedCall now) cs \<noteq> []" using assms(6) by simp
  ultimately show ?thesis
    using kv_checked_parts [OF assms(4,5) _ _ assms(7,8,9)] answered_linearizable [OF run ans clock] by simp
qed

theorem checker_accepts_service_witness:
  "CheckOperations (sort_key etime) (\<lambda>_ _. False) [Arrived 0] KvModel (map (loggedCall int) [kv_call]) = Some True"
proof -
  have "mono (int :: nat \<Rightarrow> int)" by (simp add: mono_def)
  moreover have "properOps (map (loggedCall int) [kv_call])" by code_simp
  moreover have "set [0] = {..<card (KvCheck.opKey ` set (map (loggedCall int) [kv_call]))}" by (auto simp: lessThan_Suc)
  ultimately show ?thesis
    using checker_accepts_service [OF kv_states_run kv_call_answered _ timeSorter_sort_key, of int "[0]" "\<lambda>_ _. False"] by (simp add: no_kills)
qed

end
