(* ===== verification/ServerConfig.thy ===== *)
theory ServerConfig
  imports LabRpc RaftNode
begin

text \<open>
  The harness that runs a group of replicated servers in the tests. The definitions follow
  \<open>src/src/kvraft/config.go\<close>; \<open>src/src/shardmaster/config.go\<close> has the same functions on another type of
  server, so the type \<open>'s\<close> of the servers, how to start one and how to look at its Raft peer are
  parameters here (see \<open>KVConfig\<close> and \<open>SMConfig\<close>).

  While a server runs, \<open>saved[i]\<close> and the persister of its Raft peer are the same object; the record
  has it in the server (\<open>per s\<close> is the persister of server \<open>s\<close>). A client end is its name, a clerk's
  pointer a number; random names and numbers are arguments. Functions that only take the lock and
  call another one are not repeated.
\<close>

section \<open>Data\<close>

datatype cfg_failure = TestTooLong | NetworkFatal rpc_error | RuntimePanic

record ('s, 'b, 'n) server_config =
  scNet :: "('n, nat) Network"
  scN :: nat
  scServers :: "'s option list"
  scSaved :: "'b Persister option list"
  scEndnames :: "'n list option list"
  scClerks :: "nat \<rightharpoonup> 'n list"
  nextClientId :: int
  scStart :: int

text \<open>\<open>rand.Intn(i + 1)\<close> is \<open>rnd i\<close> reduced.\<close>

definition random_handles :: "(nat \<Rightarrow> nat) \<Rightarrow> 'e list \<Rightarrow> 'e list" where
  "random_handles rnd kvh =
     fold (\<lambda>i sa. let j = rnd i mod (i + 1) in sa[i := sa ! j, j := sa ! i]) [0..<length kvh] kvh"

definition cfg_checkTimeout :: "bool \<Rightarrow> int \<Rightarrow> ('s, 'b, 'n, 'z) server_config_scheme \<Rightarrow> cfg_failure option" where
  "cfg_checkTimeout failed now cfg =
     (if \<not> failed \<and> now - scStart cfg > 120000 then Some TestTooLong else None)"

definition cfg_cleanup ::
    "('s \<Rightarrow> 's) \<Rightarrow> bool \<Rightarrow> int \<Rightarrow> ('s, 'b, 'n, 'z) server_config_scheme
      \<Rightarrow> ('s, 'b, 'n, 'z) server_config_scheme \<times> cfg_failure option" where
  "cfg_cleanup kill failed now cfg =
     (let cfg = cfg\<lparr>scServers := map (map_option kill) (scServers cfg), scNet := Cleanup (scNet cfg)\<rparr>
      in (cfg, cfg_checkTimeout failed now cfg))"

section \<open>Persisters\<close>

text \<open>The object \<open>saved[i]\<close> points to; the outer \<open>None\<close> is an index out of range.\<close>

definition savedObj ::
    "('s \<Rightarrow> 'b Persister) \<Rightarrow> nat \<Rightarrow> ('s, 'b, 'n, 'z) server_config_scheme \<Rightarrow> 'b Persister option option" where
  "savedObj per i cfg =
     (case go_nth (scServers cfg) (int i) of
        Some (Some s) \<Rightarrow> Some (Some (per s))
      | _ \<Rightarrow> go_nth (scSaved cfg) (int i))"

definition maxSize ::
    "('b Persister \<Rightarrow> int) \<Rightarrow> ('s \<Rightarrow> 'b Persister) \<Rightarrow> ('s, 'b, 'n, 'z) server_config_scheme
      \<Rightarrow> cfg_failure + int" where
  "maxSize sz per cfg =
     go_for (\<lambda>i logsize.
        case savedObj per i cfg of
          Some (Some ps) \<Rightarrow> let n = sz ps in Inr (if n > logsize then n else logsize)
        | _ \<Rightarrow> Inl RuntimePanic) [0..<scN cfg] 0"

definition LogSize ::
    "('b list \<Rightarrow> nat) \<Rightarrow> ('s \<Rightarrow> 'b Persister) \<Rightarrow> ('s, 'b, 'n, 'z) server_config_scheme \<Rightarrow> cfg_failure + int" where
  "LogSize bytes per cfg = maxSize (RaftStateSize bytes) per cfg"

definition cfg_SnapshotSize ::
    "('b list \<Rightarrow> nat) \<Rightarrow> ('s \<Rightarrow> 'b Persister) \<Rightarrow> ('s, 'b, 'n, 'z) server_config_scheme \<Rightarrow> cfg_failure + int" where
  "cfg_SnapshotSize bytes per cfg = maxSize (SnapshotSize bytes) per cfg"

section \<open>Connecting servers\<close>

text \<open>\<open>cfg.endnames[i][j]\<close>; \<open>None\<close> is an index out of range, also into a \<open>nil\<close> slice.\<close>

definition endAt :: "('s, 'b, 'n, 'z) server_config_scheme \<Rightarrow> nat \<Rightarrow> nat \<Rightarrow> 'n option" where
  "endAt cfg i j =
     (case go_nth (scEndnames cfg) (int i) of Some (Some ns) \<Rightarrow> go_nth ns (int j) | _ \<Rightarrow> None)"

definition enableAt ::
    "nat \<Rightarrow> nat \<Rightarrow> bool \<Rightarrow> ('s, 'b, 'n, 'z) server_config_scheme
      \<Rightarrow> cfg_failure + ('s, 'b, 'n, 'z) server_config_scheme" where
  "enableAt i j b cfg =
     (case endAt cfg i j of
        None \<Rightarrow> Inl RuntimePanic
      | Some e \<Rightarrow> Inr (cfg\<lparr>scNet := Enable e b (scNet cfg)\<rparr>))"

definition connectUnlocked ::
    "nat \<Rightarrow> nat list \<Rightarrow> ('s, 'b, 'n, 'z) server_config_scheme
      \<Rightarrow> cfg_failure + ('s, 'b, 'n, 'z) server_config_scheme" where
  "connectUnlocked i to cfg =
     (case go_for (\<lambda>j. enableAt i (to ! j) True) [0..<length to] cfg of
        Inl e \<Rightarrow> Inl e
      | Inr cfg \<Rightarrow> go_for (\<lambda>j. enableAt (to ! j) i True) [0..<length to] cfg)"

text \<open>The second loop looks at \<open>endnames[j]\<close>, and then uses \<open>endnames[from[j]]\<close>.\<close>

definition disconnectUnlocked ::
    "nat \<Rightarrow> nat list \<Rightarrow> ('s, 'b, 'n, 'z) server_config_scheme
      \<Rightarrow> cfg_failure + ('s, 'b, 'n, 'z) server_config_scheme" where
  "disconnectUnlocked i others cfg =
     (case go_for (\<lambda>j cfg.
              case go_nth (scEndnames cfg) (int i) of
                None \<Rightarrow> Inl RuntimePanic
              | Some ns \<Rightarrow> if ns \<noteq> None then enableAt i (others ! j) False cfg else Inr cfg)
            [0..<length others] cfg of
        Inl e \<Rightarrow> Inl e
      | Inr cfg \<Rightarrow>
          go_for (\<lambda>j cfg.
              case go_nth (scEndnames cfg) (int j) of
                None \<Rightarrow> Inl RuntimePanic
              | Some ns \<Rightarrow> if ns \<noteq> None then enableAt (others ! j) i False cfg else Inr cfg)
            [0..<length others] cfg)"

definition AllServers :: "('s, 'b, 'n, 'z) server_config_scheme \<Rightarrow> nat list" where
  "AllServers cfg = [0..<scN cfg]"

definition ConnectAll ::
    "('s, 'b, 'n, 'z) server_config_scheme \<Rightarrow> cfg_failure + ('s, 'b, 'n, 'z) server_config_scheme" where
  "ConnectAll cfg = go_for (\<lambda>i cfg. connectUnlocked i (AllServers cfg) cfg) [0..<scN cfg] cfg"

definition splitOff ::
    "nat list \<Rightarrow> nat list \<Rightarrow> ('s, 'b, 'n, 'z) server_config_scheme
      \<Rightarrow> cfg_failure + ('s, 'b, 'n, 'z) server_config_scheme" where
  "splitOff p q =
     go_for (\<lambda>i cfg.
        case disconnectUnlocked (p ! i) q cfg of
          Inl e \<Rightarrow> Inl e
        | Inr cfg \<Rightarrow> connectUnlocked (p ! i) p cfg) [0..<length p]"

definition partitionServers ::
    "nat list \<Rightarrow> nat list \<Rightarrow> ('s, 'b, 'n, 'z) server_config_scheme
      \<Rightarrow> cfg_failure + ('s, 'b, 'n, 'z) server_config_scheme" where
  "partitionServers p1 p2 cfg =
     (case splitOff p1 p2 cfg of Inl e \<Rightarrow> Inl e | Inr cfg \<Rightarrow> splitOff p2 p1 cfg)"

section \<open>Clients\<close>

definition newEnd :: "'n \<Rightarrow> 'm \<Rightarrow> ('n, 'm) Network \<Rightarrow> cfg_failure + ('n, 'm) Network" where
  "newEnd e j nt =
     (case MakeEnd e nt of Inl er \<Rightarrow> Inl (NetworkFatal er) | Inr nt \<Rightarrow> Inr (Connect e j nt))"

definition setClientEnds ::
    "bool \<Rightarrow> nat \<Rightarrow> nat list \<Rightarrow> ('s, 'b, 'n, 'z) server_config_scheme
      \<Rightarrow> cfg_failure + ('s, 'b, 'n, 'z) server_config_scheme" where
  "setClientEnds b ck to cfg =
     (let names = (case scClerks cfg ck of None \<Rightarrow> [] | Some ns \<Rightarrow> ns)
      in go_for (\<lambda>t cfg.
           case go_nth names (int t) of
             None \<Rightarrow> Inl RuntimePanic
           | Some s \<Rightarrow> Inr (cfg\<lparr>scNet := Enable s b (scNet cfg)\<rparr>)) to cfg)"

definition ConnectClientUnlocked ::
    "nat \<Rightarrow> nat list \<Rightarrow> ('s, 'b, 'n, 'z) server_config_scheme
      \<Rightarrow> cfg_failure + ('s, 'b, 'n, 'z) server_config_scheme" where
  "ConnectClientUnlocked ck to cfg = setClientEnds True ck to cfg"

definition DisconnectClientUnlocked ::
    "nat \<Rightarrow> nat list \<Rightarrow> ('s, 'b, 'n, 'z) server_config_scheme
      \<Rightarrow> cfg_failure + ('s, 'b, 'n, 'z) server_config_scheme" where
  "DisconnectClientUnlocked ck to cfg = setClientEnds False ck to cfg"

text \<open>\<open>ck\<close> is the address of the new clerk and \<open>mk\<close> the function that makes it.\<close>

definition makeClient ::
    "('n list \<Rightarrow> 'k) \<Rightarrow> (nat \<Rightarrow> nat) \<Rightarrow> (nat \<Rightarrow> 'n) \<Rightarrow> nat \<Rightarrow> nat list \<Rightarrow> ('s, 'b, 'n, 'z) server_config_scheme
      \<Rightarrow> cfg_failure + ('s, 'b, 'n, 'z) server_config_scheme \<times> 'k" where
  "makeClient mk rnd names ck to cfg =
     (case go_for (\<lambda>j. newEnd (names j) j) [0..<scN cfg] (scNet cfg) of
        Inl e \<Rightarrow> Inl e
      | Inr nt \<Rightarrow>
          let enames = map names [0..<scN cfg];
              clerk = mk (random_handles rnd enames);
              cfg = cfg\<lparr>scNet := nt, scClerks := (scClerks cfg)(ck \<mapsto> enames),
                        nextClientId := nextClientId cfg + 1\<rparr>
          in case ConnectClientUnlocked ck to cfg of Inl e \<Rightarrow> Inl e | Inr cfg \<Rightarrow> Inr (cfg, clerk))"

text \<open>The names are not those of files, so that \<open>os.Remove\<close> fails and its error is dropped.\<close>

definition deleteClient :: "nat \<Rightarrow> ('s, 'b, 'n, 'z) server_config_scheme \<Rightarrow> ('s, 'b, 'n, 'z) server_config_scheme" where
  "deleteClient ck cfg = cfg\<lparr>scClerks := (scClerks cfg)(ck := None)\<rparr>"

section \<open>Starting and stopping servers\<close>

definition ShutdownServer ::
    "('s \<Rightarrow> 'b Persister) \<Rightarrow> nat \<Rightarrow> ('s, 'b, 'n, 'z) server_config_scheme
      \<Rightarrow> cfg_failure + ('s, 'b, 'n, 'z) server_config_scheme" where
  "ShutdownServer per i cfg =
     (case disconnectUnlocked i (AllServers cfg) cfg of
        Inl e \<Rightarrow> Inl e
      | Inr cfg \<Rightarrow>
          let cfg = cfg\<lparr>scNet := DeleteServer i (scNet cfg)\<rparr>
          in case savedObj per i cfg of
               None \<Rightarrow> Inl RuntimePanic
             | Some ps \<Rightarrow>
                 Inr (cfg\<lparr>scSaved := (scSaved cfg)[i := map_option Persister_Copy ps],
                          scServers := (scServers cfg)[i := None]\<rparr>))"

text \<open>
  \<open>names\<close> are the new endpoint names, \<open>start\<close> makes the server from its persister, \<open>srv\<close> is the
  address of the RPC server object.
\<close>

definition StartServer ::
    "('s \<Rightarrow> 'b Persister) \<Rightarrow> ('b Persister \<Rightarrow> 's) \<Rightarrow> (nat \<Rightarrow> 'n) \<Rightarrow> nat \<Rightarrow> nat
      \<Rightarrow> ('s, 'b, 'n, 'z) server_config_scheme \<Rightarrow> cfg_failure + ('s, 'b, 'n, 'z) server_config_scheme" where
  "StartServer per start names srv i cfg =
     (case go_upd (scEndnames cfg) (int i) (Some (map names [0..<scN cfg])) of
        None \<Rightarrow> Inl RuntimePanic
      | Some ens \<Rightarrow>
          (case go_for (\<lambda>j. newEnd (names j) j) [0..<scN cfg] (scNet cfg) of
             Inl e \<Rightarrow> Inl e
           | Inr nt \<Rightarrow>
               (case savedObj per i cfg of
                  None \<Rightarrow> Inl RuntimePanic
                | Some sv \<Rightarrow>
                    let ps = (case sv of Some ps \<Rightarrow> Persister_Copy ps | None \<Rightarrow> MakePersister)
                    in Inr (cfg\<lparr>scEndnames := ens, scSaved := (scSaved cfg)[i := Some ps],
                                scServers := (scServers cfg)[i := Some (start ps)],
                                scNet := AddServer i srv nt\<rparr>))))"

fun LeaderFrom :: "('s \<Rightarrow> int \<times> bool) \<Rightarrow> nat \<Rightarrow> 's option list \<Rightarrow> cfg_failure + bool \<times> nat" where
  "LeaderFrom getState i [] = Inr (False, 0)"
| "LeaderFrom getState i (None # ss) = Inl RuntimePanic"
| "LeaderFrom getState i (Some s # ss) = (if snd (getState s) then Inr (True, i) else LeaderFrom getState (Suc i) ss)"

definition Leader ::
    "('s \<Rightarrow> int \<times> bool) \<Rightarrow> ('s, 'b, 'n, 'z) server_config_scheme \<Rightarrow> cfg_failure + bool \<times> nat" where
  "Leader getState cfg = LeaderFrom getState 0 (scServers cfg)"

definition make_partition ::
    "('s \<Rightarrow> int \<times> bool) \<Rightarrow> ('s, 'b, 'n, 'z) server_config_scheme \<Rightarrow> cfg_failure + nat list \<times> nat list" where
  "make_partition getState cfg =
     (case Leader getState cfg of
        Inl e \<Rightarrow> Inl e
      | Inr (_, l) \<Rightarrow>
          (case go_for (\<lambda>i (p1, p2, j).
                  if i \<noteq> l then
                    if j < length p1 then Inr (p1[j := i], p2, j + 1)
                    else (case go_upd p2 (int j - go_len p1) i of
                            None \<Rightarrow> Inl RuntimePanic
                          | Some p2 \<Rightarrow> Inr (p1, p2, j + 1))
                  else Inr (p1, p2, j)) [0..<scN cfg]
                (replicate (scN cfg div 2 + 1) 0, replicate (scN cfg div 2) 0, 0) of
             Inl e \<Rightarrow> Inl e
           | Inr (p1, p2, j) \<Rightarrow>
               (case go_upd p2 (go_len p2 - 1) l of
                  None \<Rightarrow> Inl RuntimePanic
                | Some p2 \<Rightarrow> Inr (p1, p2))))"

text \<open>
  \<open>cfg\<close> is the new struct; \<open>start\<close> is given the server's number, and \<open>names i j\<close> is the name of the end
  from server \<open>i\<close> to server \<open>j\<close>.
\<close>

definition start_all ::
    "('s \<Rightarrow> 'b Persister) \<Rightarrow> (nat \<Rightarrow> 'b Persister \<Rightarrow> 's) \<Rightarrow> (nat \<Rightarrow> nat \<Rightarrow> 'n) \<Rightarrow> bool
      \<Rightarrow> ('s, 'b, 'n, 'z) server_config_scheme \<Rightarrow> cfg_failure + ('s, 'b, 'n, 'z) server_config_scheme" where
  "start_all per start names unreliable cfg =
     (case go_for (\<lambda>i. StartServer per (start i) (names i) i i) [0..<scN cfg] cfg of
        Inl e \<Rightarrow> Inl e
      | Inr cfg \<Rightarrow>
          (case ConnectAll cfg of
             Inl e \<Rightarrow> Inl e
           | Inr cfg \<Rightarrow> Inr (cfg\<lparr>scNet := Reliable (\<not> unreliable) (scNet cfg)\<rparr>)))"

end
