(* ===== verification/ServerConfigNet.thy ===== *)
theory ServerConfigNet
  imports ServerConfig
begin

text \<open>
  What the harness of the replicated services does to the network: which endpoints \<open>partition\<close>
  leaves enabled, how \<open>make_partition\<close> divides the servers, and the shuffling of a clerk's servers.
\<close>

section \<open>Switching sets of endpoints\<close>

definition switch ::
    "'n set \<Rightarrow> bool \<Rightarrow> ('s, 'b, 'n, 'z) server_config_scheme \<Rightarrow> ('s, 'b, 'n, 'z) server_config_scheme" where
  "switch S b cfg =
     cfg\<lparr>scNet := (scNet cfg)\<lparr>enabled := (\<lambda>e. if e \<in> S then b else enabled (scNet cfg) e)\<rparr>\<rparr>"

lemma switch_fields [simp]:
  "scN (switch S b cfg) = scN cfg" "scEndnames (switch S b cfg) = scEndnames cfg"
  "scServers (switch S b cfg) = scServers cfg" "scSaved (switch S b cfg) = scSaved cfg"
  "scClerks (switch S b cfg) = scClerks cfg" "nextClientId (switch S b cfg) = nextClientId cfg"
  "scStart (switch S b cfg) = scStart cfg"
  "ends (scNet (switch S b cfg)) = ends (scNet cfg)"
  "connections (scNet (switch S b cfg)) = connections (scNet cfg)"
  "netServers (scNet (switch S b cfg)) = netServers (scNet cfg)"
  "AllServers (switch S b cfg) = AllServers cfg"
  "endAt (switch S b cfg) = endAt cfg"
  by (simp_all add: switch_def AllServers_def endAt_def fun_eq_iff)

lemma enabled_switch [simp]:
  "enabled (scNet (switch S b cfg)) e = (if e \<in> S then b else enabled (scNet cfg) e)"
  by (simp add: switch_def)

lemma switch_empty [simp]: "switch {} b cfg = cfg"
  by (simp add: switch_def)

lemma same_switches: "f = g \<Longrightarrow> cfg\<lparr>scNet := nt\<lparr>enabled := f\<rparr>\<rparr> = cfg\<lparr>scNet := nt\<lparr>enabled := g\<rparr>\<rparr>"
  by simp

lemma switch_switch [simp]: "switch S b (switch S' b cfg) = switch (S \<union> S') b cfg"
  by (auto simp: switch_def intro!: same_switches)

lemma switch_commute: "S \<inter> S' = {} \<Longrightarrow> switch S b (switch S' b' cfg) = switch S' b' (switch S b cfg)"
  by (auto simp: switch_def fun_eq_iff intro!: same_switches)

lemma enableAt_switch: "endAt cfg i j = Some e \<Longrightarrow> enableAt i j b cfg = Inr (switch {e} b cfg)"
  by (auto simp: enableAt_def Enable_def switch_def intro!: same_switches)

lemma go_for_switch:
  assumes "\<And>x S. x \<in> set xs \<Longrightarrow> f x (switch S b cfg) = Inr (switch (g x) b (switch S b cfg))"
  shows "go_for f xs cfg = Inr (switch (\<Union>x \<in> set xs. g x) b cfg)"
proof -
  have "go_for f xs (switch S b cfg) = Inr (switch ((\<Union>x \<in> set xs. g x) \<union> S) b cfg)" for S
    using assms
  proof (induction xs arbitrary: S)
    case (Cons x xs)
    then have "f x (switch S b cfg) = Inr (switch (g x \<union> S) b cfg)" by simp
    then show ?case using Cons by (simp add: Un_ac)
  qed simp
  from this [of "{}"] show ?thesis by simp
qed

section \<open>Servers that have been started\<close>

definition endName :: "('s, 'b, 'n, 'z) server_config_scheme \<Rightarrow> nat \<Rightarrow> nat \<Rightarrow> 'n" where
  "endName cfg i j = the (endAt cfg i j)"

lemma endName_switch [simp]: "endName (switch S b cfg) = endName cfg"
  by (simp add: endName_def fun_eq_iff)

text \<open>
  The servers in \<open>S\<close> have been started: they have their endpoints, which are known to the network,
  lead to the right servers and have different names.
\<close>

definition startedOn :: "nat set \<Rightarrow> ('s, 'b, 'n, 'z) server_config_scheme \<Rightarrow> bool" where
  "startedOn S cfg \<longleftrightarrow> S \<subseteq> {..<scN cfg} \<and>
     length (scEndnames cfg) = scN cfg \<and> length (scServers cfg) = scN cfg \<and> length (scSaved cfg) = scN cfg \<and>
     (\<forall>i \<in> S. \<exists>ns. scEndnames cfg ! i = Some ns \<and> length ns = scN cfg) \<and>
     (\<forall>i \<in> S. \<forall>j < scN cfg. endName cfg i j \<in> ends (scNet cfg) \<and>
        connections (scNet cfg) (endName cfg i j) = Some j) \<and>
     (\<forall>i \<in> S. \<forall>j < scN cfg. \<forall>i' \<in> S. \<forall>j' < scN cfg.
        endName cfg i j = endName cfg i' j' \<longrightarrow> i = i' \<and> j = j')"

abbreviation started :: "('s, 'b, 'n, 'z) server_config_scheme \<Rightarrow> bool" where
  "started cfg \<equiv> startedOn {..<scN cfg} cfg"

lemma startedOn_switch [simp]: "startedOn S (switch T b cfg) = startedOn S cfg"
  by (simp add: startedOn_def)

lemma started_endAt:
  assumes "started cfg" and "i < scN cfg" and "j < scN cfg"
  shows "endAt cfg i j = Some (endName cfg i j)"
proof -
  have "i \<in> {..<scN cfg}" using assms(2) by simp
  then obtain ns where "scEndnames cfg ! i = Some ns" "length ns = scN cfg"
    using assms(1) unfolding startedOn_def by blast
  then show ?thesis using assms by (simp add: startedOn_def endName_def endAt_def go_nth_in)
qed

lemma started_inj:
  assumes "started cfg" and "i < scN cfg" "j < scN cfg" "i' < scN cfg" "j' < scN cfg"
  shows "endName cfg i j = endName cfg i' j' \<longleftrightarrow> i = i' \<and> j = j'"
  using assms unfolding startedOn_def by (meson lessThan_iff)

definition between :: "('s, 'b, 'n, 'z) server_config_scheme \<Rightarrow> nat set \<Rightarrow> nat set \<Rightarrow> 'n set" where
  "between cfg I J = (\<Union>i \<in> I. \<Union>j \<in> J. {endName cfg i j, endName cfg j i})"

lemma between_switch [simp]: "between (switch S b cfg) = between cfg"
  by (simp add: between_def fun_eq_iff)

lemma range_nth_Union: "(\<Union>j \<in> set [0..<length xs]. g (xs ! j)) = (\<Union>x \<in> set xs. g x)"
  by (force simp: in_set_conv_nth)

lemma connectUnlocked_switch:
  assumes "started cfg" and "i < scN cfg" and "set to \<subseteq> {..<scN cfg}"
  shows "connectUnlocked i to cfg = Inr (switch (between cfg {i} (set to)) True cfg)"
proof -
  have "go_for (\<lambda>j. enableAt i (to ! j) True) [0..<length to] cfg =
      Inr (switch (\<Union>j \<in> set [0..<length to]. {endName cfg i (to ! j)}) True cfg)"
    by (rule go_for_switch) (use assms nth_mem in \<open>force intro!: enableAt_switch simp: started_endAt\<close>)
  moreover have "go_for (\<lambda>j. enableAt (to ! j) i True) [0..<length to] (switch S True cfg) =
      Inr (switch (\<Union>j \<in> set [0..<length to]. {endName cfg (to ! j) i}) True (switch S True cfg))" for S
    by (rule go_for_switch) (use assms nth_mem in \<open>force intro!: enableAt_switch simp: started_endAt\<close>)
  moreover have "(\<Union>j \<in> set [0..<length to]. {endName cfg (to ! j) i}) \<union>
      (\<Union>j \<in> set [0..<length to]. {endName cfg i (to ! j)}) = between cfg {i} (set to)"
    unfolding range_nth_Union [where g = "\<lambda>t. {endName cfg t i}"]
      range_nth_Union [where g = "\<lambda>t. {endName cfg i t}"] by (auto simp: between_def)
  ultimately show ?thesis by (simp add: connectUnlocked_def del: set_upt)
qed

lemma disconnectUnlocked_switch:
  assumes "started cfg" and "i < scN cfg" and "set p \<subseteq> {..<scN cfg}" and "length p \<le> scN cfg"
  shows "disconnectUnlocked i p cfg = Inr (switch (between cfg {i} (set p)) False cfg)"
proof -
  have ne: "go_nth (scEndnames cfg) (int j) \<noteq> None \<and> go_nth (scEndnames cfg) (int j) \<noteq> Some None"
    if "j < scN cfg" for j using assms(1) that by (auto simp: startedOn_def go_nth_def)
  let ?f = "\<lambda>k a j cfg. case go_nth (scEndnames cfg) (int k) of None \<Rightarrow> Inl RuntimePanic
     | Some ns \<Rightarrow> if ns \<noteq> None then enableAt a j False cfg else Inr cfg"
  have f: "?f k a j (switch S False cfg) = Inr (switch {endName cfg a j} False (switch S False cfg))"
    if "k < scN cfg" "a < scN cfg" "j < scN cfg" for k a j S
    using ne [OF that(1)] started_endAt [OF assms(1) that(2,3)] by (auto simp: enableAt_switch)
  have p: "p ! j < scN cfg" if "j < length p" for j using assms(3) nth_mem [OF that] by auto
  have "go_for (\<lambda>j. ?f i i (p ! j)) [0..<length p] cfg =
      Inr (switch (\<Union>j \<in> set [0..<length p]. {endName cfg i (p ! j)}) False cfg)"
    by (rule go_for_switch) (use assms p in \<open>simp only: f set_upt atLeastLessThan_iff\<close>)
  moreover have "go_for (\<lambda>j. ?f j (p ! j) i) [0..<length p] (switch S False cfg) =
      Inr (switch (\<Union>j \<in> set [0..<length p]. {endName cfg (p ! j) i}) False (switch S False cfg))" for S
    by (rule go_for_switch) (use assms p in \<open>auto simp only: f set_upt atLeastLessThan_iff switch_switch\<close>)
  moreover have "(\<Union>j \<in> set [0..<length p]. {endName cfg (p ! j) i}) \<union>
      (\<Union>j \<in> set [0..<length p]. {endName cfg i (p ! j)}) = between cfg {i} (set p)"
    unfolding range_nth_Union [where g = "\<lambda>t. {endName cfg t i}"]
      range_nth_Union [where g = "\<lambda>t. {endName cfg i t}"] by (auto simp: between_def)
  ultimately show ?thesis by (simp add: disconnectUnlocked_def del: set_upt)
qed

section \<open>Partitions\<close>

lemma between_disjoint:
  assumes "started cfg" and "I \<union> J \<union> K \<union> L \<subseteq> {..<scN cfg}" and "I \<inter> K = {} \<or> J \<inter> L = {}"
    and "I \<inter> L = {} \<or> J \<inter> K = {}"
  shows "between cfg I J \<inter> between cfg K L = {}"
proof -
  have "endName cfg i j \<noteq> endName cfg k l" "endName cfg i j \<noteq> endName cfg l k"
    "endName cfg j i \<noteq> endName cfg k l" "endName cfg j i \<noteq> endName cfg l k"
    if "i \<in> I" "j \<in> J" "k \<in> K" "l \<in> L" for i j k l
  proof -
    have "i < scN cfg" "j < scN cfg" "k < scN cfg" "l < scN cfg" using assms(2) that by auto
    then show "endName cfg i j \<noteq> endName cfg k l" "endName cfg i j \<noteq> endName cfg l k"
      "endName cfg j i \<noteq> endName cfg k l" "endName cfg j i \<noteq> endName cfg l k"
      using assms(3,4) that by (auto simp: started_inj [OF assms(1)])
  qed
  then show ?thesis unfolding between_def by blast
qed

lemma between_Union: "(\<Union>i \<in> I. between cfg {i} J) = between cfg I J"
  by (auto simp: between_def)

text \<open>One of the two loops of \<open>partition\<close>.\<close>

lemma splitOff_switch:
  assumes st: "started cfg" and p: "set p \<subseteq> {..<scN cfg}" and q: "set q \<subseteq> {..<scN cfg}"
    and "length q \<le> scN cfg" and dis: "set p \<inter> set q = {}"
  shows "splitOff p q cfg =
    Inr (switch (between cfg (set p) (set p)) True (switch (between cfg (set p) (set q)) False cfg))"
proof -
  let ?body = "\<lambda>i cfg. case disconnectUnlocked (p ! i) q cfg of Inl e \<Rightarrow> Inl e
     | Inr cfg \<Rightarrow> connectUnlocked (p ! i) p cfg"
  have "go_for ?body is (switch (between cfg I (set p)) True (switch (between cfg I (set q)) False cfg)) =
      Inr (switch (between cfg (I \<union> (!) p ` set is) (set p)) True
            (switch (between cfg (I \<union> (!) p ` set is) (set q)) False cfg))"
    if "set is \<subseteq> {..<length p}" "I \<subseteq> set p" for "is" I using that
  proof (induction "is" arbitrary: I)
    case (Cons i "is")
    let ?x = "p ! i"
    have x: "?x \<in> set p" using Cons.prems(1) by simp
    then have xn: "?x < scN cfg" using p by auto
    let ?c = "switch (between cfg I (set p)) True (switch (between cfg I (set q)) False cfg)"
    have "?body i ?c = Inr (switch (between cfg {?x} (set p)) True (switch (between cfg {?x} (set q)) False ?c))"
      using disconnectUnlocked_switch [of ?c ?x q] assms xn
        connectUnlocked_switch [of "switch (between cfg {?x} (set q)) False ?c" ?x p] by simp
    also have "switch (between cfg {?x} (set q)) False ?c = switch (between cfg I (set p)) True
        (switch (between cfg {?x} (set q)) False (switch (between cfg I (set q)) False cfg))"
      by (rule switch_commute, rule between_disjoint) (use st p q x Cons.prems(2) dis in auto)
    finally have "?body i ?c = Inr (switch (between cfg (insert ?x I) (set p)) True
        (switch (between cfg (insert ?x I) (set q)) False cfg))"
      by (simp add: between_def Un_ac)
    then show ?case using Cons.IH [of "insert ?x I"] Cons.prems x by simp
  qed simp
  then have "go_for ?body [0..<length p] (switch (between cfg {} (set p)) True (switch (between cfg {} (set q)) False cfg)) =
      Inr (switch (between cfg ({} \<union> (!) p ` set [0..<length p]) (set p)) True
            (switch (between cfg ({} \<union> (!) p ` set [0..<length p]) (set q)) False cfg))"
    by (simp add: lessThan_atLeast0)
  moreover have "(!) p ` set [0..<length p] = set p" using nth_image [of "length p" p] by simp
  moreover have "between cfg {} X = {}" for X by (simp add: between_def)
  ultimately show ?thesis by (simp add: splitOff_def)
qed

text \<open>The network after \<open>partition\<close>: the servers of one side reach each other and nobody else.\<close>

definition same_side :: "nat list \<Rightarrow> nat \<Rightarrow> nat \<Rightarrow> bool" where
  "same_side p1 i j \<longleftrightarrow> (i \<in> set p1 \<longleftrightarrow> j \<in> set p1)"

lemma between_mem:
  assumes "started cfg" and "I \<union> J \<subseteq> {..<scN cfg}" and "i < scN cfg" and "j < scN cfg"
  shows "endName cfg i j \<in> between cfg I J \<longleftrightarrow> i \<in> I \<and> j \<in> J \<or> i \<in> J \<and> j \<in> I"
proof
  assume "endName cfg i j \<in> between cfg I J"
  then obtain a b where "a \<in> I" "b \<in> J" "endName cfg i j = endName cfg a b \<or> endName cfg i j = endName cfg b a"
    by (auto simp: between_def)
  moreover from this have "a < scN cfg" "b < scN cfg" using assms(2) by auto
  ultimately show "i \<in> I \<and> j \<in> J \<or> i \<in> J \<and> j \<in> I" using assms by (auto simp: started_inj)
qed (auto simp: between_def)

lemma partitionServers_switch:
  assumes "started cfg" and "distinct (p1 @ p2)" and "set (p1 @ p2) = {..<scN cfg}"
  shows "\<exists>cfg'. partitionServers p1 p2 cfg = Inr cfg' \<and> started cfg' \<and> scServers cfg' = scServers cfg \<and>
    endName cfg' = endName cfg \<and> scN cfg' = scN cfg \<and> connections (scNet cfg') = connections (scNet cfg) \<and>
    (\<forall>i < scN cfg. \<forall>j < scN cfg. enabled (scNet cfg') (endName cfg i j) = same_side p1 i j) \<and>
    (\<forall>e. (\<forall>i < scN cfg. \<forall>j < scN cfg. e \<noteq> endName cfg i j) \<longrightarrow>
       enabled (scNet cfg') e = enabled (scNet cfg) e)"
proof -
  let ?A = "set p1" and ?B = "set p2" and ?n = "scN cfg"
  have sub: "?A \<subseteq> {..<?n}" "?B \<subseteq> {..<?n}" and un: "?A \<union> ?B = {..<?n}" using assms(3) by auto
  have len: "length p1 \<le> ?n" "length p2 \<le> ?n"
    using assms(2) distinct_card [of p1] distinct_card [of p2] card_mono [OF _ sub(1)] card_mono [OF _ sub(2)]
    by simp_all
  have dis: "?A \<inter> ?B = {}" "?B \<inter> ?A = {}" using assms(2) by auto
  let ?c1 = "switch (between cfg ?A ?A) True (switch (between cfg ?A ?B) False cfg)"
  let ?c2 = "switch (between cfg ?B ?B) True (switch (between cfg ?B ?A) False ?c1)"
  have eq: "partitionServers p1 p2 cfg = Inr ?c2"
    using splitOff_switch [OF assms(1) sub len(2) dis(1)] splitOff_switch [of ?c1 p2 p1] sub len dis assms(1)
    by (simp add: partitionServers_def)
  have mem: "i \<in> ?B \<longleftrightarrow> i \<notin> ?A" if "i < ?n" for i using un dis that by auto
  have "enabled (scNet ?c2) (endName cfg i j) = same_side p1 i j" if "i < ?n" "j < ?n" for i j
    using that sub by (simp add: between_mem [OF assms(1)] mem same_side_def)
  moreover have "enabled (scNet ?c2) e = enabled (scNet cfg) e"
    if "\<forall>i < ?n. \<forall>j < ?n. e \<noteq> endName cfg i j" for e
  proof -
    have "e \<notin> between cfg X Y" if "X \<union> Y \<subseteq> {..<?n}" for X Y
      using \<open>\<forall>i < ?n. \<forall>j < ?n. e \<noteq> endName cfg i j\<close> that unfolding between_def by blast
    then show ?thesis using sub by simp
  qed
  ultimately show ?thesis using eq assms(1) by (intro exI [of _ ?c2]) simp
qed

section \<open>Choosing a partition\<close>

lemma LeaderFrom_Inr:
  "LeaderFrom getState i ss = Inr (b, l) \<Longrightarrow>
    (b \<longrightarrow> i \<le> l \<and> l < i + length ss \<and> (\<exists>s. ss ! (l - i) = Some s \<and> snd (getState s))) \<and> (\<not> b \<longrightarrow> l = 0)"
proof (induction getState i ss rule: LeaderFrom.induct)
  case (3 getState i s ss)
  then show ?case by (cases "snd (getState s)") (auto simp: nth_Cons' Suc_le_eq)
qed auto

lemma LeaderFrom_running:
  "None \<notin> set ss \<Longrightarrow> \<exists>b l. LeaderFrom getState i ss = Inr (b, l) \<and>
    (b \<longleftrightarrow> (\<exists>s. Some s \<in> set ss \<and> snd (getState s)))"
proof (induction getState i ss rule: LeaderFrom.induct)
  case (3 getState i s ss)
  then show ?case by (cases "snd (getState s)") fastforce+
qed auto

lemma length_others: "length (filter (\<lambda>i. i \<noteq> l) [0..<k]) = (if l < k then k - 1 else k)" for l k :: nat
  by (induction k) auto

lemma go_upd_at: "i < length xs \<Longrightarrow> k = int i \<Longrightarrow> go_upd xs k v = Some (xs[i := v])"
  by (simp add: go_upd_def)

text \<open>
  The two slices are filled as one: first the servers other than \<open>l\<close>, then zeros that are left over,
  and \<open>l\<close> in the last place.
\<close>

lemma fill_slices:
  fixes n l :: nat
  assumes "l < n"
  shows "\<exists>q1 q2. go_for (\<lambda>i (p1, p2, j).
        if i \<noteq> l then
          if j < length p1 then Inr (p1[j := i], p2, j + 1)
          else (case go_upd p2 (int j - go_len p1) i of
                  None \<Rightarrow> Inl RuntimePanic
                | Some p2 \<Rightarrow> Inr (p1, p2, j + 1))
        else Inr (p1, p2, j)) [0..<n] (replicate (n div 2 + 1) 0, replicate (n div 2) 0, 0) =
      Inr (q1, q2, n - 1) \<and> length q1 = n div 2 + 1 \<and> length q2 = n div 2 \<and>
      q1 @ q2 = filter (\<lambda>i. i \<noteq> l) [0..<n] @ replicate (if even n then 2 else 1) 0" (is "\<exists>q1 q2. go_for ?f _ _ = _ \<and> _")
proof -
  let ?T = "n div 2 + 1 + n div 2" and ?len = "\<lambda>k. length (filter (\<lambda>i. i \<noteq> l) [0..<k])"
  note len = length_others [of l]
  have fin: "?len n = n - 1" using assms by (simp add: len)
  have "k \<le> n \<Longrightarrow> \<exists>q1 q2. go_for ?f [0..<k] (replicate (n div 2 + 1) 0, replicate (n div 2) 0, 0) =
      Inr (q1, q2, ?len k) \<and> length q1 = n div 2 + 1 \<and> length q2 = n div 2 \<and>
      q1 @ q2 = filter (\<lambda>i. i \<noteq> l) [0..<k] @ replicate (?T - ?len k) 0" for k
  proof (induction k)
    case 0
    have "replicate (n div 2 + 1) (0::nat) @ replicate (n div 2) 0 = replicate ?T 0"
      by (simp add: replicate_add [symmetric])
    then show ?case by simp
  next
    case (Suc k)
    then obtain q1 q2 where q: "go_for ?f [0..<k] (replicate (n div 2 + 1) 0, replicate (n div 2) 0, 0) =
        Inr (q1, q2, ?len k)" "length q1 = n div 2 + 1" "length q2 = n div 2"
      "q1 @ q2 = filter (\<lambda>i. i \<noteq> l) [0..<k] @ replicate (?T - ?len k) 0" by auto
    let ?j = "?len k"
    show ?case
    proof (cases "k = l")
      case True
      then show ?thesis using q by (auto simp: go_for_append)
    next
      case False
      have "n \<le> ?T" by presburger
      then have j: "?j < ?T" using Suc.prems assms False by (auto simp: len)
      then obtain m where m: "?T - ?j = Suc m" by (metis Suc_diff_Suc)
      then have m': "m = ?T - Suc ?j" by simp
      have upd: "(q1 @ q2)[?j := k] = filter (\<lambda>i. i \<noteq> l) [0..<Suc k] @ replicate (?T - ?len (Suc k)) 0"
        unfolding q(4) m using False m' by (simp add: list_update_append)
      show ?thesis
      proof (cases "?j < length q1")
        case True
        then have "(q1 @ q2)[?j := k] = q1[?j := k] @ q2" by (simp add: list_update_append)
        with upd show ?thesis using q(1-3) True False by (auto simp: go_for_append)
      next
        case out: False
        then have "go_upd q2 (int ?j - go_len q1) k = Some (q2[?j - length q1 := k])"
          using j q(2,3) by (intro go_upd_at) auto
        moreover have "(q1 @ q2)[?j := k] = q1 @ q2[?j - length q1 := k]"
          using out by (simp add: list_update_append)
        ultimately show ?thesis using upd q(1-3) out False by (auto simp: go_for_append)
      qed
    qed
  qed
  from this [of n] have "\<exists>q1 q2. go_for ?f [0..<n] (replicate (n div 2 + 1) 0, replicate (n div 2) 0, 0) =
      Inr (q1, q2, ?len n) \<and> length q1 = n div 2 + 1 \<and> length q2 = n div 2 \<and>
      q1 @ q2 = filter (\<lambda>i. i \<noteq> l) [0..<n] @ replicate (?T - ?len n) 0" by simp
  moreover have "?T - (n - 1) = (if even n then 2 else 1)" using assms by (auto elim!: evenE oddE)
  ultimately show ?thesis unfolding fin by simp
qed

definition partition_order :: "nat \<Rightarrow> nat \<Rightarrow> nat list" where
  "partition_order n l = filter (\<lambda>i. i \<noteq> l) [0..<n] @ (if even n then [0] else []) @ [l]"

lemma make_partition_eq:
  assumes L: "Leader getState cfg = Inr (b, l)" and len: "length (scServers cfg) = scN cfg" and n: "2 \<le> scN cfg"
  shows "make_partition getState cfg = Inr (take (scN cfg div 2 + 1) (partition_order (scN cfg) l),
    drop (scN cfg div 2 + 1) (partition_order (scN cfg) l))"
proof -
  let ?n = "scN cfg"
  have l: "l < ?n" using LeaderFrom_Inr [OF L [unfolded Leader_def]] len n by (cases b) auto
  obtain q1 q2 where q: "go_for (\<lambda>i (p1, p2, j).
        if i \<noteq> l then
          if j < length p1 then Inr (p1[j := i], p2, j + 1)
          else (case go_upd p2 (int j - go_len p1) i of
                  None \<Rightarrow> Inl RuntimePanic
                | Some p2 \<Rightarrow> Inr (p1, p2, j + 1))
        else Inr (p1, p2, j)) [0..<?n] (replicate (?n div 2 + 1) 0, replicate (?n div 2) 0, 0) =
      Inr (q1, q2, ?n - 1)" "length q1 = ?n div 2 + 1" "length q2 = ?n div 2"
    "q1 @ q2 = filter (\<lambda>i. i \<noteq> l) [0..<?n] @ replicate (if even ?n then 2 else 1) 0"
    using fill_slices [OF l] by blast
  have ne: "0 < length q2" using n q(3) by simp
  have "q1 @ q2[length q2 - 1 := l] = (q1 @ q2)[length (q1 @ q2) - 1 := l]"
    using ne list_update_append [of q1 q2 "length (q1 @ q2) - 1" l] by (cases "length q2") auto
  also have "\<dots> = partition_order ?n l"
    unfolding q(4) partition_order_def by (auto simp: list_update_append numeral_2_eq_2)
  finally have "q1 @ q2[length q2 - 1 := l] = partition_order ?n l" .
  then have "take (?n div 2 + 1) (partition_order ?n l) = q1"
    "drop (?n div 2 + 1) (partition_order ?n l) = q2[length q2 - 1 := l]"
    using q(2) by (metis append_eq_conv_conj)+
  moreover have "go_upd q2 (go_len q2 - 1) l = Some (q2[length q2 - 1 := l])"
    using ne by (intro go_upd_at) linarith+
  ultimately show ?thesis using q(1) by (simp add: make_partition_def L)
qed

lemma partition_order_odd:
  assumes "l < n" and "odd n"
  shows "distinct (partition_order n l) \<and> set (partition_order n l) = {..<n} \<and> length (partition_order n l) = n"
proof -
  have d: "distinct (partition_order n l)" using assms by (auto simp: partition_order_def)
  moreover have s: "set (partition_order n l) = {..<n}" using assms by (auto simp: partition_order_def)
  ultimately show ?thesis using distinct_card [OF d] by simp
qed

lemma make_partition_minority:
  fixes getState :: "'s \<Rightarrow> int \<times> bool" and cfg :: "('s, 'b, 'n, 'z) server_config_scheme"
  assumes st: "started cfg" and n: "odd (scN cfg)" "3 \<le> scN cfg" and up: "\<forall>s \<in> set (scServers cfg). s \<noteq> None"
  shows "\<exists>found l p1 p2. Leader getState cfg = Inr (found, l) \<and> make_partition getState cfg = Inr (p1, p2) \<and>
    l \<in> set p2 \<and> 2 * length p1 = scN cfg + 1 \<and> 2 * length p2 < scN cfg \<and> distinct (p1 @ p2) \<and> set (p1 @ p2) = {..<scN cfg} \<and>
    (found \<longleftrightarrow> (\<exists>s. Some s \<in> set (scServers cfg) \<and> snd (getState s))) \<and>
    (found \<longrightarrow> (\<exists>s. scServers cfg ! l = Some s \<and> snd (getState s)))"
proof -
  let ?n = "scN cfg"
  have len: "length (scServers cfg) = ?n" using st by (simp add: startedOn_def)
  have "None \<notin> set (scServers cfg)" using up by blast
  then obtain found l where L: "LeaderFrom getState 0 (scServers cfg) = Inr (found, l)"
    "found \<longleftrightarrow> (\<exists>s. Some s \<in> set (scServers cfg) \<and> snd (getState s))"
    using LeaderFrom_running by blast
  note lead = LeaderFrom_Inr [OF L(1)]
  then have l: "l < ?n" using len n(2) by (cases found) auto
  let ?o = "partition_order ?n l" and ?k = "?n div 2 + 1"
  define p1 p2 where p: "p1 = take ?k ?o" "p2 = drop ?k ?o"
  have mp: "make_partition getState cfg = Inr (p1, p2)"
    unfolding p by (rule make_partition_eq [of _ _ found]) (use L len n(2) in \<open>simp_all add: Leader_def\<close>)
  have ord: "distinct ?o" "set ?o = {..<?n}" "length ?o = ?n" using partition_order_odd [OF l n(1)] by auto
  have cat: "p1 @ p2 = ?o" by (simp only: p append_take_drop_id)
  have split: "distinct (p1 @ p2)" "set (p1 @ p2) = {..<?n}" unfolding cat by (rule ord)+
  have half: "?k < ?n" "2 * ?k = ?n + 1" using n by presburger+
  have lens: "length p1 = ?k" "length p2 = ?n - ?k" using half(1) ord(3) by (simp_all add: p)
  have "last (p1 @ p2) = l" unfolding cat by (simp add: partition_order_def)
  then have "l \<in> set p2" using lens half(1) by (auto simp: last_append split: if_splits)
  moreover have "2 * length p1 = ?n + 1" "2 * length p2 < ?n" using half lens by simp_all
  moreover have "found \<longrightarrow> (\<exists>s. scServers cfg ! l = Some s \<and> snd (getState s))" using lead by simp
  ultimately show ?thesis using mp split L
    by (intro exI [of _ found] exI [of _ l] exI [of _ p1] exI [of _ p2] conjI) (assumption | simp add: Leader_def)+
qed

text \<open>A server on the second side keeps the endpoints to that side only.\<close>

lemma partition_side:
  assumes st: "started cfg" and p: "distinct (p1 @ p2)" "set (p1 @ p2) = {..<scN cfg}" and l: "l \<in> set p2"
  shows "\<exists>cfg'. partitionServers p1 p2 cfg = Inr cfg' \<and>
    (\<forall>j < scN cfg. enabled (scNet cfg') (endName cfg l j) \<longleftrightarrow> j \<in> set p2)"
proof -
  obtain cfg' where c: "partitionServers p1 p2 cfg = Inr cfg'"
    "\<And>i j. i < scN cfg \<Longrightarrow> j < scN cfg \<Longrightarrow> enabled (scNet cfg') (endName cfg i j) = same_side p1 i j"
    using partitionServers_switch [OF st p] by blast
  have "l < scN cfg" "l \<notin> set p1" using l p by auto
  then have "\<forall>j < scN cfg. enabled (scNet cfg') (endName cfg l j) \<longleftrightarrow> j \<in> set p2"
    using c(2) p unfolding same_side_def by auto
  then show ?thesis using c(1) by blast
qed

section \<open>Shuffling a clerk's servers\<close>

lemma mset_swap_update: "i < length xs \<Longrightarrow> j < length xs \<Longrightarrow> mset (xs[i := xs ! j, j := xs ! i]) = mset xs"
  by (rule mset_swap)

lemma random_handles_mset: "mset (random_handles rnd kvh) = mset kvh"
proof -
  let ?f = "\<lambda>i sa. let j = rnd i mod (i + 1) in sa[i := sa ! j, j := sa ! i]"
  have "set is \<subseteq> {..<length sa} \<Longrightarrow> mset (fold ?f is sa) = mset sa" for "is" and sa :: "'a list"
  proof (induction "is" arbitrary: sa)
    case (Cons i "is")
    have "rnd i mod (i + 1) < length sa"
      using Cons.prems mod_less_divisor [of "i + 1" "rnd i"] by (metis Suc_eq_plus1 insert_subset le_less_trans
          lessThan_iff less_Suc_eq_le list.simps(15) zero_less_Suc)
    then have "mset (?f i sa) = mset sa" using Cons.prems by (simp add: Let_def mset_swap_update)
    moreover have "length (?f i sa) = length sa" by (simp add: Let_def)
    ultimately show ?case using Cons.IH [of "?f i sa"] Cons.prems by simp
  qed simp
  then show ?thesis by (simp add: random_handles_def lessThan_atLeast0)
qed

section \<open>Starting and stopping servers\<close>

lemma newEnds:
  assumes "distinct js" and "inj_on names (set js)" and "names ` set js \<inter> ends nt = {}"
  shows "\<exists>nt'. go_for (\<lambda>j. newEnd (names j) j) js nt = Inr nt' \<and> ends nt' = ends nt \<union> names ` set js \<and>
    enabled nt' = (\<lambda>e. enabled nt e \<and> e \<notin> names ` set js) \<and> netServers nt' = netServers nt \<and>
    (\<forall>j \<in> set js. connections nt' (names j) = Some j) \<and>
    (\<forall>e. e \<notin> names ` set js \<longrightarrow> connections nt' e = connections nt e)"
  using assms
proof (induction js arbitrary: nt)
  case (Cons x js)
  let ?nt = "nt\<lparr>ends := insert (names x) (ends nt), enabled := (enabled nt)(names x := False),
     connections := (connections nt)(names x := Some x)\<rparr>"
  have "newEnd (names x) x nt = Inr ?nt" using Cons.prems(3) by (simp add: newEnd_def MakeEnd_def Connect_def)
  moreover obtain nt' where "go_for (\<lambda>j. newEnd (names j) j) js ?nt = Inr nt'"
    "ends nt' = ends ?nt \<union> names ` set js"
    "enabled nt' = (\<lambda>e. enabled ?nt e \<and> e \<notin> names ` set js)" "netServers nt' = netServers ?nt"
    "\<forall>j \<in> set js. connections nt' (names j) = Some j"
    "\<forall>e. e \<notin> names ` set js \<longrightarrow> connections nt' e = connections ?nt e"
    using Cons.IH [of ?nt] Cons.prems by auto
  moreover have "names x \<notin> names ` set js" using Cons.prems(1,2) by auto
  ultimately show ?case by (intro exI [of _ nt']) (auto simp: fun_eq_iff)
qed simp

text \<open>Fields that the operations on the network's switches do not touch.\<close>

lemma startedOn_cong:
  assumes "startedOn S cfg" and "scN cfg' = scN cfg" and "scEndnames cfg' = scEndnames cfg"
    and "length (scServers cfg') = length (scServers cfg)" and "length (scSaved cfg') = length (scSaved cfg)"
    and "ends (scNet cfg) \<subseteq> ends (scNet cfg')"
    and "\<And>e. e \<in> ends (scNet cfg) \<Longrightarrow> connections (scNet cfg') e = connections (scNet cfg) e"
  shows "startedOn S cfg'"
proof -
  have "endName cfg' = endName cfg" using assms(3) by (simp add: endName_def endAt_def fun_eq_iff)
  then show ?thesis using assms unfolding startedOn_def by auto
qed

lemma savedObj_in: "startedOn S cfg \<Longrightarrow> i < scN cfg \<Longrightarrow> \<exists>ps. savedObj per i cfg = Some ps"
  by (auto simp: savedObj_def startedOn_def go_nth_def split: option.splits)

lemma savedObj_switch [simp]: "savedObj per i (switch S b cfg) = savedObj per i cfg"
  by (simp add: savedObj_def split: option.split)

lemma savedObj_net [simp]: "savedObj per i (cfg\<lparr>scNet := nt\<rparr>) = savedObj per i cfg"
  by (simp add: savedObj_def split: option.split)

lemma savedObj_other:
  assumes "i \<noteq> m" and "scServers c2 = (scServers c1)[m := x]" and "scSaved c2 = (scSaved c1)[m := p]"
  shows "savedObj per i c2 = savedObj per i c1"
proof -
  have "go_nth (xs[m := y]) (int i) = go_nth xs (int i)" for xs :: "'a list" and y using assms(1) by (simp add: go_nth_def)
  then show ?thesis using assms by (simp add: savedObj_def go_nth_def split: option.split)
qed

lemma ShutdownServer_started:
  assumes st: "started cfg" and i: "i < scN cfg"
  shows "\<exists>cfg' ps. ShutdownServer per i cfg = Inr cfg' \<and> started cfg' \<and> scN cfg' = scN cfg \<and>
    savedObj per i cfg = Some ps \<and> scSaved cfg' = (scSaved cfg)[i := map_option Persister_Copy ps] \<and>
    scServers cfg' = (scServers cfg)[i := None] \<and> endName cfg' = endName cfg \<and>
    ends (scNet cfg') = ends (scNet cfg) \<and> scClerks cfg' = scClerks cfg \<and>
    netServers (scNet cfg') i = None \<and>
    (\<forall>j < scN cfg. \<not> enabled (scNet cfg') (endName cfg i j) \<and> \<not> enabled (scNet cfg') (endName cfg j i))"
proof -
  let ?c1 = "switch (between cfg {i} {..<scN cfg}) False cfg"
  have d: "disconnectUnlocked i (AllServers cfg) cfg = Inr ?c1"
    using disconnectUnlocked_switch [OF st i, of "AllServers cfg"] by (simp add: AllServers_def lessThan_atLeast0)
  obtain ps where ps: "savedObj per i cfg = Some ps" using savedObj_in [OF st i] by blast
  let ?c2 = "?c1\<lparr>scNet := DeleteServer i (scNet ?c1), scSaved := (scSaved cfg)[i := map_option Persister_Copy ps],
                  scServers := (scServers cfg)[i := None]\<rparr>"
  have "ShutdownServer per i cfg = Inr ?c2" using d ps by (simp add: ShutdownServer_def Let_def)
  moreover have "startedOn {..<scN cfg} ?c2"
    by (rule startedOn_cong [of _ ?c1]) (use st in \<open>simp_all add: DeleteServer_def\<close>)
  moreover have "\<not> enabled (scNet ?c2) (endName cfg i j) \<and> \<not> enabled (scNet ?c2) (endName cfg j i)"
    if "j < scN cfg" for j
    using that by (auto simp: DeleteServer_def between_def)
  moreover have "endName ?c2 = endName cfg" by (simp add: endName_def endAt_def fun_eq_iff)
  ultimately show ?thesis using ps by (intro exI [of _ ?c2] exI [of _ ps]) (simp add: DeleteServer_def)
qed

lemma StartServer_started:
  assumes st: "startedOn S cfg" and i: "i < scN cfg" and nms: "inj_on names {..<scN cfg}"
    "names ` {..<scN cfg} \<inter> ends (scNet cfg) = {}"
  shows "\<exists>cfg' ps. StartServer per start names srv i cfg = Inr cfg' \<and> startedOn (insert i S) cfg' \<and>
    scN cfg' = scN cfg \<and> savedObj per i cfg = Some ps \<and> 
    scSaved cfg' = (scSaved cfg)[i := Some (case ps of Some ps \<Rightarrow> Persister_Copy ps | None \<Rightarrow> MakePersister)] \<and>
    scServers cfg' = (scServers cfg)[i := Some (start (case ps of Some ps \<Rightarrow> Persister_Copy ps | None \<Rightarrow> MakePersister))] \<and>
    ends (scNet cfg') = ends (scNet cfg) \<union> names ` {..<scN cfg} \<and> scClerks cfg' = scClerks cfg \<and>
    netServers (scNet cfg') i = Some srv \<and>
    (\<forall>j < scN cfg. endName cfg' i j = names j \<and> \<not> enabled (scNet cfg') (endName cfg' i j))"
proof -
  let ?n = "scN cfg" and ?ns = "map names [0..<scN cfg]"
  have len: "length (scEndnames cfg) = ?n" "length (scServers cfg) = ?n" "length (scSaved cfg) = ?n" "S \<subseteq> {..<?n}"
    using st by (simp_all add: startedOn_def)
  obtain nt where nt: "go_for (\<lambda>j. newEnd (names j) j) [0..<?n] (scNet cfg) = Inr nt"
    "ends nt = ends (scNet cfg) \<union> names ` {..<?n}" "enabled nt = (\<lambda>e. enabled (scNet cfg) e \<and> e \<notin> names ` {..<?n})"
    "\<forall>j < ?n. connections nt (names j) = Some j"
    "\<forall>e. e \<notin> names ` {..<?n} \<longrightarrow> connections nt e = connections (scNet cfg) e"
    using newEnds [of "[0..<?n]" names "scNet cfg"] nms by (auto simp: lessThan_atLeast0)
  obtain ps where ps: "savedObj per i cfg = Some ps" using savedObj_in [OF st i] by blast
  let ?p = "case ps of Some ps \<Rightarrow> Persister_Copy ps | None \<Rightarrow> MakePersister"
  let ?c = "cfg\<lparr>scEndnames := (scEndnames cfg)[i := Some ?ns], scSaved := (scSaved cfg)[i := Some ?p],
    scServers := (scServers cfg)[i := Some (start ?p)], scNet := AddServer i srv nt\<rparr>"
  have eq: "StartServer per start names srv i cfg = Inr ?c"
    using nt(1) ps i len(1) by (simp add: StartServer_def Let_def go_upd_def)
  have nm: "endName ?c a b = (if a = i then names b else endName cfg a b)" if "b < ?n" for a b
    using that i len(1) by (auto simp: endName_def endAt_def go_nth_def)
  have old: "endName cfg a b \<in> ends (scNet cfg)" "connections (scNet cfg) (endName cfg a b) = Some b"
    "endName cfg a b \<notin> names ` {..<?n}" if "a \<in> S" "b < ?n" for a b
    using st nms(2) that unfolding startedOn_def by blast+
  have new: "names k \<noteq> endName cfg a b" if "a \<in> S" "b < ?n" "k < ?n" for a b k
    using old(3) [OF that(1,2)] that(3) by (metis imageI lessThan_iff)
  have inj: "a = a' \<and> b = b'" if "endName cfg a b = endName cfg a' b'" "a \<in> S" "a' \<in> S" "b < ?n" "b' < ?n" for a a' b b'
    using st that unfolding startedOn_def by blast
  have inj': "b = b'" if "names b = names b'" "b < ?n" "b' < ?n" for b b'
    using inj_onD [OF nms(1) that(1)] that by simp
  have "startedOn (insert i S) ?c" unfolding startedOn_def
  proof (intro conjI ballI allI impI)
    show "\<exists>ns. scEndnames ?c ! a = Some ns \<and> length ns = scN ?c" if "a \<in> insert i S" for a
      using that st len i by (cases "a = i") (auto simp: startedOn_def)
    show "endName ?c a b \<in> ends (scNet ?c)" "connections (scNet ?c) (endName ?c a b) = Some b"
      if "a \<in> insert i S" "b < scN ?c" for a b
      using that old [of a b] nm [of b a] nt(2,4,5) by (auto simp: AddServer_def)
    fix a b a' b'
    assume *: "a \<in> insert i S" "b < scN ?c" "a' \<in> insert i S" "b' < scN ?c" "endName ?c a b = endName ?c a' b'"
    then have "b < ?n" "b' < ?n" by simp_all
    then show "a = a'" "b = b'" using * nm [of b a] nm [of b' a'] new [of a b] new [of a' b'] inj inj'
      by (auto split: if_splits)
  qed (use len i in simp_all)
  moreover have "\<forall>j < ?n. endName ?c i j = names j \<and> \<not> enabled (scNet ?c) (endName ?c i j)"
    using nm nt(3) by (simp add: AddServer_def)
  moreover have "ends (scNet ?c) = ends (scNet cfg) \<union> names ` {..<?n}" "netServers (scNet ?c) i = Some srv"
    using nt(2) by (simp_all add: AddServer_def)
  ultimately show ?thesis using eq ps
    by (intro exI [of _ ?c] exI [of _ ps] conjI) (assumption | simp (no_asm))+
qed

lemma ConnectAll_switch:
  assumes "started cfg"
  shows "ConnectAll cfg = Inr (switch (between cfg {..<scN cfg} {..<scN cfg}) True cfg)"
proof -
  have "go_for (\<lambda>i cfg. connectUnlocked i (AllServers cfg) cfg) [0..<scN cfg] cfg =
      Inr (switch (\<Union>i \<in> set [0..<scN cfg]. between cfg {i} {..<scN cfg}) True cfg)"
  proof (rule go_for_switch)
    fix i S assume "i \<in> set [0..<scN cfg]"
    then show "connectUnlocked i (AllServers (switch S True cfg)) (switch S True cfg) =
        Inr (switch (between cfg {i} {..<scN cfg}) True (switch S True cfg))"
      using connectUnlocked_switch [of "switch S True cfg" i "AllServers cfg"] assms
      by (simp add: AllServers_def lessThan_atLeast0)
  qed
  then show ?thesis unfolding between_Union by (simp add: ConnectAll_def lessThan_atLeast0)
qed

text \<open>\<open>randstring\<close> never draws a name twice.\<close>

definition fresh :: "nat \<Rightarrow> (nat \<Rightarrow> nat \<Rightarrow> 'n) \<Rightarrow> bool" where
  "fresh n names \<longleftrightarrow> (\<forall>i < n. \<forall>j < n. \<forall>i' < n. \<forall>j' < n. names i j = names i' j' \<longrightarrow> i = i' \<and> j = j')"

lemma start_servers:
  assumes "fresh (scN cfg) names" and "startedOn {} cfg" and "ends (scNet cfg) = {}" and "m \<le> scN cfg"
    and "\<And>i. i < scN cfg \<Longrightarrow> savedObj per i cfg = Some None"
  shows "\<exists>cfg'. go_for (\<lambda>i. StartServer per (start i) (names i) i i) [0..<m] cfg = Inr cfg' \<and>
    startedOn {..<m} cfg' \<and> scN cfg' = scN cfg \<and> scClerks cfg' = scClerks cfg \<and>
    ends (scNet cfg') = (\<Union>i < m. names i ` {..<scN cfg}) \<and>
    (\<forall>i < m. scServers cfg' ! i = Some (start i MakePersister)) \<and>
    (\<forall>i < scN cfg. m \<le> i \<longrightarrow> savedObj per i cfg' = Some None)"
  using assms(4)
proof (induction m)
  case 0
  then show ?case using assms by simp
next
  case (Suc m)
  let ?n = "scN cfg" and ?f = "\<lambda>i. StartServer per (start i) (names i) i i"
  obtain c1 where c1: "go_for ?f [0..<m] cfg = Inr c1" "startedOn {..<m} c1" "scN c1 = ?n"
    "scClerks c1 = scClerks cfg" "ends (scNet c1) = (\<Union>i < m. names i ` {..<?n})"
    "\<forall>i < m. scServers c1 ! i = Some (start i MakePersister)"
    "\<forall>i < ?n. m \<le> i \<longrightarrow> savedObj per i c1 = Some None"
    using Suc by auto
  have m: "m < ?n" using Suc.prems by simp
  have inj: "inj_on (names m) {..<scN c1}"
    using assms(1) m unfolding c1(3) fresh_def inj_on_def by blast
  have "names m j \<noteq> names i j'" if "i < m" "j < ?n" "j' < ?n" for i j j'
  proof
    assume "names m j = names i j'"
    then have "m = i" using assms(1) m that unfolding fresh_def by (meson less_trans)
    then show False using that by simp
  qed
  then have "names m ` {..<scN c1} \<inter> ends (scNet c1) = {}" unfolding c1(3,5) by auto
  with inj obtain c2 p where c2: "StartServer per (start m) (names m) m m c1 = Inr c2" "startedOn (insert m {..<m}) c2"
    "scN c2 = ?n" "scClerks c2 = scClerks cfg" "ends (scNet c2) = ends (scNet c1) \<union> names m ` {..<?n}"
    "scServers c2 = (scServers c1)[m := Some (start m MakePersister)]" "scSaved c2 = (scSaved c1)[m := p]"
    using StartServer_started [OF c1(2), of m "names m" per "start m" m] c1(3,4,7) m by auto
  have "length (scServers c1) = ?n" using c1(2,3) by (simp add: startedOn_def)
  then have "\<forall>i < Suc m. scServers c2 ! i = Some (start i MakePersister)"
    using c1(6) c2(6) m by (auto simp: less_Suc_eq nth_list_update)
  moreover have "\<forall>i < ?n. Suc m \<le> i \<longrightarrow> savedObj per i c2 = Some None"
    using c1(7) savedObj_other [OF _ c2(6,7), of _ per] by (simp add: Suc_le_eq)
  moreover have "go_for ?f [0..<Suc m] cfg = Inr c2" using c1(1) c2(1) by (simp add: go_for_append)
  ultimately show ?case using c2(2-5) c1(5) by (simp add: lessThan_Suc Un_commute)
qed

lemma start_all_started:
  assumes "fresh (scN cfg) names" and "startedOn {} cfg" and "ends (scNet cfg) = {}"
    and sv: "\<And>i. i < scN cfg \<Longrightarrow> savedObj per i cfg = Some None"
  shows "\<exists>cfg'. start_all per start names unreliable cfg = Inr cfg' \<and> started cfg' \<and> scN cfg' = scN cfg \<and>
    ends (scNet cfg') = (\<Union>i < scN cfg. names i ` {..<scN cfg}) \<and>
    (\<forall>i < scN cfg. scServers cfg' ! i = Some (start i MakePersister)) \<and>
    (\<forall>i < scN cfg. \<forall>j < scN cfg. enabled (scNet cfg') (endName cfg' i j))"
proof -
  obtain c1 where c1: "go_for (\<lambda>i. StartServer per (start i) (names i) i i) [0..<scN cfg] cfg = Inr c1"
    "startedOn {..<scN cfg} c1" and n: "scN c1 = scN cfg"
    and run: "\<forall>i < scN cfg. scServers c1 ! i = Some (start i MakePersister)"
    and en: "ends (scNet c1) = (\<Union>i < scN cfg. names i ` {..<scN cfg})"
    using start_servers [OF assms(1-3) order_refl sv, of start] by blast
  then have st: "started c1" by simp
  let ?c2 = "switch (between c1 {..<scN c1} {..<scN c1}) True c1"
  let ?c3 = "?c2\<lparr>scNet := Reliable (\<not> unreliable) (scNet ?c2)\<rparr>"
  have "start_all per start names unreliable cfg = Inr ?c3"
    by (simp only: start_all_def c1(1) ConnectAll_switch [OF st] sum.case)
  moreover have "startedOn {..<scN c1} ?c3"
    by (rule startedOn_cong [of _ ?c2]) (use st in \<open>simp_all add: Reliable_def\<close>)
  moreover have e: "endName ?c3 = endName c1" by (simp add: endName_def endAt_def fun_eq_iff)
  moreover have "enabled (scNet ?c3) (endName c1 i j)" if "i < scN c1" "j < scN c1" for i j
    using that by (simp add: Reliable_def between_mem [OF st])
  moreover have "ends (scNet ?c3) = ends (scNet c1)" by (simp add: Reliable_def)
  ultimately show ?thesis using n run en by (intro exI [of _ ?c3]) simp
qed

section \<open>Every configuration of a group\<close>

lemma go_for_inv:
  assumes "go_for f xs s = Inr s'" and "P s" and "\<And>x s s'. x \<in> set xs \<Longrightarrow> P s \<Longrightarrow> f x s = Inr s' \<Longrightarrow> P s'"
  shows "P s'"
  using assms
proof (induction xs arbitrary: s)
  case (Cons x xs)
  from Cons.prems(1) obtain t where t: "f x s = Inr t" "go_for f xs t = Inr s'" by (auto split: sum.splits)
  show ?case by (rule Cons.IH [OF t(2)]) (use Cons.prems(2,3) t(1) in auto)
qed simp

text \<open>The operations that only switch endpoints.\<close>

definition switched :: "('s, 'b, 'n, 'z) server_config_scheme \<Rightarrow> ('s, 'b, 'n, 'z) server_config_scheme \<Rightarrow> bool" where
  "switched cfg cfg' \<longleftrightarrow> (\<exists>f. cfg' = cfg\<lparr>scNet := (scNet cfg)\<lparr>enabled := f\<rparr>\<rparr>)"

lemma switched_refl [simp]: "switched cfg cfg"
proof -
  have "cfg = cfg\<lparr>scNet := (scNet cfg)\<lparr>enabled := enabled (scNet cfg)\<rparr>\<rparr>" by simp
  then show ?thesis unfolding switched_def by blast
qed

lemma switched_trans: "switched a b \<Longrightarrow> switched b c \<Longrightarrow> switched a c"
  by (auto simp: switched_def)

lemma switched_started: "switched cfg cfg' \<Longrightarrow> startedOn S cfg \<Longrightarrow> startedOn S cfg'"
  by (erule startedOn_cong) (auto simp: switched_def)

lemma go_for_switched:
  assumes "go_for f xs s = Inr s'" and "\<And>x s s'. x \<in> set xs \<Longrightarrow> f x s = Inr s' \<Longrightarrow> switched s s'"
  shows "switched s s'"
  by (rule go_for_inv [OF assms(1), where P = "switched s"]) (auto intro: switched_trans assms(2))

lemma enableAt_switched: "enableAt i j b cfg = Inr cfg' \<Longrightarrow> switched cfg cfg'"
  by (auto simp: enableAt_def Enable_def switched_def split: option.splits)

lemma connectUnlocked_switched:
  assumes "connectUnlocked i to cfg = Inr cfg'"
  shows "switched cfg cfg'"
proof -
  obtain c1 where c1: "go_for (\<lambda>j. enableAt i (to ! j) True) [0..<length to] cfg = Inr c1"
    "go_for (\<lambda>j. enableAt (to ! j) i True) [0..<length to] c1 = Inr cfg'"
    using assms by (auto simp: connectUnlocked_def split: sum.splits)
  have "switched cfg c1" by (rule go_for_switched [OF c1(1)]) (rule enableAt_switched)
  moreover have "switched c1 cfg'" by (rule go_for_switched [OF c1(2)]) (rule enableAt_switched)
  ultimately show ?thesis by (rule switched_trans)
qed

lemma disconnectUnlocked_switched:
  assumes "disconnectUnlocked i p cfg = Inr cfg'"
  shows "switched cfg cfg'"
proof -
  let ?f = "\<lambda>k a j cfg. case go_nth (scEndnames cfg) (int k) of None \<Rightarrow> Inl RuntimePanic
     | Some ns \<Rightarrow> if ns \<noteq> None then enableAt a j False cfg else Inr cfg"
  obtain c1 where c1: "go_for (\<lambda>j. ?f i i (p ! j)) [0..<length p] cfg = Inr c1"
    "go_for (\<lambda>j. ?f j (p ! j) i) [0..<length p] c1 = Inr cfg'"
    using assms by (auto simp: disconnectUnlocked_def split: sum.splits)
  have f: "switched c c'" if "?f k a j c = Inr c'" for k a j and c c' :: "('a, 'b, 'c, 'd) server_config_scheme"
    using that by (auto split: option.splits if_splits intro: enableAt_switched)
  have "switched cfg c1" by (rule go_for_switched [OF c1(1)]) (rule f)
  moreover have "switched c1 cfg'" by (rule go_for_switched [OF c1(2)]) (rule f)
  ultimately show ?thesis by (rule switched_trans)
qed

lemma splitOff_switched: "splitOff p q cfg = Inr cfg' \<Longrightarrow> switched cfg cfg'"
  unfolding splitOff_def
  by (erule go_for_switched)
    (auto split: sum.splits dest!: disconnectUnlocked_switched connectUnlocked_switched intro: switched_trans)

lemma partitionServers_switched: "partitionServers p1 p2 cfg = Inr cfg' \<Longrightarrow> switched cfg cfg'"
  by (auto simp: partitionServers_def split: sum.splits dest!: splitOff_switched intro: switched_trans)

lemma ConnectAll_switched: "ConnectAll cfg = Inr cfg' \<Longrightarrow> switched cfg cfg'"
  unfolding ConnectAll_def by (erule go_for_switched) (rule connectUnlocked_switched)

lemma setClientEnds_switched: "setClientEnds b ck to cfg = Inr cfg' \<Longrightarrow> switched cfg cfg'"
  unfolding setClientEnds_def Let_def
  by (erule go_for_switched) (auto simp: Enable_def switched_def split: option.splits)

lemmas switching = connectUnlocked_switched disconnectUnlocked_switched partitionServers_switched
  ConnectAll_switched setClientEnds_switched

end
