(* ===== verification/KVConfig.thy ===== *)
theory KVConfig
  imports ServerConfigNet KVClerk RaftTheorems
begin

text \<open>
  The test harness of the key/value service, \<open>src/src/kvraft/config.go\<close>: the functions of \<open>ServerConfig\<close>
  on \<open>KVServer\<close>s, and what is particular to this service. The configurations the tests can reach from
  \<open>make_config\<close> are a transition system; the properties hold in all of them.
\<close>

section \<open>The harness\<close>

record 'n kv_config = "(KVServer, Op gob_value, 'n) server_config" +
  kcMaxraftstate :: int
  kcT0 :: int
  kcRpcs0 :: int
  kcOps :: "32 word"

definition kvPersister :: "KVServer \<Rightarrow> Op gob_value Persister" where
  "kvPersister kv = persister (rf kv)"

text \<open>\<open>c\<close> is the clock and random number of the new Raft peer.\<close>

definition KV_StartServer ::
    "clock \<Rightarrow> (nat \<Rightarrow> 'n) \<Rightarrow> nat \<Rightarrow> nat \<Rightarrow> 'n kv_config \<Rightarrow> cfg_failure + 'n kv_config" where
  "KV_StartServer c names srv i cfg =
     StartServer kvPersister (\<lambda>ps. StartKVServer c (scN cfg) (int i) ps (kcMaxraftstate cfg)) names srv i cfg"

definition KV_ShutdownServer :: "nat \<Rightarrow> 'n kv_config \<Rightarrow> cfg_failure + 'n kv_config" where
  "KV_ShutdownServer i cfg = ShutdownServer kvPersister i cfg"

definition KV_Leader :: "'n kv_config \<Rightarrow> cfg_failure + bool \<times> nat" where
  "KV_Leader cfg = Leader (\<lambda>kv. GetState (rf kv)) cfg"

definition KV_make_partition :: "'n kv_config \<Rightarrow> cfg_failure + nat list \<times> nat list" where
  "KV_make_partition cfg = make_partition (\<lambda>kv. GetState (rf kv)) cfg"

definition KV_make_config ::
    "(nat \<Rightarrow> nat \<Rightarrow> 'n) \<Rightarrow> (nat \<Rightarrow> clock) \<Rightarrow> int \<Rightarrow> nat \<Rightarrow> bool \<Rightarrow> int \<Rightarrow> cfg_failure + 'n kv_config" where
  "KV_make_config names cs now n unreliable maxstate =
     start_all kvPersister (\<lambda>i ps. StartKVServer (cs i) n (int i) ps maxstate) names unreliable
       \<lparr>scNet = MakeNetwork, scN = n, scServers = replicate n None, scSaved = replicate n None,
        scEndnames = replicate n None, scClerks = Map.empty, nextClientId = int n + 1000,
        scStart = now, kcMaxraftstate = maxstate, kcT0 = 0, kcRpcs0 = 0, kcOps = 0\<rparr>"

definition kv_rpcTotal :: "'n kv_config \<Rightarrow> int" where
  "kv_rpcTotal cfg = GetTotalCount (scNet cfg)"

definition kv_begin :: "int \<Rightarrow> 'n kv_config \<Rightarrow> 'n kv_config" where
  "kv_begin now cfg = cfg\<lparr>kcT0 := now, kcRpcs0 := kv_rpcTotal cfg, kcOps := 0\<rparr>"

definition kv_op :: "'n kv_config \<Rightarrow> 'n kv_config" where
  "kv_op cfg = cfg\<lparr>kcOps := kcOps cfg + 1\<rparr>"

text \<open>The numbers \<open>end\<close> prints: time, servers, RPCs, clerk operations.\<close>

definition kv_end :: "bool \<Rightarrow> int \<Rightarrow> 'n kv_config \<Rightarrow> cfg_failure + (int \<times> nat \<times> int \<times> int) option" where
  "kv_end failed now cfg =
     (case cfg_checkTimeout failed now cfg of
        Some e \<Rightarrow> Inl e
      | None \<Rightarrow>
          Inr (if failed then None
               else Some (now - kcT0 cfg, scN cfg, kv_rpcTotal cfg - kcRpcs0 cfg, sint (kcOps cfg))))"

section \<open>Reachable configurations\<close>

text \<open>
  What a test does with the harness, in any order, while the servers run (\<open>kc_run\<close>); \<open>randstring\<close>
  never draws a name twice.
\<close>

inductive kv_cfg_step :: "'n kv_config \<Rightarrow> 'n kv_config \<Rightarrow> bool" where
  kc_connect: "connectUnlocked i to cfg = Inr cfg' \<Longrightarrow> kv_cfg_step cfg cfg'"
| kc_disconnect: "disconnectUnlocked i p cfg = Inr cfg' \<Longrightarrow> kv_cfg_step cfg cfg'"
| kc_connect_all: "ConnectAll cfg = Inr cfg' \<Longrightarrow> kv_cfg_step cfg cfg'"
| kc_partition: "partitionServers p1 p2 cfg = Inr cfg' \<Longrightarrow> kv_cfg_step cfg cfg'"
| kc_connect_client: "ConnectClientUnlocked ck to cfg = Inr cfg' \<Longrightarrow> kv_cfg_step cfg cfg'"
| kc_disconnect_client: "DisconnectClientUnlocked ck to cfg = Inr cfg' \<Longrightarrow> kv_cfg_step cfg cfg'"
| kc_make_client: "inj_on names {..<scN cfg} \<Longrightarrow> names ` {..<scN cfg} \<inter> ends (scNet cfg) = {} \<Longrightarrow>
    makeClient MakeClerk rnd names ck to cfg = Inr (cfg', clerk) \<Longrightarrow> kv_cfg_step cfg cfg'"
| kc_delete_client: "kv_cfg_step cfg (deleteClient ck cfg)"
| kc_shutdown: "i < scN cfg \<Longrightarrow> KV_ShutdownServer i cfg = Inr cfg' \<Longrightarrow> kv_cfg_step cfg cfg'"
| kc_start: "i < scN cfg \<Longrightarrow> inj_on names {..<scN cfg} \<Longrightarrow> names ` {..<scN cfg} \<inter> ends (scNet cfg) = {} \<Longrightarrow>
    KV_StartServer c names srv i cfg = Inr cfg' \<Longrightarrow> kv_cfg_step cfg cfg'"
| kc_begin: "kv_cfg_step cfg (kv_begin now cfg)"
| kc_op: "kv_cfg_step cfg (kv_op cfg)"
| kc_run: "length ss = length (scServers cfg) \<Longrightarrow> nt = (scNet cfg)\<lparr>netCount := k, netBytes := b\<rparr> \<Longrightarrow>
    kv_cfg_step cfg (cfg\<lparr>scServers := ss, scNet := nt\<rparr>)"

lemma makeClient_ends:
  fixes cfg :: "('s, 'b, 'n, 'z) server_config_scheme"
  assumes "inj_on names {..<scN cfg}" and "names ` {..<scN cfg} \<inter> ends (scNet cfg) = {}"
    and "set to \<subseteq> {..<scN cfg}"
  shows "\<exists>cfg'. makeClient mk rnd names ck to cfg = Inr (cfg', mk (random_handles rnd (map names [0..<scN cfg]))) \<and>
    scN cfg' = scN cfg \<and> (\<forall>j < scN cfg. connections (scNet cfg') (names j) = Some j \<and>
      (enabled (scNet cfg') (names j) \<longleftrightarrow> j \<in> set to)) \<and>
    (\<forall>e. e \<notin> names ` {..<scN cfg} \<longrightarrow> enabled (scNet cfg') e = enabled (scNet cfg) e)"
proof -
  let ?n = "scN cfg" and ?ns = "map names [0..<scN cfg]"
  obtain nt where nt: "go_for (\<lambda>j. newEnd (names j) j) [0..<?n] (scNet cfg) = Inr nt"
    "enabled nt = (\<lambda>e. enabled (scNet cfg) e \<and> e \<notin> names ` {..<?n})"
    "\<forall>j < ?n. connections nt (names j) = Some j"
    using newEnds [of "[0..<?n]" names "scNet cfg"] assms(1,2) by (auto simp: lessThan_atLeast0)
  let ?c = "cfg\<lparr>scNet := nt, scClerks := (scClerks cfg)(ck \<mapsto> ?ns), nextClientId := nextClientId cfg + 1\<rparr>"
  have "setClientEnds True ck to ?c = Inr (switch (\<Union>t \<in> set to. {names t}) True ?c)"
    unfolding setClientEnds_def Let_def
  proof (rule go_for_switch)
    fix t S assume "t \<in> set to"
    then have "go_nth ?ns (int t) = Some (names t)" using assms(3) by (auto simp: go_nth_def)
    then show "(case go_nth (case scClerks ?c ck of None \<Rightarrow> [] | Some ns \<Rightarrow> ns) (int t) of
          None \<Rightarrow> Inl RuntimePanic
        | Some s \<Rightarrow> Inr (switch S True ?c\<lparr>scNet := Enable s True (scNet (switch S True ?c))\<rparr>)) =
        Inr (switch {names t} True (switch S True ?c))"
      by (auto simp: Enable_def switch_def fun_eq_iff intro!: same_switches)
  qed
  then have "makeClient mk rnd names ck to cfg =
      Inr (switch (\<Union>t \<in> set to. {names t}) True ?c, mk (random_handles rnd ?ns))"
    using nt(1) by (simp add: makeClient_def Let_def ConnectClientUnlocked_def)
  moreover have "enabled (scNet (switch (\<Union>t \<in> set to. {names t}) True ?c)) (names j) \<longleftrightarrow> j \<in> set to"
    if "j < ?n" for j
  proof -
    have "names j \<in> (\<Union>t \<in> set to. {names t}) \<longleftrightarrow> j \<in> set to"
      using that assms(1,3) by (auto dest!: inj_onD)
    then show ?thesis using that nt(2) by (simp del: UN_simps)
  qed
  moreover have "enabled (scNet (switch (\<Union>t \<in> set to. {names t}) True ?c)) e = enabled (scNet cfg) e"
    if "e \<notin> names ` {..<?n}" for e
    using that assms(3) nt(2) by auto
  ultimately show ?thesis using nt(3) by (intro exI [of _ "switch (\<Union>t \<in> set to. {names t}) True ?c"]) simp
qed

lemma makeClient_started:
  assumes "startedOn S cfg" and "inj_on names {..<scN cfg}" and "names ` {..<scN cfg} \<inter> ends (scNet cfg) = {}"
    and mk: "makeClient mk rnd names ck to cfg = Inr (cfg', clerk)"
  shows "startedOn S cfg' \<and> scN cfg' = scN cfg"
proof -
  let ?n = "scN cfg" and ?ns = "map names [0..<scN cfg]"
  obtain nt where nt: "go_for (\<lambda>j. newEnd (names j) j) [0..<?n] (scNet cfg) = Inr nt"
    "ends nt = ends (scNet cfg) \<union> names ` {..<?n}"
    "\<forall>e. e \<notin> names ` {..<?n} \<longrightarrow> connections nt e = connections (scNet cfg) e"
    using newEnds [of "[0..<?n]" names "scNet cfg"] assms(2,3) by (auto simp: lessThan_atLeast0)
  let ?c = "cfg\<lparr>scNet := nt, scClerks := (scClerks cfg)(ck \<mapsto> ?ns), nextClientId := nextClientId cfg + 1\<rparr>"
  have "setClientEnds True ck to ?c = Inr cfg'"
    using mk nt(1) by (auto simp: makeClient_def Let_def ConnectClientUnlocked_def split: sum.splits)
  then have sw: "switched ?c cfg'" by (rule setClientEnds_switched)
  have "startedOn S ?c" by (rule startedOn_cong [OF assms(1)]) (use nt assms(3) in auto)
  then show ?thesis using switched_started [OF sw] sw by (auto simp: switched_def)
qed

lemma kv_cfg_step_started:
  assumes "kv_cfg_step cfg cfg'" and "started cfg"
  shows "started cfg' \<and> scN cfg' = scN cfg"
  using assms
proof (cases rule: kv_cfg_step.cases)
  case (kc_make_client names rnd ck to clerk)
  then show ?thesis using makeClient_started [OF assms(2) kc_make_client] by simp
next
  case (kc_shutdown i)
  then show ?thesis using ShutdownServer_started [OF assms(2), of i kvPersister] by (auto simp: KV_ShutdownServer_def)
next
  case (kc_start i names c srv)
  then show ?thesis
    using StartServer_started [OF assms(2), of i names kvPersister
        "\<lambda>ps. StartKVServer c (scN cfg) (int i) ps (kcMaxraftstate cfg)" srv]
    by (auto simp: KV_StartServer_def insert_absorb)
next
  case (kc_run ss nt k b)
  then show ?thesis by (auto intro!: startedOn_cong [OF assms(2)])
next
  case (kc_delete_client ck)
  then show ?thesis by (auto simp: deleteClient_def intro!: startedOn_cong [OF assms(2)])
next
  case (kc_begin now)
  then show ?thesis by (auto simp: kv_begin_def intro!: startedOn_cong [OF assms(2)])
next
  case kc_op
  then show ?thesis by (auto simp: kv_op_def intro!: startedOn_cong [OF assms(2)])
qed (use assms(2) in \<open>auto simp: ConnectClientUnlocked_def DisconnectClientUnlocked_def switched_def
      dest!: switching intro!: startedOn_cong [OF assms(2)]\<close>)

lemma KV_make_config_started:
  assumes "fresh n names"
  shows "\<exists>cfg. KV_make_config names cs now n unreliable maxstate = Inr cfg \<and> started cfg \<and> scN cfg = n \<and>
    ends (scNet cfg) = (\<Union>i < n. names i ` {..<n}) \<and>
    (\<forall>i < n. scServers cfg ! i = Some (StartKVServer (cs i) n (int i) MakePersister maxstate)) \<and>
    (\<forall>i < n. \<forall>j < n. enabled (scNet cfg) (endName cfg i j))"
proof -
  let ?c = "\<lparr>scNet = MakeNetwork, scN = n, scServers = replicate n None, scSaved = replicate n None,
        scEndnames = replicate n None, scClerks = Map.empty, nextClientId = int n + 1000,
        scStart = now, kcMaxraftstate = maxstate, kcT0 = 0, kcRpcs0 = 0, kcOps = 0\<rparr> :: 'a kv_config"
  have "startedOn {} ?c" "ends (scNet ?c) = {}" "fresh (scN ?c) names"
    using assms by (simp_all add: startedOn_def MakeNetwork_def)
  moreover have "savedObj kvPersister i ?c = Some None" if "i < scN ?c" for i
    using that by (simp add: savedObj_def go_nth_def)
  ultimately show ?thesis
    using start_all_started [of ?c names kvPersister "\<lambda>i ps. StartKVServer (cs i) n (int i) ps maxstate" unreliable]
    unfolding KV_make_config_def by simp
qed

text \<open>A configuration a test can reach.\<close>

definition kv_reachable :: "'n kv_config \<Rightarrow> bool" where
  "kv_reachable cfg \<longleftrightarrow> (\<exists>names cs now n unreliable maxstate cfg0. fresh n names \<and>
     KV_make_config names cs now n unreliable maxstate = Inr cfg0 \<and> kv_cfg_step\<^sup>*\<^sup>* cfg0 cfg)"

interpretation kv_tests: inductive_invariant
  "\<lambda>cfg :: 'n kv_config. \<exists>names cs now n unreliable maxstate. fresh n names \<and>
     KV_make_config names cs now n unreliable maxstate = Inr cfg" kv_cfg_step started
proof
  fix cfg :: "'n kv_config"
  assume "\<exists>names cs now n unreliable maxstate. fresh n names \<and>
     KV_make_config names cs now n unreliable maxstate = Inr cfg"
  then show "started cfg" using KV_make_config_started by (metis sum.inject(2))
qed (use kv_cfg_step_started in blast)

lemma kv_reachable_started: "kv_reachable cfg \<Longrightarrow> started cfg"
  using kv_tests.reachable_inv unfolding kv_reachable_def by blast

section \<open>Properties\<close>

text \<open>Property C23: in every configuration the tests of the key/value service can reach, \<open>partition\<close> of the
  servers into two sides returns; afterwards an endpoint between two servers is enabled exactly when
  they are on the same side, a request from one side to the other is executed by nobody, and the
  endpoints of the clients are as before.\<close>

theorem partition_isolates:
  assumes "kv_reachable cfg" and "distinct (p1 @ p2)" and "set (p1 @ p2) = {..<scN cfg}"
  shows "\<exists>cfg'. partitionServers p1 p2 cfg = Inr cfg' \<and>
    (\<forall>i < scN cfg. \<forall>j < scN cfg.
       enabled (scNet cfg') (endName cfg i j) = (i \<in> set p1 \<longleftrightarrow> j \<in> set p1) \<and>
       ((i \<in> set p1) \<noteq> (j \<in> set p1) \<longrightarrow>
          executed (processReq d (endName cfg i j) (scNet cfg') polls nt) = None)) \<and>
    (\<forall>e. (\<forall>i < scN cfg. \<forall>j < scN cfg. e \<noteq> endName cfg i j) \<longrightarrow>
       enabled (scNet cfg') e = enabled (scNet cfg) e)"
proof -
  obtain cfg' where c: "partitionServers p1 p2 cfg = Inr cfg'"
    "\<And>i j. i < scN cfg \<Longrightarrow> j < scN cfg \<Longrightarrow> enabled (scNet cfg') (endName cfg i j) = same_side p1 i j"
    "\<forall>e. (\<forall>i < scN cfg. \<forall>j < scN cfg. e \<noteq> endName cfg i j) \<longrightarrow> enabled (scNet cfg') e = enabled (scNet cfg) e"
    using partitionServers_switch [OF kv_reachable_started [OF assms(1)] assms(2,3)] by blast
  have off: "executed (processReq d e (scNet cfg') polls nt) = None" if "\<not> enabled (scNet cfg') e" for e
    using that by (simp add: processReq_def readEndnameInfo_def Let_def)
  show ?thesis by (intro exI [of _ cfg'] conjI c(1,3)) (use c(2) off in \<open>auto simp: same_side_def\<close>)
qed

text \<open>Three servers and their names.\<close>

definition three :: "(nat \<times> nat) kv_config" where
  "three = (case KV_make_config Pair (\<lambda>_. (0, 0)) 0 3 False (- 1) of Inr cfg \<Rightarrow> cfg | Inl _ \<Rightarrow> undefined)"

lemma fresh_Pair: "fresh n Pair"
  by (simp add: fresh_def)

lemma three_made: "KV_make_config Pair (\<lambda>_. (0, 0)) 0 3 False (- 1) = Inr three"
  using KV_make_config_started [OF fresh_Pair, of "\<lambda>_. (0, 0)" 0 3 False "- 1"] by (auto simp: three_def)

lemma three_reachable: "kv_reachable three"
  unfolding kv_reachable_def using three_made fresh_Pair by blast

lemma three_N: "scN three = 3" "started three"
  "\<forall>i < 3. scServers three ! i = Some (StartKVServer (0, 0) 3 (int i) MakePersister (- 1))"
  "ends (scNet three) = (\<Union>i < 3. Pair i ` {..<3})"
  using KV_make_config_started [OF fresh_Pair, of "\<lambda>_. (0, 0)" 0 3 False "- 1"] three_made by auto

theorem partition_isolates_witness:
  "\<exists>cfg'. partitionServers [0, 2] [1] three = Inr cfg' \<and> enabled (scNet cfg') (endName three 0 2) \<and>
     \<not> enabled (scNet cfg') (endName three 1 2)"
proof -
  have "set ([0, 2] @ [1]) = {..<scN three}" by (auto simp: three_N)
  from partition_isolates [OF three_reachable _ this, of no_draws "[]" MakeNetwork]
  obtain cfg' where "partitionServers [0, 2] [1] three = Inr cfg'"
    "\<And>i j. i < 3 \<Longrightarrow> j < 3 \<Longrightarrow> enabled (scNet cfg') (endName three i j) = (i \<in> {0, 2} \<longleftrightarrow> j \<in> {0, 2})"
    by (auto simp: three_N)
  then show ?thesis by auto
qed

text \<open>When all servers of an odd group of at least three run, \<open>make_partition\<close> divides the
  servers into a majority and a minority, which has the server that \<open>Leader\<close> found; partitioning with the
  result leaves that leader connected to fewer servers than a majority.\<close>

theorem make_partition_isolates_leader:
  assumes "kv_reachable cfg" and "odd (scN cfg)" and "3 \<le> scN cfg" and "\<forall>s \<in> set (scServers cfg). s \<noteq> None"
  shows "\<exists>found l p1 p2 cfg'. KV_Leader cfg = Inr (found, l) \<and>
    (found \<longleftrightarrow> (\<exists>kv. Some kv \<in> set (scServers cfg) \<and> snd (GetState (rf kv)))) \<and>
    (found \<longrightarrow> (\<exists>kv. scServers cfg ! l = Some kv \<and> snd (GetState (rf kv)))) \<and>
    KV_make_partition cfg = Inr (p1, p2) \<and> distinct (p1 @ p2) \<and> set (p1 @ p2) = {..<scN cfg} \<and>
    2 * length p1 = scN cfg + 1 \<and> l \<in> set p2 \<and> partitionServers p1 p2 cfg = Inr cfg' \<and>
    {j. j < scN cfg \<and> enabled (scNet cfg') (endName cfg l j)} = set p2 \<and>
    2 * card {j. j < scN cfg \<and> enabled (scNet cfg') (endName cfg l j)} < scN cfg"
proof -
  let ?n = "scN cfg"
  note st = kv_reachable_started [OF assms(1)]
  obtain found l p1 p2 where p: "Leader (\<lambda>kv. GetState (rf kv)) cfg = Inr (found, l)"
    "make_partition (\<lambda>kv. GetState (rf kv)) cfg = Inr (p1, p2)" "l \<in> set p2"
    "2 * length p1 = ?n + 1" "2 * length p2 < ?n" "distinct (p1 @ p2)" "set (p1 @ p2) = {..<?n}"
    "found \<longleftrightarrow> (\<exists>kv. Some kv \<in> set (scServers cfg) \<and> snd (GetState (rf kv)))"
    "found \<longrightarrow> (\<exists>kv. scServers cfg ! l = Some kv \<and> snd (GetState (rf kv)))"
    using make_partition_minority [OF st assms(2-4), of "\<lambda>kv. GetState (rf kv)"] by blast
  obtain cfg' where c: "partitionServers p1 p2 cfg = Inr cfg'"
    "\<And>j. j < ?n \<Longrightarrow> enabled (scNet cfg') (endName cfg l j) \<longleftrightarrow> j \<in> set p2"
    using partition_side [OF st p(6,7,3)] by blast
  have reach: "{j. j < ?n \<and> enabled (scNet cfg') (endName cfg l j)} = set p2" using c(2) p(7) by auto
  have "2 * card (set p2) < ?n" using distinct_card [of p2] p(5,6) by simp
  then show ?thesis using p(1-4,6-9) c(1) reach unfolding KV_Leader_def KV_make_partition_def
    by (intro exI [of _ found] exI [of _ l] exI [of _ p1] exI [of _ p2] exI [of _ cfg'] conjI) (assumption | simp)+
qed

theorem make_partition_isolates_leader_witness:
  "\<exists>p1 p2. KV_make_partition three = Inr (p1, p2) \<and> length p1 = 2 \<and> set (p1 @ p2) = {0, 1, 2}"
proof -
  have "length (scServers three) = 3" using three_N(1,2) by (simp add: startedOn_def)
  then have "\<forall>s \<in> set (scServers three). s \<noteq> None" using three_N(3) by (metis in_set_conv_nth option.distinct(1))
  from make_partition_isolates_leader [OF three_reachable _ _ this]
  obtain p1 p2 where "KV_make_partition three = Inr (p1, p2)" "set (p1 @ p2) = {..<scN three}"
    "2 * length p1 = scN three + 1" by (auto simp: three_N)
  moreover have "{..<3} = {0, 1, 2 :: nat}" by auto
  ultimately show ?thesis by (intro exI [of _ p1] exI [of _ p2]) (simp add: three_N)
qed

text \<open>With an even number of servers a slot of the minority keeps its initial zero, so that the code puts
  server 0 on both sides whenever it is not the leader; with fewer than two servers it panics.\<close>

theorem make_partition_even:
  assumes "KV_Leader cfg = Inr (found, l)" and "length (scServers cfg) = scN cfg" and "even (scN cfg)" and "4 \<le> scN cfg"
    and "l \<noteq> 0"
  shows "\<exists>p1 p2. KV_make_partition cfg = Inr (p1, p2) \<and> 0 \<in> set p1 \<and> 0 \<in> set p2"
proof -
  let ?n = "scN cfg" and ?o = "partition_order (scN cfg) l" and ?k = "scN cfg div 2 + 1"
  have mp: "KV_make_partition cfg = Inr (take ?k ?o, drop ?k ?o)"
    unfolding KV_make_partition_def
    by (rule make_partition_eq [of _ _ found]) (use assms in \<open>simp_all add: KV_Leader_def\<close>)
  let ?f = "filter (\<lambda>i. i \<noteq> l) [0..<?n]"
  have l: "l < ?n" using assms(1,2,4) LeaderFrom_Inr [of "\<lambda>kv. GetState (rf kv)" 0 "scServers cfg" found l]
    by (cases found) (auto simp: KV_Leader_def Leader_def)
  have "[0..<?n] = 0 # [1..<?n]" using assms(4) by (simp add: upt_conv_Cons)
  then have "0 \<in> set (take ?k ?o)" using assms(5) by (simp add: partition_order_def)
  moreover have "length ?f = ?n - 1" using l by (simp add: length_others)
  ultimately have "?k \<le> length ?f" using assms(4) by presburger
  then have "0 \<in> set (drop ?k ?o)" using assms(3) by (simp add: partition_order_def)
  then show ?thesis using mp \<open>0 \<in> set (take ?k ?o)\<close> by blast
qed

text \<open>\<open>disconnectUnlocked\<close> looks whether \<open>endnames[j]\<close> is \<open>nil\<close>, not \<open>endnames[from[j]]\<close>: it panics when the other server
  has not been started.\<close>

lemma disconnect_checks_wrong_server:
  assumes "scEndnames cfg = [Some [a, b], None]"
  shows "disconnectUnlocked 0 [1] cfg = Inl RuntimePanic"
proof -
  let ?c = "cfg\<lparr>scNet := Enable b False (scNet cfg)\<rparr>"
  have "enableAt 0 1 False cfg = Inr ?c" using assms by (simp add: enableAt_def endAt_def go_nth_def)
  moreover have "enableAt 1 0 False ?c = Inl RuntimePanic" using assms by (simp add: enableAt_def endAt_def go_nth_def)
  ultimately show ?thesis using assms by (simp add: disconnectUnlocked_def go_nth_def)
qed

text \<open>Shutting a server down and starting it again works in every reachable configuration: the
  new instance has the Raft term, vote and log of the old one and an empty database, is reachable under
  the server's name, and none of its own endpoints is enabled before the test connects it.\<close>

theorem restart_keeps_raft_state:
  assumes "kv_reachable cfg" and "i < scN cfg" and "scServers cfg ! i = Some kv"
    and "node_step\<^sup>*\<^sup>* (Make c0 (scN cfg) (int i) MakePersister) (rf kv)"
    and "inj_on names {..<scN cfg}" and "names ` {..<scN cfg} \<inter> ends (scNet cfg) = {}"
  shows "\<exists>cfg1 cfg2 kv'. KV_ShutdownServer i cfg = Inr cfg1 \<and> scServers cfg1 ! i = None \<and>
    KV_StartServer c names srv i cfg1 = Inr cfg2 \<and> scServers cfg2 ! i = Some kv' \<and>
    persistent_fields (rf kv') = persistent_fields (rf kv) \<and> db kv' = Map.empty \<and>
    netServers (scNet cfg2) i = Some srv \<and> (\<forall>j < scN cfg. \<not> enabled (scNet cfg2) (endName cfg2 i j))"
proof -
  let ?n = "scN cfg"
  have st: "started cfg" by (rule kv_reachable_started [OF assms(1)])
  then have len: "length (scServers cfg) = ?n" "length (scSaved cfg) = ?n" by (simp_all add: startedOn_def)
  have sv: "savedObj kvPersister i cfg = Some (Some (persister (rf kv)))"
    using assms(2,3) len by (simp add: savedObj_def go_nth_def kvPersister_def)
  obtain c1 where c1: "KV_ShutdownServer i cfg = Inr c1" "started c1" "scN c1 = ?n"
    "scSaved c1 = (scSaved cfg)[i := Some (Persister_Copy (persister (rf kv)))]"
    "scServers c1 = (scServers cfg)[i := None]" "ends (scNet c1) = ends (scNet cfg)"
    using ShutdownServer_started [OF st assms(2), of kvPersister] sv by (auto simp: KV_ShutdownServer_def)
  let ?start = "\<lambda>ps. StartKVServer c (scN c1) (int i) ps (kcMaxraftstate c1)"
  let ?p = "Persister_Copy (Persister_Copy (persister (rf kv)))"
  have sv1: "savedObj kvPersister i c1 = Some (Some (Persister_Copy (persister (rf kv))))"
    using assms(2) len by (simp add: savedObj_def go_nth_def c1)
  obtain c2 where c2: "KV_StartServer c names srv i c1 = Inr c2" "scServers c2 = (scServers c1)[i := Some (?start ?p)]"
    "netServers (scNet c2) i = Some srv" "\<forall>j < ?n. \<not> enabled (scNet c2) (endName c2 i j)"
    using StartServer_started [OF c1(2), of i names kvPersister ?start srv] assms(2,5,6) sv1
    by (auto simp: KV_StartServer_def c1)
  have pr: "?p = Persister_Copy (persister (rf kv))" by (simp add: Persister_Copy_def Let_def)
  have inv: "node_inv (rf kv)" using assms(4) by (rule raft_node.steps_inv) simp
  then have "persistent_fields (Make c ?n (int i) (Persister_Copy (persister (rf kv)))) = persistent_fields (rf kv)"
    by (simp only: Make_recovers recovered_Copy) (simp add: node_inv_def durable_def)
  then have "persistent_fields (rf (?start ?p)) = persistent_fields (rf kv)" "db (?start ?p) = Map.empty"
    by (simp_all add: StartKVServer_def pr c1(3))
  then show ?thesis using c1(1,5) c2 assms(2) len(1)
    by (intro exI [of _ c1] exI [of _ c2] exI [of _ "?start ?p"]) simp
qed

theorem restart_keeps_raft_state_witness:
  "\<exists>cfg1 cfg2. KV_ShutdownServer 1 three = Inr cfg1 \<and> scServers cfg1 ! 1 = None \<and>
     KV_StartServer (4, 4) (Pair 7) 9 1 cfg1 = Inr cfg2 \<and> netServers (scNet cfg2) 1 = Some 9"
proof -
  let ?kv = "StartKVServer (0, 0) 3 1 MakePersister (- 1)"
  have "scServers three ! 1 = Some ?kv" using three_N(3) by simp
  moreover have "node_step\<^sup>*\<^sup>* (Make (0, 0) (scN three) (int 1) MakePersister) (rf ?kv)"
    by (simp add: StartKVServer_def three_N)
  moreover have "inj_on (Pair 7) {..<scN three}" by (simp add: inj_on_def)
  moreover have "Pair 7 ` {..<scN three} \<inter> ends (scNet three) = {}" by (auto simp: three_N)
  ultimately show ?thesis
    using restart_keeps_raft_state [OF three_reachable, of 1 ?kv "(0, 0)" "Pair 7" "(4, 4)" 9]
    by (auto simp: three_N)
qed

end
