(* ===== verification/Strconv.thy ===== *)
theory Strconv
  imports Prelude
begin

text \<open>
  Decimal numbers: \<open>strconv.Itoa\<close> and the formatting of numbers in names, for numbers that are not
  negative.
\<close>

fun itoa :: "nat \<Rightarrow> string" where
  "itoa n = (if n < 10 then [char_of (48 + n)] else itoa (n div 10) @ [char_of (48 + n mod 10)])"

declare itoa.simps [simp del]

definition digit :: "char \<Rightarrow> bool" where
  "digit c \<longleftrightarrow> 48 \<le> (of_char c :: nat) \<and> (of_char c :: nat) \<le> 57"

lemma not_digit [simp]: "\<not> digit CHR ''-''" "\<not> digit CHR ''o''" "\<not> digit CHR ''*''"
  by (simp_all add: digit_def)

lemma of_char_small: "n < 10 \<Longrightarrow> of_char (char_of (48 + n :: nat)) = 48 + n"
  by (simp add: of_char_of)

lemma digit_char_of [simp]: "n < 10 \<Longrightarrow> digit (char_of (48 + n :: nat))"
  by (simp add: digit_def of_char_small)

lemma char_of_inj: "a < 10 \<Longrightarrow> b < 10 \<Longrightarrow> char_of (48 + a :: nat) = char_of (48 + b) \<longleftrightarrow> a = b"
  by (metis of_char_small add_left_cancel)

lemma itoa_small: "n < 10 \<Longrightarrow> itoa n = [char_of (48 + n)]"
  by (simp add: itoa.simps)

lemma itoa_large: "\<not> n < 10 \<Longrightarrow> itoa n = itoa (n div 10) @ [char_of (48 + n mod 10)]"
  by (simp add: itoa.simps [of n])

lemma itoa_digits: "c \<in> set (itoa n) \<Longrightarrow> digit c"
proof (induction n rule: itoa.induct)
  case (1 n)
  then show ?case by (cases "n < 10") (auto simp: itoa_small itoa_large)
qed

lemma itoa_nonempty [simp]: "itoa n \<noteq> []" "[] \<noteq> itoa n"
  by (cases "n < 10"; simp add: itoa_small itoa_large)+

lemma itoa_inject [simp]: "itoa m = itoa n \<longleftrightarrow> m = n"
proof (induction m arbitrary: n rule: itoa.induct)
  case (1 m)
  consider "m < 10" "n < 10" | "m < 10" "\<not> n < 10" | "\<not> m < 10" "n < 10" | "\<not> m < 10" "\<not> n < 10"
    by blast
  then show ?case
  proof cases
    case 4
    then have "itoa m = itoa n \<longleftrightarrow> m div 10 = n div 10 \<and> m mod 10 = n mod 10"
      using 1 by (simp add: itoa_large char_of_inj)
    then show ?thesis by (metis div_mod_decomp)
  qed (auto simp: itoa_small itoa_large char_of_inj)
qed

text \<open>A dash ends a number.\<close>

lemma itoa_split: "itoa m @ CHR ''-'' # xs = itoa n @ CHR ''-'' # ys \<longleftrightarrow> m = n \<and> xs = ys"
proof
  assume *: "itoa m @ CHR ''-'' # xs = itoa n @ CHR ''-'' # ys"
  have tw: "takeWhile digit (itoa k @ CHR ''-'' # zs) = itoa k" for k zs
    by (subst takeWhile_append2) (auto simp: itoa_digits)
  from arg_cong [OF *, of "takeWhile digit"] have "m = n" by (simp only: tw itoa_inject)
  with * show "m = n \<and> xs = ys" by simp
qed simp

lemma itoa_dash: "itoa m \<noteq> itoa n @ CHR ''-'' # xs"
proof
  assume "itoa m = itoa n @ CHR ''-'' # xs"
  then have "CHR ''-'' \<in> set (itoa m)" by simp
  then show False using itoa_digits by force
qed

end
