(* ===== verification/JsonText.thy ===== *)
theory JsonText
  imports Prelude
begin

text \<open>
  What becomes of a string that \<open>encoding/json\<close> writes and reads back. A string of the language is a sequence
  of bytes, a JSON string one of Unicode characters: the encoder replaces every byte that does not belong to a
  well-formed UTF-8 sequence by the character U+FFFD. Escapes are undone by the decoder.
\<close>

section \<open>UTF-8\<close>

text \<open>The bytes that may follow the first one, from the table of \<open>unicode/utf8\<close>.\<close>

definition secondByte :: "nat \<Rightarrow> nat \<Rightarrow> bool" where
  "secondByte a b \<longleftrightarrow>
     (if a = 0xE0 then 0xA0 else if a = 0xF0 then 0x90 else 0x80) \<le> b \<and>
     b \<le> (if a = 0xED then 0x9F else if a = 0xF4 then 0x8F else 0xBF)"

definition laterByte :: "nat \<Rightarrow> bool" where
  "laterByte b \<longleftrightarrow> 0x80 \<le> b \<and> b \<le> 0xBF"

text \<open>The length of the well-formed sequence at the start, or 0: the size that \<open>DecodeRuneInString\<close> returns when it
  does not return the error character.\<close>

definition runeSize :: "nat list \<Rightarrow> nat" where
  "runeSize bs =
     (case bs of
        [] \<Rightarrow> 0
      | a # rest \<Rightarrow>
          if a < 0x80 then 1
          else if 0xC2 \<le> a \<and> a \<le> 0xDF then
            (case rest of b # _ \<Rightarrow> if secondByte a b then 2 else 0 | _ \<Rightarrow> 0)
          else if 0xE0 \<le> a \<and> a \<le> 0xEF then
            (case rest of b # c # _ \<Rightarrow> if secondByte a b \<and> laterByte c then 3 else 0 | _ \<Rightarrow> 0)
          else if 0xF0 \<le> a \<and> a \<le> 0xF4 then
            (case rest of b # c # d # _ \<Rightarrow> if secondByte a b \<and> laterByte c \<and> laterByte d then 4 else 0 | _ \<Rightarrow> 0)
          else 0)"

definition runeLength :: "string \<Rightarrow> nat" where
  "runeLength s = runeSize (map of_char s)"

definition replacementChar :: string where
  "replacementChar = [char_of (0xEF :: nat), char_of (0xBF :: nat), char_of (0xBD :: nat)]"

function jsonString :: "string \<Rightarrow> string" where
  "jsonString [] = []"
| "jsonString (c # cs) =
     (let n = runeLength (c # cs)
      in if n = 0 then replacementChar @ jsonString cs
         else take n (c # cs) @ jsonString (drop n (c # cs)))"
  by pat_completeness auto
termination by (relation "measure length") auto

function validUTF8 :: "string \<Rightarrow> bool" where
  "validUTF8 [] = True"
| "validUTF8 (c # cs) =
     (let n = runeLength (c # cs) in if n = 0 then False else validUTF8 (drop n (c # cs)))"
  by pat_completeness auto
termination by (relation "measure length") auto

text \<open>A string comes back unchanged exactly when it is well-formed, and what comes back always is.\<close>

lemma jsonString_id: "validUTF8 s \<Longrightarrow> jsonString s = s"
  by (induction s rule: validUTF8.induct) (auto simp: Let_def simp del: drop.simps take.simps)

lemma runeSize_cases:
  assumes "runeSize bs \<noteq> 0"
  obtains (one) a rest where "bs = a # rest" "a < 0x80"
  | (two) a b rest where "bs = a # b # rest" "0xC2 \<le> a" "a \<le> 0xDF" "secondByte a b"
  | (three) a b c rest where "bs = a # b # c # rest" "0xE0 \<le> a" "a \<le> 0xEF" "secondByte a b" "laterByte c"
  | (four) a b c d rest where "bs = a # b # c # d # rest" "0xF0 \<le> a" "a \<le> 0xF4" "secondByte a b" "laterByte c" "laterByte d"
  using assms unfolding runeSize_def by (auto split: list.splits if_splits)

lemma runeSize_take:
  assumes "runeSize bs \<noteq> 0"
  shows "runeSize (take (runeSize bs) bs @ t) = runeSize bs \<and> runeSize bs \<le> length bs"
  using assms by (cases rule: runeSize_cases) (auto simp: runeSize_def)

lemma runeLength_take:
  assumes "runeLength s \<noteq> 0"
  shows "runeLength (take (runeLength s) s @ t) = runeLength s" and "length (take (runeLength s) s) = runeLength s"
  using runeSize_take [of "map of_char s" "map of_char t"] assms by (simp_all add: runeLength_def take_map)

lemma runeLength_replacement: "runeLength (replacementChar @ t) = 3"
  by (simp add: runeLength_def runeSize_def replacementChar_def secondByte_def laterByte_def of_char_of)

lemma validUTF8_rune:
  "s \<noteq> [] \<Longrightarrow> validUTF8 s \<longleftrightarrow> runeLength s \<noteq> 0 \<and> validUTF8 (drop (runeLength s) s)"
  by (cases s) (simp_all add: Let_def del: drop.simps)

lemma jsonString_valid: "validUTF8 (jsonString s)"
proof (induction s rule: jsonString.induct)
  case (2 c cs)
  let ?n = "runeLength (c # cs)"
  show ?case
  proof (cases "?n = 0")
    case True
    have "validUTF8 (replacementChar @ jsonString cs)"
      using "2.IH"(1) [OF refl True]
      by (subst validUTF8_rune) (simp_all add: runeLength_replacement, simp_all add: replacementChar_def)
    then show ?thesis using True by simp
  next
    case False
    let ?t = "jsonString (drop ?n (c # cs))"
    note r = runeLength_take(1) [OF False, where t = ?t] runeLength_take(2) [OF False]
    have "take ?n (c # cs) @ ?t \<noteq> []" using r(2) False by auto
    then have "validUTF8 (take ?n (c # cs) @ ?t)"
      using "2.IH"(2) [OF refl False] r False by (subst validUTF8_rune) simp_all
    then show ?thesis using False by (simp add: Let_def)
  qed
qed simp

lemma jsonString_fixed_iff: "jsonString s = s \<longleftrightarrow> validUTF8 s"
  using jsonString_id jsonString_valid [of s] by auto

lemma validUTF8_ascii: "\<forall>c \<in> set s. (of_char c :: nat) < 0x80 \<Longrightarrow> validUTF8 s"
  by (induction s) (auto simp: Let_def runeLength_def runeSize_def)

end
