(* ===== verification/MapReduce.thy ===== *)
theory MapReduce
  imports Strconv JsonText "HOL-Library.List_Lexorder" "HOL-Library.Char_ord" "HOL-Library.Word"
begin

unbundle bit_operations_syntax

text \<open>
  The MapReduce framework: \<open>src/src/mr/rpc.go\<close>, \<open>src/src/mr/master.go\<close>,
  \<open>src/src/mr/worker.go\<close>, the sequential reference \<open>src/src/main/mrsequential.go\<close> and the
  applications of \<open>src/src/mrapps\<close>.

  Files. All names are in the working directory. A directory maps a name to an inode number,
  and an inode holds a content; an open file is its inode, so that a rename or a second
  \<open>os.Create\<close> of the same name has the effect it has in the program. The content of a file is
  a text or a stream of JSON values, as the decoder gives them back; the bytes of the JSON encoding are not
  modelled, but what it does to strings that are not well-formed UTF-8 is (theory \<open>JsonText\<close>).

  Time is an integer number of seconds. A \<open>log.Fatalf\<close> ends the process: a \<open>Fatal\<close> result.
  Sorting is a parameter where the code calls \<open>sort.Sort\<close>, whose result is not determined for
  equal keys; \<open>sort.Strings\<close> is \<open>sort\<close>.
\<close>

section \<open>rpc.go\<close>

datatype TaskKind = MapT | ReduceT | WaitT | ExitT

record RequestTaskReply =
  rtTaskType :: TaskKind
  rtMapTaskNumber :: nat
  rtFileName :: string
  rtNReduce :: nat
  rtReduceTaskNumber :: nat
  rtNMap :: nat

definition zeroReply :: RequestTaskReply where
  "zeroReply = \<lparr>rtTaskType = WaitT, rtMapTaskNumber = 0, rtFileName = [], rtNReduce = 0,
                rtReduceTaskNumber = 0, rtNMap = 0\<rparr>"

record TaskDoneArgs =
  tdTaskType :: TaskKind
  tdTaskNumber :: int
  tdFileNames :: "string list"

section \<open>Files\<close>

record KeyValue =
  Key :: string
  Value :: string

datatype content = Text string | Json "KeyValue list"

record fs =
  dir :: "string \<rightharpoonup> nat"
  blob :: "nat \<Rightarrow> content"
  freshInode :: nat

definition readFile :: "string \<Rightarrow> fs \<Rightarrow> content option" where
  "readFile name d = map_option (blob d) (dir d name)"

definition newFile :: "string \<Rightarrow> fs \<Rightarrow> fs" where
  "newFile name d =
     d\<lparr>dir := (dir d)(name \<mapsto> freshInode d), blob := (blob d)(freshInode d := Text []),
       freshInode := Suc (freshInode d)\<rparr>"

text \<open>\<open>os.Create\<close> truncates the file when it exists.\<close>

definition osCreate :: "string \<Rightarrow> fs \<Rightarrow> nat \<times> fs" where
  "osCreate name d =
     (case dir d name of
        Some ino \<Rightarrow> (ino, d\<lparr>blob := (blob d)(ino := Text [])\<rparr>)
      | None \<Rightarrow> (freshInode d, newFile name d))"

text \<open>
  \<open>ioutil.TempFile\<close> with a pattern that ends in a star: the list has the random suffixes it
  tries, and it takes the first one whose name is free (\<open>O_EXCL\<close>).
\<close>

fun TempFile :: "string list \<Rightarrow> string \<Rightarrow> fs \<Rightarrow> (string \<times> nat \<times> fs) option" where
  "TempFile [] pre d = None"
| "TempFile (r # rs) pre d =
     (if dir d (pre @ r) = None then Some (pre @ r, freshInode d, newFile (pre @ r) d)
      else TempFile rs pre d)"

definition writeInode :: "nat \<Rightarrow> content \<Rightarrow> fs \<Rightarrow> fs" where
  "writeInode ino c d = d\<lparr>blob := (blob d)(ino := c)\<rparr>"

text \<open>\<open>os.Rename\<close>; the master ignores its error, which leaves the directory as it was.\<close>

definition osRename :: "string \<Rightarrow> string \<Rightarrow> fs \<Rightarrow> fs" where
  "osRename src dst d =
     (case dir d src of
        None \<Rightarrow> d
      | Some ino \<Rightarrow> d\<lparr>dir := ((dir d)(src := None))(dst \<mapsto> ino)\<rparr>)"

definition interName :: "nat \<Rightarrow> nat \<Rightarrow> string" where
  "interName i r = ''mr-'' @ itoa i @ ''-'' @ itoa r"

definition outName :: "nat \<Rightarrow> string" where
  "outName r = ''mr-out-'' @ itoa r"

section \<open>master.go\<close>

datatype TaskState = Idle | InProgress | Completed

record Task =
  TaskType :: TaskKind
  State :: TaskState
  StartTime :: "int option"  \<comment> \<open>\<open>None\<close> is the zero time\<close>
  FileName :: string

record Master =
  nMap :: nat
  nReduce :: nat
  mapDone :: bool
  reduceDone :: bool
  mapTasks :: "Task list"
  reduceTasks :: "Task list"

definition taskAvailable :: "int \<Rightarrow> Task \<Rightarrow> bool" where
  "taskAvailable now task =
     (let isIdle = State task = Idle;
          isStarting = StartTime task = None;
          isInProgress = State task = InProgress;
          timeLimitReached = (case StartTime task of None \<Rightarrow> True | Some t \<Rightarrow> now > t + 10)
      in isIdle \<or> isStarting \<or> (isInProgress \<and> timeLimitReached))"

text \<open>
  The loops of \<open>GiveTask\<close> over the tasks: the first available one that is not completed, and
  whether an uncompleted one was met. \<open>now i\<close> is the time at the check of task \<open>i\<close>.
\<close>

fun scanTasks :: "(nat \<Rightarrow> int) \<Rightarrow> nat \<Rightarrow> bool \<Rightarrow> Task list \<Rightarrow> nat option \<times> bool" where
  "scanTasks now i uncompleted [] = (None, uncompleted)"
| "scanTasks now i uncompleted (t # ts) =
     (if State t = Completed then scanTasks now (Suc i) uncompleted ts
      else if taskAvailable (now i) t then (Some i, True)
      else scanTasks now (Suc i) True ts)"

definition startTask :: "nat \<Rightarrow> int \<Rightarrow> Task list \<Rightarrow> Task list" where
  "startTask i start ts = ts[i := (ts ! i)\<lparr>State := InProgress, StartTime := Some start\<rparr>]"

definition giveReduce :: "(nat \<Rightarrow> int) \<Rightarrow> int \<Rightarrow> Master \<Rightarrow> Master \<times> RequestTaskReply" where
  "giveReduce now start m =
     (case scanTasks now 0 False (reduceTasks m) of
        (Some i, _) \<Rightarrow>
          (m\<lparr>reduceTasks := startTask i start (reduceTasks m)\<rparr>,
           zeroReply\<lparr>rtTaskType := ReduceT, rtReduceTaskNumber := i, rtNMap := nMap m\<rparr>)
      | (None, uncompleted) \<Rightarrow>
          if uncompleted then (m, zeroReply\<lparr>rtTaskType := WaitT\<rparr>)
          else (m\<lparr>reduceDone := True\<rparr>, zeroReply\<lparr>rtTaskType := ExitT\<rparr>))"

definition GiveTask :: "(nat \<Rightarrow> int) \<Rightarrow> int \<Rightarrow> Master \<Rightarrow> Master \<times> RequestTaskReply" where
  "GiveTask now start m =
     (if mapDone m \<and> reduceDone m then (m, zeroReply\<lparr>rtTaskType := ExitT\<rparr>)
      else if \<not> mapDone m then
        (case scanTasks now 0 False (mapTasks m) of
           (Some i, _) \<Rightarrow>
             (m\<lparr>mapTasks := startTask i start (mapTasks m)\<rparr>,
              zeroReply\<lparr>rtTaskType := MapT, rtMapTaskNumber := i,
                        rtFileName := FileName (mapTasks m ! i), rtNReduce := nReduce m\<rparr>)
         | (None, uncompleted) \<Rightarrow>
             if uncompleted then (m, zeroReply\<lparr>rtTaskType := WaitT\<rparr>)
             else giveReduce now start (m\<lparr>mapDone := True\<rparr>))
      else giveReduce now start m)"

text \<open>The renames of a completed map task; \<open>None\<close> when \<open>args.FileNames\<close> is too short.\<close>

fun renameInter :: "nat \<Rightarrow> string list \<Rightarrow> nat list \<Rightarrow> fs \<Rightarrow> fs option" where
  "renameInter task names [] d = Some d"
| "renameInter task names (i # is) d =
     (case go_nth names (int i) of
        None \<Rightarrow> None
      | Some name \<Rightarrow> renameInter task names is (osRename name (interName task i) d))"

definition TaskDone :: "TaskDoneArgs \<Rightarrow> Master \<Rightarrow> fs \<Rightarrow> (Master \<times> fs) option" where
  "TaskDone args m d =
     (let n = tdTaskNumber args
      in if tdTaskType args = MapT then
           (case go_nth (mapTasks m) n of
              None \<Rightarrow> None
            | Some t \<Rightarrow>
                if State t = Completed then Some (m, d)
                else
                  let m = m\<lparr>mapTasks := (mapTasks m)[nat n := t\<lparr>State := Completed\<rparr>]\<rparr>
                  in map_option (Pair m) (renameInter (nat n) (tdFileNames args) [0..<nReduce m] d))
         else
           (case go_nth (reduceTasks m) n of
              None \<Rightarrow> None
            | Some t \<Rightarrow>
                if State t = Completed then Some (m, d)
                else
                  let m = m\<lparr>reduceTasks := (reduceTasks m)[nat n := t\<lparr>State := Completed\<rparr>]\<rparr>
                  in map_option (\<lambda>name. (m, osRename name (outName (nat n)) d))
                       (go_nth (tdFileNames args) 0)))"

definition Done :: "Master \<Rightarrow> bool" where
  "Done m = (mapDone m \<and> reduceDone m)"

definition MakeMaster :: "string list \<Rightarrow> nat \<Rightarrow> Master" where
  "MakeMaster files nred =
     \<lparr>nMap = length files, nReduce = nred, mapDone = False, reduceDone = False,
      mapTasks = map (\<lambda>f. \<lparr>TaskType = MapT, State = Idle, StartTime = None, FileName = f\<rparr>) files,
      reduceTasks = map (\<lambda>i. \<lparr>TaskType = ReduceT, State = Idle, StartTime = None, FileName = []\<rparr>)
                        [0..<nred]\<rparr>"

section \<open>worker.go\<close>

text \<open>FNV-1a with 32 bits, and the mask that makes the result a non-negative \<open>int\<close>.\<close>

fun fnv32a :: "string \<Rightarrow> 32 word \<Rightarrow> 32 word" where
  "fnv32a [] h = h"
| "fnv32a (c # cs) h = fnv32a cs ((h XOR of_nat (of_char c)) * 16777619)"

definition ihash :: "string \<Rightarrow> int" where
  "ihash key = uint (fnv32a key 2166136261 AND 0x7fffffff)"

datatype fatal = Fatal string

text \<open>The decoding loop ends at the first error; a text is not a stream of values.\<close>

fun decodeAll :: "content \<Rightarrow> KeyValue list" where
  "decodeAll (Json kvs) = kvs"
| "decodeAll (Text s) = []"

fun readInter :: "nat \<Rightarrow> nat list \<Rightarrow> fs \<Rightarrow> fatal + KeyValue list" where
  "readInter r [] d = Inr []"
| "readInter r (i # is) d =
     (case readFile (interName i r) d of
        None \<Rightarrow> Inl (Fatal ''Cannot open'')
      | Some c \<Rightarrow> map_sum id (\<lambda>kvs. decodeAll c @ kvs) (readInter r is d))"

text \<open>The loop that calls \<open>reducef\<close> on each run of equal keys: the lines it prints.\<close>

function reduceLines :: "(string \<Rightarrow> string list \<Rightarrow> string) \<Rightarrow> KeyValue list \<Rightarrow> string list" where
  "reduceLines reducef [] = []"
| "reduceLines reducef (kv # kvs) =
     (let same = takeWhile (\<lambda>x. Key x = Key kv) kvs;
          values = map Value (kv # same);
          output = reducef (Key kv) values
      in (Key kv @ '' '' @ output @ ''\<newline>'') #
           reduceLines reducef (dropWhile (\<lambda>x. Key x = Key kv) kvs))"
  by pat_completeness auto
termination
  by (relation "measure (\<lambda>(f, kvs). length kvs)") (auto simp: le_imp_less_Suc length_dropWhile_le)

definition tempOutName :: "nat \<Rightarrow> string" where
  "tempOutName r = outName r @ ''-*''"

text \<open>
  \<open>handleReduceTask\<close> in its three phases, between which other processes may run: read and
  sort, create the output file, write and close it. The notification of the master follows.
\<close>

definition reduceRead ::
    "(KeyValue list \<Rightarrow> KeyValue list) \<Rightarrow> RequestTaskReply \<Rightarrow> fs \<Rightarrow> fatal + KeyValue list" where
  "reduceRead sorter reply d =
     map_sum id sorter (readInter (rtReduceTaskNumber reply) [0..<rtNMap reply] d)"

definition reduceCreate :: "RequestTaskReply \<Rightarrow> fs \<Rightarrow> nat \<times> fs" where
  "reduceCreate reply d = osCreate (tempOutName (rtReduceTaskNumber reply)) d"

definition reduceWrite ::
    "(string \<Rightarrow> string list \<Rightarrow> string) \<Rightarrow> KeyValue list \<Rightarrow> nat \<Rightarrow> fs \<Rightarrow> fs" where
  "reduceWrite reducef intermediate ino d =
     writeInode ino (Text (concat (reduceLines reducef intermediate))) d"

definition reduceNotify :: "RequestTaskReply \<Rightarrow> TaskDoneArgs" where
  "reduceNotify reply =
     \<lparr>tdTaskType = ReduceT, tdTaskNumber = int (rtReduceTaskNumber reply),
      tdFileNames = [tempOutName (rtReduceTaskNumber reply)]\<rparr>"

definition handleReduceTask ::
    "(string \<Rightarrow> string list \<Rightarrow> string) \<Rightarrow> (KeyValue list \<Rightarrow> KeyValue list) \<Rightarrow> RequestTaskReply
      \<Rightarrow> fs \<Rightarrow> fatal + fs \<times> TaskDoneArgs" where
  "handleReduceTask reducef sorter reply d =
     map_sum id
       (\<lambda>intermediate.
          case reduceCreate reply d of
            (ino, d) \<Rightarrow> (reduceWrite reducef intermediate ino d, reduceNotify reply))
       (reduceRead sorter reply d)"

text \<open>The temporary files of a map task: name and inode of each.\<close>

fun openInter ::
    "(nat \<Rightarrow> string list) \<Rightarrow> nat \<Rightarrow> nat list \<Rightarrow> fs \<Rightarrow> fatal + (string \<times> nat) list \<times> fs" where
  "openInter rnd task [] d = Inr ([], d)"
| "openInter rnd task (i # is) d =
     (case TempFile (rnd i) (interName task i @ ''-'') d of
        None \<Rightarrow> Inl (Fatal ''Cannot create temp inter file'')
      | Some (name, ino, d) \<Rightarrow>
          map_sum id (\<lambda>(files, d). ((name, ino) # files, d)) (openInter rnd task is d))"

text \<open>A pair that is encoded as JSON and decoded again.\<close>

definition jsonPair :: "KeyValue \<Rightarrow> KeyValue" where
  "jsonPair kv = \<lparr>Key = jsonString (Key kv), Value = jsonString (Value kv)\<rparr>"

definition appendJson :: "KeyValue \<Rightarrow> nat \<Rightarrow> fs \<Rightarrow> fs" where
  "appendJson kv ino d = writeInode ino (Json (decodeAll (blob d ino) @ [jsonPair kv])) d"

fun storeInter :: "nat \<Rightarrow> (string \<times> nat) list \<Rightarrow> KeyValue list \<Rightarrow> fs \<Rightarrow> fatal + fs" where
  "storeInter nred files [] d = Inr d"
| "storeInter nred files (kv # kvs) d =
     (if nred = 0 then Inl (Fatal ''integer divide by zero'')
      else
        let reduceIndex = nat (ihash (Key kv) mod int nred);
            interFile = snd (files ! reduceIndex)
        in storeInter nred files kvs (appendJson kv interFile d))"

fun readText :: "content \<Rightarrow> string option" where
  "readText (Text s) = Some s"
| "readText (Json kvs) = None"

definition handleMapTask ::
    "(string \<Rightarrow> string \<Rightarrow> KeyValue list) \<Rightarrow> (nat \<Rightarrow> string list) \<Rightarrow> RequestTaskReply
      \<Rightarrow> fs \<Rightarrow> fatal + fs \<times> TaskDoneArgs" where
  "handleMapTask mapf rnd reply d =
     (case readFile (rtFileName reply) d of
        None \<Rightarrow> Inl (Fatal ''cannot open'')
      | Some c \<Rightarrow>
          (case readText c of
             None \<Rightarrow> Inl (Fatal ''cannot read'')
           | Some contents \<Rightarrow>
               (case openInter rnd (rtMapTaskNumber reply) [0..<rtNReduce reply] d of
                  Inl e \<Rightarrow> Inl e
                | Inr (files, d) \<Rightarrow>
                    map_sum id
                      (\<lambda>d. (d, \<lparr>tdTaskType = MapT, tdTaskNumber = int (rtMapTaskNumber reply),
                                tdFileNames = map fst files\<rparr>))
                      (storeInter (rtNReduce reply) files (mapf (rtFileName reply) contents) d))))"

section \<open>mrsequential.go\<close>

fun readInputs :: "(string \<Rightarrow> string \<Rightarrow> KeyValue list) \<Rightarrow> string list \<Rightarrow> fs \<Rightarrow> fatal + KeyValue list" where
  "readInputs mapf [] d = Inr []"
| "readInputs mapf (f # fs) d =
     (case readFile f d of
        None \<Rightarrow> Inl (Fatal ''cannot open'')
      | Some c \<Rightarrow>
          (case readText c of
             None \<Rightarrow> Inl (Fatal ''cannot read'')
           | Some contents \<Rightarrow> map_sum id (\<lambda>kvs. mapf f contents @ kvs) (readInputs mapf fs d)))"

definition mrsequential ::
    "(string \<Rightarrow> string \<Rightarrow> KeyValue list) \<Rightarrow> (string \<Rightarrow> string list \<Rightarrow> string)
      \<Rightarrow> (KeyValue list \<Rightarrow> KeyValue list) \<Rightarrow> string list \<Rightarrow> fs \<Rightarrow> fatal + fs" where
  "mrsequential mapf reducef sorter files d =
     map_sum id
       (\<lambda>intermediate.
          case osCreate (outName 0) d of
            (ino, d) \<Rightarrow> writeInode ino (Text (concat (reduceLines reducef (sorter intermediate)))) d)
       (readInputs mapf files d)"

end
