(* ===== verification/MRProps.thy ===== *)
theory MRProps
  imports MapReduce
begin

text \<open>
  Properties of the MapReduce functions taken one by one: decimal numbers and file names, the
  reduce loop against a reference, the temporary files of a map task and their contents, and
  what the master hands out.
\<close>

section \<open>Names\<close>

lemma itoa_hd: "\<exists>c cs. itoa n = c # cs \<and> c \<noteq> CHR ''o''"
proof (cases "itoa n")
  case (Cons c cs)
  then have "digit c" using itoa_digits [of c n] by simp
  with Cons show ?thesis using not_digit(2) by blast
qed simp

lemmas itoa_dash_sym = itoa_dash [symmetric]

lemma interName_inject [simp]: "interName i r = interName i' r' \<longleftrightarrow> i = i' \<and> r = r'"
  by (auto simp: interName_def itoa_split)

lemma outName_inject [simp]: "outName r = outName r' \<longleftrightarrow> r = r'"
  by (simp add: outName_def)

lemma inter_out_prefix: "interName i r @ xs \<noteq> outName r' @ ys"
  using itoa_hd [of i] by (auto simp: interName_def outName_def)

lemma inter_out [simp]: "interName i r \<noteq> outName r'" "outName r' \<noteq> interName i r"
  using inter_out_prefix [of i r "[]" r' "[]"] by auto

text \<open>Temporary names of different tasks differ from each other and from final names.\<close>

definition tempName :: "nat \<Rightarrow> nat \<Rightarrow> string \<Rightarrow> string" where
  "tempName i r x = interName i r @ ''-'' @ x"

lemma tempName_inject [simp]: "tempName i r x = tempName i' r' x' \<longleftrightarrow> i = i' \<and> r = r' \<and> x = x'"
  by (auto simp: tempName_def interName_def itoa_split)

lemma tempName_final [simp]: "tempName i r x \<noteq> interName i' r'" "interName i' r' \<noteq> tempName i r x"
  using itoa_dash [of r' r x] by (auto simp: tempName_def interName_def itoa_split)

lemma tempName_out [simp]: "tempName i r x \<noteq> outName r'" "outName r' \<noteq> tempName i r x"
  "tempName i r x \<noteq> tempOutName r'" "tempOutName r' \<noteq> tempName i r x"
  using inter_out_prefix [of i r "''-'' @ x" r' "[]"] inter_out_prefix [of i r "''-'' @ x" r' "''-*''"]
  by (auto simp: tempName_def tempOutName_def)

lemma tempOutName_inject [simp]: "tempOutName r = tempOutName r' \<longleftrightarrow> r = r'"
  by (simp add: tempOutName_def outName_def itoa_split)

lemma tempOutName_out [simp]: "tempOutName r \<noteq> outName r'" "outName r' \<noteq> tempOutName r"
  using itoa_dash [of r' r "''*''"] by (auto simp: tempOutName_def outName_def)

lemma tempOutName_inter [simp]: "tempOutName r \<noteq> interName i j" "interName i j \<noteq> tempOutName r"
  using inter_out_prefix [of i j "[]" r "''-*''"] by (auto simp: tempOutName_def)

section \<open>The reduce loop\<close>

text \<open>The line for key \<open>k\<close> over all the pairs \<open>kvs\<close>.\<close>

definition keyLine :: "(string \<Rightarrow> string list \<Rightarrow> string) \<Rightarrow> KeyValue list \<Rightarrow> string \<Rightarrow> string" where
  "keyLine reducef kvs k = k @ '' '' @ reducef k (map Value (filter (\<lambda>x. Key x = k) kvs)) @ ''\<newline>''"

lemma sorted_run:
  assumes "sorted (map Key (kv # kvs))"
  shows "takeWhile (\<lambda>x. Key x = Key kv) kvs = filter (\<lambda>x. Key x = Key kv) kvs"
    and "dropWhile (\<lambda>x. Key x = Key kv) kvs = filter (\<lambda>x. Key x \<noteq> Key kv) kvs"
proof -
  have "takeWhile (\<lambda>x. Key x = Key kv) kvs = filter (\<lambda>x. Key x = Key kv) kvs \<and>
        dropWhile (\<lambda>x. Key x = Key kv) kvs = filter (\<lambda>x. Key x \<noteq> Key kv) kvs"
    using assms
  proof (induction kvs)
    case (Cons a kvs)
    show ?case
    proof (cases "Key a = Key kv")
      case False
      then have "Key x \<noteq> Key kv" if "x \<in> set kvs" for x using Cons.prems that by fastforce
      with False show ?thesis by (simp add: filter_empty_conv filter_id_conv)
    qed (use Cons in simp)
  qed simp
  then show "takeWhile (\<lambda>x. Key x = Key kv) kvs = filter (\<lambda>x. Key x = Key kv) kvs"
    and "dropWhile (\<lambda>x. Key x = Key kv) kvs = filter (\<lambda>x. Key x \<noteq> Key kv) kvs" by simp_all
qed

text \<open>The keys of a sorted list, each once.\<close>

abbreviation keysOf :: "KeyValue list \<Rightarrow> string list" where
  "keysOf kvs \<equiv> sorted_list_of_set (Key ` set kvs)"

lemma sorted_list_of_set_min:
  "finite A \<Longrightarrow> \<forall>a \<in> A. x < a \<Longrightarrow> sorted_list_of_set (insert x A) = x # sorted_list_of_set A"
  by (subst sorted_list_of_set_insert) (auto intro!: insort_is_Cons less_imp_le)

lemma keysOf_Cons:
  assumes "sorted (map Key (kv # kvs))"
  shows "keysOf (kv # kvs) = Key kv # keysOf (filter (\<lambda>x. Key x \<noteq> Key kv) kvs)"
proof -
  let ?A = "Key ` set (filter (\<lambda>x. Key x \<noteq> Key kv) kvs)"
  have "Key ` set (kv # kvs) = insert (Key kv) ?A" by auto
  moreover have "\<forall>a \<in> ?A. Key kv < a" using assms by (auto simp: less_le)
  ultimately show ?thesis by (simp only: sorted_list_of_set_min finite_imageI finite_set)
qed

lemma reduceLines_sorted:
  "sorted (map Key kvs) \<Longrightarrow> reduceLines reducef kvs = map (keyLine reducef kvs) (keysOf kvs)"
proof (induction reducef kvs rule: reduceLines.induct)
  case (2 reducef kv kvs)
  let ?rest = "filter (\<lambda>x. Key x \<noteq> Key kv) kvs"
  note run = sorted_run [OF "2.prems"]
  have "sorted (map Key ?rest)" using "2.prems" sorted_filter [of Key kvs] by simp
  then have "reduceLines reducef ?rest = map (keyLine reducef ?rest) (keysOf ?rest)"
    using "2.IH" [OF refl refl refl] by (simp add: run)
  moreover have "keyLine reducef ?rest k = keyLine reducef (kv # kvs) k" if "k \<in> set (keysOf ?rest)" for k
  proof -
    have "Key kv \<noteq> k" using that by auto
    then have "filter (\<lambda>x. Key x = k) ?rest = filter (\<lambda>x. Key x = k) (kv # kvs)"
      by (auto intro: filter_cong)
    then show ?thesis by (simp only: keyLine_def)
  qed
  ultimately show ?case
    unfolding keysOf_Cons [OF "2.prems"]
    by (simp add: Let_def run keyLine_def)
qed simp

text \<open>
  What \<open>sort.Sort\<close> promises, and what a reduce function must satisfy for the output not to
  depend on the order of equal keys.
\<close>

definition sorts :: "(KeyValue list \<Rightarrow> KeyValue list) \<Rightarrow> bool" where
  "sorts sorter \<longleftrightarrow> (\<forall>kvs. mset (sorter kvs) = mset kvs \<and> sorted (map Key (sorter kvs)))"

definition order_free :: "(string \<Rightarrow> string list \<Rightarrow> string) \<Rightarrow> bool" where
  "order_free reducef \<longleftrightarrow> (\<forall>k vs ws. mset vs = mset ws \<longrightarrow> reducef k vs = reducef k ws)"

lemma keyLine_cong:
  assumes "order_free reducef"
    and "mset (filter (\<lambda>x. Key x = k) kvs) = mset (filter (\<lambda>x. Key x = k) kvs')"
  shows "keyLine reducef kvs k = keyLine reducef kvs' k"
proof -
  have "mset (map Value (filter (\<lambda>x. Key x = k) kvs)) = mset (map Value (filter (\<lambda>x. Key x = k) kvs'))"
    by (simp only: mset_map assms(2))
  then have "reducef k (map Value (filter (\<lambda>x. Key x = k) kvs)) =
      reducef k (map Value (filter (\<lambda>x. Key x = k) kvs'))"
    using assms(1) unfolding order_free_def by blast
  then show ?thesis by (simp only: keyLine_def)
qed

lemma reduceLines_sorter:
  assumes "sorts sorter" and "order_free reducef" and "mset kvs = mset kvs'"
  shows "reduceLines reducef (sorter kvs) = map (keyLine reducef kvs') (keysOf kvs')"
proof -
  have m: "mset (sorter kvs) = mset kvs'" and s: "sorted (map Key (sorter kvs))"
    using assms(1,3) by (auto simp: sorts_def)
  have "keyLine reducef (sorter kvs) k = keyLine reducef kvs' k" for k
    using m by (intro keyLine_cong assms(2)) simp
  then show ?thesis
    using mset_eq_setD [OF m] by (simp add: reduceLines_sorted [OF s])
qed

section \<open>The file system seen through its names\<close>

text \<open>Every inode has at most one name, and new inodes are unused.\<close>

definition fs_ok :: "fs \<Rightarrow> bool" where
  "fs_ok d \<longleftrightarrow> (\<forall>a b i. dir d a = Some i \<longrightarrow> dir d b = Some i \<longrightarrow> a = b) \<and>
     (\<forall>a i. dir d a = Some i \<longrightarrow> i < freshInode d)"

lemma fs_ok_inj: "fs_ok d \<Longrightarrow> dir d a = Some i \<Longrightarrow> dir d b = Some i \<Longrightarrow> a = b"
  by (auto simp: fs_ok_def)

lemma fs_ok_fresh: "fs_ok d \<Longrightarrow> dir d a \<noteq> Some (freshInode d)"
  by (auto simp: fs_ok_def)

lemma readFile_None_iff: "readFile n d = None \<longleftrightarrow> dir d n = None"
  by (simp add: readFile_def)

lemma newFile_ok: "fs_ok d \<Longrightarrow> fs_ok (newFile a d)"
  by (auto simp: fs_ok_def newFile_def less_Suc_eq)

lemma newFile_read:
  "fs_ok d \<Longrightarrow> readFile n (newFile a d) = (if n = a then Some (Text []) else readFile n d)"
  using fs_ok_fresh [of d n] by (auto simp: readFile_def newFile_def map_option_case split: option.splits)

lemma newFile_dir: "dir (newFile a d) = (dir d)(a \<mapsto> freshInode d)"
  by (simp add: newFile_def)

lemma writeInode_ok: "fs_ok d \<Longrightarrow> fs_ok (writeInode i c d)"
  by (simp add: fs_ok_def writeInode_def)

lemma writeInode_read:
  "fs_ok d \<Longrightarrow> dir d a = Some i \<Longrightarrow>
   readFile n (writeInode i c d) = (if n = a then Some c else readFile n d)"
  by (cases "n = a"; cases "dir d n") (auto simp: readFile_def writeInode_def dest: fs_ok_inj)

lemma writeInode_dir [simp]: "dir (writeInode i c d) = dir d"
  by (simp add: writeInode_def)

lemma osCreate_ok: "fs_ok d \<Longrightarrow> fs_ok (snd (osCreate a d))"
  using writeInode_ok [of d _ "Text []"]
  by (cases "dir d a") (auto simp: osCreate_def newFile_ok writeInode_def)

lemma osCreate_read:
  "fs_ok d \<Longrightarrow> readFile n (snd (osCreate a d)) = (if n = a then Some (Text []) else readFile n d)"
  using writeInode_read [of d a _ n "Text []"]
  by (auto simp: osCreate_def newFile_read writeInode_def split: option.splits)

lemma osCreate_dir:
  "dir (snd (osCreate a d)) a = Some (fst (osCreate a d))"
  "n \<noteq> a \<Longrightarrow> dir (snd (osCreate a d)) n = dir d n"
  by (auto simp: osCreate_def newFile_def split: option.splits)

lemma osRename_ok: "fs_ok d \<Longrightarrow> fs_ok (osRename a b d)"
  unfolding fs_ok_def osRename_def by (auto split: option.splits if_splits)

lemma osRename_read:
  "a \<noteq> b \<Longrightarrow> readFile a d = Some c \<Longrightarrow>
   readFile n (osRename a b d) = (if n = b then Some c else if n = a then None else readFile n d)"
  by (auto simp: readFile_def osRename_def)

lemma osRename_dir: "n \<noteq> a \<Longrightarrow> n \<noteq> b \<Longrightarrow> dir (osRename a b d) n = dir d n"
  by (auto simp: osRename_def split: option.splits)

section \<open>The temporary files of a map task\<close>

lemma TempFile_Some:
  assumes "TempFile rs pre d = Some (name, ino, d')"
  shows "\<exists>r. name = pre @ r \<and> dir d name = None \<and> ino = freshInode d \<and> d' = newFile name d"
  using assms by (induction rs) (auto split: if_splits)

text \<open>
  After \<open>openInter\<close> there is one new, empty file for each number in the list; the files that
  were there are unchanged.
\<close>

lemma openInter_spec:
  assumes "openInter rnd task is d = Inr (files, d')" and "fs_ok d"
  shows "fs_ok d' \<and> length files = length is \<and>
    (\<forall>k < length is. (\<exists>x. fst (files ! k) = tempName task (is ! k) x) \<and>
       readFile (fst (files ! k)) d = None \<and>
       readFile (fst (files ! k)) d' = Some (Text []) \<and> dir d' (fst (files ! k)) = Some (snd (files ! k))) \<and>
    distinct (map fst files) \<and>
    (\<forall>n. n \<notin> fst ` set files \<longrightarrow> readFile n d' = readFile n d \<and> dir d' n = dir d n)"
  using assms
proof (induction "is" arbitrary: d files)
  case (Cons i "is")
  then obtain name ino d1 fl where t: "TempFile (rnd i) (interName task i @ ''-'') d = Some (name, ino, d1)"
    and o: "openInter rnd task is d1 = Inr (fl, d')" and f: "files = (name, ino) # fl"
    by (auto simp: map_sum_Inr_iff split: option.splits)
  from TempFile_Some [OF t] obtain x where x: "name = tempName task i x" "dir d name = None"
    "ino = freshInode d" "d1 = newFile name d" by (auto simp: tempName_def)
  with Cons.prems have ok: "fs_ok d1" by (simp add: newFile_ok)
  note IH = Cons.IH [OF o ok]
  have r: "readFile n d1 = (if n = name then Some (Text []) else readFile n d)" for n
    using Cons.prems x by (simp add: newFile_read)
  have new: "readFile name d = None" using x by (simp add: readFile_None_iff)
  have notin: "name \<notin> fst ` set fl"
  proof
    assume "name \<in> fst ` set fl"
    then obtain k where "k < length is" "fst (fl ! k) = name"
      using IH by (auto simp: in_set_conv_nth)
    then show False using IH r [of name] by auto
  qed
  then have "readFile name d' = Some (Text [])" "dir d' name = Some ino"
    using IH r [of name] x by (auto simp: newFile_dir)
  moreover have "\<forall>k < length is. fst (fl ! k) \<noteq> name"
    using notin IH by (metis image_eqI nth_mem)
  ultimately show ?case
    using IH x new notin f r by (auto simp: nth_Cons newFile_dir split: nat.splits)
qed simp

text \<open>The pairs of a list that belong to reduce task \<open>r\<close>.\<close>

definition bucket :: "nat \<Rightarrow> nat \<Rightarrow> KeyValue list \<Rightarrow> KeyValue list" where
  "bucket nred r kvs = filter (\<lambda>kv. nat (ihash (Key kv) mod int nred) = r) kvs"

lemma bucket_index: "0 < nred \<Longrightarrow> nat (ihash k mod int nred) < nred"
  by (simp add: nat_less_iff)

lemma ihash_bounds: "0 \<le> ihash k" "ihash k < 2 ^ 31"
proof -
  have "fnv32a k 2166136261 AND 0x7fffffff \<le> (0x7fffffff :: 32 word)" by (rule word_and_le1)
  then show "ihash k < 2 ^ 31" by (simp add: ihash_def word_le_def)
qed (simp add: ihash_def)

lemma nth_fst_inj:
  "distinct (map fst files) \<Longrightarrow> r < length files \<Longrightarrow> q < length files \<Longrightarrow>
   fst (files ! r) = fst (files ! q) \<longleftrightarrow> r = q"
  by (metis length_map nth_eq_iff_index_eq nth_map)

lemma storeInter_spec:
  assumes "fs_ok d" and "length files = nred" and "distinct (map fst files)" and "0 < nred"
    and "\<forall>r < nred. dir d (fst (files ! r)) = Some (snd (files ! r))"
  shows "\<exists>d'. storeInter nred files kvs d = Inr d' \<and> fs_ok d' \<and> dir d' = dir d \<and>
    (\<forall>r < nred. \<forall>c. readFile (fst (files ! r)) d = Some c \<longrightarrow>
       (\<exists>c'. readFile (fst (files ! r)) d' = Some c' \<and> decodeAll c' = decodeAll c @ map jsonPair (bucket nred r kvs))) \<and>
    (\<forall>n. n \<notin> fst ` set files \<longrightarrow> readFile n d' = readFile n d)"
  using assms
proof (induction kvs arbitrary: d)
  case Nil
  then show ?case by (auto simp: bucket_def)
next
  case (Cons kv kvs)
  define q where "q = nat (ihash (Key kv) mod int nred)"
  have q: "q < nred" using Cons.prems(4) by (simp add: q_def bucket_index)
  let ?d = "appendJson kv (snd (files ! q)) d"
  have link: "dir d (fst (files ! q)) = Some (snd (files ! q))" using Cons.prems(5) q by blast
  have ok: "fs_ok ?d" and dir: "dir ?d = dir d"
    using Cons.prems(1) by (simp_all add: appendJson_def writeInode_ok)
  have rd: "readFile n ?d = (if n = fst (files ! q)
      then Some (Json (decodeAll (blob d (snd (files ! q))) @ [jsonPair kv])) else readFile n d)" for n
    by (simp add: appendJson_def writeInode_read [OF Cons.prems(1) link])
  have links: "\<forall>r < nred. dir ?d (fst (files ! r)) = Some (snd (files ! r))"
    using Cons.prems(5) by (simp add: dir)
  from Cons.IH [OF ok Cons.prems(2-4) links] obtain d' where
    d': "storeInter nred files kvs ?d = Inr d'" "fs_ok d'" "dir d' = dir ?d"
    "\<forall>r < nred. \<forall>c. readFile (fst (files ! r)) ?d = Some c \<longrightarrow>
       (\<exists>c'. readFile (fst (files ! r)) d' = Some c' \<and> decodeAll c' = decodeAll c @ map jsonPair (bucket nred r kvs))"
    "\<forall>n. n \<notin> fst ` set files \<longrightarrow> readFile n d' = readFile n ?d" by blast
  have store: "storeInter nred files (kv # kvs) d = Inr d'"
    using d'(1) Cons.prems(4) by (simp add: q_def Let_def)
  have "\<exists>c'. readFile (fst (files ! r)) d' = Some c' \<and> decodeAll c' = decodeAll c @ map jsonPair (bucket nred r (kv # kvs))"
    if r: "r < nred" and c: "readFile (fst (files ! r)) d = Some c" for r c
  proof (cases "r = q")
    case True
    then have "c = blob d (snd (files ! q))" using c link by (simp add: readFile_def)
    then show ?thesis using d'(4) [rule_format, OF r] True rd [of "fst (files ! q)"]
      by (auto simp: bucket_def q_def)
  next
    case False
    then have "readFile (fst (files ! r)) ?d = Some c"
      using rd [of "fst (files ! r)"] nth_fst_inj [OF Cons.prems(3), of r q] r q Cons.prems(2) c by simp
    then show ?thesis using d'(4) [rule_format, OF r] False by (auto simp: bucket_def q_def)
  qed
  moreover have "readFile n d' = readFile n d" if "n \<notin> fst ` set files" for n
  proof -
    have "n \<noteq> fst (files ! q)" using that q Cons.prems(2) nth_mem [of q files] by blast
    then show ?thesis using d'(5) that rd [of n] by simp
  qed
  ultimately show ?case using store d'(2,3) dir by simp
qed

text \<open>
  A map task leaves one new file per reduce task, with the pairs that belong to it in the
  order of the application's output, as JSON gives them back, and touches nothing else.
\<close>

lemma handleMapTask_spec:
  assumes h: "handleMapTask mapf rnd reply d = Inr (d', args)" and ok: "fs_ok d"
    and pos: "0 < rtNReduce reply" and inp: "readFile (rtFileName reply) d = Some (Text contents)"
  shows "fs_ok d' \<and> tdTaskType args = MapT \<and> tdTaskNumber args = int (rtMapTaskNumber reply) \<and>
    length (tdFileNames args) = rtNReduce reply \<and>
    (\<forall>r < rtNReduce reply. (\<exists>x. tdFileNames args ! r = tempName (rtMapTaskNumber reply) r x) \<and>
       readFile (tdFileNames args ! r) d = None \<and>
       (\<exists>c. readFile (tdFileNames args ! r) d' = Some c \<and>
            decodeAll c = map jsonPair (bucket (rtNReduce reply) r (mapf (rtFileName reply) contents)))) \<and>
    (\<forall>n. n \<notin> set (tdFileNames args) \<longrightarrow> readFile n d' = readFile n d \<and> dir d' n = dir d n)"
proof -
  from h inp obtain files d1 where
    o: "openInter rnd (rtMapTaskNumber reply) [0..<rtNReduce reply] d = Inr (files, d1)" and
    st: "storeInter (rtNReduce reply) files (mapf (rtFileName reply) contents) d1 = Inr d'" and
    a: "args = \<lparr>tdTaskType = MapT, tdTaskNumber = int (rtMapTaskNumber reply),
                tdFileNames = map fst files\<rparr>"
    by (auto simp: handleMapTask_def map_sum_Inr_iff split: sum.splits)
  note O = openInter_spec [OF o ok]
  then have len: "length files = rtNReduce reply" by simp
  have "\<forall>r < rtNReduce reply. dir d1 (fst (files ! r)) = Some (snd (files ! r))" using O by simp
  with storeInter_spec [of d1 files "rtNReduce reply" "mapf (rtFileName reply) contents"] O st pos
  have S: "fs_ok d'" "dir d' = dir d1"
    "\<forall>r < rtNReduce reply. \<forall>c. readFile (fst (files ! r)) d1 = Some c \<longrightarrow>
       (\<exists>c'. readFile (fst (files ! r)) d' = Some c' \<and>
             decodeAll c' = decodeAll c @ map jsonPair (bucket (rtNReduce reply) r (mapf (rtFileName reply) contents)))"
    "\<forall>n. n \<notin> fst ` set files \<longrightarrow> readFile n d' = readFile n d1" by auto
  have "(\<exists>x. fst (files ! r) = tempName (rtMapTaskNumber reply) r x) \<and> readFile (fst (files ! r)) d = None \<and>
       (\<exists>c. readFile (fst (files ! r)) d' = Some c \<and>
            decodeAll c = map jsonPair (bucket (rtNReduce reply) r (mapf (rtFileName reply) contents)))"
    if "r < rtNReduce reply" for r
    using that O S(3) [rule_format, OF that, of "Text []"] by (simp del: upt_Suc)
  with O S(1,2,4) len a show ?thesis by simp
qed

text \<open>The renames that publish a map task's files.\<close>

lemma renameInter_spec:
  assumes "distinct is" and "distinct (map ((!) names) is)" and "\<forall>i \<in> set is. i < length names"
    and "\<forall>i \<in> set is. \<forall>j. names ! i \<noteq> interName task j"
    and "\<forall>i \<in> set is. readFile (names ! i) d = Some (cs i)" and "fs_ok d"
  shows "\<exists>d'. renameInter task names is d = Some d' \<and> fs_ok d' \<and>
    (\<forall>i \<in> set is. readFile (interName task i) d' = Some (cs i)) \<and>
    (\<forall>n. n \<notin> interName task ` set is \<and> n \<notin> ((!) names) ` set is \<longrightarrow>
       readFile n d' = readFile n d \<and> dir d' n = dir d n)"
  using assms
proof (induction "is" arbitrary: d)
  case (Cons i "is")
  let ?d = "osRename (names ! i) (interName task i) d"
  have ne: "names ! i \<noteq> interName task i" using Cons.prems(4) by simp
  have rd: "readFile n ?d = (if n = interName task i then Some (cs i)
      else if n = names ! i then None else readFile n d)" for n
    using osRename_read [OF ne, of d "cs i"] Cons.prems(5) by simp
  have "\<forall>j \<in> set is. readFile (names ! j) ?d = Some (cs j)"
  proof
    fix j assume j: "j \<in> set is"
    then have "names ! j \<noteq> names ! i" using Cons.prems(2) by (metis image_eqI list.simps(9) distinct.simps(2) set_map)
    with j show "readFile (names ! j) ?d = Some (cs j)" using Cons.prems(4,5) rd [of "names ! j"] by simp
  qed
  with Cons.IH [of ?d] Cons.prems obtain d' where d': "renameInter task names is ?d = Some d'" "fs_ok d'"
    "\<forall>i \<in> set is. readFile (interName task i) d' = Some (cs i)"
    "\<forall>n. n \<notin> interName task ` set is \<and> n \<notin> ((!) names) ` set is \<longrightarrow>
       readFile n d' = readFile n ?d \<and> dir d' n = dir ?d n"
    by (auto simp: osRename_ok)
  have "renameInter task names (i # is) d = Some d'"
    using d'(1) Cons.prems(3) by (simp add: go_simps)
  moreover have "interName task i \<notin> interName task ` set is \<and> interName task i \<notin> ((!) names) ` set is"
    using Cons.prems(1,4) by (auto dest: sym)
  then have "readFile (interName task i) d' = Some (cs i)"
    using d'(4) rd [of "interName task i"] by simp
  moreover have "readFile n d' = readFile n d \<and> dir d' n = dir d n"
    if "n \<notin> interName task ` set (i # is) \<and> n \<notin> ((!) names) ` set (i # is)" for n
    using that d'(4) rd [of n] osRename_dir [of n "names ! i" "interName task i" d] by simp
  ultimately show ?case using d'(2,3) by auto
qed simp

section \<open>The master\<close>

lemma scanTasks_Some:
  assumes "scanTasks now i u ts = (Some k, u')"
  shows "i \<le> k \<and> k < i + length ts \<and> State (ts ! (k - i)) \<noteq> Completed \<and>
    taskAvailable (now k) (ts ! (k - i)) \<and>
    (\<forall>j. i \<le> j \<and> j < k \<longrightarrow> State (ts ! (j - i)) = Completed \<or> \<not> taskAvailable (now j) (ts ! (j - i)))"
  using assms
proof (induction ts arbitrary: i u)
  case (Cons t ts)
  show ?case
  proof (cases "State t = Completed \<or> \<not> taskAvailable (now i) t")
    case True
    then obtain u2 where "scanTasks now (Suc i) u2 ts = (Some k, u')"
      using Cons.prems by (auto split: if_splits)
    from Cons.IH [OF this] True show ?thesis
      by (auto simp: nth_Cons' Suc_le_eq)
  next
    case False
    then show ?thesis using Cons.prems by auto
  qed
qed simp

lemma scanTasks_None:
  assumes "scanTasks now i u ts = (None, u')"
  shows "(u' \<longleftrightarrow> u \<or> (\<exists>t \<in> set ts. State t \<noteq> Completed)) \<and>
    (\<forall>k < length ts. State (ts ! k) = Completed \<or> \<not> taskAvailable (now (i + k)) (ts ! k))"
  using assms
proof (induction ts arbitrary: i u)
  case (Cons t ts)
  then obtain u2 where "scanTasks now (Suc i) u2 ts = (None, u')" "u2 \<longleftrightarrow> u \<or> State t \<noteq> Completed"
    "State t = Completed \<or> \<not> taskAvailable (now i) t"
    by (auto split: if_splits)
  from Cons.IH [OF this(1)] this(2,3) show ?case by (auto simp: nth_Cons' All_less_Suc2) 
qed simp

end
