(* ===== verification/MRCluster.thy ===== *)
theory MRCluster
  imports MRProps
begin

text \<open>
  A MapReduce job: the master, any number of worker processes and the files they share, as a
  transition system. A worker runs the loop of \<open>Worker\<close> (\<open>src/src/mr/worker.go\<close>); its state says
  where in the loop it is. A worker may crash anywhere and its notification may be lost.

  A map task runs in one step: its files are private until the master has renamed them. A
  reduce task takes three steps, since its temporary file has a fixed name.
\<close>

section \<open>The processes\<close>

datatype wstate =
    Asking
  | MapRun RequestTaskReply
  | MapWritten TaskDoneArgs
  | ReduceRun RequestTaskReply
  | ReduceSorted RequestTaskReply "KeyValue list"
  | ReduceOpened RequestTaskReply "KeyValue list" nat
  | ReduceWritten TaskDoneArgs
  | Exited

record job =
  jmaster :: Master
  jfs :: fs
  jworker :: "nat \<Rightarrow> wstate"

text \<open>The \<open>switch\<close> in the loop of \<open>Worker\<close>; after \<open>Wait\<close> it sleeps and asks again.\<close>

fun workerNext :: "RequestTaskReply \<Rightarrow> wstate" where
  "workerNext reply =
     (case rtTaskType reply of
        MapT \<Rightarrow> MapRun reply
      | ReduceT \<Rightarrow> ReduceRun reply
      | WaitT \<Rightarrow> Asking
      | ExitT \<Rightarrow> Exited)"

datatype mr_action =
    RequestTask nat "nat \<Rightarrow> int" int
  | RunMap nat "string \<Rightarrow> string \<Rightarrow> KeyValue list" "nat \<Rightarrow> string list"
  | ReadInter nat "KeyValue list \<Rightarrow> KeyValue list"
  | CreateOut nat
  | WriteOut nat
  | NotifyTaskDone nat
  | NotifyLost nat
  | WorkerCrash nat

abbreviation setWorker :: "nat \<Rightarrow> wstate \<Rightarrow> job \<Rightarrow> job" where
  "setWorker w ws s \<equiv> s\<lparr>jworker := (jworker s)(w := ws)\<rparr>"

text \<open>The notification a worker is about to send, if any.\<close>

fun notification :: "wstate \<Rightarrow> TaskDoneArgs option" where
  "notification (MapWritten args) = Some args"
| "notification (ReduceWritten args) = Some args"
| "notification ws = None"

fun mr_exec ::
    "(string \<Rightarrow> string list \<Rightarrow> string) \<Rightarrow> mr_action \<Rightarrow> job \<Rightarrow> job option" where
  "mr_exec reducef (RequestTask w now start) s =
     (case jworker s w of
        Asking \<Rightarrow>
          (case GiveTask now start (jmaster s) of
             (m, reply) \<Rightarrow> Some (setWorker w (workerNext reply) (s\<lparr>jmaster := m\<rparr>)))
      | _ \<Rightarrow> None)"
| "mr_exec reducef (RunMap w mapf rnd) s =
     (case jworker s w of
        MapRun reply \<Rightarrow>
          (case handleMapTask mapf rnd reply (jfs s) of
             Inl e \<Rightarrow> Some (setWorker w Exited s)
           | Inr (d, args) \<Rightarrow> Some (setWorker w (MapWritten args) (s\<lparr>jfs := d\<rparr>)))
      | _ \<Rightarrow> None)"
| "mr_exec reducef (ReadInter w sorter) s =
     (case jworker s w of
        ReduceRun reply \<Rightarrow>
          (case reduceRead sorter reply (jfs s) of
             Inl e \<Rightarrow> Some (setWorker w Exited s)
           | Inr kvs \<Rightarrow> Some (setWorker w (ReduceSorted reply kvs) s))
      | _ \<Rightarrow> None)"
| "mr_exec reducef (CreateOut w) s =
     (case jworker s w of
        ReduceSorted reply kvs \<Rightarrow>
          (case reduceCreate reply (jfs s) of
             (ino, d) \<Rightarrow> Some (setWorker w (ReduceOpened reply kvs ino) (s\<lparr>jfs := d\<rparr>)))
      | _ \<Rightarrow> None)"
| "mr_exec reducef (WriteOut w) s =
     (case jworker s w of
        ReduceOpened reply kvs ino \<Rightarrow>
          Some (setWorker w (ReduceWritten (reduceNotify reply))
                  (s\<lparr>jfs := reduceWrite reducef kvs ino (jfs s)\<rparr>))
      | _ \<Rightarrow> None)"
| "mr_exec reducef (NotifyTaskDone w) s =
     (case notification (jworker s w) of
        None \<Rightarrow> None
      | Some args \<Rightarrow>
          (case TaskDone args (jmaster s) (jfs s) of
             None \<Rightarrow> None
           | Some (m, d) \<Rightarrow> Some (setWorker w Asking (s\<lparr>jmaster := m, jfs := d\<rparr>))))"
| "mr_exec reducef (NotifyLost w) s =
     (case notification (jworker s w) of
        None \<Rightarrow> None
      | Some args \<Rightarrow> Some (setWorker w Asking s))"
| "mr_exec reducef (WorkerCrash w) s = Some (setWorker w Exited s)"

fun mr_execs ::
    "(job \<Rightarrow> mr_action \<Rightarrow> bool) \<Rightarrow> (string \<Rightarrow> string list \<Rightarrow> string) \<Rightarrow> mr_action list \<Rightarrow> job
      \<Rightarrow> job option" where
  "mr_execs allowed reducef [] s = Some s"
| "mr_execs allowed reducef (a # as) s =
     (if allowed s a
      then (case mr_exec reducef a s of None \<Rightarrow> None | Some t \<Rightarrow> mr_execs allowed reducef as t)
      else None)"

inductive mr_step ::
    "(job \<Rightarrow> mr_action \<Rightarrow> bool) \<Rightarrow> (string \<Rightarrow> string list \<Rightarrow> string) \<Rightarrow> job \<Rightarrow> job \<Rightarrow> bool"
  for allowed reducef where
  mr_act: "allowed s a \<Longrightarrow> mr_exec reducef a s = Some t \<Longrightarrow> mr_step allowed reducef s t"

inductive_cases mr_stepE: "mr_step allowed reducef s t"

definition mr_init :: "string list \<Rightarrow> nat \<Rightarrow> fs \<Rightarrow> job" where
  "mr_init inputs nred d = \<lparr>jmaster = MakeMaster inputs nred, jfs = d, jworker = (\<lambda>w. Asking)\<rparr>"

text \<open>
  What the applications and the sorting routine promise: a run of the map function gives the
  pairs of \<open>mapf\<close> in some order, and the sorter sorts.
\<close>

fun app_ok :: "(string \<Rightarrow> string \<Rightarrow> KeyValue list) \<Rightarrow> job \<Rightarrow> mr_action \<Rightarrow> bool" where
  "app_ok mapf s (RunMap w mapf' rnd) = (\<forall>f c. mset (mapf' f c) = mset (mapf f c))"
| "app_ok mapf s (ReadInter w sorter) = sorts sorter"
| "app_ok mapf s _ = True"

text \<open>A reduce task is handed out once: no worker takes more than ten seconds for it.\<close>

fun reduce_once :: "job \<Rightarrow> mr_action \<Rightarrow> bool" where
  "reduce_once s (RequestTask w now start) =
     (case GiveTask now start (jmaster s) of
        (m, reply) \<Rightarrow> rtTaskType reply = ReduceT \<longrightarrow>
          State (reduceTasks (jmaster s) ! rtReduceTaskNumber reply) = Idle)"
| "reduce_once s _ = True"

lemma mr_execs_steps:
  "mr_execs allowed reducef as s = Some t \<Longrightarrow> (mr_step allowed reducef)\<^sup>*\<^sup>* s t"
proof (induction as arbitrary: s)
  case (Cons a as)
  then obtain u where "allowed s a" "mr_exec reducef a s = Some u" "mr_execs allowed reducef as u = Some t"
    by (auto split: option.splits if_splits)
  then have "mr_step allowed reducef s u" "(mr_step allowed reducef)\<^sup>*\<^sup>* u t"
    by (auto intro: mr_act Cons.IH)
  then show ?case by (rule converse_rtranclp_into_rtranclp)
qed simp

section \<open>What the master hands out\<close>

abbreviation allCompleted :: "Task list \<Rightarrow> bool" where
  "allCompleted ts \<equiv> \<forall>t \<in> set ts. State t = Completed"

definition master_inv :: "Master \<Rightarrow> bool" where
  "master_inv m \<longleftrightarrow> length (mapTasks m) = nMap m \<and> length (reduceTasks m) = nReduce m \<and>
     (mapDone m \<longrightarrow> allCompleted (mapTasks m)) \<and>
     (reduceDone m \<longrightarrow> mapDone m \<and> allCompleted (reduceTasks m))"

text \<open>The four kinds of answers.\<close>

lemma giveReduce_cases:
  assumes g: "giveReduce now start m = (m', reply)"
  obtains (reduce) i where "i < length (reduceTasks m)" "State (reduceTasks m ! i) \<noteq> Completed"
      "taskAvailable (now i) (reduceTasks m ! i)" "m' = m\<lparr>reduceTasks := startTask i start (reduceTasks m)\<rparr>"
      "reply = zeroReply\<lparr>rtTaskType := ReduceT, rtReduceTaskNumber := i, rtNMap := nMap m\<rparr>"
  | (wait) "rtTaskType reply = WaitT" "m' = m" "\<not> allCompleted (reduceTasks m)"
      "\<forall>k < length (reduceTasks m). State (reduceTasks m ! k) = Completed \<or> \<not> taskAvailable (now k) (reduceTasks m ! k)"
  | (exit) "rtTaskType reply = ExitT" "allCompleted (reduceTasks m)" "m' = m\<lparr>reduceDone := True\<rparr>"
proof (cases "scanTasks now 0 False (reduceTasks m)")
  case (Pair k u)
  show ?thesis
  proof (cases k)
    case None
    note n = scanTasks_None [of now 0 False "reduceTasks m" u]
    have "u \<longleftrightarrow> \<not> allCompleted (reduceTasks m)" using n Pair None by simp
    then show ?thesis
    proof (cases u)
      case True
      then show ?thesis using g Pair None \<open>u \<longleftrightarrow> _\<close> n by (intro wait) (auto simp: giveReduce_def)
    next
      case False
      then show ?thesis using g Pair None \<open>u \<longleftrightarrow> _\<close> by (intro exit) (auto simp: giveReduce_def)
    qed
  next
    case (Some i)
    then show ?thesis using g Pair scanTasks_Some [of now 0 False "reduceTasks m" i u] reduce [of i]
      by (auto simp: giveReduce_def)
  qed
qed

lemma GiveTask_cases:
  assumes "GiveTask now start m = (m', reply)" and "master_inv m"
  obtains (map) i where "\<not> mapDone m" "i < length (mapTasks m)" "State (mapTasks m ! i) \<noteq> Completed"
      "taskAvailable (now i) (mapTasks m ! i)"
      "m' = m\<lparr>mapTasks := startTask i start (mapTasks m)\<rparr>"
      "reply = zeroReply\<lparr>rtTaskType := MapT, rtMapTaskNumber := i,
                         rtFileName := FileName (mapTasks m ! i), rtNReduce := nReduce m\<rparr>"
  | (reduce) i where "allCompleted (mapTasks m)" "i < length (reduceTasks m)"
      "State (reduceTasks m ! i) \<noteq> Completed" "taskAvailable (now i) (reduceTasks m ! i)"
      "m' = m\<lparr>mapDone := True, reduceTasks := startTask i start (reduceTasks m)\<rparr>"
      "reply = zeroReply\<lparr>rtTaskType := ReduceT, rtReduceTaskNumber := i, rtNMap := nMap m\<rparr>"
  | (wait) "rtTaskType reply = WaitT"
      "m' = m \<or> (m' = m\<lparr>mapDone := True\<rparr> \<and> allCompleted (mapTasks m))"
      "\<not> allCompleted (mapTasks m) \<or> \<not> allCompleted (reduceTasks m)"
      "let ts = if allCompleted (mapTasks m) then reduceTasks m else mapTasks m
       in \<forall>k < length ts. State (ts ! k) = Completed \<or> \<not> taskAvailable (now k) (ts ! k)"
  | (exit) "rtTaskType reply = ExitT" "allCompleted (mapTasks m)" "allCompleted (reduceTasks m)"
      "m' = m\<lparr>mapDone := True, reduceDone := True\<rparr>"
proof -
  note reduce' = reduce and wait' = wait and exit' = exit
  have red: thesis if g: "giveReduce now start (m\<lparr>mapDone := True\<rparr>) = (m', reply)" and
    c: "allCompleted (mapTasks m)"
    using g
  proof (cases rule: giveReduce_cases)
    case (reduce i)
    then show ?thesis using c by (intro reduce' [of i]) simp_all
  next
    case wait
    then show ?thesis using c by (intro wait') (simp_all add: Let_def)
  next
    case exit
    then show ?thesis using c by (intro exit') simp_all
  qed
  show thesis
  proof (cases "mapDone m")
    case True
    then have c: "allCompleted (mapTasks m)" using assms(2) by (auto simp: master_inv_def)
    have m: "m\<lparr>mapDone := True\<rparr> = m" using True by (cases m) simp
    show ?thesis
    proof (cases "reduceDone m")
      case r: True
      then have mr: "m\<lparr>mapDone := True, reduceDone := True\<rparr> = m" using True by (cases m) simp
      have "allCompleted (reduceTasks m)" using r assms(2) by (auto simp: master_inv_def)
      then show ?thesis using assms(1) True r c mr by (intro exit) (auto simp: GiveTask_def)
    next
      case False
      then have "giveReduce now start (m\<lparr>mapDone := True\<rparr>) = (m', reply)"
        unfolding m using assms(1) True by (simp add: GiveTask_def)
      then show ?thesis using c by (rule red)
    qed
  next
    case False
    show ?thesis
    proof (cases "scanTasks now 0 False (mapTasks m)")
      case (Pair k u)
      show ?thesis
      proof (cases k)
        case None
        have n: "u \<longleftrightarrow> \<not> allCompleted (mapTasks m)"
          "\<forall>k < length (mapTasks m). State (mapTasks m ! k) = Completed \<or> \<not> taskAvailable (now k) (mapTasks m ! k)"
          using scanTasks_None [of now 0 False "mapTasks m" u] Pair None by simp_all
        show ?thesis
        proof (cases u)
          case True
          then show ?thesis using n assms(1) False Pair None by (intro wait) (auto simp: GiveTask_def Let_def)
        next
          case u: False
          then show ?thesis using n assms(1) False Pair None by (intro red) (auto simp: GiveTask_def)
        qed
      next
        case (Some i)
        then show ?thesis using assms False Pair scanTasks_Some [of now 0 False "mapTasks m" i u] map [of i]
          by (auto simp: GiveTask_def)
      qed
    qed
  qed
qed

lemma startTask_length [simp]: "length (startTask i t ts) = length ts"
  by (simp add: startTask_def)

lemma startTask_nth:
  "i < length ts \<Longrightarrow> k < length ts \<Longrightarrow> startTask i t ts ! k =
     (if k = i then (ts ! i)\<lparr>State := InProgress, StartTime := Some t\<rparr> else ts ! k)"
  by (simp add: startTask_def)

lemma GiveTask_inv:
  assumes "GiveTask now start m = (m', reply)" and "master_inv m"
  shows "master_inv m'"
  using assms
proof (cases rule: GiveTask_cases)
  case (reduce i)
  then have "\<not> reduceDone m" using assms(2) nth_mem by (fastforce simp: master_inv_def)
  with reduce assms(2) show ?thesis by (auto simp: master_inv_def)
qed (use assms(2) in \<open>auto simp: master_inv_def\<close>)

lemma GiveTask_keeps:
  assumes "GiveTask now start m = (m', reply)" and "master_inv m"
  shows "k < length (mapTasks m) \<Longrightarrow> State (mapTasks m ! k) = Completed \<Longrightarrow> mapTasks m' ! k = mapTasks m ! k"
    and "k < length (reduceTasks m) \<Longrightarrow> State (reduceTasks m ! k) = Completed \<Longrightarrow>
      reduceTasks m' ! k = reduceTasks m ! k"
    and "nMap m' = nMap m \<and> nReduce m' = nReduce m \<and> length (mapTasks m') = length (mapTasks m) \<and>
      length (reduceTasks m') = length (reduceTasks m)"
    and "k < length (mapTasks m) \<Longrightarrow> FileName (mapTasks m' ! k) = FileName (mapTasks m ! k)"
  by (rule GiveTask_cases [OF assms]; auto simp: startTask_nth)+

text \<open>\<open>TaskDone\<close> either finds the task completed and does nothing, or completes it.\<close>

lemma TaskDone_cases:
  assumes "TaskDone args m d = Some (m', d')"
  obtains (again) "m' = m" "d' = d"
      "tdTaskType args = MapT \<Longrightarrow> State (mapTasks m ! nat (tdTaskNumber args)) = Completed"
      "tdTaskType args \<noteq> MapT \<Longrightarrow> State (reduceTasks m ! nat (tdTaskNumber args)) = Completed"
  | (map) i where "tdTaskType args = MapT" "tdTaskNumber args = int i" "i < length (mapTasks m)"
      "State (mapTasks m ! i) \<noteq> Completed"
      "m' = m\<lparr>mapTasks := (mapTasks m)[i := (mapTasks m ! i)\<lparr>State := Completed\<rparr>]\<rparr>"
      "renameInter i (tdFileNames args) [0..<nReduce m] d = Some d'"
  | (reduce) i name where "tdTaskType args \<noteq> MapT" "tdTaskNumber args = int i"
      "i < length (reduceTasks m)" "State (reduceTasks m ! i) \<noteq> Completed"
      "m' = m\<lparr>reduceTasks := (reduceTasks m)[i := (reduceTasks m ! i)\<lparr>State := Completed\<rparr>]\<rparr>"
      "go_nth (tdFileNames args) 0 = Some name" "d' = osRename name (outName i) d"
proof (cases "tdTaskType args = MapT")
  case True
  then obtain t where t: "go_nth (mapTasks m) (tdTaskNumber args) = Some t"
    using assms by (auto simp: TaskDone_def Let_def split: option.splits)
  show ?thesis
  proof (cases "State t = Completed")
    case c: True
    then show ?thesis using assms True t by (intro again) (auto simp: TaskDone_def go_nth_Some_iff)
  next
    case False
    then show ?thesis using assms True t map [of "nat (tdTaskNumber args)"]
      by (auto simp: TaskDone_def go_nth_Some_iff Let_def)
  qed
next
  case nm: False
  then obtain t where t: "go_nth (reduceTasks m) (tdTaskNumber args) = Some t"
    using assms by (auto simp: TaskDone_def Let_def split: option.splits)
  show ?thesis
  proof (cases "State t = Completed")
    case c: True
    then show ?thesis using assms nm t by (intro again) (auto simp: TaskDone_def go_nth_Some_iff)
  next
    case False
    then show ?thesis using assms nm t reduce [of "nat (tdTaskNumber args)"]
      by (auto simp: TaskDone_def go_nth_Some_iff Let_def)
  qed
qed

lemma TaskDone_inv:
  assumes "TaskDone args m d = Some (m', d')" and "master_inv m"
  shows "master_inv m'"
  using assms(1)
proof (cases rule: TaskDone_cases)
  case (map i)
  then show ?thesis using assms(2) by (auto simp: master_inv_def dest!: subsetD [OF set_update_subset_insert])
next
  case (reduce i name)
  then show ?thesis using assms(2) by (auto simp: master_inv_def dest!: subsetD [OF set_update_subset_insert])
qed (use assms(2) in simp)

lemma TaskDone_keeps:
  assumes "TaskDone args m d = Some (m', d')"
  shows "k < length (mapTasks m) \<Longrightarrow> State (mapTasks m ! k) = Completed \<Longrightarrow> mapTasks m' ! k = mapTasks m ! k"
    and "k < length (reduceTasks m) \<Longrightarrow> State (reduceTasks m ! k) = Completed \<Longrightarrow>
      reduceTasks m' ! k = reduceTasks m ! k"
    and "nMap m' = nMap m \<and> nReduce m' = nReduce m \<and> length (mapTasks m') = length (mapTasks m) \<and>
      length (reduceTasks m') = length (reduceTasks m)"
    and "k < length (mapTasks m) \<Longrightarrow> FileName (mapTasks m' ! k) = FileName (mapTasks m ! k)"
  by (rule TaskDone_cases [OF assms]; auto simp: nth_list_update)+

text \<open>The master under any sequence of calls, with any arguments.\<close>

inductive master_step :: "Master \<times> fs \<Rightarrow> Master \<times> fs \<Rightarrow> bool" where
  give: "GiveTask now start m = (m', reply) \<Longrightarrow> master_step (m, d) (m', d)"
| taskDone: "TaskDone args m d = Some (m', d') \<Longrightarrow> master_step (m, d) (m', d')"

definition master_for :: "string list \<Rightarrow> nat \<Rightarrow> Master \<times> fs \<Rightarrow> bool" where
  "master_for fns nred s \<longleftrightarrow> master_inv (fst s) \<and> nMap (fst s) = length fns \<and> nReduce (fst s) = nred \<and>
     (\<forall>i < length fns. FileName (mapTasks (fst s) ! i) = fns ! i)"

lemma MakeMaster_inv: "master_for fns nred (MakeMaster fns nred, d)"
  by (simp add: master_for_def master_inv_def MakeMaster_def)

interpretation mr_master: inductive_invariant
  "\<lambda>s. fst s = MakeMaster fns nred" master_step "master_for fns nred" for fns nred
proof
  show "master_for fns nred s" if "fst s = MakeMaster fns nred" for s
    using that MakeMaster_inv [of fns nred "snd s"] by (cases s) simp
  show "master_for fns nred t" if i: "master_for fns nred s" and st: "master_step s t" for s t
    using st
  proof cases
    case (give now start m m' reply d)
    with i have mi: "master_inv m" by (simp add: master_for_def)
    note k = GiveTask_inv [OF give(3) mi] GiveTask_keeps(3,4) [OF give(3) mi]
    show ?thesis using i give(1,2) k by (simp add: master_for_def master_inv_def)
  next
    case (taskDone args m d m' d')
    with i have mi: "master_inv m" by (simp add: master_for_def)
    note k = TaskDone_inv [OF taskDone(3) mi] TaskDone_keeps(3,4) [OF taskDone(3)]
    show ?thesis using i taskDone(1,2) k by (simp add: master_for_def master_inv_def)
  qed
qed








text \<open>A completed task stays completed, and nothing is renamed on its behalf again: a late
  notification from a second worker that ran the same task changes neither the master nor a file.\<close>

theorem completed_task_final:
  assumes "master_step\<^sup>*\<^sup>* (MakeMaster fns nred, d0) (m, d)" and "master_step\<^sup>*\<^sup>* (m, d) (m2, d2)"
    and "i < length fns" and "State (mapTasks m ! i) = Completed"
  shows "State (mapTasks m2 ! i) = Completed \<and>
    (\<forall>names. TaskDone \<lparr>tdTaskType = MapT, tdTaskNumber = int i, tdFileNames = names\<rparr> m2 d2 = Some (m2, d2))"
proof -
  have i: "master_for fns nred (m, d)" by (rule mr_master.reachable_inv [OF _ assms(1)]) simp
  have "State (mapTasks (fst (m2, d2)) ! i) = Completed \<and> i < length (mapTasks (fst (m2, d2)))"
  proof (rule mr_master.reachable_rel [OF assms(2) i, where R = "\<lambda>_ t. State (mapTasks (fst t) ! i) = Completed \<and> i < length (mapTasks (fst t))"])
    show "State (mapTasks (fst (m, d)) ! i) = Completed \<and> i < length (mapTasks (fst (m, d)))"
      using i assms(3,4) by (simp add: master_for_def master_inv_def)
    fix t u :: "Master \<times> fs"
    assume t: "master_for fns nred t" "State (mapTasks (fst t) ! i) = Completed \<and> i < length (mapTasks (fst t))"
      and st: "master_step t u"
    from st show "State (mapTasks (fst u) ! i) = Completed \<and> i < length (mapTasks (fst u))"
    proof cases
      case (give now start m m' reply d)
      then show ?thesis using t GiveTask_keeps(1) [OF give(3), of i] GiveTask_keeps(3) [OF give(3)] by (simp add: master_for_def)
    next
      case (taskDone args m d m' d')
      then show ?thesis using t TaskDone_keeps(1) [OF taskDone(3), of i] TaskDone_keeps(3) [OF taskDone(3)] by simp
    qed
  qed
  then show ?thesis by (simp add: TaskDone_def go_simps)
qed

definition emptyFs :: fs where
  "emptyFs = \<lparr>dir = Map.empty, blob = (\<lambda>_. Text []), freshInode = 0\<rparr>"

definition one_task :: Master where
  "one_task = (MakeMaster [''pg.txt''] 1)\<lparr>mapTasks := [\<lparr>TaskType = MapT, State = Completed,
                 StartTime = None, FileName = ''pg.txt''\<rparr>]\<rparr>"

theorem completed_task_final_witness:
  "TaskDone \<lparr>tdTaskType = MapT, tdTaskNumber = 0, tdFileNames = []\<rparr> one_task emptyFs
     = Some (one_task, emptyFs)"
proof -
  let ?m0 = "MakeMaster [''pg.txt''] 1"
  have "TaskDone \<lparr>tdTaskType = MapT, tdTaskNumber = 0, tdFileNames = [''tmp'']\<rparr> ?m0 emptyFs
      = Some (one_task, emptyFs)"
    by (simp add: TaskDone_def MakeMaster_def one_task_def go_nth_def osRename_def emptyFs_def)
  then have "master_step\<^sup>*\<^sup>* (?m0, emptyFs) (one_task, emptyFs)" by (blast intro: taskDone)
  from completed_task_final [OF this rtranclp.rtrancl_refl, of 0]
  have "\<forall>names. TaskDone \<lparr>tdTaskType = MapT, tdTaskNumber = int 0, tdFileNames = names\<rparr> one_task emptyFs
      = Some (one_task, emptyFs)" by (simp add: one_task_def)
  then show ?thesis by simp
qed

end
