(* ===== verification/MRApps.thy ===== *)
theory MRApps
  imports MRProps
begin

text \<open>
  The applications of \<open>src/src/mrapps\<close>: word count, the indexer, and the reduce functions of
  the test applications. Characters are bytes, and a byte is read as the Unicode code point
  with its number, so that texts are exact for ASCII; \<open>unicode.IsLetter\<close> is its table below
  256. A Go map is ranged over in an unspecified order: the order is an argument.
\<close>

section \<open>Library functions\<close>

definition IsLetter :: "char \<Rightarrow> bool" where
  "IsLetter c =
     (let n = of_char c :: nat
      in 65 \<le> n \<and> n \<le> 90 \<or> 97 \<le> n \<and> n \<le> 122 \<or> n = 170 \<or> n = 181 \<or> n = 186 \<or>
         192 \<le> n \<and> n \<le> 255 \<and> n \<noteq> 215 \<and> n \<noteq> 247)"

text \<open>\<open>strings.FieldsFunc\<close>: the maximal runs of characters that are no separators.\<close>

function FieldsFunc :: "(char \<Rightarrow> bool) \<Rightarrow> string \<Rightarrow> string list" where
  "FieldsFunc sep [] = []"
| "FieldsFunc sep (c # cs) =
     (if sep c then FieldsFunc sep cs
      else (c # takeWhile (\<lambda>x. \<not> sep x) cs) # FieldsFunc sep (dropWhile (\<lambda>x. \<not> sep x) cs))"
  by pat_completeness auto
termination
  by (relation "measure (\<lambda>(f, cs). length cs)") (auto simp: le_imp_less_Suc length_dropWhile_le)

fun Join :: "string list \<Rightarrow> string \<Rightarrow> string" where
  "Join [] sep = []"
| "Join [s] sep = s"
| "Join (s # t # ss) sep = s @ sep @ Join (t # ss) sep"

section \<open>wc.go\<close>

definition wc_Map :: "string \<Rightarrow> string \<Rightarrow> KeyValue list" where
  "wc_Map filename contents =
     (let ff = (\<lambda>r. \<not> IsLetter r);
          words = FieldsFunc ff contents
      in map (\<lambda>w. \<lparr>Key = w, Value = ''1''\<rparr>) words)"

definition wc_Reduce :: "string \<Rightarrow> string list \<Rightarrow> string" where
  "wc_Reduce key values = itoa (length values)"

section \<open>indexer.go\<close>

text \<open>The order in which the map of words is ranged over is \<open>order\<close>, applied to the distinct words.\<close>

definition indexer_Map :: "(string list \<Rightarrow> string list) \<Rightarrow> string \<Rightarrow> string \<Rightarrow> KeyValue list" where
  "indexer_Map order document value =
     (let words = FieldsFunc (\<lambda>x. \<not> IsLetter x) value;
          m = remdups words
      in map (\<lambda>w. \<lparr>Key = w, Value = document\<rparr>) (order m))"

definition indexer_Reduce :: "string \<Rightarrow> string list \<Rightarrow> string" where
  "indexer_Reduce key values =
     (let values = sort values in itoa (length values) @ '' '' @ Join values '','')"

section \<open>crash.go, nocrash.go, mtiming.go, rtiming.go\<close>

text \<open>\<open>maybeCrash\<close>: the first random number decides; the process ends, sleeps or goes on.\<close>

datatype crash_outcome = CrashExit | CrashSleep int | CrashNot

definition crash_maybeCrash :: "int \<Rightarrow> int \<Rightarrow> crash_outcome" where
  "crash_maybeCrash raw1 raw2 =
     (let rr = raw1 mod 1000
      in if rr < 330 then CrashExit
         else if rr < 660 then CrashSleep (raw2 mod (10 * 1000))
         else CrashNot)"

definition nocrash_maybeCrash :: "int \<Rightarrow> crash_outcome" where
  "nocrash_maybeCrash raw = (let rr = raw mod 1000 in if False \<and> rr < 500 then CrashExit else CrashNot)"

definition crash_Map :: "string \<Rightarrow> string \<Rightarrow> KeyValue list" where
  "crash_Map filename contents =
     [\<lparr>Key = ''a'', Value = filename\<rparr>,
      \<lparr>Key = ''b'', Value = itoa (length filename)\<rparr>,
      \<lparr>Key = ''c'', Value = itoa (length contents)\<rparr>,
      \<lparr>Key = ''d'', Value = ''xyzzy''\<rparr>]"

definition nocrash_Map :: "string \<Rightarrow> string \<Rightarrow> KeyValue list" where
  "nocrash_Map filename contents =
     [\<lparr>Key = ''a'', Value = filename\<rparr>,
      \<lparr>Key = ''b'', Value = itoa (length filename)\<rparr>,
      \<lparr>Key = ''c'', Value = itoa (length contents)\<rparr>,
      \<lparr>Key = ''d'', Value = ''xyzzy''\<rparr>]"

definition crash_Reduce :: "string \<Rightarrow> string list \<Rightarrow> string" where
  "crash_Reduce key values = (let vv = sort values in Join vv '' '')"

definition nocrash_Reduce :: "string \<Rightarrow> string list \<Rightarrow> string" where
  "nocrash_Reduce key values = (let vv = sort values in Join vv '' '')"

definition mtiming_Reduce :: "string \<Rightarrow> string list \<Rightarrow> string" where
  "mtiming_Reduce key values = (let vv = sort values in Join vv '' '')"

definition rtiming_Map :: "string \<Rightarrow> string \<Rightarrow> KeyValue list" where
  "rtiming_Map filename contents =
     map (\<lambda>k. \<lparr>Key = k, Value = ''1''\<rparr>)
       [''a'', ''b'', ''c'', ''d'', ''e'', ''f'', ''g'', ''h'', ''i'', ''j'']"

section \<open>Properties\<close>

lemma sort_mset: "mset vs = mset ws \<Longrightarrow> sort vs = sort ws"
proof (rule properties_for_sort)
  assume "mset vs = mset ws"
  then show "mset (sort ws) = mset vs" by simp
  show "sorted (sort ws)" by simp
qed

lemma FieldsFunc_words:
  "w \<in> set (FieldsFunc sep s) \<Longrightarrow> w \<noteq> [] \<and> (\<forall>c \<in> set w. \<not> sep c)"
proof (induction sep s rule: FieldsFunc.induct)
  case (2 sep c cs)
  show ?case
  proof (cases "sep c")
    case False
    then consider "w = c # takeWhile (\<lambda>x. \<not> sep x) cs" | "w \<in> set (FieldsFunc sep (dropWhile (\<lambda>x. \<not> sep x) cs))"
      using "2.prems" by auto
    then show ?thesis
    proof cases
      case 1
      then show ?thesis using False by (auto dest: set_takeWhileD)
    next
      case 2
      then show ?thesis using "2.IH"(2) [OF False] by blast
    qed
  next
    case True
    then have "w \<in> set (FieldsFunc sep cs)" using "2.prems" by simp
    with "2.IH"(1) [OF True] show ?thesis by blast
  qed
qed simp

text \<open>No letter is lost: the words are the text without its separators.\<close>

lemma FieldsFunc_concat: "concat (FieldsFunc sep s) = filter (\<lambda>c. \<not> sep c) s"
proof (induction sep s rule: FieldsFunc.induct)
  case (2 sep c cs)
  have "filter (\<lambda>c. \<not> sep c) cs = takeWhile (\<lambda>x. \<not> sep x) cs @ filter (\<lambda>c. \<not> sep c) (dropWhile (\<lambda>x. \<not> sep x) cs)"
    by (induction cs) auto
  with 2 show ?case by simp
qed simp

lemma order_free_sort: "order_free (\<lambda>k vs. f (sort vs))"
  unfolding order_free_def using sort_mset by metis

lemma order_free_wc: "order_free wc_Reduce"
  by (auto simp: order_free_def wc_Reduce_def dest: mset_eq_length)

text \<open>The reduce functions of the applications depend on the multiset of the values
  only, which is what makes the output of a parallel run deterministic.\<close>

theorem apps_order_free:
  "order_free wc_Reduce \<and> order_free indexer_Reduce \<and> order_free crash_Reduce \<and>
   order_free nocrash_Reduce \<and> order_free mtiming_Reduce"
proof -
  have "order_free wc_Reduce" by (rule order_free_wc)
  moreover have "order_free indexer_Reduce"
    using order_free_sort [of "\<lambda>v. itoa (length v) @ '' '' @ Join v '',''"]
    by (simp add: indexer_Reduce_def [abs_def] Let_def)
  moreover have "order_free crash_Reduce" "order_free nocrash_Reduce" "order_free mtiming_Reduce"
    using order_free_sort [of "\<lambda>v. Join v '' ''"]
    by (simp_all add: crash_Reduce_def [abs_def] nocrash_Reduce_def [abs_def] mtiming_Reduce_def [abs_def] Let_def)
  ultimately show ?thesis by simp
qed

lemma sorts_sort_key: "sorts (sort_key Key)"
  by (simp add: sorts_def)

text \<open>The words of all the texts.\<close>

definition allWords :: "string list \<Rightarrow> string list" where
  "allWords texts = concat (map (FieldsFunc (\<lambda>r. \<not> IsLetter r)) texts)"

lemma count_list_length: "count_list xs w = length (filter (\<lambda>x. x = w) xs)"
  by (induction xs) auto

text \<open>Word count is right: the output has one line for every word that occurs in some text, in
  increasing order of the words, with the number of its occurrences in all the texts.\<close>

theorem wc_counts:
  assumes "sorts sorter"
  shows "reduceLines wc_Reduce (sorter (concat (map (wc_Map f) texts))) =
    map (\<lambda>w. w @ '' '' @ itoa (count_list (allWords texts) w) @ ''\<newline>'')
      (sorted_list_of_set (set (allWords texts)))"
proof -
  let ?kvs = "concat (map (wc_Map f) texts)"
  have kvs: "?kvs = map (\<lambda>w. \<lparr>Key = w, Value = ''1''\<rparr>) (allWords texts)"
    by (induction texts) (simp_all add: wc_Map_def allWords_def Let_def)
  have "keysOf ?kvs = sorted_list_of_set (set (allWords texts))"
    unfolding kvs by (simp add: image_image)
  moreover have "keyLine wc_Reduce ?kvs w = w @ '' '' @ itoa (count_list (allWords texts) w) @ ''\<newline>''" for w
    unfolding kvs by (simp add: keyLine_def wc_Reduce_def filter_map comp_def count_list_length)
  ultimately show ?thesis
    using reduceLines_sorter [OF assms order_free_wc refl] by simp
qed

theorem wc_counts_witness:
  "reduceLines wc_Reduce (sort_key Key (concat (map (wc_Map ''f'') [''to be'', ''or not to be''])))
     = [''be 2\<newline>'', ''not 1\<newline>'', ''or 1\<newline>'', ''to 2\<newline>'']"
proof -
  have "map (\<lambda>w. w @ '' '' @ itoa (count_list (allWords [''to be'', ''or not to be'']) w) @ ''\<newline>'')
      (sorted_list_of_set (set (allWords [''to be'', ''or not to be''])))
    = [''be 2\<newline>'', ''not 1\<newline>'', ''or 1\<newline>'', ''to 2\<newline>'']" by code_simp
  with wc_counts [OF sorts_sort_key] show ?thesis by (rule trans)
qed

end
