(* ===== verification/MRJob.thy ===== *)
theory MRJob
  imports MRCluster MRApps
begin

text \<open>
  The result of a MapReduce job (the processes of theory \<open>MRCluster\<close>): when the master is done,
  the output files hold the lines that the sequential program of \<open>mrsequential.go\<close> writes, as
  long as every reduce task is handed out once. The last section shows what can happen to the
  output when a reduce task is handed out twice.
\<close>

section \<open>The job and its expected results\<close>

record params =
  pInputs :: "string list"
  pText :: "string \<Rightarrow> string"
  pMap :: "string \<Rightarrow> string \<Rightarrow> KeyValue list"
  pReduce :: "string \<Rightarrow> string list \<Rightarrow> string"
  pNRed :: nat

definition pairs :: "params \<Rightarrow> nat \<Rightarrow> KeyValue list" where
  "pairs P i = pMap P (pInputs P ! i) (pText P (pInputs P ! i))"

definition allPairs :: "params \<Rightarrow> KeyValue list" where
  "allPairs P = concat (map (pairs P) [0..<length (pInputs P)])"

definition outLines :: "params \<Rightarrow> nat \<Rightarrow> string list" where
  "outLines P r =
     (let B = bucket (pNRed P) r (allPairs P) in map (keyLine (pReduce P) B) (keysOf B))"

text \<open>What the job assumes of its surroundings.\<close>

definition params_ok :: "params \<Rightarrow> bool" where
  "params_ok P \<longleftrightarrow> 0 < pNRed P \<and> order_free (pReduce P) \<and> (\<forall>f \<in> set (pInputs P). take 3 f \<noteq> ''mr-'') \<and>
     (\<forall>kv \<in> set (allPairs P). validUTF8 (Key kv) \<and> validUTF8 (Value kv))"

definition start_ok :: "params \<Rightarrow> fs \<Rightarrow> bool" where
  "start_ok P d \<longleftrightarrow> fs_ok d \<and> (\<forall>f \<in> set (pInputs P). readFile f d = Some (Text (pText P f)))"

section \<open>The invariant\<close>

definition files_inv :: "params \<Rightarrow> Master \<Rightarrow> fs \<Rightarrow> bool" where
  "files_inv P m d \<longleftrightarrow> start_ok P d \<and>
     (\<forall>i < length (pInputs P). State (mapTasks m ! i) = Completed \<longrightarrow>
        (\<forall>r < pNRed P. \<exists>c. readFile (interName i r) d = Some c \<and>
            mset (decodeAll c) = mset (bucket (pNRed P) r (pairs P i)))) \<and>
     (\<forall>r < pNRed P. State (reduceTasks m ! r) = Completed \<longrightarrow>
        readFile (outName r) d = Some (Text (concat (outLines P r))))"

text \<open>A map task's unpublished files.\<close>

definition map_written :: "params \<Rightarrow> fs \<Rightarrow> TaskDoneArgs \<Rightarrow> bool" where
  "map_written P d a \<longleftrightarrow> tdTaskType a = MapT \<and> length (tdFileNames a) = pNRed P \<and>
     (\<exists>i < length (pInputs P). tdTaskNumber a = int i \<and>
        (\<forall>r < pNRed P. (\<exists>x. tdFileNames a ! r = tempName i r x) \<and>
           (\<exists>c. readFile (tdFileNames a ! r) d = Some c \<and>
                mset (decodeAll c) = mset (bucket (pNRed P) r (pairs P i)))))"

definition red_running :: "params \<Rightarrow> Master \<Rightarrow> RequestTaskReply \<Rightarrow> bool" where
  "red_running P m reply \<longleftrightarrow> rtReduceTaskNumber reply < pNRed P \<and> rtNMap reply = length (pInputs P) \<and>
     allCompleted (mapTasks m) \<and> State (reduceTasks m ! rtReduceTaskNumber reply) = InProgress"

fun worker_inv :: "params \<Rightarrow> Master \<Rightarrow> fs \<Rightarrow> wstate \<Rightarrow> bool" where
  "worker_inv P m d Asking = True"
| "worker_inv P m d Exited = True"
| "worker_inv P m d (MapRun reply) =
     (rtMapTaskNumber reply < length (pInputs P) \<and> rtNReduce reply = pNRed P \<and>
      rtFileName reply = pInputs P ! rtMapTaskNumber reply)"
| "worker_inv P m d (MapWritten a) = map_written P d a"
| "worker_inv P m d (ReduceRun reply) = red_running P m reply"
| "worker_inv P m d (ReduceSorted reply kvs) =
     (red_running P m reply \<and> reduceLines (pReduce P) kvs = outLines P (rtReduceTaskNumber reply))"
| "worker_inv P m d (ReduceOpened reply kvs ino) =
     (red_running P m reply \<and> reduceLines (pReduce P) kvs = outLines P (rtReduceTaskNumber reply) \<and>
      dir d (tempOutName (rtReduceTaskNumber reply)) = Some ino)"
| "worker_inv P m d (ReduceWritten a) =
     (\<exists>reply. a = reduceNotify reply \<and> red_running P m reply \<and>
        readFile (tempOutName (rtReduceTaskNumber reply)) d =
          Some (Text (concat (outLines P (rtReduceTaskNumber reply)))))"

text \<open>The files and the reduce task a worker has for itself.\<close>

fun ownFiles :: "wstate \<Rightarrow> string set" where
  "ownFiles (MapWritten a) = set (tdFileNames a)"
| "ownFiles _ = {}"

fun ownTask :: "wstate \<Rightarrow> nat option" where
  "ownTask (ReduceRun reply) = Some (rtReduceTaskNumber reply)"
| "ownTask (ReduceSorted reply kvs) = Some (rtReduceTaskNumber reply)"
| "ownTask (ReduceOpened reply kvs ino) = Some (rtReduceTaskNumber reply)"
| "ownTask (ReduceWritten a) = Some (nat (tdTaskNumber a))"
| "ownTask _ = None"

definition separate :: "wstate \<Rightarrow> wstate \<Rightarrow> bool" where
  "separate v w \<longleftrightarrow> ownFiles v \<inter> ownFiles w = {} \<and> (ownTask v \<noteq> None \<longrightarrow> ownTask v \<noteq> ownTask w)"

definition job_inv :: "params \<Rightarrow> job \<Rightarrow> bool" where
  "job_inv P s \<longleftrightarrow> master_for (pInputs P) (pNRed P) (jmaster s, jfs s) \<and>
     files_inv P (jmaster s) (jfs s) \<and>
     (\<forall>w. worker_inv P (jmaster s) (jfs s) (jworker s w)) \<and>
     (\<forall>v w. v \<noteq> w \<longrightarrow> separate (jworker s v) (jworker s w))"

lemma separate_sym: "separate v w \<Longrightarrow> separate w v"
  by (auto simp: separate_def)

text \<open>Files a worker's part of the invariant speaks about.\<close>

definition footprint :: "wstate \<Rightarrow> string set" where
  "footprint ws = ownFiles ws \<union> (case ownTask ws of None \<Rightarrow> {} | Some r \<Rightarrow> {tempOutName r})"

text \<open>Progress of the master that a worker with task \<open>r\<close> does not notice.\<close>

definition progress :: "nat option \<Rightarrow> Master \<Rightarrow> Master \<Rightarrow> bool" where
  "progress r m m' \<longleftrightarrow> (allCompleted (mapTasks m) \<longrightarrow> allCompleted (mapTasks m')) \<and>
     (\<forall>k. r = Some k \<longrightarrow> State (reduceTasks m' ! k) = State (reduceTasks m ! k))"

lemma progress_refl [simp]: "progress r m m"
  by (simp add: progress_def)

lemma red_running_progress:
  "red_running P m reply \<Longrightarrow> progress (Some (rtReduceTaskNumber reply)) m m' \<Longrightarrow> red_running P m' reply"
  by (auto simp: red_running_def progress_def)

lemma map_written_frame:
  assumes "map_written P d a" and "\<forall>n \<in> set (tdFileNames a). readFile n d' = readFile n d"
  shows "map_written P d' a"
proof -
  have "readFile (tdFileNames a ! r) d' = readFile (tdFileNames a ! r) d" if "r < pNRed P" for r
    using assms that by (auto simp: map_written_def)
  with assms(1) show ?thesis by (auto simp: map_written_def)
qed

lemma worker_frame:
  assumes "worker_inv P m d ws" and "progress (ownTask ws) m m'"
    and "\<forall>n \<in> footprint ws. readFile n d' = readFile n d \<and> dir d' n = dir d n"
  shows "worker_inv P m' d' ws"
proof (cases ws)
  case (MapWritten a)
  then show ?thesis using assms map_written_frame [of P d a d'] by (simp add: footprint_def)
next
  case (ReduceWritten a)
  then obtain reply where r: "a = reduceNotify reply" "red_running P m reply"
    "readFile (tempOutName (rtReduceTaskNumber reply)) d =
       Some (Text (concat (outLines P (rtReduceTaskNumber reply))))" using assms(1) by auto
  then have "red_running P m' reply" using assms(2) ReduceWritten
    by (auto simp: reduceNotify_def intro: red_running_progress)
  moreover have "tempOutName (rtReduceTaskNumber reply) \<in> footprint ws"
    using r(1) ReduceWritten by (simp add: footprint_def reduceNotify_def)
  ultimately show ?thesis using r assms(3) ReduceWritten by auto
qed (use assms in \<open>auto simp: footprint_def intro: red_running_progress\<close>)

lemma job_inv_update:
  assumes "job_inv P s" and "master_for (pInputs P) (pNRed P) (m, d)" and "files_inv P m d"
    and "worker_inv P m d ws"
    and "\<And>v. v \<noteq> w \<Longrightarrow> progress (ownTask (jworker s v)) (jmaster s) m"
    and "\<And>v n. v \<noteq> w \<Longrightarrow> n \<in> footprint (jworker s v) \<Longrightarrow>
           readFile n d = readFile n (jfs s) \<and> dir d n = dir (jfs s) n"
    and "\<And>v. v \<noteq> w \<Longrightarrow> separate ws (jworker s v)"
  shows "job_inv P (setWorker w ws (s\<lparr>jmaster := m, jfs := d\<rparr>))"
proof -
  have "worker_inv P m d (jworker s v)" if "v \<noteq> w" for v
    using assms(1) assms(6) [OF that]
    by (intro worker_frame [OF _ assms(5) [OF that]]) (auto simp: job_inv_def)
  moreover have "separate (jworker s v) ws" if "v \<noteq> w" for v
    by (rule separate_sym [OF assms(7) [OF that]])
  ultimately show ?thesis using assms(1-4,7) by (auto simp: job_inv_def)
qed

text \<open>A worker that stops or goes back to asking.\<close>

lemma job_inv_idle:
  assumes "job_inv P s" and "ws = Asking \<or> ws = Exited"
  shows "job_inv P (setWorker w ws s)"
proof -
  have "job_inv P (setWorker w ws (s\<lparr>jmaster := jmaster s, jfs := jfs s\<rparr>))"
    by (rule job_inv_update) (use assms in \<open>auto simp: job_inv_def separate_def\<close>)
  then show ?thesis by simp
qed

text \<open>Only names of this form are changed by a job.\<close>

lemma inputs_safe:
  assumes "params_ok P" "f \<in> set (pInputs P)"
  shows "f \<noteq> interName i r" "f \<noteq> outName r" "f \<noteq> tempName i r x" "f \<noteq> tempOutName r"
  using assms by (auto simp: params_ok_def interName_def outName_def tempName_def tempOutName_def)

lemma files_frame:
  assumes "files_inv P m d" and "params_ok P" and "fs_ok d'"
    and "\<And>n. (\<forall>i r x. n \<noteq> tempName i r x) \<Longrightarrow> (\<forall>r. n \<noteq> tempOutName r) \<Longrightarrow> readFile n d' = readFile n d"
  shows "files_inv P m d'"
proof -
  have "readFile f d' = readFile f d" if "f \<in> set (pInputs P)" for f
    using inputs_safe [OF assms(2) that] by (intro assms(4)) auto
  moreover have "readFile (interName i r) d' = readFile (interName i r) d" for i r
    by (rule assms(4)) simp_all
  moreover have "readFile (outName r) d' = readFile (outName r) d" for r
    by (rule assms(4)) simp_all
  ultimately show ?thesis using assms(1,3) by (simp add: files_inv_def start_ok_def)
qed

section \<open>Every step keeps the invariant\<close>

lemma master_for_dest:
  assumes "master_for fns nred (m, d)"
  shows "master_inv m" "length (mapTasks m) = length fns" "length (reduceTasks m) = nred"
    "nReduce m = nred" "nMap m = length fns" "i < length fns \<Longrightarrow> FileName (mapTasks m ! i) = fns ! i"
  using assms by (auto simp: master_for_def master_inv_def)

lemma files_inv_mono:
  assumes "files_inv P m d"
    and "\<And>i. i < length (pInputs P) \<Longrightarrow> State (mapTasks m' ! i) = Completed \<Longrightarrow> State (mapTasks m ! i) = Completed"
    and "\<And>r. r < pNRed P \<Longrightarrow> State (reduceTasks m' ! r) = Completed \<Longrightarrow> State (reduceTasks m ! r) = Completed"
  shows "files_inv P m' d"
  using assms by (auto simp: files_inv_def)

lemma worker_task:
  assumes "worker_inv P m d ws" and "ownTask ws = Some r"
  shows "State (reduceTasks m ! r) = InProgress \<and> r < pNRed P"
  using assms by (cases ws) (auto simp: red_running_def reduceNotify_def)

lemma request_inv:
  assumes inv: "job_inv P s" and g: "GiveTask now start (jmaster s) = (m, reply)"
    and once: "rtTaskType reply = ReduceT \<Longrightarrow> State (reduceTasks (jmaster s) ! rtReduceTaskNumber reply) = Idle"
  shows "job_inv P (setWorker w (workerNext reply) (s\<lparr>jmaster := m\<rparr>))"
proof -
  let ?m = "jmaster s" and ?d = "jfs s"
  from inv have mf: "master_for (pInputs P) (pNRed P) (?m, ?d)" and fi: "files_inv P ?m ?d"
    and wi: "\<And>v. worker_inv P ?m ?d (jworker s v)" by (auto simp: job_inv_def)
  note M = master_for_dest [OF mf]
  have "master_step (?m, ?d) (m, ?d)" using g by (rule give)
  then have mf': "master_for (pInputs P) (pNRed P) (m, ?d)" by (rule mr_master.step_inv [OF mf])
  have upd: ?thesis if "files_inv P m ?d" "worker_inv P m ?d (workerNext reply)"
    "\<And>v. v \<noteq> w \<Longrightarrow> progress (ownTask (jworker s v)) ?m m"
    "\<And>v. v \<noteq> w \<Longrightarrow> separate (workerNext reply) (jworker s v)"
  proof -
    have "job_inv P (setWorker w (workerNext reply) (s\<lparr>jmaster := m, jfs := ?d\<rparr>))"
      by (rule job_inv_update [OF inv mf' that(1,2)]) (use that(3,4) in auto)
    then show ?thesis by simp
  qed
  from g M(1) show ?thesis
  proof (cases rule: GiveTask_cases)
    case (map i)
    have "\<not> allCompleted (mapTasks ?m)" using map(2,3) nth_mem by blast
    then show ?thesis using map M fi
      by (intro upd files_inv_mono [OF fi])
         (auto simp: startTask_nth zeroReply_def progress_def separate_def split: if_splits)
  next
    case (reduce i)
    with once have idle: "State (reduceTasks ?m ! i) = Idle" by simp
    have other: "ownTask (jworker s v) \<noteq> Some i" for v
      using worker_task [OF wi, of v i] idle by auto
    show ?thesis
    proof (rule upd)
      show "files_inv P m ?d"
        by (rule files_inv_mono [OF fi]) (use reduce M in \<open>auto simp: startTask_nth split: if_splits\<close>)
      show "worker_inv P m ?d (workerNext reply)"
        using reduce M by (simp add: red_running_def startTask_nth)
      show "progress (ownTask (jworker s v)) ?m m" for v
        using reduce M other [of v] worker_task [OF wi, of v]
        by (auto simp: progress_def startTask_nth)
      show "separate (workerNext reply) (jworker s v)" for v
        using reduce other [of v] by (auto simp: separate_def)
    qed
  next
    case wait
    then show ?thesis using fi
      by (intro upd files_inv_mono [OF fi]) (auto simp: progress_def separate_def)
  next
    case exit
    then show ?thesis using fi
      by (intro upd files_inv_mono [OF fi]) (auto simp: progress_def separate_def)
  qed
qed

lemma footprint_names:
  assumes "worker_inv P m d ws" and "n \<in> footprint ws"
  shows "(\<exists>i r x. n = tempName i r x \<and> n \<in> ownFiles ws) \<or> (\<exists>r. n = tempOutName r \<and> ownTask ws = Some r)"
proof (cases ws)
  case (MapWritten a)
  then have a: "map_written P d a" and n: "n \<in> set (tdFileNames a)"
    using assms by (simp_all add: footprint_def)
  then obtain k where "k < pNRed P" "n = tdFileNames a ! k"
    by (auto simp: map_written_def in_set_conv_nth)
  then have "\<exists>i r x. n = tempName i r x" using a unfolding map_written_def by blast
  then show ?thesis using n MapWritten by auto
qed (use assms in \<open>auto simp: footprint_def\<close>)

lemma own_files_exist:
  assumes "worker_inv P m d ws" and "n \<in> ownFiles ws"
  shows "readFile n d \<noteq> None"
  using assms by (cases ws) (auto simp: map_written_def in_set_conv_nth)

lemma runMap_inv:
  assumes inv: "job_inv P s" and par: "params_ok P" and w: "jworker s w = MapRun reply"
    and h: "handleMapTask mapf rnd reply (jfs s) = Inr (d, a)"
    and app: "\<And>f c. mset (mapf f c) = mset (pMap P f c)"
  shows "job_inv P (setWorker w (MapWritten a) (s\<lparr>jfs := d\<rparr>))"
proof -
  let ?i = "rtMapTaskNumber reply"
  from inv have mf: "master_for (pInputs P) (pNRed P) (jmaster s, jfs s)"
    and fi: "files_inv P (jmaster s) (jfs s)"
    and wi: "\<And>v. worker_inv P (jmaster s) (jfs s) (jworker s v)" by (auto simp: job_inv_def)
  from wi [of w] w have r: "?i < length (pInputs P)" "rtNReduce reply = pNRed P"
    "rtFileName reply = pInputs P ! ?i" by auto
  then have inp: "readFile (rtFileName reply) (jfs s) = Some (Text (pText P (rtFileName reply)))"
    using fi by (simp add: files_inv_def start_ok_def)
  have "fs_ok (jfs s)" "0 < rtNReduce reply" using fi par r by (simp_all add: files_inv_def start_ok_def params_ok_def)
  note H = handleMapTask_spec [OF h this inp]
  have new: "readFile n (jfs s) = None \<and> (\<exists>r x. n = tempName ?i r x)" if "n \<in> set (tdFileNames a)" for n
    using that H by (auto simp: in_set_conv_nth)
  have out: "mset (mapf (rtFileName reply) (pText P (rtFileName reply))) = mset (pairs P ?i)"
    using app r(3) by (simp add: pairs_def)
  have "set (pairs P ?i) \<subseteq> set (allPairs P)" using r(1) by (auto simp: allPairs_def)
  then have "\<forall>kv \<in> set (mapf (rtFileName reply) (pText P (rtFileName reply))). jsonPair kv = kv"
    using par mset_eq_setD [OF out] by (auto simp: params_ok_def jsonPair_def jsonString_id)
  then have "map jsonPair (bucket (pNRed P) q (mapf (rtFileName reply) (pText P (rtFileName reply)))) =
      bucket (pNRed P) q (mapf (rtFileName reply) (pText P (rtFileName reply)))" for q
    by (auto simp: bucket_def intro: map_idI)
  then have same: "mset (decodeAll c) = mset (bucket (pNRed P) q (pairs P ?i))"
    if "decodeAll c = map jsonPair (bucket (pNRed P) q (mapf (rtFileName reply) (pText P (rtFileName reply))))" for c q
    using out by (simp add: that bucket_def)
  have "job_inv P (setWorker w (MapWritten a) (s\<lparr>jmaster := jmaster s, jfs := d\<rparr>))"
  proof (rule job_inv_update [OF inv])
    show "master_for (pInputs P) (pNRed P) (jmaster s, d)" using mf by (simp add: master_for_def)
    show "files_inv P (jmaster s) d"
      by (rule files_frame [OF fi par]) (use H new in blast)+
    show "worker_inv P (jmaster s) d (MapWritten a)"
      using H r same by (auto simp: map_written_def)
    show "readFile n d = readFile n (jfs s) \<and> dir d n = dir (jfs s) n"
      if "v \<noteq> w" "n \<in> footprint (jworker s v)" for v n
    proof -
      have "n \<notin> set (tdFileNames a)"
        using footprint_names [OF wi that(2)] own_files_exist [OF wi, of n v] new [of n] by auto
      then show ?thesis using H by blast
    qed
    show "separate (MapWritten a) (jworker s v)" if "v \<noteq> w" for v
    proof -
      have "set (tdFileNames a) \<inter> ownFiles (jworker s v) = {}"
        using own_files_exist [OF wi, of _ v] new by blast
      then show ?thesis by (simp add: separate_def)
    qed
  qed simp
  then show ?thesis by simp
qed

lemma readInter_spec:
  assumes "\<And>i. i \<in> set is \<Longrightarrow> \<exists>c. readFile (interName i r) d = Some c \<and> mset (decodeAll c) = mset (f i)"
  shows "\<exists>kvs. readInter r is d = Inr kvs \<and> mset kvs = mset (concat (map f is))"
  using assms
proof (induction "is")
  case (Cons i "is")
  then obtain c kvs where "readFile (interName i r) d = Some c" "mset (decodeAll c) = mset (f i)"
    "readInter r is d = Inr kvs" "mset kvs = mset (concat (map f is))" by fastforce
  then show ?case by simp
qed simp

lemma bucket_concat: "bucket n r (concat xss) = concat (map (bucket n r) xss)"
  by (simp add: bucket_def [abs_def] filter_concat comp_def)

lemma readInter_inv:
  assumes inv: "job_inv P s" and par: "params_ok P" and w: "jworker s w = ReduceRun reply"
    and srt: "sorts sorter"
  shows "\<exists>kvs. reduceRead sorter reply (jfs s) = Inr kvs \<and> job_inv P (setWorker w (ReduceSorted reply kvs) s)"
proof -
  let ?r = "rtReduceTaskNumber reply"
  from inv have mf: "master_for (pInputs P) (pNRed P) (jmaster s, jfs s)"
    and fi: "files_inv P (jmaster s) (jfs s)" and run: "red_running P (jmaster s) reply"
    and sep: "\<And>v. v \<noteq> w \<Longrightarrow> separate (ReduceRun reply) (jworker s v)"
    by (auto simp: job_inv_def w [symmetric]) (metis w worker_inv.simps(5))
  note M = master_for_dest [OF mf]
  have "\<exists>c. readFile (interName i ?r) (jfs s) = Some c \<and> mset (decodeAll c) = mset (bucket (pNRed P) ?r (pairs P i))"
    if "i \<in> set [0..<rtNMap reply]" for i
    using that run fi M nth_mem [of i "mapTasks (jmaster s)"] by (auto simp: red_running_def files_inv_def)
  from readInter_spec [of "[0..<rtNMap reply]", OF this] obtain kvs where
    kvs: "readInter ?r [0..<rtNMap reply] (jfs s) = Inr kvs"
    "mset kvs = mset (bucket (pNRed P) ?r (allPairs P))"
    using run by (auto simp: allPairs_def bucket_concat comp_def red_running_def)
  have "reduceLines (pReduce P) (sorter kvs) = outLines P ?r"
    unfolding outLines_def Let_def
    by (rule reduceLines_sorter [OF srt _ kvs(2)]) (use par in \<open>simp add: params_ok_def\<close>)
  then have "job_inv P (setWorker w (ReduceSorted reply (sorter kvs)) (s\<lparr>jmaster := jmaster s, jfs := jfs s\<rparr>))"
    by (intro job_inv_update [OF inv mf fi]) (use run sep in \<open>auto simp: separate_def\<close>)
  then show ?thesis using kvs(1) by (simp add: reduceRead_def)
qed

lemma createOut_inv:
  assumes inv: "job_inv P s" and par: "params_ok P" and w: "jworker s w = ReduceSorted reply kvs"
    and c: "reduceCreate reply (jfs s) = (ino, d)"
  shows "job_inv P (setWorker w (ReduceOpened reply kvs ino) (s\<lparr>jfs := d\<rparr>))"
proof -
  let ?n = "tempOutName (rtReduceTaskNumber reply)"
  from inv have mf: "master_for (pInputs P) (pNRed P) (jmaster s, jfs s)"
    and fi: "files_inv P (jmaster s) (jfs s)"
    and wi: "\<And>v. worker_inv P (jmaster s) (jfs s) (jworker s v)"
    and sep: "\<And>v. v \<noteq> w \<Longrightarrow> separate (jworker s w) (jworker s v)" by (auto simp: job_inv_def)
  have ok: "fs_ok (jfs s)" using fi by (simp add: files_inv_def start_ok_def)
  from c have d: "d = snd (osCreate ?n (jfs s))" "ino = fst (osCreate ?n (jfs s))"
    by (simp_all add: reduceCreate_def)
  have "job_inv P (setWorker w (ReduceOpened reply kvs ino) (s\<lparr>jmaster := jmaster s, jfs := d\<rparr>))"
  proof (rule job_inv_update [OF inv])
    show "master_for (pInputs P) (pNRed P) (jmaster s, d)" using mf by (simp add: master_for_def)
    show "files_inv P (jmaster s) d"
      by (rule files_frame [OF fi par]) (auto simp: d osCreate_ok osCreate_read ok)
    show "worker_inv P (jmaster s) d (ReduceOpened reply kvs ino)"
      using wi [of w] w by (simp add: d osCreate_dir)
    show "readFile n d = readFile n (jfs s) \<and> dir d n = dir (jfs s) n"
      if "v \<noteq> w" "n \<in> footprint (jworker s v)" for v n
    proof -
      have "n \<noteq> ?n" using footprint_names [OF wi that(2)] sep [OF that(1)] w by (auto simp: separate_def)
      then show ?thesis by (simp add: d osCreate_dir osCreate_read ok)
    qed
    show "separate (ReduceOpened reply kvs ino) (jworker s v)" if "v \<noteq> w" for v
      using sep [OF that] w by (simp add: separate_def)
  qed simp
  then show ?thesis by simp
qed

lemma writeOut_inv:
  assumes inv: "job_inv P s" and par: "params_ok P" and w: "jworker s w = ReduceOpened reply kvs ino"
  shows "job_inv P (setWorker w (ReduceWritten (reduceNotify reply))
                      (s\<lparr>jfs := reduceWrite (pReduce P) kvs ino (jfs s)\<rparr>))"
proof -
  let ?n = "tempOutName (rtReduceTaskNumber reply)"
  let ?d = "reduceWrite (pReduce P) kvs ino (jfs s)"
  from inv have mf: "master_for (pInputs P) (pNRed P) (jmaster s, jfs s)"
    and fi: "files_inv P (jmaster s) (jfs s)"
    and wi: "\<And>v. worker_inv P (jmaster s) (jfs s) (jworker s v)"
    and sep: "\<And>v. v \<noteq> w \<Longrightarrow> separate (jworker s w) (jworker s v)" by (auto simp: job_inv_def)
  have ok: "fs_ok (jfs s)" using fi by (simp add: files_inv_def start_ok_def)
  from wi [of w] w have op: "red_running P (jmaster s) reply" "dir (jfs s) ?n = Some ino"
    "reduceLines (pReduce P) kvs = outLines P (rtReduceTaskNumber reply)" by auto
  have rd: "readFile n ?d = (if n = ?n then Some (Text (concat (outLines P (rtReduceTaskNumber reply))))
      else readFile n (jfs s))" for n
    unfolding reduceWrite_def op(3) by (rule writeInode_read [OF ok op(2)])
  have okd: "fs_ok ?d" by (simp add: reduceWrite_def writeInode_ok ok)
  have "job_inv P (setWorker w (ReduceWritten (reduceNotify reply)) (s\<lparr>jmaster := jmaster s, jfs := ?d\<rparr>))"
  proof (rule job_inv_update [OF inv])
    show "master_for (pInputs P) (pNRed P) (jmaster s, ?d)" using mf by (simp add: master_for_def)
    show "files_inv P (jmaster s) ?d"
      by (rule files_frame [OF fi par]) (simp_all add: rd okd)
    show "worker_inv P (jmaster s) ?d (ReduceWritten (reduceNotify reply))"
      using op(1) rd [of ?n] by auto
    show "readFile n ?d = readFile n (jfs s) \<and> dir ?d n = dir (jfs s) n"
      if "v \<noteq> w" "n \<in> footprint (jworker s v)" for v n
    proof -
      have "n \<noteq> ?n" using footprint_names [OF wi that(2)] sep [OF that(1)] w by (auto simp: separate_def)
      then show ?thesis using rd [of n] by (simp add: reduceWrite_def)
    qed
    show "separate (ReduceWritten (reduceNotify reply)) (jworker s v)" if "v \<noteq> w" for v
      using sep [OF that] w by (simp add: separate_def reduceNotify_def)
  qed simp
  then show ?thesis by simp
qed

text \<open>The master publishes a map task's files.\<close>

lemma map_published:
  assumes mw: "map_written P d a" and i: "tdTaskNumber a = int i" and ok: "fs_ok d"
    and rn: "renameInter i (tdFileNames a) [0..<pNRed P] d = Some d'"
  shows "fs_ok d'"
    and "r < pNRed P \<Longrightarrow> \<exists>c. readFile (interName i r) d' = Some c \<and>
            mset (decodeAll c) = mset (bucket (pNRed P) r (pairs P i))"
    and "n \<in> set (tdFileNames a) \<Longrightarrow> \<exists>r x. n = tempName i r x"
    and "n \<notin> set (tdFileNames a) \<Longrightarrow> (\<And>r. n \<noteq> interName i r) \<Longrightarrow>
            readFile n d' = readFile n d \<and> dir d' n = dir d n"
proof -
  have len: "length (tdFileNames a) = pNRed P" using mw by (simp add: map_written_def)
  then have img: "(!) (tdFileNames a) ` {0..<pNRed P} = set (tdFileNames a)"
    using nth_image [of "pNRed P" "tdFileNames a"] by simp
  have tn: "\<exists>x. tdFileNames a ! r = tempName i r x" if "r < pNRed P" for r
    using mw that i by (auto simp: map_written_def)
  have "\<exists>c. readFile (tdFileNames a ! r) d = Some c \<and>
      mset (decodeAll c) = mset (bucket (pNRed P) r (pairs P i))" if "r < pNRed P" for r
    using mw that i by (auto simp: map_written_def)
  then obtain cs where cs: "\<And>r. r < pNRed P \<Longrightarrow> readFile (tdFileNames a ! r) d = Some (cs r) \<and>
      mset (decodeAll (cs r)) = mset (bucket (pNRed P) r (pairs P i))" by metis
  have "distinct (map ((!) (tdFileNames a)) [0..<pNRed P])"
    unfolding distinct_map using tn by (auto simp: inj_on_def) (metis tempName_inject)
  moreover have "tdFileNames a ! r \<noteq> interName i j" if "r < pNRed P" for r j
    using tn [OF that] by auto
  ultimately have R: "fs_ok d'" "\<forall>r \<in> {0..<pNRed P}. readFile (interName i r) d' = Some (cs r)"
    "\<forall>n. n \<notin> interName i ` {0..<pNRed P} \<and> n \<notin> set (tdFileNames a) \<longrightarrow>
       readFile n d' = readFile n d \<and> dir d' n = dir d n"
    using renameInter_spec [of "[0..<pNRed P]" "tdFileNames a" i d cs] cs len rn ok by (auto simp: img)
  show "fs_ok d'" by (rule R(1))
  show "r < pNRed P \<Longrightarrow> \<exists>c. readFile (interName i r) d' = Some c \<and>
      mset (decodeAll c) = mset (bucket (pNRed P) r (pairs P i))" using R(2) cs by auto
  show "n \<in> set (tdFileNames a) \<Longrightarrow> \<exists>r x. n = tempName i r x"
    using tn len by (metis in_set_conv_nth)
  show "n \<notin> set (tdFileNames a) \<Longrightarrow> (\<And>r. n \<noteq> interName i r) \<Longrightarrow>
      readFile n d' = readFile n d \<and> dir d' n = dir d n" using R(3) by blast
qed

lemma files_inv_map:
  assumes fi: "files_inv P m d" and par: "params_ok P" and mw: "map_written P d a"
    and i: "tdTaskNumber a = int i" and rn: "renameInter i (tdFileNames a) [0..<pNRed P] d = Some d'"
  shows "files_inv P (m\<lparr>mapTasks := (mapTasks m)[i := t]\<rparr>) d'"
proof -
  have "fs_ok d" using fi by (simp add: files_inv_def start_ok_def)
  note R = map_published [OF mw i this rn]
  have keep: "readFile n d' = readFile n d"
    if "\<And>j r x. n \<noteq> tempName j r x" "\<And>r. n \<noteq> interName i r" for n
    using R(3) [of n] R(4) [of n] that by blast
  have "start_ok P d'"
    using fi R(1) keep inputs_safe [OF par] by (fastforce simp: files_inv_def start_ok_def)
  moreover have "\<exists>c. readFile (interName j r) d' = Some c \<and> mset (decodeAll c) = mset (bucket (pNRed P) r (pairs P j))"
    if "j < length (pInputs P)" "State ((mapTasks m)[i := t] ! j) = Completed" "r < pNRed P" for j r
  proof (cases "j = i")
    case True
    then show ?thesis using R(2) that(3) by blast
  next
    case False
    then show ?thesis using fi that keep [of "interName j r"] by (simp add: files_inv_def)
  qed
  moreover have "readFile (outName r) d' = readFile (outName r) d" for r by (rule keep) simp_all
  ultimately show ?thesis using fi by (simp add: files_inv_def)
qed

lemma notifyMap_inv:
  assumes inv: "job_inv P s" and par: "params_ok P" and w: "jworker s w = MapWritten a"
    and t: "TaskDone a (jmaster s) (jfs s) = Some (m, d)"
  shows "job_inv P (setWorker w Asking (s\<lparr>jmaster := m, jfs := d\<rparr>))"
proof -
  from inv have mf: "master_for (pInputs P) (pNRed P) (jmaster s, jfs s)"
    and fi: "files_inv P (jmaster s) (jfs s)"
    and wi: "\<And>v. worker_inv P (jmaster s) (jfs s) (jworker s v)"
    and sep: "\<And>v. v \<noteq> w \<Longrightarrow> separate (jworker s w) (jworker s v)" by (auto simp: job_inv_def)
  from wi [of w] w have mw: "map_written P (jfs s) a" by simp
  have "master_step (jmaster s, jfs s) (m, d)" using t by (rule taskDone)
  then have mf': "master_for (pInputs P) (pNRed P) (m, d)" by (rule mr_master.step_inv [OF mf])
  from t show ?thesis
  proof (cases rule: TaskDone_cases)
    case again
    then show ?thesis using job_inv_idle [OF inv, of Asking w] by simp
  next
    case (reduce i name)
    then show ?thesis using mw by (simp add: map_written_def)
  next
    case (map i)
    have rn: "renameInter i (tdFileNames a) [0..<pNRed P] (jfs s) = Some d"
      using map(6) master_for_dest(4) [OF mf] by simp
    have "fs_ok (jfs s)" using fi by (simp add: files_inv_def start_ok_def)
    note R = map_published [OF mw map(2) this rn]
    show ?thesis
    proof (rule job_inv_update [OF inv mf'])
      show "files_inv P m d" unfolding map(5) by (rule files_inv_map [OF fi par mw map(2) rn])
      show "progress (ownTask (jworker s v)) (jmaster s) m" for v
        using map(5) by (auto simp: progress_def dest!: subsetD [OF set_update_subset_insert])
      show "readFile n d = readFile n (jfs s) \<and> dir d n = dir (jfs s) n"
        if "v \<noteq> w" "n \<in> footprint (jworker s v)" for v n
      proof -
        have "n \<notin> set (tdFileNames a)" "n \<noteq> interName i r" for r
          using footprint_names [OF wi that(2)] sep [OF that(1)] w R(3) [of n] by (auto simp: separate_def)
        then show ?thesis using R(4) [of n] by blast
      qed
    qed (auto simp: separate_def)
  qed
qed

lemma notifyReduce_inv:
  assumes inv: "job_inv P s" and par: "params_ok P" and w: "jworker s w = ReduceWritten a"
    and t: "TaskDone a (jmaster s) (jfs s) = Some (m, d)"
  shows "job_inv P (setWorker w Asking (s\<lparr>jmaster := m, jfs := d\<rparr>))"
proof -
  from inv have mf: "master_for (pInputs P) (pNRed P) (jmaster s, jfs s)"
    and fi: "files_inv P (jmaster s) (jfs s)"
    and wi: "\<And>v. worker_inv P (jmaster s) (jfs s) (jworker s v)"
    and sep: "\<And>v. v \<noteq> w \<Longrightarrow> separate (jworker s w) (jworker s v)" by (auto simp: job_inv_def)
  from wi [of w] w obtain reply where a: "a = reduceNotify reply" and
    run: "red_running P (jmaster s) reply" and
    out: "readFile (tempOutName (rtReduceTaskNumber reply)) (jfs s) =
            Some (Text (concat (outLines P (rtReduceTaskNumber reply))))" by auto
  let ?r = "rtReduceTaskNumber reply"
  have "master_step (jmaster s, jfs s) (m, d)" using t by (rule taskDone)
  then have mf': "master_for (pInputs P) (pNRed P) (m, d)" by (rule mr_master.step_inv [OF mf])
  from t show ?thesis
  proof (cases rule: TaskDone_cases)
    case again
    then show ?thesis using job_inv_idle [OF inv, of Asking w] by simp
  next
    case (map i)
    then show ?thesis using a by (simp add: reduceNotify_def)
  next
    case (reduce i name)
    then have d: "d = osRename (tempOutName ?r) (outName ?r) (jfs s)" and i: "i = ?r"
      by (auto simp: a reduceNotify_def go_nth_def)
    have rd: "readFile n d = (if n = outName ?r then Some (Text (concat (outLines P ?r)))
        else if n = tempOutName ?r then None else readFile n (jfs s))" for n
      unfolding d by (rule osRename_read [OF _ out]) simp
    have ok: "fs_ok d" using fi by (simp add: d osRename_ok files_inv_def start_ok_def)
    show ?thesis
    proof (rule job_inv_update [OF inv mf'])
      show "files_inv P m d"
        using fi ok rd inputs_safe [OF par] reduce(3,5) master_for_dest(3) [OF mf]
        by (auto simp: files_inv_def start_ok_def nth_list_update i)
      show "progress (ownTask (jworker s v)) (jmaster s) m" if "v \<noteq> w" for v
        using sep [OF that] w reduce(5) by (auto simp: progress_def separate_def a i reduceNotify_def)
      show "readFile n d = readFile n (jfs s) \<and> dir d n = dir (jfs s) n"
        if "v \<noteq> w" "n \<in> footprint (jworker s v)" for v n
      proof -
        have "n \<noteq> outName ?r" "n \<noteq> tempOutName ?r"
          using footprint_names [OF wi that(2)] sep [OF that(1)] w
          by (auto simp: separate_def a reduceNotify_def)
        then show ?thesis using rd [of n] osRename_dir by (simp add: d)
      qed
    qed (auto simp: separate_def)
  qed
qed

section \<open>The result\<close>

definition orderly :: "(string \<Rightarrow> string \<Rightarrow> KeyValue list) \<Rightarrow> job \<Rightarrow> mr_action \<Rightarrow> bool" where
  "orderly mapf s a \<longleftrightarrow> app_ok mapf s a \<and> reduce_once s a"

definition good_job :: "params \<Rightarrow> job \<Rightarrow> bool" where
  "good_job P s \<longleftrightarrow> params_ok P \<and> job_inv P s"

lemma mr_exec_inv:
  assumes "params_ok P" "job_inv P s" "orderly (pMap P) s a" "mr_exec (pReduce P) a s = Some t"
  shows "job_inv P t"
proof (cases a)
  case (RequestTask w now start)
  obtain m reply where g: "GiveTask now start (jmaster s) = (m, reply)" by fastforce
  then have "rtTaskType reply = ReduceT \<Longrightarrow> State (reduceTasks (jmaster s) ! rtReduceTaskNumber reply) = Idle"
    using assms(3) RequestTask by (simp add: orderly_def)
  from request_inv [OF assms(2) g this] show ?thesis using assms(4) RequestTask g
    by (auto split: wstate.splits simp del: workerNext.simps)
next
  case (RunMap w mapf rnd)
  then obtain reply where w: "jworker s w = MapRun reply" using assms(4) by (auto split: wstate.splits)
  show ?thesis
  proof (cases "handleMapTask mapf rnd reply (jfs s)")
    case (Inl e)
    then show ?thesis using assms(2,4) w RunMap job_inv_idle by auto
  next
    case (Inr x)
    then show ?thesis using assms RunMap w runMap_inv [OF assms(2,1) w, of mapf rnd]
      by (auto simp: orderly_def split: prod.splits)
  qed
next
  case (ReadInter w sorter)
  then obtain reply where w: "jworker s w = ReduceRun reply" using assms(4) by (auto split: wstate.splits)
  then show ?thesis using assms ReadInter readInter_inv [OF assms(2,1) w, of sorter]
    by (auto simp: orderly_def)
next
  case (CreateOut w)
  then show ?thesis using assms createOut_inv [OF assms(2,1)] by (auto split: wstate.splits prod.splits)
next
  case (WriteOut w)
  then show ?thesis using assms writeOut_inv [OF assms(2,1)] by (auto split: wstate.splits)
next
  case (NotifyTaskDone w)
  then obtain args m d where n: "notification (jworker s w) = Some args"
    "TaskDone args (jmaster s) (jfs s) = Some (m, d)" "t = setWorker w Asking (s\<lparr>jmaster := m, jfs := d\<rparr>)"
    using assms(4) by (auto split: option.splits)
  from n(1) consider "jworker s w = MapWritten args" | "jworker s w = ReduceWritten args"
    by (cases "jworker s w") auto
  then show ?thesis using notifyMap_inv [OF assms(2,1) _ n(2)] notifyReduce_inv [OF assms(2,1) _ n(2)] n(3)
    by cases simp_all
next
  case (NotifyLost w)
  then show ?thesis using assms job_inv_idle by (auto split: option.splits)
next
  case (WorkerCrash w)
  then show ?thesis using assms job_inv_idle by auto
qed

interpretation mr_job: inductive_invariant
  "\<lambda>s. params_ok P \<and> (\<exists>d. start_ok P d \<and> s = mr_init (pInputs P) (pNRed P) d)"
  "mr_step (orderly (pMap P)) (pReduce P)" "good_job P" for P
proof
  show "good_job P s" if "params_ok P \<and> (\<exists>d. start_ok P d \<and> s = mr_init (pInputs P) (pNRed P) d)" for s
  proof -
    from that obtain d where d: "params_ok P" "start_ok P d" "s = mr_init (pInputs P) (pNRed P) d" by blast
    then show ?thesis using MakeMaster_inv
      by (auto simp: good_job_def job_inv_def mr_init_def files_inv_def separate_def MakeMaster_def)
  qed
  show "good_job P t" if "good_job P s" "mr_step (orderly (pMap P)) (pReduce P) s t" for s t
    using that mr_exec_inv by (auto simp: good_job_def elim!: mr_stepE)
qed

lemma mset_partition:
  assumes "\<And>k. k \<in> set ks \<Longrightarrow> h k < n"
  shows "mset (concat (map (\<lambda>r. filter (\<lambda>k. h k = r) ks) [0..<n])) = mset ks"
proof (rule multiset_eqI)
  fix x
  have "count (mset (concat (map (\<lambda>r. filter (\<lambda>k. h k = r) ks) [0..<m]))) x =
      (if h x < m then count (mset ks) x else 0)" for m
    by (induction m) auto
  then show "count (mset (concat (map (\<lambda>r. filter (\<lambda>k. h k = r) ks) [0..<n]))) x = count (mset ks) x"
    using assms by (cases "x \<in> set ks") (auto simp: count_eq_zero_iff)
qed

abbreviation keyBucket :: "params \<Rightarrow> string \<Rightarrow> nat" where
  "keyBucket P k \<equiv> nat (ihash k mod int (pNRed P))"

lemma outLines_filter:
  assumes "order_free (pReduce P)"
  shows "outLines P r = map (keyLine (pReduce P) (allPairs P))
           (filter (\<lambda>k. keyBucket P k = r) (keysOf (allPairs P)))"
proof -
  let ?B = "bucket (pNRed P) r (allPairs P)"
  have "keysOf ?B = filter (\<lambda>k. keyBucket P k = r) (keysOf (allPairs P))"
    by (rule sorted_distinct_set_unique) (auto simp: bucket_def sorted_wrt_filter)
  moreover have "map (keyLine (pReduce P) ?B) (keysOf ?B) = map (keyLine (pReduce P) (allPairs P)) (keysOf ?B)"
  proof (rule map_cong [OF refl])
    fix k assume that: "k \<in> set (keysOf ?B)"
    have "keyBucket P k = r" using that by (auto simp: bucket_def)
    then have "filter (\<lambda>x. Key x = k) ?B = filter (\<lambda>x. Key x = k) (allPairs P)"
      by (auto simp: bucket_def intro: filter_cong)
    then show "keyLine (pReduce P) ?B k = keyLine (pReduce P) (allPairs P) k" by (simp only: keyLine_def)
  qed
  ultimately show ?thesis by (simp only: outLines_def Let_def)
qed

lemma outLines_mset:
  assumes "params_ok P"
  shows "mset (concat (map (outLines P) [0..<pNRed P])) =
    mset (map (keyLine (pReduce P) (allPairs P)) (keysOf (allPairs P)))"
proof -
  let ?ks = "keysOf (allPairs P)"
  have of: "order_free (pReduce P)" and n: "0 < pNRed P" using assms by (simp_all add: params_ok_def)
  have "concat (map (outLines P) [0..<pNRed P]) =
      map (keyLine (pReduce P) (allPairs P)) (concat (map (\<lambda>r. filter (\<lambda>k. keyBucket P k = r) ?ks) [0..<pNRed P]))"
    by (simp add: outLines_filter [OF of, abs_def] map_concat comp_def)
  then show ?thesis using mset_partition [of ?ks "keyBucket P" "pNRed P"] bucket_index [OF n]
    by (simp only: mset_map)
qed

lemma readInputs_spec:
  "(\<And>f. f \<in> set fns \<Longrightarrow> readFile f d = Some (Text (txt f))) \<Longrightarrow>
   readInputs mapf fns d = Inr (concat (map (\<lambda>f. mapf f (txt f)) fns))"
  by (induction fns) auto

lemma allPairs_alt: "allPairs P = concat (map (\<lambda>f. pMap P f (pText P f)) (pInputs P))"
proof -
  have "map (pairs P) [0..<length (pInputs P)] = map (\<lambda>f. pMap P f (pText P f)) (pInputs P)"
    by (rule nth_equalityI) (simp_all add: pairs_def)
  then show ?thesis by (simp add: allPairs_def)
qed

text \<open>Property C24: a MapReduce job computes what the sequential program computes. In every execution, with any
  number of workers that may crash, map tasks that are run again and notifications that get
  lost, when the master is done every output file holds the reduce lines of its share of the
  keys, and all of them together are, up to their order, the lines of the sequential program's
  output. The map function may emit its pairs in any order, and all its keys and values are well-formed UTF-8; the
  reduce function does not depend on the order of the values; no input file has a name that begins with \<open>mr-\<close>; each
  reduce task is handed out once.\<close>

theorem mapreduce_correct:
  assumes par: "params_ok P" and d0: "start_ok P d0" and srt: "sorts sorter"
    and run: "(mr_step (orderly (pMap P)) (pReduce P))\<^sup>*\<^sup>* (mr_init (pInputs P) (pNRed P) d0) s"
    and fin: "Done (jmaster s)"
  shows "\<exists>lines ds. mrsequential (pMap P) (pReduce P) sorter (pInputs P) d0 = Inr ds \<and>
    readFile (outName 0) ds = Some (Text (concat (reduceLines (pReduce P) (sorter (allPairs P))))) \<and>
    (\<forall>r < pNRed P. lines r = reduceLines (pReduce P) (sorter (bucket (pNRed P) r (allPairs P))) \<and>
       readFile (outName r) (jfs s) = Some (Text (concat (lines r)))) \<and>
    mset (concat (map lines [0..<pNRed P])) = mset (reduceLines (pReduce P) (sorter (allPairs P)))"
proof -
  have "good_job P s" by (rule mr_job.reachable_inv [OF _ run]) (use par d0 in blast)
  then have inv: "job_inv P s" by (simp add: good_job_def)
  then have mf: "master_for (pInputs P) (pNRed P) (jmaster s, jfs s)" and fi: "files_inv P (jmaster s) (jfs s)"
    by (simp_all add: job_inv_def)
  have of: "order_free (pReduce P)" using par by (simp add: params_ok_def)
  have out: "readFile (outName r) (jfs s) = Some (Text (concat (outLines P r)))" if "r < pNRed P" for r
    using fin fi that master_for_dest(1,3) [OF mf] by (simp add: Done_def master_inv_def files_inv_def)
  have lines: "outLines P r = reduceLines (pReduce P) (sorter (bucket (pNRed P) r (allPairs P)))" for r
    using reduceLines_sorter [OF srt of refl] by (simp add: outLines_def Let_def)
  have "readInputs (pMap P) (pInputs P) d0 = Inr (allPairs P)"
    unfolding allPairs_alt by (rule readInputs_spec) (use d0 in \<open>simp add: start_ok_def\<close>)
  then obtain ds where ds: "mrsequential (pMap P) (pReduce P) sorter (pInputs P) d0 = Inr ds"
    "ds = writeInode (fst (osCreate (outName 0) d0))
            (Text (concat (reduceLines (pReduce P) (sorter (allPairs P))))) (snd (osCreate (outName 0) d0))"
    by (simp add: mrsequential_def split_beta)
  have "readFile (outName 0) ds = Some (Text (concat (reduceLines (pReduce P) (sorter (allPairs P)))))"
    unfolding ds(2) using d0
    by (subst writeInode_read [OF osCreate_ok osCreate_dir(1)]) (simp_all add: start_ok_def)
  moreover have "mset (concat (map (outLines P) [0..<pNRed P])) =
      mset (reduceLines (pReduce P) (sorter (allPairs P)))"
    by (simp only: outLines_mset [OF par] reduceLines_sorter [OF srt of refl])
  ultimately show ?thesis using ds(1) out lines by blast
qed

lemma mr_execs_orderly:
  assumes "mr_execs reduce_once reducef as s = Some t" and "\<And>a u. a \<in> set as \<Longrightarrow> app_ok mapf u a"
  shows "(mr_step (orderly mapf) reducef)\<^sup>*\<^sup>* s t"
proof -
  have "mr_execs (orderly mapf) reducef as s = Some t"
    using assms
  proof (induction as arbitrary: s)
    case (Cons a as)
    then show ?case by (auto simp: orderly_def split: option.splits if_splits)
  qed simp
  then show ?thesis by (rule mr_execs_steps)
qed

text \<open>One input file and two reduce tasks, and the same with one reduce task.\<close>

definition tiny_fs :: fs where
  "tiny_fs = \<lparr>dir = [''pg'' \<mapsto> 0], blob = (\<lambda>_. Text ''to be or not to be''), freshInode = 1\<rparr>"

definition tiny :: "nat \<Rightarrow> params" where
  "tiny n = \<lparr>pInputs = [''pg''], pText = (\<lambda>_. ''to be or not to be''), pMap = wc_Map,
             pReduce = wc_Reduce, pNRed = n\<rparr>"

definition at_time :: "int \<Rightarrow> nat \<Rightarrow> mr_action" where
  "at_time t w = RequestTask w (\<lambda>_. t) t"

definition one_reduce :: "nat \<Rightarrow> int \<Rightarrow> mr_action list" where
  "one_reduce w t = [at_time t w, ReadInter w (sort_key Key), CreateOut w, WriteOut w, NotifyTaskDone w]"

text \<open>Worker 1 dies after it got the map task; worker 0 gets it ten seconds later.\<close>

definition tiny_run :: "mr_action list" where
  "tiny_run = [at_time 1 1, WorkerCrash 1, at_time 12 0, RunMap 0 wc_Map (\<lambda>_. [''x'']), NotifyTaskDone 0] @
     one_reduce 0 13 @ one_reduce 2 13 @ [at_time 14 0]"

definition tiny_end :: job where
  "tiny_end = the (mr_execs reduce_once wc_Reduce tiny_run (mr_init [''pg''] 2 tiny_fs))"

lemma tiny_ok: "params_ok (tiny 2)" "start_ok (tiny 2) tiny_fs"
proof -
  have "\<forall>kv \<in> set (wc_Map ''pg'' ''to be or not to be''). validUTF8 (Key kv) \<and> validUTF8 (Value kv)" by code_simp
  moreover have "allPairs (tiny 2) = wc_Map ''pg'' ''to be or not to be''" by (simp add: allPairs_alt tiny_def)
  ultimately show "params_ok (tiny 2)" using order_free_wc by (simp add: params_ok_def) (simp add: tiny_def)
  show "start_ok (tiny 2) tiny_fs" by (simp add: start_ok_def tiny_def tiny_fs_def readFile_def fs_ok_def)
qed

theorem mapreduce_correct_witness:
  "mset (concat (map (\<lambda>r. reduceLines wc_Reduce (sort_key Key (bucket 2 r (wc_Map ''pg'' ''to be or not to be'')))) [0..<2]))
     = mset (reduceLines wc_Reduce (sort_key Key (wc_Map ''pg'' ''to be or not to be''))) \<and>
   readFile (outName 0) (jfs tiny_end) \<noteq> None"
proof -
  have "mr_execs reduce_once wc_Reduce tiny_run (mr_init [''pg''] 2 tiny_fs) \<noteq> None" by code_simp
  then have "mr_execs reduce_once wc_Reduce tiny_run (mr_init [''pg''] 2 tiny_fs) = Some tiny_end"
    by (auto simp: tiny_end_def)
  then have run: "(mr_step (orderly wc_Map) wc_Reduce)\<^sup>*\<^sup>* (mr_init [''pg''] 2 tiny_fs) tiny_end"
    by (rule mr_execs_orderly) (auto simp: tiny_run_def one_reduce_def at_time_def sorts_sort_key)
  have fin: "Done (jmaster tiny_end)" unfolding tiny_end_def by code_simp
  have sel: "pMap (tiny 2) = wc_Map" "pReduce (tiny 2) = wc_Reduce" "pInputs (tiny 2) = [''pg'']" "pNRed (tiny 2) = 2"
    by (simp_all add: tiny_def)
  have all: "allPairs (tiny 2) = wc_Map ''pg'' ''to be or not to be''"
    by (simp add: allPairs_alt tiny_def)
  from mapreduce_correct [OF tiny_ok sorts_sort_key, unfolded sel all, OF run fin]
  obtain lines where
    l: "\<forall>r < 2. lines r = reduceLines wc_Reduce (sort_key Key (bucket 2 r (wc_Map ''pg'' ''to be or not to be''))) \<and>
         readFile (outName r) (jfs tiny_end) = Some (Text (concat (lines r)))"
    "mset (concat (map lines [0..<2])) =
       mset (reduceLines wc_Reduce (sort_key Key (wc_Map ''pg'' ''to be or not to be'')))" by blast
  have "map lines [0..<2] =
      map (\<lambda>r. reduceLines wc_Reduce (sort_key Key (bucket 2 r (wc_Map ''pg'' ''to be or not to be'')))) [0..<2]"
    using l(1) by (intro map_cong) auto
  with l show ?thesis by auto
qed

section \<open>A reduce task that is handed out twice\<close>

text \<open>
  The temporary output file of a reduce task has a fixed name: \<open>os.Create\<close> is called with the
  pattern, whose star is only replaced by \<open>ioutil.TempFile\<close>. Worker 0 is slow; after ten
  seconds the task goes to worker 1, which writes the file; then worker 0 opens, and so
  truncates, the same file and dies, and the master publishes the empty file for worker 1.
\<close>

definition any_action :: "job \<Rightarrow> mr_action \<Rightarrow> bool" where
  "any_action s a = True"

definition lost_run :: "mr_action list" where
  "lost_run = [at_time 1 0, RunMap 0 wc_Map (\<lambda>_. [''x'']), NotifyTaskDone 0,
     at_time 2 0, ReadInter 0 (sort_key Key),
     at_time 20 1, ReadInter 1 (sort_key Key), CreateOut 1, WriteOut 1,
     CreateOut 0, WorkerCrash 0, NotifyTaskDone 1, at_time 21 1]"

text \<open>Property C26: when a reduce task is handed out twice its output can be lost: there is an execution at the end
  of which the master is done, every task is completed, and the output file is empty, though the
  sequential program writes four lines.\<close>

theorem reduce_output_lost:
  "\<exists>s. mr_execs any_action wc_Reduce lost_run (mr_init [''pg''] 1 tiny_fs) = Some s \<and>
     Done (jmaster s) \<and> readFile (outName 0) (jfs s) = Some (Text []) \<and>
     length (reduceLines wc_Reduce (sort_key Key (allPairs (tiny 1)))) = 4"
proof -
  let ?r = "mr_execs any_action wc_Reduce lost_run (mr_init [''pg''] 1 tiny_fs)"
  have "?r \<noteq> None" by code_simp
  then have "?r = Some (the ?r)" by auto
  moreover have "Done (jmaster (the ?r))" by code_simp
  moreover have "readFile (outName 0) (jfs (the ?r)) = Some (Text [])" by code_simp
  moreover have "length (reduceLines wc_Reduce (sort_key Key (allPairs (tiny 1)))) = 4" by code_simp
  ultimately show ?thesis by blast
qed

section \<open>A key that is not well-formed UTF-8\<close>

text \<open>A map function whose only key is the byte 0xFF: the workers write the character U+FFFD in its place, the
  sequential program the byte.\<close>

definition byte_Map :: "string \<Rightarrow> string \<Rightarrow> KeyValue list" where
  "byte_Map f c = [\<lparr>Key = [char_of (0xFF :: nat)], Value = ''1''\<rparr>]"

definition byte_run :: "mr_action list" where
  "byte_run = [at_time 1 0, RunMap 0 byte_Map (\<lambda>_. [''x'']), NotifyTaskDone 0] @ one_reduce 0 2 @ [at_time 3 0]"

theorem invalid_key_replaced:
  "\<exists>s ds. mr_execs reduce_once wc_Reduce byte_run (mr_init [''pg''] 1 tiny_fs) = Some s \<and> Done (jmaster s) \<and>
     readFile (outName 0) (jfs s) = Some (Text (replacementChar @ '' 1\<newline>'')) \<and>
     mrsequential byte_Map wc_Reduce (sort_key Key) [''pg''] tiny_fs = Inr ds \<and>
     readFile (outName 0) ds = Some (Text ([char_of (0xFF :: nat)] @ '' 1\<newline>''))"
proof -
  let ?r = "mr_execs reduce_once wc_Reduce byte_run (mr_init [''pg''] 1 tiny_fs)"
  let ?q = "mrsequential byte_Map wc_Reduce (sort_key Key) [''pg''] tiny_fs"
  have "?r \<noteq> None" by code_simp
  then have "?r = Some (the ?r)" by auto
  moreover have "Done (jmaster (the ?r))" by code_simp
  moreover have "readFile (outName 0) (jfs (the ?r)) = Some (Text (replacementChar @ '' 1\<newline>''))" by code_simp
  moreover have "map_sum (\<lambda>_. ()) (readFile (outName 0)) ?q = Inr (Some (Text ([char_of (0xFF :: nat)] @ '' 1\<newline>'')))" by code_simp
  then obtain ds where "?q = Inr ds" "readFile (outName 0) ds = Some (Text ([char_of (0xFF :: nat)] @ '' 1\<newline>''))"
    by (cases ?q) auto
  ultimately show ?thesis by blast
qed

end
