(* ===== verification/CheckerPartial.thy ===== *)
theory CheckerPartial
  imports CheckerOps
begin

text \<open>
  The partial linearizations that a verbose check returns. Every sequence that \<open>checkSingle\<close> stores for
  \<open>longest\<close> is a run of the model over some of the operations, in an order that respects real time.
\<close>

section \<open>The stack of the search\<close>

definition partialBy :: "'st hist \<Rightarrow> 'st \<Rightarrow> nat list \<Rightarrow> bool" where
  "partialBy H st as \<longleftrightarrow> distinct as \<and> set as \<subseteq> callsLeft H {} \<and>
     sorted_wrt (\<lambda>a a'. \<forall>b. hmt H a' = Some b \<longrightarrow> b < a) as \<and> runBy H st as"

context good_hist
begin

lemma stack_runs:
  assumes inv: "ainv H eq ini s"
  shows "runBy H ini (map fst (acalls s))"
proof -
  have "runBy H (stateAt (acalls s) (acur s) j) (map fst (drop j (acalls s)))" if "j \<le> length (acalls s)" for j
    using that
  proof (induction j rule: inc_induct)
    case base
    then show ?case by simp
  next
    case (step j)
    have "level_ok H eq (acache s) (acalls s) (acur s) j" using inv step by (simp add: ainv_def)
    moreover have "stateAt (acalls s) (acur s) j = snd (acalls s ! j)" using step by (simp add: stateAt_def)
    moreover have "drop j (acalls s) = (acalls s ! j) # drop (Suc j) (acalls s)"
      using step by (simp add: Cons_nth_drop_Suc)
    ultimately show ?case using step.IH by (auto simp: level_ok_def Let_def)
  qed
  from this [of 0] show ?thesis using inv by (simp add: ainv_def)
qed

lemma stack_level:
  assumes inv: "ainv H eq ini s" and j: "j < length (acalls s)" and decr: "sorted_wrt (>) (hL H)"
  shows "fst (acalls s ! j) \<in> callsLeft H (opIds H (take j (acalls s)))"
    and "\<forall>a' \<in> callsLeft H (opIds H (take j (acalls s))) - {fst (acalls s ! j)}. \<forall>b. hmt H a' = Some b \<longrightarrow> b < fst (acalls s ! j)"
proof -
  let ?a = "fst (acalls s ! j)" and ?S = "opIds H (take j (acalls s))"
  have "level_ok H eq (acache s) (acalls s) (acur s) j" using inv j by (simp add: ainv_def)
  then have "hmt H ?a \<noteq> None" "\<exists>pre suf. remaining H ?S = pre @ ?a # suf \<and> (\<forall>c \<in> set pre. hmt H c \<noteq> None)"
    by (auto simp: level_ok_def Let_def)
  then show "?a \<in> callsLeft H ?S" "\<forall>a' \<in> callsLeft H ?S - {?a}. \<forall>b. hmt H a' = Some b \<longrightarrow> b < ?a"
    using candidate_iff [OF decr, of ?a ?S] by blast+
qed

lemma callsLeft_mono: "S \<subseteq> T \<Longrightarrow> callsLeft H T \<subseteq> callsLeft H S"
  by (auto simp: callsLeft_def remaining_def)

lemma stack_partial:
  assumes inv: "ainv H eq ini s" and decr: "sorted_wrt (>) (hL H)"
  shows "partialBy H ini (map fst (acalls s))"
proof -
  let ?cs = "acalls s"
  note lev = stack_level [OF inv _ decr]
  have "card (hoid H ` fst ` set ?cs) = length ?cs" using ainv_opIds [OF inv order_refl] by (simp add: opIds_def)
  then have "length ?cs \<le> card (fst ` set ?cs)" by (metis card_image_le finite_imageI finite_set)
  then have "distinct (map fst ?cs)" using card_length [of "map fst ?cs"] by (intro card_distinct) simp
  moreover have "set (map fst ?cs) \<subseteq> callsLeft H {}"
    using lev(1) callsLeft_mono [of "{}"] by (fastforce simp: in_set_conv_nth)
  moreover have "b < fst (?cs ! i)" if ij: "i < j" "j < length ?cs" and b: "hmt H (fst (?cs ! j)) = Some b" for i j b
  proof -
    have t: "?cs ! i \<in> set (take j ?cs)" using ij by (auto simp: in_set_conv_nth intro!: exI [of _ i])
    have "opIds H (take i ?cs) \<subseteq> opIds H (take j ?cs)"
      using ij set_take_subset_set_take [of i j ?cs] by (auto simp: opIds_def)
    then have "fst (?cs ! j) \<in> callsLeft H (opIds H (take i ?cs))" using lev(1) [OF ij(2)] callsLeft_mono by blast
    moreover have "fst (?cs ! j) \<noteq> fst (?cs ! i)"
      using lev(1) [OF ij(2)] t by (auto simp: callsLeft_def remaining_def opIds_def)
    ultimately show ?thesis using lev(2) [of i] ij b by auto
  qed
  ultimately show ?thesis using stack_runs [OF inv] by (simp add: partialBy_def sorted_wrt_iff_nth_less)
qed

end

section \<open>The stored sequences\<close>

definition stored_ok :: "int list set \<Rightarrow> nat option list \<Rightarrow> int list list \<Rightarrow> bool" where
  "stored_ok Q lg sq \<longleftrightarrow> set sq \<subseteq> Q \<and> (\<forall>x. Some x \<in> set lg \<longrightarrow> x < length sq)"

lemma updateLongest_stored:
  assumes "updateLongest k ids is lg sq p = Some (lg', sq')" and "stored_ok Q lg sq" and "ids \<in> Q"
    and "\<forall>x. p = Some x \<longrightarrow> x < length sq"
  shows "stored_ok Q lg' sq'"
  using assms
proof (induction "is" arbitrary: lg sq p)
  case (Cons i "is")
  obtain old where old: "go_nth lg i = Some old" using Cons.prems(1) by (auto split: option.splits)
  have put: "stored_ok Q (lg[nat i := Some x]) sq" if "x < length sq" for x
    using Cons.prems(2) that set_update_subset_insert [of lg "nat i" "Some x"] by (auto simp: stored_ok_def)
  have new: "stored_ok Q (lg[nat i := Some (length sq)]) (sq @ [ids])"
    using Cons.prems(2,3) set_update_subset_insert [of lg "nat i" "Some (length sq)"]
    by (auto simp: stored_ok_def less_Suc_eq)
  show ?case
  proof (cases "case old of None \<Rightarrow> True | Some q \<Rightarrow> k > length (sq ! q)")
    case True
    then show ?thesis using Cons.prems old put new Cons.IH by (cases p) fastforce+
  next
    case False
    then show ?thesis using Cons.prems old Cons.IH by fastforce
  qed
qed simp

lemma checkStep_stored:
  assumes "checkStep model computePartial headEntry s = Some (Continue s')" and "callIds (hp s) (calls s) = Some ids"
    and "ids \<in> Q" and "stored_ok Q (longest s) (seqs s)"
  shows "stored_ok Q (longest s') (seqs s')"
  using assms
  by (auto simp: checkStep_def pushCall_def popCall_def Let_def split: Option.bind_splits if_splits prod.splits
      dest: updateLongest_stored)

definition sequences :: "'st hist \<Rightarrow> 'v heap \<Rightarrow> 'st \<Rightarrow> int list set" where
  "sequences H h0 ini = {map (\<lambda>a. nid (h0 ! a)) as | as. partialBy H ini as}"

context search_heap
begin

lemma loop_stored:
  assumes decr: "sorted_wrt (>) (hL H)"
    and "simrel H h0 n s a" and "ainv H eq ini a" and "stored_ok (sequences H h0 ini) (longest s) (seqs s)"
    and "checkLoop model computePartial kill n headEntry k s = Some (Some (r, lg, sq))"
  shows "stored_ok (sequences H h0 ini) lg sq"
  using assms(2-)
proof (induction "ameasure H a" arbitrary: a s k rule: less_induct)
  case less
  note sim = less.prems(1) and inv = less.prems(2)
  let ?r = "remaining H (aS H a)" and ?ids = "map (\<lambda>c. nid (h0 ! fst c)) (acalls a)"
  note d = sim_heap [OF sim inv]
  have hd: "deref (Some headEntry) (hp s) = Some (hp s ! headEntry)" "nnext (hp s ! headEntry) = first ?r None"
    using dll_bounded [OF d(1)] dll_next [of "hp s" "[]"] d(1) by (auto simp: deref_def)
  note ids = sim_callIds [OF sim inv]
  have new: "?ids \<in> sequences H h0 ini"
    using stack_partial [OF inv decr] by (auto simp: sequences_def intro!: exI [of _ "map fst (acalls a)"])
  note run = less.prems(4) [unfolded checkLoop.simps [of model computePartial kill n headEntry k s]]
  consider (finished) "?r = []" | (killed) "?r \<noteq> []" "kill k" | (round) "?r \<noteq> []" "\<not> kill k" by blast
  then show ?case
  proof cases
    case finished
    then have "lg = replicate n (Some (length (seqs s)))" "sq = seqs s @ [?ids]"
      using run hd ids by (simp_all add: finish_def)
    then show ?thesis using less.prems(3) new by (auto simp: stored_ok_def)
  next
    case killed
    then have "lg = longest s" "sq = seqs s" using run hd by (auto simp: first_def split: list.splits)
    then show ?thesis using less.prems(3) by simp
  next
    case round
    then have loop: "(case checkStep model computePartial headEntry s of
               None \<Rightarrow> Some None
             | Some (Return r) \<Rightarrow> Some (Some r)
             | Some (Continue s') \<Rightarrow> checkLoop model computePartial kill n headEntry (Suc k) s') = Some (Some (r, lg, sq))"
      using run hd by (auto simp: first_def split: list.splits)
    show ?thesis
    proof (cases "around H eq a")
      case None
      then show ?thesis using loop sim_round [OF sim inv round(1)] less.prems(3) by simp
    next
      case (Some a')
      then obtain s' where s': "checkStep model computePartial headEntry s = Some (Continue s')" "simrel H h0 n s' a'"
        using sim_round [OF sim inv round(1)] by auto
      show ?thesis
        using less.hyps [OF around_measure [OF inv round(1) Some] s'(2) around_inv [OF inv round(1) Some]
            checkStep_stored [OF s'(1) ids new less.prems(3)], of "Suc k"] loop s'(1) by simp
    qed
  qed
qed

end

section \<open>Partial linearizations\<close>

text \<open>
  An order of some of the operations that the model accepts one after the other, in which no operation
  comes before one that had returned when it was called.
\<close>

definition partialLin :: "('v, 'st) Model \<Rightarrow> 'v entry list \<Rightarrow> int list \<Rightarrow> bool" where
  "partialLin model es ids \<longleftrightarrow> distinct ids \<and> set ids \<subseteq> eid ` set es \<and>
     sorted_wrt (\<lambda>i j. \<not> entryPos es returnEntry j < entryPos es callEntry i) ids \<and>
     legal model es (Init model) ids"

lemma partialBy_partialLin:
  assumes wf: "wfEntries es" and p: "partialBy (histOf model es) (Init model) as"
  shows "partialLin model es (map (\<lambda>a. nid (startHeap es ! a)) as)"
proof -
  have sub: "set as \<subseteq> callNodes es" using p callNodes_callsLeft [OF wf] by (auto simp: partialBy_def)
  then have ids: "map (\<lambda>a. nid (startHeap es ! a)) as = map (idAt es) as"
    using startHeap_data(2) [OF wf] by (auto simp: callNodes_def)
  have "distinct (map (idAt es) as)"
    using p inj_on_subset [OF idAt_inj [OF wf] sub] by (simp add: distinct_map partialBy_def)
  moreover have "set (map (idAt es) as) \<subseteq> eid ` set es" using image_mono [OF sub, of "idAt es"] unfolding idAt_image [OF wf] by simp
  ultimately show ?thesis
    using p order_idAt [OF wf sub, of model] legal_runBy [OF wf sub, of model "Init model"]
    unfolding ids partialLin_def by (auto simp: partialBy_def)
qed

lemma checkSingle_partials:
  assumes ok: "checkable model es" and run: "checkSingle model es computePartial kill = Some (Some (r, lg, sq))"
  shows "\<forall>q \<in> set (partials lg sq). partialLin model es q"
proof -
  have e: "theEntries model es = es" and wf: "wfEntries es" using ok by (auto simp: theEntries_def checkable_def)
  obtain s a where s: "checkLoop model computePartial kill (length es div 2) (length es) 0 s = Some (Some (r, lg, sq))"
    "simrel (histOf model es) (startHeap es) (length es div 2) s a"
    "ainv (histOf model es) (modelEqual model) (Init model) a" "longest s = replicate (length es div 2) None" "seqs s = []"
    using checkSingle_start [OF ok, of computePartial kill] run by metis
  have "stored_ok (sequences (histOf model es) (startHeap es) (Init model)) (longest s) (seqs s)"
    using s(4,5) by (auto simp: stored_ok_def)
  from ch.loop_stored [of model es s a "Init model" computePartial kill 0 r lg sq, unfolded e, OF _ s(2,3) this s(1)]
  have "stored_ok (sequences (histOf model es) (startHeap es) (Init model)) lg sq"
    by (simp add: sorted_wrt_rev)
  then have "set (partials lg sq) \<subseteq> sequences (histOf model es) (startHeap es) (Init model)"
    by (fastforce simp: stored_ok_def partials_def map_filter_def)
  then show ?thesis using partialBy_partialLin [OF wf] by (auto simp: sequences_def)
qed

lemma checkParallel_info:
  assumes ok: "\<forall>es \<in> set hist. checkable model es"
    and run: "checkParallel model hist True kills arrivals = Some (res, info)"
  shows "liHistory info = hist" "length (partialLinearizations info) = length hist"
    "\<forall>i < length hist. \<forall>q \<in> set (partialLinearizations info ! i). partialLin model (hist ! i) q"
proof -
  obtain rs where rs: "runSingles model hist True kills = Some rs"
    and info: "info = \<lparr>liHistory = hist, partialLinearizations = map (\<lambda>(r, lg, sq). partials lg sq) rs\<rparr>"
    using run by (auto simp: checkParallel_def split: Option.bind_splits)
  show "liHistory info = hist" by (simp add: info)
  have all: "those (map (\<lambda>i. Option.bind (checkSingle model (hist ! i) True (kills i)) id) [0..<length hist]) = Some rs"
    using rs by (simp add: runSingles_def)
  then have len: "length rs = length hist" using those_eq_Some_length [OF all] by simp
  then show "length (partialLinearizations info) = length hist" by (simp add: info)
  have "Option.bind (checkSingle model (hist ! i) True (kills i)) id = Some (rs ! i)" if "i < length hist" for i
    using list_all2_nthD [OF those_map_SomeD [OF all], of i] that by simp
  then have "checkSingle model (hist ! i) True (kills i) = Some (Some (rs ! i))" if "i < length hist" for i
    using that by (auto simp: Option.bind_eq_Some_conv)
  then have part: "\<forall>q \<in> set (partials (fst (snd (rs ! i))) (snd (snd (rs ! i)))). partialLin model (hist ! i) q"
    if "i < length hist" for i
    using checkSingle_partials [of model "hist ! i" True "kills i" "fst (rs ! i)" "fst (snd (rs ! i))" "snd (snd (rs ! i))"]
      ok nth_mem [OF that] that by (simp only: prod.collapse) blast
  show "\<forall>i < length hist. \<forall>q \<in> set (partialLinearizations info ! i). partialLin model (hist ! i) q"
    using part len by (simp add: info case_prod_beta)
qed

end
