(* ===== verification/Visualize.thy ===== *)
theory Visualize
  imports CheckerPartial KvCheck
begin

text \<open>
  \<open>computeVisualizationData\<close> of \<open>src/src/porcupine/visualization.go\<close>, which turns the information of a
  verbose check into what is drawn. \<open>None\<close> is a panic: an index out of range, a description or a step
  that panics, or the explicit panic on a partial linearization that the model refuses.

  Three things are parameters: \<open>sort.Slice\<close>, whose result is not determined for slices of equal length,
  the verb \<open>%v\<close> of \<open>fmt\<close> on a value and on a state, and the \<open>interface{}\<close> value \<open>nil\<close> that a lookup in
  one of the two maps of values gives for an absent number. The two functions of a model that describe
  operations and states are kept in a record of their own. Writing the data as JSON into the HTML page
  is not modelled.
\<close>

section \<open>Descriptions\<close>

record ('v, 'st) Describe =
  DescribeOperation :: "('v \<Rightarrow> 'v \<Rightarrow> string option) option"
  DescribeState :: "('st \<Rightarrow> string) option"

definition DefaultDescribeOperation :: "('v \<Rightarrow> string) \<Rightarrow> 'v \<Rightarrow> 'v \<Rightarrow> string option" where
  "DefaultDescribeOperation fmtV input output = Some (fmtV input @ '' -> '' @ fmtV output)"

definition DefaultDescribeState :: "('st \<Rightarrow> string) \<Rightarrow> 'st \<Rightarrow> string" where
  "DefaultDescribeState fmtS st = fmtS st"

text \<open>The last two cases of \<open>fillDefault\<close>.\<close>

definition fillDescribe :: "('v \<Rightarrow> string) \<Rightarrow> ('st \<Rightarrow> string) \<Rightarrow> ('v, 'st) Describe \<Rightarrow> ('v, 'st) Describe" where
  "fillDescribe fmtV fmtS d =
     (let d = (if DescribeOperation d = None then d\<lparr>DescribeOperation := Some (DefaultDescribeOperation fmtV)\<rparr> else d)
      in if DescribeState d = None then d\<lparr>DescribeState := Some (DefaultDescribeState fmtS)\<rparr> else d)"

section \<open>Data\<close>

record historyElement =
  heClientId :: int
  heStart :: int
  heEnd :: int
  heDescription :: string

record linearizationStep =
  lsIndex :: int
  lsStateDescription :: string

record partitionVisualizationData =
  History :: "historyElement list"
  PartialLinearizations :: "linearizationStep list list"
  Largest :: "int \<rightharpoonup> int"

definition valueAt :: "'v \<Rightarrow> (int \<rightharpoonup> 'v) \<Rightarrow> int \<Rightarrow> 'v" where
  "valueAt nilv m i = (case m i of None \<Rightarrow> nilv | Some v \<Rightarrow> v)"

section \<open>The history of a partition\<close>

record 'v visHistory =
  vhHistory :: "historyElement list"
  callValue :: "int \<rightharpoonup> 'v"
  returnValue :: "int \<rightharpoonup> 'v"

definition visEntry ::
    "('v \<Rightarrow> 'v \<Rightarrow> string option) \<Rightarrow> 'v \<Rightarrow> 'v entry \<Rightarrow> 'v visHistory \<Rightarrow> 'v visHistory option" where
  "visEntry describe nilv elem s =
     do {
       he \<leftarrow> go_nth (vhHistory s) (eid elem);
       case kind elem of
         callEntry \<Rightarrow>
           do {
             h \<leftarrow> go_upd (vhHistory s) (eid elem) (he\<lparr>heClientId := eclientId elem, heStart := etime elem\<rparr>);
             Some (s\<lparr>vhHistory := h, callValue := (callValue s)(eid elem \<mapsto> val elem)\<rparr>)
           }
       | returnEntry \<Rightarrow>
           do {
             d \<leftarrow> describe (valueAt nilv (callValue s) (eid elem)) (val elem);
             h \<leftarrow> go_upd (vhHistory s) (eid elem) (he\<lparr>heEnd := etime elem, heDescription := d\<rparr>);
             Some (s\<lparr>vhHistory := h, returnValue := (returnValue s)(eid elem \<mapsto> val elem)\<rparr>)
           }
     }"

fun visEntries ::
    "('v \<Rightarrow> 'v \<Rightarrow> string option) \<Rightarrow> 'v \<Rightarrow> 'v entry list \<Rightarrow> 'v visHistory \<Rightarrow> 'v visHistory option" where
  "visEntries describe nilv [] s = Some s"
| "visEntries describe nilv (elem # es) s = visEntry describe nilv elem s \<bind> visEntries describe nilv es"

section \<open>The partial linearizations of a partition\<close>

text \<open>
  The inner loop, over the numbers of one partial linearization of length \<open>plen\<close> that is the \<open>i\<close>-th; \<open>lsz\<close>
  and \<open>lix\<close> are \<open>largestSize\<close> and \<open>largestIndex\<close>.
\<close>

fun visSteps ::
    "('v, 'st) Model \<Rightarrow> ('st \<Rightarrow> string) \<Rightarrow> (int \<Rightarrow> 'v) \<Rightarrow> (int \<Rightarrow> 'v) \<Rightarrow> int \<Rightarrow> int \<Rightarrow> int list \<Rightarrow> 'st
      \<Rightarrow> (int \<rightharpoonup> int) \<Rightarrow> (int \<rightharpoonup> int) \<Rightarrow> (linearizationStep list \<times> (int \<rightharpoonup> int) \<times> (int \<rightharpoonup> int)) option" where
  "visSteps model describeState callV returnV plen i [] st lsz lix = Some ([], lsz, lix)"
| "visSteps model describeState callV returnV plen i (histId # ids) st lsz lix =
     do {
       (ok, st) \<leftarrow> Step model st (callV histId) (returnV histId);
       if \<not> ok then None
       else
         do {
           let step = \<lparr>lsIndex = histId, lsStateDescription = describeState st\<rparr>;
           let larger = valueAt 0 lsz histId < plen;
           let lsz = (if larger then lsz(histId \<mapsto> plen) else lsz);
           let lix = (if larger then lix(histId \<mapsto> i) else lix);
           (steps, lsz, lix) \<leftarrow> visSteps model describeState callV returnV plen i ids st lsz lix;
           Some (step # steps, lsz, lix)
         }
     }"

fun visPartials ::
    "('v, 'st) Model \<Rightarrow> ('st \<Rightarrow> string) \<Rightarrow> (int \<Rightarrow> 'v) \<Rightarrow> (int \<Rightarrow> 'v) \<Rightarrow> int \<Rightarrow> int list list
      \<Rightarrow> (int \<rightharpoonup> int) \<Rightarrow> (int \<rightharpoonup> int) \<Rightarrow> (linearizationStep list list \<times> (int \<rightharpoonup> int)) option" where
  "visPartials model describeState callV returnV i [] lsz lix = Some ([], lix)"
| "visPartials model describeState callV returnV i (partial # ps) lsz lix =
     do {
       (steps, lsz, lix) \<leftarrow>
         visSteps model describeState callV returnV (int (length partial)) i partial (Init model) lsz lix;
       (lins, lix) \<leftarrow> visPartials model describeState callV returnV (i + 1) ps lsz lix;
       Some (steps # lins, lix)
     }"

text \<open>The data of one partition, and its partial linearizations as \<open>sort.Slice\<close> leaves them.\<close>

definition visPartition ::
    "(int list list \<Rightarrow> int list list) \<Rightarrow> 'v \<Rightarrow> ('v, 'st) Describe \<Rightarrow> ('v, 'st) Model \<Rightarrow> 'v entry list
      \<Rightarrow> int list list \<Rightarrow> (partitionVisualizationData \<times> int list list) option" where
  "visPartition sorter nilv d model hist ps =
     do {
       let n = length hist div 2;
       s \<leftarrow> visEntries (the (DescribeOperation d)) nilv hist
             \<lparr>vhHistory = replicate n \<lparr>heClientId = 0, heStart = 0, heEnd = 0, heDescription = ''''\<rparr>,
              callValue = Map.empty, returnValue = Map.empty\<rparr>;
       let ps = sorter ps;
       (lins, lix) \<leftarrow> visPartials model (the (DescribeState d)) (valueAt nilv (callValue s))
                       (valueAt nilv (returnValue s)) 0 ps Map.empty Map.empty;
       Some (\<lparr>History = vhHistory s, PartialLinearizations = lins, Largest = lix\<rparr>, ps)
     }"

fun visPartitions ::
    "(int list list \<Rightarrow> int list list) \<Rightarrow> 'v \<Rightarrow> ('v, 'st) Describe \<Rightarrow> ('v, 'st) Model \<Rightarrow> 'v linearizationInfo
      \<Rightarrow> nat list \<Rightarrow> (partitionVisualizationData list \<times> int list list list) option" where
  "visPartitions sorter nilv d model info [] = Some ([], partialLinearizations info)"
| "visPartitions sorter nilv d model info (k # ks) =
     do {
       hist \<leftarrow> go_nth (liHistory info) (int k);
       ps \<leftarrow> go_nth (partialLinearizations info) (int k);
       (pd, ps) \<leftarrow> visPartition sorter nilv d model hist ps;
       (pds, pls) \<leftarrow> visPartitions sorter nilv d model
                      (info\<lparr>partialLinearizations := (partialLinearizations info)[k := ps]\<rparr>) ks;
       Some (pd # pds, pls)
     }"

definition computeVisualizationData ::
    "(int list list \<Rightarrow> int list list) \<Rightarrow> 'v \<Rightarrow> ('v \<Rightarrow> string) \<Rightarrow> ('st \<Rightarrow> string) \<Rightarrow> ('v, 'st) Describe
      \<Rightarrow> ('v, 'st) Model \<Rightarrow> 'v linearizationInfo \<Rightarrow> (partitionVisualizationData list \<times> int list list list) option" where
  "computeVisualizationData sorter nilv fmtV fmtS d model info =
     visPartitions sorter nilv (fillDescribe fmtV fmtS d) (fillDefault model) info [0..<length (liHistory info)]"

section \<open>Largest\<close>

text \<open>The states the model goes through when it takes the operations one after the other.\<close>

primrec runStates :: "('v, 'st) Model \<Rightarrow> (int \<Rightarrow> 'v) \<Rightarrow> (int \<Rightarrow> 'v) \<Rightarrow> 'st \<Rightarrow> int list \<Rightarrow> 'st list" where
  "runStates model inp out st [] = []"
| "runStates model inp out st (i # is) =
     (case Step model st (inp i) (out i) of None \<Rightarrow> [] | Some (ok, st') \<Rightarrow> st' # runStates model inp out st' is)"

lemma runStates_cong:
  "(\<And>i. i \<in> set is \<Longrightarrow> inp i = inp' i \<and> out i = out' i) \<Longrightarrow> runStates model inp out st is = runStates model inp' out' st is"
  by (induction "is" arbitrary: st) (auto split: option.split)

text \<open>What one partial linearization does to the two maps, and what is drawn of it.\<close>

lemma visSteps_ok:
  assumes "legal model es st ids"
    and "\<And>i. i \<in> set ids \<Longrightarrow> callV i = val (es ! entryPos es callEntry i) \<and> returnV i = val (es ! entryPos es returnEntry i)"
  shows "\<exists>steps. visSteps model describeState callV returnV plen i ids st lsz lix =
     Some (steps, (\<lambda>h. if h \<in> set ids \<and> valueAt 0 lsz h < plen then Some plen else lsz h),
                  (\<lambda>h. if h \<in> set ids \<and> valueAt 0 lsz h < plen then Some i else lix h)) \<and> map lsIndex steps = ids \<and>
     map lsStateDescription steps = map describeState (runStates model callV returnV st ids)"
  using assms
proof (induction ids arbitrary: st lsz lix)
  case Nil
  then show ?case by simp
next
  case (Cons h ids)
  obtain t where t: "Step model st (val (es ! entryPos es callEntry h)) (val (es ! entryPos es returnEntry h)) = Some (True, t)"
    "legal model es t ids" using Cons.prems(1) by (auto split: option.splits prod.splits bool.splits)
  let ?c = "valueAt 0 lsz h < plen"
  let ?lsz = "if ?c then lsz(h \<mapsto> plen) else lsz" and ?lix = "if ?c then lix(h \<mapsto> i) else lix"
  obtain steps where steps: "visSteps model describeState callV returnV plen i ids t ?lsz ?lix =
     Some (steps, (\<lambda>x. if x \<in> set ids \<and> valueAt 0 ?lsz x < plen then Some plen else ?lsz x),
                  (\<lambda>x. if x \<in> set ids \<and> valueAt 0 ?lsz x < plen then Some i else ?lix x))" "map lsIndex steps = ids"
     "map lsStateDescription steps = map describeState (runStates model callV returnV t ids)"
    using Cons.IH [OF t(2), of ?lsz ?lix] Cons.prems(2) by auto
  have "(\<lambda>x. if x \<in> set ids \<and> valueAt 0 ?lsz x < plen then Some plen else ?lsz x) =
      (\<lambda>x. if x \<in> set (h # ids) \<and> valueAt 0 lsz x < plen then Some plen else lsz x)"
    "(\<lambda>x. if x \<in> set ids \<and> valueAt 0 ?lsz x < plen then Some i else ?lix x) =
      (\<lambda>x. if x \<in> set (h # ids) \<and> valueAt 0 lsz x < plen then Some i else lix x)"
    by (auto simp: fun_eq_iff valueAt_def)
  then show ?case using steps t(1) Cons.prems(2) [of h] by (simp add: Let_def)
qed

text \<open>The maps after some partial linearizations: a longest one with a given operation.\<close>

definition largest_at :: "int list list \<Rightarrow> int \<Rightarrow> int option \<Rightarrow> int option \<Rightarrow> bool" where
  "largest_at ps h sz ix \<longleftrightarrow> (case ix of
       None \<Rightarrow> sz = None \<and> (\<forall>q \<in> set ps. h \<notin> set q)
     | Some k \<Rightarrow> 0 \<le> k \<and> k < int (length ps) \<and> h \<in> set (ps ! nat k) \<and> sz = Some (int (length (ps ! nat k))) \<and>
                 (\<forall>q \<in> set ps. h \<in> set q \<longrightarrow> length q \<le> length (ps ! nat k)))"

definition largest_ok :: "int list list \<Rightarrow> (int \<rightharpoonup> int) \<Rightarrow> (int \<rightharpoonup> int) \<Rightarrow> bool" where
  "largest_ok ps lsz lix \<longleftrightarrow> (\<forall>h. largest_at ps h (lsz h) (lix h))"

lemma largest_at_snoc:
  assumes o: "largest_at ps h (lsz h) (lix h)" and m: "m = int (length q)" and i: "i = int (length ps)"
  shows "largest_at (ps @ [q]) h (if h \<in> set q \<and> valueAt 0 lsz h < m then Some m else lsz h)
    (if h \<in> set q \<and> valueAt 0 lsz h < m then Some i else lix h)"
proof (cases "lix h")
  case None
  have "h \<in> set q \<Longrightarrow> 0 < m" using m by (cases q) auto
  then show ?thesis using o m i None by (auto simp: largest_at_def valueAt_def)
next
  case (Some k)
  then show ?thesis using o m i by (auto simp: largest_at_def valueAt_def nth_append nat_less_iff)
qed

lemma largest_ok_snoc:
  assumes "largest_ok ps lsz lix" and "m = int (length q)" and "i = int (length ps)"
  shows "largest_ok (ps @ [q]) (\<lambda>h. if h \<in> set q \<and> valueAt 0 lsz h < m then Some m else lsz h)
    (\<lambda>h. if h \<in> set q \<and> valueAt 0 lsz h < m then Some i else lix h)"
  using assms largest_at_snoc unfolding largest_ok_def by blast

lemma visPartials_ok:
  assumes "\<forall>q \<in> set ps. legal model es (Init model) q \<and>
      (\<forall>i \<in> set q. callV i = val (es ! entryPos es callEntry i) \<and> returnV i = val (es ! entryPos es returnEntry i))"
    and "largest_ok qs lsz lix"
  shows "\<exists>lins lsz' lix'. visPartials model describeState callV returnV (int (length qs)) ps lsz lix = Some (lins, lix') \<and>
     map (map lsIndex) lins = ps \<and> largest_ok (qs @ ps) lsz' lix' \<and>
     map (map lsStateDescription) lins = map (\<lambda>q. map describeState (runStates model callV returnV (Init model) q)) ps"
  using assms
proof (induction ps arbitrary: qs lsz lix)
  case Nil
  then show ?case by auto
next
  case (Cons p ps)
  obtain steps where steps: "visSteps model describeState callV returnV (int (length p)) (int (length qs)) p (Init model) lsz lix =
     Some (steps, (\<lambda>h. if h \<in> set p \<and> valueAt 0 lsz h < int (length p) then Some (int (length p)) else lsz h),
                  (\<lambda>h. if h \<in> set p \<and> valueAt 0 lsz h < int (length p) then Some (int (length qs)) else lix h))" "map lsIndex steps = p"
     "map lsStateDescription steps = map describeState (runStates model callV returnV (Init model) p)"
    using visSteps_ok [of model es "Init model" p callV returnV describeState "int (length p)" "int (length qs)" lsz lix] Cons.prems(1)
    by auto
  note snoc = largest_ok_snoc [OF Cons.prems(2) refl refl, of p]
  have "\<forall>q \<in> set ps. legal model es (Init model) q \<and>
      (\<forall>i \<in> set q. callV i = val (es ! entryPos es callEntry i) \<and> returnV i = val (es ! entryPos es returnEntry i))"
    using Cons.prems(1) by simp
  from Cons.IH [OF this snoc] show ?case using steps by (auto simp: add.commute)
qed

section \<open>History\<close>

definition pos_ok :: "('v \<Rightarrow> 'v \<Rightarrow> string option) \<Rightarrow> 'v entry list \<Rightarrow> 'v visHistory \<Rightarrow> nat \<Rightarrow> bool" where
  "pos_ok describe es s p \<longleftrightarrow> (let e = es ! p; he = vhHistory s ! nat (eid e)
     in if kind e = callEntry
        then callValue s (eid e) = Some (val e) \<and> heClientId he = eclientId e \<and> heStart he = etime e
        else returnValue s (eid e) = Some (val e) \<and> heEnd he = etime e \<and>
          (\<exists>i < p. kind (es ! i) = callEntry \<and> eid (es ! i) = eid e \<and> describe (val (es ! i)) (val e) = Some (heDescription he)))"

definition history_ok :: "('v \<Rightarrow> 'v \<Rightarrow> string option) \<Rightarrow> 'v entry list \<Rightarrow> nat \<Rightarrow> 'v visHistory \<Rightarrow> bool" where
  "history_ok describe es k s \<longleftrightarrow> length (vhHistory s) = length es div 2 \<and> (\<forall>p < k. pos_ok describe es s p)"

definition describes :: "('v \<Rightarrow> 'v \<Rightarrow> string option) \<Rightarrow> 'v entry list \<Rightarrow> bool" where
  "describes describe es \<longleftrightarrow> (\<forall>c \<in> set es. \<forall>r \<in> set es. kind c = callEntry \<longrightarrow> kind r = returnEntry \<longrightarrow> describe (val c) (val r) \<noteq> None)"

lemma wf_eid_range:
  assumes "wfEntries es" and "p < length es"
  shows "0 \<le> eid (es ! p)" "nat (eid (es ! p)) < length es div 2"
  using assms nth_mem [OF assms(2)] unfolding wfEntries_def by (metis nat_less_iff)+

lemma wf_nat_unique:
  assumes wf: "wfEntries es" and "p < length es" "q < length es" "kind (es ! p) = kind (es ! q)"
    "nat (eid (es ! p)) = nat (eid (es ! q))"
  shows "p = q"
  using wf_unique [OF wf assms(2-4)] wf_eid_range [OF wf assms(2)] wf_eid_range [OF wf assms(3)] assms(5) by simp

lemma visEntry_call:
  assumes wf: "wfEntries es" and ok: "history_ok describe es k s" and k: "k < length es" and c: "kind (es ! k) = callEntry"
  shows "\<exists>s'. visEntry describe nilv (es ! k) s = Some s' \<and> history_ok describe es (Suc k) s'"
proof -
  let ?e = "es ! k"
  let ?he = "(vhHistory s ! nat (eid ?e))\<lparr>heClientId := eclientId ?e, heStart := etime ?e\<rparr>"
  let ?s = "s\<lparr>vhHistory := (vhHistory s)[nat (eid ?e) := ?he], callValue := (callValue s)(eid ?e \<mapsto> val ?e)\<rparr>"
  have len: "length (vhHistory s) = length es div 2" using ok by (simp add: history_ok_def)
  note r = wf_eid_range [OF wf]
  have "visEntry describe nilv ?e s = Some ?s"
    using r [OF k] len c by (simp add: visEntry_def go_nth_in go_upd_in nat_less_iff)
  moreover have "pos_ok describe es ?s p" if p: "p < k" for p
  proof (cases "nat (eid (es ! p)) = nat (eid ?e)")
    case True
    then have "kind (es ! p) \<noteq> callEntry" using wf_nat_unique [OF wf, of p k] p k c by auto
    then show ?thesis using True ok p r [OF k] len by (auto simp: history_ok_def pos_ok_def Let_def)
  next
    case False
    then show ?thesis using ok p by (auto simp: history_ok_def pos_ok_def Let_def)
  qed
  moreover have "pos_ok describe es ?s k" using c r [OF k] len by (simp add: pos_ok_def)
  ultimately show ?thesis using len by (auto simp: history_ok_def less_Suc_eq)
qed

lemma visEntry_return:
  assumes wf: "wfEntries es" and ok: "history_ok describe es k s" and k: "k < length es" and c: "kind (es ! k) = returnEntry"
    and total: "describes describe es"
  shows "\<exists>s'. visEntry describe nilv (es ! k) s = Some s' \<and> history_ok describe es (Suc k) s'"
proof -
  let ?e = "es ! k"
  obtain i where i: "i < k" "kind (es ! i) = callEntry" "eid (es ! i) = eid ?e"
    using wf k c unfolding wfEntries_def by blast
  have v: "callValue s (eid ?e) = Some (val (es ! i))"
    using ok i by (auto simp: history_ok_def pos_ok_def Let_def)
  have "es ! i \<in> set es" "?e \<in> set es" using i(1) k by auto
  then obtain d where d: "describe (val (es ! i)) (val ?e) = Some d" using total i c by (auto simp: describes_def)
  let ?he = "(vhHistory s ! nat (eid ?e))\<lparr>heEnd := etime ?e, heDescription := d\<rparr>"
  let ?s = "s\<lparr>vhHistory := (vhHistory s)[nat (eid ?e) := ?he], returnValue := (returnValue s)(eid ?e \<mapsto> val ?e)\<rparr>"
  have len: "length (vhHistory s) = length es div 2" using ok by (simp add: history_ok_def)
  note r = wf_eid_range [OF wf]
  have "visEntry describe nilv ?e s = Some ?s"
    using r [OF k] len c v d by (simp add: visEntry_def go_nth_in go_upd_in nat_less_iff valueAt_def)
  moreover have "pos_ok describe es ?s p" if p: "p < k" for p
  proof (cases "nat (eid (es ! p)) = nat (eid ?e)")
    case True
    then have "kind (es ! p) = callEntry" using wf_nat_unique [OF wf, of p k] p k c by (cases "kind (es ! p)") auto
    then show ?thesis using True ok p r [OF k] len by (auto simp: history_ok_def pos_ok_def Let_def)
  next
    case False
    then show ?thesis using ok p by (auto simp: history_ok_def pos_ok_def Let_def)
  qed
  moreover have "pos_ok describe es ?s k" using c r [OF k] len i d by (auto simp: pos_ok_def Let_def)
  ultimately show ?thesis using len by (auto simp: history_ok_def less_Suc_eq)
qed

lemma visEntries_ok:
  assumes wf: "wfEntries es" and total: "describes describe es" and ok: "history_ok describe es k s" and "k \<le> length es"
  shows "\<exists>s'. visEntries describe nilv (drop k es) s = Some s' \<and> history_ok describe es (length es) s'"
  using assms(4,3)
proof (induction k arbitrary: s rule: inc_induct)
  case base
  then show ?case by simp
next
  case (step k)
  obtain s' where s': "visEntry describe nilv (es ! k) s = Some s'" "history_ok describe es (Suc k) s'"
    using visEntry_call [OF wf step.prems step.hyps(2)] visEntry_return [OF wf step.prems step.hyps(2) _ total]
    by (cases "kind (es ! k)") blast+
  moreover have "drop k es = es ! k # drop (Suc k) es" using step.hyps(2) by (simp add: Cons_nth_drop_Suc)
  ultimately show ?case using step.IH by simp
qed

lemma wf_pair:
  assumes wf: "wfEntries es" and i: "i \<in> eid ` set es"
  shows "\<exists>p q. p < q \<and> q < length es \<and> kind (es ! p) = callEntry \<and> eid (es ! p) = i \<and> kind (es ! q) = returnEntry \<and> eid (es ! q) = i"
proof -
  obtain k where k: "k < length es" "eid (es ! k) = i" using i by (auto simp: in_set_conv_nth)
  show ?thesis
  proof (cases "kind (es ! k)")
    case callEntry
    then show ?thesis using wf k unfolding wfEntries_def by metis
  next
    case returnEntry
    then obtain j where "j < k" "kind (es ! j) = callEntry" "eid (es ! j) = i"
      using wf k unfolding wfEntries_def by metis
    then show ?thesis using k returnEntry by blast
  qed
qed

lemma history_values:
  assumes wf: "wfEntries es" and ok: "history_ok describe es (length es) s" and i: "i \<in> eid ` set es"
  shows "valueAt nilv (callValue s) i = val (es ! entryPos es callEntry i) \<and>
    valueAt nilv (returnValue s) i = val (es ! entryPos es returnEntry i)"
proof -
  obtain p q where p: "p < length es" "kind (es ! p) = callEntry" "eid (es ! p) = i"
    "q < length es" "kind (es ! q) = returnEntry" "eid (es ! q) = i"
    using wf_pair [OF wf i] by (metis less_trans)
  have "pos_ok describe es s p" "pos_ok describe es s q" using ok p by (auto simp: history_ok_def)
  moreover have "entryPos es callEntry i = p" "entryPos es returnEntry i = q"
    using entryPos_eq [OF wf p(1)] entryPos_eq [OF wf p(4)] p by auto
  ultimately show ?thesis using p by (simp add: pos_ok_def valueAt_def Let_def)
qed

section \<open>The data of a check\<close>

text \<open>What \<open>sort.Slice\<close> promises: the same slices, the longer ones first.\<close>

definition lengthSorter :: "(int list list \<Rightarrow> int list list) \<Rightarrow> bool" where
  "lengthSorter sorter \<longleftrightarrow>
     (\<forall>ps. mset (sorter ps) = mset ps \<and> sorted_wrt (\<lambda>p q. length q \<le> length p) (sorter ps))"

text \<open>
  What is to be drawn for the operations of a partition and its partial linearizations: every operation
  with its client, times and description, the partial linearizations from the longest to the shortest, each
  with the states the model goes through in it, and for every operation a longest partial linearization with it, if there is any.
\<close>

definition drawn ::
    "('v, 'st) Model \<Rightarrow> ('st \<Rightarrow> string) \<Rightarrow> ('v \<Rightarrow> 'v \<Rightarrow> string option) \<Rightarrow> 'v Operation list \<Rightarrow> int list list \<Rightarrow> partitionVisualizationData \<Rightarrow> bool" where
  "drawn model describeState describe ops ps pd \<longleftrightarrow>
     length (History pd) = length ops \<and>
     (\<forall>i < length ops. History pd ! i =
        \<lparr>heClientId = opClientId (ops ! i), heStart = opCall (ops ! i), heEnd = opReturn (ops ! i),
         heDescription = the (describe (Input (ops ! i)) (Output (ops ! i)))\<rparr>) \<and>
     (let lins = map (map lsIndex) (PartialLinearizations pd)
      in mset lins = mset ps \<and> sorted_wrt (\<lambda>p q. length q \<le> length p) lins \<and>
         map (map lsStateDescription) (PartialLinearizations pd) =
           map (\<lambda>q. map describeState
             (runStates model (\<lambda>i. Input (ops ! nat i)) (\<lambda>i. Output (ops ! nat i)) (Init model) q)) lins \<and>
         (\<forall>h. case Largest pd h of
            None \<Rightarrow> \<forall>q \<in> set ps. h \<notin> set q
          | Some k \<Rightarrow> 0 \<le> k \<and> k < int (length lins) \<and> h \<in> set (lins ! nat k) \<and>
              (\<forall>q \<in> set ps. h \<in> set q \<longrightarrow> length q \<le> length (lins ! nat k))))"

lemma history_drawn:
  assumes wf: "wfEntries (makeEntries sorter ops)" and srt: "timeSorter sorter"
    and ok: "history_ok describe (makeEntries sorter ops) (length (makeEntries sorter ops)) s" and i: "i < length ops"
  shows "vhHistory s ! i =
     \<lparr>heClientId = opClientId (ops ! i), heStart = opCall (ops ! i), heEnd = opReturn (ops ! i),
      heDescription = the (describe (Input (ops ! i)) (Output (ops ! i)))\<rparr>"
proof -
  let ?es = "makeEntries sorter ops"
  obtain p q where p: "p < length ?es" "?es ! p = callOf ops i" and q: "q < length ?es" "?es ! q = returnOf ops i"
    using makeEntries_pos [OF srt i] by blast
  have "pos_ok describe ?es s p" "pos_ok describe ?es s q" using ok p q by (auto simp: history_ok_def)
  then have c: "heClientId (vhHistory s ! i) = opClientId (ops ! i)" "heStart (vhHistory s ! i) = opCall (ops ! i)"
    "heEnd (vhHistory s ! i) = opReturn (ops ! i)"
    and d: "\<exists>j < q. kind (?es ! j) = callEntry \<and> eid (?es ! j) = int i \<and>
      describe (val (?es ! j)) (Output (ops ! i)) = Some (heDescription (vhHistory s ! i))"
    using p q by (simp_all add: pos_ok_def callOf_def returnOf_def Let_def)
  obtain j where j: "j < q" "kind (?es ! j) = callEntry" "eid (?es ! j) = int i"
    "describe (val (?es ! j)) (Output (ops ! i)) = Some (heDescription (vhHistory s ! i))" using d by blast
  have "j = p" using wf_unique [OF wf, of j p] j p q by simp
  then have "heDescription (vhHistory s ! i) = the (describe (Input (ops ! i)) (Output (ops ! i)))" using j p by simp
  then show ?thesis using c by simp
qed

lemma visPartition_drawn:
  assumes srt: "timeSorter sorter" and ops: "properOps ops" and lsrt: "lengthSorter lsorter"
    and total: "\<forall>x \<in> set ops. \<forall>y \<in> set ops. the (DescribeOperation d) (Input x) (Output y) \<noteq> None"
    and ps: "\<forall>q \<in> set ps. partialLin model (makeEntries sorter ops) q"
  shows "\<exists>pd. visPartition lsorter nilv d model (makeEntries sorter ops) ps = Some (pd, lsorter ps) \<and>
    drawn model (the (DescribeState d)) (the (DescribeOperation d)) ops ps pd"
proof -
  let ?es = "makeEntries sorter ops" and ?desc = "the (DescribeOperation d)"
  let ?s = "\<lparr>vhHistory = replicate (length ?es div 2) \<lparr>heClientId = 0, heStart = 0, heEnd = 0, heDescription = ''''\<rparr>,
    callValue = Map.empty, returnValue = Map.empty\<rparr>"
  note wf = makeEntries_wf [OF srt ops]
  have "describes ?desc ?es" using total makeEntries_facts(1) [OF srt, of ops] by (auto simp: describes_def)
  moreover have "history_ok ?desc ?es 0 ?s" by (simp add: history_ok_def)
  ultimately obtain s where s: "visEntries ?desc nilv ?es ?s = Some s" "history_ok ?desc ?es (length ?es) s"
    using visEntries_ok [OF wf, of ?desc 0 ?s nilv] by auto
  have m: "mset (lsorter ps) = mset ps" "sorted_wrt (\<lambda>p q. length q \<le> length p) (lsorter ps)"
    using lsrt by (auto simp: lengthSorter_def)
  have set: "set (lsorter ps) = set ps" using mset_eq_setD [OF m(1)] .
  have "\<forall>q \<in> set (lsorter ps). legal model ?es (Init model) q \<and> (\<forall>i \<in> set q.
      valueAt nilv (callValue s) i = val (?es ! entryPos ?es callEntry i) \<and>
      valueAt nilv (returnValue s) i = val (?es ! entryPos ?es returnEntry i))"
    using ps set history_values [OF wf s(2), of _ nilv] unfolding partialLin_def by blast
  moreover have "largest_ok [] Map.empty Map.empty" by (simp add: largest_ok_def largest_at_def)
  ultimately obtain lins lsz lix where v: "visPartials model (the (DescribeState d)) (valueAt nilv (callValue s))
      (valueAt nilv (returnValue s)) 0 (lsorter ps) Map.empty Map.empty = Some (lins, lix)"
    "map (map lsIndex) lins = lsorter ps" "largest_ok (lsorter ps) lsz lix"
    "map (map lsStateDescription) lins = map (\<lambda>q. map (the (DescribeState d))
       (runStates model (valueAt nilv (callValue s)) (valueAt nilv (returnValue s)) (Init model) q)) (lsorter ps)"
    using visPartials_ok [of "lsorter ps" model ?es "valueAt nilv (callValue s)" "valueAt nilv (returnValue s)" "[]"] by fastforce
  let ?pd = "\<lparr>History = vhHistory s, PartialLinearizations = lins, Largest = lix\<rparr>"
  have "visPartition lsorter nilv d model ?es ps = Some (?pd, lsorter ps)"
    using s(1) v(1) by (simp add: visPartition_def Let_def)
  moreover have "length (vhHistory s) = length ops"
    using s(2) makeEntries_facts(2) [OF srt, of ops] by (simp add: history_ok_def)
  moreover have "case lix h of None \<Rightarrow> \<forall>q \<in> set ps. h \<notin> set q
      | Some k \<Rightarrow> 0 \<le> k \<and> k < int (length (lsorter ps)) \<and> h \<in> set (lsorter ps ! nat k) \<and>
          (\<forall>q \<in> set ps. h \<in> set q \<longrightarrow> length q \<le> length (lsorter ps ! nat k))" for h
    using v(3) [unfolded largest_ok_def, rule_format, of h] set by (auto simp: largest_at_def split: option.splits)
  moreover have "runStates model (valueAt nilv (callValue s)) (valueAt nilv (returnValue s)) (Init model) q =
      runStates model (\<lambda>i. Input (ops ! nat i)) (\<lambda>i. Output (ops ! nat i)) (Init model) q" if q: "q \<in> set (lsorter ps)" for q
  proof (rule runStates_cong)
    fix i assume "i \<in> set q"
    then have i: "i \<in> eid ` set ?es" using ps q set by (auto simp: partialLin_def)
    then obtain k where k: "k < length ops" "i = int k" using makeEntries_facts(1) [OF srt, of ops] by auto
    show "valueAt nilv (callValue s) i = Input (ops ! nat i) \<and> valueAt nilv (returnValue s) i = Output (ops ! nat i)"
      using history_values [OF wf s(2) i, of nilv] makeEntries_entryPos [OF srt ops k(1)] k(2) by simp
  qed
  then have "map (map lsStateDescription) lins = map (\<lambda>q. map (the (DescribeState d))
       (runStates model (\<lambda>i. Input (ops ! nat i)) (\<lambda>i. Output (ops ! nat i)) (Init model) q)) (lsorter ps)"
    unfolding v(4) by simp
  ultimately have "drawn model (the (DescribeState d)) ?desc ops ps ?pd \<and> visPartition lsorter nilv d model ?es ps = Some (?pd, lsorter ps)"
    using history_drawn [OF wf srt s(2)] m unfolding drawn_def partitionVisualizationData.simps v(2) Let_def by blast
  then show ?thesis by blast
qed

text \<open>The partitions one after the other.\<close>

lemma visPartitions_drawn:
  assumes "\<And>k. k \<in> set ks \<Longrightarrow> k < length (liHistory info) \<and> k < length (partialLinearizations info) \<and>
      (\<exists>pd. visPartition lsorter nilv d model (liHistory info ! k) (partialLinearizations info ! k) =
         Some (pd, lsorter (partialLinearizations info ! k)) \<and> P k pd)"
    and "distinct ks"
  shows "\<exists>data pls. visPartitions lsorter nilv d model info ks = Some (data, pls) \<and> length data = length ks \<and>
    (\<forall>j < length ks. P (ks ! j) (data ! j))"
  using assms
proof (induction ks arbitrary: info)
  case Nil
  then show ?case by simp
next
  case (Cons k ks)
  obtain pd where pd: "k < length (liHistory info)" "k < length (partialLinearizations info)"
    "visPartition lsorter nilv d model (liHistory info ! k) (partialLinearizations info ! k) =
         Some (pd, lsorter (partialLinearizations info ! k))" "P k pd"
    using Cons.prems(1) [of k] by auto
  let ?info = "info\<lparr>partialLinearizations := (partialLinearizations info)[k := lsorter (partialLinearizations info ! k)]\<rparr>"
  have "j < length (liHistory ?info) \<and> j < length (partialLinearizations ?info) \<and>
      (\<exists>pd. visPartition lsorter nilv d model (liHistory ?info ! j) (partialLinearizations ?info ! j) =
         Some (pd, lsorter (partialLinearizations ?info ! j)) \<and> P j pd)" if "j \<in> set ks" for j
  proof -
    have "j \<noteq> k" using that Cons.prems(2) by auto
    then show ?thesis using Cons.prems(1) [of j] that by simp
  qed
  then obtain data pls where IH: "visPartitions lsorter nilv d model ?info ks = Some (data, pls)" "length data = length ks"
    "\<forall>j < length ks. P (ks ! j) (data ! j)"
    using Cons.IH [of ?info] Cons.prems(2) by auto
  have "visPartitions lsorter nilv d model info (k # ks) = Some (pd # data, pls)"
    using pd(1-3) IH(1) by (simp add: go_nth_in)
  then show ?case using IH(2,3) pd(4) by (auto simp: less_Suc_eq_0_disj)
qed

text \<open>Property C33: visualizing a check never panics. Whatever the verdict of a verbose check of a history, and whenever
  its searches were told to stop, \<open>computeVisualizationData\<close> returns on the information of the check: the partial
  linearizations in it are runs of the model that respect real time, and for every partition the data are
  those to be drawn, with the description of the state after every operation of a partial linearization.\<close>

theorem verbose_check_visualized:
  assumes "timeSorter sorter" "equalRespects model" "lengthSorter lsorter"
    and parts: "the (Partition (fillDefault model)) history = Some parts"
    and proper: "\<forall>p \<in> set parts. properOps p \<and> stepTotalOps model p"
    and total: "\<forall>p \<in> set parts. \<forall>x \<in> set p. \<forall>y \<in> set p.
      the (DescribeOperation (fillDescribe fmtV fmtS d)) (Input x) (Output y) \<noteq> None"
    and run: "CheckOperationsVerbose sorter kills arrivals model history = Some (res, info)"
  shows "\<exists>data pls. computeVisualizationData lsorter nilv fmtV fmtS d model info = Some (data, pls) \<and>
    length data = length parts \<and>
    (\<forall>k < length parts.
       (\<forall>q \<in> set (partialLinearizations info ! k). partialLin (fillDefault model) (makeEntries sorter (parts ! k)) q) \<and>
       drawn (fillDefault model) (the (DescribeState (fillDescribe fmtV fmtS d))) (the (DescribeOperation (fillDescribe fmtV fmtS d)))
         (parts ! k) (partialLinearizations info ! k) (data ! k))"
proof -
  let ?hist = "map (makeEntries sorter) parts" and ?m = "fillDefault model" and ?d = "fillDescribe fmtV fmtS d"
  let ?P = "\<lambda>k pd. drawn ?m (the (DescribeState ?d)) (the (DescribeOperation ?d)) (parts ! k) (partialLinearizations info ! k) pd"
  have cp: "checkParallel ?m ?hist True kills arrivals = Some (res, info)"
    using run parts by (simp add: CheckOperationsVerbose_def checkOperations_def Let_def)
  note info = checkParallel_info [OF partitions_checkable [OF assms(1,2) proper] cp]
  have pl: "\<forall>q \<in> set (partialLinearizations info ! k). partialLin ?m (makeEntries sorter (parts ! k)) q" if "k < length parts" for k
    using info(3) that by simp
  have "\<exists>pd. visPartition lsorter nilv ?d ?m (liHistory info ! k) (partialLinearizations info ! k) =
      Some (pd, lsorter (partialLinearizations info ! k)) \<and> ?P k pd" if k: "k < length parts" for k
    using visPartition_drawn [OF assms(1) _ assms(3) _ pl [OF k], of ?d nilv] proper total nth_mem [OF k] info(1) k by simp
  then obtain data pls where "visPartitions lsorter nilv ?d ?m info [0..<length parts] = Some (data, pls)"
    "length data = length parts" "\<forall>j < length parts. ?P j (data ! j)"
    using visPartitions_drawn [of "[0..<length parts]" info lsorter nilv ?d ?m ?P] info(1,2) by auto
  then show ?thesis using info(1) pl by (simp add: computeVisualizationData_def)
qed

definition kvDescribe :: "(kv_value, string) Describe" where
  "kvDescribe = \<lparr>DescribeOperation = Some kvDescribeOperation, DescribeState = None\<rparr>"

lemma lengthSorter_sort_key: "lengthSorter (sort_key (\<lambda>p. - int (length p)))"
proof -
  have "sorted_wrt (\<lambda>p q. length q \<le> length p) (sort_key (\<lambda>p. - int (length p)) ps)" for ps :: "int list list"
    using sorted_sort_key [of "\<lambda>p. - int (length p)" ps] by (simp add: sorted_map)
  then show ?thesis by (simp add: lengthSorter_def)
qed

lemma kvExample_described:
  "\<forall>p \<in> set [kvExample]. \<forall>x \<in> set p. \<forall>y \<in> set p.
     the (DescribeOperation (fillDescribe (\<lambda>_. '''') id kvDescribe)) (Input x) (Output y) \<noteq> None"
  by (simp add: kvDescribe_def fillDescribe_def kvExample_def kvDescribeOperation_def Let_def)

theorem verbose_check_visualized_witness:
  "\<exists>info data pls. CheckOperationsVerbose (sort_key etime) (\<lambda>_ _. False) [Arrived 0] KvModel kvExample = Some (Ok, info) \<and>
     computeVisualizationData (sort_key (\<lambda>p. - int (length p))) (KvOut \<lparr>koValue = ''''\<rparr>) (\<lambda>_. '''') id kvDescribe KvModel info =
       Some (data, pls) \<and>
     map heDescription (History (data ! 0)) = [''put('' @ quoted ''x'' @ '', '' @ quoted ''a'' @ '')'', ''get('' @ quoted ''x'' @ '') -> '' @ quoted ''a'']"
proof -
  have "map_option fst (CheckOperationsVerbose (sort_key etime) (\<lambda>_ _. False) [Arrived 0] KvModel kvExample) = Some Ok" by code_simp
  then obtain info where run: "CheckOperationsVerbose (sort_key etime) (\<lambda>_ _. False) [Arrived 0] KvModel kvExample = Some (Ok, info)"
    by auto
  obtain data pls where data: "computeVisualizationData (sort_key (\<lambda>p. - int (length p))) (KvOut \<lparr>koValue = ''''\<rparr>) (\<lambda>_. '''') id kvDescribe KvModel info =
       Some (data, pls)" "drawn (fillDefault KvModel) (the (DescribeState (fillDescribe (\<lambda>_. '''') id kvDescribe)))
         (the (DescribeOperation (fillDescribe (\<lambda>_. '''') id kvDescribe))) kvExample (partialLinearizations info ! 0) (data ! 0)"
    using verbose_check_visualized [OF timeSorter_sort_key kvModel_respects lengthSorter_sort_key kvExample_parts kvExample_steps kvExample_described run]
    by fastforce
  have "History (data ! 0) = map (\<lambda>i. History (data ! 0) ! i) [0..<length kvExample]"
    using data(2) by (metis drawn_def map_nth)
  also have "\<dots> = map (\<lambda>i. \<lparr>heClientId = opClientId (kvExample ! i), heStart = opCall (kvExample ! i), heEnd = opReturn (kvExample ! i),
         heDescription = the (kvDescribeOperation (Input (kvExample ! i)) (Output (kvExample ! i)))\<rparr>) [0..<length kvExample]"
    using data(2) by (auto simp: drawn_def kvDescribe_def fillDescribe_def Let_def)
  finally show ?thesis
    using run data(1) by (simp add: kvExample_def kvDescribeOperation_def upt_rec)
qed

end
