(* ===== verification/ShardMaster.thy ===== *)
theory ShardMaster
  imports RaftNode
begin

text \<open>
  The shard master, \<open>src/src/shardmaster\<close>: the configurations of \<open>common.go\<close>, the server of
  \<open>server.go\<close>, whose handlers have empty bodies and leave the reply as they get it, and the
  clerk of \<open>client.go\<close>, which asks the servers in turn until one does not say that it is the
  wrong leader.

  As in theory \<open>KVClerk\<close> the network is an argument: \<open>call k srv args\<close> is what the \<open>k\<close>-th RPC
  returns when it goes to \<open>srv\<close>, \<open>None\<close> when \<open>Call\<close> returns false. A loop that never returns
  is the value \<open>None\<close>. The clerk's loops share the contract \<open>ask_loop\<close>.
\<close>

section \<open>common.go\<close>

definition NShards :: nat where
  "NShards = 10"

record Config =
  Num :: int
  Shards :: "int list"
  Groups :: "int \<rightharpoonup> string list"

text \<open>The zero value of a \<open>Config\<close>: an array of \<open>NShards\<close> zeros and a nil map.\<close>

definition zeroConfig :: Config where
  "zeroConfig = \<lparr>Num = 0, Shards = replicate NShards 0, Groups = Map.empty\<rparr>"

record JoinArgs =
  jaServers :: "int \<rightharpoonup> string list"

record JoinReply =
  jrWrongLeader :: bool
  jrErr :: string

record LeaveArgs =
  laGIDs :: "int list"

record LeaveReply =
  lrWrongLeader :: bool
  lrErr :: string

record MoveArgs =
  maShard :: int
  maGID :: int

record MoveReply =
  mrWrongLeader :: bool
  mrErr :: string

record QueryArgs =
  qaNum :: int

record QueryReply =
  qrWrongLeader :: bool
  qrErr :: string
  qrConfig :: Config

section \<open>server.go\<close>

datatype SmOp = SmOp

record ShardMaster =
  sm_me :: int
  sm_rf :: "SmOp Raft"
  configs :: "Config list"

definition SM_Join :: "JoinArgs \<Rightarrow> JoinReply \<Rightarrow> ShardMaster \<Rightarrow> ShardMaster \<times> JoinReply" where
  "SM_Join args reply sm = (sm, reply)"

definition SM_Leave :: "LeaveArgs \<Rightarrow> LeaveReply \<Rightarrow> ShardMaster \<Rightarrow> ShardMaster \<times> LeaveReply" where
  "SM_Leave args reply sm = (sm, reply)"

definition SM_Move :: "MoveArgs \<Rightarrow> MoveReply \<Rightarrow> ShardMaster \<Rightarrow> ShardMaster \<times> MoveReply" where
  "SM_Move args reply sm = (sm, reply)"

definition SM_Query :: "QueryArgs \<Rightarrow> QueryReply \<Rightarrow> ShardMaster \<Rightarrow> ShardMaster \<times> QueryReply" where
  "SM_Query args reply sm = (sm, reply)"

definition SM_Kill :: "ShardMaster \<Rightarrow> ShardMaster" where
  "SM_Kill sm = sm\<lparr>sm_rf := Kill (sm_rf sm)\<rparr>"

definition SM_Raft :: "ShardMaster \<Rightarrow> SmOp Raft" where
  "SM_Raft sm = sm_rf sm"

definition SM_StartServer :: "clock \<Rightarrow> nat \<Rightarrow> int \<Rightarrow> SmOp gob_value Persister \<Rightarrow> ShardMaster" where
  "SM_StartServer c servers self ps =
     \<lparr>sm_me = self, sm_rf = Make c servers self ps, configs = [zeroConfig]\<rparr>"

section \<open>client.go\<close>

record 'e SmClerk =
  smServers :: "'e list"

definition SM_MakeClerk :: "'e list \<Rightarrow> 'e SmClerk" where
  "SM_MakeClerk servers = \<lparr>smServers = servers\<rparr>"

text \<open>
  One pass over the servers, from RPC number \<open>k\<close> on; \<open>final\<close> is the test of the reply. The result
  is the number of the next RPC and the reply that ends the loop, if any.
\<close>

fun tryEach :: "(nat \<Rightarrow> 'e \<Rightarrow> 'r option) \<Rightarrow> ('r \<Rightarrow> bool) \<Rightarrow> nat \<Rightarrow> 'e list \<Rightarrow> nat \<times> 'r option" where
  "tryEach call final k [] = (k, None)"
| "tryEach call final k (srv # srvs) =
     (case call k srv of
        None \<Rightarrow> tryEach call final (Suc k) srvs
      | Some reply \<Rightarrow>
          if final reply then (Suc k, Some reply) else tryEach call final (Suc k) srvs)"

text \<open>The loops; they return the number of the next RPC too.\<close>

partial_function (option) Query_loop ::
    "(nat \<Rightarrow> 'e \<Rightarrow> QueryArgs \<Rightarrow> QueryReply option) \<Rightarrow> QueryArgs \<Rightarrow> 'e SmClerk \<Rightarrow> nat \<Rightarrow> (nat \<times> Config) option" where
  "Query_loop call args ck k =
     (case tryEach (\<lambda>k srv. call k srv args) (\<lambda>r. qrWrongLeader r = False) k (smServers ck) of
        (k', Some reply) \<Rightarrow> Some (k', qrConfig reply)
      | (k', None) \<Rightarrow> Query_loop call args ck k')"

definition Clerk_Query ::
    "(nat \<Rightarrow> 'e \<Rightarrow> QueryArgs \<Rightarrow> QueryReply option) \<Rightarrow> int \<Rightarrow> 'e SmClerk \<Rightarrow> nat \<Rightarrow> (nat \<times> Config) option" where
  "Clerk_Query call num ck k = Query_loop call \<lparr>qaNum = num\<rparr> ck k"

partial_function (option) Join_loop ::
    "(nat \<Rightarrow> 'e \<Rightarrow> JoinArgs \<Rightarrow> JoinReply option) \<Rightarrow> JoinArgs \<Rightarrow> 'e SmClerk \<Rightarrow> nat \<Rightarrow> nat option" where
  "Join_loop call args ck k =
     (case tryEach (\<lambda>k srv. call k srv args) (\<lambda>r. jrWrongLeader r = False) k (smServers ck) of
        (k', Some reply) \<Rightarrow> Some k'
      | (k', None) \<Rightarrow> Join_loop call args ck k')"

definition Clerk_Join ::
    "(nat \<Rightarrow> 'e \<Rightarrow> JoinArgs \<Rightarrow> JoinReply option) \<Rightarrow> (int \<rightharpoonup> string list) \<Rightarrow> 'e SmClerk \<Rightarrow> nat \<Rightarrow> nat option" where
  "Clerk_Join call servers ck k = Join_loop call \<lparr>jaServers = servers\<rparr> ck k"

partial_function (option) Leave_loop ::
    "(nat \<Rightarrow> 'e \<Rightarrow> LeaveArgs \<Rightarrow> LeaveReply option) \<Rightarrow> LeaveArgs \<Rightarrow> 'e SmClerk \<Rightarrow> nat \<Rightarrow> nat option" where
  "Leave_loop call args ck k =
     (case tryEach (\<lambda>k srv. call k srv args) (\<lambda>r. lrWrongLeader r = False) k (smServers ck) of
        (k', Some reply) \<Rightarrow> Some k'
      | (k', None) \<Rightarrow> Leave_loop call args ck k')"

definition Clerk_Leave ::
    "(nat \<Rightarrow> 'e \<Rightarrow> LeaveArgs \<Rightarrow> LeaveReply option) \<Rightarrow> int list \<Rightarrow> 'e SmClerk \<Rightarrow> nat \<Rightarrow> nat option" where
  "Clerk_Leave call gids ck k = Leave_loop call \<lparr>laGIDs = gids\<rparr> ck k"

partial_function (option) Move_loop ::
    "(nat \<Rightarrow> 'e \<Rightarrow> MoveArgs \<Rightarrow> MoveReply option) \<Rightarrow> MoveArgs \<Rightarrow> 'e SmClerk \<Rightarrow> nat \<Rightarrow> nat option" where
  "Move_loop call args ck k =
     (case tryEach (\<lambda>k srv. call k srv args) (\<lambda>r. mrWrongLeader r = False) k (smServers ck) of
        (k', Some reply) \<Rightarrow> Some k'
      | (k', None) \<Rightarrow> Move_loop call args ck k')"

definition Clerk_Move ::
    "(nat \<Rightarrow> 'e \<Rightarrow> MoveArgs \<Rightarrow> MoveReply option) \<Rightarrow> int \<Rightarrow> int \<Rightarrow> 'e SmClerk \<Rightarrow> nat \<Rightarrow> nat option" where
  "Clerk_Move call shard gid ck k = Move_loop call \<lparr>maShard = shard, maGID = gid\<rparr> ck k"

declare Query_loop.simps [code] Join_loop.simps [code] Leave_loop.simps [code] Move_loop.simps [code]

section \<open>Asking until an answer is final\<close>

lemma tryEach_Some:
  "tryEach call final k srvs = (k', Some r) \<Longrightarrow>
    \<exists>j < length srvs. k' = Suc (k + j) \<and> call (k + j) (srvs ! j) = Some r \<and> final r"
proof (induction srvs arbitrary: k)
  case (Cons srv srvs)
  show ?case
  proof (cases "\<exists>reply. call k srv = Some reply \<and> final reply")
    case True
    then show ?thesis using Cons.prems by (intro exI [of _ 0]) auto
  next
    case False
    then have "tryEach call final (Suc k) srvs = (k', Some r)" using Cons.prems by (auto split: option.splits if_splits)
    then obtain j where "j < length srvs" "k' = Suc (Suc k + j)" "call (Suc k + j) (srvs ! j) = Some r" "final r"
      using Cons.IH by blast
    then show ?thesis by (intro exI [of _ "Suc j"]) simp
  qed
qed simp

lemma tryEach_None:
  "tryEach call final k srvs = (k', None) \<Longrightarrow>
    k' = k + length srvs \<and> (\<forall>j < length srvs. \<forall>r. call (k + j) (srvs ! j) = Some r \<longrightarrow> \<not> final r)"
proof (induction srvs arbitrary: k)
  case (Cons srv srvs)
  then have t: "tryEach call final (Suc k) srvs = (k', None)" and n: "\<forall>r. call k srv = Some r \<longrightarrow> \<not> final r"
    by (auto split: option.splits if_splits)
  from Cons.IH [OF t] show ?case using n by (auto simp: less_Suc_eq_0_disj)
qed simp

locale ask_loop =
  fixes call :: "nat \<Rightarrow> 'e \<Rightarrow> 'r option" and final :: "'r \<Rightarrow> bool" and srvs :: "'e list"
    and result :: "nat \<Rightarrow> 'r \<Rightarrow> 'a" and loop :: "nat \<Rightarrow> 'a option"
  assumes loop_eq: "loop k = (case tryEach call final k srvs of (k', Some r) \<Rightarrow> Some (result k' r) | (k', None) \<Rightarrow> loop k')"
begin

text \<open>When one server gives final answers from RPC number \<open>start\<close> on, the loop returns such an answer.\<close>

lemma returns:
  assumes "i < length srvs" and live: "\<And>k. start \<le> k \<Longrightarrow> \<exists>r. call k (srvs ! i) = Some r \<and> final r"
  shows "\<exists>j r s. s \<in> set srvs \<and> call j s = Some r \<and> final r \<and> loop k = Some (result (Suc j) r)"
proof (induction "start - k" arbitrary: k rule: less_induct)
  case less
  obtain k' o' where t: "tryEach call final k srvs = (k', o')" by fastforce
  show ?case
  proof (cases o')
    case (Some r)
    obtain j where j: "j < length srvs" "k' = Suc (k + j)" "call (k + j) (srvs ! j) = Some r" "final r"
      using tryEach_Some [OF t [unfolded Some]] by blast
    have "loop k = Some (result (Suc (k + j)) r)" by (subst loop_eq) (simp add: t Some j(2))
    then show ?thesis using j nth_mem [OF j(1)] by blast
  next
    case None
    note n = tryEach_None [OF t [unfolded None]]
    have "\<not> start \<le> k + i" using n assms(1) live [of "k + i"] by blast
    then have "start - k' < start - k" using n assms(1) by simp
    moreover have "loop k = loop k'" by (subst loop_eq) (simp add: t None)
    ultimately show ?thesis using less by simp
  qed
qed

end

interpretation qry: ask_loop "\<lambda>k srv. call k srv args" "\<lambda>r. qrWrongLeader r = False" "smServers ck" "\<lambda>k r. (k, qrConfig r)"
  "Query_loop call args ck" for call args ck
  by unfold_locales (rule Query_loop.simps)

interpretation jn: ask_loop "\<lambda>k srv. call k srv args" "\<lambda>r. jrWrongLeader r = False" "smServers ck" "\<lambda>k r. k"
  "Join_loop call args ck" for call args ck
  by unfold_locales (rule Join_loop.simps)

interpretation lv: ask_loop "\<lambda>k srv. call k srv args" "\<lambda>r. lrWrongLeader r = False" "smServers ck" "\<lambda>k r. k"
  "Leave_loop call args ck" for call args ck
  by unfold_locales (rule Leave_loop.simps)

interpretation mv: ask_loop "\<lambda>k srv. call k srv args" "\<lambda>r. mrWrongLeader r = False" "smServers ck" "\<lambda>k r. k"
  "Move_loop call args ck" for call args ck
  by unfold_locales (rule Move_loop.simps)

text \<open>A clerk of the shard master whose servers include one that answers as leader from some point on
  gets the answer of a server: \<open>Query\<close> returns the configuration of a reply that did not say \<open>WrongLeader\<close>.\<close>

theorem Clerk_Query_returns:
  assumes "i < length (smServers ck)"
    and "\<And>k. start \<le> k \<Longrightarrow> \<exists>r. call k (smServers ck ! i) \<lparr>qaNum = num\<rparr> = Some r \<and> \<not> qrWrongLeader r"
  shows "\<exists>j r s. s \<in> set (smServers ck) \<and> call j s \<lparr>qaNum = num\<rparr> = Some r \<and> \<not> qrWrongLeader r \<and>
    Clerk_Query call num ck k = Some (Suc j, qrConfig r)"
  using qry.returns [of i ck start call "\<lparr>qaNum = num\<rparr>" k] assms by (simp add: Clerk_Query_def)

text \<open>A server that answers from the fourth RPC on.\<close>

definition lateLeader :: "nat \<Rightarrow> bool \<Rightarrow> QueryArgs \<Rightarrow> QueryReply option" where
  "lateLeader k srv args =
     (if srv \<and> 2 < k then Some \<lparr>qrWrongLeader = False, qrErr = [], qrConfig = zeroConfig\<rparr> else None)"

theorem Clerk_Query_returns_witness: "\<exists>j. Clerk_Query lateLeader 7 \<lparr>smServers = [False, True]\<rparr> 0 = Some (j, zeroConfig)"
proof -
  have "\<exists>j r s. s \<in> set [False, True] \<and> lateLeader j s \<lparr>qaNum = 7\<rparr> = Some r \<and> \<not> qrWrongLeader r \<and>
      Clerk_Query lateLeader 7 \<lparr>smServers = [False, True]\<rparr> 0 = Some (Suc j, qrConfig r)"
    using Clerk_Query_returns [of 1 "\<lparr>smServers = [False, True]\<rparr>" 3 lateLeader 7 0] by (simp add: lateLeader_def)
  then show ?thesis by (auto simp: lateLeader_def split: if_splits)
qed

text \<open>The replies that \<open>labrpc\<close> decodes into start as zero values.\<close>

definition zeroQueryReply :: QueryReply where
  "zeroQueryReply = \<lparr>qrWrongLeader = False, qrErr = [], qrConfig = zeroConfig\<rparr>"

definition zeroJoinReply :: JoinReply where
  "zeroJoinReply = \<lparr>jrWrongLeader = False, jrErr = []\<rparr>"

text \<open>The handlers of the shard master are empty, so the clerk takes the zero reply of any server that
  it reaches for success: \<open>Join\<close> returns although no configuration was added, and \<open>Query\<close> returns the configuration
  without groups whatever number is asked for.\<close>

theorem stub_master:
  assumes "smServers ck \<noteq> []"
  shows "Clerk_Join (\<lambda>k s args. Some (snd (SM_Join args zeroJoinReply (sms s)))) groups ck k = Some (Suc k) \<and>
    configs (fst (SM_Join args reply sm)) = configs sm \<and>
    Clerk_Query (\<lambda>k s args. Some (snd (SM_Query args zeroQueryReply (sms s)))) num ck k = Some (Suc k, zeroConfig)"
proof -
  obtain s ss where "smServers ck = s # ss" using assms by (cases "smServers ck") auto
  then show ?thesis unfolding Clerk_Join_def Clerk_Query_def
    by (subst Join_loop.simps, subst Query_loop.simps)
      (simp add: SM_Join_def SM_Query_def zeroQueryReply_def zeroJoinReply_def)
qed

theorem stub_master_witness:
  "Clerk_Query (\<lambda>k s args. Some (snd (SM_Query args zeroQueryReply (SM_StartServer (0, 0) 1 0 MakePersister)))) (- 1)
     \<lparr>smServers = [0 :: nat]\<rparr> 0 = Some (1, zeroConfig)"
  using stub_master [of "\<lparr>smServers = [0 :: nat]\<rparr>" "\<lambda>_. SM_StartServer (0, 0) 1 0 MakePersister"] by simp

text \<open>Without servers the clerk waits for ever.\<close>

lemma Query_no_servers:
  assumes "smServers ck = []"
  shows "Query_loop call args ck k = None"
proof -
  have "Query_loop call args ck k = Some r \<Longrightarrow> smServers ck \<noteq> []" for r
    by (rule Query_loop.raw_induct [where P = "\<lambda>call args ck k r. smServers ck \<noteq> []"])
      (auto split: prod.splits option.splits)
  then show ?thesis using assms by (metis not_None_eq)
qed

text \<open>What \<open>Query\<close> returns is the configuration of a reply.\<close>

lemma Query_loop_from_reply:
  assumes "Query_loop call args ck k = Some r"
  shows "\<exists>j s reply. k \<le> j \<and> s \<in> set (smServers ck) \<and> call j s args = Some reply \<and> \<not> qrWrongLeader reply \<and>
    r = (Suc j, qrConfig reply)"
  using assms
proof (rule Query_loop.raw_induct [where P = "\<lambda>call args ck k r. \<exists>j s reply. k \<le> j \<and> s \<in> set (smServers ck) \<and>
    call j s args = Some reply \<and> \<not> qrWrongLeader reply \<and> r = (Suc j, qrConfig reply)", rotated])
  fix loop :: "(nat \<Rightarrow> 'a \<Rightarrow> QueryArgs \<Rightarrow> QueryReply option) \<Rightarrow> QueryArgs \<Rightarrow> 'a SmClerk \<Rightarrow> nat \<Rightarrow> (nat \<times> Config) option"
    and call args ck k r
  assume ih: "\<And>call args ck k r. loop call args ck k = Some r \<Longrightarrow> \<exists>j s reply. k \<le> j \<and> s \<in> set (smServers ck) \<and>
      call j s args = Some reply \<and> \<not> qrWrongLeader reply \<and> r = (Suc j, qrConfig reply)"
    and r: "(case tryEach (\<lambda>k srv. call k srv args) (\<lambda>r. qrWrongLeader r = False) k (smServers ck) of
        (k', Some reply) \<Rightarrow> Some (k', qrConfig reply) | (k', None) \<Rightarrow> loop call args ck k') = Some r"
  obtain k' o' where t: "tryEach (\<lambda>k srv. call k srv args) (\<lambda>r. qrWrongLeader r = False) k (smServers ck) = (k', o')"
    by fastforce
  show "\<exists>j s reply. k \<le> j \<and> s \<in> set (smServers ck) \<and>
      call j s args = Some reply \<and> \<not> qrWrongLeader reply \<and> r = (Suc j, qrConfig reply)"
  proof (cases o')
    case None
    then have "k \<le> k'" "loop call args ck k' = Some r" using tryEach_None [OF t [unfolded None]] r t by auto
    then show ?thesis using ih [of call args ck k' r] by (meson order_trans)
  next
    case (Some reply)
    obtain j where j: "j < length (smServers ck)" "k' = Suc (k + j)" "call (k + j) (smServers ck ! j) args = Some reply"
        "\<not> qrWrongLeader reply"
      using tryEach_Some [OF t [unfolded Some]] by auto
    moreover have "r = (Suc (k + j), qrConfig reply)" using r t Some j(2) by simp
    ultimately show ?thesis using nth_mem [OF j(1)] le_add1 by blast
  qed
qed

lemmas Clerk_Query_from_reply = Query_loop_from_reply [where args = "\<lparr>qaNum = num\<rparr>" for num, folded Clerk_Query_def]

end
