(* ===== verification/SMConfig.thy ===== *)
theory SMConfig
  imports ServerConfigNet ShardMaster
begin

text \<open>
  The test harness of the shard master, \<open>src/src/shardmaster/config.go\<close>. Its functions are those of
  \<open>kvraft/config.go\<close> on servers of type \<open>ShardMaster\<close>, so they are the definitions of \<open>ServerConfig\<close> with
  the way a shard master is started, killed and asked for its Raft state; there are no statistics and
  no \<open>SnapshotSize\<close>.
\<close>

type_synonym 'n sm_config = "(ShardMaster, SmOp gob_value, 'n) server_config"

definition smPersister :: "ShardMaster \<Rightarrow> SmOp gob_value Persister" where
  "smPersister sm = persister (sm_rf sm)"

definition SMC_cleanup :: "bool \<Rightarrow> int \<Rightarrow> 'n sm_config \<Rightarrow> 'n sm_config \<times> cfg_failure option" where
  "SMC_cleanup failed now cfg = cfg_cleanup SM_Kill failed now cfg"

definition SMC_LogSize :: "(SmOp gob_value list \<Rightarrow> nat) \<Rightarrow> 'n sm_config \<Rightarrow> cfg_failure + int" where
  "SMC_LogSize bytes cfg = LogSize bytes smPersister cfg"

definition SMC_makeClient ::
    "(nat \<Rightarrow> nat) \<Rightarrow> (nat \<Rightarrow> 'n) \<Rightarrow> nat \<Rightarrow> nat list \<Rightarrow> 'n sm_config \<Rightarrow> cfg_failure + 'n sm_config \<times> 'n SmClerk" where
  "SMC_makeClient rnd names ck to cfg = makeClient SM_MakeClerk rnd names ck to cfg"

definition SMC_ShutdownServer :: "nat \<Rightarrow> 'n sm_config \<Rightarrow> cfg_failure + 'n sm_config" where
  "SMC_ShutdownServer i cfg = ShutdownServer smPersister i cfg"

definition SMC_StartServer ::
    "clock \<Rightarrow> (nat \<Rightarrow> 'n) \<Rightarrow> nat \<Rightarrow> nat \<Rightarrow> 'n sm_config \<Rightarrow> cfg_failure + 'n sm_config" where
  "SMC_StartServer c names srv i cfg =
     StartServer smPersister (\<lambda>ps. SM_StartServer c (scN cfg) (int i) ps) names srv i cfg"

definition SMC_Leader :: "'n sm_config \<Rightarrow> cfg_failure + bool \<times> nat" where
  "SMC_Leader cfg = Leader (\<lambda>sm. GetState (sm_rf sm)) cfg"

definition SMC_make_partition :: "'n sm_config \<Rightarrow> cfg_failure + nat list \<times> nat list" where
  "SMC_make_partition cfg = make_partition (\<lambda>sm. GetState (sm_rf sm)) cfg"

definition SMC_random_handles :: "(nat \<Rightarrow> nat) \<Rightarrow> 'n list \<Rightarrow> 'n list" where
  "SMC_random_handles rnd kvh = random_handles rnd kvh"

definition SMC_checkTimeout :: "bool \<Rightarrow> int \<Rightarrow> 'n sm_config \<Rightarrow> cfg_failure option" where
  "SMC_checkTimeout failed now cfg = cfg_checkTimeout failed now cfg"

definition SMC_connect :: "nat \<Rightarrow> nat list \<Rightarrow> 'n sm_config \<Rightarrow> cfg_failure + 'n sm_config" where
  "SMC_connect i to cfg = connectUnlocked i to cfg"

definition SMC_disconnect :: "nat \<Rightarrow> nat list \<Rightarrow> 'n sm_config \<Rightarrow> cfg_failure + 'n sm_config" where
  "SMC_disconnect i srvs cfg = disconnectUnlocked i srvs cfg"

definition SMC_All :: "'n sm_config \<Rightarrow> nat list" where
  "SMC_All cfg = AllServers cfg"

definition SMC_ConnectAll :: "'n sm_config \<Rightarrow> cfg_failure + 'n sm_config" where
  "SMC_ConnectAll cfg = go_for (\<lambda>i cfg. SMC_connect i (SMC_All cfg) cfg) [0..<scN cfg] cfg"

definition SMC_partition :: "nat list \<Rightarrow> nat list \<Rightarrow> 'n sm_config \<Rightarrow> cfg_failure + 'n sm_config" where
  "SMC_partition p1 p2 cfg = partitionServers p1 p2 cfg"

definition SMC_deleteClient :: "nat \<Rightarrow> 'n sm_config \<Rightarrow> 'n sm_config" where
  "SMC_deleteClient ck cfg = deleteClient ck cfg"

definition SMC_ConnectClient :: "nat \<Rightarrow> nat list \<Rightarrow> 'n sm_config \<Rightarrow> cfg_failure + 'n sm_config" where
  "SMC_ConnectClient ck to cfg = ConnectClientUnlocked ck to cfg"

definition SMC_DisconnectClient :: "nat \<Rightarrow> nat list \<Rightarrow> 'n sm_config \<Rightarrow> cfg_failure + 'n sm_config" where
  "SMC_DisconnectClient ck srvs cfg = DisconnectClientUnlocked ck srvs cfg"

definition SMC_make_config ::
    "(nat \<Rightarrow> nat \<Rightarrow> 'n) \<Rightarrow> (nat \<Rightarrow> clock) \<Rightarrow> int \<Rightarrow> nat \<Rightarrow> bool \<Rightarrow> cfg_failure + 'n sm_config" where
  "SMC_make_config names cs now n unreliable =
     start_all smPersister (\<lambda>i ps. SM_StartServer (cs i) n (int i) ps) names unreliable
       \<lparr>scNet = MakeNetwork, scN = n, scServers = replicate n None, scSaved = replicate n None,
        scEndnames = replicate n None, scClerks = Map.empty, nextClientId = int n + 1000, scStart = now\<rparr>"

text \<open>The harness can be set up, and its servers can be partitioned.\<close>

lemma SMC_make_config_started:
  assumes "fresh n names"
  shows "\<exists>cfg. SMC_make_config names cs now n unreliable = Inr cfg \<and> started cfg \<and> scN cfg = n \<and>
    (\<forall>i < n. scServers cfg ! i = Some (SM_StartServer (cs i) n (int i) MakePersister))"
proof -
  let ?c = "\<lparr>scNet = MakeNetwork, scN = n, scServers = replicate n None, scSaved = replicate n None,
        scEndnames = replicate n None, scClerks = Map.empty, nextClientId = int n + 1000, scStart = now\<rparr> :: 'a sm_config"
  have "startedOn {} ?c" "ends (scNet ?c) = {}" "fresh (scN ?c) names"
    using assms by (simp_all add: startedOn_def MakeNetwork_def)
  moreover have "savedObj smPersister i ?c = Some None" if "i < scN ?c" for i
    using that by (simp add: savedObj_def go_nth_def)
  ultimately show ?thesis
    using start_all_started [of ?c names smPersister "\<lambda>i ps. SM_StartServer (cs i) n (int i) ps" unreliable]
    unfolding SMC_make_config_def by auto
qed

text \<open>The leader of a group of running shard masters can be put into a minority and be cut off.\<close>

lemma SMC_partition_leader:
  assumes st: "started cfg" and "odd (scN cfg)" and "3 \<le> scN cfg" and "\<forall>s \<in> set (scServers cfg). s \<noteq> None"
  shows "\<exists>found l p1 p2 cfg'. SMC_Leader cfg = Inr (found, l) \<and> SMC_make_partition cfg = Inr (p1, p2) \<and>
    l \<in> set p2 \<and> length p2 < length p1 \<and> SMC_partition p1 p2 cfg = Inr cfg' \<and>
    (\<forall>j < scN cfg. enabled (scNet cfg') (endName cfg l j) \<longleftrightarrow> j \<in> set p2)"
proof -
  obtain found l p1 p2 where p: "Leader (\<lambda>sm. GetState (sm_rf sm)) cfg = Inr (found, l)"
    "make_partition (\<lambda>sm. GetState (sm_rf sm)) cfg = Inr (p1, p2)" "l \<in> set p2"
    "2 * length p1 = scN cfg + 1" "2 * length p2 < scN cfg" "distinct (p1 @ p2)" "set (p1 @ p2) = {..<scN cfg}"
    using make_partition_minority [OF assms, of "\<lambda>sm. GetState (sm_rf sm)"] by blast
  moreover from this obtain cfg' where "partitionServers p1 p2 cfg = Inr cfg'"
    "\<forall>j < scN cfg. enabled (scNet cfg') (endName cfg l j) \<longleftrightarrow> j \<in> set p2"
    using partition_side [OF st p(6,7,3)] by blast
  ultimately show ?thesis by (auto simp: SMC_Leader_def SMC_make_partition_def SMC_partition_def)
qed

lemma SMC_restart:
  assumes "started cfg" and "i < scN cfg" and "scServers cfg ! i = Some sm"
    and "inj_on names {..<scN cfg}" and "names ` {..<scN cfg} \<inter> ends (scNet cfg) = {}"
  shows "\<exists>cfg1 cfg2. SMC_ShutdownServer i cfg = Inr cfg1 \<and> SMC_StartServer c names srv i cfg1 = Inr cfg2 \<and>
    scServers cfg2 ! i = Some (SM_StartServer c (scN cfg) (int i) (Persister_Copy (persister (sm_rf sm))))"
proof -
  have len: "length (scServers cfg) = scN cfg" "length (scSaved cfg) = scN cfg"
    using assms(1) by (simp_all add: startedOn_def)
  have sv: "savedObj smPersister i cfg = Some (Some (persister (sm_rf sm)))"
    using assms(2,3) len by (simp add: savedObj_def go_nth_def smPersister_def)
  obtain c1 where c1: "SMC_ShutdownServer i cfg = Inr c1" "started c1" "scN c1 = scN cfg"
    "scSaved c1 = (scSaved cfg)[i := Some (Persister_Copy (persister (sm_rf sm)))]"
    "scServers c1 = (scServers cfg)[i := None]" "ends (scNet c1) = ends (scNet cfg)"
    using ShutdownServer_started [OF assms(1,2), of smPersister] sv by (auto simp: SMC_ShutdownServer_def)
  have "savedObj smPersister i c1 = Some (Some (Persister_Copy (persister (sm_rf sm))))"
    using assms(2) len by (simp add: savedObj_def go_nth_def c1)
  then obtain c2 where "SMC_StartServer c names srv i c1 = Inr c2" "scServers c2 = (scServers c1)[i :=
      Some (SM_StartServer c (scN c1) (int i) (Persister_Copy (Persister_Copy (persister (sm_rf sm)))))]"
    using StartServer_started [OF c1(2), of i names smPersister "\<lambda>ps. SM_StartServer c (scN c1) (int i) ps" srv]
      assms(2,4,5) by (auto simp: SMC_StartServer_def c1)
  moreover have "Persister_Copy (Persister_Copy p) = Persister_Copy p" for p :: "SmOp gob_value Persister"
    by (simp add: Persister_Copy_def Let_def)
  ultimately show ?thesis using c1(1,3,5) assms(2) len by auto
qed

end
