(* ===== verification/ShardKV.thy ===== *)
theory ShardKV
  imports ShardMaster
begin

text \<open>
  The sharded key/value service, \<open>src/src/shardkv\<close>: the server of \<open>server.go\<close>, whose handlers
  have empty bodies, and the clerk of \<open>client.go\<close>, which finds the group of a key in a
  configuration of the shard master and asks the servers of that group.

  The clerk's RPCs, to the shard master and to the groups, are numbered together: \<open>ask k\<close> is the
  shard master's side of RPC \<open>k\<close>, \<open>call k\<close> the side of the groups. \<open>make_end\<close> turns names into
  endpoints.
\<close>

section \<open>common.go\<close>

abbreviation sk_OK :: string where
  "sk_OK \<equiv> ''OK''"

abbreviation sk_ErrNoKey :: string where
  "sk_ErrNoKey \<equiv> ''ErrNoKey''"

abbreviation sk_ErrWrongGroup :: string where
  "sk_ErrWrongGroup \<equiv> ''ErrWrongGroup''"

abbreviation sk_ErrWrongLeader :: string where
  "sk_ErrWrongLeader \<equiv> ''ErrWrongLeader''"

record SkPutAppendArgs =
  skpaKey :: string
  skpaValue :: string
  skpaOp :: string

record SkPutAppendReply =
  skprErr :: string

record SkGetArgs =
  skgaKey :: string

record SkGetReply =
  skgrErr :: string
  skgrValue :: string

section \<open>server.go\<close>

datatype SkOp = SkOp

record ('m, 'e) ShardKV =
  sk_me :: int
  sk_rf :: "SkOp Raft"
  sk_make_end :: "string \<Rightarrow> 'e"
  sk_gid :: int
  sk_masters :: "'m list"
  sk_maxraftstate :: int

definition SK_Get :: "SkGetArgs \<Rightarrow> SkGetReply \<Rightarrow> ('m, 'e) ShardKV \<Rightarrow> ('m, 'e) ShardKV \<times> SkGetReply" where
  "SK_Get args reply kv = (kv, reply)"

definition SK_PutAppend ::
    "SkPutAppendArgs \<Rightarrow> SkPutAppendReply \<Rightarrow> ('m, 'e) ShardKV \<Rightarrow> ('m, 'e) ShardKV \<times> SkPutAppendReply" where
  "SK_PutAppend args reply kv = (kv, reply)"

definition SK_Kill :: "('m, 'e) ShardKV \<Rightarrow> ('m, 'e) ShardKV" where
  "SK_Kill kv = kv\<lparr>sk_rf := Kill (sk_rf kv)\<rparr>"

definition SK_StartServer ::
    "clock \<Rightarrow> nat \<Rightarrow> int \<Rightarrow> SkOp gob_value Persister \<Rightarrow> int \<Rightarrow> int \<Rightarrow> 'm list \<Rightarrow> (string \<Rightarrow> 'e) \<Rightarrow> ('m, 'e) ShardKV" where
  "SK_StartServer c servers self ps maxstate gid masters make_end =
     \<lparr>sk_me = self, sk_rf = Make c servers self ps, sk_make_end = make_end, sk_gid = gid,
      sk_masters = masters, sk_maxraftstate = maxstate\<rparr>"

section \<open>client.go\<close>

definition key2shard :: "string \<Rightarrow> int" where
  "key2shard key =
     (let shard = (if length key > 0 then int (of_char (key ! 0)) else 0)
      in shard mod int NShards)"

record ('m, 'e) SkClerk =
  skSm :: "'m SmClerk"
  skConfig :: Config
  skMakeEnd :: "string \<Rightarrow> 'e"

definition SK_MakeClerk :: "'m list \<Rightarrow> (string \<Rightarrow> 'e) \<Rightarrow> ('m, 'e) SkClerk" where
  "SK_MakeClerk masters make_end =
     \<lparr>skSm = SM_MakeClerk masters, skConfig = zeroConfig, skMakeEnd = make_end\<rparr>"

text \<open>
  The loop over the servers of a group: an answer ends the call, \<open>ErrWrongGroup\<close> leaves the loop,
  everything else goes on to the next server.
\<close>

datatype 'r pass = Answer 'r | LeaveGroup

fun groupGet ::
    "(nat \<Rightarrow> 'e \<Rightarrow> SkGetArgs \<Rightarrow> SkGetReply option) \<Rightarrow> SkGetArgs \<Rightarrow> (string \<Rightarrow> 'e) \<Rightarrow> nat \<Rightarrow> string list
      \<Rightarrow> nat \<times> string pass" where
  "groupGet call args make_end k [] = (k, LeaveGroup)"
| "groupGet call args make_end k (name # names) =
     (case call k (make_end name) args of
        None \<Rightarrow> groupGet call args make_end (Suc k) names
      | Some reply \<Rightarrow>
          if skgrErr reply = sk_OK \<or> skgrErr reply = sk_ErrNoKey then (Suc k, Answer (skgrValue reply))
          else if skgrErr reply = sk_ErrWrongGroup then (Suc k, LeaveGroup)
          else groupGet call args make_end (Suc k) names)"

fun groupPut ::
    "(nat \<Rightarrow> 'e \<Rightarrow> SkPutAppendArgs \<Rightarrow> SkPutAppendReply option) \<Rightarrow> SkPutAppendArgs \<Rightarrow> (string \<Rightarrow> 'e) \<Rightarrow> nat
      \<Rightarrow> string list \<Rightarrow> nat \<times> unit pass" where
  "groupPut call args make_end k [] = (k, LeaveGroup)"
| "groupPut call args make_end k (name # names) =
     (case call k (make_end name) args of
        None \<Rightarrow> groupPut call args make_end (Suc k) names
      | Some reply \<Rightarrow>
          if skprErr reply = sk_OK then (Suc k, Answer ())
          else if skprErr reply = sk_ErrWrongGroup then (Suc k, LeaveGroup)
          else groupPut call args make_end (Suc k) names)"

text \<open>\<open>None\<close> when a loop, this one or the one of \<open>Query\<close>, never ends; an index out of range panics.\<close>

datatype sk_panic = ShardOutOfRange

partial_function (option) SK_Get_loop ::
    "(nat \<Rightarrow> 'm \<Rightarrow> QueryArgs \<Rightarrow> QueryReply option) \<Rightarrow> (nat \<Rightarrow> 'e \<Rightarrow> SkGetArgs \<Rightarrow> SkGetReply option)
      \<Rightarrow> string \<Rightarrow> ('m, 'e) SkClerk \<Rightarrow> nat \<Rightarrow> (sk_panic + ('m, 'e) SkClerk \<times> string) option" where
  "SK_Get_loop ask call key ck k =
     (case go_nth (Shards (skConfig ck)) (key2shard key) of
        None \<Rightarrow> Some (Inl ShardOutOfRange)
      | Some gid \<Rightarrow>
          (case (case Groups (skConfig ck) gid of
                   Some servers \<Rightarrow> groupGet call \<lparr>skgaKey = key\<rparr> (skMakeEnd ck) k servers
                 | None \<Rightarrow> (k, LeaveGroup)) of
             (k, Answer v) \<Rightarrow> Some (Inr (ck, v))
           | (k, LeaveGroup) \<Rightarrow>
               Option.bind (Clerk_Query ask (- 1) (skSm ck) k)
                 (\<lambda>r. SK_Get_loop ask call key (ck\<lparr>skConfig := snd r\<rparr>) (fst r))))"

definition SK_Clerk_Get ::
    "(nat \<Rightarrow> 'm \<Rightarrow> QueryArgs \<Rightarrow> QueryReply option) \<Rightarrow> (nat \<Rightarrow> 'e \<Rightarrow> SkGetArgs \<Rightarrow> SkGetReply option)
      \<Rightarrow> string \<Rightarrow> ('m, 'e) SkClerk \<Rightarrow> (sk_panic + ('m, 'e) SkClerk \<times> string) option" where
  "SK_Clerk_Get ask call key ck = SK_Get_loop ask call key ck 0"

partial_function (option) SK_PutAppend_loop ::
    "(nat \<Rightarrow> 'm \<Rightarrow> QueryArgs \<Rightarrow> QueryReply option) \<Rightarrow> (nat \<Rightarrow> 'e \<Rightarrow> SkPutAppendArgs \<Rightarrow> SkPutAppendReply option)
      \<Rightarrow> SkPutAppendArgs \<Rightarrow> ('m, 'e) SkClerk \<Rightarrow> nat \<Rightarrow> (sk_panic + ('m, 'e) SkClerk) option" where
  "SK_PutAppend_loop ask call args ck k =
     (case go_nth (Shards (skConfig ck)) (key2shard (skpaKey args)) of
        None \<Rightarrow> Some (Inl ShardOutOfRange)
      | Some gid \<Rightarrow>
          (case (case Groups (skConfig ck) gid of
                   Some servers \<Rightarrow> groupPut call args (skMakeEnd ck) k servers
                 | None \<Rightarrow> (k, LeaveGroup)) of
             (k, Answer u) \<Rightarrow> Some (Inr ck)
           | (k, LeaveGroup) \<Rightarrow>
               Option.bind (Clerk_Query ask (- 1) (skSm ck) k)
                 (\<lambda>r. SK_PutAppend_loop ask call args (ck\<lparr>skConfig := snd r\<rparr>) (fst r))))"

definition SK_Clerk_PutAppend ::
    "(nat \<Rightarrow> 'm \<Rightarrow> QueryArgs \<Rightarrow> QueryReply option) \<Rightarrow> (nat \<Rightarrow> 'e \<Rightarrow> SkPutAppendArgs \<Rightarrow> SkPutAppendReply option)
      \<Rightarrow> string \<Rightarrow> string \<Rightarrow> string \<Rightarrow> ('m, 'e) SkClerk \<Rightarrow> (sk_panic + ('m, 'e) SkClerk) option" where
  "SK_Clerk_PutAppend ask call key value oper ck =
     SK_PutAppend_loop ask call \<lparr>skpaKey = key, skpaValue = value, skpaOp = oper\<rparr> ck 0"

definition SK_Clerk_Put ::
    "(nat \<Rightarrow> 'm \<Rightarrow> QueryArgs \<Rightarrow> QueryReply option) \<Rightarrow> (nat \<Rightarrow> 'e \<Rightarrow> SkPutAppendArgs \<Rightarrow> SkPutAppendReply option)
      \<Rightarrow> string \<Rightarrow> string \<Rightarrow> ('m, 'e) SkClerk \<Rightarrow> (sk_panic + ('m, 'e) SkClerk) option" where
  "SK_Clerk_Put ask call key value ck = SK_Clerk_PutAppend ask call key value ''Put'' ck"

definition SK_Clerk_Append ::
    "(nat \<Rightarrow> 'm \<Rightarrow> QueryArgs \<Rightarrow> QueryReply option) \<Rightarrow> (nat \<Rightarrow> 'e \<Rightarrow> SkPutAppendArgs \<Rightarrow> SkPutAppendReply option)
      \<Rightarrow> string \<Rightarrow> string \<Rightarrow> ('m, 'e) SkClerk \<Rightarrow> (sk_panic + ('m, 'e) SkClerk) option" where
  "SK_Clerk_Append ask call key value ck = SK_Clerk_PutAppend ask call key value ''Append'' ck"

declare SK_Get_loop.simps [code] SK_PutAppend_loop.simps [code]

section \<open>Shards of keys\<close>

lemma key2shard_bounds: "0 \<le> key2shard key \<and> key2shard key < int NShards"
  by (simp add: key2shard_def NShards_def Let_def)

text \<open>Configurations have arrays of \<open>NShards\<close> entries.\<close>

abbreviation shardArray :: "Config \<Rightarrow> bool" where
  "shardArray c \<equiv> length (Shards c) = NShards"

definition shardArrays :: "(nat \<Rightarrow> 'm \<Rightarrow> QueryArgs \<Rightarrow> QueryReply option) \<Rightarrow> bool" where
  "shardArrays ask \<longleftrightarrow> (\<forall>k s args reply. ask k s args = Some reply \<longrightarrow> shardArray (qrConfig reply))"

text \<open>The group a configuration assigns to a key.\<close>

definition groupOf :: "Config \<Rightarrow> string \<Rightarrow> string list option" where
  "groupOf c key = Groups c (Shards c ! nat (key2shard key))"

lemma shard_in_range: "shardArray c \<Longrightarrow> go_nth (Shards c) (key2shard key) = Some (Shards c ! nat (key2shard key))"
  using key2shard_bounds [of key] by (simp add: go_nth_in)

section \<open>The clerk's loop\<close>

text \<open>
  The contract of \<open>Get\<close> and \<open>PutAppend\<close>: \<open>grp k names\<close> is the pass over the servers of a group,
  \<open>loop c k\<close> the loop with configuration \<open>c\<close>.
\<close>

locale shard_clerk =
  fixes ask :: "nat \<Rightarrow> 'm \<Rightarrow> QueryArgs \<Rightarrow> QueryReply option" and sm :: "'m SmClerk" and key :: string
    and grp :: "nat \<Rightarrow> string list \<Rightarrow> nat \<times> 'r pass" and result :: "Config \<Rightarrow> 'r \<Rightarrow> 'a"
    and loop :: "Config \<Rightarrow> nat \<Rightarrow> (sk_panic + 'a) option"
  assumes loop_eq: "shardArray c \<Longrightarrow>
      loop c k =
        (case (case groupOf c key of Some names \<Rightarrow> grp k names | None \<Rightarrow> (k, LeaveGroup)) of
           (k, Answer v) \<Rightarrow> Some (Inr (result c v))
         | (k, LeaveGroup) \<Rightarrow> Option.bind (Clerk_Query ask (- 1) sm k) (\<lambda>r. loop (snd r) (fst r)))"
    and grp_counts: "grp k names = (k', p) \<Longrightarrow> k \<le> k'"
begin

lemma loop_once:
  assumes "shardArray c"
  obtains (answered) v where "loop c k = Some (Inr (result c v))"
  | (again) k' where "k \<le> k'" "loop c k = Option.bind (Clerk_Query ask (- 1) sm k') (\<lambda>r. loop (snd r) (fst r))"
      "\<And>names. groupOf c key = Some names \<Longrightarrow> grp k names = (k', LeaveGroup)"
proof (cases "groupOf c key")
  case None
  then show thesis using loop_eq [OF assms, of k] again [of k] by simp
next
  case (Some names)
  obtain k' p where g: "grp k names = (k', p)" by fastforce
  show thesis
  proof (cases p)
    case (Answer v)
    then show thesis using loop_eq [OF assms, of k] g Some answered by simp
  next
    case LeaveGroup
    then show thesis using loop_eq [OF assms, of k] g Some again [of k'] grp_counts [OF g] by simp
  qed
qed

text \<open>
  From RPC \<open>start\<close> on the shard master answers with configuration \<open>c\<close>, and a pass over the key's
  group in \<open>c\<close> gives an answer: then the operation returns.
\<close>

lemma returns:
  assumes i: "i < length (smServers sm)"
    and live: "\<And>k. start \<le> k \<Longrightarrow> \<exists>r. ask k (smServers sm ! i) \<lparr>qaNum = - 1\<rparr> = Some r \<and> \<not> qrWrongLeader r"
    and arrays: "shardArrays ask"
    and stable: "\<And>k s r. start \<le> k \<Longrightarrow> ask k s \<lparr>qaNum = - 1\<rparr> = Some r \<Longrightarrow> \<not> qrWrongLeader r \<Longrightarrow> qrConfig r = c"
    and group: "groupOf c key = Some names"
    and pass: "\<And>k. start \<le> k \<Longrightarrow> \<exists>k' v. grp k names = (k', Answer v)"
    and now: "shardArray now"
  shows "\<exists>c' v. loop now k = Some (Inr (result c' v))"
  using now
proof (induction "start - k" arbitrary: k now rule: less_induct)
  case less
  show ?case
  proof (cases rule: loop_once [OF less.prems, of k])
    case (1 v)
    then show ?thesis by blast
  next
    case (2 k')
    obtain j s r where q: "s \<in> set (smServers sm)" "ask j s \<lparr>qaNum = - 1\<rparr> = Some r" "\<not> qrWrongLeader r"
        "Clerk_Query ask (- 1) sm k' = Some (Suc j, qrConfig r)"
      using qry.returns [of i sm start ask "\<lparr>qaNum = - 1\<rparr>" k'] i live by (auto simp: Clerk_Query_def)
    have "k' \<le> j" using Clerk_Query_from_reply [OF q(4)] by auto
    then have kj: "k \<le> j" using 2(1) by simp
    have next_loop: "loop now k = loop (qrConfig r) (Suc j)" using 2(2) q(4) by simp
    have arr: "shardArray (qrConfig r)" using arrays q(2) by (auto simp: shardArrays_def)
    show ?thesis
    proof (cases "start \<le> j")
      case True
      then have "qrConfig r = c" using stable q(2,3) by blast
      then obtain v where "loop (qrConfig r) (Suc j) = Some (Inr (result c v))"
        using loop_eq [OF arr, of "Suc j"] group pass [of "Suc j"] True by auto
      then show ?thesis using next_loop by auto
    next
      case False
      then have "start - Suc j < start - k" using kj by simp
      then show ?thesis using less.hyps [of "Suc j" "qrConfig r"] arr next_loop by simp
    qed
  qed
qed

end

lemma groupGet_counts: "groupGet call args make_end k names = (k', p) \<Longrightarrow> k \<le> k'"
proof (induction names arbitrary: k)
  case (Cons name names)
  then show ?case by (force split: option.splits if_splits dest: Suc_leD)
qed simp

lemma groupPut_counts: "groupPut call args make_end k names = (k', p) \<Longrightarrow> k \<le> k'"
proof (induction names arbitrary: k)
  case (Cons name names)
  then show ?case by (force split: option.splits if_splits dest: Suc_leD)
qed simp

interpretation get: shard_clerk ask "skSm ck" key "groupGet call \<lparr>skgaKey = key\<rparr> (skMakeEnd ck)"
  "\<lambda>c v. (ck\<lparr>skConfig := c\<rparr>, v)" "\<lambda>c k. SK_Get_loop ask call key (ck\<lparr>skConfig := c\<rparr>) k" for ask call key ck
proof (unfold_locales, goal_cases)
  case (1 c k)
  then show ?case
    by (subst SK_Get_loop.simps) (simp add: shard_in_range groupOf_def split: option.split)
next
  case (2 k names k' p)
  then show ?case by (rule groupGet_counts)
qed

interpretation put: shard_clerk ask "skSm ck" "skpaKey args" "groupPut call args (skMakeEnd ck)"
  "\<lambda>c u. ck\<lparr>skConfig := c\<rparr>" "\<lambda>c k. SK_PutAppend_loop ask call args (ck\<lparr>skConfig := c\<rparr>) k" for ask call args ck
proof (unfold_locales, goal_cases)
  case (1 c k)
  then show ?case
    by (subst SK_PutAppend_loop.simps) (simp add: shard_in_range groupOf_def split: option.split)
next
  case (2 k names k' p)
  then show ?case by (rule groupPut_counts)
qed

text \<open>One pass over a group with a server that answers.\<close>

lemma groupGet_answers:
  assumes "\<And>k. start \<le> k \<Longrightarrow> \<exists>r. call k (make_end name) args = Some r \<and> skgrErr r \<in> {sk_OK, sk_ErrNoKey}"
    and "\<And>k nm r. nm \<in> set names \<Longrightarrow> call k (make_end nm) args = Some r \<Longrightarrow> skgrErr r \<noteq> sk_ErrWrongGroup"
    and "name \<in> set names" and "start \<le> k"
  shows "\<exists>k' v. groupGet call args make_end k names = (k', Answer v)"
  using assms(2-4)
proof (induction names arbitrary: k)
  case (Cons nm names)
  have ih: "\<exists>k' v. groupGet call args make_end (Suc k) names = (k', Answer v)" if "name \<in> set names"
    by (rule Cons.IH) (use Cons.prems that in auto)
  show ?case
  proof (cases "call k (make_end nm) args")
    case None
    then have "nm \<noteq> name" using assms(1) Cons.prems(3) by fastforce
    then show ?thesis using None ih Cons.prems(2) by simp
  next
    case (Some r)
    then have "skgrErr r \<noteq> sk_ErrWrongGroup" by (rule Cons.prems(1) [rotated]) simp
    moreover have "nm = name \<Longrightarrow> skgrErr r \<in> {sk_OK, sk_ErrNoKey}" using assms(1) Cons.prems(3) Some by fastforce
    ultimately show ?thesis using Some ih Cons.prems(2) by auto
  qed
qed simp

text \<open>A clerk of the sharded store gets its answer. When from some point on a shard master answers with one
  configuration \<open>c\<close> and some server of the key's group in \<open>c\<close> answers \<open>Get\<close> while none of the group says
  \<open>ErrWrongGroup\<close>, \<open>Get\<close> returns, however stale the clerk's own configuration is.\<close>

theorem SK_Get_returns:
  assumes "i < length (smServers (skSm ck))"
    and "\<And>k. start \<le> k \<Longrightarrow> \<exists>r. ask k (smServers (skSm ck) ! i) \<lparr>qaNum = - 1\<rparr> = Some r \<and> \<not> qrWrongLeader r"
    and "shardArrays ask" and "length (Shards (skConfig ck)) = NShards"
    and "\<And>k s r. start \<le> k \<Longrightarrow> ask k s \<lparr>qaNum = - 1\<rparr> = Some r \<Longrightarrow> \<not> qrWrongLeader r \<Longrightarrow> qrConfig r = c"
    and "groupOf c key = Some names" and "name \<in> set names"
    and "\<And>k. start \<le> k \<Longrightarrow> \<exists>r. call k (skMakeEnd ck name) \<lparr>skgaKey = key\<rparr> = Some r \<and> skgrErr r \<in> {sk_OK, sk_ErrNoKey}"
    and "\<And>k nm r. nm \<in> set names \<Longrightarrow> call k (skMakeEnd ck nm) \<lparr>skgaKey = key\<rparr> = Some r \<Longrightarrow> skgrErr r \<noteq> sk_ErrWrongGroup"
  shows "\<exists>c' v. SK_Clerk_Get ask call key ck = Some (Inr (ck\<lparr>skConfig := c'\<rparr>, v))"
proof -
  have "\<exists>k' v. groupGet call \<lparr>skgaKey = key\<rparr> (skMakeEnd ck) k names = (k', Answer v)" if "start \<le> k" for k
    using groupGet_answers [of start call "skMakeEnd ck" name "\<lparr>skgaKey = key\<rparr>" names k] assms(7-9) that by blast
  from get.returns [of i ck start ask c key names call "skConfig ck" 0, OF assms(1,2,3,5,6) this assms(4)]
  show ?thesis by (simp add: SK_Clerk_Get_def)
qed

text \<open>A store with one group, whose clerk starts with the empty configuration.\<close>

definition oneGroup :: Config where
  "oneGroup = \<lparr>Num = 1, Shards = replicate NShards 100, Groups = [100 \<mapsto> [''a'', ''b'']]\<rparr>"

definition oneMaster :: "nat \<Rightarrow> nat \<Rightarrow> QueryArgs \<Rightarrow> QueryReply option" where
  "oneMaster k srv args = Some \<lparr>qrWrongLeader = False, qrErr = [], qrConfig = oneGroup\<rparr>"

definition leaderB :: "nat \<Rightarrow> string \<Rightarrow> SkGetArgs \<Rightarrow> SkGetReply option" where
  "leaderB k srv args = (if srv = ''b'' then Some \<lparr>skgrErr = sk_OK, skgrValue = ''v''\<rparr> else None)"

theorem SK_Get_returns_witness:
  "\<exists>c v. SK_Clerk_Get oneMaster leaderB ''x'' (SK_MakeClerk [0] id) = Some (Inr ((SK_MakeClerk [0] id)\<lparr>skConfig := c\<rparr>, v))"
  by (rule SK_Get_returns [where i = 0 and start = 0 and c = oneGroup and name = "''b''" and names = "[''a'', ''b'']"])
    (auto simp: SK_MakeClerk_def SM_MakeClerk_def oneMaster_def leaderB_def shardArrays_def oneGroup_def groupOf_def
      zeroConfig_def key2shard_def NShards_def Let_def)

section \<open>Where answers come from\<close>

definition getAnswer ::
    "(nat \<Rightarrow> 'e \<Rightarrow> SkGetArgs \<Rightarrow> SkGetReply option) \<Rightarrow> string \<Rightarrow> ('m, 'e) SkClerk \<Rightarrow> string \<Rightarrow> bool" where
  "getAnswer call key ck v \<longleftrightarrow>
     (\<exists>names name k reply. groupOf (skConfig ck) key = Some names \<and> name \<in> set names \<and>
        call k (skMakeEnd ck name) \<lparr>skgaKey = key\<rparr> = Some reply \<and> skgrErr reply \<in> {sk_OK, sk_ErrNoKey} \<and>
        v = skgrValue reply)"

lemma groupGet_from_reply:
  "groupGet call args make_end k names = (k', Answer v) \<Longrightarrow>
    \<exists>name j reply. name \<in> set names \<and> call j (make_end name) args = Some reply \<and>
      skgrErr reply \<in> {sk_OK, sk_ErrNoKey} \<and> v = skgrValue reply"
proof (induction names arbitrary: k)
  case (Cons name names)
  show ?case
  proof (cases "\<exists>reply. call k (make_end name) args = Some reply \<and> skgrErr reply \<in> {sk_OK, sk_ErrNoKey}")
    case True
    then obtain reply where "call k (make_end name) args = Some reply" "skgrErr reply \<in> {sk_OK, sk_ErrNoKey}" by blast
    moreover have "v = skgrValue reply" using calculation Cons.prems by auto
    ultimately show ?thesis by (metis list.set_intros(1))
  next
    case False
    then have "groupGet call args make_end (Suc k) names = (k', Answer v)"
      using Cons.prems by (auto split: option.splits if_splits)
    then show ?thesis using Cons.IH by fastforce
  qed
qed simp

lemma SK_Get_loop_from_reply:
  assumes "SK_Get_loop ask call key ck k = Some r"
  shows "shardArrays ask \<longrightarrow> shardArray (skConfig ck) \<longrightarrow>
    (\<exists>c v. r = Inr (ck\<lparr>skConfig := c\<rparr>, v) \<and> getAnswer call key (ck\<lparr>skConfig := c\<rparr>) v)"
  using assms
proof (rule SK_Get_loop.raw_induct [where P = "\<lambda>ask call key ck k r. shardArrays ask \<longrightarrow> shardArray (skConfig ck) \<longrightarrow>
    (\<exists>c v. r = Inr (ck\<lparr>skConfig := c\<rparr>, v) \<and> getAnswer call key (ck\<lparr>skConfig := c\<rparr>) v)", rotated], goal_cases)
  case (1 loop ask call key ck k r)
  show ?case
  proof (intro impI)
    assume arr: "shardArrays ask" "shardArray (skConfig ck)"
    let ?p = "case groupOf (skConfig ck) key of
        Some names \<Rightarrow> groupGet call \<lparr>skgaKey = key\<rparr> (skMakeEnd ck) k names | None \<Rightarrow> (k, LeaveGroup)"
    obtain k' p where p: "?p = (k', p)" by fastforce
    show "\<exists>c v. r = Inr (ck\<lparr>skConfig := c\<rparr>, v) \<and> getAnswer call key (ck\<lparr>skConfig := c\<rparr>) v"
    proof (cases p)
      case (Answer v)
      then have "r = Inr (ck, v)" using 1(2) p shard_in_range [OF arr(2), of key] by (simp add: groupOf_def)
      moreover have "getAnswer call key ck v"
        using p Answer groupGet_from_reply [of call "\<lparr>skgaKey = key\<rparr>" "skMakeEnd ck" k _ k' v]
        by (fastforce simp: getAnswer_def split: option.splits)
      ultimately show ?thesis by (intro exI [of _ "skConfig ck"] exI [of _ v]) simp
    next
      case LeaveGroup
      then obtain q where q: "Clerk_Query ask (- 1) (skSm ck) k' = Some q" "loop ask call key (ck\<lparr>skConfig := snd q\<rparr>) (fst q) = Some r"
        using 1(2) p shard_in_range [OF arr(2), of key] by (auto simp: groupOf_def split: Option.bind_splits)
      have "shardArray (snd q)" using Clerk_Query_from_reply [OF q(1)] arr(1) by (auto simp: shardArrays_def)
      then show ?thesis using 1(1) [OF q(2)] arr(1) by simp
    qed
  qed
qed

text \<open>Property C36: what \<open>Get\<close> of the sharded store's clerk returns is the value of a reply that is \<open>OK\<close> or
  \<open>ErrNoKey\<close>, from a server of the group that the clerk's configuration assigns to the key's shard; with arrays of
  \<open>NShards\<close> entries, as \<open>Config\<close> has, the index of the shard is never out of range.\<close>

theorem SK_Get_answer:
  assumes "SK_Clerk_Get ask call key ck = Some r" and "shardArrays ask" and "length (Shards (skConfig ck)) = NShards"
  shows "0 \<le> key2shard key \<and> key2shard key < 10 \<and>
    (\<exists>c v. r = Inr (ck\<lparr>skConfig := c\<rparr>, v) \<and> getAnswer call key (ck\<lparr>skConfig := c\<rparr>) v)"
  using SK_Get_loop_from_reply [of ask call key ck 0 r] assms key2shard_bounds [of key]
  by (simp add: SK_Clerk_Get_def NShards_def)

abbreviation demoClerk :: "(nat, string) SkClerk" where
  "demoClerk \<equiv> SK_MakeClerk [0] id"

lemma oneMaster_query: "Clerk_Query oneMaster num (SM_MakeClerk [0]) k = Some (Suc k, oneGroup)"
  unfolding Clerk_Query_def by (subst Query_loop.simps) (simp add: SK_MakeClerk_def SM_MakeClerk_def oneMaster_def)

lemma leaderB_answers: "SK_Clerk_Get oneMaster leaderB ''x'' demoClerk = Some (Inr (demoClerk\<lparr>skConfig := oneGroup\<rparr>, ''v''))"
proof -
  have k: "key2shard ''x'' = 0" by (simp add: key2shard_def NShards_def)
  have "SK_Get_loop oneMaster leaderB ''x'' (demoClerk\<lparr>skConfig := oneGroup\<rparr>) i = Some (Inr (demoClerk\<lparr>skConfig := oneGroup\<rparr>, ''v''))" for i
    by (subst SK_Get_loop.simps) (simp add: k oneGroup_def NShards_def go_nth_def SK_MakeClerk_def leaderB_def)
  moreover have "SK_Clerk_Get oneMaster leaderB ''x'' demoClerk = SK_Get_loop oneMaster leaderB ''x'' (demoClerk\<lparr>skConfig := oneGroup\<rparr>) 1"
    unfolding SK_Clerk_Get_def
    by (subst SK_Get_loop.simps)
      (simp add: k oneMaster_query SK_MakeClerk_def zeroConfig_def NShards_def go_nth_def)
  ultimately show ?thesis by simp
qed

theorem SK_Get_answer_witness: "\<exists>c. getAnswer leaderB ''x'' (demoClerk\<lparr>skConfig := c\<rparr>) ''v''"
proof -
  have "shardArrays oneMaster" "length (Shards (skConfig demoClerk)) = NShards"
    by (simp_all add: shardArrays_def oneMaster_def oneGroup_def SK_MakeClerk_def zeroConfig_def)
  from SK_Get_answer [OF leaderB_answers this] show ?thesis by auto
qed

text \<open>The handlers of the sharded store are empty, so every reply has the empty error and the clerk never
  gets an answer: \<open>Get\<close> runs for ever.\<close>

theorem stub_shardkv_never_answers:
  assumes "shardArrays ask" and "length (Shards (skConfig ck)) = NShards"
  shows "SK_Clerk_Get ask (\<lambda>k s args. Some (snd (SK_Get args \<lparr>skgrErr = [], skgrValue = []\<rparr> (kvs s)))) key ck = None"
proof (rule ccontr)
  let ?call = "\<lambda>k s args. Some (snd (SK_Get args \<lparr>skgrErr = [], skgrValue = []\<rparr> (kvs s)))"
  assume "SK_Clerk_Get ask ?call key ck \<noteq> None"
  then obtain r where "SK_Get_loop ask ?call key ck 0 = Some r" by (auto simp: SK_Clerk_Get_def)
  from SK_Get_loop_from_reply [OF this] assms show False by (auto simp: getAnswer_def SK_Get_def)
qed

theorem stub_shardkv_never_answers_witness:
  "SK_Clerk_Get oneMaster
     (\<lambda>k s args. Some (snd (SK_Get args \<lparr>skgrErr = [], skgrValue = []\<rparr>
        (SK_StartServer (0, 0) 1 0 MakePersister (- 1) 100 [0 :: nat] id)))) ''x'' (SK_MakeClerk [0] (id :: string \<Rightarrow> string)) = None"
  using stub_shardkv_never_answers [of oneMaster "SK_MakeClerk [0] id"
      "\<lambda>_. SK_StartServer (0, 0) 1 0 MakePersister (- 1) 100 [0 :: nat] id" "''x''"]
  by (simp add: shardArrays_def oneMaster_def oneGroup_def SK_MakeClerk_def zeroConfig_def NShards_def)

end
