(* ===== verification/SKConfig.thy ===== *)
theory SKConfig
  imports ServerConfigNet ShardKV Strconv
begin

text \<open>
  The test harness of the sharded key/value store, \<open>src/src/shardkv/config.go\<close>: three shard masters,
  three replica groups of \<open>n\<close> servers each, and clients.

  Random names are given by a function from the place where \<open>randstring\<close> is called to the name. The
  function \<open>make_end\<close> that servers and clerks are given makes a new endpoint at each call (\<open>make_end\<close>
  below); in the records of servers and clerks an end made by it is represented by the name of the
  server it leads to. An empty string in a slice of names is \<open>None\<close>.
\<close>

section \<open>Data\<close>

datatype draw = DMaster nat nat | DClerk nat | DServer nat nat nat | DServerMaster nat nat nat
  | DClient nat nat

datatype sk_failure = SkPanic | SkNetwork rpc_error | SkTooLong | LogTooBig int int | SnapshotNotEmpty

record 'n group =
  gg_gid :: nat
  gg_servers :: "('n, string) ShardKV option list"
  gg_saved :: "SkOp gob_value Persister option list"
  gg_endnames :: "'n list option list"
  gg_mendnames :: "'n list option list"

record 'n sk_config =
  skNet :: "('n, string) Network"
  skStart :: int
  nmasters :: nat
  masterservers :: "ShardMaster option list"
  mck :: "'n SmClerk"
  ngroups :: nat
  skN :: nat
  groups :: "'n group option list"
  skClerks :: "nat \<rightharpoonup> 'n option list"
  skNextClientId :: int
  skMaxraftstate :: int

section \<open>Names and endpoints\<close>

definition mastername :: "nat \<Rightarrow> string" where
  "mastername i = ''master'' @ itoa i"

definition servername :: "nat \<Rightarrow> nat \<Rightarrow> string" where
  "servername gid i = ''server-'' @ itoa gid @ ''-'' @ itoa i"

text \<open>\<open>MakeEnd\<close>, \<open>Connect\<close> and \<open>Enable\<close>, which always follow each other here.\<close>

definition make_end :: "'n \<Rightarrow> string \<Rightarrow> ('n, string) Network \<Rightarrow> sk_failure + ('n, string) Network" where
  "make_end name server nt =
     (case MakeEnd name nt of
        Inl e \<Rightarrow> Inl (SkNetwork e)
      | Inr nt \<Rightarrow> Inr (Enable name True (Connect name server nt)))"

section \<open>Checks and clients\<close>

definition sk_checkTimeout :: "bool \<Rightarrow> int \<Rightarrow> 'n sk_config \<Rightarrow> sk_failure option" where
  "sk_checkTimeout failed now cfg =
     (if \<not> failed \<and> now - skStart cfg > 120000 then Some SkTooLong else None)"

text \<open>The object \<open>gg.saved[i]\<close>, which a running server shares.\<close>

definition sk_saved :: "'n group \<Rightarrow> nat \<Rightarrow> SkOp gob_value Persister option option" where
  "sk_saved gg i =
     (case go_nth (gg_servers gg) (int i) of
        Some (Some kv) \<Rightarrow> Some (Some (persister (sk_rf kv)))
      | _ \<Rightarrow> go_nth (gg_saved gg) (int i))"

definition groupAt :: "nat \<Rightarrow> 'n sk_config \<Rightarrow> 'n group option" where
  "groupAt gi cfg = (case go_nth (groups cfg) (int gi) of Some g \<Rightarrow> g | None \<Rightarrow> None)"

definition checklogs :: "(SkOp gob_value list \<Rightarrow> nat) \<Rightarrow> 'n sk_config \<Rightarrow> sk_failure + unit" where
  "checklogs bytes cfg =
     go_for (\<lambda>gi. go_for (\<lambda>i u.
        case groupAt gi cfg of
          None \<Rightarrow> Inl SkPanic
        | Some gg \<Rightarrow>
            (case sk_saved gg i of
               Some (Some ps) \<Rightarrow>
                 let raft = RaftStateSize bytes ps; snap = int (bytes (ReadSnapshot ps))
                 in if skMaxraftstate cfg \<ge> 0 \<and> raft > 8 * skMaxraftstate cfg
                    then Inl (LogTooBig raft (skMaxraftstate cfg))
                    else if skMaxraftstate cfg < 0 \<and> snap > 0 then Inl SnapshotNotEmpty
                    else Inr u
             | _ \<Rightarrow> Inl SkPanic)) [0..<skN cfg]) [0..<ngroups cfg] ()"

text \<open>The slice of names has \<open>cfg.n\<close> places although there are \<open>cfg.nmasters\<close> names.\<close>

definition sk_makeClient ::
    "(draw \<Rightarrow> 'n) \<Rightarrow> nat \<Rightarrow> 'n sk_config \<Rightarrow> sk_failure + 'n sk_config \<times> ('n, string) SkClerk" where
  "sk_makeClient names ck cfg =
     (case go_for (\<lambda>j (ens, nt).
              case go_upd ens (int j) (Some (names (DClient ck j))) of
                None \<Rightarrow> Inl SkPanic
              | Some ens \<Rightarrow>
                  (case make_end (names (DClient ck j)) (mastername j) nt of
                     Inl e \<Rightarrow> Inl e
                   | Inr nt \<Rightarrow> Inr (ens, nt)))
            [0..<nmasters cfg] (replicate (skN cfg) None, skNet cfg) of
        Inl e \<Rightarrow> Inl e
      | Inr (ens, nt) \<Rightarrow>
          let clerk = SK_MakeClerk (map (\<lambda>j. names (DClient ck j)) [0..<nmasters cfg]) (\<lambda>s. s)
          in Inr (cfg\<lparr>skNet := nt, skClerks := (skClerks cfg)(ck \<mapsto> ens),
                      skNextClientId := skNextClientId cfg + 1\<rparr>, clerk))"

definition sk_deleteClient :: "nat \<Rightarrow> 'n sk_config \<Rightarrow> 'n sk_config" where
  "sk_deleteClient ck cfg = cfg\<lparr>skClerks := (skClerks cfg)(ck := None)\<rparr>"

section \<open>Servers and groups\<close>

definition disableAll :: "'n list \<Rightarrow> ('n, string) Network \<Rightarrow> ('n, string) Network" where
  "disableAll ns nt = fold (\<lambda>name. Enable name False) ns nt"

definition sk_ShutdownServer :: "nat \<Rightarrow> nat \<Rightarrow> 'n sk_config \<Rightarrow> sk_failure + 'n sk_config" where
  "sk_ShutdownServer gi i cfg =
     (case groupAt gi cfg of
        None \<Rightarrow> Inl SkPanic
      | Some gg \<Rightarrow>
          (case go_for (\<lambda>j nt.
                  case go_nth (gg_endnames gg) (int i) of
                    Some (Some ns) \<Rightarrow>
                      (case go_nth ns (int j) of
                         None \<Rightarrow> Inl SkPanic
                       | Some name \<Rightarrow> Inr (Enable name False nt))
                  | _ \<Rightarrow> Inl SkPanic) [0..<length (gg_servers gg)] (skNet cfg) of
             Inl e \<Rightarrow> Inl e
           | Inr nt \<Rightarrow>
               (case go_nth (gg_mendnames gg) (int i) of
                  None \<Rightarrow> Inl SkPanic
                | Some mns \<Rightarrow>
                    let nt = disableAll (case mns of None \<Rightarrow> [] | Some ns \<Rightarrow> ns) nt;
                        nt = DeleteServer (servername (gg_gid gg) i) nt
                    in case sk_saved gg i of
                         None \<Rightarrow> Inl SkPanic
                       | Some ps \<Rightarrow>
                           let gg = gg\<lparr>gg_saved := (gg_saved gg)[i := map_option Persister_Copy ps],
                                       gg_servers := (gg_servers gg)[i := None]\<rparr>
                           in Inr (cfg\<lparr>skNet := nt, groups := (groups cfg)[gi := Some gg]\<rparr>))))"

definition ShutdownGroup :: "nat \<Rightarrow> 'n sk_config \<Rightarrow> sk_failure + 'n sk_config" where
  "ShutdownGroup gi cfg = go_for (sk_ShutdownServer gi) [0..<skN cfg] cfg"

definition sk_cleanup ::
    "bool \<Rightarrow> int \<Rightarrow> 'n sk_config \<Rightarrow> sk_failure + 'n sk_config \<times> sk_failure option" where
  "sk_cleanup failed now cfg =
     (case go_for ShutdownGroup [0..<ngroups cfg] cfg of
        Inl e \<Rightarrow> Inl e
      | Inr cfg \<Rightarrow>
          let cfg = cfg\<lparr>skNet := Cleanup (skNet cfg)\<rparr>
          in Inr (cfg, sk_checkTimeout failed now cfg))"

text \<open>
  \<open>enames\<close> and \<open>mnames\<close> are the new names of the ends to the group and to the masters. The slice
  \<open>gg.mendnames\<close> has \<open>cfg.nmasters\<close> places although it is indexed by servers of the group.
\<close>

definition sk_StartServer ::
    "(nat \<Rightarrow> 'n) \<Rightarrow> (nat \<Rightarrow> 'n) \<Rightarrow> clock \<Rightarrow> nat \<Rightarrow> nat \<Rightarrow> nat \<Rightarrow> 'n sk_config \<Rightarrow> sk_failure + 'n sk_config" where
  "sk_StartServer enames mnames c srv gi i cfg =
     (case groupAt gi cfg of
        None \<Rightarrow> Inl SkPanic
      | Some gg \<Rightarrow>
          (case go_upd (gg_endnames gg) (int i) (Some (map enames [0..<skN cfg])) of
             None \<Rightarrow> Inl SkPanic
           | Some ens \<Rightarrow>
               (case go_for (\<lambda>j. make_end (enames j) (servername (gg_gid gg) j)) [0..<skN cfg] (skNet cfg) of
                  Inl e \<Rightarrow> Inl e
                | Inr nt \<Rightarrow>
                    (case go_upd (gg_mendnames gg) (int i) (Some (map mnames [0..<nmasters cfg])) of
                       None \<Rightarrow> Inl SkPanic
                     | Some mens \<Rightarrow>
                         (case go_for (\<lambda>j. make_end (mnames j) (mastername j)) [0..<nmasters cfg] nt of
                            Inl e \<Rightarrow> Inl e
                          | Inr nt \<Rightarrow>
                              (case sk_saved gg i of
                                 None \<Rightarrow> Inl SkPanic
                               | Some sv \<Rightarrow>
                                   let ps = (case sv of Some ps \<Rightarrow> Persister_Copy ps | None \<Rightarrow> MakePersister);
                                       kv = SK_StartServer c (skN cfg) (int i) ps (skMaxraftstate cfg)
                                              (int (gg_gid gg)) (map mnames [0..<nmasters cfg]) (\<lambda>s. s);
                                       gg = gg\<lparr>gg_endnames := ens, gg_mendnames := mens,
                                               gg_saved := (gg_saved gg)[i := Some ps],
                                               gg_servers := (gg_servers gg)[i := Some kv]\<rparr>
                                   in Inr (cfg\<lparr>skNet := AddServer (servername (gg_gid gg) i) srv nt,
                                               groups := (groups cfg)[gi := Some gg]\<rparr>)))))))"

definition StartGroup ::
    "(nat \<Rightarrow> nat \<Rightarrow> 'n) \<Rightarrow> (nat \<Rightarrow> nat \<Rightarrow> 'n) \<Rightarrow> (nat \<Rightarrow> clock) \<Rightarrow> (nat \<Rightarrow> nat) \<Rightarrow> nat \<Rightarrow> 'n sk_config
      \<Rightarrow> sk_failure + 'n sk_config" where
  "StartGroup enames mnames cs srvs gi cfg =
     go_for (\<lambda>i. sk_StartServer (enames i) (mnames i) (cs i) (srvs i) gi i) [0..<skN cfg] cfg"

definition StartMasterServer ::
    "(nat \<Rightarrow> 'n) \<Rightarrow> clock \<Rightarrow> nat \<Rightarrow> nat \<Rightarrow> 'n sk_config \<Rightarrow> sk_failure + 'n sk_config" where
  "StartMasterServer names c srv i cfg =
     (case go_for (\<lambda>j. make_end (names j) (mastername j)) [0..<nmasters cfg] (skNet cfg) of
        Inl e \<Rightarrow> Inl e
      | Inr nt \<Rightarrow>
          (case go_upd (masterservers cfg) (int i)
                 (Some (SM_StartServer c (nmasters cfg) (int i) MakePersister)) of
             None \<Rightarrow> Inl SkPanic
           | Some ms \<Rightarrow>
               Inr (cfg\<lparr>masterservers := ms, skNet := AddServer (mastername i) srv nt\<rparr>)))"

definition shardclerk :: "(nat \<Rightarrow> 'n) \<Rightarrow> 'n sk_config \<Rightarrow> sk_failure + 'n sk_config \<times> 'n SmClerk" where
  "shardclerk names cfg =
     (case go_for (\<lambda>j. make_end (names j) (mastername j)) [0..<nmasters cfg] (skNet cfg) of
        Inl e \<Rightarrow> Inl e
      | Inr nt \<Rightarrow> Inr (cfg\<lparr>skNet := nt\<rparr>, SM_MakeClerk (map names [0..<nmasters cfg])))"

section \<open>Joining and leaving\<close>

definition joinArgs :: "nat list \<Rightarrow> 'n sk_config \<Rightarrow> sk_failure + (int \<rightharpoonup> string list)" where
  "joinArgs gis cfg =
     go_for (\<lambda>g m.
        case groupAt g cfg of
          None \<Rightarrow> Inl SkPanic
        | Some gg \<Rightarrow> Inr (m(int (gg_gid gg) \<mapsto> map (servername (gg_gid gg)) [0..<skN cfg]))) gis Map.empty"

text \<open>\<open>call\<close> is the network; \<open>None\<close> inside is a clerk that never gets its answer.\<close>

definition joinm ::
    "(nat \<Rightarrow> 'n \<Rightarrow> JoinArgs \<Rightarrow> JoinReply option) \<Rightarrow> nat list \<Rightarrow> nat \<Rightarrow> 'n sk_config \<Rightarrow> sk_failure + nat option" where
  "joinm call gis k cfg =
     (case joinArgs gis cfg of Inl e \<Rightarrow> Inl e | Inr m \<Rightarrow> Inr (Clerk_Join call m (mck cfg) k))"

definition sk_join ::
    "(nat \<Rightarrow> 'n \<Rightarrow> JoinArgs \<Rightarrow> JoinReply option) \<Rightarrow> nat \<Rightarrow> nat \<Rightarrow> 'n sk_config \<Rightarrow> sk_failure + nat option" where
  "sk_join call gi k cfg = joinm call [gi] k cfg"

definition leaveArgs :: "nat list \<Rightarrow> 'n sk_config \<Rightarrow> sk_failure + int list" where
  "leaveArgs gis cfg =
     go_for (\<lambda>g gids.
        case groupAt g cfg of
          None \<Rightarrow> Inl SkPanic
        | Some gg \<Rightarrow> Inr (gids @ [int (gg_gid gg)])) gis []"

definition leavem ::
    "(nat \<Rightarrow> 'n \<Rightarrow> LeaveArgs \<Rightarrow> LeaveReply option) \<Rightarrow> nat list \<Rightarrow> nat \<Rightarrow> 'n sk_config \<Rightarrow> sk_failure + nat option" where
  "leavem call gis k cfg =
     (case leaveArgs gis cfg of Inl e \<Rightarrow> Inl e | Inr gids \<Rightarrow> Inr (Clerk_Leave call gids (mck cfg) k))"

definition sk_leave ::
    "(nat \<Rightarrow> 'n \<Rightarrow> LeaveArgs \<Rightarrow> LeaveReply option) \<Rightarrow> nat \<Rightarrow> nat \<Rightarrow> 'n sk_config \<Rightarrow> sk_failure + nat option" where
  "sk_leave call gi k cfg = leavem call [gi] k cfg"

section \<open>Set-up\<close>

text \<open>One iteration of the loop over the groups; \<open>cs gi i\<close> is the clock of server \<open>i\<close> of group \<open>gi\<close>.\<close>

definition newGroup ::
    "(draw \<Rightarrow> 'n) \<Rightarrow> (nat \<Rightarrow> nat \<Rightarrow> clock) \<Rightarrow> nat \<Rightarrow> 'n sk_config \<Rightarrow> sk_failure + 'n sk_config" where
  "newGroup names cs gi cfg =
     (let gg = \<lparr>gg_gid = 100 + gi, gg_servers = replicate (skN cfg) None, gg_saved = replicate (skN cfg) None,
                gg_endnames = replicate (skN cfg) None, gg_mendnames = replicate (nmasters cfg) None\<rparr>;
          cfg = cfg\<lparr>groups := (groups cfg)[gi := Some gg]\<rparr>
      in go_for (\<lambda>i. sk_StartServer (\<lambda>j. names (DServer gi i j)) (\<lambda>j. names (DServerMaster gi i j))
                        (cs gi i) (3 + skN cfg * gi + i) gi i) [0..<skN cfg] cfg)"

definition sk_make_config ::
    "(draw \<Rightarrow> 'n) \<Rightarrow> (nat \<Rightarrow> clock) \<Rightarrow> (nat \<Rightarrow> nat \<Rightarrow> clock) \<Rightarrow> int \<Rightarrow> nat \<Rightarrow> bool \<Rightarrow> int
      \<Rightarrow> sk_failure + 'n sk_config" where
  "sk_make_config names mcs cs now n unreliable maxstate =
     (let cfg = \<lparr>skNet = MakeNetwork, skStart = now, nmasters = 3, masterservers = replicate 3 None,
                 mck = SM_MakeClerk [], ngroups = 0, skN = 0, groups = [], skClerks = Map.empty,
                 skNextClientId = 0, skMaxraftstate = maxstate\<rparr>
      in case go_for (\<lambda>i. StartMasterServer (\<lambda>j. names (DMaster i j)) (mcs i) i i) [0..<nmasters cfg] cfg of
           Inl e \<Rightarrow> Inl e
         | Inr cfg \<Rightarrow>
             (case shardclerk (\<lambda>j. names (DClerk j)) cfg of
                Inl e \<Rightarrow> Inl e
              | Inr (cfg, clerk) \<Rightarrow>
                  let cfg = cfg\<lparr>mck := clerk, ngroups := 3, groups := replicate 3 None, skN := n\<rparr>
                  in (case go_for (newGroup names cs) [0..<ngroups cfg] cfg of
                        Inl e \<Rightarrow> Inl e
                      | Inr cfg \<Rightarrow>
                          Inr (cfg\<lparr>skClerks := Map.empty, skNextClientId := int n + 1000,
                                   skNet := Reliable (\<not> unreliable) (skNet cfg)\<rparr>))))"

end
