(* ===== verification/SKHarness.thy ===== *)
theory SKHarness
  imports SKConfig
begin

text \<open>
  The set-up of the sharded store's harness: which group sizes it works for, and that the servers it
  announces to the shard masters are those that run.
\<close>

section \<open>Names\<close>

lemma servername_inject [simp]: "servername g i = servername g' i' \<longleftrightarrow> g = g' \<and> i = i'"
  by (auto simp: servername_def itoa_split)

lemma mastername_inject [simp]: "mastername i = mastername j \<longleftrightarrow> i = j"
  by (simp add: mastername_def)

lemma master_server [simp]: "mastername i \<noteq> servername g j" "servername g j \<noteq> mastername i"
  by (simp_all add: mastername_def servername_def)

section \<open>Endpoints\<close>

lemma upt_split_at: "k < n \<Longrightarrow> [0..<n] = [0..<k] @ k # [Suc k..<n]"
  by (metis le_add_diff_inverse less_imp_le_nat plus_nat.add_0 upt_add_eq_append upt_conv_Cons zero_le)

lemma make_ends:
  assumes "distinct js" and "inj_on nm (set js)" and "nm ` set js \<inter> ends nt = {}"
  shows "\<exists>nt'. go_for (\<lambda>j. make_end (nm j) (t j)) js nt = Inr nt' \<and> ends nt' = ends nt \<union> nm ` set js \<and>
    netServers nt' = netServers nt"
  using assms
proof (induction js arbitrary: nt)
  case (Cons x js)
  let ?nt = "nt\<lparr>ends := insert (nm x) (ends nt), enabled := (enabled nt)(nm x := True),
     connections := (connections nt)(nm x := Some (t x))\<rparr>"
  have "make_end (nm x) (t x) nt = Inr ?nt"
    using Cons.prems(3) by (simp add: make_end_def MakeEnd_def Connect_def Enable_def)
  moreover obtain nt' where "go_for (\<lambda>j. make_end (nm j) (t j)) js ?nt = Inr nt'"
    "ends nt' = ends ?nt \<union> nm ` set js" "netServers nt' = netServers ?nt"
    using Cons.IH [of ?nt] Cons.prems by auto
  ultimately show ?case by (intro exI [of _ nt']) auto
qed simp

text \<open>The names drawn so far are those of the network's endpoints.\<close>

definition drawn :: "(draw \<Rightarrow> 'n) \<Rightarrow> draw set \<Rightarrow> 'n sk_config \<Rightarrow> bool" where
  "drawn names D cfg \<longleftrightarrow> ends (skNet cfg) = names ` D"

lemma make_drawn:
  assumes "inj names" and "inj d" and "drawn names D cfg" and "d ` {..<m} \<inter> D = {}"
  shows "\<exists>nt'. go_for (\<lambda>j. make_end (names (d j)) (t j)) [0..<m] (skNet cfg) = Inr nt' \<and>
    ends nt' = names ` (D \<union> d ` {..<m}) \<and> netServers nt' = netServers (skNet cfg)"
proof -
  have "inj_on (\<lambda>j. names (d j)) (set [0..<m])" using assms(1,2) by (auto simp: inj_def inj_on_def)
  moreover have "(\<lambda>j. names (d j)) ` set [0..<m] = names ` d ` {..<m}" by (auto simp: image_image)
  moreover have "names ` d ` {..<m} \<inter> names ` D = {}" using assms(1,4) by (simp flip: image_Int)
  ultimately show ?thesis
    using make_ends [of "[0..<m]" "\<lambda>j. names (d j)" "skNet cfg" t] assms(3)
    by (auto simp: drawn_def image_Un)
qed

section \<open>Masters\<close>

lemma start_masters:
  fixes cfg :: "'n sk_config"
  assumes "inj names" and "drawn names {} cfg" and "length (masterservers cfg) = nmasters cfg" and "m \<le> nmasters cfg"
  shows "\<exists>cfg'. go_for (\<lambda>i. StartMasterServer (\<lambda>j. names (DMaster i j)) (mcs i) i i) [0..<m] cfg = Inr cfg' \<and>
    (\<exists>ms nt. cfg' = cfg\<lparr>masterservers := ms, skNet := nt\<rparr> \<and> length ms = nmasters cfg) \<and>
    drawn names (\<Union>i < m. DMaster i ` {..<nmasters cfg}) cfg' \<and>
    (\<forall>i < m. netServers (skNet cfg') (mastername i) = Some i)"
  using assms(4)
proof (induction m)
  case 0
  show ?case using assms(2,3)
    by (auto intro!: exI [of _ "masterservers cfg"] exI [of _ "skNet cfg"])
next
  case (Suc m)
  let ?f = "\<lambda>i. StartMasterServer (\<lambda>j. names (DMaster i j)) (mcs i) i i" and ?k = "nmasters cfg"
  let ?D = "\<Union>i < m. DMaster i ` {..<?k}"
  from Suc obtain c1 ms nt where c1: "go_for ?f [0..<m] cfg = Inr c1" "c1 = cfg\<lparr>masterservers := ms, skNet := nt\<rparr>"
    "length ms = ?k" "drawn names ?D c1" "\<forall>i < m. netServers (skNet c1) (mastername i) = Some i" by auto
  have "inj (DMaster m)" by (simp add: inj_def)
  moreover have "DMaster m ` {..<?k} \<inter> ?D = {}" by auto
  ultimately obtain nt' where nt': "go_for (\<lambda>j. make_end (names (DMaster m j)) (mastername j)) [0..<?k] (skNet c1) = Inr nt'"
    "ends nt' = names ` (?D \<union> DMaster m ` {..<?k})" "netServers nt' = netServers (skNet c1)"
    using make_drawn [OF assms(1) _ c1(4), of "DMaster m" ?k mastername] by blast
  let ?ms = "ms[m := Some (SM_StartServer (mcs m) ?k (int m) MakePersister)]"
  let ?c = "cfg\<lparr>masterservers := ?ms, skNet := AddServer (mastername m) m nt'\<rparr>"
  have "?f m c1 = Inr ?c"
    using nt'(1) Suc.prems c1(3) by (simp add: StartMasterServer_def c1(2) go_upd_def)
  moreover have "drawn names (\<Union>i < Suc m. DMaster i ` {..<?k}) ?c"
    using nt'(2) by (simp add: drawn_def AddServer_def lessThan_Suc Un_commute)
  moreover have "\<forall>i < Suc m. netServers (skNet ?c) (mastername i) = Some i"
    using c1(5) nt'(3) by (simp add: AddServer_def less_Suc_eq)
  ultimately show ?case using c1(1,3)
    by (intro exI [of _ ?c] conjI exI [of _ ?ms] exI [of _ "AddServer (mastername m) m nt'"])
      (simp_all add: go_for_append)
qed

section \<open>Groups\<close>

definition group_shape :: "nat \<Rightarrow> nat \<Rightarrow> nat \<Rightarrow> 'n group \<Rightarrow> bool" where
  "group_shape n k gid gg \<longleftrightarrow> gg_gid gg = gid \<and> length (gg_servers gg) = n \<and> length (gg_saved gg) = n \<and>
     length (gg_endnames gg) = n \<and> length (gg_mendnames gg) = k"

lemma sk_saved_in: "group_shape n k gid gg \<Longrightarrow> i < n \<Longrightarrow> \<exists>ps. sk_saved gg i = Some ps"
  by (auto simp: group_shape_def sk_saved_def go_nth_def split: option.splits)

text \<open>What the start of a server may change.\<close>

definition same_setup :: "'n sk_config \<Rightarrow> 'n sk_config \<Rightarrow> bool" where
  "same_setup cfg cfg' \<longleftrightarrow> (\<exists>gs nt. cfg' = cfg\<lparr>groups := gs, skNet := nt\<rparr> \<and> length gs = length (groups cfg))"

lemma same_setup_refl [simp]: "same_setup cfg cfg"
  by (auto simp: same_setup_def intro!: exI [of _ "groups cfg"] exI [of _ "skNet cfg"])

lemma same_setup_trans: "same_setup a b \<Longrightarrow> same_setup b c \<Longrightarrow> same_setup a c"
  unfolding same_setup_def by (elim exE conjE, hypsubst) (rule exI, rule exI, rule conjI, simp, simp)

lemma same_setup_fields:
  "same_setup cfg cfg' \<Longrightarrow> skN cfg' = skN cfg \<and> nmasters cfg' = nmasters cfg \<and> ngroups cfg' = ngroups cfg \<and>
    mck cfg' = mck cfg \<and> length (groups cfg') = length (groups cfg)"
  by (auto simp: same_setup_def)

abbreviation startAs :: "(draw \<Rightarrow> 'n) \<Rightarrow> clock \<Rightarrow> nat \<Rightarrow> nat \<Rightarrow> nat \<Rightarrow> 'n sk_config \<Rightarrow> sk_failure + 'n sk_config" where
  "startAs names c srv gi i \<equiv> sk_StartServer (\<lambda>j. names (DServer gi i j)) (\<lambda>j. names (DServerMaster gi i j)) c srv gi i"

definition serverDraws :: "nat \<Rightarrow> nat \<Rightarrow> nat \<Rightarrow> nat \<Rightarrow> draw set" where
  "serverDraws n k gi i = DServer gi i ` {..<n} \<union> DServerMaster gi i ` {..<k}"

lemma sk_StartServer_ok:
  fixes cfg :: "'n sk_config"
  assumes inj: "inj names" and d: "drawn names D cfg" "D \<inter> serverDraws (skN cfg) (nmasters cfg) gi i = {}"
    and gg: "gi < length (groups cfg)" "groups cfg ! gi = Some gg" "group_shape (skN cfg) (nmasters cfg) gid gg"
    and i: "i < skN cfg"
  shows "if i < nmasters cfg then
    \<exists>cfg' gg'. startAs names c srv gi i cfg = Inr cfg' \<and> same_setup cfg cfg' \<and>
      groups cfg' = (groups cfg)[gi := Some gg'] \<and> group_shape (skN cfg) (nmasters cfg) gid gg' \<and>
      drawn names (D \<union> serverDraws (skN cfg) (nmasters cfg) gi i) cfg' \<and>
      netServers (skNet cfg') = (netServers (skNet cfg))(servername gid i \<mapsto> srv)
    else startAs names c srv gi i cfg = Inl SkPanic"
proof -
  let ?n = "skN cfg" and ?k = "nmasters cfg"
  have at: "groupAt gi cfg = Some gg" using gg by (simp add: groupAt_def go_nth_def)
  have sh: "gg_gid gg = gid" "length (gg_endnames gg) = ?n" "length (gg_mendnames gg) = ?k"
    using gg(3) by (simp_all add: group_shape_def)
  have "inj (DServer gi i)" "inj (DServerMaster gi i)" by (simp_all add: inj_def)
  note injs = this
  have "DServer gi i ` {..<?n} \<inter> D = {}" using d(2) unfolding serverDraws_def by blast
  from make_drawn [OF inj injs(1) d(1) this]
  obtain nt1 where nt1: "go_for (\<lambda>j. make_end (names (DServer gi i j)) (servername gid j)) [0..<?n] (skNet cfg) = Inr nt1"
    "ends nt1 = names ` (D \<union> DServer gi i ` {..<?n})" "netServers nt1 = netServers (skNet cfg)" by blast
  let ?c1 = "cfg\<lparr>skNet := nt1\<rparr>"
  have "drawn names (D \<union> DServer gi i ` {..<?n}) ?c1" using nt1(2) by (simp add: drawn_def)
  moreover have "DServerMaster gi i ` {..<?k} \<inter> (D \<union> DServer gi i ` {..<?n}) = {}"
    using d(2) unfolding serverDraws_def by blast
  ultimately obtain nt2 where nt2: "go_for (\<lambda>j. make_end (names (DServerMaster gi i j)) (mastername j)) [0..<?k] nt1 = Inr nt2"
    "ends nt2 = names ` (D \<union> DServer gi i ` {..<?n} \<union> DServerMaster gi i ` {..<?k})" "netServers nt2 = netServers nt1"
    using make_drawn [OF inj injs(2), of "D \<union> DServer gi i ` {..<?n}" ?c1 ?k mastername] by auto
  obtain sv where sv: "sk_saved gg i = Some sv" using sk_saved_in [OF gg(3) i] by blast
  show ?thesis
  proof (cases "i < ?k")
    case True
    let ?ps = "case sv of Some ps \<Rightarrow> Persister_Copy ps | None \<Rightarrow> MakePersister"
    let ?kv = "SK_StartServer c ?n (int i) ?ps (skMaxraftstate cfg) (int gid) (map (\<lambda>j. names (DServerMaster gi i j)) [0..<?k]) (\<lambda>s. s)"
    define gg' where "gg' = gg\<lparr>gg_endnames := (gg_endnames gg)[i := Some (map (\<lambda>j. names (DServer gi i j)) [0..<?n])],
       gg_mendnames := (gg_mendnames gg)[i := Some (map (\<lambda>j. names (DServerMaster gi i j)) [0..<?k])],
       gg_saved := (gg_saved gg)[i := Some ?ps], gg_servers := (gg_servers gg)[i := Some ?kv]\<rparr>"
    let ?c = "cfg\<lparr>skNet := AddServer (servername gid i) srv nt2, groups := (groups cfg)[gi := Some gg']\<rparr>"
    have "startAs names c srv gi i cfg = Inr ?c"
      using nt1(1) nt2(1) sv sh i True by (simp add: sk_StartServer_def at go_upd_def Let_def gg'_def)
    moreover have "group_shape ?n ?k gid gg'" using gg(3) by (simp add: gg'_def group_shape_def)
    moreover have "same_setup cfg ?c" unfolding same_setup_def
      by (intro exI [of _ "(groups cfg)[gi := Some gg']"] exI [of _ "AddServer (servername gid i) srv nt2"]) simp
    moreover have "drawn names (D \<union> serverDraws ?n ?k gi i) ?c"
      using nt2(2) by (simp add: drawn_def AddServer_def serverDraws_def Un_assoc)
    moreover have "netServers (skNet ?c) = (netServers (skNet cfg))(servername gid i \<mapsto> srv)"
      using nt1(3) nt2(3) by (simp add: AddServer_def)
    ultimately show ?thesis using True by (simp del: fun_upd_apply) (intro exI [of _ ?c] conjI exI [of _ gg'], simp_all)
  next
    case False
    then have "startAs names c srv gi i cfg = Inl SkPanic"
      using nt1(1) sh i by (simp add: sk_StartServer_def at go_upd_def)
    then show ?thesis using False by simp
  qed
qed

lemma start_servers_of_group:
  fixes cfg :: "'n sk_config"
  assumes inj: "inj names" and d: "drawn names D cfg" "\<And>i. D \<inter> serverDraws (skN cfg) (nmasters cfg) gi i = {}"
    and gg: "gi < length (groups cfg)" "groups cfg ! gi = Some gg" "group_shape (skN cfg) (nmasters cfg) gid gg"
    and m: "m \<le> skN cfg" "m \<le> nmasters cfg"
  shows "\<exists>cfg' gg'. go_for (\<lambda>i. startAs names (cs i) (srv i) gi i) [0..<m] cfg = Inr cfg' \<and> same_setup cfg cfg' \<and>
    groups cfg' = (groups cfg)[gi := Some gg'] \<and> group_shape (skN cfg) (nmasters cfg) gid gg' \<and>
    drawn names (D \<union> (\<Union>i < m. serverDraws (skN cfg) (nmasters cfg) gi i)) cfg' \<and>
    (\<forall>i < m. netServers (skNet cfg') (servername gid i) = Some (srv i)) \<and>
    (\<forall>s. (\<forall>i < m. s \<noteq> servername gid i) \<longrightarrow> netServers (skNet cfg') s = netServers (skNet cfg) s)"
  using m
proof (induction m)
  case 0
  have "groups cfg = (groups cfg)[gi := Some gg]" using gg(2) by (metis list_update_id)
  then show ?case using d(1) gg(3) by (intro exI [of _ cfg] exI [of _ gg]) simp
next
  case (Suc m)
  let ?n = "skN cfg" and ?k = "nmasters cfg" and ?f = "\<lambda>i. startAs names (cs i) (srv i) gi i"
  let ?D = "D \<union> (\<Union>i < m. serverDraws ?n ?k gi i)"
  from Suc obtain c1 g1 where c1: "go_for ?f [0..<m] cfg = Inr c1" "same_setup cfg c1"
    "groups c1 = (groups cfg)[gi := Some g1]" "group_shape ?n ?k gid g1" "drawn names ?D c1"
    "\<forall>i < m. netServers (skNet c1) (servername gid i) = Some (srv i)"
    "\<forall>s. (\<forall>i < m. s \<noteq> servername gid i) \<longrightarrow> netServers (skNet c1) s = netServers (skNet cfg) s" by auto
  note same = same_setup_fields [OF c1(2)]
  have dis: "?D \<inter> serverDraws ?n ?k gi m = {}"
    using d(2) [of m] by (auto simp: serverDraws_def)
  have "m < ?k" "m < ?n" using Suc.prems by simp_all
  with sk_StartServer_ok [OF inj c1(5), of gi m g1 gid "cs m" "srv m"] dis c1(3,4) same gg(1)
  obtain c2 g2 where c2: "?f m c1 = Inr c2" "same_setup c1 c2" "groups c2 = (groups c1)[gi := Some g2]"
    "group_shape ?n ?k gid g2" "drawn names (?D \<union> serverDraws ?n ?k gi m) c2"
    "netServers (skNet c2) = (netServers (skNet c1))(servername gid m \<mapsto> srv m)"
    by auto
  have "go_for ?f [0..<Suc m] cfg = Inr c2" using c1(1) c2(1) by (simp add: go_for_append)
  moreover have "same_setup cfg c2" using c1(2) c2(2) by (rule same_setup_trans)
  moreover have "groups c2 = (groups cfg)[gi := Some g2]" using c1(3) c2(3) by simp
  moreover have "drawn names (D \<union> (\<Union>i < Suc m. serverDraws ?n ?k gi i)) c2"
    using c2(5) by (simp add: lessThan_Suc Un_ac)
  moreover have "\<forall>i < Suc m. netServers (skNet c2) (servername gid i) = Some (srv i)"
    using c1(6) c2(6) by (simp add: less_Suc_eq)
  moreover have "\<forall>s. (\<forall>i < Suc m. s \<noteq> servername gid i) \<longrightarrow> netServers (skNet c2) s = netServers (skNet cfg) s"
    using c1(7) c2(6) by simp
  ultimately show ?case using c2(4) by blast
qed

text \<open>One group: it is set up when it has at most as many servers as there are masters.\<close>

definition groupDraws :: "nat \<Rightarrow> nat \<Rightarrow> nat \<Rightarrow> draw set" where
  "groupDraws n k gi = (\<Union>i < n. serverDraws n k gi i)"

lemma newGroup_start:
  "newGroup names cs gi cfg =
     go_for (\<lambda>i. startAs names (cs gi i) (3 + skN cfg * gi + i) gi i) [0..<skN cfg]
       (cfg\<lparr>groups := (groups cfg)[gi := Some
          \<lparr>gg_gid = 100 + gi, gg_servers = replicate (skN cfg) None, gg_saved = replicate (skN cfg) None,
           gg_endnames = replicate (skN cfg) None, gg_mendnames = replicate (nmasters cfg) None\<rparr>]\<rparr>)"
  by (simp add: newGroup_def Let_def)

lemma newGroup_ok:
  fixes cfg :: "'n sk_config"
  assumes inj: "inj names" and d: "drawn names D cfg" "\<And>i. D \<inter> serverDraws (skN cfg) (nmasters cfg) gi i = {}"
    and gi: "gi < length (groups cfg)"
  shows "if skN cfg \<le> nmasters cfg then
    \<exists>cfg' gg'. newGroup names cs gi cfg = Inr cfg' \<and> same_setup cfg cfg' \<and>
      groups cfg' = (groups cfg)[gi := Some gg'] \<and> gg_gid gg' = 100 + gi \<and>
      drawn names (D \<union> groupDraws (skN cfg) (nmasters cfg) gi) cfg' \<and>
      (\<forall>i < skN cfg. netServers (skNet cfg') (servername (100 + gi) i) = Some (3 + skN cfg * gi + i)) \<and>
      (\<forall>s. (\<forall>i < skN cfg. s \<noteq> servername (100 + gi) i) \<longrightarrow> netServers (skNet cfg') s = netServers (skNet cfg) s)
    else newGroup names cs gi cfg = Inl SkPanic"
proof -
  let ?n = "skN cfg" and ?k = "nmasters cfg"
  let ?gg = "\<lparr>gg_gid = 100 + gi, gg_servers = replicate ?n None, gg_saved = replicate ?n None,
           gg_endnames = replicate ?n None, gg_mendnames = replicate ?k None\<rparr> :: 'n group"
  let ?c = "cfg\<lparr>groups := (groups cfg)[gi := Some ?gg]\<rparr>"
  let ?f = "\<lambda>i. startAs names (cs gi i) (3 + ?n * gi + i) gi i"
  have c: "drawn names D ?c" "gi < length (groups ?c)" "groups ?c ! gi = Some ?gg" "group_shape ?n ?k (100 + gi) ?gg"
    "skN ?c = ?n" "nmasters ?c = ?k"
    using d(1) gi by (simp_all add: drawn_def group_shape_def)
  have s0: "same_setup cfg ?c" unfolding same_setup_def
    by (rule exI [of _ "(groups cfg)[gi := Some ?gg]"], rule exI [of _ "skNet cfg"]) simp
  have step: "\<exists>cfg' gg'. go_for ?f [0..<m] ?c = Inr cfg' \<and> same_setup ?c cfg' \<and>
      groups cfg' = (groups ?c)[gi := Some gg'] \<and> group_shape ?n ?k (100 + gi) gg' \<and>
      drawn names (D \<union> (\<Union>i < m. serverDraws ?n ?k gi i)) cfg' \<and>
      (\<forall>i < m. netServers (skNet cfg') (servername (100 + gi) i) = Some (3 + ?n * gi + i)) \<and>
      (\<forall>s. (\<forall>i < m. s \<noteq> servername (100 + gi) i) \<longrightarrow> netServers (skNet cfg') s = netServers (skNet ?c) s)"
    if "m \<le> ?n" "m \<le> ?k" for m
    using start_servers_of_group [OF inj c(1) _ c(2,3), where gid = "100 + gi" and m = m and cs = "cs gi"
        and srv = "\<lambda>i. 3 + ?n * gi + i"] d(2) c(4-6) that by simp
  show ?thesis
  proof (cases "?n \<le> ?k")
    case True
    from step [OF order_refl this] obtain c1 g1 where c1: "go_for ?f [0..<?n] ?c = Inr c1" "same_setup ?c c1"
      "groups c1 = (groups ?c)[gi := Some g1]" "group_shape ?n ?k (100 + gi) g1"
      "drawn names (D \<union> groupDraws ?n ?k gi) c1"
      "\<forall>i < ?n. netServers (skNet c1) (servername (100 + gi) i) = Some (3 + ?n * gi + i)"
      "\<forall>s. (\<forall>i < ?n. s \<noteq> servername (100 + gi) i) \<longrightarrow> netServers (skNet c1) s = netServers (skNet ?c) s"
      unfolding groupDraws_def by blast
    have "newGroup names cs gi cfg = Inr c1" using c1(1) by (simp add: newGroup_start)
    moreover have "same_setup cfg c1" by (rule same_setup_trans [OF s0 c1(2)])
    moreover have "groups c1 = (groups cfg)[gi := Some g1]" using c1(3) by simp
    moreover have "gg_gid g1 = 100 + gi" using c1(4) by (simp add: group_shape_def)
    moreover have "netServers (skNet ?c) = netServers (skNet cfg)" by simp
    ultimately show ?thesis using True c1(5-7) by (simp only: if_True) metis
  next
    case False
    then have "?k \<le> ?n" "[0..<?n] = [0..<?k] @ ?k # [Suc ?k..<?n]" using upt_split_at [of ?k ?n] by simp_all
    from step [OF this(1) order_refl] obtain c1 g1 where c1: "go_for ?f [0..<?k] ?c = Inr c1" "same_setup ?c c1"
      "groups c1 = (groups ?c)[gi := Some g1]" "group_shape ?n ?k (100 + gi) g1"
      "drawn names (D \<union> (\<Union>i < ?k. serverDraws ?n ?k gi i)) c1" by blast
    note same = same_setup_fields [OF c1(2)]
    have "(D \<union> (\<Union>i < ?k. serverDraws ?n ?k gi i)) \<inter> serverDraws ?n ?k gi ?k = {}"
      using d(2) [of ?k] by (auto simp: serverDraws_def)
    then have "?f ?k c1 = Inl SkPanic"
      using sk_StartServer_ok [OF inj c1(5), of gi ?k g1 "100 + gi" "cs gi ?k" "3 + ?n * gi + ?k"] c1(3,4) same c(5,6) gi False
      by simp
    then have "newGroup names cs gi cfg = Inl SkPanic"
      unfolding newGroup_start \<open>[0..<?n] = [0..<?k] @ ?k # [Suc ?k..<?n]\<close>
      using c1(1) by (simp add: go_for_append)
    then show ?thesis using False by simp
  qed
qed

lemma start_groups:
  fixes cfg :: "'n sk_config"
  assumes inj: "inj names" and d: "drawn names D cfg" "\<And>gi i. D \<inter> serverDraws (skN cfg) (nmasters cfg) gi i = {}"
    and le: "skN cfg \<le> nmasters cfg" and m: "m \<le> length (groups cfg)"
  shows "\<exists>cfg'. go_for (newGroup names cs) [0..<m] cfg = Inr cfg' \<and> same_setup cfg cfg' \<and>
    drawn names (D \<union> (\<Union>gi < m. groupDraws (skN cfg) (nmasters cfg) gi)) cfg' \<and>
    (\<forall>gi < m. \<exists>gg. groups cfg' ! gi = Some gg \<and> gg_gid gg = 100 + gi) \<and>
    (\<forall>gi < m. \<forall>i < skN cfg. netServers (skNet cfg') (servername (100 + gi) i) = Some (3 + skN cfg * gi + i)) \<and>
    (\<forall>j. netServers (skNet cfg') (mastername j) = netServers (skNet cfg) (mastername j))"
  using m
proof (induction m)
  case 0
  then show ?case using d(1) by simp
next
  case (Suc m)
  let ?n = "skN cfg" and ?k = "nmasters cfg" and ?f = "newGroup names cs"
  let ?D = "D \<union> (\<Union>gi < m. groupDraws ?n ?k gi)"
  from Suc obtain c1 where c1: "go_for ?f [0..<m] cfg = Inr c1" "same_setup cfg c1" "drawn names ?D c1"
    "\<forall>gi < m. \<exists>gg. groups c1 ! gi = Some gg \<and> gg_gid gg = 100 + gi"
    "\<forall>gi < m. \<forall>i < ?n. netServers (skNet c1) (servername (100 + gi) i) = Some (3 + ?n * gi + i)"
    "\<forall>j. netServers (skNet c1) (mastername j) = netServers (skNet cfg) (mastername j)" by auto
  note same = same_setup_fields [OF c1(2)]
  have dis: "?D \<inter> serverDraws (skN c1) (nmasters c1) m i = {}" for i
    using d(2) [of m i] same by (auto simp: serverDraws_def groupDraws_def)
  from newGroup_ok [OF inj c1(3) dis, of cs] same le Suc.prems
  obtain c2 g2 where c2: "?f m c1 = Inr c2" "same_setup c1 c2" "groups c2 = (groups c1)[m := Some g2]"
    "gg_gid g2 = 100 + m" "drawn names (?D \<union> groupDraws ?n ?k m) c2"
    "\<forall>i < ?n. netServers (skNet c2) (servername (100 + m) i) = Some (3 + ?n * m + i)"
    "\<forall>s. (\<forall>i < ?n. s \<noteq> servername (100 + m) i) \<longrightarrow> netServers (skNet c2) s = netServers (skNet c1) s"
    by auto
  have "go_for ?f [0..<Suc m] cfg = Inr c2" using c1(1) c2(1) by (simp add: go_for_append)
  moreover have "same_setup cfg c2" using c1(2) c2(2) by (rule same_setup_trans)
  moreover have "drawn names (D \<union> (\<Union>gi < Suc m. groupDraws ?n ?k gi)) c2"
    using c2(5) by (simp add: lessThan_Suc Un_ac)
  moreover have "\<forall>gi < Suc m. \<exists>gg. groups c2 ! gi = Some gg \<and> gg_gid gg = 100 + gi"
    using c1(4) c2(3,4) same Suc.prems by (auto simp: less_Suc_eq nth_list_update)
  moreover have "\<forall>gi < Suc m. \<forall>i < ?n. netServers (skNet c2) (servername (100 + gi) i) = Some (3 + ?n * gi + i)"
    using c1(5) c2(6,7) by (auto simp: less_Suc_eq)
  moreover have "\<forall>j. netServers (skNet c2) (mastername j) = netServers (skNet cfg) (mastername j)"
    using c1(6) c2(7) by simp
  ultimately show ?case by blast
qed

section \<open>Clients\<close>

lemma client_loop:
  fixes cfg :: "'n sk_config"
  assumes inj: "inj names" and d: "drawn names D cfg" "D \<inter> range (DClient ck) = {}" and m: "m \<le> skN cfg"
  shows "\<exists>ens nt. go_for (\<lambda>j (ens, nt).
              case go_upd ens (int j) (Some (names (DClient ck j))) of
                None \<Rightarrow> Inl SkPanic
              | Some ens \<Rightarrow>
                  (case make_end (names (DClient ck j)) (mastername j) nt of
                     Inl e \<Rightarrow> Inl e
                   | Inr nt \<Rightarrow> Inr (ens, nt)))
            [0..<m] (replicate (skN cfg) None, skNet cfg) = Inr (ens, nt) \<and> length ens = skN cfg \<and>
      ends nt = names ` (D \<union> DClient ck ` {..<m})" (is "\<exists>ens nt. go_for ?f _ _ = _ \<and> _")
  using m
proof (induction m)
  case 0
  then show ?case using d(1) by (simp add: drawn_def)
next
  case (Suc m)
  then obtain ens nt where e: "go_for ?f [0..<m] (replicate (skN cfg) None, skNet cfg) = Inr (ens, nt)"
    "length ens = skN cfg" "ends nt = names ` (D \<union> DClient ck ` {..<m})" by auto
  have "DClient ck m \<notin> D \<union> DClient ck ` {..<m}" using d(2) by auto
  then have new: "names (DClient ck m) \<notin> ends nt" unfolding e(3) using inj by (simp add: inj_image_mem_iff)
  let ?ens = "ens[m := Some (names (DClient ck m))]"
  obtain nt' where nt': "make_end (names (DClient ck m)) (mastername m) nt = Inr nt'"
    "ends nt' = insert (names (DClient ck m)) (ends nt)"
    using new by (simp add: make_end_def MakeEnd_def Connect_def Enable_def)
  have "go_upd ens (int m) (Some (names (DClient ck m))) = Some ?ens" using Suc.prems e(2) by (simp add: go_upd_def)
  then have "go_for ?f [0..<Suc m] (replicate (skN cfg) None, skNet cfg) = Inr (?ens, nt')"
    using e(1) nt'(1) by (simp add: go_for_append)
  moreover have "ends nt' = names ` (D \<union> DClient ck ` {..<Suc m})" using nt'(2) e(3) by (simp add: lessThan_Suc)
  ultimately show ?case using e(2) by auto
qed

lemma sk_makeClient_iff:
  fixes cfg :: "'n sk_config"
  assumes inj: "inj names" and d: "drawn names D cfg" "D \<inter> range (DClient ck) = {}"
  shows "if nmasters cfg \<le> skN cfg then
      \<exists>cfg' clerk. sk_makeClient names ck cfg = Inr (cfg', clerk) \<and>
        smServers (skSm clerk) = map (\<lambda>j. names (DClient ck j)) [0..<nmasters cfg]
    else sk_makeClient names ck cfg = Inl SkPanic"
proof (cases "nmasters cfg \<le> skN cfg")
  case True
  from client_loop [OF assms True] show ?thesis using True
    by (auto simp: sk_makeClient_def Let_def SK_MakeClerk_def SM_MakeClerk_def)
next
  case False
  then have up: "[0..<nmasters cfg] = [0..<skN cfg] @ skN cfg # [Suc (skN cfg)..<nmasters cfg]"
    using upt_split_at [of "skN cfg" "nmasters cfg"] by simp
  from client_loop [OF assms order_refl] have "sk_makeClient names ck cfg = Inl SkPanic"
    unfolding sk_makeClient_def up by (auto simp: go_for_append go_upd_def)
  then show ?thesis using False by simp
qed

section \<open>Set-up\<close>

lemma sk_make_config_cases:
  fixes names :: "draw \<Rightarrow> 'n"
  assumes inj: "inj names"
  shows "if n \<le> 3 then
      \<exists>cfg D. sk_make_config names mcs cs now n unreliable maxstate = Inr cfg \<and> skN cfg = n \<and> nmasters cfg = 3 \<and>
        drawn names D cfg \<and> D \<inter> range (DClient ck) = {} \<and> length (groups cfg) = 3 \<and>
        (\<forall>gi < 3. \<exists>gg. groups cfg ! gi = Some gg \<and> gg_gid gg = 100 + gi) \<and>
        (\<forall>gi < 3. \<forall>i < n. netServers (skNet cfg) (servername (100 + gi) i) = Some (3 + n * gi + i)) \<and>
        (\<forall>i < 3. netServers (skNet cfg) (mastername i) = Some i)
    else sk_make_config names mcs cs now n unreliable maxstate = Inl SkPanic"
proof -
  let ?c0 = "\<lparr>skNet = MakeNetwork, skStart = now, nmasters = 3, masterservers = replicate 3 None,
                 mck = SM_MakeClerk [], ngroups = 0, skN = 0, groups = [], skClerks = Map.empty,
                 skNextClientId = 0, skMaxraftstate = maxstate\<rparr> :: 'n sk_config"
  let ?DM = "\<Union>i < 3. DMaster i ` {..<3}"
  have "drawn names {} ?c0" by (simp add: drawn_def MakeNetwork_def)
  from start_masters [OF inj this, of 3 mcs] obtain ms nt c1 where
    c1: "go_for (\<lambda>i. StartMasterServer (\<lambda>j. names (DMaster i j)) (mcs i) i i) [0..<3] ?c0 = Inr c1"
    "c1 = ?c0\<lparr>masterservers := ms, skNet := nt\<rparr>" "drawn names ?DM c1"
    "\<forall>i < 3. netServers (skNet c1) (mastername i) = Some i" by auto
  have "inj DClerk" "DClerk ` {..<3} \<inter> ?DM = {}" by (auto simp: inj_def)
  from make_drawn [OF inj this(1) c1(3) this(2), of mastername] obtain nt2 where
    nt2: "go_for (\<lambda>j. make_end (names (DClerk j)) (mastername j)) [0..<3] (skNet c1) = Inr nt2"
    "ends nt2 = names ` (?DM \<union> DClerk ` {..<3})" "netServers nt2 = netServers (skNet c1)" by blast
  let ?D = "?DM \<union> DClerk ` {..<3}"
  let ?c2 = "c1\<lparr>skNet := nt2, mck := SM_MakeClerk (map (\<lambda>j. names (DClerk j)) [0..<3]), ngroups := 3,
     groups := replicate 3 None, skN := n\<rparr>"
  have c2: "drawn names ?D ?c2" "skN ?c2 = n" "nmasters ?c2 = 3" "length (groups ?c2) = 3"
    using nt2(2) by (simp_all add: drawn_def c1(2))
  have dis: "?D \<inter> serverDraws n 3 gi i = {}" for gi i by (auto simp: serverDraws_def)
  let ?fin = "\<lambda>cfg. cfg\<lparr>skClerks := Map.empty, skNextClientId := int n + 1000, skNet := Reliable (\<not> unreliable) (skNet cfg)\<rparr>"
  have eq: "sk_make_config names mcs cs now n unreliable maxstate =
      (case go_for (newGroup names cs) [0..<3] ?c2 of Inl e \<Rightarrow> Inl e | Inr cfg \<Rightarrow> Inr (?fin cfg))"
    using c1(1) nt2(1) by (simp add: sk_make_config_def Let_def shardclerk_def c1(2))
  show ?thesis
  proof (cases "n \<le> 3")
    case True
    have "\<And>gi i. ?D \<inter> serverDraws (skN ?c2) (nmasters ?c2) gi i = {}" using dis c2(2,3) by simp
    from start_groups [OF inj c2(1) this, of 3 cs] True c2(2-4) obtain c3 where
      c3: "go_for (newGroup names cs) [0..<3] ?c2 = Inr c3" "same_setup ?c2 c3"
      "drawn names (?D \<union> (\<Union>gi < 3. groupDraws n 3 gi)) c3"
      "\<forall>gi < 3. \<exists>gg. groups c3 ! gi = Some gg \<and> gg_gid gg = 100 + gi"
      "\<forall>gi < 3. \<forall>i < n. netServers (skNet c3) (servername (100 + gi) i) = Some (3 + n * gi + i)"
      "\<forall>j. netServers (skNet c3) (mastername j) = netServers nt2 (mastername j)" by auto
    note same = same_setup_fields [OF c3(2)]
    have "sk_make_config names mcs cs now n unreliable maxstate = Inr (?fin c3)" using eq c3(1) by simp
    moreover have "drawn names (?D \<union> (\<Union>gi < 3. groupDraws n 3 gi)) (?fin c3)"
      using c3(3) by (simp add: drawn_def Reliable_def)
    moreover have "(?D \<union> (\<Union>gi < 3. groupDraws n 3 gi)) \<inter> range (DClient ck) = {}"
      by (auto simp: groupDraws_def serverDraws_def)
    moreover have "netServers (skNet (?fin c3)) = netServers (skNet c3)" by (simp add: Reliable_def)
    moreover have "skN (?fin c3) = n" "nmasters (?fin c3) = 3" "length (groups (?fin c3)) = 3" "groups (?fin c3) = groups c3"
      using same c2(2-4) by simp_all
    ultimately have "\<exists>cfg D. sk_make_config names mcs cs now n unreliable maxstate = Inr cfg \<and> skN cfg = n \<and> nmasters cfg = 3 \<and>
        drawn names D cfg \<and> D \<inter> range (DClient ck) = {} \<and> length (groups cfg) = 3 \<and>
        (\<forall>gi < 3. \<exists>gg. groups cfg ! gi = Some gg \<and> gg_gid gg = 100 + gi) \<and>
        (\<forall>gi < 3. \<forall>i < n. netServers (skNet cfg) (servername (100 + gi) i) = Some (3 + n * gi + i)) \<and>
        (\<forall>i < 3. netServers (skNet cfg) (mastername i) = Some i)"
      using c3(4-6) c1(4) nt2(3) by (intro exI [of _ "?fin c3"] exI [of _ "?D \<union> (\<Union>gi < 3. groupDraws n 3 gi)"]) simp
    then show ?thesis using True by simp
  next
    case False
    have "newGroup names cs 0 ?c2 = Inl SkPanic"
      using newGroup_ok [OF inj c2(1), of 0 cs] dis c2(2-4) False by simp
    then have "go_for (newGroup names cs) [0..<3] ?c2 = Inl SkPanic" by (simp add: upt_conv_Cons)
    then show ?thesis using eq False by simp
  qed
qed

text \<open>Property C37: the harness of the sharded store works for groups of exactly three servers. With more servers
  per group \<open>make_config\<close> indexes past \<open>mendnames\<close>, which has a place per master; with fewer,
  \<open>makeClient\<close> indexes past \<open>endnames\<close>, which has a place per server. Where \<open>make_config\<close> returns, the
  servers that \<open>join\<close> announces for a group to the shard masters are registered with the network
  under just these names, each name for a server of its own.\<close>

theorem sharded_harness_setup:
  fixes names :: "draw \<Rightarrow> 'n"
  assumes "inj names"
  shows "(n > 3 \<longrightarrow> sk_make_config names mcs cs now n unreliable maxstate = Inl SkPanic) \<and>
    (n \<le> 3 \<longrightarrow> (\<exists>cfg. sk_make_config names mcs cs now n unreliable maxstate = Inr cfg \<and>
       (n < 3 \<longrightarrow> sk_makeClient names ck cfg = Inl SkPanic) \<and>
       (n = 3 \<longrightarrow> (\<exists>cfg' clerk. sk_makeClient names ck cfg = Inr (cfg', clerk))) \<and>
       (\<forall>gi < 3. joinArgs [gi] cfg = Inr [int (100 + gi) \<mapsto> map (servername (100 + gi)) [0..<n]] \<and>
          (\<forall>i < n. netServers (skNet cfg) (map (servername (100 + gi)) [0..<n] ! i) = Some (3 + n * gi + i)))))"
proof (cases "n \<le> 3")
  case True
  then obtain cfg D where c: "sk_make_config names mcs cs now n unreliable maxstate = Inr cfg" "skN cfg = n"
    "nmasters cfg = 3" "drawn names D cfg" "D \<inter> range (DClient ck) = {}" "length (groups cfg) = 3"
    "\<forall>gi < 3. \<exists>gg. groups cfg ! gi = Some gg \<and> gg_gid gg = 100 + gi"
    "\<forall>gi < 3. \<forall>i < n. netServers (skNet cfg) (servername (100 + gi) i) = Some (3 + n * gi + i)"
    using sk_make_config_cases [OF assms, of n mcs cs now unreliable maxstate ck] by auto
  have "joinArgs [gi] cfg = Inr [int (100 + gi) \<mapsto> map (servername (100 + gi)) [0..<n]]" if "gi < 3" for gi
    using c(2,6,7) that by (auto simp: joinArgs_def groupAt_def go_nth_def)
  moreover note sk_makeClient_iff [OF assms c(4,5)]
  ultimately show ?thesis using True c(1-3,8) by auto
next
  case False
  then show ?thesis using sk_make_config_cases [OF assms, of n mcs cs now unreliable maxstate ck] by simp
qed

theorem sharded_harness_setup_witness:
  "sk_make_config (\<lambda>d. d) (\<lambda>_. (0, 0)) (\<lambda>_ _. (0, 0)) 0 4 False (- 1) = Inl SkPanic \<and>
   (\<exists>cfg. sk_make_config (\<lambda>d. d) (\<lambda>_. (0, 0)) (\<lambda>_ _. (0, 0)) 0 1 False (- 1) = Inr cfg \<and>
      sk_makeClient (\<lambda>d. d) 0 cfg = Inl SkPanic)"
proof -
  have i: "inj (\<lambda>d :: draw. d)" by (simp add: inj_def)
  show ?thesis
    using sharded_harness_setup [OF i, of 4 "\<lambda>_. (0, 0)" "\<lambda>_ _. (0, 0)" 0 False "- 1" 0]
      sharded_harness_setup [OF i, of 1 "\<lambda>_. (0, 0)" "\<lambda>_ _. (0, 0)" 0 False "- 1" 0] by auto
qed

end
