(* ===== verification/LabGob.thy ===== *)
theory LabGob
  imports Prelude
begin

text \<open>
  The checks of \<open>src/src/labgob/labgob.go\<close> on what is encoded and decoded: \<open>checkType\<close> reports
  fields with lower-case names in the types it meets, \<open>checkDefault1\<close> warns about values that are
  not the default when something is decoded into them.

  A type is a number; \<open>tyInfo t\<close> is its kind, as reflection shows it. Types may be recursive: the map
  \<open>checked\<close> keeps the recursion finite. The fuel of \<open>checkType\<close> bounds the depth of the recursion;
  it is enough when it exceeds the number of types not yet checked.
\<close>

section \<open>Types\<close>

datatype gokind =
    Struct "(string \<times> nat) list"
  | ElemOf nat
  | MapOf nat nat
  | Plain

text \<open>
  \<open>unicode.IsUpper\<close> of the first rune: the capital letters of ASCII, and \<open>otherUpper\<close> for names that
  start with a byte above; an empty name has no first rune.
\<close>

definition firstUpper :: "(string \<Rightarrow> bool) \<Rightarrow> string \<Rightarrow> bool" where
  "firstUpper otherUpper name =
     (case name of
        [] \<Rightarrow> False
      | c # _ \<Rightarrow> if of_char c < (128 :: nat) then (65 :: nat) \<le> of_char c \<and> of_char c \<le> (90 :: nat) else otherUpper name)"

text \<open>
  The package's variables, and the fields that \<open>checkDefault1\<close> printed a warning about. The
  messages of \<open>checkType\<close> are counted by \<open>errorCount\<close>.
\<close>

record gob_checks =
  checked :: "nat set"
  errorCount :: nat
  warnings :: "string list"

fun checkType :: "nat \<Rightarrow> (string \<Rightarrow> bool) \<Rightarrow> (nat \<Rightarrow> gokind) \<Rightarrow> nat \<Rightarrow> gob_checks \<Rightarrow> gob_checks option"
and checkFields :: "nat \<Rightarrow> (string \<Rightarrow> bool) \<Rightarrow> (nat \<Rightarrow> gokind) \<Rightarrow> (string \<times> nat) list \<Rightarrow> gob_checks \<Rightarrow> gob_checks option" where
  "checkType 0 upper tyInfo t s = None"
| "checkType (Suc n) upper tyInfo t s =
     (if t \<in> checked s then Some s
      else
        (let s = s\<lparr>checked := insert t (checked s)\<rparr>
         in case tyInfo t of
              Struct fs \<Rightarrow> checkFields n upper tyInfo fs s
            | ElemOf u \<Rightarrow> checkType n upper tyInfo u s
            | MapOf elem key \<Rightarrow> Option.bind (checkType n upper tyInfo elem s) (checkType n upper tyInfo key)
            | Plain \<Rightarrow> Some s))"
| "checkFields n upper tyInfo [] s = Some s"
| "checkFields n upper tyInfo ((name, u) # fs) s =
     (let s = (if upper name = False then s\<lparr>errorCount := errorCount s + 1\<rparr> else s)
      in Option.bind (checkType n upper tyInfo u s) (checkFields n upper tyInfo fs))"

definition checkValue :: "nat \<Rightarrow> (string \<Rightarrow> bool) \<Rightarrow> (nat \<Rightarrow> gokind) \<Rightarrow> nat \<Rightarrow> gob_checks \<Rightarrow> gob_checks option" where
  "checkValue fuel upper tyInfo t s = checkType fuel upper tyInfo t s"

section \<open>Values\<close>

text \<open>
  A value as reflection shows it, cycles through pointers unrolled: the recursion stops at depth 3.
  A basic value has the name of its type and whether it equals the zero value; maps, slices and
  the other kinds are not looked into.
\<close>

datatype goval =
    StructV "(string \<times> goval) list"
  | PtrV "goval option"
  | BasicV string bool
  | OtherV

definition fieldPath :: "string \<Rightarrow> string \<Rightarrow> string" where
  "fieldPath name fname = (if name \<noteq> [] then name @ ''.'' @ fname else fname)"

fun checkDefault1 :: "goval \<Rightarrow> nat \<Rightarrow> string \<Rightarrow> gob_checks \<Rightarrow> gob_checks"
and checkDefaultFields :: "(string \<times> goval) list \<Rightarrow> nat \<Rightarrow> string \<Rightarrow> gob_checks \<Rightarrow> gob_checks" where
  "checkDefault1 (StructV fs) depth name s =
     (if depth > 3 then s else checkDefaultFields fs depth name s)"
| "checkDefault1 (PtrV p) depth name s =
     (if depth > 3 then s
      else case p of None \<Rightarrow> s | Some v \<Rightarrow> checkDefault1 v (depth + 1) name s)"
| "checkDefault1 (BasicV tname isZero) depth name s =
     (if depth > 3 then s
      else if isZero = False then
        (let s = (if errorCount s < 1
                  then s\<lparr>warnings := warnings s @ [if name = [] then tname else name]\<rparr> else s)
         in s\<lparr>errorCount := errorCount s + 1\<rparr>)
      else s)"
| "checkDefault1 OtherV depth name s = s"
| "checkDefaultFields [] depth name s = s"
| "checkDefaultFields ((fname, v) # fs) depth name s =
     checkDefaultFields fs depth name (checkDefault1 v (depth + 1) (fieldPath name fname) s)"

definition checkDefault :: "goval option \<Rightarrow> gob_checks \<Rightarrow> gob_checks" where
  "checkDefault value s = (case value of None \<Rightarrow> s | Some v \<Rightarrow> checkDefault1 v 1 [] s)"

text \<open>What \<open>Decode\<close> does before it hands the value to \<open>encoding/gob\<close>.\<close>

definition decodeChecks ::
    "nat \<Rightarrow> (string \<Rightarrow> bool) \<Rightarrow> (nat \<Rightarrow> gokind) \<Rightarrow> nat \<Rightarrow> goval option \<Rightarrow> gob_checks \<Rightarrow> gob_checks option" where
  "decodeChecks fuel upper tyInfo t v s = map_option (checkDefault v) (checkValue fuel upper tyInfo t s)"

section \<open>What the check of types does\<close>

fun succs :: "gokind \<Rightarrow> nat list" where
  "succs (Struct fs) = map snd fs"
| "succs (ElemOf u) = [u]"
| "succs (MapOf elem key) = [elem, key]"
| "succs Plain = []"

fun lowerFields :: "(string \<Rightarrow> bool) \<Rightarrow> gokind \<Rightarrow> nat" where
  "lowerFields upper (Struct fs) = length (filter (\<lambda>f. \<not> upper (fst f)) fs)"
| "lowerFields upper _ = 0"

definition refers :: "(nat \<Rightarrow> gokind) \<Rightarrow> nat \<Rightarrow> nat \<Rightarrow> bool" where
  "refers tyInfo t u \<longleftrightarrow> u \<in> set (succs (tyInfo t))"

text \<open>
  From state \<open>s\<close> to \<open>s'\<close> with the types \<open>todo\<close> as roots and \<open>extra\<close> reports: the new types are
  referred to from the roots, what they refer to is checked, and each is reported once.
\<close>

definition visits ::
    "(string \<Rightarrow> bool) \<Rightarrow> (nat \<Rightarrow> gokind) \<Rightarrow> nat set \<Rightarrow> nat \<Rightarrow> gob_checks \<Rightarrow> gob_checks \<Rightarrow> bool" where
  "visits upper tyInfo todo extra s s' \<longleftrightarrow>
     checked s \<subseteq> checked s' \<and> todo \<subseteq> checked s' \<and> finite (checked s' - checked s) \<and>
     (\<forall>u \<in> checked s' - checked s. \<exists>t \<in> todo. (refers tyInfo)\<^sup>*\<^sup>* t u) \<and>
     (\<forall>u \<in> checked s' - checked s. set (succs (tyInfo u)) \<subseteq> checked s') \<and>
     errorCount s' = errorCount s + extra + (\<Sum>u \<in> checked s' - checked s. lowerFields upper (tyInfo u))"

lemma visits_refl: "todo \<subseteq> checked s \<Longrightarrow> visits upper tyInfo todo 0 s s"
  by (simp add: visits_def)

lemma visits_trans:
  assumes "visits upper tyInfo A m s s'" and "visits upper tyInfo B n s' s''"
  shows "visits upper tyInfo (A \<union> B) (m + n) s s''"
proof -
  have sub: "checked s \<subseteq> checked s'" "checked s' \<subseteq> checked s''" using assms by (auto simp: visits_def)
  have d: "checked s'' - checked s = (checked s' - checked s) \<union> (checked s'' - checked s')" using sub by auto
  have fin: "finite (checked s' - checked s)" "finite (checked s'' - checked s')" using assms by (auto simp: visits_def)
  have "(\<Sum>u \<in> checked s'' - checked s. lowerFields upper (tyInfo u)) =
      (\<Sum>u \<in> checked s' - checked s. lowerFields upper (tyInfo u)) + (\<Sum>u \<in> checked s'' - checked s'. lowerFields upper (tyInfo u))"
    unfolding d by (rule sum.union_disjoint) (use fin in auto)
  moreover have "set (succs (tyInfo u)) \<subseteq> checked s''" if "u \<in> checked s'' - checked s" for u
    using assms sub that unfolding visits_def by blast
  ultimately show ?thesis using assms sub fin unfolding visits_def d by auto
qed

text \<open>A type that is checked for the first time.\<close>

lemma visits_new:
  assumes "t \<notin> checked s" and "visits upper tyInfo (set (succs (tyInfo t))) m (s\<lparr>checked := insert t (checked s)\<rparr>) s'"
    and "m = lowerFields upper (tyInfo t)"
  shows "visits upper tyInfo {t} 0 s s'"
proof -
  have v: "insert t (checked s) \<subseteq> checked s'" "set (succs (tyInfo t)) \<subseteq> checked s'" "finite (checked s' - insert t (checked s))"
    "\<forall>u \<in> checked s' - insert t (checked s). \<exists>r \<in> set (succs (tyInfo t)). (refers tyInfo)\<^sup>*\<^sup>* r u"
    "\<forall>u \<in> checked s' - insert t (checked s). set (succs (tyInfo u)) \<subseteq> checked s'"
    "errorCount s' = errorCount s + m + (\<Sum>u \<in> checked s' - insert t (checked s). lowerFields upper (tyInfo u))"
    using assms(2) by (auto simp: visits_def)
  have d: "checked s' - checked s = insert t (checked s' - insert t (checked s))" using v(1) assms(1) by auto
  have "(refers tyInfo)\<^sup>*\<^sup>* t u" if u: "u \<in> checked s' - checked s" for u
  proof (cases "u = t")
    case False
    then obtain r where "r \<in> set (succs (tyInfo t))" "(refers tyInfo)\<^sup>*\<^sup>* r u" using u v(4) by auto
    then show ?thesis by (meson converse_rtranclp_into_rtranclp refers_def)
  qed simp
  moreover have "set (succs (tyInfo u)) \<subseteq> checked s'" if "u \<in> checked s' - checked s" for u
    using that v(2,5) by (cases "u = t") auto
  moreover have "errorCount s' = errorCount s + (\<Sum>u \<in> checked s' - checked s. lowerFields upper (tyInfo u))"
    unfolding d using v(3,6) assms(3) by (subst sum.insert) auto
  moreover have "finite (checked s' - checked s)" unfolding d using v(3) by simp
  ultimately show ?thesis using v(1) by (auto simp: visits_def)
qed

lemma check_visits:
  "checkType n upper tyInfo t s = Some s' \<Longrightarrow> visits upper tyInfo {t} 0 s s'"
  "checkFields n upper tyInfo fs s = Some s' \<Longrightarrow>
     visits upper tyInfo (set (map snd fs)) (length (filter (\<lambda>f. \<not> upper (fst f)) fs)) s s'"
proof (induction n upper tyInfo t s and n upper tyInfo fs s arbitrary: s' and s' rule: checkType_checkFields.induct)
  case (1 upper tyInfo t s)
  then show ?case by simp
next
  case (2 n upper tyInfo t s)
  show ?case
  proof (cases "t \<in> checked s")
    case True
    then show ?thesis using 2 by (simp add: visits_refl)
  next
    case False
    let ?s = "s\<lparr>checked := insert t (checked s)\<rparr>"
    have "visits upper tyInfo (set (succs (tyInfo t))) (lowerFields upper (tyInfo t)) ?s s'"
    proof (cases "tyInfo t")
      case (Struct fs)
      then show ?thesis using 2 False by simp
    next
      case (ElemOf u)
      then show ?thesis using 2 False by simp
    next
      case (MapOf elem key)
      then obtain s1 where "checkType n upper tyInfo elem ?s = Some s1" "checkType n upper tyInfo key s1 = Some s'"
        using 2 False by (auto split: Option.bind_splits)
      then have "visits upper tyInfo {elem} 0 ?s s1" "visits upper tyInfo {key} 0 s1 s'"
        using 2 False MapOf by auto
      then show ?thesis using visits_trans [of upper tyInfo "{elem}" 0 ?s s1 "{key}" 0 s'] MapOf by (simp add: insert_commute)
    next
      case Plain
      then show ?thesis using 2 False by (simp add: visits_refl)
    qed
    then show ?thesis using visits_new [OF False] by blast
  qed
next
  case (3 n upper tyInfo s)
  then show ?case by (simp add: visits_refl)
next
  case (4 n upper tyInfo name u fs s)
  let ?s = "if upper name = False then s\<lparr>errorCount := errorCount s + 1\<rparr> else s"
  obtain s1 where s1: "checkType n upper tyInfo u ?s = Some s1" "checkFields n upper tyInfo fs s1 = Some s'"
    using 4(3) by (auto simp: Let_def split: Option.bind_splits)
  have "visits upper tyInfo {u} 0 ?s s1" using 4(1) s1(1) by simp
  then have "visits upper tyInfo {u} (if upper name then 0 else 1) s s1"
    by (cases "upper name") (auto simp: visits_def)
  moreover have "visits upper tyInfo (set (map snd fs)) (length (filter (\<lambda>f. \<not> upper (fst f)) fs)) s1 s'"
    using 4(2) s1 by simp
  ultimately show ?case using visits_trans by fastforce
qed

lemma check_mono: "checkType n upper tyInfo t s = Some s' \<Longrightarrow> checked s \<subseteq> checked s'"
  using check_visits(1) by (simp add: visits_def)

text \<open>Enough fuel: each level of the recursion checks a new type.\<close>

lemma check_total_both:
  assumes U: "finite U" "\<forall>t \<in> U. set (succs (tyInfo t)) \<subseteq> U"
  shows "(\<forall>t s. t \<in> U \<longrightarrow> card (U - checked s) < n \<longrightarrow> (\<exists>s'. checkType n upper tyInfo t s = Some s')) \<and>
    (\<forall>fs s. set (map snd fs) \<subseteq> U \<longrightarrow> card (U - checked s) < n \<longrightarrow> (\<exists>s'. checkFields n upper tyInfo fs s = Some s'))"
proof (induction n)
  case 0
  then show ?case by simp
next
  case (Suc n)
  have ih1: "t \<in> U \<Longrightarrow> card (U - checked s) < n \<Longrightarrow> \<exists>s'. checkType n upper tyInfo t s = Some s'" for t s
    using Suc by blast
  have ih2: "set (map snd fs) \<subseteq> U \<Longrightarrow> card (U - checked s) < n \<Longrightarrow> \<exists>s'. checkFields n upper tyInfo fs s = Some s'" for fs s
    using Suc by blast
  have less: "card (U - checked s') \<le> card (U - checked s)" if "checked s \<subseteq> checked s'" for s s' :: gob_checks
    by (rule card_mono) (use U(1) that in auto)
  have one: "\<exists>s'. checkType (Suc n) upper tyInfo t s = Some s'" if t: "t \<in> U" "card (U - checked s) < Suc n" for t s
  proof (cases "t \<in> checked s")
    case False
    let ?s = "s\<lparr>checked := insert t (checked s)\<rparr>"
    have "U - checked ?s \<subset> U - checked s" using t(1) False by auto
    then have "card (U - checked ?s) < card (U - checked s)" using U(1) by (intro psubset_card_mono) auto
    then have c: "card (U - checked ?s) < n" using t(2) by simp
    have sub: "set (succs (tyInfo t)) \<subseteq> U" using U(2) t(1) by blast
    show ?thesis
    proof (cases "tyInfo t")
      case (Struct fs)
      then show ?thesis using ih2 [of fs ?s] c sub False by simp
    next
      case (ElemOf u)
      then show ?thesis using ih1 [of u ?s] c sub False by simp
    next
      case (MapOf elem key)
      obtain s1 where s1: "checkType n upper tyInfo elem ?s = Some s1" using ih1 [of elem ?s] c sub MapOf by auto
      then have "checked ?s \<subseteq> checked s1" by (rule check_mono)
      then have "card (U - checked s1) < n" using less [of ?s s1] c by simp
      then show ?thesis using ih1 [of key s1] sub MapOf s1 False by simp
    qed (use False in simp)
  qed simp
  have "\<exists>s'. checkFields (Suc n) upper tyInfo fs s = Some s'" if "set (map snd fs) \<subseteq> U" "card (U - checked s) < Suc n" for fs s
    using that
  proof (induction fs arbitrary: s)
    case (Cons f fs)
    obtain name u where f: "f = (name, u)" by fastforce
    let ?s = "if upper name = False then s\<lparr>errorCount := errorCount s + 1\<rparr> else s"
    have e: "checked ?s = checked s" by simp
    obtain s1 where s1: "checkType (Suc n) upper tyInfo u ?s = Some s1"
      using one [of u ?s] Cons.prems f e by auto
    then have "checked s \<subseteq> checked s1" using check_mono [OF s1] e by simp
    then have "card (U - checked s1) < Suc n" using less [of s s1] Cons.prems(2) by linarith
    then obtain s2 where "checkFields (Suc n) upper tyInfo fs s1 = Some s2" using Cons.IH [of s1] Cons.prems(1) by auto
    then show ?case using s1 f by (simp add: Let_def del: checkType.simps)
  qed simp
  then show ?case using one by blast
qed

lemma check_total:
  assumes "finite U" "\<forall>t \<in> U. set (succs (tyInfo t)) \<subseteq> U" and "t \<in> U" and "card (U - checked s) < n"
  shows "\<exists>s'. checkType n upper tyInfo t s = Some s'"
  using check_total_both [OF assms(1,2), of n upper] assms(3,4) by blast

definition reach :: "(nat \<Rightarrow> gokind) \<Rightarrow> nat \<Rightarrow> nat set" where
  "reach tyInfo t = {u. (refers tyInfo)\<^sup>*\<^sup>* t u}"

lemma closed_reach:
  assumes "\<forall>u \<in> C. set (succs (tyInfo u)) \<subseteq> C" and "t \<in> C"
  shows "reach tyInfo t \<subseteq> C"
proof
  fix u assume "u \<in> reach tyInfo t"
  then have "(refers tyInfo)\<^sup>*\<^sup>* t u" by (simp add: reach_def)
  then show "u \<in> C"
  proof (induction rule: rtranclp_induct)
    case base
    then show ?case by (rule assms(2))
  next
    case (step y z)
    then show ?case using assms(1) by (auto simp: refers_def)
  qed
qed

text \<open>Property C38: \<open>checkType\<close> ends on every type, recursive ones included, and complains once about each lower-case
  field of the types reachable from it: afterwards exactly these types are marked as well, and \<open>errorCount\<close> has grown by
  the number of such fields of the types that were not marked before. The marks stay closed under reference.\<close>

theorem checkType_reports:
  assumes "finite (reach tyInfo t)" and "\<forall>u \<in> checked s. set (succs (tyInfo u)) \<subseteq> checked s"
    and "card (reach tyInfo t) < fuel"
  shows "\<exists>s'. checkType fuel upper tyInfo t s = Some s' \<and> checked s' = checked s \<union> reach tyInfo t \<and>
    errorCount s' = errorCount s + (\<Sum>u \<in> reach tyInfo t - checked s. lowerFields upper (tyInfo u)) \<and>
    (\<forall>u \<in> checked s'. set (succs (tyInfo u)) \<subseteq> checked s')"
proof -
  have cl: "\<forall>u \<in> reach tyInfo t. set (succs (tyInfo u)) \<subseteq> reach tyInfo t"
    by (auto simp: reach_def refers_def intro: rtranclp.rtrancl_into_rtrancl)
  have "card (reach tyInfo t - checked s) \<le> card (reach tyInfo t)" using assms(1) by (intro card_mono) auto
  then have "card (reach tyInfo t - checked s) < fuel" using assms(3) by simp
  moreover have "t \<in> reach tyInfo t" by (simp add: reach_def)
  ultimately obtain s' where s': "checkType fuel upper tyInfo t s = Some s'"
    using check_total [OF assms(1) cl] by blast
  have v: "visits upper tyInfo {t} 0 s s'" using check_visits(1) [OF s'] .
  have closed: "\<forall>u \<in> checked s'. set (succs (tyInfo u)) \<subseteq> checked s'"
    using v assms(2) unfolding visits_def by blast
  have "reach tyInfo t \<subseteq> checked s'" using closed_reach [OF closed] v by (simp add: visits_def)
  moreover have "checked s' - checked s \<subseteq> reach tyInfo t" using v by (auto simp: visits_def reach_def)
  moreover have "checked s \<subseteq> checked s'" using v by (simp add: visits_def)
  ultimately have e: "checked s' = checked s \<union> reach tyInfo t" by blast
  then have "checked s' - checked s = reach tyInfo t - checked s" by blast
  then show ?thesis using s' e closed v by (simp add: visits_def)
qed

text \<open>A list type, which refers to itself through a pointer and has a lower-case field.\<close>

definition listType :: "nat \<Rightarrow> gokind" where
  "listType t = (if t = 0 then Struct [(''Val'', 1), (''next'', 2)] else if t = 2 then ElemOf 0 else Plain)"

lemma listType_reach: "reach listType 0 \<subseteq> {0, 1, 2}"
  by (rule closed_reach) (auto simp: listType_def)

theorem checkType_reports_witness:
  "\<exists>s'. checkType 4 (firstUpper (\<lambda>_. False)) listType 0 \<lparr>checked = {}, errorCount = 0, warnings = []\<rparr> = Some s' \<and>
    checked s' = reach listType 0"
proof -
  have "card (reach listType 0) \<le> card {0, 1, 2 :: nat}" by (rule card_mono [OF _ listType_reach]) simp
  then have "card (reach listType 0) < 4" by simp
  moreover have "finite (reach listType 0)" using finite_subset [OF listType_reach] by simp
  ultimately show ?thesis
    using checkType_reports [of listType 0 "\<lparr>checked = {}, errorCount = 0, warnings = []\<rparr>" 4 "firstUpper (\<lambda>_. False)"] by auto
qed

section \<open>What the check of values does\<close>

text \<open>The paths of the non-default values within the depth looked at.\<close>

fun nonDefaults :: "goval \<Rightarrow> nat \<Rightarrow> string \<Rightarrow> string list"
and nonDefaultFields :: "(string \<times> goval) list \<Rightarrow> nat \<Rightarrow> string \<Rightarrow> string list" where
  "nonDefaults (StructV fs) depth name = (if depth > 3 then [] else nonDefaultFields fs depth name)"
| "nonDefaults (PtrV p) depth name =
     (if depth > 3 then [] else case p of None \<Rightarrow> [] | Some v \<Rightarrow> nonDefaults v (depth + 1) name)"
| "nonDefaults (BasicV tname isZero) depth name =
     (if depth > 3 \<or> isZero then [] else [if name = [] then tname else name])"
| "nonDefaults OtherV depth name = []"
| "nonDefaultFields [] depth name = []"
| "nonDefaultFields ((fname, v) # fs) depth name =
     nonDefaults v (depth + 1) (fieldPath name fname) @ nonDefaultFields fs depth name"

definition warned :: "string list \<Rightarrow> gob_checks \<Rightarrow> gob_checks" where
  "warned ps s =
     s\<lparr>warnings := warnings s @ (if errorCount s = 0 then take 1 ps else []), errorCount := errorCount s + length ps\<rparr>"

lemma warned_append: "warned qs (warned ps s) = warned (ps @ qs) s"
  by (cases ps) (auto simp: warned_def)

lemma warned_Nil [simp]: "warned [] s = s"
  by (simp add: warned_def)

lemma checkDefault1_warned:
  "checkDefault1 v depth name s = warned (nonDefaults v depth name) s"
  "checkDefaultFields fs depth name s = warned (nonDefaultFields fs depth name) s"
proof (induction v depth name s and fs depth name s rule: checkDefault1_checkDefaultFields.induct)
  case (2 p depth name s)
  then show ?case by (auto split: option.split)
next
  case (3 tname isZero depth name s)
  then show ?case by (auto simp: warned_def Let_def)
next
  case (6 fname v fs depth name s)
  then show ?case by (simp add: warned_append)
qed auto

text \<open>Decoding into a value counts every non-default value within three levels, and prints one warning, for
  the first of them in the order of the fields, if nothing was counted before.\<close>

theorem checkDefault_warns:
  "checkDefault (Some v) s =
     s\<lparr>warnings := warnings s @ (if errorCount s = 0 then take 1 (nonDefaults v 1 []) else []),
       errorCount := errorCount s + length (nonDefaults v 1 [])\<rparr>"
  by (simp add: checkDefault_def checkDefault1_warned warned_def)

end
