(* ===== verification/Crawler.thy ===== *)
theory Crawler
  imports Prelude "HOL-Library.Multiset"
begin

text \<open>
  The three web crawlers of \<open>src/Lectures/lec2/crawler.go\<close>: a serial one, one with goroutines, a mutex and
  wait groups, and one with a master that reads a channel. A \<open>Fetcher\<close> is a function from a page to the
  links on it, \<open>None\<close> being an error. The calls of \<open>Fetch\<close> are recorded in their order.
\<close>

section \<open>Pages\<close>

type_synonym 'u Fetcher = "'u \<Rightarrow> 'u list option"

record fakeResult =
  frBody :: string
  frUrls :: "string list"

definition fake_Fetch :: "(string \<rightharpoonup> fakeResult) \<Rightarrow> string Fetcher" where
  "fake_Fetch f url = map_option frUrls (f url)"

definition golang :: "string \<rightharpoonup> fakeResult" where
  "golang = map_of
     [(''http://golang.org/'',
         \<lparr>frBody = ''The Go Programming Language'',
          frUrls = [''http://golang.org/pkg/'', ''http://golang.org/cmd/'']\<rparr>),
      (''http://golang.org/pkg/'',
         \<lparr>frBody = ''Packages'',
          frUrls = [''http://golang.org/'', ''http://golang.org/cmd/'', ''http://golang.org/pkg/fmt/'',
                    ''http://golang.org/pkg/os/'']\<rparr>),
      (''http://golang.org/pkg/fmt/'',
         \<lparr>frBody = ''Package fmt'', frUrls = [''http://golang.org/'', ''http://golang.org/pkg/'']\<rparr>),
      (''http://golang.org/pkg/os/'',
         \<lparr>frBody = ''Package os'', frUrls = [''http://golang.org/'', ''http://golang.org/pkg/'']\<rparr>)]"

text \<open>The pages a crawler is to visit.\<close>

definition links :: "'u Fetcher \<Rightarrow> 'u \<Rightarrow> 'u list" where
  "links fetch u = (case fetch u of None \<Rightarrow> [] | Some urls \<Rightarrow> urls)"

inductive_set reach :: "'u Fetcher \<Rightarrow> 'u \<Rightarrow> 'u set" for fetch url where
  reach_start: "url \<in> reach fetch url"
| reach_link: "u \<in> reach fetch url \<Longrightarrow> v \<in> set (links fetch u) \<Longrightarrow> v \<in> reach fetch url"

lemma reach_closed:
  assumes "url \<in> V" and "\<And>u v. u \<in> V \<Longrightarrow> v \<in> set (links fetch u) \<Longrightarrow> v \<in> V"
  shows "reach fetch url \<subseteq> V"
proof
  fix u assume "u \<in> reach fetch url"
  then show "u \<in> V" by induction (use assms in auto)
qed

text \<open>
  What the concurrent crawlers keep to, whatever their goroutines do: the pages marked as fetched are
  those that have been fetched and those a goroutine is about to fetch, each once; \<open>F\<close> are the latter,
  \<open>P\<close> the links that are still to be looked at.
\<close>

definition crawl_ok :: "'u Fetcher \<Rightarrow> 'u \<Rightarrow> ('u \<Rightarrow> bool) \<Rightarrow> 'u list \<Rightarrow> 'u multiset \<Rightarrow> 'u set \<Rightarrow> bool" where
  "crawl_ok fetch url marked called F P \<longleftrightarrow>
     (\<forall>u. count (F + mset called) u = (if marked u then 1 else 0)) \<and>
     (\<forall>u. marked u \<longrightarrow> u \<in> reach fetch url) \<and> P \<subseteq> reach fetch url \<and> (marked url \<or> url \<in> P) \<and>
     (\<forall>u \<in> set called. \<forall>v \<in> set (links fetch u). marked v \<or> v \<in> P)"

lemma crawl_ok_start: "crawl_ok fetch url (\<lambda>_. False) [] {#} {url}"
  by (simp add: crawl_ok_def reach_start)

lemma crawl_ok_mark:
  assumes ok: "crawl_ok fetch url marked called F P" and "P = insert u P'"
  shows "crawl_ok fetch url (marked(u := True)) called (F + (if marked u then {#} else {#u#})) P'"
proof -
  have c: "count F v + count (mset called) v = (if marked v then 1 else 0)" for v
    using ok by (simp add: crawl_ok_def)
  have "count (F + (if marked u then {#} else {#u#}) + mset called) v = (if (marked(u := True)) v then 1 else 0)" for v
    using c [of v] by (cases "marked u"; cases "u = v") auto
  then show ?thesis using ok assms(2) unfolding crawl_ok_def by auto
qed

lemma crawl_ok_fetch:
  assumes ok: "crawl_ok fetch url marked called (add_mset u F) P"
  shows "crawl_ok fetch url marked (called @ [u]) F (P \<union> set (links fetch u))"
proof -
  have "count (add_mset u F + mset called) u \<noteq> 0" by simp
  then have "marked u" using ok unfolding crawl_ok_def by metis
  then have "set (links fetch u) \<subseteq> reach fetch url" using ok by (auto simp: crawl_ok_def intro: reach_link)
  moreover have "F + mset (called @ [u]) = add_mset u F + mset called" by simp
  ultimately show ?thesis using ok unfolding crawl_ok_def by auto
qed

lemma crawl_ok_todo: "crawl_ok fetch url marked called F P \<Longrightarrow> u \<in> P \<Longrightarrow> u \<in> reach fetch url"
  by (auto simp: crawl_ok_def)

lemma crawl_ok_done:
  assumes ok: "crawl_ok fetch url marked called {#} {}"
  shows "distinct called \<and> set called = reach fetch url \<and> {u. marked u} = reach fetch url"
proof -
  have c: "count (mset called) u = (if marked u then 1 else 0)" for u
    using ok by (simp add: crawl_ok_def)
  have "u \<in> set called \<longleftrightarrow> marked u" for u
    using c [of u] by (metis count_eq_zero_iff set_mset_mset zero_neq_one)
  then have s: "set called = {u. marked u}" by blast
  have "distinct called" unfolding distinct_count_atmost_1 s c by simp
  moreover have "reach fetch url \<subseteq> set called"
    by (rule reach_closed) (use ok s in \<open>auto simp: crawl_ok_def\<close>)
  ultimately show ?thesis using ok s by (auto simp: crawl_ok_def)
qed

section \<open>Serial crawler\<close>

record 'u crawl =
  fetched :: "'u \<Rightarrow> bool"
  calls :: "'u list"

abbreviation no_pages :: "'u crawl" where
  "no_pages \<equiv> \<lparr>fetched = (\<lambda>_. False), calls = []\<rparr>"

definition visit :: "'u \<Rightarrow> 'u crawl \<Rightarrow> 'u crawl" where
  "visit u st = st\<lparr>fetched := (fetched st)(u := True), calls := calls st @ [u]\<rparr>"

text \<open>The loop over the links of a page, with the recursive call of \<open>Serial\<close> for each of them.\<close>

partial_function (option) SerialEach :: "'u Fetcher \<Rightarrow> 'u list \<Rightarrow> 'u crawl \<Rightarrow> 'u crawl option" where
  "SerialEach fetch urls st =
     (case urls of
        [] \<Rightarrow> Some st
      | u # us \<Rightarrow>
          Option.bind
            (if fetched st u then Some st
             else
               (case fetch u of
                  None \<Rightarrow> Some (visit u st)
                | Some urls' \<Rightarrow> SerialEach fetch urls' (visit u st)))
            (SerialEach fetch us))"

definition Serial :: "'u \<Rightarrow> 'u Fetcher \<Rightarrow> 'u crawl \<Rightarrow> 'u crawl option" where
  "Serial url fetch st =
     (if fetched st url then Some st
      else
        (case fetch url of
           None \<Rightarrow> Some (visit url st)
         | Some urls \<Rightarrow> SerialEach fetch urls (visit url st)))"

declare SerialEach.simps [code]

lemma SerialEach_Nil [simp]: "SerialEach fetch [] st = Some st"
  by (simp add: SerialEach.simps)

lemma SerialEach_Cons [simp]:
  "SerialEach fetch (u # us) st = Option.bind (Serial u fetch st) (SerialEach fetch us)"
  by (subst SerialEach.simps) (simp add: Serial_def)

lemma visit_fields [simp]: "fetched (visit u st) v \<longleftrightarrow> v = u \<or> fetched st v" "calls (visit u st) = calls st @ [u]"
  by (auto simp: visit_def)

definition pages :: "'u crawl \<Rightarrow> 'u set" where
  "pages st = {u. fetched st u}"

lemma pages_visit [simp]: "pages (visit u st) = insert u (pages st)"
  by (auto simp: pages_def)

text \<open>What a call does: it visits new pages, each once, and all links of the pages it visits.\<close>

definition crawls :: "'u Fetcher \<Rightarrow> 'u set \<Rightarrow> 'u crawl \<Rightarrow> 'u crawl \<Rightarrow> bool" where
  "crawls fetch todo st st' \<longleftrightarrow> (\<exists>cs. calls st' = calls st @ cs \<and> distinct cs \<and> set cs = pages st' - pages st) \<and>
     pages st \<subseteq> pages st' \<and> todo \<subseteq> pages st' \<and>
     (\<forall>u \<in> pages st' - pages st. set (links fetch u) \<subseteq> pages st')"

lemma crawls_refl: "todo \<subseteq> pages st \<Longrightarrow> crawls fetch todo st st"
  by (auto simp: crawls_def)

lemma crawls_trans:
  assumes "crawls fetch A st st1" and "crawls fetch B st1 st2"
  shows "crawls fetch (A \<union> B) st st2"
proof -
  obtain cs cs' where "calls st1 = calls st @ cs" "distinct cs" "set cs = pages st1 - pages st"
    "calls st2 = calls st1 @ cs'" "distinct cs'" "set cs' = pages st2 - pages st1"
    using assms by (auto simp: crawls_def)
  moreover have "pages st \<subseteq> pages st1" "pages st1 \<subseteq> pages st2" using assms by (auto simp: crawls_def)
  ultimately have "calls st2 = calls st @ (cs @ cs') \<and> distinct (cs @ cs') \<and> set (cs @ cs') = pages st2 - pages st"
    by auto
  moreover have "\<forall>u \<in> pages st2 - pages st. set (links fetch u) \<subseteq> pages st2"
    using assms unfolding crawls_def by blast
  ultimately show ?thesis using assms unfolding crawls_def by blast
qed

lemma crawls_visit:
  assumes "crawls fetch (set (links fetch u)) (visit u st) st'" and "u \<notin> pages st"
  shows "crawls fetch {u} st st'"
proof -
  obtain cs where cs: "calls st' = calls st @ u # cs" "distinct cs" "set cs = pages st' - insert u (pages st)"
    using assms(1) by (auto simp: crawls_def)
  have "insert u (pages st) \<subseteq> pages st'" using assms(1) by (simp add: crawls_def)
  then have "distinct (u # cs) \<and> set (u # cs) = pages st' - pages st" using cs assms(2) by auto
  then show ?thesis using assms cs(1) unfolding crawls_def by auto
qed

lemma SerialEach_crawls:
  assumes "finite R" and "\<And>u. u \<in> R \<Longrightarrow> set (links fetch u) \<subseteq> R" and "set us \<subseteq> R"
  shows "\<exists>st'. SerialEach fetch us st = Some st' \<and> crawls fetch (set us) st st' \<and> pages st' \<subseteq> pages st \<union> R"
  using assms(3)
proof (induction "(R - pages st, length us)" arbitrary: us st rule: wf_induct_rule
    [OF wf_lex_prod [OF wf_finite_psubset wf_less_than]])
  case less: 1
  show ?case
  proof (cases us)
    case (Cons u vs)
    have "\<exists>st1. Serial u fetch st = Some st1 \<and> crawls fetch {u} st st1 \<and> pages st1 \<subseteq> pages st \<union> R"
    proof (cases "u \<in> pages st")
      case True
      then show ?thesis using crawls_refl [of "{u}" st] by (auto simp: Serial_def pages_def)
    next
      case False
      have u: "u \<in> R" using less.prems Cons by simp
      have sm: "(R - pages (visit u st), R - pages st) \<in> finite_psubset"
        using u False assms(1) by (auto simp: finite_psubset_def)
      have "set (links fetch u) \<subseteq> R" by (rule assms(2) [OF u])
      with less.hyps [of "visit u st" "links fetch u"] sm
      obtain st1 where st1: "SerialEach fetch (links fetch u) (visit u st) = Some st1"
        "crawls fetch (set (links fetch u)) (visit u st) st1" "pages st1 \<subseteq> pages (visit u st) \<union> R" by auto
      have "Serial u fetch st = Some st1"
        using st1(1) False by (auto simp: Serial_def links_def pages_def split: option.splits)
      moreover have "pages st1 \<subseteq> pages st \<union> R" using st1(3) u by auto
      ultimately show ?thesis using crawls_visit [OF st1(2) False] by blast
    qed
    then obtain st1 where st1: "Serial u fetch st = Some st1" "crawls fetch {u} st st1" "pages st1 \<subseteq> pages st \<union> R" by blast
    have "(R - pages st1 = R - pages st) \<or> (R - pages st1, R - pages st) \<in> finite_psubset"
      using st1(2) assms(1) by (auto simp: crawls_def finite_psubset_def)
    then have "((R - pages st1, length vs), R - pages st, length us) \<in> finite_psubset <*lex*> less_than"
      using Cons by auto
    from less.hyps [OF this] obtain st2 where st2: "SerialEach fetch vs st1 = Some st2"
      "crawls fetch (set vs) st1 st2" "pages st2 \<subseteq> pages st1 \<union> R" using less.prems Cons by auto
    have "crawls fetch ({u} \<union> set vs) st st2" by (rule crawls_trans [OF st1(2) st2(2)])
    then show ?thesis using st1 st2 Cons by auto
  qed (simp add: crawls_refl)
qed

lemma Serial_is_loop: "Serial url fetch st = SerialEach fetch [url] st"
  by (cases "Serial url fetch st") simp_all

text \<open>
  The serial crawler returns whenever finitely many pages can be reached, having fetched every page
  that can be reached exactly once and no other page.
\<close>

theorem Serial_visits:
  assumes "finite (reach fetch url)"
  shows "\<exists>st. Serial url fetch no_pages = Some st \<and> distinct (calls st) \<and> set (calls st) = reach fetch url \<and>
           (\<forall>u. fetched st u \<longleftrightarrow> u \<in> reach fetch url)"
proof -
  have "set (links fetch u) \<subseteq> reach fetch url" if "u \<in> reach fetch url" for u
    using reach_link [OF that] by blast
  from SerialEach_crawls [OF assms this, of "[url]" no_pages]
  obtain st where st: "Serial url fetch no_pages = Some st" "crawls fetch {url} no_pages st"
    "pages st \<subseteq> reach fetch url"
    using reach_start by (fastforce simp: pages_def simp del: SerialEach_Cons simp: Serial_is_loop)
  have "reach fetch url \<subseteq> pages st"
    by (rule reach_closed) (use st(2) in \<open>auto simp: crawls_def pages_def\<close>)
  then have "pages st = reach fetch url" using st(3) by blast
  then show ?thesis using st(1,2) by (auto simp: crawls_def pages_def)
qed

definition golang_pages :: "string list" where
  "golang_pages = [''http://golang.org/'', ''http://golang.org/pkg/'', ''http://golang.org/cmd/'',
     ''http://golang.org/pkg/fmt/'', ''http://golang.org/pkg/os/'']"

lemma reach_golang: "reach (fake_Fetch golang) ''http://golang.org/'' \<subseteq> set golang_pages"
  by (rule reach_closed) (auto simp: golang_pages_def links_def fake_Fetch_def golang_def)

lemma finite_golang: "finite (reach (fake_Fetch golang) ''http://golang.org/'')"
  by (rule finite_subset [OF reach_golang]) simp

theorem Serial_visits_witness:
  "finite (reach (fake_Fetch golang) ''http://golang.org/'') \<and>
   (\<exists>st. Serial ''http://golang.org/'' (fake_Fetch golang) no_pages = Some st \<and> distinct (calls st) \<and>
      set (calls st) = reach (fake_Fetch golang) ''http://golang.org/'')"
  using Serial_visits [OF finite_golang] finite_golang by blast

end
