(* ===== verification/CrawlerChannel.thy ===== *)
theory CrawlerChannel
  imports Crawler
begin

text \<open>
  The crawler with channels of \<open>src/Lectures/lec2/crawler.go\<close>. The goroutines that send to the channel are a
  multiset; \<open>master\<close> waits at the channel, is inside its inner loop over the received links, or has left
  the outer loop. The channel has no buffer, so that a send and its receipt are one step. The steps of the
  workers and of the master interleave in every order.
\<close>

section \<open>Steps\<close>

datatype 'u worker =
  WFetch 'u
| WSend "'u list"

datatype 'u master_at =
  MRecv
| MLoop "'u list"
| MDone

record 'u channel_crawl =
  mn :: int
  mfetched :: "'u \<Rightarrow> bool"
  mat :: "'u master_at"
  workers :: "'u worker multiset"
  mcalls :: "'u list"

text \<open>A worker sends the links of its page, or the empty list when the page cannot be fetched.\<close>

definition worker_sends :: "'u Fetcher \<Rightarrow> 'u \<Rightarrow> 'u list" where
  "worker_sends fetch url = (case fetch url of None \<Rightarrow> [] | Some urls \<Rightarrow> urls)"

text \<open>One turn of the inner loop, and what follows it.\<close>

definition master_next :: "'u channel_crawl \<Rightarrow> 'u channel_crawl" where
  "master_next s =
     (case mat s of
        MLoop (u # us) \<Rightarrow>
          (if mfetched s u then s\<lparr>mat := MLoop us\<rparr>
           else s\<lparr>mat := MLoop us, mfetched := (mfetched s)(u := True), mn := mn s + 1,
                  workers := add_mset (WFetch u) (workers s)\<rparr>)
      | MLoop [] \<Rightarrow> s\<lparr>mn := mn s - 1, mat := (if mn s - 1 = 0 then MDone else MRecv)\<rparr>
      | _ \<Rightarrow> s)"

definition master_init :: "'u \<Rightarrow> 'u channel_crawl" where
  "master_init url = \<lparr>mn = 1, mfetched = (\<lambda>_. False), mat = MRecv, workers = {#WSend [url]#}, mcalls = []\<rparr>"

inductive channel_step :: "'u Fetcher \<Rightarrow> 'u channel_crawl \<Rightarrow> 'u channel_crawl \<Rightarrow> bool" for fetch where
  worker_fetches: "WFetch u \<in># workers s \<Longrightarrow>
     channel_step fetch s
       (s\<lparr>workers := add_mset (WSend (worker_sends fetch u)) (workers s - {#WFetch u#}), mcalls := mcalls s @ [u]\<rparr>)"
| channel_send: "WSend us \<in># workers s \<Longrightarrow> mat s = MRecv \<Longrightarrow>
     channel_step fetch s (s\<lparr>workers := workers s - {#WSend us#}, mat := MLoop us\<rparr>)"
| master_turn: "mat s = MLoop us \<Longrightarrow> channel_step fetch s (master_next s)"

lemma master_next_simps [simp]:
  "mat s = MLoop [] \<Longrightarrow> master_next s = s\<lparr>mn := mn s - 1, mat := (if mn s - 1 = 0 then MDone else MRecv)\<rparr>"
  "mat s = MLoop (u # us) \<Longrightarrow> mfetched s u \<Longrightarrow> master_next s = s\<lparr>mat := MLoop us\<rparr>"
  "mat s = MLoop (u # us) \<Longrightarrow> \<not> mfetched s u \<Longrightarrow> master_next s =
     s\<lparr>mat := MLoop us, mfetched := (mfetched s)(u := True), mn := mn s + 1, workers := add_mset (WFetch u) (workers s)\<rparr>"
  by (simp_all add: master_next_def)

section \<open>Invariant\<close>

lemma worker_sends_links: "worker_sends fetch u = links fetch u"
  by (simp add: worker_sends_def links_def)

text \<open>Links that are on the way to the master, and pages whose worker has not fetched them yet.\<close>

definition sent :: "'u channel_crawl \<Rightarrow> 'u set" where
  "sent s = (case mat s of MLoop us \<Rightarrow> set us | _ \<Rightarrow> {}) \<union> {v. \<exists>us. WSend us \<in># workers s \<and> v \<in> set us}"

definition fetching :: "'u channel_crawl \<Rightarrow> 'u multiset" where
  "fetching s = (\<Sum>w\<in>#workers s. case w of WFetch u \<Rightarrow> {#u#} | WSend _ \<Rightarrow> {#})"

definition looping :: "'u channel_crawl \<Rightarrow> nat" where
  "looping s = (case mat s of MLoop _ \<Rightarrow> 1 | _ \<Rightarrow> 0)"

definition channel_inv :: "'u Fetcher \<Rightarrow> 'u \<Rightarrow> 'u channel_crawl \<Rightarrow> bool" where
  "channel_inv fetch url s \<longleftrightarrow>
     mn s = int (size (workers s) + looping s) \<and> (mat s = MDone \<longleftrightarrow> mn s = 0) \<and>
     crawl_ok fetch url (mfetched s) (mcalls s) (fetching s) (sent s)"

lemma channel_inv_init: "channel_inv fetch url (master_init url)"
  using crawl_ok_start [of fetch url]
  by (simp add: channel_inv_def master_init_def sent_def fetching_def looping_def)

lemma channel_inv_fetch:
  assumes inv: "channel_inv fetch url s" and u: "WFetch u \<in># workers s"
  shows "channel_inv fetch url
     (s\<lparr>workers := add_mset (WSend (worker_sends fetch u)) (workers s - {#WFetch u#}), mcalls := mcalls s @ [u]\<rparr>)"
    (is "channel_inv _ _ ?t")
proof -
  obtain W where W: "workers s = add_mset (WFetch u) W" using u by (auto dest: multi_member_split)
  have "sent ?t = sent s \<union> set (links fetch u)" using W by (auto simp: sent_def worker_sends_links)
  moreover have "fetching s = add_mset u (fetching ?t)" using W by (simp add: fetching_def)
  moreover have "mn ?t = int (size (workers ?t) + looping ?t)" "mat ?t = MDone \<longleftrightarrow> mn ?t = 0"
    using inv W by (simp_all add: channel_inv_def looping_def)
  ultimately show ?thesis using inv crawl_ok_fetch [of fetch url "mfetched s" "mcalls s" u "fetching ?t" "sent s"]
    by (simp add: channel_inv_def)
qed

lemma channel_inv_send:
  assumes inv: "channel_inv fetch url s" and us: "WSend us \<in># workers s" and at: "mat s = MRecv"
  shows "channel_inv fetch url (s\<lparr>workers := workers s - {#WSend us#}, mat := MLoop us\<rparr>)" (is "channel_inv _ _ ?t")
proof -
  obtain W where W: "workers s = add_mset (WSend us) W" using us by (auto dest: multi_member_split)
  have "sent ?t = sent s" using W at by (auto simp: sent_def)
  moreover have "fetching ?t = fetching s" using W by (simp add: fetching_def)
  moreover have "mn ?t = int (size (workers ?t) + looping ?t)" "mat ?t = MDone \<longleftrightarrow> mn ?t = 0"
    using inv W at by (simp_all add: channel_inv_def looping_def)
  ultimately show ?thesis using inv by (simp add: channel_inv_def)
qed

lemma channel_inv_turn:
  assumes inv: "channel_inv fetch url s" and at: "mat s = MLoop us"
  shows "channel_inv fetch url (master_next s)" (is "channel_inv _ _ ?t")
proof (cases us)
  case Nil
  have "sent ?t = sent s" "fetching ?t = fetching s" using at Nil by (auto simp: sent_def fetching_def)
  then show ?thesis using inv at Nil by (auto simp: channel_inv_def looping_def)
next
  case (Cons u vs)
  have "sent s = insert u (sent ?t)" using at Cons by (cases "mfetched s u") (auto simp: sent_def)
  moreover have "mfetched ?t = (mfetched s)(u := True)" "mcalls ?t = mcalls s"
    using at Cons by (cases "mfetched s u"; auto simp: fun_eq_iff)+
  moreover have "fetching ?t = fetching s + (if mfetched s u then {#} else {#u#})"
    using at Cons by (cases "mfetched s u") (simp_all add: fetching_def)
  moreover have "mn ?t = int (size (workers ?t) + looping ?t)" "mat ?t = MDone \<longleftrightarrow> mn ?t = 0"
    using inv at Cons by (cases "mfetched s u"; auto simp: channel_inv_def looping_def)+
  ultimately show ?thesis
    using inv crawl_ok_mark [of fetch url "mfetched s" "mcalls s" "fetching s" "sent s" u "sent ?t"]
    unfolding channel_inv_def by metis
qed

lemma channel_inv_step: "channel_step fetch s t \<Longrightarrow> channel_inv fetch url s \<Longrightarrow> channel_inv fetch url t"
  by (induction rule: channel_step.induct) (simp_all only: channel_inv_fetch channel_inv_send channel_inv_turn)

section \<open>Number of steps\<close>

text \<open>The steps that are left: every step takes exactly one off.\<close>

definition page_steps :: "'u Fetcher \<Rightarrow> 'u \<Rightarrow> nat" where
  "page_steps fetch u = 3 + length (links fetch u)"

definition worker_steps :: "'u Fetcher \<Rightarrow> 'u worker \<Rightarrow> nat" where
  "worker_steps fetch w = (case w of WFetch u \<Rightarrow> page_steps fetch u | WSend us \<Rightarrow> 2 + length us)"

definition steps_left :: "'u Fetcher \<Rightarrow> 'u set \<Rightarrow> 'u channel_crawl \<Rightarrow> nat" where
  "steps_left fetch R s = (\<Sum>u \<in> R - {u. mfetched s u}. page_steps fetch u) + (\<Sum>w\<in>#workers s. worker_steps fetch w) +
     (case mat s of MLoop us \<Rightarrow> 1 + length us | _ \<Rightarrow> 0)"

lemma steps_left_step:
  assumes "channel_step fetch s t" and "channel_inv fetch url s" and "finite (reach fetch url)"
  shows "steps_left fetch (reach fetch url) s = Suc (steps_left fetch (reach fetch url) t)"
  using assms(1)
proof cases
  case (worker_fetches u)
  then show ?thesis
    by (auto simp: steps_left_def worker_steps_def page_steps_def worker_sends_links dest!: multi_member_split)
next
  case (channel_send us)
  then show ?thesis by (auto simp: steps_left_def worker_steps_def dest!: multi_member_split)
next
  case (master_turn us)
  show ?thesis
  proof (cases "\<exists>u vs. us = u # vs \<and> \<not> mfetched s u")
    case False
    then show ?thesis using master_turn by (cases us) (auto simp: steps_left_def)
  next
    case True
    then obtain u vs where u: "us = u # vs" "\<not> mfetched s u" by blast
    let ?A = "reach fetch url - {u. mfetched s u}"
    have "u \<in> sent s" using u master_turn by (simp add: sent_def)
    then have "u \<in> ?A" using u assms(2) by (auto simp: channel_inv_def intro: crawl_ok_todo)
    then have "(\<Sum>x \<in> ?A. page_steps fetch x) = page_steps fetch u + (\<Sum>x \<in> ?A - {u}. page_steps fetch x)"
      using assms(3) by (simp add: sum.remove)
    moreover have "?A - {u} = reach fetch url - {x. mfetched (master_next s) x}" using u master_turn by auto
    ultimately show ?thesis using u master_turn by (simp add: steps_left_def worker_steps_def)
  qed
qed

lemma not_stuck:
  assumes "channel_inv fetch url s" and "mat s \<noteq> MDone"
  shows "\<exists>t. channel_step fetch s t"
proof (cases "mat s")
  case MRecv
  then have "size (workers s) \<noteq> 0" using assms by (auto simp: channel_inv_def looping_def)
  then obtain w where "w \<in># workers s" by (metis size_empty multiset_nonemptyE)
  then show ?thesis using MRecv by (cases w) (blast intro: channel_step.intros)+
qed (use assms in \<open>auto intro: channel_step.intros\<close>)

lemma channel_run_inv:
  assumes "(channel_step fetch ^^ k) (master_init url) s" and "finite (reach fetch url)"
  shows "channel_inv fetch url s \<and>
    k + steps_left fetch (reach fetch url) s = steps_left fetch (reach fetch url) (master_init url)"
  using assms(1)
proof (induction k arbitrary: s)
  case 0
  then show ?case using channel_inv_init by auto
next
  case (Suc k)
  then obtain r where r: "(channel_step fetch ^^ k) (master_init url) r" "channel_step fetch r s" by auto
  with Suc.IH show ?case using channel_inv_step [OF r(2)] steps_left_step [OF r(2) _ assms(2)] by fastforce
qed

lemma channel_inv_done:
  assumes "channel_inv fetch url s" and "mat s = MDone"
  shows "workers s = {#} \<and> distinct (mcalls s) \<and> set (mcalls s) = reach fetch url \<and>
    {u. mfetched s u} = reach fetch url"
proof -
  have "workers s = {#}" using assms by (auto simp: channel_inv_def looping_def)
  moreover from this have "fetching s = {#}" "sent s = {}" using assms(2) by (auto simp: fetching_def sent_def)
  ultimately show ?thesis using assms(1) crawl_ok_done [of fetch url "mfetched s" "mcalls s"] by (simp add: channel_inv_def)
qed

text \<open>Property C40: however the goroutines interleave, the crawler with channels is never stuck before \<open>master\<close> leaves its
  loop, and it leaves it after a number of steps that only depends on the pages; then every page that
  can be reached has been fetched exactly once, no other has, and no goroutine is left.
\<close>

theorem ConcurrentChannel_correct:
  assumes "(channel_step fetch ^^ k) (master_init url) s" and "finite (reach fetch url)"
  shows "k \<le> 3 + (\<Sum>u \<in> reach fetch url. 3 + length (links fetch u)) \<and>
    (mat s \<noteq> MDone \<longrightarrow> (\<exists>t. channel_step fetch s t)) \<and>
    (mat s = MDone \<longrightarrow> k = 3 + (\<Sum>u \<in> reach fetch url. 3 + length (links fetch u)) \<and>
       workers s = {#} \<and> distinct (mcalls s) \<and> set (mcalls s) = reach fetch url)"
proof -
  have total: "steps_left fetch (reach fetch url) (master_init url) =
      3 + (\<Sum>u \<in> reach fetch url. 3 + length (links fetch u))"
    by (simp add: steps_left_def master_init_def worker_steps_def page_steps_def)
  note run = channel_run_inv [OF assms]
  have "steps_left fetch (reach fetch url) s = 0" if "mat s = MDone"
  proof -
    have "workers s = {#}" "{u. mfetched s u} = reach fetch url"
      using channel_inv_done [OF _ that] run by blast+
    then show ?thesis using that by (simp add: steps_left_def)
  qed
  then show ?thesis using run total not_stuck [of fetch url s] channel_inv_done [of fetch url s] by auto
qed

lemma run_exists:
  assumes "channel_inv fetch url s" and "finite (reach fetch url)"
  shows "\<exists>k t. (channel_step fetch ^^ k) s t \<and> mat t = MDone"
  using assms(1)
proof (induction "steps_left fetch (reach fetch url) s" arbitrary: s rule: less_induct)
  case less
  show ?case
  proof (cases "mat s = MDone")
    case False
    then obtain r where r: "channel_step fetch s r" using not_stuck [OF less.prems] by blast
    from less.hyps [of r] obtain k t where "(channel_step fetch ^^ k) r t" "mat t = MDone"
      using steps_left_step [OF r less.prems assms(2)] channel_inv_step [OF r less.prems] by auto
    then show ?thesis using r by (metis relpowp_Suc_I2)
  next
    case True
    then show ?thesis by (metis relpowp_0_I)
  qed
qed

theorem ConcurrentChannel_correct_witness:
  "\<exists>k s. (channel_step (fake_Fetch golang) ^^ k) (master_init ''http://golang.org/'') s \<and> mat s = MDone \<and>
     finite (reach (fake_Fetch golang) ''http://golang.org/'') \<and> workers s = {#} \<and> distinct (mcalls s) \<and>
     set (mcalls s) = reach (fake_Fetch golang) ''http://golang.org/''"
proof -
  obtain k s where "(channel_step (fake_Fetch golang) ^^ k) (master_init ''http://golang.org/'') s" "mat s = MDone"
    using run_exists [OF channel_inv_init finite_golang] by blast
  then show ?thesis using ConcurrentChannel_correct [OF _ finite_golang] finite_golang by blast
qed

end
