(* ===== verification/CrawlerMutex.thy ===== *)
theory CrawlerMutex
  imports Crawler
begin

text \<open>
  The crawler with a mutex of \<open>src/Lectures/lec2/crawler.go\<close>: every link is crawled in a goroutine of its
  own, and a call of \<open>ConcurrentMutex\<close> waits for the goroutines it started. Goroutines are numbered in the
  order of their creation, the call made by \<open>main\<close> being number 0. A goroutine has a program counter, the
  number of the call whose wait group it signs off, and the counter of its own wait group. The code between
  \<open>Lock\<close> and \<open>Unlock\<close> is one step; otherwise the steps of the goroutines interleave in every order.
\<close>

section \<open>Steps\<close>

datatype 'u crawler_pc =
  AtLock 'u
| AtFetch 'u
| AtLoop "'u list"
| AtWait
| AtReturn
| Ended

record 'u goroutine =
  gpc :: "'u crawler_pc"
  gparent :: "nat option"
  gdone :: int

record 'u fetchState =
  fs_fetched :: "'u \<Rightarrow> bool"
  fs_calls :: "'u list"
  fs_gs :: "'u goroutine list"

definition makeState :: "'u \<Rightarrow> 'u fetchState" where
  "makeState url = \<lparr>fs_fetched = (\<lambda>_. False), fs_calls = [], fs_gs = [\<lparr>gpc = AtLock url, gparent = None, gdone = 0\<rparr>]\<rparr>"

definition setpc :: "nat \<Rightarrow> 'u crawler_pc \<Rightarrow> 'u goroutine list \<Rightarrow> 'u goroutine list" where
  "setpc i p gs = gs[i := (gs ! i)\<lparr>gpc := p\<rparr>]"

text \<open>The deferred \<open>Done\<close> of the goroutine that made the call; \<open>main\<close> has none.\<close>

definition signOff :: "nat option \<Rightarrow> 'u goroutine list \<Rightarrow> 'u goroutine list" where
  "signOff p gs = (case p of None \<Rightarrow> gs | Some j \<Rightarrow> gs[j := (gs ! j)\<lparr>gdone := gdone (gs ! j) - 1\<rparr>])"

text \<open>The next step of goroutine \<open>i\<close>; \<open>None\<close> while it waits for its wait group, and after its end.\<close>

definition ConcurrentMutex_step :: "'u Fetcher \<Rightarrow> nat \<Rightarrow> 'u fetchState \<Rightarrow> 'u fetchState option" where
  "ConcurrentMutex_step fetch i f =
     (case gpc (fs_gs f ! i) of
        AtLock url \<Rightarrow>
          Some (f\<lparr>fs_fetched := (fs_fetched f)(url := True),
                  fs_gs := setpc i (if fs_fetched f url then AtReturn else AtFetch url) (fs_gs f)\<rparr>)
      | AtFetch url \<Rightarrow>
          Some (f\<lparr>fs_calls := fs_calls f @ [url],
                  fs_gs := setpc i (case fetch url of None \<Rightarrow> AtReturn | Some urls \<Rightarrow> AtLoop urls) (fs_gs f)\<rparr>)
      | AtLoop (u # us) \<Rightarrow>
          Some (f\<lparr>fs_gs := (fs_gs f)[i := (fs_gs f ! i)\<lparr>gpc := AtLoop us, gdone := gdone (fs_gs f ! i) + 1\<rparr>] @
                             [\<lparr>gpc = AtLock u, gparent = Some i, gdone = 0\<rparr>]\<rparr>)
      | AtLoop [] \<Rightarrow> Some (f\<lparr>fs_gs := setpc i AtWait (fs_gs f)\<rparr>)
      | AtWait \<Rightarrow> if gdone (fs_gs f ! i) = 0 then Some (f\<lparr>fs_gs := setpc i AtReturn (fs_gs f)\<rparr>) else None
      | AtReturn \<Rightarrow> Some (f\<lparr>fs_gs := signOff (gparent (fs_gs f ! i)) (setpc i Ended (fs_gs f))\<rparr>)
      | Ended \<Rightarrow> None)"

definition mutex_step :: "'u Fetcher \<Rightarrow> 'u fetchState \<Rightarrow> 'u fetchState \<Rightarrow> bool" where
  "mutex_step fetch f f' \<longleftrightarrow> (\<exists>i < length (fs_gs f). ConcurrentMutex_step fetch i f = Some f')"

section \<open>Pages\<close>

text \<open>What the goroutines are about to fetch and the links they are to look at depend on where they are only.\<close>

abbreviation pcs :: "'u goroutine list \<Rightarrow> 'u crawler_pc multiset" where
  "pcs gs \<equiv> image_mset gpc (mset gs)"

definition pc_fetching :: "'u crawler_pc multiset \<Rightarrow> 'u multiset" where
  "pc_fetching P = (\<Sum>p\<in>#P. case p of AtFetch u \<Rightarrow> {#u#} | _ \<Rightarrow> {#})"

definition pc_links :: "'u crawler_pc \<Rightarrow> 'u set" where
  "pc_links p = (case p of AtLock u \<Rightarrow> {u} | AtLoop us \<Rightarrow> set us | _ \<Rightarrow> {})"

definition pc_todo :: "'u crawler_pc multiset \<Rightarrow> 'u set" where
  "pc_todo P = (\<Union>p \<in> set_mset P. pc_links p)"

definition fs_ok :: "'u Fetcher \<Rightarrow> 'u \<Rightarrow> 'u fetchState \<Rightarrow> bool" where
  "fs_ok fetch url f \<longleftrightarrow>
     crawl_ok fetch url (fs_fetched f) (fs_calls f) (pc_fetching (pcs (fs_gs f))) (pc_todo (pcs (fs_gs f)))"

lemma pc_simps [simp]:
  "pc_fetching (add_mset p P) = (case p of AtFetch u \<Rightarrow> {#u#} | _ \<Rightarrow> {#}) + pc_fetching P"
  "pc_todo (add_mset p P) = pc_links p \<union> pc_todo P"
  "pc_fetching {#} = {#}" "pc_todo {#} = {}"
  by (auto simp: pc_fetching_def pc_todo_def)

lemma pcs_update:
  assumes "i < length gs"
  obtains R where "pcs gs = add_mset (gpc (gs ! i)) R" "\<And>g. pcs (gs[i := g]) = add_mset (gpc g) R"
proof -
  have "gs = take i gs @ gs ! i # drop (Suc i) gs" using assms by (rule id_take_nth_drop)
  then have "pcs gs = add_mset (gpc (gs ! i)) (pcs (take i gs @ drop (Suc i) gs))"
    by (metis image_mset_add_mset mset.simps(2) mset_append union_mset_add_mset_right)
  moreover have "pcs (gs[i := g]) = add_mset (gpc g) (pcs (take i gs @ drop (Suc i) gs))" for g
    using assms by (simp add: upd_conv_take_nth_drop)
  ultimately show thesis using that by blast
qed

lemma pcs_signOff [simp]: "pcs (signOff p gs) = pcs gs"
proof (cases p)
  case (Some j)
  show ?thesis
  proof (cases "j < length gs")
    case True
    then show ?thesis using Some by (elim pcs_update) (simp add: signOff_def)
  qed (simp add: Some signOff_def list_update_beyond not_less)
qed (simp add: signOff_def)

text \<open>The steps that are left: every step takes exactly one off.\<close>

definition page_cost :: "'u Fetcher \<Rightarrow> 'u \<Rightarrow> nat" where
  "page_cost fetch u = (case fetch u of None \<Rightarrow> 1 | Some us \<Rightarrow> 3 + 3 * length us)"

fun pc_cost :: "'u Fetcher \<Rightarrow> 'u crawler_pc \<Rightarrow> nat" where
  "pc_cost fetch (AtLock u) = 2"
| "pc_cost fetch (AtFetch u) = 1 + page_cost fetch u"
| "pc_cost fetch (AtLoop us) = 3 + 3 * length us"
| "pc_cost fetch AtWait = 2"
| "pc_cost fetch AtReturn = 1"
| "pc_cost fetch Ended = 0"

definition mutex_left :: "'u Fetcher \<Rightarrow> 'u set \<Rightarrow> 'u fetchState \<Rightarrow> nat" where
  "mutex_left fetch R f =
     (\<Sum>u \<in> R - {u. fs_fetched f u}. page_cost fetch u) + (\<Sum>p\<in>#pcs (fs_gs f). pc_cost fetch p)"

lemma mutex_lock_step:
  assumes pcs: "pcs (fs_gs f) = add_mset (AtLock u) R" and ok: "fs_ok fetch url f" and fin: "finite (reach fetch url)"
    and f': "fs_fetched f' = (fs_fetched f)(u := True)" "fs_calls f' = fs_calls f"
      "pcs (fs_gs f') = add_mset (if fs_fetched f u then AtReturn else AtFetch u) R"
  shows "fs_ok fetch url f'"
    and "mutex_left fetch (reach fetch url) f = Suc (mutex_left fetch (reach fetch url) f')"
proof -
  have todo: "pc_todo (pcs (fs_gs f)) = insert u (pc_todo (pcs (fs_gs f')))" by (simp add: pcs f' pc_links_def)
  have "pc_fetching (pcs (fs_gs f')) = pc_fetching (pcs (fs_gs f)) + (if fs_fetched f u then {#} else {#u#})"
    by (simp add: pcs f')
  then show "fs_ok fetch url f'" using crawl_ok_mark [OF ok [unfolded fs_ok_def] todo] by (simp add: fs_ok_def f')
  show "mutex_left fetch (reach fetch url) f = Suc (mutex_left fetch (reach fetch url) f')"
  proof (cases "fs_fetched f u")
    case True
    then have "(fs_fetched f)(u := True) = fs_fetched f" by (auto simp: fun_eq_iff)
    then show ?thesis using True by (simp add: mutex_left_def f' pcs)
  next
    case False
    let ?A = "reach fetch url - {v. fs_fetched f v}"
    have "u \<in> ?A" using False ok todo by (auto simp: fs_ok_def intro: crawl_ok_todo)
    then have "(\<Sum>x \<in> ?A. page_cost fetch x) = page_cost fetch u + (\<Sum>x \<in> ?A - {u}. page_cost fetch x)"
      using fin by (simp add: sum.remove)
    moreover have "?A - {u} = reach fetch url - {x. fs_fetched f' x}" by (auto simp: f')
    ultimately show ?thesis using False by (simp add: mutex_left_def f'(3) pcs)
  qed
qed

lemma mutex_page_step:
  assumes i: "i < length (fs_gs f)" and step: "ConcurrentMutex_step fetch i f = Some f'"
    and ok: "fs_ok fetch url f" and fin: "finite (reach fetch url)"
  shows "fs_ok fetch url f'" (is ?ok)
    and "mutex_left fetch (reach fetch url) f = Suc (mutex_left fetch (reach fetch url) f')" (is ?left)
proof -
  obtain R where R: "pcs (fs_gs f) = add_mset (gpc (fs_gs f ! i)) R"
    "\<And>g. pcs ((fs_gs f)[i := g]) = add_mset (gpc g) R" using pcs_update [OF i] by blast
  note ok' = ok [unfolded fs_ok_def R(1)]
  have "?ok \<and> ?left"
  proof (cases "gpc (fs_gs f ! i)")
    case (AtLock u)
    then show ?thesis using step mutex_lock_step [OF _ ok fin, of u R f'] R
      by (simp add: ConcurrentMutex_step_def setpc_def) auto
  next
    case (AtFetch u)
    let ?p = "case fetch u of None \<Rightarrow> AtReturn | Some urls \<Rightarrow> AtLoop urls"
    have f': "fs_fetched f' = fs_fetched f" "fs_calls f' = fs_calls f @ [u]" "pcs (fs_gs f') = add_mset ?p R"
      using step AtFetch by (auto simp: ConcurrentMutex_step_def setpc_def R(2))
    have "pc_todo (pcs (fs_gs f')) = pc_todo (pcs (fs_gs f)) \<union> set (links fetch u)"
      using AtFetch by (auto simp: R(1) f' pc_links_def links_def split: option.split)
    moreover have "pc_fetching (pcs (fs_gs f)) = add_mset u (pc_fetching (pcs (fs_gs f')))"
      using AtFetch by (simp add: R(1) f' split: option.split)
    ultimately have ?ok using ok crawl_ok_fetch [of fetch url "fs_fetched f" "fs_calls f" u]
      by (simp add: fs_ok_def f'(1,2))
    moreover have ?left using AtFetch by (simp add: mutex_left_def f' R(1) page_cost_def split: option.split)
    ultimately show ?thesis ..
  next
    case (AtLoop us)
    then show ?thesis
    proof (cases us)
      case Nil
      then show ?thesis using AtLoop step ok
        by (auto simp: ConcurrentMutex_step_def setpc_def R fs_ok_def mutex_left_def pc_links_def)
    next
      case (Cons u vs)
      then show ?thesis using AtLoop step ok
        by (auto simp: ConcurrentMutex_step_def R fs_ok_def mutex_left_def pc_links_def)
    qed
  qed (use step ok in \<open>auto simp: ConcurrentMutex_step_def setpc_def R fs_ok_def mutex_left_def pc_links_def split: if_splits\<close>)
  then show ?ok ?left by blast+
qed

section \<open>Wait groups\<close>

text \<open>The goroutines that are to sign off the wait group of goroutine \<open>j\<close>.\<close>

definition kids :: "'u goroutine list \<Rightarrow> nat \<Rightarrow> nat set" where
  "kids gs j = {i. i < length gs \<and> gparent (gs ! i) = Some j \<and> gpc (gs ! i) \<noteq> Ended}"

definition waiting :: "'u crawler_pc \<Rightarrow> bool" where
  "waiting p = (case p of AtWait \<Rightarrow> True | AtLoop _ \<Rightarrow> True | _ \<Rightarrow> False)"

definition wg_inv :: "'u goroutine list \<Rightarrow> bool" where
  "wg_inv gs \<longleftrightarrow> 0 < length gs \<and> (\<forall>i < length gs. case gparent (gs ! i) of None \<Rightarrow> i = 0 | Some j \<Rightarrow> j < i) \<and>
     (\<forall>j < length gs. gdone (gs ! j) = int (card (kids gs j)) \<and> (gdone (gs ! j) \<noteq> 0 \<longrightarrow> waiting (gpc (gs ! j))))"

lemma finite_kids [simp]: "finite (kids gs j)"
  by (simp add: kids_def)

lemma wg_inv_main: "wg_inv [\<lparr>gpc = p, gparent = None, gdone = 0\<rparr>]"
proof -
  have "kids [\<lparr>gpc = p, gparent = None, gdone = 0\<rparr>] 0 = {}" by (auto simp: kids_def nth_Cons' split: if_splits)
  then show ?thesis by (simp add: wg_inv_def)
qed

lemma wg_inv_setpc:
  assumes inv: "wg_inv gs" and i: "i < length gs" "gpc (gs ! i) \<noteq> Ended" and p: "p \<noteq> Ended"
    and w: "waiting p \<or> gdone (gs ! i) = 0"
  shows "wg_inv (setpc i p gs)"
proof -
  have n: "setpc i p gs ! j = (if j = i then (gs ! i)\<lparr>gpc := p\<rparr> else gs ! j)" for j
    using i by (simp add: setpc_def nth_list_update)
  have "kids (setpc i p gs) j = kids gs j" for j using i p by (auto simp: kids_def n) (auto simp: setpc_def)
  moreover have "length (setpc i p gs) = length gs" by (simp add: setpc_def)
  ultimately show ?thesis using inv w by (auto simp: wg_inv_def n)
qed

lemma wg_inv_spawn:
  assumes inv: "wg_inv gs" and i: "i < length gs" and p: "waiting p" "gpc (gs ! i) \<noteq> Ended" "p \<noteq> Ended"
    and g: "gparent g = Some i" "gdone g = 0" "gpc g \<noteq> Ended"
  shows "wg_inv (gs[i := (gs ! i)\<lparr>gpc := p, gdone := gdone (gs ! i) + 1\<rparr>] @ [g])" (is "wg_inv ?gs")
proof -
  have n: "?gs ! i = (gs ! i)\<lparr>gpc := p, gdone := gdone (gs ! i) + 1\<rparr>" "?gs ! length gs = g"
    "\<And>j. j < length gs \<Longrightarrow> j \<noteq> i \<Longrightarrow> ?gs ! j = gs ! j" and len: "length ?gs = Suc (length gs)"
    using i by (simp_all add: nth_append)
  have pc: "gparent (?gs ! j) = gparent (gs ! j) \<and> (gpc (?gs ! j) = Ended \<longleftrightarrow> gpc (gs ! j) = Ended)" if "j < length gs" for j
    using that n p by (cases "j = i") auto
  have kids: "kids ?gs j = (if j = i then insert (length gs) (kids gs j) else kids gs j)" for j
  proof -
    have "x \<in> kids ?gs j \<longleftrightarrow> x \<in> kids gs j \<or> x = length gs \<and> j = i" for x
      using pc [of x] n(2) g unfolding kids_def len by (auto simp: less_Suc_eq)
    then show ?thesis by auto
  qed
  have fresh: "length gs \<notin> kids gs i" "kids gs (length gs) = {}"
    using inv by (auto simp: kids_def wg_inv_def split: option.splits)
  have "gdone (?gs ! j) = int (card (kids ?gs j)) \<and> (gdone (?gs ! j) \<noteq> 0 \<longrightarrow> waiting (gpc (?gs ! j)))"
    if "j < Suc (length gs)" for j
    using that inv i n fresh g p unfolding kids wg_inv_def
    by (cases "j = i"; cases "j = length gs") (auto simp: less_Suc_eq)
  moreover have "case gparent (?gs ! j) of None \<Rightarrow> j = 0 | Some k \<Rightarrow> k < j" if "j < Suc (length gs)" for j
    using that inv i g pc [of j] n(2) unfolding wg_inv_def by (cases "j = length gs") auto
  ultimately show ?thesis unfolding wg_inv_def len by simp
qed

lemma wg_inv_return:
  assumes inv: "wg_inv gs" and i: "i < length gs" "gpc (gs ! i) = AtReturn"
  shows "wg_inv (signOff (gparent (gs ! i)) (setpc i Ended gs))"
proof -
  have z: "gdone (gs ! i) = 0" using inv i by (auto simp: wg_inv_def waiting_def)
  have n: "setpc i Ended gs ! j = (if j = i then (gs ! i)\<lparr>gpc := Ended\<rparr> else gs ! j)" for j
    using i by (simp add: setpc_def nth_list_update)
  have len: "length (setpc i Ended gs) = length gs" by (simp add: setpc_def)
  have kids: "kids (setpc i Ended gs) j = kids gs j - {i}" for j
    by (auto simp: kids_def n len)
  show ?thesis
  proof (cases "gparent (gs ! i)")
    case None
    then have "i \<notin> kids gs j" for j by (simp add: kids_def)
    then show ?thesis using inv None i z by (auto simp: wg_inv_def signOff_def kids n len)
  next
    case (Some j)
    have j: "j < i" using inv i Some by (auto simp: wg_inv_def split: option.splits)
    let ?gs = "signOff (Some j) (setpc i Ended gs)"
    have m: "?gs ! k = (if k = j then (gs ! j)\<lparr>gdone := gdone (gs ! j) - 1\<rparr> else setpc i Ended gs ! k)" for k
      using j i by (simp add: signOff_def nth_list_update len n)
    have len': "length ?gs = length gs" by (simp add: signOff_def len)
    have kids': "kids ?gs k = kids gs k - {i}" for k
      unfolding kids [symmetric] kids_def len len' m using j by (auto simp: n)
    have ik: "i \<in> kids gs j" "\<And>k. k \<noteq> j \<Longrightarrow> i \<notin> kids gs k" using Some i by (auto simp: kids_def)
    then have "int (card (kids gs j - {i})) = gdone (gs ! j) - 1" "gdone (gs ! j) \<noteq> 0"
      using inv j i card_gt_0_iff [of "kids gs j"] by (auto simp: wg_inv_def of_nat_diff)
    then show ?thesis using inv j i z ik(2) Some
      unfolding wg_inv_def Some by (auto simp: m len' kids' n)
  qed
qed

lemma wg_inv_idle: "wg_inv gs \<Longrightarrow> i < length gs \<Longrightarrow> \<not> waiting (gpc (gs ! i)) \<Longrightarrow> gdone (gs ! i) = 0"
  by (auto simp: wg_inv_def)

lemma wg_inv_step:
  assumes inv: "wg_inv (fs_gs f)" and i: "i < length (fs_gs f)" and step: "ConcurrentMutex_step fetch i f = Some f'"
  shows "wg_inv (fs_gs f')"
proof (cases "gpc (fs_gs f ! i)")
  case (AtLock u)
  then have "gdone (fs_gs f ! i) = 0" using wg_inv_idle [OF inv i] by (simp add: waiting_def)
  then show ?thesis using AtLock step by (auto simp: ConcurrentMutex_step_def intro!: wg_inv_setpc inv i)
next
  case (AtFetch u)
  then have "gdone (fs_gs f ! i) = 0" using wg_inv_idle [OF inv i] by (simp add: waiting_def)
  then show ?thesis using AtFetch step
    by (auto simp: ConcurrentMutex_step_def intro!: wg_inv_setpc inv i split: option.split)
next
  case (AtLoop us)
  then show ?thesis using step
    by (cases us) (auto simp: ConcurrentMutex_step_def waiting_def intro!: wg_inv_setpc wg_inv_spawn inv i)
next
  case AtReturn
  then show ?thesis using step by (auto simp: ConcurrentMutex_step_def intro!: wg_inv_return inv i)
qed (use step in \<open>auto simp: ConcurrentMutex_step_def intro!: wg_inv_setpc inv i split: if_splits\<close>)

text \<open>The youngest goroutine that has not ended waits for nobody.\<close>

lemma wg_inv_free:
  assumes inv: "wg_inv gs" and g: "g \<in> set gs" "gpc g \<noteq> Ended"
  shows "\<exists>i < length gs. gpc (gs ! i) \<noteq> Ended \<and> gdone (gs ! i) = 0"
proof -
  let ?A = "{i. i < length gs \<and> gpc (gs ! i) \<noteq> Ended}" and ?gs = "gs"
  have "?A \<noteq> {}" using g by (auto simp: in_set_conv_nth)
  then have m: "Max ?A \<in> ?A" "\<And>i. i \<in> ?A \<Longrightarrow> i \<le> Max ?A" using Max_in [of ?A] by (simp_all only:) auto
  have "kids ?gs (Max ?A) = {}"
  proof (rule ccontr)
    assume "kids ?gs (Max ?A) \<noteq> {}"
    then obtain i where i: "i \<in> ?A" "gparent (?gs ! i) = Some (Max ?A)" by (auto simp: kids_def)
    then have "Max ?A < i" using inv by (auto simp: wg_inv_def split: option.splits)
    then show False using m(2) [OF i(1)] by simp
  qed
  then have "gdone (?gs ! Max ?A) = 0" using inv m(1) by (auto simp: wg_inv_def)
  then show ?thesis using m(1) by blast
qed

lemma mutex_not_stuck:
  assumes "wg_inv (fs_gs f)" and "g \<in> set (fs_gs f)" "gpc g \<noteq> Ended"
  shows "\<exists>f'. mutex_step fetch f f'"
proof -
  obtain i where i: "i < length (fs_gs f)" "gpc (fs_gs f ! i) \<noteq> Ended" "gdone (fs_gs f ! i) = 0"
    using wg_inv_free [OF assms] by blast
  then have "ConcurrentMutex_step fetch i f \<noteq> None"
    by (auto simp: ConcurrentMutex_step_def split: crawler_pc.splits list.splits)
  then show ?thesis using i(1) unfolding mutex_step_def by blast
qed

text \<open>A goroutine that has not ended keeps all calls up to that of \<open>main\<close> from returning.\<close>

lemma main_ends_last:
  assumes inv: "wg_inv gs" and ended: "gpc (gs ! 0) = Ended" and i: "i < length gs"
  shows "gpc (gs ! i) = Ended"
  using i
proof (induction i rule: less_induct)
  case (less i)
  show ?case
  proof (cases "gparent (gs ! i)")
    case None
    then show ?thesis using inv less.prems ended by (auto simp: wg_inv_def split: option.splits)
  next
    case (Some j)
    then have j: "j < i" using inv less.prems by (auto simp: wg_inv_def split: option.splits)
    then have "gdone (gs ! j) = 0" using less wg_inv_idle [OF inv] by (simp add: waiting_def)
    then have "kids gs j = {}" using inv j less.prems by (auto simp: wg_inv_def)
    then show ?thesis using Some less.prems by (auto simp: kids_def)
  qed
qed

lemma mutex_run_inv:
  assumes "(mutex_step fetch ^^ k) (makeState url) f" and "finite (reach fetch url)"
  shows "fs_ok fetch url f \<and> wg_inv (fs_gs f) \<and> k + mutex_left fetch (reach fetch url) f =
    2 + (\<Sum>u \<in> reach fetch url. case fetch u of None \<Rightarrow> 1 | Some us \<Rightarrow> 3 + 3 * length us)"
  using assms(1)
proof (induction k arbitrary: f)
  case 0
  then have f: "f = makeState url" by auto
  have "fs_ok fetch url f" using crawl_ok_start [of fetch url]
    by (simp add: f fs_ok_def makeState_def pc_links_def)
  moreover have "wg_inv (fs_gs f)" by (simp add: f makeState_def wg_inv_main)
  moreover have "mutex_left fetch (reach fetch url) f =
      2 + (\<Sum>u \<in> reach fetch url. case fetch u of None \<Rightarrow> 1 | Some us \<Rightarrow> 3 + 3 * length us)"
    by (simp add: f makeState_def mutex_left_def page_cost_def)
  ultimately show ?case by simp
next
  case (Suc k)
  then obtain r where r1: "(mutex_step fetch ^^ k) (makeState url) r" "mutex_step fetch r f" by auto
  then obtain i where r: "(mutex_step fetch ^^ k) (makeState url) r" "i < length (fs_gs r)"
    "ConcurrentMutex_step fetch i r = Some f" unfolding mutex_step_def by blast
  note IH = Suc.IH [OF r(1)]
  show ?case using IH wg_inv_step [OF _ r(2,3)] mutex_page_step [OF r(2,3) _ assms(2)] by fastforce
qed

lemma ended_pcs: "\<forall>g \<in> set gs. gpc g = Ended \<Longrightarrow> pcs gs = replicate_mset (length gs) Ended"
  by (induction gs) auto

text \<open>Property C39: however its goroutines interleave, the crawler with a mutex never blocks for ever and no wait group
  counter becomes negative. The call made by \<open>main\<close> returns after a number of steps that only depends on
  the pages; then all goroutines have ended, every page that can be reached has been fetched exactly once
  and no other page has been.
\<close>

theorem ConcurrentMutex_correct:
  assumes "(mutex_step fetch ^^ k) (makeState url) f" and "finite (reach fetch url)"
  shows "k \<le> 2 + (\<Sum>u \<in> reach fetch url. case fetch u of None \<Rightarrow> 1 | Some us \<Rightarrow> 3 + 3 * length us) \<and>
    (\<forall>g \<in> set (fs_gs f). 0 \<le> gdone g \<and> (gpc g \<noteq> Ended \<longrightarrow> (\<exists>f'. mutex_step fetch f f'))) \<and>
    (gpc (fs_gs f ! 0) = Ended \<longrightarrow>
       k = 2 + (\<Sum>u \<in> reach fetch url. case fetch u of None \<Rightarrow> 1 | Some us \<Rightarrow> 3 + 3 * length us) \<and>
       (\<forall>g \<in> set (fs_gs f). gpc g = Ended) \<and> distinct (fs_calls f) \<and> set (fs_calls f) = reach fetch url)"
proof -
  note run = mutex_run_inv [OF assms]
  have "(\<forall>g \<in> set (fs_gs f). gpc g = Ended) \<and> distinct (fs_calls f) \<and> set (fs_calls f) = reach fetch url \<and>
      mutex_left fetch (reach fetch url) f = 0" if main: "gpc (fs_gs f ! 0) = Ended"
  proof -
    have all: "\<forall>g \<in> set (fs_gs f). gpc g = Ended" using main_ends_last [OF _ main] run by (auto simp: in_set_conv_nth)
    then have pcs: "pcs (fs_gs f) = replicate_mset (length (fs_gs f)) Ended"
      using ended_pcs by blast
    have "pc_fetching (replicate_mset n Ended) = {#} \<and> pc_todo (replicate_mset n Ended) = {}" for n
      by (induction n) (auto simp: pc_links_def)
    then have "crawl_ok fetch url (fs_fetched f) (fs_calls f) {#} {}"
      using run unfolding fs_ok_def pcs by metis
    then have "distinct (fs_calls f) \<and> set (fs_calls f) = reach fetch url \<and> {u. fs_fetched f u} = reach fetch url"
      by (rule crawl_ok_done)
    moreover have "(\<Sum>p\<in>#replicate_mset n Ended. pc_cost fetch p) = 0" for n by (induction n) auto
    ultimately show ?thesis using all by (simp add: mutex_left_def pcs)
  qed
  moreover have "0 \<le> gdone g" if "g \<in> set (fs_gs f)" for g
    using that run by (auto simp: wg_inv_def in_set_conv_nth)
  ultimately show ?thesis using run mutex_not_stuck [of f _ fetch] by auto
qed

lemma mutex_run_exists:
  assumes "fs_ok fetch url f" and "wg_inv (fs_gs f)" and "finite (reach fetch url)"
  shows "\<exists>k t. (mutex_step fetch ^^ k) f t \<and> gpc (fs_gs t ! 0) = Ended"
  using assms(1,2)
proof (induction "mutex_left fetch (reach fetch url) f" arbitrary: f rule: less_induct)
  case less
  show ?case
  proof (cases "gpc (fs_gs f ! 0) = Ended")
    case False
    moreover have "fs_gs f ! 0 \<in> set (fs_gs f)" using less.prems(2) by (auto simp: wg_inv_def)
    ultimately obtain r i where r: "i < length (fs_gs f)" "ConcurrentMutex_step fetch i f = Some r" "mutex_step fetch f r"
      using mutex_not_stuck [OF less.prems(2)] by (fastforce simp: mutex_step_def)
    from less.hyps [of r] obtain k t where "(mutex_step fetch ^^ k) r t" "gpc (fs_gs t ! 0) = Ended"
      using mutex_page_step [OF r(1,2) less.prems(1) assms(3)] wg_inv_step [OF less.prems(2) r(1,2)] by auto
    then show ?thesis using r(3) by (metis relpowp_Suc_I2)
  next
    case True
    then show ?thesis by (metis relpowp_0_I)
  qed
qed

theorem ConcurrentMutex_correct_witness:
  "\<exists>k f. (mutex_step (fake_Fetch golang) ^^ k) (makeState ''http://golang.org/'') f \<and> gpc (fs_gs f ! 0) = Ended \<and>
     finite (reach (fake_Fetch golang) ''http://golang.org/'') \<and> distinct (fs_calls f) \<and>
     set (fs_calls f) = reach (fake_Fetch golang) ''http://golang.org/''"
proof -
  have "fs_ok (fake_Fetch golang) ''http://golang.org/'' (makeState ''http://golang.org/'') \<and>
      wg_inv (fs_gs (makeState ''http://golang.org/''))"
    using mutex_run_inv [OF relpowp_0_I finite_golang] by blast
  then obtain k f where "(mutex_step (fake_Fetch golang) ^^ k) (makeState ''http://golang.org/'') f" "gpc (fs_gs f ! 0) = Ended"
    using mutex_run_exists [OF _ _ finite_golang] by blast
  then show ?thesis using ConcurrentMutex_correct [OF _ finite_golang] finite_golang by blast
qed

end
