(* ===== verification/MyCrawler.thy ===== *)
theory MyCrawler
  imports CrawlerMutex
begin

text \<open>
  The crawler of \<open>src/Lectures/lec2/my_crawler.go\<close>: the crawler with a mutex, with a bound on the depth. Its
  goroutines, program counters and wait groups are those of \<open>CrawlerMutex\<close>, a call being made with a page and a
  depth. A page is fetched while the lock of the cache is held, so that the look-up, the call of \<open>Fetch\<close>
  and the new entry are one step; \<open>AtFetch\<close> is not used. The text of a page is only printed.
\<close>

section \<open>Steps\<close>

record 'u Cache =
  cm :: "'u \<Rightarrow> bool"
  cm_calls :: "'u list"
  cm_gs :: "('u \<times> int) goroutine list"

definition Crawl_main :: "'u \<Rightarrow> int \<Rightarrow> 'u Cache" where
  "Crawl_main url depth =
     \<lparr>cm = (\<lambda>_. False), cm_calls = [], cm_gs = [\<lparr>gpc = AtLock (url, depth), gparent = None, gdone = 0\<rparr>]\<rparr>"

definition Crawl_step :: "'u Fetcher \<Rightarrow> nat \<Rightarrow> 'u Cache \<Rightarrow> 'u Cache option" where
  "Crawl_step fetch i f =
     (case gpc (cm_gs f ! i) of
        AtLock (url, depth) \<Rightarrow>
          Some (if depth \<le> 0 \<or> cm f url then f\<lparr>cm_gs := setpc i AtReturn (cm_gs f)\<rparr>
                else f\<lparr>cm := (cm f)(url := True), cm_calls := cm_calls f @ [url],
                       cm_gs := setpc i (case fetch url of
                                           None \<Rightarrow> AtReturn
                                         | Some urls \<Rightarrow> AtLoop (map (\<lambda>u. (u, depth - 1)) urls)) (cm_gs f)\<rparr>)
      | AtLoop (u # us) \<Rightarrow>
          Some (f\<lparr>cm_gs := (cm_gs f)[i := (cm_gs f ! i)\<lparr>gpc := AtLoop us, gdone := gdone (cm_gs f ! i) + 1\<rparr>] @
                             [\<lparr>gpc = AtLock u, gparent = Some i, gdone = 0\<rparr>]\<rparr>)
      | AtLoop [] \<Rightarrow> Some (f\<lparr>cm_gs := setpc i AtWait (cm_gs f)\<rparr>)
      | AtWait \<Rightarrow> if gdone (cm_gs f ! i) = 0 then Some (f\<lparr>cm_gs := setpc i AtReturn (cm_gs f)\<rparr>) else None
      | AtReturn \<Rightarrow> Some (f\<lparr>cm_gs := signOff (gparent (cm_gs f ! i)) (setpc i Ended (cm_gs f))\<rparr>)
      | AtFetch _ \<Rightarrow> None
      | Ended \<Rightarrow> None)"

definition depth_step :: "'u Fetcher \<Rightarrow> 'u Cache \<Rightarrow> 'u Cache \<Rightarrow> bool" where
  "depth_step fetch f f' \<longleftrightarrow> (\<exists>i < length (cm_gs f). Crawl_step fetch i f = Some f')"

section \<open>Pages within a depth\<close>

fun within :: "'u Fetcher \<Rightarrow> nat \<Rightarrow> 'u \<Rightarrow> 'u set" where
  "within fetch 0 u = {}"
| "within fetch (Suc n) u = insert u (\<Union>v \<in> set (links fetch u). within fetch n v)"

lemma finite_within [simp]: "finite (within fetch n u)"
  by (induction n arbitrary: u) auto

lemma within_start: "0 < d \<Longrightarrow> u \<in> within fetch (nat d) u"
  by (cases "nat d") auto

lemma within_link: "v \<in> set (links fetch u) \<Longrightarrow> within fetch (nat (d - 1)) v \<subseteq> within fetch (nat d) u"
  by (cases "0 < d"; cases "nat d") (auto simp: nat_diff_distrib)

section \<open>Invariant\<close>

text \<open>
  A goroutine has lost as much of the depth as pages lie on the way to it, and these are in the cache. So
  no link is cut off when the depth exceeds the number of pages.
\<close>

definition todo_ok :: "'u Fetcher \<Rightarrow> 'u \<Rightarrow> int \<Rightarrow> 'u list \<Rightarrow> 'u \<times> int \<Rightarrow> bool" where
  "todo_ok fetch url depth called x \<longleftrightarrow> fst x \<in> reach fetch url \<and>
     within fetch (nat (snd x)) (fst x) \<subseteq> within fetch (nat depth) url \<and> depth \<le> snd x + int (length called)"

definition depth_ok :: "'u Fetcher \<Rightarrow> 'u \<Rightarrow> int \<Rightarrow> ('u \<Rightarrow> bool) \<Rightarrow> 'u list \<Rightarrow> ('u \<times> int) set \<Rightarrow> bool" where
  "depth_ok fetch url depth cached called T \<longleftrightarrow>
     distinct called \<and> set called = {u. cached u} \<and> set called \<subseteq> within fetch (nat depth) url \<inter> reach fetch url \<and>
     (\<forall>x \<in> T. todo_ok fetch url depth called x) \<and>
     (finite (reach fetch url) \<and> int (card (reach fetch url)) < depth \<longrightarrow>
        insert url (\<Union>u \<in> set called. set (links fetch u)) \<subseteq> set called \<union> fst ` T)"

lemma depth_ok_start: "depth_ok fetch url depth (\<lambda>_. False) [] {(url, depth)}"
  by (auto simp: depth_ok_def todo_ok_def intro: reach_start)

lemma depth_okD:
  assumes "depth_ok fetch url depth cached called T"
  shows "distinct called" "set called = {u. cached u}" "set called \<subseteq> within fetch (nat depth) url \<inter> reach fetch url"
    and "\<forall>x \<in> T. todo_ok fetch url depth called x"
    and "finite (reach fetch url) \<Longrightarrow> int (card (reach fetch url)) < depth \<Longrightarrow>
      insert url (\<Union>u \<in> set called. set (links fetch u)) \<subseteq> set called \<union> fst ` T"
proof -
  note ok = assms [unfolded depth_ok_def]
  show "distinct called" using ok by (rule conjunct1)
  show "set called = {u. cached u}" using conjunct2 [OF ok] by (rule conjunct1)
  show "set called \<subseteq> within fetch (nat depth) url \<inter> reach fetch url" using conjunct2 [OF conjunct2 [OF ok]] by (rule conjunct1)
  note rest = conjunct2 [OF conjunct2 [OF conjunct2 [OF ok]]]
  show "\<forall>x \<in> T. todo_ok fetch url depth called x" using rest by (rule conjunct1)
  show "insert url (\<Union>u \<in> set called. set (links fetch u)) \<subseteq> set called \<union> fst ` T"
    if "finite (reach fetch url)" "int (card (reach fetch url)) < depth"
    using conjunct2 [OF rest] that by simp
qed

text \<open>A goroutine returns because of the depth or because its page is in the cache.\<close>

lemma depth_ok_skip:
  assumes ok: "depth_ok fetch url depth cached called (insert (u, d) T)" and "d \<le> 0 \<or> cached u"
  shows "depth_ok fetch url depth cached called T"
proof -
  have "u \<in> set called" if big: "finite (reach fetch url)" "int (card (reach fetch url)) < depth"
  proof -
    have "card (set called) \<le> card (reach fetch url)" using depth_okD(3) [OF ok] big(1) by (intro card_mono) simp_all
    then have "0 < d" using depth_okD(4) [OF ok] big(2) distinct_card [OF depth_okD(1) [OF ok]] by (simp add: todo_ok_def)
    then show ?thesis using assms(2) depth_okD(2) [OF ok] by simp
  qed
  moreover have "insert url (\<Union>u \<in> set called. set (links fetch u)) \<subseteq> set called \<union> fst ` T"
    if "u \<in> set called" "insert url (\<Union>u \<in> set called. set (links fetch u)) \<subseteq> set called \<union> fst ` insert (u, d) T"
    using that by auto
  ultimately have "insert url (\<Union>u \<in> set called. set (links fetch u)) \<subseteq> set called \<union> fst ` T"
    if "finite (reach fetch url) \<and> int (card (reach fetch url)) < depth"
    using that depth_okD(5) [OF ok] by simp
  then show ?thesis using depth_okD(1-4) [OF ok] by (simp add: depth_ok_def)
qed

lemma depth_ok_fetch:
  assumes ok: "depth_ok fetch url depth cached called (insert (u, d) T)" and u: "0 < d" "\<not> cached u"
  shows "depth_ok fetch url depth (cached(u := True)) (called @ [u]) ((\<lambda>v. (v, d - 1)) ` set (links fetch u) \<union> T)"
    and "u \<in> within fetch (nat depth) url - {v. cached v}"
proof -
  have t: "u \<in> reach fetch url" "within fetch (nat d) u \<subseteq> within fetch (nat depth) url" "depth \<le> d + int (length called)"
    using depth_okD(4) [OF ok] by (simp_all add: todo_ok_def)
  show w: "u \<in> within fetch (nat depth) url - {v. cached v}" using subsetD [OF t(2) within_start [OF u(1)]] u(2) by simp
  have "todo_ok fetch url depth (called @ [u]) (v, d - 1)" if "v \<in> set (links fetch u)" for v
  proof -
    have "within fetch (nat (d - 1)) v \<subseteq> within fetch (nat depth) url" using within_link [OF that] t(2) by blast
    moreover have "v \<in> reach fetch url" using reach_link [OF t(1) that] .
    ultimately show ?thesis using t(3) by (simp add: todo_ok_def)
  qed
  moreover have "\<forall>x \<in> T. todo_ok fetch url depth (called @ [u]) x" using depth_okD(4) [OF ok] by (auto simp: todo_ok_def)
  ultimately have todo: "\<forall>x \<in> (\<lambda>v. (v, d - 1)) ` set (links fetch u) \<union> T. todo_ok fetch url depth (called @ [u]) x" by auto
  have links: "insert url (\<Union>u \<in> set (called @ [u]). set (links fetch u)) \<subseteq>
      set (called @ [u]) \<union> fst ` ((\<lambda>v. (v, d - 1)) ` set (links fetch u) \<union> T)"
    if "finite (reach fetch url) \<and> int (card (reach fetch url)) < depth"
    using depth_okD(5) [OF ok] that by (auto simp: image_Un image_image)
  have "distinct (called @ [u])" "set (called @ [u]) = {v. (cached(u := True)) v}"
    "set (called @ [u]) \<subseteq> within fetch (nat depth) url \<inter> reach fetch url"
    using depth_okD(1,2,3) [OF ok] u(2) t(1) w by auto
  then show "depth_ok fetch url depth (cached(u := True)) (called @ [u]) ((\<lambda>v. (v, d - 1)) ` set (links fetch u) \<union> T)"
    unfolding depth_ok_def using todo links by (intro conjI impI)
qed

definition cache_ok :: "'u Fetcher \<Rightarrow> 'u \<Rightarrow> int \<Rightarrow> 'u Cache \<Rightarrow> bool" where
  "cache_ok fetch url depth f \<longleftrightarrow> pc_fetching (pcs (cm_gs f)) = {#} \<and>
     depth_ok fetch url depth (cm f) (cm_calls f) (pc_todo (pcs (cm_gs f)))"

text \<open>The steps that are left when all pages are fetched: every step takes one off.\<close>

definition link_cost :: "'u Fetcher \<Rightarrow> 'u \<Rightarrow> nat" where
  "link_cost fetch u = (case fetch u of None \<Rightarrow> 0 | Some us \<Rightarrow> 2 + 3 * length us)"

definition depth_left :: "'u Fetcher \<Rightarrow> 'u set \<Rightarrow> 'u Cache \<Rightarrow> nat" where
  "depth_left fetch W f =
     (\<Sum>u \<in> W - {u. cm f u}. link_cost fetch u) + (\<Sum>p\<in>#pcs (cm_gs f). pc_cost (\<lambda>_. None) p)"

lemma depth_lock_step:
  assumes pcs: "pcs (cm_gs f) = add_mset (AtLock (u, d)) R" and ok: "cache_ok fetch url depth f"
    and f': "cm f' = (cm f)(u := True)" "cm_calls f' = cm_calls f @ [u]"
      "pcs (cm_gs f') = add_mset (case fetch u of None \<Rightarrow> AtReturn | Some us \<Rightarrow> AtLoop (map (\<lambda>v. (v, d - 1)) us)) R"
    and new: "0 < d" "\<not> cm f u"
  shows "cache_ok fetch url depth f'"
    and "depth_left fetch (within fetch (nat depth) url) f = Suc (depth_left fetch (within fetch (nat depth) url) f')"
proof -
  let ?W = "within fetch (nat depth) url - {v. cm f v}"
  have ok': "depth_ok fetch url depth (cm f) (cm_calls f) (insert (u, d) (pc_todo R))"
    using ok by (simp add: cache_ok_def pcs pc_links_def)
  have "pc_todo (pcs (cm_gs f')) = (\<lambda>v. (v, d - 1)) ` set (links fetch u) \<union> pc_todo R"
    by (auto simp: f'(3) pc_links_def links_def split: option.split)
  then show "cache_ok fetch url depth f'"
    using depth_ok_fetch(1) [OF ok' new] ok by (auto simp: cache_ok_def f' pcs split: option.split)
  have "(\<Sum>x \<in> ?W. link_cost fetch x) = link_cost fetch u + (\<Sum>x \<in> ?W - {u}. link_cost fetch x)"
    using depth_ok_fetch(2) [OF ok' new] by (simp add: sum.remove)
  moreover have "?W - {u} = within fetch (nat depth) url - {x. cm f' x}" by (auto simp: f')
  ultimately show "depth_left fetch (within fetch (nat depth) url) f = Suc (depth_left fetch (within fetch (nat depth) url) f')"
    by (simp add: depth_left_def pcs f'(3) link_cost_def split: option.split)
qed

lemma depth_page_step:
  assumes i: "i < length (cm_gs f)" and step: "Crawl_step fetch i f = Some f'" and ok: "cache_ok fetch url depth f"
  shows "cache_ok fetch url depth f'" (is ?ok)
    and "depth_left fetch (within fetch (nat depth) url) f = Suc (depth_left fetch (within fetch (nat depth) url) f')" (is ?left)
proof -
  obtain R where R: "pcs (cm_gs f) = add_mset (gpc (cm_gs f ! i)) R"
    "\<And>g. pcs ((cm_gs f)[i := g]) = add_mset (gpc g) R" using pcs_update [OF i] by blast
  have "?ok \<and> ?left"
  proof (cases "gpc (cm_gs f ! i)")
    case (AtLock x)
    obtain u d where x: "x = (u, d)" by (cases x)
    show ?thesis
    proof (cases "d \<le> 0 \<or> cm f u")
      case True
      then have f': "f' = f\<lparr>cm_gs := setpc i AtReturn (cm_gs f)\<rparr>" using step AtLock x by (simp add: Crawl_step_def)
      have "depth_ok fetch url depth (cm f) (cm_calls f) (pc_todo R)"
        using depth_ok_skip [of fetch url depth "cm f" _ u d] True ok AtLock x by (simp add: cache_ok_def R pc_links_def)
      then show ?thesis using ok AtLock by (auto simp: cache_ok_def f' setpc_def R depth_left_def pc_links_def)
    next
      case False
      then show ?thesis using step AtLock x depth_lock_step [OF _ ok, of u d R f'] R
        by (auto simp: Crawl_step_def setpc_def)
    qed
  next
    case (AtLoop us)
    then show ?thesis using step ok
      by (cases us) (auto simp: Crawl_step_def setpc_def R cache_ok_def depth_left_def pc_links_def)
  qed (use step ok in \<open>auto simp: Crawl_step_def setpc_def R cache_ok_def depth_left_def pc_links_def split: if_splits\<close>)
  then show ?ok ?left by blast+
qed

lemma wg_inv_Crawl_step:
  assumes inv: "wg_inv (cm_gs f)" and i: "i < length (cm_gs f)" and step: "Crawl_step fetch i f = Some f'"
  shows "wg_inv (cm_gs f')"
proof (cases "gpc (cm_gs f ! i)")
  case (AtLock x)
  then have "gdone (cm_gs f ! i) = 0" using wg_inv_idle [OF inv i] by (simp add: waiting_def)
  then show ?thesis using AtLock step
    by (cases x) (auto simp: Crawl_step_def intro!: wg_inv_setpc inv i split: if_splits option.split)
next
  case (AtLoop us)
  then show ?thesis using step
    by (cases us) (auto simp: Crawl_step_def waiting_def intro!: wg_inv_setpc wg_inv_spawn inv i)
next
  case AtReturn
  then show ?thesis using step by (auto simp: Crawl_step_def intro!: wg_inv_return inv i)
qed (use step in \<open>auto simp: Crawl_step_def intro!: wg_inv_setpc inv i split: if_splits\<close>)

lemma depth_not_stuck:
  assumes "wg_inv (cm_gs f)" and "pc_fetching (pcs (cm_gs f)) = {#}" and "g \<in> set (cm_gs f)" "gpc g \<noteq> Ended"
  shows "\<exists>f'. depth_step fetch f f'"
proof -
  obtain i where i: "i < length (cm_gs f)" "gpc (cm_gs f ! i) \<noteq> Ended" "gdone (cm_gs f ! i) = 0"
    using wg_inv_free [OF assms(1,3,4)] by blast
  moreover have "gpc (cm_gs f ! i) \<noteq> AtFetch x" for x
    using assms(2) by (rule_tac pcs_update [OF i(1)]) auto
  ultimately have "Crawl_step fetch i f \<noteq> None"
    by (auto simp: Crawl_step_def split: crawler_pc.splits list.splits)
  then show ?thesis using i(1) unfolding depth_step_def by blast
qed

lemma depth_run_inv:
  assumes "(depth_step fetch ^^ k) (Crawl_main url depth) f"
  shows "cache_ok fetch url depth f \<and> wg_inv (cm_gs f) \<and> k + depth_left fetch (within fetch (nat depth) url) f =
    2 + (\<Sum>u \<in> within fetch (nat depth) url. link_cost fetch u)"
  using assms
proof (induction k arbitrary: f)
  case 0
  then have f: "f = Crawl_main url depth" by auto
  then show ?case using depth_ok_start [of fetch url depth] wg_inv_main
    by (simp add: Crawl_main_def cache_ok_def pc_links_def depth_left_def)
next
  case (Suc k)
  then obtain r i where r: "(depth_step fetch ^^ k) (Crawl_main url depth) r" "i < length (cm_gs r)"
    "Crawl_step fetch i r = Some f" unfolding depth_step_def by auto
  show ?case using Suc.IH [OF r(1)] wg_inv_Crawl_step [OF _ r(2,3)] depth_page_step [OF r(2,3)] by fastforce
qed

text \<open>
  However its goroutines interleave, \<open>Crawl\<close> never blocks for ever and makes a bounded number of steps. It
  fetches no page twice and no page farther away than the depth, and when the depth exceeds the number of
  pages that can be reached, all of these have been fetched when the call made by \<open>main\<close> returns.
\<close>

theorem Crawl_correct:
  assumes run: "(depth_step fetch ^^ k) (Crawl_main url depth) f"
  shows "k \<le> 2 + (\<Sum>u \<in> within fetch (nat depth) url. link_cost fetch u) \<and>
    (\<forall>g \<in> set (cm_gs f). 0 \<le> gdone g \<and> (gpc g \<noteq> Ended \<longrightarrow> (\<exists>f'. depth_step fetch f f'))) \<and>
    distinct (cm_calls f) \<and> set (cm_calls f) \<subseteq> within fetch (nat depth) url \<and>
    (gpc (cm_gs f ! 0) = Ended \<longrightarrow> (\<forall>g \<in> set (cm_gs f). gpc g = Ended) \<and>
       (finite (reach fetch url) \<and> int (card (reach fetch url)) < depth \<longrightarrow> set (cm_calls f) = reach fetch url))"
proof -
  note inv = depth_run_inv [OF run]
  have ok: "depth_ok fetch url depth (cm f) (cm_calls f) (pc_todo (pcs (cm_gs f)))" using inv by (simp add: cache_ok_def)
  have all: "\<forall>g \<in> set (cm_gs f). gpc g = Ended" if "gpc (cm_gs f ! 0) = Ended"
    using main_ends_last [OF _ that] inv by (auto simp: in_set_conv_nth)
  have "set (cm_calls f) = reach fetch url"
    if main: "gpc (cm_gs f ! 0) = Ended" and big: "finite (reach fetch url)" "int (card (reach fetch url)) < depth"
  proof -
    have "pc_todo (pcs (cm_gs f)) = {}" using all [OF main] by (auto simp: pc_todo_def pc_links_def)
    then have "insert url (\<Union>u \<in> set (cm_calls f). set (links fetch u)) \<subseteq> set (cm_calls f)"
      using depth_okD(5) [OF ok big] by simp
    then have "reach fetch url \<subseteq> set (cm_calls f)" by (intro reach_closed) auto
    then show ?thesis using depth_okD(3) [OF ok] by blast
  qed
  moreover have "0 \<le> gdone g" if "g \<in> set (cm_gs f)" for g
    using that inv by (auto simp: wg_inv_def in_set_conv_nth)
  moreover have "k \<le> 2 + (\<Sum>u \<in> within fetch (nat depth) url. link_cost fetch u)" using inv by linarith
  ultimately show ?thesis using all depth_okD(1,3) [OF ok] inv depth_not_stuck [of f _ fetch]
    by (auto simp: cache_ok_def)
qed

section \<open>What the depth makes of the order\<close>

fun schedule :: "'u Fetcher \<Rightarrow> nat list \<Rightarrow> 'u Cache \<Rightarrow> 'u Cache option" where
  "schedule fetch [] f = Some f"
| "schedule fetch (i # is) f =
     (if i < length (cm_gs f) then Option.bind (Crawl_step fetch i f) (schedule fetch is) else None)"

lemma schedule_run: "schedule fetch is f = Some f' \<Longrightarrow> (depth_step fetch ^^ length is) f f'"
proof (induction "is" arbitrary: f)
  case (Cons i "is")
  then obtain r where r: "i < length (cm_gs f)" "Crawl_step fetch i f = Some r" "schedule fetch is r = Some f'"
    by (auto split: if_splits Option.bind_splits)
  then have "(depth_step fetch ^^ length is) r f'" using Cons.IH by simp
  moreover have "depth_step fetch f r" using r by (auto simp: depth_step_def)
  ultimately show ?case using relpowp_Suc_I2 [of "depth_step fetch" f r "length is" f'] by simp
qed simp

text \<open>Page 0 has links to 1 and 2, page 1 to 2, and page 2 to 3, which is two links away from page 0.\<close>

definition short_cut :: "nat Fetcher" where
  "short_cut u = (if u = 0 then Some [1, 2] else if u = 1 then Some [2] else if u = 2 then Some [3] else Some [])"

definition slow_order :: "nat list" where
  "slow_order = [0, 0, 0, 1, 1, 3, 3, 4, 4, 3, 3, 3, 1, 1, 1, 2, 2, 0, 0, 0]"

definition fast_order :: "nat list" where
  "fast_order = [0, 0, 0, 2, 2, 3, 3, 3, 3, 2, 2, 2, 1, 1, 4, 4, 1, 1, 1, 0, 0, 0]"

lemma slow_order_result:
  "\<exists>f. schedule short_cut slow_order (Crawl_main 0 3) = Some f \<and> gpc (cm_gs f ! 0) = Ended \<and> cm_calls f = [0, 1, 2]"
proof -
  have "map_option (\<lambda>f. (gpc (cm_gs f ! 0), cm_calls f)) (schedule short_cut slow_order (Crawl_main 0 3)) = Some (Ended, [0, 1, 2])"
    by code_simp
  then show ?thesis by auto
qed

lemma fast_order_result:
  "\<exists>f. schedule short_cut fast_order (Crawl_main 0 3) = Some f \<and> gpc (cm_gs f ! 0) = Ended \<and> cm_calls f = [0, 2, 3, 1]"
proof -
  have "map_option (\<lambda>f. (gpc (cm_gs f ! 0), cm_calls f)) (schedule short_cut fast_order (Crawl_main 0 3)) = Some (Ended, [0, 2, 3, 1])"
    by code_simp
  then show ?thesis by auto
qed

text \<open>
  The comment on \<open>Crawl\<close> promises the pages up to the depth; what is crawled depends on the order of the
  goroutines. A page whose first visit comes over a detour has too little depth left for its links, and the
  cache keeps later visits from following them: page 3 is within depth 3, but only one of two runs that end
  fetches it.
\<close>

theorem Crawl_misses_pages:
  "(3::nat) \<in> within short_cut 3 0 \<and>
   (\<exists>k f. (depth_step short_cut ^^ k) (Crawl_main 0 3) f \<and> gpc (cm_gs f ! 0) = Ended \<and> 3 \<notin> set (cm_calls f)) \<and>
   (\<exists>k f. (depth_step short_cut ^^ k) (Crawl_main 0 3) f \<and> gpc (cm_gs f ! 0) = Ended \<and> 3 \<in> set (cm_calls f))"
proof -
  have "(3::nat) \<in> within short_cut 3 0" by (simp add: numeral_3_eq_3 links_def short_cut_def)
  moreover obtain f where f: "schedule short_cut slow_order (Crawl_main 0 3) = Some f" "gpc (cm_gs f ! 0) = Ended" "cm_calls f = [0, 1, 2]"
    using slow_order_result by blast
  moreover obtain g where g: "schedule short_cut fast_order (Crawl_main 0 3) = Some g" "gpc (cm_gs g ! 0) = Ended" "cm_calls g = [0, 2, 3, 1]"
    using fast_order_result by blast
  moreover have "3 \<notin> set (cm_calls f)" "3 \<in> set (cm_calls g)" using f(3) g(3) by simp_all
  ultimately show ?thesis using schedule_run [OF f(1)] schedule_run [OF g(1)] by blast
qed

theorem Crawl_correct_witness:
  "\<exists>f. (depth_step short_cut ^^ 22) (Crawl_main 0 3) f \<and> distinct (cm_calls f) \<and>
     set (cm_calls f) \<subseteq> within short_cut (nat 3) (0::nat)"
proof -
  obtain g where "schedule short_cut fast_order (Crawl_main 0 3) = Some g" using fast_order_result by blast
  moreover have "length fast_order = 22" by (simp add: fast_order_def)
  ultimately have "(depth_step short_cut ^^ 22) (Crawl_main 0 3) g" using schedule_run [of short_cut fast_order] by simp
  then show ?thesis using Crawl_correct [of 22 short_cut 0 3 g] by blast
qed

end
