(* ===== verification/LectureKV.thy ===== *)
theory LectureKV
  imports Main
begin

text \<open>
  The key/value server and its clients of \<open>src/Lectures/lec2/kv.go\<close>. A handler runs under the lock and is a
  function of the data. What the package \<open>net/rpc\<close> does with a call is an argument of the client functions:
  the connection fails, the call fails before or after its handler ran, or it succeeds. \<open>log.Fatal\<close> is \<open>None\<close>.
\<close>

section \<open>Messages and handlers\<close>

datatype lkErr = lkOK | lkErrNoKey

record lkPutArgs =
  lkpKey :: string
  lkpValue :: string

record lkGetArgs =
  lkgKey :: string

record lkGetReply =
  lkgErr :: lkErr
  lkgValue :: string

type_synonym lkKV = "string \<rightharpoonup> string"

definition lkGet :: "lkGetArgs \<Rightarrow> lkKV \<Rightarrow> lkGetReply" where
  "lkGet args kv =
     (case kv (lkgKey args) of
        Some v \<Rightarrow> \<lparr>lkgErr = lkOK, lkgValue = v\<rparr>
      | None \<Rightarrow> \<lparr>lkgErr = lkErrNoKey, lkgValue = []\<rparr>)"

definition lkPut :: "lkPutArgs \<Rightarrow> lkKV \<Rightarrow> lkKV \<times> lkErr" where
  "lkPut args kv = (kv(lkpKey args \<mapsto> lkpValue args), lkOK)"

section \<open>Clients\<close>

datatype rpc_outcome =
  DialFails
| CallFails bool
| CallReturns

definition lk_get :: "string \<Rightarrow> rpc_outcome \<Rightarrow> lkKV \<Rightarrow> string option" where
  "lk_get key net kv =
     (let args = \<lparr>lkgKey = ''subject''\<rparr>
      in case net of CallReturns \<Rightarrow> Some (lkgValue (lkGet args kv)) | _ \<Rightarrow> None)"

definition lk_put :: "string \<Rightarrow> string \<Rightarrow> rpc_outcome \<Rightarrow> lkKV \<Rightarrow> lkKV \<times> unit option" where
  "lk_put key value net kv =
     (let args = \<lparr>lkpKey = ''subject'', lkpValue = ''6.824''\<rparr>
      in case net of
           DialFails \<Rightarrow> (kv, None)
         | CallFails executed \<Rightarrow> (if executed then fst (lkPut args kv) else kv, None)
         | CallReturns \<Rightarrow> (fst (lkPut args kv), Some ()))"

definition lk_main :: "rpc_outcome \<Rightarrow> rpc_outcome \<Rightarrow> string option" where
  "lk_main net1 net2 =
     (case lk_put ''subject'' ''6.824'' net1 Map.empty of
        (kv, Some _) \<Rightarrow> lk_get ''subject'' net2 kv
      | _ \<Rightarrow> None)"

section \<open>What the handlers and the clients do\<close>

lemma lkGet_after_lkPut:
  "lkGet \<lparr>lkgKey = k\<rparr> (fst (lkPut \<lparr>lkpKey = k', lkpValue = v\<rparr> kv)) =
     (if k = k' then \<lparr>lkgErr = lkOK, lkgValue = v\<rparr> else lkGet \<lparr>lkgKey = k\<rparr> kv)"
  by (simp add: lkGet_def lkPut_def)

text \<open>
  The handlers store and look up what they are asked to, but \<open>get\<close> and \<open>put\<close> send fixed arguments: whatever has
  been put under whatever key, every key is reported to have the value of the example.
\<close>

theorem lk_clients_ignore_arguments:
  "lk_get k CallReturns (fst (lk_put k' v CallReturns kv)) = Some ''6.824''"
  by (simp add: lk_get_def lk_put_def lkGet_after_lkPut)

theorem lk_main_prints: "lk_main CallReturns CallReturns = Some ''6.824''"
  by (simp add: lk_main_def lk_get_def lk_put_def lkGet_after_lkPut)

end
