(* ===== verification/VoteCount.thy ===== *)
theory VoteCount
  imports Prelude "HOL-Library.Multiset"
begin

text \<open>
  The programs of \<open>src/Lectures/lec5/condvar\<close> that collect the answers of ten goroutines: \<open>vote-count-2.go\<close> and
  \<open>vote-count-3.go\<close>, which look at the counters again and again, \<open>vote-count-4.go\<close> with a condition variable, and
  \<open>chan.go\<close> with a channel. The goroutines that have not reported are the multiset of the answers they are
  going to give. What runs under the lock is one step, and so are a send on the channel and its receipt with
  the rest of that turn of the loop. \<open>vote-count-1.go\<close> has data races, for which the language promises nothing.
\<close>

section \<open>Programs\<close>

datatype counter_main =
  Looking
| Asleep
| Printed bool

record vote_state =
  unreported :: "bool multiset"
  vcount :: int
  vfinished :: int
  vmain :: counter_main

definition vote_start :: "bool multiset \<Rightarrow> vote_state" where
  "vote_start votes = \<lparr>unreported = votes, vcount = 0, vfinished = 0, vmain = Looking\<rparr>"

definition reportVote :: "bool \<Rightarrow> vote_state \<Rightarrow> vote_state" where
  "reportVote vote s =
     (let s = s\<lparr>unreported := unreported s - {#vote#}\<rparr>;
          s = (if vote then s\<lparr>vcount := vcount s + 1\<rparr> else s)
      in s\<lparr>vfinished := vfinished s + 1\<rparr>)"

text \<open>\<open>Broadcast\<close> wakes \<open>main\<close>, which evaluates the condition of its loop again when it has the lock.\<close>

definition Broadcast :: "vote_state \<Rightarrow> vote_state" where
  "Broadcast s = (if vmain s = Asleep then s\<lparr>vmain := Looking\<rparr> else s)"

definition cond_main :: "vote_state \<Rightarrow> vote_state" where
  "cond_main s = s\<lparr>vmain := if vcount s < 5 \<and> vfinished s \<noteq> 10 then Asleep else Printed (vcount s \<ge> 5)\<rparr>"

definition poll_main :: "vote_state \<Rightarrow> vote_state" where
  "poll_main s = (if vcount s \<ge> 5 \<or> vfinished s = 10 then s\<lparr>vmain := Printed (vcount s \<ge> 5)\<rparr> else s)"

definition chan_main :: "vote_state \<Rightarrow> vote_state" where
  "chan_main s = (if vcount s > 5 \<or> vfinished s = 10 then s\<lparr>vmain := Printed (vcount s \<ge> 5)\<rparr> else s)"

inductive cond_step :: "vote_state \<Rightarrow> vote_state \<Rightarrow> bool" where
  cond_vote: "v \<in># unreported s \<Longrightarrow> cond_step s (Broadcast (reportVote v s))"
| cond_look: "vmain s = Looking \<Longrightarrow> cond_step s (cond_main s)"

inductive poll_step :: "vote_state \<Rightarrow> vote_state \<Rightarrow> bool" where
  poll_vote: "v \<in># unreported s \<Longrightarrow> poll_step s (reportVote v s)"
| poll_look: "vmain s = Looking \<Longrightarrow> poll_step s (poll_main s)"

inductive chan_step :: "vote_state \<Rightarrow> vote_state \<Rightarrow> bool" where
  chan_vote: "v \<in># unreported s \<Longrightarrow> vmain s = Looking \<Longrightarrow> chan_step s (chan_main (reportVote v s))"

section \<open>Counters\<close>

definition yes :: "bool multiset \<Rightarrow> int" where
  "yes votes = int (count votes True)"

definition counters_ok :: "bool multiset \<Rightarrow> vote_state \<Rightarrow> bool" where
  "counters_ok votes s \<longleftrightarrow> vcount s + yes (unreported s) = yes votes \<and> vfinished s + int (size (unreported s)) = 10 \<and>
     (\<forall>r. vmain s = Printed r \<longrightarrow> (r \<longleftrightarrow> yes votes \<ge> 5))"

lemma counters_start: "size votes = 10 \<Longrightarrow> counters_ok votes (vote_start votes)"
  by (simp add: counters_ok_def vote_start_def)

lemma counters_vote:
  assumes "v \<in># unreported s" and ok: "counters_ok votes s"
  shows "counters_ok votes (reportVote v s)" and "size (unreported s) = Suc (size (unreported (reportVote v s)))"
    and "vmain (reportVote v s) = vmain s"
proof -
  obtain R where R: "unreported s = add_mset v R" using assms(1) by (metis multi_member_split)
  show "counters_ok votes (reportVote v s)" using ok by (auto simp: counters_ok_def reportVote_def Let_def R yes_def)
  show "size (unreported s) = Suc (size (unreported (reportVote v s)))" by (simp add: reportVote_def Let_def R)
  show "vmain (reportVote v s) = vmain s" by (simp add: reportVote_def Let_def)
qed

lemma counters_decide:
  assumes "counters_ok votes s" and "vcount s \<ge> 5 \<or> vfinished s = 10"
  shows "vcount s \<ge> 5 \<longleftrightarrow> yes votes \<ge> 5"
  using assms by (auto simp: counters_ok_def yes_def)

lemma counters_print:
  assumes "counters_ok votes s" and "vcount s \<ge> 5 \<or> vfinished s = 10"
  shows "counters_ok votes (s\<lparr>vmain := Printed (vcount s \<ge> 5)\<rparr>)"
  using assms counters_decide [OF assms] by (simp add: counters_ok_def)

lemma counters_awake: "counters_ok votes s \<Longrightarrow> p = Looking \<or> p = Asleep \<Longrightarrow> counters_ok votes (s\<lparr>vmain := p\<rparr>)"
  by (auto simp: counters_ok_def)

lemma unreported_left: "counters_ok votes s \<Longrightarrow> vfinished s \<noteq> 10 \<Longrightarrow> \<exists>v. v \<in># unreported s"
  by (auto simp: counters_ok_def) (metis multiset_nonemptyE size_empty int_ops(1) add_cancel_left_right)

section \<open>The condition variable\<close>

text \<open>While \<open>main\<close> sleeps, there is something to wait for; a vote or a look takes at least one off the measure.\<close>

definition cond_inv :: "bool multiset \<Rightarrow> vote_state \<Rightarrow> bool" where
  "cond_inv votes s \<longleftrightarrow> counters_ok votes s \<and> (vmain s = Asleep \<longrightarrow> vcount s < 5 \<and> vfinished s \<noteq> 10)"

definition cond_left :: "vote_state \<Rightarrow> nat" where
  "cond_left s = 2 * size (unreported s) + (if vmain s = Looking then 1 else 0)"

lemma cond_step_inv:
  assumes "cond_step s t" and "cond_inv votes s"
  shows "cond_inv votes t \<and> Suc (cond_left t) \<le> cond_left s"
  using assms
proof (induction rule: cond_step.induct)
  case (cond_vote v s)
  then have "counters_ok votes s" by (simp add: cond_inv_def)
  note vote = counters_vote [OF cond_vote(1) this]
  then show ?case by (auto simp: cond_inv_def cond_left_def Broadcast_def counters_awake)
next
  case (cond_look s)
  show ?case
  proof (cases "vcount s < 5 \<and> vfinished s \<noteq> 10")
    case True
    then show ?thesis using cond_look by (simp add: cond_inv_def cond_left_def cond_main_def counters_awake)
  next
    case False
    then show ?thesis using cond_look counters_print [of votes s] by (auto simp: cond_inv_def cond_left_def cond_main_def)
  qed
qed

text \<open>
  However the goroutines interleave, the program with the condition variable makes at most 21 steps, no
  wake-up is lost, and it prints that it received five votes exactly when five of the ten answers are votes.
\<close>

theorem vote_count_condvar:
  assumes "(cond_step ^^ k) (vote_start votes) s" and "size votes = 10"
  shows "k \<le> 21 \<and> ((\<exists>r. vmain s = Printed r) \<or> (\<exists>t. cond_step s t)) \<and>
    (\<forall>r. vmain s = Printed r \<longrightarrow> (r \<longleftrightarrow> count votes True \<ge> 5))"
proof -
  have inv: "cond_inv votes s \<and> k + cond_left s \<le> 21"
    using assms(1)
  proof (induction k arbitrary: s)
    case 0
    then show ?case using counters_start [OF assms(2)] assms(2)
      by (auto simp: cond_inv_def cond_left_def vote_start_def)
  next
    case (Suc k)
    then obtain r where "(cond_step ^^ k) (vote_start votes) r" "cond_step r s" by auto
    then show ?case using Suc.IH cond_step_inv [of r s votes] by fastforce
  qed
  have "(\<exists>r. vmain s = Printed r) \<or> (\<exists>t. cond_step s t)"
  proof (cases "vmain s")
    case Asleep
    then show ?thesis using inv unreported_left [of votes s] cond_vote by (fastforce simp: cond_inv_def)
  qed (auto intro: cond_look)
  then show ?thesis using inv by (auto simp: cond_inv_def counters_ok_def yes_def)
qed

section \<open>Polling and the channel\<close>

lemma poll_step_inv: "poll_step s t \<Longrightarrow> counters_ok votes s \<Longrightarrow> counters_ok votes t"
proof (induction rule: poll_step.induct)
  case (poll_look s)
  then show ?case using counters_print [of votes s] unfolding poll_main_def by simp
qed (rule counters_vote)

text \<open>
  The polling programs print the same. They may look any number of times, but a look after all goroutines
  have reported is the last one.
\<close>

theorem vote_count_polling:
  assumes "poll_step\<^sup>*\<^sup>* (vote_start votes) s" and "size votes = 10"
  shows "(\<forall>r. vmain s = Printed r \<longrightarrow> (r \<longleftrightarrow> count votes True \<ge> 5)) \<and>
    (unreported s = {#} \<longrightarrow> vmain (poll_main s) = Printed (count votes True \<ge> 5))"
proof -
  have inv: "counters_ok votes s"
    using assms(1) by (induction rule: rtranclp_induct) (auto intro: poll_step_inv counters_start assms(2))
  then have "vcount s = yes votes \<and> vfinished s = 10" if "unreported s = {#}" using that by (simp add: counters_ok_def yes_def)
  then show ?thesis using inv by (auto simp: counters_ok_def poll_main_def yes_def)
qed

definition chan_inv :: "bool multiset \<Rightarrow> vote_state \<Rightarrow> bool" where
  "chan_inv votes s \<longleftrightarrow> counters_ok votes s \<and> (vmain s = Looking \<longrightarrow> vfinished s \<noteq> 10) \<and> vmain s \<noteq> Asleep"

lemma chan_step_inv:
  assumes "chan_step s t" and "chan_inv votes s"
  shows "chan_inv votes t \<and> size (unreported s) = Suc (size (unreported t))"
  using assms
proof (induction rule: chan_step.induct)
  case (chan_vote v s)
  then have "counters_ok votes s" by (simp add: chan_inv_def)
  note vote = counters_vote [OF chan_vote(1) this]
  then show ?case using counters_print [OF vote(1)] chan_vote(2) by (auto simp: chan_inv_def chan_main_def)
qed

text \<open>
  The program with the channel prints the same after at most ten receipts, although its loop is left with
  more than five votes only. Goroutines that have not reported then stay blocked.
\<close>

theorem vote_count_channel:
  assumes "(chan_step ^^ k) (vote_start votes) s" and "size votes = 10"
  shows "k + size (unreported s) = 10 \<and> ((\<exists>r. vmain s = Printed r) \<or> (\<exists>t. chan_step s t)) \<and>
    (\<forall>r. vmain s = Printed r \<longrightarrow> (r \<longleftrightarrow> count votes True \<ge> 5))"
proof -
  have inv: "chan_inv votes s \<and> k + size (unreported s) = 10"
    using assms(1)
  proof (induction k arbitrary: s)
    case 0
    then show ?case using counters_start [OF assms(2)] assms(2) by (auto simp: chan_inv_def vote_start_def)
  next
    case (Suc k)
    then obtain r where "(chan_step ^^ k) (vote_start votes) r" "chan_step r s" by auto
    then show ?case using Suc.IH chan_step_inv [of r s votes] by fastforce
  qed
  have "(\<exists>r. vmain s = Printed r) \<or> (\<exists>t. chan_step s t)"
  proof (cases "vmain s")
    case Looking
    then show ?thesis using inv unreported_left [of votes s] chan_vote by (fastforce simp: chan_inv_def)
  qed (use inv in \<open>auto simp: chan_inv_def\<close>)
  then show ?thesis using inv by (auto simp: chan_inv_def counters_ok_def yes_def)
qed

end
