(* ===== verification/Bank.thy ===== *)
theory Bank
  imports Main
begin

text \<open>
  The transfers of \<open>src/Lectures/lec5/mutex\<close>: two goroutines move a coin between two accounts a thousand
  times each, while \<open>main\<close> looks at the sum. In \<open>bank.go\<close> a transfer runs under the lock; in
  \<open>per-field.go\<close> each of its two halves does. What runs under the lock is one step; the state has how many
  steps each goroutine has made.
\<close>

section \<open>Programs\<close>

record accounts =
  alice :: int
  bob :: int
  turns1 :: nat
  turns2 :: nat

definition bank_start :: accounts where
  "bank_start = \<lparr>alice = 10000, bob = 10000, turns1 = 0, turns2 = 0\<rparr>"

inductive bank_step :: "accounts \<Rightarrow> accounts \<Rightarrow> bool" where
  bank1: "turns1 s < 1000 \<Longrightarrow> bank_step s (s\<lparr>alice := alice s - 1, bob := bob s + 1, turns1 := turns1 s + 1\<rparr>)"
| bank2: "turns2 s < 1000 \<Longrightarrow> bank_step s (s\<lparr>bob := bob s - 1, alice := alice s + 1, turns2 := turns2 s + 1\<rparr>)"

text \<open>A goroutine of \<open>per-field.go\<close> after an even number of steps is at the start of a turn of its loop.\<close>

inductive field_step :: "accounts \<Rightarrow> accounts \<Rightarrow> bool" where
  take1: "turns1 s < 2000 \<Longrightarrow> even (turns1 s) \<Longrightarrow> field_step s (s\<lparr>alice := alice s - 1, turns1 := turns1 s + 1\<rparr>)"
| give1: "odd (turns1 s) \<Longrightarrow> field_step s (s\<lparr>bob := bob s + 1, turns1 := turns1 s + 1\<rparr>)"
| take2: "turns2 s < 2000 \<Longrightarrow> even (turns2 s) \<Longrightarrow> field_step s (s\<lparr>bob := bob s - 1, turns2 := turns2 s + 1\<rparr>)"
| give2: "odd (turns2 s) \<Longrightarrow> field_step s (s\<lparr>alice := alice s + 1, turns2 := turns2 s + 1\<rparr>)"

definition violation :: "accounts \<Rightarrow> bool" where
  "violation s \<longleftrightarrow> alice s + bob s \<noteq> alice bank_start + bob bank_start"

section \<open>Sums\<close>

text \<open>With one lock per transfer no violation is ever observed, and no account is overdrawn.\<close>

theorem bank_no_violation:
  assumes "bank_step\<^sup>*\<^sup>* bank_start s"
  shows "\<not> violation s" and "9000 \<le> alice s" and "9000 \<le> bob s"
proof -
  have "alice s = 10000 - int (turns1 s) + int (turns2 s) \<and> bob s = 10000 + int (turns1 s) - int (turns2 s) \<and>
      turns1 s \<le> 1000 \<and> turns2 s \<le> 1000"
    using assms by (induction rule: rtranclp_induct) (auto simp: bank_start_def elim!: bank_step.cases)
  then show "\<not> violation s" and "9000 \<le> alice s" and "9000 \<le> bob s" by (simp_all add: violation_def bank_start_def)
qed

text \<open>
  With a lock per account the coins that are on the way are missing in the sum: a violation is observed
  exactly while a goroutine is in the middle of a transfer.
\<close>

theorem per_field_violation:
  assumes "field_step\<^sup>*\<^sup>* bank_start s"
  shows "violation s \<longleftrightarrow> odd (turns1 s) \<or> odd (turns2 s)"
proof -
  have "alice s + bob s = 20000 - int (turns1 s mod 2) - int (turns2 s mod 2)"
    using assms
  proof (induction rule: rtranclp_induct)
    case (step s t)
    from step.hyps(2) step.IH show ?case
      by (cases rule: field_step.cases) (auto simp: mod_Suc even_iff_mod_2_eq_zero odd_iff_mod_2_eq_one)
  qed (simp add: bank_start_def)
  then show ?thesis by (auto simp: violation_def bank_start_def odd_iff_mod_2_eq_one even_iff_mod_2_eq_zero)
qed

theorem per_field_violation_observed: "\<exists>s. field_step bank_start s \<and> violation s"
  using take1 [of bank_start] by (auto simp: violation_def bank_start_def)

end
