(* ===== verification/Spec2Isabelle.thy ===== *)
theory Spec2Isabelle
  imports RaftTheorems RaftConfigNet RaftHarness KVClerk KVLinear KVConfig MRJob Visualize SMConfig SKHarness LabGob
    CrawlerChannel MyCrawler LectureKV VoteCount Bank
begin

text \<open>
  A verification library for the Go programs of the MIT 6.824 labs under \<open>src/src\<close>: a MapReduce
  framework, the Raft consensus algorithm, a key/value service replicated with it, the
  sharded service's clients, the simulated network they run on, the harnesses that test them and the
  linearizability checker; and the larger examples of the lectures under
  \<open>src/Lectures\<close>.

  \<^bold>\<open>Parts of the program and how they interact.\<close> A Raft peer (\<open>raft/raft.go\<close>) keeps a log, talks to
  its peers by RPC and delivers committed entries to the service above; it saves term, vote and log
  through a persister (\<open>raft/persister.go\<close>) in the encoding of \<open>labgob/labgob.go\<close>. The key/value
  server (\<open>kvraft/server.go\<close>) hands client requests to Raft and executes what Raft delivers; the
  clerk (\<open>kvraft/client.go\<close>) retries requests at the servers in turn. The clerks of
  \<open>shardmaster/client.go\<close> and \<open>shardkv/client.go\<close> find the servers of a key through configurations.
  All RPCs go through \<open>labrpc/labrpc.go\<close>, which loses, delays and reorders messages. The MapReduce
  master (\<open>mr/master.go\<close>) hands tasks to workers (\<open>mr/worker.go\<close>) that run a pair of functions such
  as those of \<open>mrapps\<close>; \<open>main/mrsequential.go\<close> is the sequential reference. The checker
  (\<open>porcupine\<close>) decides whether a history of operations is linearizable with respect to a model such
  as that of \<open>models/kv.go\<close>.

  \<^bold>\<open>Conventions.\<close> A Go struct is a record, an operation a function from the old state to the new one
  and the results; what runs under one lock is one step. A panic is \<open>None\<close> or \<open>Inl\<close>. Time, random
  numbers and the answers of the network are arguments. Slices are lists with the bounds checks of
  \<open>Prelude\<close> (\<open>go_nth\<close>, \<open>go_upd\<close>, \<open>go_upto\<close>, \<open>go_from\<close>); \<open>int\<close> is unbounded except where the width
  matters (64-bit words in the bit sets, the 32-bit RPC counter, the conversion of identifiers to
  \<open>uint\<close>). A slice is a value where no claim depends on the array behind it; the one array that two
  goroutines use at the same time, the log of a peer that its requests share, is modelled in \<open>RaftAlias\<close>.
  Loops that need not end are partial functions, with \<open>None\<close> for a run that does not return;
  no theorem about them is conditional on their returning unless it says so. Logging and locks that
  only serialize are not modelled.

  \<^bold>\<open>Theories.\<close>

    \<^item> \<open>Prelude\<close>, \<open>Strconv\<close>: slices, loops, decimal numbers, lists, quorums, invariants of transition systems (locales \<open>quorum_system\<close>
      and \<open>inductive_invariant\<close>).
    \<^item> \<open>Persister\<close>: \<open>raft/persister.go\<close> and the encoder and decoder of \<open>labgob\<close> as streams of values;
      the locale \<open>stable_storage\<close>. \<open>LabGob\<close>: the checks of \<open>labgob.go\<close> on types and values.
    \<^item> \<open>RaftNode\<close>: the record \<open>Raft\<close> and every function of \<open>raft.go\<close>. \<open>RaftProps\<close>, \<open>RaftSteps\<close> and
      \<open>RaftTheorems\<close>: what each operation does on each of its branches, the step relation
      \<open>node_step\<close> with a crash and restart from stable storage, and its invariants: what is on
      disk is what is in memory, terms grow, one vote per term, the log after \<open>AppendEntries\<close> against
      the reference \<open>mergeLog\<close>, commitment, order of application.
    \<^item> \<open>RaftCluster\<close>: a group of peers and the RPCs in flight as a transition system. The code as
      written can elect two leaders in one term and can panic on an outdated reply, because replies
      are not compared with the present term; when vote replies are delivered in their term, there is
      at most one leader per term.
    \<^item> \<open>RaftCommit\<close>, \<open>RaftLog\<close>, \<open>RaftLogSteps\<close>, \<open>RaftLogAccept\<close>, \<open>RaftSafety\<close>: what the leader commits, and the
      invariant of the logs of a cluster with a ghost state (the logs of all leaders so far, the logs
      with which votes were cast, what was acknowledged); log matching, leader completeness and state
      machine safety when replies are handled in their term and requests carry the entries they were made with.
      \<open>RaftApplied\<close>: what the peers deliver.
    \<^item> \<open>RaftAlias\<close>: the arrays behind the logs. A request of \<open>sendAppendEntriesToPeers\<close> shares its entries with the
      log of its sender until \<open>labrpc\<close> encodes it. The code as written can deliver different commands under one
      index when a peer overwrites its log in between; when requests are encoded before that and replies are handled
      in their term, log matching, leader completeness and state machine safety hold. This is the Raft that
      \<open>RaftHarness\<close>, \<open>KVReplicas\<close> and \<open>KVLinear\<close> build on.
    \<^item> \<open>RaftConfig\<close>, \<open>RaftConfigNet\<close>, \<open>RaftHarness\<close>: the harness \<open>raft/config.go\<close>: its endpoints, and that it
      finds agreement and at most one leader per term when it watches such a cluster.
    \<^item> \<open>KVServer\<close>: the server with its handlers and the routine that executes delivered operations, as
      a refinement of a service that executes each operation once. \<open>KVClerk\<close>: the clerk's loops
      (locale \<open>round_robin\<close>). \<open>KVReplicas\<close>: the servers above a Raft cluster agree. \<open>KVLinear\<close>: what the
      clerks observe is linearizable, and the checker accepts it.
    \<^item> \<open>ServerConfig\<close>, \<open>ServerConfigNet\<close>, \<open>KVConfig\<close>, \<open>SMConfig\<close>: the harnesses \<open>kvraft/config.go\<close> and
      \<open>shardmaster/config.go\<close>, which have the same functions: partitions, restarts, clients.
      \<open>SKConfig\<close>, \<open>SKHarness\<close>: \<open>shardkv/config.go\<close> and the group sizes it works for.
    \<^item> \<open>JsonText\<close>: what \<open>encoding/json\<close> does to strings that are not UTF-8. \<open>MapReduce\<close>: master, workers and the file system with inodes; \<open>MRProps\<close>, \<open>MRCluster\<close>,
      \<open>MRJob\<close>: the protocol as a transition system with crashing workers, and the result of a job
      against \<open>mrsequential\<close>; \<open>MRApps\<close>: the applications.
    \<^item> \<open>LabRpc\<close>: the network's tables, the processing of a request, dispatch to services.
    \<^item> \<open>Bitset\<close>, \<open>Checker\<close>, \<open>KvModel\<close>: the checker with its doubly linked list on an explicit heap, its
      cache and its goroutines. \<open>CheckerHeap\<close>: the pointer operations. \<open>CheckerSearch\<close>: the search
      without pointers (locale \<open>good_hist\<close>), its invariant, its correctness and a measure.
      \<open>CheckerSim\<close>: the loop follows that search (locale \<open>search_heap\<close>). \<open>CheckerCorrect\<close>,
      \<open>CheckerOps\<close>, \<open>KvCheck\<close>: \<open>checkSingle\<close>, \<open>CheckOperations\<close> and the key/value model.
      \<open>CheckerPartial\<close>, \<open>Visualize\<close>: the partial linearizations a verbose check stores, and
      \<open>computeVisualizationData\<close> of \<open>porcupine/visualization.go\<close>, which draws them.
    \<^item> \<open>ShardMaster\<close>, \<open>ShardKV\<close>: servers, whose handlers have empty bodies in the repository, and clerks
      (locales \<open>ask_loop\<close> and \<open>shard_clerk\<close>).
    \<^item> \<open>Crawler\<close>, \<open>CrawlerMutex\<close>, \<open>CrawlerChannel\<close>: the three web crawlers of \<open>Lectures/lec2/crawler.go\<close>; the
      concurrent ones as transition systems of goroutines. Each fetches every page that can be reached once.
      \<open>MyCrawler\<close>: the crawler of \<open>lec2/my_crawler.go\<close> with a depth, which fetches all pages when the depth exceeds their
      number and may miss some otherwise. \<open>LectureKV\<close>: \<open>lec2/kv.go\<close>. \<open>VoteCount\<close>, \<open>Bank\<close>: the programs of
      \<open>lec5/condvar\<close> and \<open>lec5/mutex\<close> that share counters.

  \<^bold>\<open>Bounds and fuel.\<close> Only \<open>LabGob.checkType\<close> has fuel, for the depth of its recursion; more than
  the number of reachable types is shown to be enough. The other recursions are structural, have a
  termination proof, or are partial functions that are shown to return.

  \<^bold>\<open>Not modelled.\<close> The page that shows a visualization (output of HTML and JSON), the tests, the start-up code of the programs in \<open>main\<close>, some of which belong to labs
  that are not in the repository, and the lecture examples that show a
  single construct of the language or have data races. \<open>sort.Sort\<close>, reflection and the wire format
  of \<open>encoding/gob\<close> are arguments or values, with what is used of them as hypotheses.
\<close>

end
